(* ===== verification/Rust_Prelude.thy ===== *)
theory Rust_Prelude
  imports
    Main
    "HOL-Library.Word"
    "HOL-Library.AList"
    "HOL-Library.Monad_Syntax"
    "HOL-Library.List_Lexorder"
    "HOL-Library.Product_Lexorder"
begin

text \<open>
  The shared vocabulary of the development: the fragment of Rust and its standard library that the
  crates use, and the generic lemmas the component theories rely on.

  Conventions.
  \<^item> A Rust \<open>Result<T, E>\<close> is the sum \<open>'e + 't\<close>: \<open>Inl\<close> is \<open>Err\<close>, \<open>Inr\<close> is \<open>Ok\<close>.
  \<^item> A computation that may panic (\<open>expect\<close>, an out-of-range index, an arithmetic overflow) has an
    \<open>option\<close> type and \<open>None\<close> is the panic. Such computations are sequenced with the option monad.
  \<^item> Unsigned integers are natural numbers; every operation whose width matters (checked, saturating,
    narrowing) is written out with its bound. Bytes and the values that are manipulated bitwise are
    machine words of \<open>HOL-Library.Word\<close>. \<open>usize\<close> has 64 bits.
  \<^item> A \<open>std::time::Duration\<close> (64-bit seconds plus nanoseconds below one second) is its total number
    of nanoseconds.
  \<^item> Hash maps and B-tree maps are association lists with distinct keys.
\<close>

named_theorems rust_defs \<open>definitions of the Rust standard-library operations\<close>
named_theorems store_inv \<open>preservation of the well-formedness invariants\<close>

type_synonym u8 = "8 word"
type_synonym u64w = "64 word"

section \<open>Unsigned integers\<close>

definition u64_MAX :: nat where "u64_MAX = 2 ^ 64 - 1"
definition u32_MAX :: nat where "u32_MAX = 2 ^ 32 - 1"
definition usize_MAX :: nat where "usize_MAX = 2 ^ 64 - 1"
definition i64_MAX :: nat where "i64_MAX = 2 ^ 63 - 1"

text \<open>\<open>checked_add\<close> and \<open>checked_mul\<close> at width \<open>w\<close>.\<close>

definition checked_add :: "nat \<Rightarrow> nat \<Rightarrow> nat \<Rightarrow> nat option" where
  "checked_add w a b = (if a + b < 2 ^ w then Some (a + b) else None)"

definition checked_mul :: "nat \<Rightarrow> nat \<Rightarrow> nat \<Rightarrow> nat option" where
  "checked_mul w a b = (if a * b < 2 ^ w then Some (a * b) else None)"

definition saturating_add :: "nat \<Rightarrow> nat \<Rightarrow> nat \<Rightarrow> nat" where
  "saturating_add w a b = min (a + b) (2 ^ w - 1)"

definition saturating_mul :: "nat \<Rightarrow> nat \<Rightarrow> nat \<Rightarrow> nat" where
  "saturating_mul w a b = min (a * b) (2 ^ w - 1)"

text \<open>On naturals the truncated difference is exactly Rust's \<open>saturating_sub\<close>.\<close>

definition saturating_sub :: "nat \<Rightarrow> nat \<Rightarrow> nat" where
  "saturating_sub a b = a - b"

text \<open>The narrowing conversion \<open>try_from\<close> into an unsigned type of width \<open>w\<close>.\<close>

definition try_from :: "nat \<Rightarrow> nat \<Rightarrow> nat option" where
  "try_from w a = (if a < 2 ^ w then Some a else None)"

text \<open>\<open>div_ceil\<close> of the unsigned integer types.\<close>

definition div_ceil :: "nat \<Rightarrow> nat \<Rightarrow> nat" where
  "div_ceil a b = (if a mod b = 0 then a div b else a div b + 1)"

declare checked_add_def [rust_defs] checked_mul_def [rust_defs] saturating_add_def [rust_defs]
  saturating_mul_def [rust_defs] saturating_sub_def [rust_defs] try_from_def [rust_defs]

lemma checked_add_Some [simp]: "checked_add w a b = Some c \<longleftrightarrow> c = a + b \<and> a + b < 2 ^ w"
  by (auto simp: checked_add_def)

lemma checked_mul_Some [simp]: "checked_mul w a b = Some c \<longleftrightarrow> c = a * b \<and> a * b < 2 ^ w"
  by (auto simp: checked_mul_def)

lemma try_from_Some [simp]: "try_from w a = Some c \<longleftrightarrow> c = a \<and> a < 2 ^ w"
  by (auto simp: try_from_def)

lemma div_ceil_le_iff:
  assumes "0 < b"
  shows "div_ceil a b \<le> n \<longleftrightarrow> a \<le> n * b"
proof (cases "a mod b = 0")
  case True
  then have a: "a = a div b * b" by (metis add.right_neutral div_mult_mod_eq)
  have "a div b \<le> n \<longleftrightarrow> a div b * b \<le> n * b" using assms by simp
  with True a show ?thesis by (simp add: div_ceil_def)
next
  case False
  have "a div b + 1 \<le> n \<longleftrightarrow> a \<le> n * b"
  proof
    assume "a div b + 1 \<le> n"
    then have "(a div b + 1) * b \<le> n * b" by (rule mult_le_mono1)
    moreover have "a \<le> (a div b + 1) * b"
      using dividend_less_div_times [OF assms, of a] by (simp add: algebra_simps)
    ultimately show "a \<le> n * b" by simp
  next
    assume le: "a \<le> n * b"
    with False have "a \<noteq> n * b" by auto
    with le have "a < n * b" by simp
    then have "a div b < n" using assms by (simp add: div_less_iff_less_mult)
    then show "a div b + 1 \<le> n" by simp
  qed
  with False show ?thesis by (simp add: div_ceil_def)
qed

lemma div_ceil_upper: "0 < b \<Longrightarrow> a \<le> div_ceil a b * b"
  using div_ceil_le_iff [of b a "div_ceil a b"] by simp

lemma less_div_ceil_iff: "0 < b \<Longrightarrow> n < div_ceil a b \<longleftrightarrow> n * b < a"
  using div_ceil_le_iff [of b a n] by linarith

lemma div_ceil_mult_less: "0 < b \<Longrightarrow> div_ceil a b * b < a + b"
  using less_div_ceil_iff [of b "div_ceil a b - 1" a] by (cases "div_ceil a b") auto

lemma div_ceil_0 [simp]: "div_ceil 0 b = 0"
  by (simp add: div_ceil_def)

lemma div_ceil_pos: "0 < b \<Longrightarrow> 0 < a \<Longrightarrow> 0 < div_ceil a b"
  by (simp add: less_div_ceil_iff)

lemma div_ceil_mono: "0 < b \<Longrightarrow> a \<le> a' \<Longrightarrow> div_ceil a b \<le> div_ceil a' b"
  using div_ceil_le_iff [of b a "div_ceil a' b"] div_ceil_upper [of b a'] by linarith

lemma div_ceil_add_mult:
  assumes "0 < b"
  shows "div_ceil (n * b + a) b = n + div_ceil a b"
  using assms by (simp add: div_ceil_def)

section \<open>Durations\<close>

type_synonym duration = nat

text \<open>An \<open>Instant\<close> is a number of nanoseconds of the operating system's monotonic clock.\<close>

type_synonym instant = nat

definition NANOS_PER_SEC :: nat where "NANOS_PER_SEC = 1000000000"
definition NANOS_PER_MILLI :: nat where "NANOS_PER_MILLI = 1000000"

text \<open>The largest \<open>Duration\<close>: \<open>u64::MAX\<close> seconds and 999999999 nanoseconds.\<close>

definition duration_MAX :: duration where "duration_MAX = 2 ^ 64 * NANOS_PER_SEC - 1"

definition from_millis :: "nat \<Rightarrow> duration" where "from_millis ms = ms * NANOS_PER_MILLI"
definition from_secs :: "nat \<Rightarrow> duration" where "from_secs s = s * NANOS_PER_SEC"
definition as_millis :: "duration \<Rightarrow> nat" where "as_millis d = d div NANOS_PER_MILLI"
definition as_secs :: "duration \<Rightarrow> nat" where "as_secs d = d div NANOS_PER_SEC"
definition subsec_nanos :: "duration \<Rightarrow> nat" where "subsec_nanos d = d mod NANOS_PER_SEC"
definition is_zero :: "duration \<Rightarrow> bool" where "is_zero d \<longleftrightarrow> d = 0"

text \<open>\<open>Duration::saturating_add\<close>; \<open>Duration::saturating_sub\<close> is \<^const>\<open>saturating_sub\<close>.\<close>

definition dur_saturating_add :: "duration \<Rightarrow> duration \<Rightarrow> duration" where
  "dur_saturating_add a b = min (a + b) duration_MAX"

declare NANOS_PER_SEC_def [rust_defs] NANOS_PER_MILLI_def [rust_defs] from_millis_def [rust_defs]
  from_secs_def [rust_defs] as_millis_def [rust_defs] as_secs_def [rust_defs]
  subsec_nanos_def [rust_defs] is_zero_def [rust_defs] dur_saturating_add_def [rust_defs]

lemma as_millis_from_millis [simp]: "as_millis (from_millis ms) = ms"
  by (simp add: rust_defs)

lemma from_millis_inject [simp]: "from_millis a = from_millis b \<longleftrightarrow> a = b"
  by (simp add: rust_defs)

lemma from_millis_le [simp]: "from_millis a \<le> from_millis b \<longleftrightarrow> a \<le> b"
  by (simp add: rust_defs)

lemma from_millis_0 [simp]: "from_millis 0 = 0" "from_millis a = 0 \<longleftrightarrow> a = 0"
  by (simp_all add: rust_defs)

lemma as_millis_bound: "d \<le> duration_MAX \<Longrightarrow> as_millis d < 2 ^ 64 * 1000"
  by (simp add: duration_MAX_def rust_defs)

lemma from_millis_as_millis:
  "subsec_nanos d mod NANOS_PER_MILLI = 0 \<Longrightarrow> from_millis (as_millis d) = d"
proof -
  assume "subsec_nanos d mod NANOS_PER_MILLI = 0"
  then have "d mod 1000000000 mod 1000000 = 0" by (simp add: rust_defs)
  then have "d mod 1000000 = 0" by (simp add: mod_mod_cancel)
  then show ?thesis by (simp add: rust_defs) (metis add.right_neutral div_mult_mod_eq)
qed

section \<open>Results\<close>

type_synonym ('e, 'a) result = "'e + 'a"

abbreviation Err :: "'e \<Rightarrow> ('e, 'a) result" where "Err \<equiv> Inl"
abbreviation Ok :: "'a \<Rightarrow> ('e, 'a) result" where "Ok \<equiv> Inr"

text \<open>The \<open>?\<close> operator and \<open>and_then\<close>, \<open>map_err\<close>, \<open>ok_or\<close>.\<close>

definition and_then :: "('e, 'a) result \<Rightarrow> ('a \<Rightarrow> ('e, 'b) result) \<Rightarrow> ('e, 'b) result" where
  "and_then r f = (case r of Inl e \<Rightarrow> Inl e | Inr a \<Rightarrow> f a)"

definition map_err :: "('e \<Rightarrow> 'f) \<Rightarrow> ('e, 'a) result \<Rightarrow> ('f, 'a) result" where
  "map_err f r = (case r of Inl e \<Rightarrow> Inl (f e) | Inr a \<Rightarrow> Inr a)"

definition ok_or :: "'e \<Rightarrow> 'a option \<Rightarrow> ('e, 'a) result" where
  "ok_or e x = (case x of None \<Rightarrow> Inl e | Some a \<Rightarrow> Inr a)"

text \<open>\<open>Result::expect\<close>: an error is a panic.\<close>

definition expect :: "('e, 'a) result \<Rightarrow> 'a option" where
  "expect r = (case r of Inl e \<Rightarrow> None | Inr a \<Rightarrow> Some a)"

text \<open>\<open>collect\<close> into a \<open>Result\<close>: the first error wins.\<close>

fun collect_results :: "('e, 'a) result list \<Rightarrow> ('e, 'a list) result" where
  "collect_results [] = Inr []"
| "collect_results (r # rs) = and_then r (\<lambda>x. and_then (collect_results rs) (\<lambda>xs. Inr (x # xs)))"

lemma and_then_simps [simp]: "and_then (Inl e) f = Inl e" "and_then (Inr a) f = f a"
  by (simp_all add: and_then_def)

lemma and_then_eq_Inr: "and_then r f = Inr b \<longleftrightarrow> (\<exists>a. r = Inr a \<and> f a = Inr b)"
  by (cases r) auto

lemma collect_results_Inr: "collect_results rs = Inr xs \<longleftrightarrow> rs = map Inr xs"
  by (induction rs arbitrary: xs) (auto simp: and_then_eq_Inr Cons_eq_map_conv)

lemma map_err_simps [simp]: "map_err g (Inl e) = Inl (g e)" "map_err g (Inr a) = Inr a"
  by (simp_all add: map_err_def)

lemma map_err_eq_Inr [simp]: "map_err g r = Inr a \<longleftrightarrow> r = Inr a"
  by (cases r) auto

lemma ok_or_simps [simp]: "ok_or e None = Inl e" "ok_or e (Some a) = Inr a"
  by (simp_all add: ok_or_def)

lemma ok_or_eq_Inr [simp]: "ok_or e x = Inr a \<longleftrightarrow> x = Some a"
  by (cases x) auto

lemma expect_simps [simp]: "expect (Inl e) = None" "expect (Inr a) = Some a"
  by (simp_all add: expect_def)

section \<open>Strings\<close>

text \<open>
  A Rust string is a sequence of Unicode scalar values stored as UTF-8; \<open>len\<close> counts bytes and
  \<open>char_indices\<close> pairs every character with the byte offset at which it starts.
\<close>

type_synonym rchar = nat
type_synonym rstr = "rchar list"

definition utf8_encode :: "rchar \<Rightarrow> u8 list" where
  "utf8_encode c =
     (if c < 128 then [of_nat c]
      else if c < 2048 then [of_nat (192 + c div 64), of_nat (128 + c mod 64)]
      else if c < 65536 then
        [of_nat (224 + c div 4096), of_nat (128 + c div 64 mod 64), of_nat (128 + c mod 64)]
      else
        [of_nat (240 + c div 262144), of_nat (128 + c div 4096 mod 64),
         of_nat (128 + c div 64 mod 64), of_nat (128 + c mod 64)])"

definition as_bytes :: "rstr \<Rightarrow> u8 list" where "as_bytes s = concat (map utf8_encode s)"
definition str_len :: "rstr \<Rightarrow> nat" where "str_len s = length (as_bytes s)"

fun char_indices_from :: "nat \<Rightarrow> rstr \<Rightarrow> (nat \<times> rchar) list" where
  "char_indices_from i [] = []"
| "char_indices_from i (c # cs) = (i, c) # char_indices_from (i + length (utf8_encode c)) cs"

definition char_indices :: "rstr \<Rightarrow> (nat \<times> rchar) list" where
  "char_indices s = char_indices_from 0 s"

text \<open>String literals of the source.\<close>

definition str :: "string \<Rightarrow> rstr" where "str = map of_char"

text \<open>\<open>Display\<close> of an unsigned integer.\<close>

fun decimal :: "nat \<Rightarrow> rstr" where
  "decimal n = (if n < 10 then [48 + n] else decimal (n div 10) @ [48 + n mod 10])"

declare decimal.simps [simp del]

definition is_digit :: "rchar \<Rightarrow> bool" where "is_digit c \<longleftrightarrow> 48 \<le> c \<and> c \<le> 57"

definition digits_value :: "rstr \<Rightarrow> nat" where "digits_value = foldl (\<lambda>n c. 10 * n + (c - 48)) 0"

text \<open>\<open>str::parse\<close> for an unsigned integer of \<open>w\<close> bits: an optional plus sign, then digits only.\<close>

definition parse_unsigned :: "nat \<Rightarrow> rstr \<Rightarrow> nat option" where
  "parse_unsigned w s =
     (let ds = (case s of c # cs \<Rightarrow> if c = 43 then cs else s | [] \<Rightarrow> []) in
      if ds = [] \<or> \<not> list_all is_digit ds then None else try_from w (digits_value ds))"

lemma decimal_digits: "\<forall>c \<in> set (decimal n). is_digit c"
proof (induction n rule: decimal.induct)
  case (1 n)
  then show ?case by (subst decimal.simps) (auto simp: is_digit_def)
qed

lemma decimal_nonempty [simp]: "decimal n \<noteq> []"
  by (subst decimal.simps) simp

lemma digits_value_append: "digits_value (s @ [c]) = 10 * digits_value s + (c - 48)"
  by (simp add: digits_value_def)

lemma digits_value_decimal [simp]: "digits_value (decimal n) = n"
proof (induction n rule: decimal.induct)
  case (1 n)
  show ?case
  proof (cases "n < 10")
    case True
    then show ?thesis by (subst decimal.simps) (simp add: digits_value_def)
  next
    case False
    have "decimal n = decimal (n div 10) @ [48 + n mod 10]" using False by (subst decimal.simps) simp
    then show ?thesis using 1 [OF False] by (simp add: digits_value_append)
  qed
qed

lemma decimal_inject [simp]: "decimal m = decimal n \<longleftrightarrow> m = n"
  by (metis digits_value_decimal)

lemma decimal_length: "n < 10 ^ Suc k \<Longrightarrow> length (decimal n) \<le> Suc k"
proof (induction k arbitrary: n)
  case 0
  then show ?case by (subst decimal.simps) simp
next
  case (Suc k)
  have "n div 10 < 10 ^ Suc k" using Suc.prems by (simp add: div_less_iff_less_mult)
  from Suc.IH [OF this] show ?case by (subst decimal.simps) simp
qed

lemma parse_unsigned_decimal: "n < 2 ^ w \<Longrightarrow> parse_unsigned w (decimal n) = Some n"
  using decimal_digits [of n] decimal_nonempty [of n]
  by (cases "decimal n") (auto simp: parse_unsigned_def list_all_iff is_digit_def try_from_def dest: arg_cong [of _ _ digits_value])


definition is_ascii :: "rchar \<Rightarrow> bool" where "is_ascii c \<longleftrightarrow> c < 128"

lemma as_bytes_Nil [simp]: "as_bytes [] = []"
  by (simp add: as_bytes_def)

lemma as_bytes_Cons [simp]: "as_bytes (c # cs) = utf8_encode c @ as_bytes cs"
  by (simp add: as_bytes_def)

lemma as_bytes_append [simp]: "as_bytes (s @ t) = as_bytes s @ as_bytes t"
  by (simp add: as_bytes_def)

lemma as_bytes_ascii: "\<forall>c \<in> set s. is_ascii c \<Longrightarrow> as_bytes s = map of_nat s"
  by (induction s) (auto simp: utf8_encode_def is_ascii_def)

lemma str_len_ascii: "\<forall>c \<in> set s. is_ascii c \<Longrightarrow> str_len s = length s"
  by (simp add: str_len_def as_bytes_ascii)

lemma utf8_encode_nonempty: "0 < length (utf8_encode c)"
  by (simp add: utf8_encode_def)

lemma length_le_str_len: "length s \<le> str_len s"
  unfolding str_len_def
proof (induction s)
  case (Cons c s)
  then show ?case using utf8_encode_nonempty [of c] by (simp del: length_greater_0_conv)
qed simp

lemma inj_on_of_nat_u8: "inj_on (of_nat :: nat \<Rightarrow> u8) {..<256}"
  by (rule inj_onI) (simp add: word_of_nat_eq_iff take_bit_eq_mod)

lemma as_bytes_ascii_inject:
  assumes "\<forall>c \<in> set s. is_ascii c" and "\<forall>c \<in> set t. is_ascii c"
  shows "as_bytes s = as_bytes t \<longleftrightarrow> s = t"
proof -
  have "set s \<union> set t \<subseteq> {..<256}" using assms by (auto simp: is_ascii_def)
  then have "inj_on (of_nat :: nat \<Rightarrow> u8) (set s \<union> set t)"
    using inj_on_of_nat_u8 inj_on_subset by blast
  then show ?thesis using assms by (simp add: as_bytes_ascii inj_on_map_eq_map)
qed

text \<open>Scanning for the first offending character of a string whose prefix is ASCII.\<close>

lemma find_char_indices_from_None:
  "List.find (\<lambda>(i, c). \<not> P c) (char_indices_from n s) = None \<longleftrightarrow> (\<forall>c \<in> set s. P c)"
  by (induction n s rule: char_indices_from.induct) auto

lemma find_char_indices_from_Some:
  assumes ascii: "\<And>c. P c \<Longrightarrow> is_ascii c"
  shows "List.find (\<lambda>(i, c). \<not> P c) (char_indices_from n s) = Some (i, c) \<longleftrightarrow>
    (\<exists>k < length s. i = n + k \<and> s ! k = c \<and> \<not> P c \<and> (\<forall>l < k. P (s ! l)))"
proof (induction n s rule: char_indices_from.induct)
  case (2 n d ds)
  show ?case
  proof (cases "P d")
    case True
    then have len: "length (utf8_encode d) = 1"
      using ascii by (simp add: is_ascii_def utf8_encode_def)
    have "(\<exists>k < length ds. i = Suc n + k \<and> ds ! k = c \<and> \<not> P c \<and> (\<forall>l < k. P (ds ! l))) \<longleftrightarrow>
      (\<exists>k < length (d # ds). i = n + k \<and> (d # ds) ! k = c \<and> \<not> P c \<and> (\<forall>l < k. P ((d # ds) ! l)))"
      (is "?L \<longleftrightarrow> ?R")
    proof
      assume ?L
      then obtain k where "k < length ds" "i = Suc n + k" "ds ! k = c" "\<not> P c" "\<forall>l < k. P (ds ! l)"
        by blast
      with True show ?R by (intro exI [of _ "Suc k"]) (auto simp: less_Suc_eq_0_disj)
    next
      assume ?R
      then obtain k where k: "k < length (d # ds)" "i = n + k" "(d # ds) ! k = c" "\<not> P c"
        "\<forall>l < k. P ((d # ds) ! l)" by blast
      with True obtain m where "k = Suc m" by (cases k) auto
      with k show ?L by (intro exI [of _ m]) fastforce
    qed
    with True len 2 show ?thesis by simp
  next
    case False
    then show ?thesis by (auto simp: less_Suc_eq_0_disj nth_Cons' split: if_splits)
  qed
qed simp

section \<open>Maps as association lists\<close>

abbreviation (input) al_wf :: "('k \<times> 'v) list \<Rightarrow> bool" where
  "al_wf m \<equiv> distinct (map fst m)"

lemma al_length_update:
  "length (AList.update k v m) = (if map_of m k = None then Suc (length m) else length m)"
  by (induction m) (auto simp: map_of_eq_None_iff)

lemma al_length_delete:
  "al_wf m \<Longrightarrow> length (AList.delete k m) = (if map_of m k = None then length m else length m - 1)"
proof (induction m)
  case (Cons p m)
  show ?case
  proof (cases "fst p = k")
    case True
    with Cons.prems have "map_of m k = None" by (auto simp: map_of_eq_None_iff)
    with True Cons show ?thesis by (auto simp: map_of_eq_None_iff)
  next
    case False
    have "map_of m k \<noteq> None \<Longrightarrow> 0 < length m" by (cases m) auto
    with False Cons show ?thesis by (cases "map_of m k") auto
  qed
qed simp

lemma al_length_delete_Suc:
  "al_wf m \<Longrightarrow> map_of m k \<noteq> None \<Longrightarrow> Suc (length (AList.delete k m)) = length m"
  using al_length_delete [of m k] by (cases m) simp_all

lemma map_of_filter_keys: "map_of (filter (\<lambda>(k, _). P k) xs) k = (if P k then map_of xs k else None)"
  by (induction xs) auto

lemma length_filter_keys:
  assumes "distinct (map fst xs)" "distinct ks" "set ks \<subseteq> fst ` set xs"
  shows "length (filter (\<lambda>(k, _). k \<notin> set ks) xs) = length xs - length ks"
proof -
  let ?ys = "filter (\<lambda>(k, _). k \<notin> set ks) xs"
  have "set (map fst ?ys) = fst ` set xs - set ks" by force
  moreover have "distinct (map fst ?ys)" using assms(1) by (simp add: distinct_map_filter)
  ultimately have "length ?ys = card (fst ` set xs - set ks)" using distinct_card [of "map fst ?ys"] by (simp only: length_map)
  then show ?thesis using assms distinct_card [OF assms(1)] distinct_card [OF assms(2)] by (simp add: card_Diff_subset)
qed

lemmas al_simps = AList.update_conv' AList.delete_conv' AList.distinct_update AList.distinct_delete
  al_length_update al_length_delete

section \<open>Lists\<close>

text \<open>Position of the first element satisfying a predicate (\<open>Iterator::enumerate\<close> with an early return).\<close>

fun find_index_from :: "nat \<Rightarrow> ('a \<Rightarrow> bool) \<Rightarrow> 'a list \<Rightarrow> (nat \<times> 'a) option" where
  "find_index_from i P [] = None"
| "find_index_from i P (x # xs) = (if P x then Some (i, x) else find_index_from (Suc i) P xs)"

lemma find_index_from_None: "find_index_from i P xs = None \<longleftrightarrow> (\<forall>x \<in> set xs. \<not> P x)"
  by (induction i P xs rule: find_index_from.induct) auto

lemma find_index_from_Some:
  "find_index_from i P xs = Some (j, x) \<longleftrightarrow>
     (\<exists>k < length xs. j = i + k \<and> xs ! k = x \<and> P x \<and> (\<forall>l < k. \<not> P (xs ! l)))"
proof (induction i P xs rule: find_index_from.induct)
  case (2 i P y ys)
  show ?case
  proof (cases "P y")
    case True
    then show ?thesis by (auto simp: less_Suc_eq_0_disj nth_Cons' split: if_splits)
  next
    case False
    have "(\<exists>k < length (y # ys). j = i + k \<and> (y # ys) ! k = x \<and> P x \<and> (\<forall>l < k. \<not> P ((y # ys) ! l)))
      \<longleftrightarrow> (\<exists>k < length ys. j = Suc i + k \<and> ys ! k = x \<and> P x \<and> (\<forall>l < k. \<not> P (ys ! l)))"
      (is "?L \<longleftrightarrow> ?R")
    proof
      assume ?L
      then obtain k where k: "k < length (y # ys)" "j = i + k" "(y # ys) ! k = x" "P x"
        "\<forall>l < k. \<not> P ((y # ys) ! l)" by blast
      with False obtain m where "k = Suc m" by (cases k) auto
      with k show ?R by (intro exI [of _ m]) fastforce
    next
      assume ?R
      then obtain k where k: "k < length ys" "j = Suc i + k" "ys ! k = x" "P x"
        "\<forall>l < k. \<not> P (ys ! l)" by blast
      with False show ?L by (intro exI [of _ "Suc k"]) (auto simp: less_Suc_eq_0_disj)
    qed
    with False 2 show ?thesis by simp
  qed
qed simp

lemma sorted_hd_le: "sorted (x # xs) \<Longrightarrow> y \<in> set (x # xs) \<Longrightarrow> x \<le> y"
  by auto

end
