(* ===== verification/Identifier.thy ===== *)
theory Identifier
  imports Rust_Prelude
begin

text \<open>
  \<open>runlimit-core/src/identifier.rs\<close>: policy and scope identifiers. The macro \<open>identifier_type!\<close>
  declares two identical newtypes over the same validator; the model has one datatype and one set of
  operations for each.
\<close>

section \<open>The validator\<close>

definition MAX_IDENTIFIER_LENGTH :: nat where "MAX_IDENTIFIER_LENGTH = 128"

datatype identifier_error =
    IdEmpty
  | IdTooLong nat nat
  | IdInvalidCharacter nat rchar

definition is_ascii_alphanumeric :: "rchar \<Rightarrow> bool" where
  "is_ascii_alphanumeric c \<longleftrightarrow>
     (48 \<le> c \<and> c \<le> 57) \<or> (65 \<le> c \<and> c \<le> 90) \<or> (97 \<le> c \<and> c \<le> 122)"

text \<open>The characters \<open>- . _ : /\<close> besides the ASCII letters and digits.\<close>

definition identifier_char :: "rchar \<Rightarrow> bool" where
  "identifier_char c \<longleftrightarrow> is_ascii_alphanumeric c \<or> c \<in> set (str ''-._:/'')"

definition validate_identifier :: "rstr \<Rightarrow> (identifier_error, unit) result" where
  "validate_identifier value =
     (if value = [] then Err IdEmpty
      else if str_len value > MAX_IDENTIFIER_LENGTH
      then Err (IdTooLong (str_len value) MAX_IDENTIFIER_LENGTH)
      else case List.find (\<lambda>(index, character). \<not> identifier_char character) (char_indices value) of
             Some (index, character) \<Rightarrow> Err (IdInvalidCharacter index character)
           | None \<Rightarrow> Ok ())"

section \<open>The two identifier types\<close>

datatype policy_id = PolicyId (policy_id_str: rstr)
datatype scope_id = ScopeId (scope_id_str: rstr)

definition PolicyId_new :: "rstr \<Rightarrow> (identifier_error, policy_id) result" where
  "PolicyId_new value = and_then (validate_identifier value) (\<lambda>_. Ok (PolicyId value))"

definition ScopeId_new :: "rstr \<Rightarrow> (identifier_error, scope_id) result" where
  "ScopeId_new value = and_then (validate_identifier value) (\<lambda>_. Ok (ScopeId value))"

text \<open>\<open>FromStr\<close> and both \<open>TryFrom\<close> implementations forward to \<open>new\<close>; \<open>Display\<close> prints the string.\<close>

definition PolicyId_from_str :: "rstr \<Rightarrow> (identifier_error, policy_id) result" where
  "PolicyId_from_str value = PolicyId_new value"

definition ScopeId_from_str :: "rstr \<Rightarrow> (identifier_error, scope_id) result" where
  "ScopeId_from_str value = ScopeId_new value"

definition PolicyId_display :: "policy_id \<Rightarrow> rstr" where
  "PolicyId_display i = policy_id_str i"

definition ScopeId_display :: "scope_id \<Rightarrow> rstr" where
  "ScopeId_display i = scope_id_str i"

text \<open>The Serde forms: a string, validated again when it is read.\<close>

definition PolicyId_serialize :: "policy_id \<Rightarrow> rstr" where
  "PolicyId_serialize i = policy_id_str i"

definition PolicyId_deserialize :: "rstr \<Rightarrow> (identifier_error, policy_id) result" where
  "PolicyId_deserialize value = PolicyId_new value"

definition ScopeId_serialize :: "scope_id \<Rightarrow> rstr" where
  "ScopeId_serialize i = scope_id_str i"

definition ScopeId_deserialize :: "rstr \<Rightarrow> (identifier_error, scope_id) result" where
  "ScopeId_deserialize value = ScopeId_new value"

section \<open>Well-formed identifiers\<close>

definition identifier_ok :: "rstr \<Rightarrow> bool" where
  "identifier_ok s \<longleftrightarrow> s \<noteq> [] \<and> length s \<le> MAX_IDENTIFIER_LENGTH \<and> (\<forall>c \<in> set s. identifier_char c)"

definition policy_id_ok :: "policy_id \<Rightarrow> bool" where
  "policy_id_ok i \<longleftrightarrow> identifier_ok (policy_id_str i)"

definition scope_id_ok :: "scope_id \<Rightarrow> bool" where
  "scope_id_ok i \<longleftrightarrow> identifier_ok (scope_id_str i)"

lemma str_simps [simp]: "str [] = []" "str (c # cs) = of_char c # str cs"
  by (simp_all add: str_def)

lemma identifier_char_ascii: "identifier_char c \<Longrightarrow> is_ascii c"
  by (auto simp: identifier_char_def is_ascii_alphanumeric_def is_ascii_def)

lemma identifier_char_nonzero: "identifier_char c \<Longrightarrow> c \<noteq> 0"
  by (auto simp: identifier_char_def is_ascii_alphanumeric_def)

lemma validate_identifier_Ok: "validate_identifier s = Ok () \<longleftrightarrow> identifier_ok s"
proof -
  have scan: "List.find (\<lambda>(i, c). \<not> identifier_char c) (char_indices s) = None \<longleftrightarrow>
      (\<forall>c \<in> set s. identifier_char c)"
    unfolding char_indices_def by (rule find_char_indices_from_None)
  have len: "\<forall>c \<in> set s. identifier_char c \<Longrightarrow> str_len s = length s"
    by (simp add: str_len_ascii identifier_char_ascii)
  show ?thesis
    using scan len by (auto simp: validate_identifier_def identifier_ok_def split: option.splits)
qed

lemma identifier_ok_ascii: "identifier_ok s \<Longrightarrow> \<forall>c \<in> set s. is_ascii c"
  by (simp add: identifier_ok_def identifier_char_ascii)

lemma identifier_bytes_nonzero:
  assumes "identifier_ok s"
  shows "0 \<notin> set (as_bytes s)"
proof -
  have "as_bytes s = map of_nat s"
    using assms by (simp add: as_bytes_ascii identifier_ok_ascii)
  moreover have "(of_nat c :: u8) \<noteq> 0" if "c \<in> set s" for c
  proof -
    have "c \<noteq> 0" "c < 128"
      using that assms identifier_char_nonzero identifier_ok_ascii [OF assms]
      by (auto simp: identifier_ok_def is_ascii_def)
    then show ?thesis using inj_onD [OF inj_on_of_nat_u8, of c 0] by auto
  qed
  ultimately show ?thesis by auto
qed

lemma policy_id_new_ok: "PolicyId_new s = Ok i \<longleftrightarrow> identifier_ok s \<and> i = PolicyId s"
  by (auto simp: PolicyId_new_def and_then_eq_Inr validate_identifier_Ok)

lemma scope_id_new_ok: "ScopeId_new s = Ok i \<longleftrightarrow> identifier_ok s \<and> i = ScopeId s"
  by (auto simp: ScopeId_new_def and_then_eq_Inr validate_identifier_Ok)

section \<open>Properties\<close>

text \<open>
  The outcome of identifier validation is completely characterised: it succeeds exactly on
  nonempty strings of at most 128 characters of the token alphabet; it reports the empty string and
  over-long strings (by byte length) first; otherwise it reports the first character outside the
  alphabet, at its byte offset.
\<close>

theorem validate_identifier_outcome:
  "validate_identifier s =
     (if s = [] then Err IdEmpty
      else if str_len s > 128 then Err (IdTooLong (str_len s) 128)
      else if list_all identifier_char s then Ok ()
      else let k = (LEAST k. k < length s \<and> \<not> identifier_char (s ! k))
           in Err (IdInvalidCharacter k (s ! k)))"
proof (cases "list_all identifier_char s")
  case True
  then have "List.find (\<lambda>(i, c). \<not> identifier_char c) (char_indices s) = None"
    unfolding char_indices_def by (simp add: find_char_indices_from_None list_all_iff)
  with True show ?thesis by (simp add: validate_identifier_def MAX_IDENTIFIER_LENGTH_def)
next
  case False
  define k where "k = (LEAST k. k < length s \<and> \<not> identifier_char (s ! k))"
  from False obtain j where "j < length s \<and> \<not> identifier_char (s ! j)"
    by (auto simp: list_all_iff in_set_conv_nth)
  then have k: "k < length s \<and> \<not> identifier_char (s ! k)"
    unfolding k_def by (rule LeastI)
  have "\<forall>l < k. identifier_char (s ! l)"
    using k not_less_Least less_trans unfolding k_def by blast
  with k have "List.find (\<lambda>(i, c). \<not> identifier_char c) (char_indices s) = Some (k, s ! k)"
    unfolding char_indices_def
    by (subst find_char_indices_from_Some) (auto simp: identifier_char_ascii)
  then have "validate_identifier s = (if s = [] then Err IdEmpty
      else if str_len s > 128 then Err (IdTooLong (str_len s) 128)
      else Err (IdInvalidCharacter k (s ! k)))"
    by (simp add: validate_identifier_def MAX_IDENTIFIER_LENGTH_def)
  then show ?thesis unfolding Let_def k_def [symmetric] if_not_P [OF False] .
qed

text \<open>
  Identifiers survive their string forms: parsing what \<open>Display\<close> prints and deserializing what
  Serde wrote both give the identifier back, for every identifier that \<open>new\<close> can construct.
\<close>

theorem policy_id_round_trip:
  assumes "PolicyId_new value = Ok i"
  shows "PolicyId_from_str (PolicyId_display i) = Ok i \<and>
    PolicyId_deserialize (PolicyId_serialize i) = Ok i"
  using assms
  by (auto simp: PolicyId_from_str_def PolicyId_display_def PolicyId_deserialize_def
      PolicyId_serialize_def policy_id_new_ok)

theorem policy_id_round_trip_witness:
  "PolicyId_new (str ''auth/login:v2'') = Ok (PolicyId (str ''auth/login:v2'')) \<and>
   PolicyId_from_str (PolicyId_display (PolicyId (str ''auth/login:v2''))) =
     Ok (PolicyId (str ''auth/login:v2''))"
proof -
  have new: "PolicyId_new (str ''auth/login:v2'') = Ok (PolicyId (str ''auth/login:v2''))"
    by (simp add: policy_id_new_ok identifier_ok_def MAX_IDENTIFIER_LENGTH_def
        identifier_char_def is_ascii_alphanumeric_def)
  show ?thesis using new policy_id_round_trip [OF new] by blast
qed

end
