(* ===== verification/Policy.thy ===== *)
theory Policy
  imports Identifier
begin

text \<open>
  \<open>runlimit-core/src/policy.rs\<close>: validated capacities and periods, the policy trait, fingerprints, and
  the two policy types with their Serde forms. SHA-256 (crate \<open>sha2\<close>) is the parameter \<open>sha256\<close> of
  the definitions that hash; the bytes that are hashed are modelled exactly.
\<close>

section \<open>Portable limits\<close>

definition MAX_EXACT_DOUBLE_INTEGER :: nat where "MAX_EXACT_DOUBLE_INTEGER = 2 ^ 53"
definition MAX_LIMIT :: nat where "MAX_LIMIT = i64_MAX"
definition MAX_WINDOW_MILLIS :: nat where "MAX_WINDOW_MILLIS = MAX_EXACT_DOUBLE_INTEGER div 1000"
definition MAX_WINDOW :: duration where "MAX_WINDOW = from_millis MAX_WINDOW_MILLIS"

section \<open>Capacities\<close>

datatype capacity = Capacity (capacity_get: nat)
datatype capacity_error = CapacityZero | CapacityTooLarge nat nat

definition Capacity_MAX :: capacity where "Capacity_MAX = Capacity MAX_LIMIT"

definition Capacity_new :: "nat \<Rightarrow> (capacity_error, capacity) result" where
  "Capacity_new value =
     (if value = 0 then Err CapacityZero
      else if value > MAX_LIMIT then Err (CapacityTooLarge value MAX_LIMIT)
      else Ok (Capacity value))"

definition capacity_ok :: "capacity \<Rightarrow> bool" where
  "capacity_ok c \<longleftrightarrow> 0 < capacity_get c \<and> capacity_get c \<le> MAX_LIMIT"

section \<open>Replenishment periods\<close>

datatype quota_period = QuotaPeriod (period_millis: nat)
datatype quota_period_error =
    PeriodZero
  | PeriodNotWholeMilliseconds
  | PeriodTooLarge duration duration

definition QuotaPeriod_MAX :: quota_period where "QuotaPeriod_MAX = QuotaPeriod MAX_WINDOW_MILLIS"

definition QuotaPeriod_new :: "duration \<Rightarrow> (quota_period_error, quota_period) result" where
  "QuotaPeriod_new period =
     (if is_zero period then Err PeriodZero
      else if \<not> 1000000 dvd subsec_nanos period then Err PeriodNotWholeMilliseconds
      else if period > MAX_WINDOW then Err (PeriodTooLarge period MAX_WINDOW)
      else case try_from 64 (as_millis period) of
             None \<Rightarrow> Err (PeriodTooLarge period MAX_WINDOW)
           | Some millis \<Rightarrow> if millis = 0 then Err PeriodZero else Ok (QuotaPeriod millis))"

definition period_duration :: "quota_period \<Rightarrow> duration" where
  "period_duration p = from_millis (period_millis p)"

definition period_ok :: "quota_period \<Rightarrow> bool" where
  "period_ok p \<longleftrightarrow> 0 < period_millis p \<and> period_millis p \<le> MAX_WINDOW_MILLIS"

section \<open>Quota modes, fingerprints and the policy trait\<close>

datatype quota_mode = Enforce | Shadow

definition quota_mode_default :: quota_mode where "quota_mode_default = Enforce"

datatype policy_fingerprint = PolicyFingerprint (fingerprint_bytes: "u8 list")

instantiation policy_fingerprint :: linorder
begin

definition less_eq_policy_fingerprint :: "policy_fingerprint \<Rightarrow> policy_fingerprint \<Rightarrow> bool" where
  "a \<le> b \<longleftrightarrow> fingerprint_bytes a \<le> fingerprint_bytes b"

definition less_policy_fingerprint :: "policy_fingerprint \<Rightarrow> policy_fingerprint \<Rightarrow> bool" where
  "a < b \<longleftrightarrow> fingerprint_bytes a < fingerprint_bytes b"

instance
  by standard (auto simp: less_eq_policy_fingerprint_def less_policy_fingerprint_def
      policy_fingerprint.expand)

end

definition PolicyFingerprint_from_digest :: "u8 list \<Rightarrow> policy_fingerprint" where
  "PolicyFingerprint_from_digest digest = PolicyFingerprint digest"

text \<open>The lower-case hexadecimal rendering used by \<open>Display\<close> and \<open>Debug\<close>.\<close>

definition hex_digit :: "nat \<Rightarrow> rchar" where
  "hex_digit d = (if d < 10 then 48 + d else 87 + d)"

definition write_hex :: "u8 list \<Rightarrow> rstr" where
  "write_hex bytes = concat (map (\<lambda>b. [hex_digit (unat b div 16), hex_digit (unat b mod 16)]) bytes)"

text \<open>The trait \<open>RateLimitPolicy\<close> as a dictionary of its methods.\<close>

record 'p rate_limit_policy =
  rl_id :: "'p \<Rightarrow> policy_id"
  rl_scope :: "'p \<Rightarrow> scope_id"
  rl_quota :: "'p \<Rightarrow> capacity"
  rl_quota_period :: "'p \<Rightarrow> quota_period"
  rl_capacity :: "'p \<Rightarrow> capacity"
  rl_fingerprint :: "'p \<Rightarrow> policy_fingerprint"
  rl_quota_mode :: "'p \<Rightarrow> quota_mode"

section \<open>Fixed-window policies\<close>

text \<open>\<open>u64::to_be_bytes\<close>, for any number of bytes.\<close>

fun be_bytes :: "nat \<Rightarrow> nat \<Rightarrow> u8 list" where
  "be_bytes 0 n = []"
| "be_bytes (Suc k) n = be_bytes k (n div 256) @ [of_nat (n mod 256)]"

definition to_be_bytes :: "nat \<Rightarrow> u8 list" where "to_be_bytes n = be_bytes 8 n"

definition FIXED_WINDOW_FINGERPRINT_DOMAIN :: "u8 list" where
  "FIXED_WINDOW_FINGERPRINT_DOMAIN = as_bytes (str ''runlimit/fixed-window-policy/v1'') @ [0]"

definition GCRA_FINGERPRINT_DOMAIN :: "u8 list" where
  "GCRA_FINGERPRINT_DOMAIN = as_bytes (str ''runlimit/gcra-policy/v1'') @ [0]"

definition fingerprint_input ::
    "policy_id \<Rightarrow> scope_id \<Rightarrow> capacity \<Rightarrow> quota_period \<Rightarrow> u8 list" where
  "fingerprint_input pid scope limit window =
     FIXED_WINDOW_FINGERPRINT_DOMAIN @ as_bytes (policy_id_str pid) @ [0] @
     as_bytes (scope_id_str scope) @ [0] @
     to_be_bytes (capacity_get limit) @ to_be_bytes (period_millis window)"

definition fingerprint ::
    "(u8 list \<Rightarrow> u8 list) \<Rightarrow> policy_id \<Rightarrow> scope_id \<Rightarrow> capacity \<Rightarrow> quota_period \<Rightarrow> policy_fingerprint" where
  "fingerprint sha256 pid scope limit window =
     PolicyFingerprint (sha256 (fingerprint_input pid scope limit window))"

record fixed_window_policy =
  fwp_id :: policy_id
  fwp_scope :: scope_id
  fwp_limit :: capacity
  fwp_window :: quota_period
  fwp_fingerprint :: policy_fingerprint
  fwp_quota_mode :: quota_mode

datatype policy_error =
    ZeroLimit
  | LimitTooLarge nat nat
  | ZeroWindow
  | WindowNotWholeMilliseconds
  | WindowTooLarge duration duration

fun policy_error_of_capacity :: "capacity_error \<Rightarrow> policy_error" where
  "policy_error_of_capacity CapacityZero = ZeroLimit"
| "policy_error_of_capacity (CapacityTooLarge actual maximum) = LimitTooLarge actual maximum"

fun policy_error_of_period :: "quota_period_error \<Rightarrow> policy_error" where
  "policy_error_of_period PeriodZero = ZeroWindow"
| "policy_error_of_period PeriodNotWholeMilliseconds = WindowNotWholeMilliseconds"
| "policy_error_of_period (PeriodTooLarge actual maximum) = WindowTooLarge actual maximum"

definition FixedWindowPolicy_new ::
    "(u8 list \<Rightarrow> u8 list) \<Rightarrow> policy_id \<Rightarrow> scope_id \<Rightarrow> nat \<Rightarrow> duration \<Rightarrow>
     (policy_error, fixed_window_policy) result" where
  "FixedWindowPolicy_new sha256 pid scope limit window =
     and_then (map_err policy_error_of_capacity (Capacity_new limit)) (\<lambda>limit.
     and_then (map_err policy_error_of_period (QuotaPeriod_new window)) (\<lambda>window.
     Ok \<lparr>fwp_id = pid, fwp_scope = scope, fwp_limit = limit, fwp_window = window,
         fwp_fingerprint = fingerprint sha256 pid scope limit window,
         fwp_quota_mode = Enforce\<rparr>))"

definition fwp_with_quota_mode :: "quota_mode \<Rightarrow> fixed_window_policy \<Rightarrow> fixed_window_policy" where
  "fwp_with_quota_mode mode policy = policy\<lparr>fwp_quota_mode := mode\<rparr>"

definition FixedWindowPolicy :: "fixed_window_policy rate_limit_policy" where
  "FixedWindowPolicy =
     \<lparr>rl_id = fwp_id, rl_scope = fwp_scope, rl_quota = fwp_limit, rl_quota_period = fwp_window,
      rl_capacity = fwp_limit, rl_fingerprint = fwp_fingerprint, rl_quota_mode = fwp_quota_mode\<rparr>"

text \<open>The Serde object; an omitted \<open>quota_mode\<close> is \<open>None\<close>.\<close>

record fixed_window_policy_wire =
  fww_id :: rstr
  fww_scope :: rstr
  fww_limit :: nat
  fww_window_millis :: nat
  fww_quota_mode :: "quota_mode option"

datatype policy_wire_error = WireIdentifier identifier_error | WireFixedWindow policy_error

definition fwp_serialize :: "fixed_window_policy \<Rightarrow> fixed_window_policy_wire" where
  "fwp_serialize p =
     \<lparr>fww_id = PolicyId_serialize (fwp_id p), fww_scope = ScopeId_serialize (fwp_scope p),
      fww_limit = capacity_get (fwp_limit p), fww_window_millis = period_millis (fwp_window p),
      fww_quota_mode = Some (fwp_quota_mode p)\<rparr>"

definition fwp_deserialize ::
    "(u8 list \<Rightarrow> u8 list) \<Rightarrow> fixed_window_policy_wire \<Rightarrow> (policy_wire_error, fixed_window_policy) result" where
  "fwp_deserialize sha256 wire =
     and_then (map_err WireIdentifier (PolicyId_deserialize (fww_id wire))) (\<lambda>pid.
     and_then (map_err WireIdentifier (ScopeId_deserialize (fww_scope wire))) (\<lambda>scope.
     map_err WireFixedWindow
       (and_then (FixedWindowPolicy_new sha256 pid scope (fww_limit wire)
                   (from_millis (fww_window_millis wire)))
         (\<lambda>policy. Ok (fwp_with_quota_mode
            (case fww_quota_mode wire of None \<Rightarrow> quota_mode_default | Some mode \<Rightarrow> mode) policy)))))"

section \<open>GCRA policies\<close>

definition gcra_fingerprint_input ::
    "policy_id \<Rightarrow> scope_id \<Rightarrow> capacity \<Rightarrow> quota_period \<Rightarrow> capacity \<Rightarrow> u8 list" where
  "gcra_fingerprint_input pid scope quota period burst =
     GCRA_FINGERPRINT_DOMAIN @ as_bytes (policy_id_str pid) @ [0] @
     as_bytes (scope_id_str scope) @ [0] @
     to_be_bytes (capacity_get quota) @ to_be_bytes (period_millis period) @
     to_be_bytes (capacity_get burst)"

definition gcra_fingerprint ::
    "(u8 list \<Rightarrow> u8 list) \<Rightarrow> policy_id \<Rightarrow> scope_id \<Rightarrow> capacity \<Rightarrow> quota_period \<Rightarrow> capacity \<Rightarrow>
     policy_fingerprint" where
  "gcra_fingerprint sha256 pid scope quota period burst =
     PolicyFingerprint (sha256 (gcra_fingerprint_input pid scope quota period burst))"

text \<open>The private helper \<open>div_ceil_u128\<close>.\<close>

definition div_ceil_u128 :: "nat \<Rightarrow> nat \<Rightarrow> nat" where
  "div_ceil_u128 numerator denominator =
     numerator div denominator + (if denominator dvd numerator then 0 else 1)"

record gcra_policy =
  gcp_id :: policy_id
  gcp_scope :: scope_id
  gcp_quota :: capacity
  gcp_period :: quota_period
  gcp_burst_capacity :: capacity
  gcp_fingerprint :: policy_fingerprint
  gcp_quota_mode :: quota_mode

datatype gcra_policy_error =
    ZeroQuota
  | QuotaTooLarge nat nat
  | ZeroBurstCapacity
  | BurstCapacityTooLarge nat nat
  | ZeroPeriod
  | GcraPeriodNotWholeMilliseconds
  | GcraPeriodTooLarge duration duration
  | RefillDurationTooLarge nat nat

fun gcra_error_of_quota :: "capacity_error \<Rightarrow> gcra_policy_error" where
  "gcra_error_of_quota CapacityZero = ZeroQuota"
| "gcra_error_of_quota (CapacityTooLarge actual maximum) = QuotaTooLarge actual maximum"

fun gcra_error_of_burst :: "capacity_error \<Rightarrow> gcra_policy_error" where
  "gcra_error_of_burst CapacityZero = ZeroBurstCapacity"
| "gcra_error_of_burst (CapacityTooLarge actual maximum) = BurstCapacityTooLarge actual maximum"

fun gcra_error_of_period :: "quota_period_error \<Rightarrow> gcra_policy_error" where
  "gcra_error_of_period PeriodZero = ZeroPeriod"
| "gcra_error_of_period PeriodNotWholeMilliseconds = GcraPeriodNotWholeMilliseconds"
| "gcra_error_of_period (PeriodTooLarge actual maximum) = GcraPeriodTooLarge actual maximum"

definition GcraPolicy_new ::
    "(u8 list \<Rightarrow> u8 list) \<Rightarrow> policy_id \<Rightarrow> scope_id \<Rightarrow> nat \<Rightarrow> duration \<Rightarrow> nat \<Rightarrow>
     (gcra_policy_error, gcra_policy) result" where
  "GcraPolicy_new sha256 pid scope quota period burst_capacity =
     and_then (map_err gcra_error_of_quota (Capacity_new quota)) (\<lambda>quota.
     and_then (map_err gcra_error_of_burst (Capacity_new burst_capacity)) (\<lambda>burst.
     and_then (map_err gcra_error_of_period (QuotaPeriod_new period)) (\<lambda>period.
     let full_refill_millis =
           div_ceil_u128 (capacity_get burst * period_millis period) (capacity_get quota)
     in if full_refill_millis > MAX_WINDOW_MILLIS
        then Err (RefillDurationTooLarge full_refill_millis MAX_WINDOW_MILLIS)
        else Ok \<lparr>gcp_id = pid, gcp_scope = scope, gcp_quota = quota, gcp_period = period,
                 gcp_burst_capacity = burst,
                 gcp_fingerprint = gcra_fingerprint sha256 pid scope quota period burst,
                 gcp_quota_mode = Enforce\<rparr>)))"

definition gcp_with_quota_mode :: "quota_mode \<Rightarrow> gcra_policy \<Rightarrow> gcra_policy" where
  "gcp_with_quota_mode mode policy = policy\<lparr>gcp_quota_mode := mode\<rparr>"

definition GcraPolicy :: "gcra_policy rate_limit_policy" where
  "GcraPolicy =
     \<lparr>rl_id = gcp_id, rl_scope = gcp_scope, rl_quota = gcp_quota, rl_quota_period = gcp_period,
      rl_capacity = gcp_burst_capacity, rl_fingerprint = gcp_fingerprint,
      rl_quota_mode = gcp_quota_mode\<rparr>"

record gcra_policy_wire =
  gcw_id :: rstr
  gcw_scope :: rstr
  gcw_quota :: nat
  gcw_period_millis :: nat
  gcw_burst_capacity :: nat
  gcw_quota_mode :: "quota_mode option"

datatype gcra_wire_error = GcraWireIdentifier identifier_error | WireGcra gcra_policy_error

definition gcp_serialize :: "gcra_policy \<Rightarrow> gcra_policy_wire" where
  "gcp_serialize p =
     \<lparr>gcw_id = PolicyId_serialize (gcp_id p), gcw_scope = ScopeId_serialize (gcp_scope p),
      gcw_quota = capacity_get (gcp_quota p), gcw_period_millis = period_millis (gcp_period p),
      gcw_burst_capacity = capacity_get (gcp_burst_capacity p),
      gcw_quota_mode = Some (gcp_quota_mode p)\<rparr>"

definition gcp_deserialize ::
    "(u8 list \<Rightarrow> u8 list) \<Rightarrow> gcra_policy_wire \<Rightarrow> (gcra_wire_error, gcra_policy) result" where
  "gcp_deserialize sha256 wire =
     and_then (map_err GcraWireIdentifier (PolicyId_deserialize (gcw_id wire))) (\<lambda>pid.
     and_then (map_err GcraWireIdentifier (ScopeId_deserialize (gcw_scope wire))) (\<lambda>scope.
     map_err WireGcra
       (and_then (GcraPolicy_new sha256 pid scope (gcw_quota wire)
                   (from_millis (gcw_period_millis wire)) (gcw_burst_capacity wire))
         (\<lambda>policy. Ok (gcp_with_quota_mode
            (case gcw_quota_mode wire of None \<Rightarrow> quota_mode_default | Some mode \<Rightarrow> mode) policy)))))"

section \<open>Well-formed policies\<close>

definition fwp_ok :: "(u8 list \<Rightarrow> u8 list) \<Rightarrow> fixed_window_policy \<Rightarrow> bool" where
  "fwp_ok sha256 p \<longleftrightarrow>
     policy_id_ok (fwp_id p) \<and> scope_id_ok (fwp_scope p) \<and> capacity_ok (fwp_limit p) \<and>
     period_ok (fwp_window p) \<and>
     fwp_fingerprint p = fingerprint sha256 (fwp_id p) (fwp_scope p) (fwp_limit p) (fwp_window p)"

definition gcp_ok :: "(u8 list \<Rightarrow> u8 list) \<Rightarrow> gcra_policy \<Rightarrow> bool" where
  "gcp_ok sha256 p \<longleftrightarrow>
     policy_id_ok (gcp_id p) \<and> scope_id_ok (gcp_scope p) \<and> capacity_ok (gcp_quota p) \<and>
     period_ok (gcp_period p) \<and> capacity_ok (gcp_burst_capacity p) \<and>
     div_ceil (capacity_get (gcp_burst_capacity p) * period_millis (gcp_period p))
       (capacity_get (gcp_quota p)) \<le> MAX_WINDOW_MILLIS \<and>
     gcp_fingerprint p =
       gcra_fingerprint sha256 (gcp_id p) (gcp_scope p) (gcp_quota p) (gcp_period p)
         (gcp_burst_capacity p)"

section \<open>Lemmas on the validated number types\<close>

lemma MAX_LIMIT_value: "MAX_LIMIT = 9223372036854775807"
  by (simp add: MAX_LIMIT_def i64_MAX_def)

lemma MAX_WINDOW_MILLIS_value: "MAX_WINDOW_MILLIS = 9007199254740"
  by (simp add: MAX_WINDOW_MILLIS_def MAX_EXACT_DOUBLE_INTEGER_def)

lemma capacity_new_Ok: "Capacity_new v = Ok c \<longleftrightarrow> capacity_ok c \<and> v = capacity_get c"
  by (cases c) (auto simp: Capacity_new_def capacity_ok_def)

lemma period_ok_bound: "period_ok p \<Longrightarrow> period_millis p < 2 ^ 64"
  by (simp add: period_ok_def MAX_WINDOW_MILLIS_value)

lemma quota_period_new_Ok:
  "QuotaPeriod_new d = Ok p \<longleftrightarrow> period_ok p \<and> d = period_duration p"
proof
  assume new: "QuotaPeriod_new d = Ok p"
  then have whole: "1000000 dvd subsec_nanos d" and le: "d \<le> MAX_WINDOW"
    and p: "p = QuotaPeriod (as_millis d)" and nz: "as_millis d \<noteq> 0"
    by (auto simp: QuotaPeriod_new_def split: if_splits option.splits)
  from whole have d: "from_millis (as_millis d) = d"
    by (intro from_millis_as_millis) (simp add: NANOS_PER_MILLI_def dvd_eq_mod_eq_0)
  with le have "as_millis d \<le> MAX_WINDOW_MILLIS" unfolding MAX_WINDOW_def
    by (metis from_millis_le)
  with p nz d show "period_ok p \<and> d = period_duration p"
    by (simp add: period_ok_def period_duration_def)
next
  assume p: "period_ok p \<and> d = period_duration p"
  have "1000000 dvd period_millis p * 1000000 mod 1000000000"
    by (simp add: dvd_mod_iff)
  then have "1000000 dvd subsec_nanos d"
    using p by (simp add: period_duration_def rust_defs)
  moreover have "d \<le> MAX_WINDOW" "as_millis d = period_millis p" "d \<noteq> 0"
    using p by (auto simp: MAX_WINDOW_def period_duration_def period_ok_def)
  ultimately show "QuotaPeriod_new d = Ok p"
    using p period_ok_bound [of p]
    by (cases p) (auto simp: QuotaPeriod_new_def is_zero_def try_from_def period_ok_def)
qed

lemma capacity_new_get [simp]: "capacity_ok c \<Longrightarrow> Capacity_new (capacity_get c) = Ok c"
  by (simp add: capacity_new_Ok)

lemma quota_period_new_duration [simp]:
  "period_ok p \<Longrightarrow> QuotaPeriod_new (period_duration p) = Ok p"
  by (simp add: quota_period_new_Ok)

lemma div_ceil_u128_eq: "div_ceil_u128 n d = div_ceil n d"
  by (simp add: div_ceil_u128_def div_ceil_def dvd_eq_mod_eq_0)

lemma fixed_window_policy_new_Ok:
  "FixedWindowPolicy_new sha256 pid scope limit window = Ok p \<longleftrightarrow>
     capacity_ok (fwp_limit p) \<and> limit = capacity_get (fwp_limit p) \<and>
     period_ok (fwp_window p) \<and> window = period_duration (fwp_window p) \<and>
     fwp_id p = pid \<and> fwp_scope p = scope \<and> fwp_quota_mode p = Enforce \<and>
     fwp_fingerprint p = fingerprint sha256 pid scope (fwp_limit p) (fwp_window p)"
  by (cases p) (auto simp: FixedWindowPolicy_new_def and_then_eq_Inr capacity_new_Ok quota_period_new_Ok)

lemma gcra_policy_new_Ok:
  "GcraPolicy_new sha256 pid scope quota period burst = Ok p \<longleftrightarrow>
     capacity_ok (gcp_quota p) \<and> quota = capacity_get (gcp_quota p) \<and>
     capacity_ok (gcp_burst_capacity p) \<and> burst = capacity_get (gcp_burst_capacity p) \<and>
     period_ok (gcp_period p) \<and> period = period_duration (gcp_period p) \<and>
     div_ceil (capacity_get (gcp_burst_capacity p) * period_millis (gcp_period p))
       (capacity_get (gcp_quota p)) \<le> MAX_WINDOW_MILLIS \<and>
     gcp_id p = pid \<and> gcp_scope p = scope \<and> gcp_quota_mode p = Enforce \<and>
     gcp_fingerprint p =
       gcra_fingerprint sha256 pid scope (gcp_quota p) (gcp_period p) (gcp_burst_capacity p)"
  (is "_ \<longleftrightarrow> ?R")
proof
  assume "GcraPolicy_new sha256 pid scope quota period burst = Ok p"
  then show ?R
    by (auto simp: GcraPolicy_new_def and_then_eq_Inr capacity_new_Ok quota_period_new_Ok Let_def
        div_ceil_u128_eq split: if_splits)
next
  assume ?R
  then show "GcraPolicy_new sha256 pid scope quota period burst = Ok p"
    by (cases p) (simp add: GcraPolicy_new_def div_ceil_u128_eq)
qed

section \<open>Byte encodings\<close>

lemma length_be_bytes [simp]: "length (be_bytes k n) = k"
  by (induction k n rule: be_bytes.induct) auto

lemma length_to_be_bytes [simp]: "length (to_be_bytes n) = 8"
  by (simp add: to_be_bytes_def)

lemma of_nat_u8_inject: "a < 256 \<Longrightarrow> b < 256 \<Longrightarrow> (of_nat a :: u8) = of_nat b \<longleftrightarrow> a = b"
  using inj_on_of_nat_u8 by (auto dest: inj_onD)

lemma be_bytes_inject:
  "n < 256 ^ k \<Longrightarrow> m < 256 ^ k \<Longrightarrow> be_bytes k n = be_bytes k m \<longleftrightarrow> n = m"
proof (induction k arbitrary: n m)
  case (Suc k)
  have "n div 256 < 256 ^ k" "m div 256 < 256 ^ k"
    using Suc.prems by (auto simp: div_less_iff_less_mult mult.commute)
  then have "be_bytes (Suc k) n = be_bytes (Suc k) m \<longleftrightarrow> n div 256 = m div 256 \<and> n mod 256 = m mod 256"
    by (simp add: Suc.IH of_nat_u8_inject)
  also have "\<dots> \<longleftrightarrow> n = m" by (metis div_mod_decomp)
  finally show ?case .
qed simp

lemma to_be_bytes_inject: "n < 2 ^ 64 \<Longrightarrow> m < 2 ^ 64 \<Longrightarrow> to_be_bytes n = to_be_bytes m \<longleftrightarrow> n = m"
  unfolding to_be_bytes_def by (rule be_bytes_inject) simp_all

text \<open>A NUL-terminated prefix without inner NULs can be split off in only one way.\<close>

lemma nul_split:
  "0 \<notin> set xs \<Longrightarrow> 0 \<notin> set ys \<Longrightarrow>
   xs @ (0 :: u8) # r = ys @ 0 # r' \<longleftrightarrow> xs = ys \<and> r = r'"
proof (induction xs arbitrary: ys)
  case Nil
  then show ?case by (cases ys) auto
next
  case (Cons x xs)
  then show ?case by (cases ys) auto
qed

lemma capacity_ok_bound: "capacity_ok c \<Longrightarrow> capacity_get c < 2 ^ 64"
  by (simp add: capacity_ok_def MAX_LIMIT_value)

lemma capacity_bytes:
  "capacity_ok c \<Longrightarrow> capacity_ok d \<Longrightarrow>
     to_be_bytes (capacity_get c) = to_be_bytes (capacity_get d) \<longleftrightarrow> c = d"
  by (subst to_be_bytes_inject) (auto dest: capacity_ok_bound simp: capacity.expand)

lemma period_bytes:
  "period_ok c \<Longrightarrow> period_ok d \<Longrightarrow>
     to_be_bytes (period_millis c) = to_be_bytes (period_millis d) \<longleftrightarrow> c = d"
  by (subst to_be_bytes_inject) (auto dest: period_ok_bound simp: quota_period.expand)

lemma policy_id_bytes:
  "policy_id_ok i \<Longrightarrow> policy_id_ok j \<Longrightarrow>
     as_bytes (policy_id_str i) = as_bytes (policy_id_str j) \<longleftrightarrow> i = j"
  by (cases i; cases j)
    (simp add: policy_id_ok_def as_bytes_ascii_inject identifier_ok_ascii)

lemma scope_id_bytes:
  "scope_id_ok i \<Longrightarrow> scope_id_ok j \<Longrightarrow>
     as_bytes (scope_id_str i) = as_bytes (scope_id_str j) \<longleftrightarrow> i = j"
  by (cases i; cases j)
    (simp add: scope_id_ok_def as_bytes_ascii_inject identifier_ok_ascii)

lemma id_bytes_nonzero:
  "policy_id_ok i \<Longrightarrow> 0 \<notin> set (as_bytes (policy_id_str i))"
  "scope_id_ok j \<Longrightarrow> 0 \<notin> set (as_bytes (scope_id_str j))"
  by (simp_all add: policy_id_ok_def scope_id_ok_def identifier_bytes_nonzero)

lemmas id_encoding = nul_split policy_id_bytes scope_id_bytes id_bytes_nonzero capacity_bytes
  period_bytes

text \<open>The identifiers of the concrete instances below.\<close>

lemma sample_ids_ok [simp]:
  "policy_id_ok (PolicyId (str ''auth.login''))" "policy_id_ok (PolicyId (str ''auth.reset''))"
  "scope_id_ok (ScopeId (str ''client''))" "policy_id_ok (PolicyId (str ''attempt/v1''))"
  "scope_id_ok (ScopeId (str ''auth.login''))"
  by (simp_all add: policy_id_ok_def scope_id_ok_def identifier_ok_def MAX_IDENTIFIER_LENGTH_def
      identifier_char_def is_ascii_alphanumeric_def)

lemma small_values_ok:
  "0 < n \<Longrightarrow> n \<le> 1000000 \<Longrightarrow> capacity_ok (Capacity n)"
  "0 < n \<Longrightarrow> n \<le> 1000000 \<Longrightarrow> period_ok (QuotaPeriod n)"
  by (simp_all add: capacity_ok_def period_ok_def MAX_LIMIT_value MAX_WINDOW_MILLIS_value)

definition sample_fwp :: "(u8 list \<Rightarrow> u8 list) \<Rightarrow> nat \<Rightarrow> fixed_window_policy" where
  "sample_fwp sha256 limit =
     \<lparr>fwp_id = PolicyId (str ''auth.login''), fwp_scope = ScopeId (str ''client''),
      fwp_limit = Capacity limit, fwp_window = QuotaPeriod 60000,
      fwp_fingerprint = fingerprint sha256 (PolicyId (str ''auth.login'')) (ScopeId (str ''client''))
        (Capacity limit) (QuotaPeriod 60000),
      fwp_quota_mode = Shadow\<rparr>"

lemma sample_fwp_ok: "0 < n \<Longrightarrow> n \<le> 1000000 \<Longrightarrow> fwp_ok sha256 (sample_fwp sha256 n)"
  by (simp add: fwp_ok_def sample_fwp_def small_values_ok del: str_simps)

section \<open>Properties\<close>

text \<open>
  \<open>FixedWindowPolicy::new\<close> succeeds exactly on a positive limit of at most \<open>i64::MAX\<close> and a
  positive whole-millisecond window of at most 9007199254740 milliseconds, and the policy it returns
  carries exactly these values, in enforcing mode.
\<close>

theorem fixed_window_policy_new_iff:
  "(\<exists>p. FixedWindowPolicy_new sha256 pid scope limit window = Ok p \<and>
        capacity_get (fwp_limit p) = limit \<and> period_duration (fwp_window p) = window \<and>
        fwp_id p = pid \<and> fwp_scope p = scope \<and> fwp_quota_mode p = Enforce) \<longleftrightarrow>
   0 < limit \<and> limit \<le> 2 ^ 63 - 1 \<and>
   (\<exists>ms. 0 < ms \<and> ms \<le> 9007199254740 \<and> window = from_millis ms)"
  (is "?L \<longleftrightarrow> ?R")
proof
  assume ?L
  then show ?R
    by (auto simp: fixed_window_policy_new_Ok capacity_ok_def period_ok_def MAX_LIMIT_value
        MAX_WINDOW_MILLIS_value period_duration_def)
next
  assume ?R
  then obtain ms where ms: "0 < ms" "ms \<le> 9007199254740" "window = from_millis ms"
    and limit: "0 < limit" "limit \<le> 2 ^ 63 - 1" by blast
  let ?p = "\<lparr>fwp_id = pid, fwp_scope = scope, fwp_limit = Capacity limit,
    fwp_window = QuotaPeriod ms,
    fwp_fingerprint = fingerprint sha256 pid scope (Capacity limit) (QuotaPeriod ms),
    fwp_quota_mode = Enforce\<rparr>"
  have "FixedWindowPolicy_new sha256 pid scope limit window = Ok ?p"
    using ms limit by (simp add: fixed_window_policy_new_Ok capacity_ok_def period_ok_def
        MAX_LIMIT_value MAX_WINDOW_MILLIS_value period_duration_def)
  then show ?L using ms by (intro exI [of _ ?p]) (simp add: period_duration_def)
qed

text \<open>
  C35: the fingerprint protocol is unambiguous: two fixed-window policies hash the same bytes only if
  they agree on identifier, scope, limit and window, so every storage-relevant change of
  configuration changes the hashed message, while the quota mode is not part of it.
\<close>

theorem fingerprint_input_injective:
  assumes "fwp_ok sha256 p" and "fwp_ok sha256 q"
  shows "fingerprint_input (fwp_id p) (fwp_scope p) (fwp_limit p) (fwp_window p) =
      fingerprint_input (fwp_id q) (fwp_scope q) (fwp_limit q) (fwp_window q) \<longleftrightarrow>
    fwp_with_quota_mode Enforce p = fwp_with_quota_mode Enforce q"
proof -
  have "fingerprint_input (fwp_id p) (fwp_scope p) (fwp_limit p) (fwp_window p) =
      fingerprint_input (fwp_id q) (fwp_scope q) (fwp_limit q) (fwp_window q) \<longleftrightarrow>
    fwp_id p = fwp_id q \<and> fwp_scope p = fwp_scope q \<and>
      fwp_limit p = fwp_limit q \<and> fwp_window p = fwp_window q"
    using assms by (simp add: fingerprint_input_def fwp_ok_def id_encoding)
  also have "\<dots> \<longleftrightarrow> fwp_with_quota_mode Enforce p = fwp_with_quota_mode Enforce q"
    using assms by (cases p; cases q) (auto simp: fwp_with_quota_mode_def fwp_ok_def)
  finally show ?thesis .
qed

theorem fingerprint_input_injective_witness:
  "fingerprint_input (PolicyId (str ''auth.login'')) (ScopeId (str ''client''))
      (Capacity 8) (QuotaPeriod 60000) \<noteq>
   fingerprint_input (PolicyId (str ''auth.login'')) (ScopeId (str ''client''))
      (Capacity 9) (QuotaPeriod 60000)"
proof -
  let ?h = "\<lambda>b :: u8 list. take 32 (b @ replicate 32 0)"
  have "fwp_ok ?h (sample_fwp ?h 8)" "fwp_ok ?h (sample_fwp ?h 9)"
    by (simp_all add: sample_fwp_ok del: str_simps)
  from fingerprint_input_injective [OF this] show ?thesis
    by (simp add: sample_fwp_def fwp_with_quota_mode_def del: str_simps)
qed

text \<open>
  A fixed-window policy survives its Serde form: deserializing the serialized policy recomputes
  the same fingerprint and returns the identical policy, quota mode included.
\<close>

theorem fixed_window_policy_serde_round_trip:
  assumes "fwp_ok sha256 p"
  shows "fwp_deserialize sha256 (fwp_serialize p) = Ok p"
proof -
  have pid: "PolicyId_deserialize (fww_id (fwp_serialize p)) = Ok (fwp_id p)"
    using assms by (cases "fwp_id p") (simp add: fwp_serialize_def PolicyId_deserialize_def
        PolicyId_serialize_def policy_id_new_ok fwp_ok_def policy_id_ok_def)
  have scope: "ScopeId_deserialize (fww_scope (fwp_serialize p)) = Ok (fwp_scope p)"
    using assms by (cases "fwp_scope p") (simp add: fwp_serialize_def ScopeId_deserialize_def
        ScopeId_serialize_def scope_id_new_ok fwp_ok_def scope_id_ok_def)
  have new: "FixedWindowPolicy_new sha256 (fwp_id p) (fwp_scope p) (fww_limit (fwp_serialize p))
      (from_millis (fww_window_millis (fwp_serialize p))) = Ok (p\<lparr>fwp_quota_mode := Enforce\<rparr>)"
    using assms by (simp add: fixed_window_policy_new_Ok fwp_serialize_def fwp_ok_def period_duration_def)
  show ?thesis
    by (simp add: fwp_deserialize_def pid scope new)
      (simp add: fwp_with_quota_mode_def fwp_serialize_def)
qed

theorem fixed_window_policy_serde_round_trip_witness:
  "fwp_deserialize (\<lambda>b. take 32 (b @ replicate 32 0))
     (fwp_serialize (sample_fwp (\<lambda>b. take 32 (b @ replicate 32 0)) 8)) =
   Ok (sample_fwp (\<lambda>b. take 32 (b @ replicate 32 0)) 8)"
  by (rule fixed_window_policy_serde_round_trip) (simp add: sample_fwp_ok)

text \<open>
  \<open>GcraPolicy::new\<close> guarantees that refilling the whole burst takes at most the portable maximum
  of 9007199254740 milliseconds: for every accepted policy
  \<open>burst * period \<le> quota * 9007199254740\<close>, and it rejects every combination that would take longer.
\<close>

theorem gcra_policy_refill_bounded:
  assumes "0 < quota" "quota \<le> 2 ^ 63 - 1" "0 < burst" "burst \<le> 2 ^ 63 - 1"
    and "0 < ms" "ms \<le> 9007199254740"
  shows "(\<exists>p. GcraPolicy_new sha256 pid scope quota (from_millis ms) burst = Ok p) \<longleftrightarrow>
    burst * ms \<le> 9007199254740 * quota"
proof -
  have q: "Capacity_new quota = Ok (Capacity quota)" "Capacity_new burst = Ok (Capacity burst)"
    using assms by (simp_all add: capacity_new_Ok capacity_ok_def MAX_LIMIT_value)
  have p: "QuotaPeriod_new (from_millis ms) = Ok (QuotaPeriod ms)"
    using assms by (simp add: quota_period_new_Ok period_ok_def MAX_WINDOW_MILLIS_value
        period_duration_def)
  show ?thesis
    using assms div_ceil_le_iff [of quota "burst * ms" MAX_WINDOW_MILLIS]
    by (auto simp: GcraPolicy_new_def q p div_ceil_u128_eq Let_def MAX_WINDOW_MILLIS_value)
qed

theorem gcra_policy_refill_bounded_witness:
  "(\<exists>p. GcraPolicy_new (\<lambda>b. take 32 b) (PolicyId (str ''auth.login'')) (ScopeId (str ''client''))
      10 (from_millis 1000) 5 = Ok p) \<and>
   \<not> (\<exists>p. GcraPolicy_new (\<lambda>b. take 32 b) (PolicyId (str ''auth.login'')) (ScopeId (str ''client''))
      1 (from_millis 9007199254740) 2 = Ok p)"
  using gcra_policy_refill_bounded [of 10 5 1000 "\<lambda>b. take 32 b" "PolicyId (str ''auth.login'')"
      "ScopeId (str ''client'')"]
    gcra_policy_refill_bounded [of 1 2 9007199254740 "\<lambda>b. take 32 b" "PolicyId (str ''auth.login'')"
      "ScopeId (str ''client'')"]
  by (simp del: str_simps)

end
