(* ===== verification/Key.thy ===== *)
theory Key
  imports Policy
begin

text \<open>
  \<open>runlimit-core/src/key.rs\<close> and \<open>counter.rs\<close>: opaque subject keys, their binding to a policy, keyed
  derivation, and the logical key of one stored counter. HMAC-SHA-256 (crate \<open>hmac\<close>) is the parameter
  \<open>hmac\<close>, a function of the secret and of the whole message; the message that is authenticated is
  modelled exactly.
\<close>

section \<open>Subject keys\<close>

datatype subject_key = SubjectKey (subject_bytes: "u8 list")

definition SubjectKey_from_digest :: "u8 list \<Rightarrow> subject_key" where
  "SubjectKey_from_digest digest = SubjectKey digest"

instantiation subject_key :: linorder
begin

definition less_eq_subject_key :: "subject_key \<Rightarrow> subject_key \<Rightarrow> bool" where
  "a \<le> b \<longleftrightarrow> subject_bytes a \<le> subject_bytes b"

definition less_subject_key :: "subject_key \<Rightarrow> subject_key \<Rightarrow> bool" where
  "a < b \<longleftrightarrow> subject_bytes a < subject_bytes b"

instance
  by standard (auto simp: less_eq_subject_key_def less_subject_key_def subject_key.expand)

end

text \<open>A subject bound to the policy that will evaluate it; the policy is a reference in the code.\<close>

record 'p policy_subject =
  ps_policy :: 'p
  ps_subject :: subject_key

definition SubjectKey_bind :: "subject_key \<Rightarrow> 'p \<Rightarrow> 'p policy_subject" where
  "SubjectKey_bind subject policy = \<lparr>ps_policy = policy, ps_subject = subject\<rparr>"

definition into_unbound_subject_key :: "'p policy_subject \<Rightarrow> subject_key" where
  "into_unbound_subject_key s = ps_subject s"

definition into_parts :: "'p policy_subject \<Rightarrow> 'p \<times> subject_key" where
  "into_parts s = (ps_policy s, ps_subject s)"

section \<open>Keyed derivation\<close>

definition KEY_DOMAIN :: "u8 list" where
  "KEY_DOMAIN = as_bytes (str ''runlimit/subject-key/v1'') @ [0]"

definition MINIMUM_SECRET_LENGTH :: nat where "MINIMUM_SECRET_LENGTH = 32"

text \<open>The cached MAC state: the key it was created with and the message bytes absorbed so far.\<close>

record key_hasher =
  kh_secret :: "u8 list"
  kh_absorbed :: "u8 list"

datatype key_hasher_error = SecretTooShort nat nat

definition KeyHasher_new :: "u8 list \<Rightarrow> (key_hasher_error, key_hasher) result" where
  "KeyHasher_new secret =
     (if length secret < MINIMUM_SECRET_LENGTH
      then Err (SecretTooShort (length secret) MINIMUM_SECRET_LENGTH)
      else Ok \<lparr>kh_secret = secret, kh_absorbed = KEY_DOMAIN\<rparr>)"

definition mac_update :: "u8 list \<Rightarrow> key_hasher \<Rightarrow> key_hasher" where
  "mac_update bytes mac = mac\<lparr>kh_absorbed := kh_absorbed mac @ bytes\<rparr>"

definition mac_finalize :: "(u8 list \<Rightarrow> u8 list \<Rightarrow> u8 list) \<Rightarrow> key_hasher \<Rightarrow> u8 list" where
  "mac_finalize hmac mac = hmac (kh_secret mac) (kh_absorbed mac)"

text \<open>The updates of \<open>hash_for\<close>, in program order, on a copy of the template.\<close>

definition hash_for_mac :: "'p rate_limit_policy \<Rightarrow> key_hasher \<Rightarrow> 'p \<Rightarrow> u8 list \<Rightarrow> key_hasher" where
  "hash_for_mac P hasher policy subject =
     (let mac = hasher;
          mac = mac_update (as_bytes (policy_id_str (rl_id P policy))) mac;
          mac = mac_update [0] mac;
          mac = mac_update (as_bytes (scope_id_str (rl_scope P policy))) mac;
          mac = mac_update [0] mac
      in mac_update subject mac)"

definition hash_for ::
    "(u8 list \<Rightarrow> u8 list \<Rightarrow> u8 list) \<Rightarrow> 'p rate_limit_policy \<Rightarrow> key_hasher \<Rightarrow> 'p \<Rightarrow> u8 list \<Rightarrow>
     'p policy_subject" where
  "hash_for hmac P hasher policy subject =
     SubjectKey_bind
       (SubjectKey_from_digest (mac_finalize hmac (hash_for_mac P hasher policy subject))) policy"

section \<open>Counter keys\<close>

datatype counter_key =
  CounterKey (ck_fingerprint: policy_fingerprint) (ck_subject: subject_key)

text \<open>The derived lexicographic order: fingerprint first.\<close>

instantiation counter_key :: linorder
begin

definition less_eq_counter_key :: "counter_key \<Rightarrow> counter_key \<Rightarrow> bool" where
  "a \<le> b \<longleftrightarrow> (ck_fingerprint a, ck_subject a) \<le> (ck_fingerprint b, ck_subject b)"

definition less_counter_key :: "counter_key \<Rightarrow> counter_key \<Rightarrow> bool" where
  "a < b \<longleftrightarrow> (ck_fingerprint a, ck_subject a) < (ck_fingerprint b, ck_subject b)"

instance
  by standard (auto simp: less_eq_counter_key_def less_counter_key_def counter_key.expand)

end

definition CounterKey_to_bytes :: "counter_key \<Rightarrow> u8 list" where
  "CounterKey_to_bytes k = fingerprint_bytes (ck_fingerprint k) @ subject_bytes (ck_subject k)"

text \<open>Both components are 32-byte digests.\<close>

definition counter_key_ok :: "counter_key \<Rightarrow> bool" where
  "counter_key_ok k \<longleftrightarrow>
     length (fingerprint_bytes (ck_fingerprint k)) = 32 \<and> length (subject_bytes (ck_subject k)) = 32"

section \<open>Lemmas\<close>

lemma kh_mac_simps [simp]:
  "kh_secret (mac_update b m) = kh_secret m"
  "kh_absorbed (mac_update b m) = kh_absorbed m @ b"
  by (simp_all add: mac_update_def)

lemma key_hasher_new_Ok:
  "KeyHasher_new secret = Ok h \<longleftrightarrow>
     32 \<le> length secret \<and> h = \<lparr>kh_secret = secret, kh_absorbed = KEY_DOMAIN\<rparr>"
  by (auto simp: KeyHasher_new_def MINIMUM_SECRET_LENGTH_def)

lemma hash_for_message:
  "kh_absorbed (hash_for_mac P h p s) =
     kh_absorbed h @ as_bytes (policy_id_str (rl_id P p)) @ 0 #
       as_bytes (scope_id_str (rl_scope P p)) @ 0 # s"
  by (simp add: hash_for_mac_def Let_def)

lemma lex_append_same_length:
  fixes xs ys :: "u8 list"
  shows "length xs = length ys \<Longrightarrow>
    xs @ us \<le> ys @ vs \<longleftrightarrow> xs < ys \<or> xs = ys \<and> us \<le> vs"
proof (induction xs ys rule: list_induct2)
  case (Cons x xs y ys)
  then show ?case by (cases x y rule: linorder_cases) auto
qed simp

section \<open>Properties\<close>

text \<open>
  C36: key derivation is unambiguous: under one hasher, two derivations authenticate the same message
  only if the policies have the same identifier and scope and the subjects are the same bytes,
  although subjects are arbitrary byte strings and may contain NUL bytes.
\<close>

theorem hash_for_message_injective:
  assumes "policy_id_ok (rl_id P p)" "scope_id_ok (rl_scope P p)"
    and "policy_id_ok (rl_id Q q)" "scope_id_ok (rl_scope Q q)"
  shows "kh_absorbed (hash_for_mac P hasher p s) = kh_absorbed (hash_for_mac Q hasher q t) \<longleftrightarrow>
    rl_id P p = rl_id Q q \<and> rl_scope P p = rl_scope Q q \<and> s = t"
  using assms by (simp add: hash_for_message id_encoding)

theorem hash_for_message_injective_witness:
  "kh_absorbed (hash_for_mac FixedWindowPolicy \<lparr>kh_secret = replicate 32 7, kh_absorbed = KEY_DOMAIN\<rparr>
     (sample_fwp (take 32) 8) [1, 0, 2]) \<noteq>
   kh_absorbed (hash_for_mac FixedWindowPolicy \<lparr>kh_secret = replicate 32 7, kh_absorbed = KEY_DOMAIN\<rparr>
     (sample_fwp (take 32) 8) [1, 0, 3])"
  using hash_for_message_injective [of FixedWindowPolicy "sample_fwp (take 32) 8" FixedWindowPolicy
      "sample_fwp (take 32) 8" "\<lparr>kh_secret = replicate 32 7, kh_absorbed = KEY_DOMAIN\<rparr>"
      "[1, 0, 2]" "[1, 0, 3]"]
  by (simp add: FixedWindowPolicy_def sample_fwp_def del: str_simps)

text \<open>
  The stable 64-byte encoding of a counter key is faithful: it has 64 bytes, distinct keys have
  distinct encodings, and comparing encodings bytewise is the derived order of the keys, so backends
  that lock in key order and backends that lock in byte order agree.
\<close>

theorem counter_key_bytes_faithful:
  assumes "counter_key_ok k" "counter_key_ok l"
  shows "length (CounterKey_to_bytes k) = 64 \<and>
    (CounterKey_to_bytes k = CounterKey_to_bytes l \<longleftrightarrow> k = l) \<and>
    (CounterKey_to_bytes k \<le> CounterKey_to_bytes l \<longleftrightarrow> k \<le> l)"
proof -
  have "CounterKey_to_bytes k = CounterKey_to_bytes l \<longleftrightarrow> k = l"
    using assms by (auto simp: CounterKey_to_bytes_def counter_key_ok_def intro: counter_key.expand
        policy_fingerprint.expand subject_key.expand)
  moreover have "CounterKey_to_bytes k \<le> CounterKey_to_bytes l \<longleftrightarrow> k \<le> l"
    using assms by (auto simp: CounterKey_to_bytes_def counter_key_ok_def lex_append_same_length
        less_eq_counter_key_def less_eq_subject_key_def less_policy_fingerprint_def
        less_eq_policy_fingerprint_def policy_fingerprint.expand)
  ultimately show ?thesis
    using assms by (simp add: CounterKey_to_bytes_def counter_key_ok_def)
qed

theorem counter_key_bytes_faithful_witness:
  "CounterKey_to_bytes (CounterKey (PolicyFingerprint (replicate 32 1)) (SubjectKey (replicate 32 2))) \<noteq>
   CounterKey_to_bytes (CounterKey (PolicyFingerprint (replicate 32 2)) (SubjectKey (replicate 32 1)))"
proof -
  have "counter_key_ok (CounterKey (PolicyFingerprint (replicate 32 1)) (SubjectKey (replicate 32 2)))"
    "counter_key_ok (CounterKey (PolicyFingerprint (replicate 32 2)) (SubjectKey (replicate 32 1)))"
    by (simp_all add: counter_key_ok_def)
  from counter_key_bytes_faithful [OF this] show ?thesis by simp
qed

end
