(* ===== verification/Check_Batch.thy ===== *)
theory Check_Batch
  imports Key
begin

text \<open>
  \<open>runlimit-core/src/check.rs\<close> and \<open>batch.rs\<close>: one proposed quota charge, its validated cost, and the
  structural validation of an atomic batch. Both are generic in the policy type; the trait dictionary
  is the argument \<open>P\<close>.
\<close>

section \<open>Checks\<close>

record 'p check =
  chk_policy :: 'p
  chk_subject :: subject_key
  chk_cost :: nat

datatype check_error = ZeroCost | CostExceedsCapacity nat capacity

definition Check_new :: "'p policy_subject \<Rightarrow> 'p check" where
  "Check_new subject =
     (let (policy, subject) = into_parts subject
      in \<lparr>chk_policy = policy, chk_subject = subject, chk_cost = 1\<rparr>)"

definition validate_cost :: "'p rate_limit_policy \<Rightarrow> 'p \<Rightarrow> nat \<Rightarrow> (check_error, unit) result" where
  "validate_cost P policy cost =
     (if cost = 0 then Err ZeroCost
      else let capacity = rl_capacity P policy
           in if cost > capacity_get capacity then Err (CostExceedsCapacity cost capacity)
              else Ok ())"

definition with_cost :: "'p rate_limit_policy \<Rightarrow> nat \<Rightarrow> 'p check \<Rightarrow> (check_error, 'p check) result" where
  "with_cost P cost self =
     and_then (validate_cost P (chk_policy self) cost) (\<lambda>_. Ok (self\<lparr>chk_cost := cost\<rparr>))"

definition chk_counter_key :: "'p rate_limit_policy \<Rightarrow> 'p check \<Rightarrow> counter_key" where
  "chk_counter_key P c = CounterKey (rl_fingerprint P (chk_policy c)) (chk_subject c)"

text \<open>What the constructors guarantee of the cost.\<close>

definition check_ok :: "'p rate_limit_policy \<Rightarrow> 'p check \<Rightarrow> bool" where
  "check_ok P c \<longleftrightarrow> 0 < chk_cost c \<and> chk_cost c \<le> capacity_get (rl_capacity P (chk_policy c))"

section \<open>Batch validation\<close>

datatype batch_error =
    EmptyBatch
  | DuplicateKey nat nat
  | BatchTooLarge nat nat
  | MixedQuotaModes quota_mode nat quota_mode

text \<open>The loop of \<open>validate_batch\<close>: the position, the first indices seen so far, the remaining checks.\<close>

fun validate_batch_loop ::
    "'p rate_limit_policy \<Rightarrow> quota_mode \<Rightarrow> nat \<Rightarrow> (counter_key \<times> nat) list \<Rightarrow> 'p check list \<Rightarrow>
     (batch_error, unit) result" where
  "validate_batch_loop P first_mode duplicate_index first_indices [] = Ok ()"
| "validate_batch_loop P first_mode duplicate_index first_indices (check # checks) =
     (if rl_quota_mode P (chk_policy check) \<noteq> first_mode
      then Err (MixedQuotaModes first_mode duplicate_index (rl_quota_mode P (chk_policy check)))
      else case map_of first_indices (chk_counter_key P check) of
             None \<Rightarrow>
               validate_batch_loop P first_mode (Suc duplicate_index)
                 (AList.update (chk_counter_key P check) duplicate_index first_indices) checks
           | Some first_index \<Rightarrow> Err (DuplicateKey first_index duplicate_index))"

definition validate_batch ::
    "'p rate_limit_policy \<Rightarrow> 'p check list \<Rightarrow> nat \<Rightarrow> (batch_error, unit) result" where
  "validate_batch P checks maximum =
     (case checks of
        [] \<Rightarrow> Err EmptyBatch
      | first # _ \<Rightarrow>
          if length checks > maximum then Err (BatchTooLarge (length checks) maximum)
          else validate_batch_loop P (rl_quota_mode P (chk_policy first)) 0 [] checks)"

section \<open>Specification of the validator\<close>

text \<open>A structurally valid batch.\<close>

definition batch_ok :: "'p rate_limit_policy \<Rightarrow> nat \<Rightarrow> 'p check list \<Rightarrow> bool" where
  "batch_ok P maximum checks \<longleftrightarrow>
     checks \<noteq> [] \<and> length checks \<le> maximum \<and>
     (\<forall>c \<in> set checks. rl_quota_mode P (chk_policy c) = rl_quota_mode P (chk_policy (hd checks))) \<and>
     distinct (map (chk_counter_key P) checks)"

text \<open>The position \<open>i\<close> is fine with respect to the mode \<open>m\<close> and the keys before it.\<close>

definition batch_pos_ok :: "'p rate_limit_policy \<Rightarrow> quota_mode \<Rightarrow> 'p check list \<Rightarrow> nat \<Rightarrow> bool" where
  "batch_pos_ok P m checks i \<longleftrightarrow>
     rl_quota_mode P (chk_policy (checks ! i)) = m \<and>
     (\<forall>j < i. chk_counter_key P (checks ! j) \<noteq> chk_counter_key P (checks ! i))"

text \<open>The error reported for the offending position \<open>i\<close>.\<close>

definition batch_pos_error :: "'p rate_limit_policy \<Rightarrow> quota_mode \<Rightarrow> 'p check list \<Rightarrow> nat \<Rightarrow> batch_error" where
  "batch_pos_error P m checks i =
     (if rl_quota_mode P (chk_policy (checks ! i)) \<noteq> m
      then MixedQuotaModes m i (rl_quota_mode P (chk_policy (checks ! i)))
      else DuplicateKey
        (LEAST j. chk_counter_key P (checks ! j) = chk_counter_key P (checks ! i)) i)"

text \<open>The table built from the first \<open>n\<close> checks maps every key to its first index.\<close>

definition seen_ok :: "'p rate_limit_policy \<Rightarrow> 'p check list \<Rightarrow> nat \<Rightarrow> (counter_key \<times> nat) list \<Rightarrow> bool" where
  "seen_ok P checks n seen \<longleftrightarrow>
     (\<forall>k j. map_of seen k = Some j \<longleftrightarrow> j < n \<and> chk_counter_key P (checks ! j) = k)"

lemma seen_ok_update:
  assumes "seen_ok P checks n seen" "map_of seen (chk_counter_key P (checks ! n)) = None"
  shows "seen_ok P checks (Suc n) (AList.update (chk_counter_key P (checks ! n)) n seen)"
  unfolding seen_ok_def
proof (intro allI)
  fix k j
  have old: "map_of seen k = Some j \<longleftrightarrow> j < n \<and> chk_counter_key P (checks ! j) = k" for k j
    using assms by (simp add: seen_ok_def)
  have fresh: "j < n \<Longrightarrow> chk_counter_key P (checks ! j) \<noteq> chk_counter_key P (checks ! n)" for j
    using assms(2) old [of "chk_counter_key P (checks ! n)" j] by auto
  show "map_of (AList.update (chk_counter_key P (checks ! n)) n seen) k = Some j \<longleftrightarrow>
      j < Suc n \<and> chk_counter_key P (checks ! j) = k"
    using old fresh by (auto simp: AList.update_conv' less_Suc_eq)
qed

lemma validate_batch_loop_spec:
  assumes "n \<le> length checks" "seen_ok P checks n seen" "\<forall>i < n. batch_pos_ok P m checks i"
  shows "validate_batch_loop P m n seen (drop n checks) = Ok () \<and>
      (\<forall>i < length checks. batch_pos_ok P m checks i) \<or>
    (\<exists>i < length checks. validate_batch_loop P m n seen (drop n checks) = Err (batch_pos_error P m checks i) \<and>
      \<not> batch_pos_ok P m checks i \<and> (\<forall>j < i. batch_pos_ok P m checks j))"
  using assms
proof (induction "length checks - n" arbitrary: n seen)
  case 0
  then show ?case by simp
next
  case (Suc d)
  then have n: "n < length checks" by simp
  let ?k = "chk_counter_key P (checks ! n)"
  have seen: "map_of seen k = Some j \<longleftrightarrow> j < n \<and> chk_counter_key P (checks ! j) = k" for k j
    using Suc.prems by (simp add: seen_ok_def)
  have drop: "drop n checks = checks ! n # drop (Suc n) checks"
    using n by (simp add: Cons_nth_drop_Suc)
  consider (mode) "rl_quota_mode P (chk_policy (checks ! n)) \<noteq> m"
    | (dup) j where "rl_quota_mode P (chk_policy (checks ! n)) = m" "map_of seen ?k = Some j"
    | (ok) "rl_quota_mode P (chk_policy (checks ! n)) = m" "map_of seen ?k = None"
    by fastforce
  then show ?case
  proof cases
    case mode
    then have "validate_batch_loop P m n seen (drop n checks) = Err (batch_pos_error P m checks n)"
      by (simp add: drop batch_pos_error_def)
    with n mode Suc.prems show ?thesis by (intro disjI2 exI [of _ n]) (simp add: batch_pos_ok_def)
  next
    case dup
    then have j: "j < n" "chk_counter_key P (checks ! j) = ?k" using seen by auto
    have least: "(LEAST j. chk_counter_key P (checks ! j) = ?k) = j"
    proof (rule Least_equality)
      show "chk_counter_key P (checks ! j) = ?k" by (fact j(2))
      show "j \<le> i" if "chk_counter_key P (checks ! i) = ?k" for i
        using that dup j seen [of ?k i] by (metis less_or_eq_imp_le linorder_not_less option.inject
            order_less_trans)
    qed
    have "validate_batch_loop P m n seen (drop n checks) = Err (batch_pos_error P m checks n)"
      using dup by (simp add: drop batch_pos_error_def least)
    moreover have "\<not> batch_pos_ok P m checks n" using j by (auto simp: batch_pos_ok_def)
    ultimately show ?thesis using n Suc.prems by blast
  next
    case ok
    let ?seen = "AList.update ?k n seen"
    have "seen_ok P checks (Suc n) ?seen" using seen_ok_update ok Suc.prems by blast
    moreover have "batch_pos_ok P m checks n"
    proof -
      have "chk_counter_key P (checks ! j) \<noteq> ?k" if "j < n" for j
        using that ok seen [of ?k j] by auto
      with ok show ?thesis by (simp add: batch_pos_ok_def)
    qed
    then have "\<forall>i < Suc n. batch_pos_ok P m checks i" using Suc.prems by (auto simp: less_Suc_eq)
    moreover have "validate_batch_loop P m n seen (drop n checks) =
        validate_batch_loop P m (Suc n) ?seen (drop (Suc n) checks)"
      using ok by (simp add: drop)
    ultimately show ?thesis using Suc.hyps(1) [of "Suc n" ?seen] Suc.hyps(2) n by auto
  qed
qed

lemma seen_ok_init: "seen_ok P checks 0 []"
  by (simp add: seen_ok_def)

lemma validate_batch_loop_init:
  "validate_batch_loop P m 0 [] checks = Ok () \<and> (\<forall>i < length checks. batch_pos_ok P m checks i) \<or>
   (\<exists>i < length checks. validate_batch_loop P m 0 [] checks = Err (batch_pos_error P m checks i) \<and>
      \<not> batch_pos_ok P m checks i \<and> (\<forall>j < i. batch_pos_ok P m checks j))"
  using validate_batch_loop_spec [of 0 checks P "[]" m] by (simp add: seen_ok_init)

lemma batch_pos_ok_all:
  "(\<forall>i < length checks. batch_pos_ok P m checks i) \<longleftrightarrow>
     (\<forall>c \<in> set checks. rl_quota_mode P (chk_policy c) = m) \<and>
     distinct (map (chk_counter_key P) checks)"
proof -
  have "distinct (map (chk_counter_key P) checks) \<longleftrightarrow>
    (\<forall>i < length checks. \<forall>j < i. chk_counter_key P (checks ! j) \<noteq> chk_counter_key P (checks ! i))"
    by (auto simp: distinct_conv_nth) (metis linorder_neqE_nat order_less_trans)
  then show ?thesis by (auto simp: batch_pos_ok_def all_set_conv_all_nth)
qed

lemma validate_batch_Ok: "validate_batch P checks maximum = Ok () \<longleftrightarrow> batch_ok P maximum checks"
proof (cases checks)
  case Nil
  then show ?thesis by (simp add: validate_batch_def batch_ok_def)
next
  case (Cons c cs)
  let ?m = "rl_quota_mode P (chk_policy c)"
  have "validate_batch_loop P ?m 0 [] checks = Ok () \<longleftrightarrow>
      (\<forall>i < length checks. batch_pos_ok P ?m checks i)"
    using validate_batch_loop_init [of P ?m checks] by force
  then show ?thesis using Cons batch_pos_ok_all [of checks P ?m]
    by (auto simp: validate_batch_def batch_ok_def)
qed

section \<open>Properties\<close>

text \<open>
  Every check that can be constructed has a cost between one and the capacity of its policy:
  \<open>Check::new\<close> gives cost one, and \<open>with_cost\<close> accepts exactly the costs in that range, changing
  nothing but the cost.
\<close>

theorem with_cost_validates:
  assumes "capacity_ok (rl_capacity P (ps_policy s))"
  shows "check_ok P (Check_new s) \<and>
    (\<forall>cost d. with_cost P cost (Check_new s) = Ok d \<longleftrightarrow>
       check_ok P d \<and> d = (Check_new s)\<lparr>chk_cost := cost\<rparr>)"
  using assms
  by (auto simp: check_ok_def Check_new_def into_parts_def capacity_ok_def with_cost_def
      validate_cost_def Let_def and_then_eq_Inr split: if_splits)

theorem with_cost_validates_witness:
  "check_ok FixedWindowPolicy (Check_new (SubjectKey_bind (SubjectKey [1]) (sample_fwp (take 32) 8)))"
  using with_cost_validates [of FixedWindowPolicy
      "SubjectKey_bind (SubjectKey [1]) (sample_fwp (take 32) 8)"]
  by (simp add: SubjectKey_bind_def FixedWindowPolicy_def sample_fwp_def small_values_ok)

text \<open>
  C33: \<open>validate_batch\<close> accepts exactly the nonempty batches within the maximum whose policies share
  one quota mode and whose counter keys are pairwise distinct; otherwise it reports the documented
  error: emptiness, then size, then the earliest offending position, with the position of the first
  occurrence for a repeated counter.
\<close>

theorem validate_batch_outcome:
  "validate_batch P checks maximum =
     (if checks = [] then Err EmptyBatch
      else if maximum < length checks then Err (BatchTooLarge (length checks) maximum)
      else if batch_ok P maximum checks then Ok ()
      else let m = rl_quota_mode P (chk_policy (hd checks));
               i = (LEAST i. i < length checks \<and> \<not> batch_pos_ok P m checks i)
           in Err (batch_pos_error P m checks i))"
proof (cases "checks = [] \<or> maximum < length checks \<or> batch_ok P maximum checks")
  case True
  then show ?thesis using validate_batch_Ok [of P checks maximum]
    by (auto simp: validate_batch_def split: list.splits)
next
  case False
  define m where "m = rl_quota_mode P (chk_policy (hd checks))"
  define i where "i = (LEAST i. i < length checks \<and> \<not> batch_pos_ok P m checks i)"
  have loop: "validate_batch P checks maximum = validate_batch_loop P m 0 [] checks"
    using False by (cases checks) (auto simp: validate_batch_def m_def)
  moreover have "validate_batch P checks maximum \<noteq> Ok ()" using False validate_batch_Ok by blast
  ultimately obtain k where k: "k < length checks" "\<not> batch_pos_ok P m checks k"
    "\<forall>j < k. batch_pos_ok P m checks j"
    "validate_batch_loop P m 0 [] checks = Err (batch_pos_error P m checks k)"
    using validate_batch_loop_init [of P m checks] by auto
  have "i = k" unfolding i_def using k by (intro Least_equality) (auto simp: linorder_not_less [symmetric])
  then have "validate_batch P checks maximum = Err (batch_pos_error P m checks i)"
    using k loop by simp
  with False show ?thesis unfolding m_def [symmetric] Let_def i_def [symmetric] by simp
qed

end
