(* ===== verification/Decision.thy ===== *)
theory Decision
  imports Check_Batch
begin

text \<open>
  \<open>runlimit-core/src/decision.rs\<close>: delays, allowances, denials, single and batch decisions, their
  validating constructors, their views, and their Serde forms. The wire datatypes are the tagged
  objects the Serde derive reads and writes; the text format around them is not part of the crate.
\<close>

section \<open>Delays\<close>

datatype delay = Delay (delay_duration: duration)

text \<open>\<open>Delay::seconds\<close>: rounds up, saturating at \<open>u64::MAX\<close>.\<close>

definition delay_seconds :: "delay \<Rightarrow> nat" where
  "delay_seconds d =
     (let seconds = as_secs (delay_duration d)
      in if subsec_nanos (delay_duration d) = 0 then seconds else saturating_add 64 seconds 1)"

section \<open>Denials and allowances\<close>

datatype decision_error =
    AvailableExceedsCapacity capacity nat
  | DeniedIndexOutOfRange nat nat
  | DecisionEmptyBatch

datatype quota_denial = QuotaDenial (qd_capacity: capacity) (qd_retry_after: delay)

definition QuotaDenial_new :: "capacity \<Rightarrow> duration \<Rightarrow> quota_denial" where
  "QuotaDenial_new capacity retry_after = QuotaDenial capacity (Delay retry_after)"

datatype denial =
    QuotaExceeded quota_denial
  | StorageCapacity "delay option"

datatype allowance =
  Allowance (alw_capacity: capacity) (alw_available: nat) (alw_replenishes_after: delay)

definition Allowance_new :: "capacity \<Rightarrow> nat \<Rightarrow> duration \<Rightarrow> (decision_error, allowance) result" where
  "Allowance_new capacity available replenishes_after =
     (if available > capacity_get capacity then Err (AvailableExceedsCapacity capacity available)
      else Ok (Allowance capacity available (Delay replenishes_after)))"

section \<open>Admitted decisions\<close>

datatype admitted_outcome = AO_Allowed allowance | AO_ShadowDenied quota_denial
datatype admitted = Admitted (adm_outcome: admitted_outcome)
datatype admitted_view = AV_Allowed allowance | AV_ShadowDenied quota_denial

definition Admitted_allowed :: "allowance \<Rightarrow> admitted" where
  "Admitted_allowed allowance = Admitted (AO_Allowed allowance)"

definition Admitted_shadow_denied :: "quota_denial \<Rightarrow> admitted" where
  "Admitted_shadow_denied denial = Admitted (AO_ShadowDenied denial)"

definition Admitted_view :: "admitted \<Rightarrow> admitted_view" where
  "Admitted_view self =
     (case adm_outcome self of
        AO_Allowed allowance \<Rightarrow> AV_Allowed allowance
      | AO_ShadowDenied denial \<Rightarrow> AV_ShadowDenied denial)"

section \<open>Decisions\<close>

datatype decision_outcome = Out_Admitted admitted | Out_Denied denial
datatype decision = Decision (dec_outcome: decision_outcome)
datatype decision_view = DV_Allowed allowance | DV_Denied denial | DV_ShadowDenied quota_denial

definition Decision_allowed :: "allowance \<Rightarrow> decision" where
  "Decision_allowed allowance = Decision (Out_Admitted (Admitted_allowed allowance))"

definition Decision_denied :: "denial \<Rightarrow> decision" where
  "Decision_denied denial = Decision (Out_Denied denial)"

definition Decision_shadow_denied :: "quota_denial \<Rightarrow> decision" where
  "Decision_shadow_denied denial = Decision (Out_Admitted (Admitted_shadow_denied denial))"

definition Decision_from_admitted :: "admitted \<Rightarrow> decision" where
  "Decision_from_admitted admitted = Decision (Out_Admitted admitted)"

definition Decision_view :: "decision \<Rightarrow> decision_view" where
  "Decision_view self =
     (case dec_outcome self of
        Out_Admitted admitted \<Rightarrow>
          (case Admitted_view admitted of
             AV_Allowed allowance \<Rightarrow> DV_Allowed allowance
           | AV_ShadowDenied denial \<Rightarrow> DV_ShadowDenied denial)
      | Out_Denied denial \<Rightarrow> DV_Denied denial)"

definition Decision_permits_request :: "decision \<Rightarrow> bool" where
  "Decision_permits_request self = (case dec_outcome self of Out_Admitted _ \<Rightarrow> True | _ \<Rightarrow> False)"

definition Decision_admit :: "decision \<Rightarrow> (denial, admitted) result" where
  "Decision_admit self =
     (case dec_outcome self of Out_Admitted admitted \<Rightarrow> Ok admitted | Out_Denied denial \<Rightarrow> Err denial)"

section \<open>Batch decisions\<close>

datatype batch_outcome =
    BO_Allowed "allowance list"
  | BO_Denied nat nat denial
  | BO_ShadowDenied nat nat quota_denial

datatype batch_decision = BatchDecision (bd_outcome: batch_outcome)

datatype batch_decision_view =
    BV_Allowed "allowance list"
  | BV_Denied nat nat denial
  | BV_ShadowDenied nat nat quota_denial

definition validate_batch_index :: "nat \<Rightarrow> nat \<Rightarrow> (decision_error, nat) result" where
  "validate_batch_index index batch_size =
     (if batch_size \<noteq> 0 \<and> index < batch_size then Ok batch_size
      else Err (DeniedIndexOutOfRange index batch_size))"

definition BatchDecision_allowed :: "allowance list \<Rightarrow> (decision_error, batch_decision) result" where
  "BatchDecision_allowed allowances =
     (if allowances = [] then Err DecisionEmptyBatch else Ok (BatchDecision (BO_Allowed allowances)))"

definition BatchDecision_denied :: "nat \<Rightarrow> nat \<Rightarrow> denial \<Rightarrow> (decision_error, batch_decision) result" where
  "BatchDecision_denied index batch_size denial =
     and_then (validate_batch_index index batch_size) (\<lambda>batch_size.
       Ok (BatchDecision (BO_Denied index batch_size denial)))"

definition BatchDecision_shadow_denied ::
    "nat \<Rightarrow> nat \<Rightarrow> quota_denial \<Rightarrow> (decision_error, batch_decision) result" where
  "BatchDecision_shadow_denied index batch_size denial =
     and_then (validate_batch_index index batch_size) (\<lambda>batch_size.
       Ok (BatchDecision (BO_ShadowDenied index batch_size denial)))"

definition BatchDecision_view :: "batch_decision \<Rightarrow> batch_decision_view" where
  "BatchDecision_view self =
     (case bd_outcome self of
        BO_Allowed allowances \<Rightarrow> BV_Allowed allowances
      | BO_Denied index batch_size denial \<Rightarrow> BV_Denied index batch_size denial
      | BO_ShadowDenied index batch_size denial \<Rightarrow> BV_ShadowDenied index batch_size denial)"

definition BatchDecision_permits_request :: "batch_decision \<Rightarrow> bool" where
  "BatchDecision_permits_request self =
     (case bd_outcome self of BO_Denied _ _ _ \<Rightarrow> False | _ \<Rightarrow> True)"

section \<open>Serde forms\<close>

datatype denial_wire =
    DW_QuotaExceeded nat duration
  | DW_StorageCapacity "duration option"

datatype quota_denial_wire = QDW_QuotaExceeded nat duration

datatype wire_error =
    CustomCapacity capacity_error
  | CustomDecision decision_error
  | UnknownVariant

text \<open>Reading a denial object where only \<open>quota_exceeded\<close> is a known \<open>reason\<close>.\<close>

definition quota_denial_wire_read :: "denial_wire \<Rightarrow> (wire_error, quota_denial_wire) result" where
  "quota_denial_wire_read w =
     (case w of
        DW_QuotaExceeded capacity retry_after \<Rightarrow> Ok (QDW_QuotaExceeded capacity retry_after)
      | DW_StorageCapacity _ \<Rightarrow> Err UnknownVariant)"

definition quota_denial_wire_validate :: "quota_denial_wire \<Rightarrow> (wire_error, quota_denial) result" where
  "quota_denial_wire_validate w =
     (case w of QDW_QuotaExceeded capacity retry_after \<Rightarrow>
        and_then (map_err CustomCapacity (Capacity_new capacity)) (\<lambda>capacity.
          Ok (QuotaDenial_new capacity retry_after)))"

definition denial_serialize :: "denial \<Rightarrow> denial_wire" where
  "denial_serialize self =
     (case self of
        QuotaExceeded d \<Rightarrow> DW_QuotaExceeded (capacity_get (qd_capacity d)) (delay_duration (qd_retry_after d))
      | StorageCapacity retry_after \<Rightarrow> DW_StorageCapacity (map_option delay_duration retry_after))"

definition denial_deserialize :: "denial_wire \<Rightarrow> (wire_error, denial) result" where
  "denial_deserialize wire =
     (case wire of
        DW_QuotaExceeded capacity retry_after \<Rightarrow>
          and_then (map_err CustomCapacity (Capacity_new capacity)) (\<lambda>capacity.
            Ok (QuotaExceeded (QuotaDenial_new capacity retry_after)))
      | DW_StorageCapacity retry_after \<Rightarrow> Ok (StorageCapacity (map_option Delay retry_after)))"

datatype allowance_wire =
  AllowanceWire (aw_capacity: nat) (aw_available: nat) (aw_replenishes_after: duration)

definition allowance_wire_validate :: "allowance_wire \<Rightarrow> (wire_error, allowance) result" where
  "allowance_wire_validate w =
     and_then (map_err CustomCapacity (Capacity_new (aw_capacity w))) (\<lambda>capacity.
       map_err CustomDecision (Allowance_new capacity (aw_available w) (aw_replenishes_after w)))"

definition allowance_serialize :: "allowance \<Rightarrow> allowance_wire" where
  "allowance_serialize self =
     AllowanceWire (capacity_get (alw_capacity self)) (alw_available self)
       (delay_duration (alw_replenishes_after self))"

definition allowance_deserialize :: "allowance_wire \<Rightarrow> (wire_error, allowance) result" where
  "allowance_deserialize wire = allowance_wire_validate wire"

datatype decision_wire =
    DcW_Allowed nat nat duration
  | DcW_Denied denial_wire
  | DcW_ShadowDenied denial_wire

definition decision_serialize :: "decision \<Rightarrow> decision_wire" where
  "decision_serialize self =
     (case dec_outcome self of
        Out_Admitted admitted \<Rightarrow>
          (case Admitted_view admitted of
             AV_Allowed allowance \<Rightarrow>
               DcW_Allowed (capacity_get (alw_capacity allowance)) (alw_available allowance)
                 (delay_duration (alw_replenishes_after allowance))
           | AV_ShadowDenied denial \<Rightarrow> DcW_ShadowDenied (denial_serialize (QuotaExceeded denial)))
      | Out_Denied denial \<Rightarrow> DcW_Denied (denial_serialize denial))"

definition decision_deserialize :: "decision_wire \<Rightarrow> (wire_error, decision) result" where
  "decision_deserialize wire =
     (case wire of
        DcW_Allowed capacity available replenishes_after \<Rightarrow>
          and_then (allowance_wire_validate (AllowanceWire capacity available replenishes_after))
            (\<lambda>allowance. Ok (Decision_allowed allowance))
      | DcW_Denied w \<Rightarrow> and_then (denial_deserialize w) (\<lambda>denial. Ok (Decision_denied denial))
      | DcW_ShadowDenied w \<Rightarrow>
          and_then (quota_denial_wire_read w) (\<lambda>w.
          and_then (quota_denial_wire_validate w) (\<lambda>denial. Ok (Decision_shadow_denied denial))))"

datatype batch_decision_wire =
    BdW_Allowed "allowance_wire list"
  | BdW_Denied nat nat denial_wire
  | BdW_ShadowDenied nat nat denial_wire

definition batch_decision_serialize :: "batch_decision \<Rightarrow> batch_decision_wire" where
  "batch_decision_serialize self =
     (case bd_outcome self of
        BO_Allowed allowances \<Rightarrow> BdW_Allowed (map allowance_serialize allowances)
      | BO_Denied index batch_size denial \<Rightarrow> BdW_Denied index batch_size (denial_serialize denial)
      | BO_ShadowDenied index batch_size denial \<Rightarrow>
          BdW_ShadowDenied index batch_size (denial_serialize (QuotaExceeded denial)))"

fun sequence_results :: "('e, 'a) result list \<Rightarrow> ('e, 'a list) result" where
  "sequence_results [] = Ok []"
| "sequence_results (r # rs) =
     and_then r (\<lambda>a. and_then (sequence_results rs) (\<lambda>as. Ok (a # as)))"

definition batch_decision_deserialize :: "batch_decision_wire \<Rightarrow> (wire_error, batch_decision) result" where
  "batch_decision_deserialize wire =
     (case wire of
        BdW_Allowed ws \<Rightarrow>
          and_then (sequence_results (map allowance_deserialize ws)) (\<lambda>allowances.
            map_err CustomDecision (BatchDecision_allowed allowances))
      | BdW_Denied index batch_size w \<Rightarrow>
          and_then (denial_deserialize w) (\<lambda>denial.
            map_err CustomDecision (BatchDecision_denied index batch_size denial))
      | BdW_ShadowDenied index batch_size w \<Rightarrow>
          and_then (quota_denial_wire_read w) (\<lambda>w.
          and_then (quota_denial_wire_validate w) (\<lambda>denial.
            map_err CustomDecision (BatchDecision_shadow_denied index batch_size denial))))"

section \<open>Well-formed values\<close>

definition allowance_ok :: "allowance \<Rightarrow> bool" where
  "allowance_ok a \<longleftrightarrow> capacity_ok (alw_capacity a) \<and> alw_available a \<le> capacity_get (alw_capacity a)"

definition quota_denial_ok :: "quota_denial \<Rightarrow> bool" where
  "quota_denial_ok d \<longleftrightarrow> capacity_ok (qd_capacity d)"

definition denial_ok :: "denial \<Rightarrow> bool" where
  "denial_ok d = (case d of QuotaExceeded q \<Rightarrow> quota_denial_ok q | StorageCapacity _ \<Rightarrow> True)"

definition decision_ok :: "decision \<Rightarrow> bool" where
  "decision_ok d =
     (case Decision_view d of
        DV_Allowed a \<Rightarrow> allowance_ok a
      | DV_Denied x \<Rightarrow> denial_ok x
      | DV_ShadowDenied q \<Rightarrow> quota_denial_ok q)"

definition batch_decision_ok :: "batch_decision \<Rightarrow> bool" where
  "batch_decision_ok d =
     (case BatchDecision_view d of
        BV_Allowed as \<Rightarrow> as \<noteq> [] \<and> list_all allowance_ok as
      | BV_Denied i n x \<Rightarrow> i < n \<and> denial_ok x
      | BV_ShadowDenied i n q \<Rightarrow> i < n \<and> quota_denial_ok q)"

lemmas decision_view_defs = Decision_view_def Admitted_view_def BatchDecision_view_def
lemmas decision_con_defs = Decision_allowed_def Decision_denied_def Decision_shadow_denied_def
  Admitted_allowed_def Admitted_shadow_denied_def Decision_from_admitted_def

lemma decision_view_simps [simp]:
  "Decision_view (Decision_allowed a) = DV_Allowed a"
  "Decision_view (Decision_denied d) = DV_Denied d"
  "Decision_view (Decision_shadow_denied q) = DV_ShadowDenied q"
  by (simp_all add: decision_view_defs decision_con_defs)

lemma decision_exhaust:
  obtains (allowed) a where "d = Decision_allowed a"
  | (denied) x where "d = Decision_denied x"
  | (shadow) q where "d = Decision_shadow_denied q"
  by (cases d rule: decision.exhaust)
    (metis admitted.exhaust admitted_outcome.exhaust decision_con_defs(1-5) decision_outcome.exhaust)

lemma decision_view_inject [simp]: "Decision_view d = Decision_view e \<longleftrightarrow> d = e"
  by (cases d rule: decision_exhaust; cases e rule: decision_exhaust)
    (auto simp: decision_con_defs decision_view_defs)

lemma permits_request_simps [simp]:
  "Decision_permits_request (Decision_allowed a)"
  "\<not> Decision_permits_request (Decision_denied d)"
  "Decision_permits_request (Decision_shadow_denied q)"
  by (simp_all add: Decision_permits_request_def decision_con_defs)

lemma allowance_new_Ok:
  "Allowance_new c n d = Ok a \<longleftrightarrow> n \<le> capacity_get c \<and> a = Allowance c n (Delay d)"
  by (auto simp: Allowance_new_def)

lemma batch_decision_con_Ok:
  "BatchDecision_allowed as = Ok d \<longleftrightarrow> as \<noteq> [] \<and> d = BatchDecision (BO_Allowed as)"
  "BatchDecision_denied i n x = Ok d \<longleftrightarrow> i < n \<and> d = BatchDecision (BO_Denied i n x)"
  "BatchDecision_shadow_denied i n q = Ok d \<longleftrightarrow> i < n \<and> d = BatchDecision (BO_ShadowDenied i n q)"
  by (auto simp: BatchDecision_allowed_def BatchDecision_denied_def BatchDecision_shadow_denied_def
      validate_batch_index_def and_then_eq_Inr)

lemma allowance_round_trip: "allowance_ok a \<Longrightarrow> allowance_deserialize (allowance_serialize a) = Ok a"
  by (cases a) (simp add: allowance_deserialize_def allowance_serialize_def allowance_wire_validate_def
      allowance_ok_def allowance_new_Ok)

lemma denial_round_trip: "denial_ok x \<Longrightarrow> denial_deserialize (denial_serialize x) = Ok x"
  by (cases x) (simp_all add: denial_deserialize_def denial_serialize_def denial_ok_def quota_denial_ok_def
      QuotaDenial_new_def option.map_comp comp_def option.map_ident)

lemma quota_denial_round_trip:
  "quota_denial_ok q \<Longrightarrow>
   and_then (quota_denial_wire_read (denial_serialize (QuotaExceeded q))) quota_denial_wire_validate = Ok q"
  by (cases q) (simp add: quota_denial_wire_read_def denial_serialize_def quota_denial_wire_validate_def
      quota_denial_ok_def QuotaDenial_new_def)

lemma sequence_results_map_Ok:
  "(\<And>x. x \<in> set xs \<Longrightarrow> f (g x) = Ok x) \<Longrightarrow> sequence_results (map f (map g xs)) = Ok xs"
  by (induction xs) auto

lemma delay_seconds_spec:
  assumes "delay_duration d \<le> duration_MAX"
  shows "delay_seconds d = min (div_ceil (delay_duration d) NANOS_PER_SEC) u64_MAX"
proof -
  have "delay_duration d div 1000000000 \<le> u64_MAX"
    using assms by (simp add: duration_MAX_def NANOS_PER_SEC_def u64_MAX_def div_le_mono
        less_mult_imp_div_less [THEN less_Suc_eq_le [THEN iffD1]] flip: less_Suc_eq_le)
  then show ?thesis
    by (auto simp: delay_seconds_def Let_def div_ceil_def rust_defs u64_MAX_def)
qed

section \<open>Properties\<close>

text \<open>
  Splitting a decision is lossless and consistent: \<open>admit\<close> returns the admitted outcome exactly
  when \<open>permits_request\<close> holds, an enforced denial is returned unchanged, the admitted outcome
  converts back to the same decision, and no admitted value is an enforced denial.
\<close>

theorem decision_admit_lossless:
  "(case Decision_admit d of
      Ok a \<Rightarrow> Decision_permits_request d \<and> Decision_from_admitted a = d \<and>
        (\<forall>x. Decision_view d \<noteq> DV_Denied x)
    | Err x \<Rightarrow> \<not> Decision_permits_request d \<and> Decision_denied x = d \<and> Decision_view d = DV_Denied x)"
  by (cases d rule: decision_exhaust)
    (simp_all add: Decision_admit_def decision_con_defs decision_view_defs Decision_permits_request_def)

text \<open>
  C40: decisions survive their Serde forms: every well-formed single and batch decision deserializes
  from its own serialization to the identical value.
\<close>

theorem decision_serde_round_trip:
  assumes "decision_ok d" and "batch_decision_ok b"
  shows "decision_deserialize (decision_serialize d) = Ok d \<and>
    batch_decision_deserialize (batch_decision_serialize b) = Ok b"
proof
  show "decision_deserialize (decision_serialize d) = Ok d"
  proof (cases d rule: decision_exhaust)
    case (allowed a)
    with assms have "allowance_deserialize (allowance_serialize a) = Ok a"
      by (simp add: decision_ok_def allowance_round_trip)
    with allowed show ?thesis
      by (simp add: decision_serialize_def decision_deserialize_def decision_con_defs Admitted_view_def
          allowance_deserialize_def allowance_serialize_def)
  next
    case (denied x)
    with assms denial_round_trip [of x] show ?thesis
      by (simp add: decision_serialize_def decision_deserialize_def decision_ok_def decision_con_defs
          decision_view_defs)
  next
    case (shadow q)
    with assms quota_denial_round_trip [of q] show ?thesis
      by (auto simp: decision_serialize_def decision_deserialize_def decision_ok_def decision_con_defs
          decision_view_defs and_then_eq_Inr)
  qed
next
  show "batch_decision_deserialize (batch_decision_serialize b) = Ok b"
  proof (cases "bd_outcome b")
    case (BO_Allowed as)
    with assms have "sequence_results (map allowance_deserialize (map allowance_serialize as)) = Ok as"
      by (intro sequence_results_map_Ok)
        (auto simp: batch_decision_ok_def BatchDecision_view_def list_all_iff allowance_round_trip)
    with BO_Allowed assms show ?thesis
      by (cases b) (simp add: batch_decision_deserialize_def batch_decision_serialize_def
          batch_decision_ok_def BatchDecision_view_def batch_decision_con_Ok)
  next
    case (BO_Denied i n x)
    with assms denial_round_trip [of x] show ?thesis
      by (cases b) (simp add: batch_decision_deserialize_def batch_decision_serialize_def
          batch_decision_ok_def BatchDecision_view_def batch_decision_con_Ok)
  next
    case (BO_ShadowDenied i n q)
    with assms quota_denial_round_trip [of q] show ?thesis
      by (cases b) (auto simp: batch_decision_deserialize_def batch_decision_serialize_def
          batch_decision_ok_def BatchDecision_view_def batch_decision_con_Ok and_then_eq_Inr)
  qed
qed

theorem decision_serde_round_trip_witness:
  "decision_deserialize (decision_serialize (Decision_allowed (Allowance (Capacity 8) 7 (Delay 5)))) =
     Ok (Decision_allowed (Allowance (Capacity 8) 7 (Delay 5)))"
  using decision_serde_round_trip [of "Decision_allowed (Allowance (Capacity 8) 7 (Delay 5))"
      "BatchDecision (BO_ShadowDenied 0 1 (QuotaDenial (Capacity 8) (Delay 5)))"]
  by (simp add: decision_ok_def batch_decision_ok_def BatchDecision_view_def allowance_ok_def
      quota_denial_ok_def small_values_ok)

text \<open>
  C39: deserialization never produces a malformed decision: whatever object is read, an accepted
  batch decision is nonempty or names an index below its size, its capacities are valid, no allowance
  exceeds its capacity, and a shadow denial is never a storage denial.
\<close>

theorem decision_deserialize_validates:
  "(\<forall>d. decision_deserialize w = Ok d \<longrightarrow> decision_ok d) \<and>
   (\<forall>b. batch_decision_deserialize v = Ok b \<longrightarrow> batch_decision_ok b)"
proof (intro conjI allI impI)
  have allowance: "allowance_wire_validate w = Ok a \<Longrightarrow> allowance_ok a" for w a
    by (auto simp: allowance_wire_validate_def and_then_eq_Inr allowance_new_Ok allowance_ok_def
        capacity_new_Ok)
  have denial: "denial_deserialize w = Ok x \<Longrightarrow> denial_ok x" for w x
    by (auto simp: denial_deserialize_def and_then_eq_Inr denial_ok_def quota_denial_ok_def
        capacity_new_Ok QuotaDenial_new_def split: denial_wire.splits)
  have quota: "quota_denial_wire_validate w = Ok q \<Longrightarrow> quota_denial_ok q" for w q
    by (auto simp: quota_denial_wire_validate_def and_then_eq_Inr quota_denial_ok_def
        capacity_new_Ok QuotaDenial_new_def split: quota_denial_wire.splits)
  have list: "sequence_results (map allowance_deserialize ws) = Ok as \<Longrightarrow> list_all allowance_ok as" for ws as
    by (induction ws arbitrary: as) (auto simp: and_then_eq_Inr allowance_deserialize_def allowance)
  show "decision_ok d" if "decision_deserialize w = Ok d" for d
    using that by (auto simp: decision_deserialize_def decision_ok_def and_then_eq_Inr allowance denial
        quota split: decision_wire.splits)
  show "batch_decision_ok b" if "batch_decision_deserialize v = Ok b" for b
    using that by (auto simp: batch_decision_deserialize_def batch_decision_ok_def and_then_eq_Inr list
        denial quota batch_decision_con_Ok BatchDecision_view_def split: batch_decision_wire.splits)
qed

theorem decision_deserialize_validates_witness:
  "batch_decision_deserialize (BdW_ShadowDenied 0 2 (DW_QuotaExceeded 8 5)) =
     Ok (BatchDecision (BO_ShadowDenied 0 2 (QuotaDenial (Capacity 8) (Delay 5)))) \<and>
   batch_decision_ok (BatchDecision (BO_ShadowDenied 0 2 (QuotaDenial (Capacity 8) (Delay 5))))"
proof -
  have "Capacity_new 8 = Ok (Capacity 8)" by (simp add: capacity_new_Ok small_values_ok)
  then have "batch_decision_deserialize (BdW_ShadowDenied 0 2 (DW_QuotaExceeded 8 5)) =
     Ok (BatchDecision (BO_ShadowDenied 0 2 (QuotaDenial (Capacity 8) (Delay 5))))"
    by (simp add: batch_decision_deserialize_def quota_denial_wire_read_def
        quota_denial_wire_validate_def batch_decision_con_Ok QuotaDenial_new_def)
  with decision_deserialize_validates show ?thesis by blast
qed

text \<open>
  The whole-second form of a delay never invites an early retry: it is the least number of whole
  seconds covering the exact duration, except for the single case that does not fit 64 bits, which
  saturates.
\<close>

theorem delay_seconds_covers:
  assumes "delay_duration d \<le> duration_MAX"
  shows "delay_seconds d = min (div_ceil (delay_duration d) 1000000000) (2 ^ 64 - 1) \<and>
    (delay_duration d \<le> from_secs (2 ^ 64 - 1) \<longrightarrow>
       delay_duration d \<le> from_secs (delay_seconds d) \<and>
       from_secs (delay_seconds d) < delay_duration d + 1000000000)"
proof -
  let ?n = "delay_duration d"
  have s: "delay_seconds d = min (div_ceil ?n 1000000000) (2 ^ 64 - 1)"
    using delay_seconds_spec [OF assms] by (simp add: u64_MAX_def NANOS_PER_SEC_def)
  have "?n \<le> from_secs (delay_seconds d) \<and> from_secs (delay_seconds d) < ?n + 1000000000"
    if le: "?n \<le> from_secs (2 ^ 64 - 1)"
  proof -
    have "div_ceil ?n 1000000000 \<le> 2 ^ 64 - 1"
      using le by (subst div_ceil_le_iff) (simp_all add: rust_defs)
    with s have "delay_seconds d = div_ceil ?n 1000000000" by simp
    moreover have "?n \<le> div_ceil ?n 1000000000 * 1000000000" by (rule div_ceil_upper) simp
    moreover have "div_ceil ?n 1000000000 * 1000000000 < ?n + 1000000000"
      by (rule div_ceil_mult_less) simp
    ultimately show ?thesis by (simp add: rust_defs)
  qed
  with s show ?thesis by blast
qed

theorem delay_seconds_covers_witness: "delay_seconds (Delay 1500000000) = 2"
  using delay_seconds_covers [of "Delay 1500000000"] by (simp add: duration_MAX_def rust_defs div_ceil_def)

end
