(* ===== verification/Attempt_Policy.thy ===== *)
theory Attempt_Policy
  imports Key Decision
begin

text \<open>
  \<open>runlimit-core/src/attempts.rs\<close> and \<open>KeyHasher::hash_attempt_for\<close>: exponential-backoff policies for
  outcome-aware attempts, the outcome and completion types the attempt backends share, and the keyed
  derivation of attempt subjects.
\<close>

section \<open>Policies\<close>

record attempt_policy =
  ap_id :: policy_id
  ap_scope :: scope_id
  ap_initial_delay :: quota_period
  ap_maximum_delay :: quota_period
  ap_quiet_period :: quota_period
  ap_lease :: quota_period
  ap_fingerprint :: policy_fingerprint

datatype attempt_policy_error = MaximumBelowInitial | QuietBelowMaximum

text \<open>The bytes hashed by \<open>AttemptPolicy::new\<close>.\<close>

definition attempt_fingerprint_input ::
    "policy_id \<Rightarrow> scope_id \<Rightarrow> quota_period list \<Rightarrow> u8 list" where
  "attempt_fingerprint_input pid scope periods =
     as_bytes (str ''runlimit/attempt-policy/v1'') @ [0] @ as_bytes (policy_id_str pid) @ [0] @
     as_bytes (scope_id_str scope) @ [0] @ concat (map (\<lambda>v. to_be_bytes (period_millis v)) periods)"

definition AttemptPolicy_new ::
    "(u8 list \<Rightarrow> u8 list) \<Rightarrow> policy_id \<Rightarrow> scope_id \<Rightarrow> quota_period \<Rightarrow> quota_period \<Rightarrow> quota_period \<Rightarrow>
     quota_period \<Rightarrow> (attempt_policy_error, attempt_policy) result" where
  "AttemptPolicy_new sha256 pid scope initial_delay maximum_delay quiet_period lease =
     (if period_millis maximum_delay < period_millis initial_delay then Err MaximumBelowInitial
      else if period_millis quiet_period < period_millis maximum_delay then Err QuietBelowMaximum
      else Ok \<lparr>ap_id = pid, ap_scope = scope, ap_initial_delay = initial_delay,
        ap_maximum_delay = maximum_delay, ap_quiet_period = quiet_period, ap_lease = lease,
        ap_fingerprint = PolicyFingerprint_from_digest (sha256
          (attempt_fingerprint_input pid scope [initial_delay, maximum_delay, quiet_period, lease]))\<rparr>)"

text \<open>\<open>u64::checked_shl\<close>: the shift amount, not the result, is checked; bits are shifted out.\<close>

definition checked_shl :: "nat \<Rightarrow> nat \<Rightarrow> nat option" where
  "checked_shl x n = (if n < 64 then Some (x * 2 ^ n mod 2 ^ 64) else None)"

definition attempt_delay :: "attempt_policy \<Rightarrow> nat \<Rightarrow> duration" where
  "attempt_delay self failures =
     (if failures = 0 then 0
      else from_millis (min
        (saturating_mul 64 (period_millis (ap_initial_delay self))
           (case checked_shl 1 (failures - 1) of Some m \<Rightarrow> m | None \<Rightarrow> u64_MAX))
        (period_millis (ap_maximum_delay self))))"

section \<open>Subjects, admissions and completions\<close>

record attempt_subject =
  as_policy :: attempt_policy
  as_subject :: subject_key

datatype attempt_denial = Busy delay | Backoff delay | AttemptStorageCapacity

datatype 'r attempt_admission = AttemptAdmitted 'r | AttemptDenied attempt_denial

datatype attempt_outcome = Success | Failure | Abandoned

record attempt_completion =
  ac_outcome :: attempt_outcome
  ac_consecutive_failures :: nat
  ac_retry_after :: delay

datatype attempt_completion_error = AttemptCompletionError

definition AttemptCompletion_new ::
    "attempt_outcome \<Rightarrow> nat \<Rightarrow> delay \<Rightarrow> (attempt_completion_error, attempt_completion) result" where
  "AttemptCompletion_new outcome consecutive_failures retry_after =
     (let valid = (case outcome of
          Success \<Rightarrow> consecutive_failures = 0 \<and> is_zero (delay_duration retry_after)
        | _ \<Rightarrow> consecutive_failures > 0 \<and> \<not> is_zero (delay_duration retry_after))
      in if \<not> valid then Err AttemptCompletionError
         else Ok \<lparr>ac_outcome = outcome, ac_consecutive_failures = consecutive_failures,
                  ac_retry_after = retry_after\<rparr>)"

datatype attempt_completion_result = Applied attempt_completion | Stale

datatype attempt_observation =
    ObsAdmitted
  | ObsDenied attempt_denial
  | ObsCompleted attempt_completion
  | ObsStale
  | ObsCommitUncertain

text \<open>An observer is a state transformer that may panic (\<open>True\<close>); the panic is caught.\<close>

definition observe_attempt_safely ::
    "(attempt_observation \<Rightarrow> 'o \<Rightarrow> 'o \<times> bool) \<Rightarrow> attempt_observation \<Rightarrow> 'o \<Rightarrow> 'o" where
  "observe_attempt_safely observer obs ost = fst (observer obs ost)"

section \<open>Keyed derivation of attempt subjects\<close>

definition hash_attempt_mac :: "key_hasher \<Rightarrow> attempt_policy \<Rightarrow> u8 list \<Rightarrow> key_hasher" where
  "hash_attempt_mac hasher policy subject =
     (let mac = hasher;
          mac = mac_update (as_bytes (str ''attempt/v1'') @ [0]) mac;
          mac = mac_update (as_bytes (policy_id_str (ap_id policy))) mac;
          mac = mac_update [0] mac;
          mac = mac_update (as_bytes (scope_id_str (ap_scope policy))) mac;
          mac = mac_update [0] mac
      in mac_update subject mac)"

definition hash_attempt_for ::
    "(u8 list \<Rightarrow> u8 list \<Rightarrow> u8 list) \<Rightarrow> key_hasher \<Rightarrow> attempt_policy \<Rightarrow> u8 list \<Rightarrow> attempt_subject" where
  "hash_attempt_for hmac hasher policy subject =
     \<lparr>as_policy = policy,
      as_subject = SubjectKey_from_digest (mac_finalize hmac (hash_attempt_mac hasher policy subject))\<rparr>"

section \<open>Well-formedness\<close>

definition ap_ok :: "attempt_policy \<Rightarrow> bool" where
  "ap_ok p \<longleftrightarrow>
     policy_id_ok (ap_id p) \<and> scope_id_ok (ap_scope p) \<and> period_ok (ap_initial_delay p) \<and>
     period_ok (ap_maximum_delay p) \<and> period_ok (ap_quiet_period p) \<and> period_ok (ap_lease p) \<and>
     period_millis (ap_initial_delay p) \<le> period_millis (ap_maximum_delay p) \<and>
     period_millis (ap_maximum_delay p) \<le> period_millis (ap_quiet_period p)"

text \<open>The policies that \<open>new\<close> can return carry the fingerprint of their configuration.\<close>

definition ap_wf :: "(u8 list \<Rightarrow> u8 list) \<Rightarrow> attempt_policy \<Rightarrow> bool" where
  "ap_wf sha256 p \<longleftrightarrow> ap_ok p \<and>
     ap_fingerprint p = PolicyFingerprint (sha256 (attempt_fingerprint_input (ap_id p) (ap_scope p)
       [ap_initial_delay p, ap_maximum_delay p, ap_quiet_period p, ap_lease p]))"

lemma attempt_policy_new_Ok:
  assumes "policy_id_ok pid" "scope_id_ok scope" "period_ok a" "period_ok b" "period_ok c" "period_ok l"
  shows "AttemptPolicy_new sha256 pid scope a b c l = Ok p \<longleftrightarrow>
    ap_wf sha256 p \<and> ap_id p = pid \<and> ap_scope p = scope \<and> ap_initial_delay p = a \<and>
    ap_maximum_delay p = b \<and> ap_quiet_period p = c \<and> ap_lease p = l"
  using assms by (cases p) (auto simp: AttemptPolicy_new_def ap_wf_def ap_ok_def PolicyFingerprint_from_digest_def)

lemma attempt_delay_0 [simp]: "attempt_delay p 0 = 0"
  by (simp add: attempt_delay_def)

lemma checked_shl_1:
  assumes "n < 64"
  shows "checked_shl (Suc 0) n = Some (2 ^ n)"
proof -
  have "(2::nat) ^ n < 2 ^ 64" using assms by (intro power_strict_increasing) auto
  with assms show ?thesis by (simp add: checked_shl_def)
qed

lemma attempt_delay_eq:
  assumes ok: "ap_ok p" and n: "0 < n"
  shows "attempt_delay p n =
    from_millis (min (period_millis (ap_initial_delay p) * 2 ^ (n - 1)) (period_millis (ap_maximum_delay p)))"
proof -
  let ?i = "period_millis (ap_initial_delay p)" and ?m = "period_millis (ap_maximum_delay p)"
  have m: "?m < 2 ^ 63" and i: "0 < ?i"
    using ok by (auto simp: ap_ok_def period_ok_def MAX_WINDOW_MILLIS_value)
  have "min (saturating_mul 64 ?i (case checked_shl 1 (n - 1) of Some m \<Rightarrow> m | None \<Rightarrow> u64_MAX)) ?m =
      min (?i * 2 ^ (n - 1)) ?m"
  proof (cases "n - 1 < 64")
    case True
    then show ?thesis using m by (simp add: checked_shl_1 saturating_mul_def)
  next
    case False
    then have "(2::nat) ^ 64 \<le> 2 ^ (n - 1)" by (intro power_increasing) auto
    then have "?m < 2 ^ (n - 1)" using m by simp
    also have "\<dots> \<le> ?i * 2 ^ (n - 1)" using i by simp
    finally have big: "?m \<le> ?i * 2 ^ (n - 1)" by simp
    have "?m \<le> 1 * u64_MAX" using m by (simp add: u64_MAX_def)
    also have "\<dots> \<le> ?i * u64_MAX" using i by (intro mult_le_mono1) simp
    finally have "?m \<le> saturating_mul 64 ?i u64_MAX" using m by (simp add: saturating_mul_def)
    with False big show ?thesis by (simp add: checked_shl_def min_def)
  qed
  with n show ?thesis by (simp add: attempt_delay_def)
qed

lemma attempt_delay_pos: "ap_ok p \<Longrightarrow> 0 < n \<Longrightarrow> 0 < attempt_delay p n"
  by (simp add: attempt_delay_eq) (auto simp: ap_ok_def period_ok_def from_millis_def NANOS_PER_MILLI_def)

lemma attempt_delay_le:
  assumes "ap_ok p"
  shows "attempt_delay p n \<le> period_duration (ap_maximum_delay p)"
  using assms by (cases "n = 0") (simp_all add: attempt_delay_eq period_duration_def)

lemma hash_attempt_message:
  "kh_absorbed (hash_attempt_mac h p s) =
     kh_absorbed h @ as_bytes (str ''attempt/v1'') @ 0 # as_bytes (policy_id_str (ap_id p)) @ 0 #
       as_bytes (scope_id_str (ap_scope p)) @ 0 # s"
  by (simp add: hash_attempt_mac_def Let_def del: str_simps)

lemma attempt_message_eq_quota_message:
  assumes "policy_id_ok (ap_id p)" "scope_id_ok (ap_scope p)" "policy_id_ok (rl_id Q q)" "scope_id_ok (rl_scope Q q)"
  shows "kh_absorbed (hash_attempt_mac h p s) = kh_absorbed (hash_for_mac Q h q t) \<longleftrightarrow>
    rl_id Q q = PolicyId (str ''attempt/v1'') \<and>
    scope_id_str (rl_scope Q q) = policy_id_str (ap_id p) \<and>
    t = as_bytes (scope_id_str (ap_scope p)) @ 0 # s"
proof -
  let ?a = "PolicyId (str ''attempt/v1'')"
  have ids: "as_bytes (policy_id_str (ap_id p)) = as_bytes (scope_id_str (rl_scope Q q)) \<longleftrightarrow>
      scope_id_str (rl_scope Q q) = policy_id_str (ap_id p)"
    using assms by (auto simp: policy_id_ok_def scope_id_ok_def as_bytes_ascii_inject identifier_ok_ascii)
  have "kh_absorbed (hash_attempt_mac h p s) = kh_absorbed (hash_for_mac Q h q t) \<longleftrightarrow>
      as_bytes (policy_id_str ?a) @ 0 # as_bytes (policy_id_str (ap_id p)) @ 0 #
        as_bytes (scope_id_str (ap_scope p)) @ 0 # s =
      as_bytes (policy_id_str (rl_id Q q)) @ 0 # as_bytes (scope_id_str (rl_scope Q q)) @ 0 # t"
    by (simp add: hash_attempt_message hash_for_message del: str_simps)
  also have "\<dots> \<longleftrightarrow> rl_id Q q = ?a \<and> scope_id_str (rl_scope Q q) = policy_id_str (ap_id p) \<and>
      t = as_bytes (scope_id_str (ap_scope p)) @ 0 # s"
    using assms ids sample_ids_ok(4)
    by (auto simp: id_encoding simp del: str_simps policy_id.sel policy_id.inject)
  finally show ?thesis .
qed

lemma concat_period_bytes:
  assumes "length xs = length ys" "\<forall>p \<in> set xs. period_ok p" "\<forall>p \<in> set ys. period_ok p"
  shows "concat (map (\<lambda>v. to_be_bytes (period_millis v)) xs) =
    concat (map (\<lambda>v. to_be_bytes (period_millis v)) ys) \<longleftrightarrow> xs = ys"
  using assms by (induction xs ys rule: list_induct2) (auto simp: period_bytes)

lemma attempt_fingerprint_input_inject:
  assumes "ap_ok p" "ap_ok q"
  shows "attempt_fingerprint_input (ap_id p) (ap_scope p)
      [ap_initial_delay p, ap_maximum_delay p, ap_quiet_period p, ap_lease p] =
    attempt_fingerprint_input (ap_id q) (ap_scope q)
      [ap_initial_delay q, ap_maximum_delay q, ap_quiet_period q, ap_lease q] \<longleftrightarrow>
    ap_id p = ap_id q \<and> ap_scope p = ap_scope q \<and> ap_initial_delay p = ap_initial_delay q \<and>
    ap_maximum_delay p = ap_maximum_delay q \<and> ap_quiet_period p = ap_quiet_period q \<and>
    ap_lease p = ap_lease q"
proof -
  have "concat (map (\<lambda>v. to_be_bytes (period_millis v))
        [ap_initial_delay p, ap_maximum_delay p, ap_quiet_period p, ap_lease p]) =
      concat (map (\<lambda>v. to_be_bytes (period_millis v))
        [ap_initial_delay q, ap_maximum_delay q, ap_quiet_period q, ap_lease q]) \<longleftrightarrow>
      [ap_initial_delay p, ap_maximum_delay p, ap_quiet_period p, ap_lease p] =
      [ap_initial_delay q, ap_maximum_delay q, ap_quiet_period q, ap_lease q]"
    using assms by (intro concat_period_bytes) (auto simp: ap_ok_def)
  then show ?thesis using assms
    by (simp add: attempt_fingerprint_input_def ap_ok_def id_encoding del: concat.simps list.map str_simps)
qed

text \<open>A concrete policy: one second doubling up to eight, forgotten after a minute, half-minute lease.\<close>

definition sample_ap :: "(u8 list \<Rightarrow> u8 list) \<Rightarrow> attempt_policy" where
  "sample_ap sha256 =
     \<lparr>ap_id = PolicyId (str ''auth.login''), ap_scope = ScopeId (str ''client''),
      ap_initial_delay = QuotaPeriod 1000, ap_maximum_delay = QuotaPeriod 8000,
      ap_quiet_period = QuotaPeriod 60000, ap_lease = QuotaPeriod 30000,
      ap_fingerprint = PolicyFingerprint (sha256 (attempt_fingerprint_input
        (PolicyId (str ''auth.login'')) (ScopeId (str ''client''))
        [QuotaPeriod 1000, QuotaPeriod 8000, QuotaPeriod 60000, QuotaPeriod 30000]))\<rparr>"

lemma sample_ap_wf: "ap_wf sha256 (sample_ap sha256)" and sample_ap_ok: "ap_ok (sample_ap sha256)"
  by (simp_all add: ap_wf_def ap_ok_def sample_ap_def small_values_ok del: str_simps)

section \<open>Properties\<close>

text \<open>
  C38: the backoff delay is the documented exponential for every failure count: nothing after a success,
  then the initial delay doubled with every further failure and capped at the maximum. The saturating
  arithmetic never distorts it, however large the count, and it is at least the initial delay, never
  above the cap, and monotone.
\<close>

theorem attempt_delay_exact:
  assumes "ap_ok p"
  shows "attempt_delay p n = (if n = 0 then 0 else from_millis
      (min (period_millis (ap_initial_delay p) * 2 ^ (n - 1)) (period_millis (ap_maximum_delay p)))) \<and>
    attempt_delay p n \<le> attempt_delay p (n + k) \<and>
    attempt_delay p n \<le> period_duration (ap_maximum_delay p) \<and>
    (0 < n \<longrightarrow> period_duration (ap_initial_delay p) \<le> attempt_delay p n)"
proof -
  have pw: "x \<le> x * 2 ^ j" for x j :: nat by simp
  have mono: "attempt_delay p n \<le> attempt_delay p (n + k)"
  proof (cases "n = 0")
    case False
    then have "(2::nat) ^ (n - 1) \<le> 2 ^ (n + k - 1)" by (intro power_increasing) auto
    then have "period_millis (ap_initial_delay p) * 2 ^ (n - 1) \<le> period_millis (ap_initial_delay p) * 2 ^ (n + k - 1)"
      by (rule mult_le_mono2)
    then have "min (period_millis (ap_initial_delay p) * 2 ^ (n - 1)) (period_millis (ap_maximum_delay p)) \<le>
        min (period_millis (ap_initial_delay p) * 2 ^ (n + k - 1)) (period_millis (ap_maximum_delay p))"
      by (intro min.mono order_refl)
    with False assms show ?thesis by (simp add: attempt_delay_eq)
  qed simp
  have "period_duration (ap_initial_delay p) \<le> attempt_delay p n" if "0 < n"
    using assms that pw [of "period_millis (ap_initial_delay p)" "n - 1"]
    by (simp add: attempt_delay_eq period_duration_def ap_ok_def)
  with mono show ?thesis using assms attempt_delay_le [of p n] by (auto simp: attempt_delay_eq)
qed

theorem attempt_delay_exact_witness:
  "attempt_delay (sample_ap (take 32)) 3 = from_millis 4000 \<and>
   attempt_delay (sample_ap (take 32)) 100 \<le> from_millis 8000"
  using attempt_delay_exact [OF sample_ap_ok [of "take 32"], of 3 0]
    attempt_delay_exact [OF sample_ap_ok [of "take 32"], of 100 0]
  by (simp add: sample_ap_def period_duration_def)

text \<open>
  C37: the attempt domain and the quota domain of one hasher meet in exactly one way: an attempt subject
  and a quota subject authenticate the same message if and only if the quota policy is named
  \<open>attempt/v1\<close>, its scope spells the attempt policy's identifier, and its subject is the attempt
  policy's scope, a NUL byte and the attempt subject. So the two kinds of subject are separate for
  every quota policy with another identifier, and they are not separate for that one.
\<close>

theorem attempt_domain_overlap:
  assumes "ap_ok p" "policy_id_ok (rl_id Q q)" "scope_id_ok (rl_scope Q q)"
  shows "kh_absorbed (hash_attempt_mac hasher p s) = kh_absorbed (hash_for_mac Q hasher q t) \<longleftrightarrow>
    rl_id Q q = PolicyId (str ''attempt/v1'') \<and>
    scope_id_str (rl_scope Q q) = policy_id_str (ap_id p) \<and>
    t = as_bytes (scope_id_str (ap_scope p)) @ 0 # s"
  using assms by (intro attempt_message_eq_quota_message) (auto simp: ap_ok_def)

theorem attempt_domain_overlap_witness:
  "kh_absorbed (hash_attempt_mac \<lparr>kh_secret = replicate 32 7, kh_absorbed = KEY_DOMAIN\<rparr> (sample_ap (take 32)) [1]) =
   kh_absorbed (hash_for_mac FixedWindowPolicy \<lparr>kh_secret = replicate 32 7, kh_absorbed = KEY_DOMAIN\<rparr>
     ((sample_fwp (take 32) 8)\<lparr>fwp_id := PolicyId (str ''attempt/v1''), fwp_scope := ScopeId (str ''auth.login'')\<rparr>)
     (as_bytes (str ''client'') @ [0, 1]))"
  by (subst attempt_domain_overlap [OF sample_ap_ok])
    (simp_all add: FixedWindowPolicy_def sample_ap_def del: str_simps)

end
