(* ===== verification/Attempt_Spec.thy ===== *)
theory Attempt_Spec
  imports Attempt_Policy
begin

text \<open>
  The contract of an attempt backend, independent of how it stores its entries: what one subject's
  state is at an instant, how time alone changes it, and what an admission and a completion do to it.
  The locale \<open>attempt_backend\<close> states the contract for a whole store and derives what applications
  rely on: one attempt in flight per subject, and a bound on the number of attempts.
\<close>

section \<open>One subject\<close>

text \<open>Consecutive failures, the instant of the last one, and the reservation in flight.\<close>

record 'g attempt_view =
  av_failures :: nat
  av_last :: duration
  av_lease :: "('g \<times> duration) option"

definition fresh :: "'g attempt_view" where
  "fresh = \<lparr>av_failures = 0, av_last = 0, av_lease = None\<rparr>"

definition failed_view :: "nat \<Rightarrow> duration \<Rightarrow> 'g attempt_view" where
  "failed_view n t = \<lparr>av_failures = saturating_add 32 n 1, av_last = t, av_lease = None\<rparr>"

definition held_view :: "nat \<Rightarrow> 'g \<Rightarrow> duration \<Rightarrow> 'g attempt_view" where
  "held_view n g until = \<lparr>av_failures = n, av_last = 0, av_lease = Some (g, until)\<rparr>"

text \<open>An expired lease is a failure at its deadline; old failures are forgotten after the quiet period.\<close>

definition elapse :: "attempt_policy \<Rightarrow> duration \<Rightarrow> 'g attempt_view \<Rightarrow> 'g attempt_view" where
  "elapse p t v =
     (let v = (case av_lease v of
          Some (g, until) \<Rightarrow> if until \<le> t then failed_view (av_failures v) until else v
        | None \<Rightarrow> v)
      in if av_lease v = None \<and> (av_failures v = 0 \<or>
            dur_saturating_add (av_last v) (period_duration (ap_quiet_period p)) \<le> t)
         then fresh else v)"

definition retry_at :: "attempt_policy \<Rightarrow> 'g attempt_view \<Rightarrow> duration" where
  "retry_at p v = dur_saturating_add (av_last v) (attempt_delay p (av_failures v))"

definition admissible :: "attempt_policy \<Rightarrow> duration \<Rightarrow> 'g attempt_view \<Rightarrow> bool" where
  "admissible p t v \<longleftrightarrow> av_lease v = None \<and> (av_failures v = 0 \<or> retry_at p v \<le> t)"

definition denial_of :: "attempt_policy \<Rightarrow> duration \<Rightarrow> 'g attempt_view \<Rightarrow> attempt_denial option" where
  "denial_of p t v =
     (case av_lease v of
        Some (g, until) \<Rightarrow> Some (Busy (Delay (until - t)))
      | None \<Rightarrow> if admissible p t v then None else Some (Backoff (Delay (retry_at p v - t))))"

definition completed_view :: "attempt_outcome \<Rightarrow> duration \<Rightarrow> 'g attempt_view \<Rightarrow> 'g attempt_view" where
  "completed_view outcome t v = (if outcome = Success then fresh else failed_view (av_failures v) t)"

section \<open>A store of subjects\<close>

datatype ('k, 'g) attempt_event =
    Ev_Silent
  | Ev_Admit 'k 'g
  | Ev_Complete 'k 'g attempt_outcome

text \<open>When an event may happen at \<open>now\<close>, and the states it leaves behind at every instant from then on.\<close>

fun event_enabled ::
    "('k \<Rightarrow> attempt_policy) \<Rightarrow> duration \<Rightarrow> ('k, 'g) attempt_event \<Rightarrow> ('k \<Rightarrow> 'g attempt_view) \<Rightarrow> bool" where
  "event_enabled pol now Ev_Silent V \<longleftrightarrow> True"
| "event_enabled pol now (Ev_Admit k g) V \<longleftrightarrow> admissible (pol k) now (V k)"
| "event_enabled pol now (Ev_Complete k g outcome) V \<longleftrightarrow> (\<exists>until. av_lease (V k) = Some (g, until))"

fun event_effect ::
    "('k \<Rightarrow> attempt_policy) \<Rightarrow> duration \<Rightarrow> ('k, 'g) attempt_event \<Rightarrow> (duration \<Rightarrow> 'k \<Rightarrow> 'g attempt_view) \<Rightarrow>
     duration \<Rightarrow> 'k \<Rightarrow> 'g attempt_view" where
  "event_effect pol now Ev_Silent V t = V t"
| "event_effect pol now (Ev_Admit k g) V t =
     (V t)(k := elapse (pol k) t (held_view (av_failures (V now k)) g
       (dur_saturating_add now (period_duration (ap_lease (pol k))))))"
| "event_effect pol now (Ev_Complete k g outcome) V t =
     (V t)(k := elapse (pol k) t (completed_view outcome now (V now k)))"

text \<open>The events of a sequence of operations.\<close>

fun run_events :: "('o \<Rightarrow> 's \<Rightarrow> 's \<times> ('k, 'g) attempt_event) \<Rightarrow> 'o list \<Rightarrow> 's \<Rightarrow> ('k, 'g) attempt_event list" where
  "run_events step [] s = []"
| "run_events step (opn # ops) s = (let (s', e) = step opn s in e # run_events step ops s')"

fun admits :: "'k \<Rightarrow> ('k, 'g) attempt_event \<Rightarrow> bool" where
  "admits k (Ev_Admit k' g) \<longleftrightarrow> k' = k"
| "admits k e \<longleftrightarrow> False"

definition admit_count :: "'k \<Rightarrow> ('k, 'g) attempt_event list \<Rightarrow> nat" where
  "admit_count k es = length (filter (admits k) es)"

fun completes :: "'k \<Rightarrow> 'g \<Rightarrow> ('k, 'g) attempt_event \<Rightarrow> bool" where
  "completes k g (Ev_Complete k' g' outcome) \<longleftrightarrow> k' = k \<and> g' = g"
| "completes k g e \<longleftrightarrow> False"

definition complete_count :: "'k \<Rightarrow> 'g \<Rightarrow> ('k, 'g) attempt_event list \<Rightarrow> nat" where
  "complete_count k g es = length (filter (completes k g) es)"

section \<open>Lemmas on one subject\<close>

lemma sat_add_mono: "a \<le> a' \<Longrightarrow> b \<le> b' \<Longrightarrow> dur_saturating_add a b \<le> dur_saturating_add a' b'"
  by (auto simp: dur_saturating_add_def)

lemma failed_view_simps [simp]:
  "av_lease (failed_view n t) = None" "av_last (failed_view n t) = t" "0 < av_failures (failed_view n t)"
  "av_failures (failed_view n t) \<noteq> 0"
  by (simp_all add: failed_view_def saturating_add_def)

lemma held_view_simps [simp]:
  "av_lease (held_view n g u) = Some (g, u)" "av_failures (held_view n g u) = n" "av_last (held_view n g u) = 0"
  by (simp_all add: held_view_def)

lemma fresh_simps [simp]: "av_lease fresh = None" "av_failures fresh = 0" "av_last fresh = 0"
  by (simp_all add: fresh_def)

lemma admissible_fresh [simp]: "admissible p t fresh"
  by (simp add: admissible_def)

lemma denial_of_None: "denial_of p t v = None \<longleftrightarrow> admissible p t v"
  by (auto simp: denial_of_def admissible_def split: option.splits)

lemma elapse_fresh [simp]: "elapse p t fresh = fresh"
  by (simp add: elapse_def)

lemma elapse_failed:
  "elapse p t (failed_view n u) =
     (if dur_saturating_add u (period_duration (ap_quiet_period p)) \<le> t then fresh else failed_view n u)"
  by (simp add: elapse_def)

lemma elapse_held:
  "elapse p t (held_view n g u) = (if u \<le> t then elapse p t (failed_view n u) else held_view n g u)"
  by (simp add: elapse_def)

lemma elapse_lease: "av_lease (elapse p t v) = Some (g, u) \<longleftrightarrow> av_lease v = Some (g, u) \<and> t < u"
  by (auto simp: elapse_def Let_def split: option.splits prod.splits if_splits)

lemma elapse_lease_kept: "av_lease v = Some (g, u) \<Longrightarrow> t < u \<Longrightarrow> elapse p t v = v"
  by (simp add: elapse_def)

lemma elapse_elapse:
  assumes "t \<le> t'"
  shows "elapse p t' (elapse p t v) = elapse p t' v"
proof (cases "av_lease v")
  case None
  then show ?thesis using assms by (auto simp: elapse_def)
next
  case (Some l)
  then obtain g u where "av_lease v = Some (g, u)" by (cases l) auto
  then show ?thesis using assms by (auto simp: elapse_def)
qed

lemma quiet_after_delay:
  assumes "ap_ok p"
  shows "dur_saturating_add u (attempt_delay p n) \<le> dur_saturating_add u (period_duration (ap_quiet_period p))"
  using assms attempt_delay_le [OF assms, of n]
  by (intro sat_add_mono) (auto simp: ap_ok_def period_duration_def intro: order_trans)

lemma initial_le_delay:
  assumes "ap_ok p" "0 < n"
  shows "period_duration (ap_initial_delay p) \<le> attempt_delay p n"
proof -
  have "period_millis (ap_initial_delay p) \<le> period_millis (ap_initial_delay p) * 2 ^ (n - 1)" by simp
  then show ?thesis using assms by (simp add: attempt_delay_eq period_duration_def ap_ok_def)
qed

text \<open>After a failure nothing is admitted before the initial delay, quiet period or not.\<close>

lemma failed_not_admissible:
  assumes "ap_ok p" "t < dur_saturating_add u (period_duration (ap_initial_delay p))"
  shows "\<not> admissible p t (elapse p t (failed_view n u))" (is "\<not> admissible p t (elapse p t ?v)")
proof -
  have "dur_saturating_add u (period_duration (ap_initial_delay p)) \<le> retry_at p ?v"
    unfolding retry_at_def failed_view_simps using assms(1) by (intro sat_add_mono initial_le_delay) auto
  moreover have "retry_at p ?v \<le> dur_saturating_add u (period_duration (ap_quiet_period p))"
    unfolding retry_at_def failed_view_simps by (rule quiet_after_delay [OF assms(1)])
  ultimately show ?thesis using assms(2) by (auto simp: elapse_failed admissible_def)
qed

lemma held_not_admissible:
  assumes "ap_ok p" "a \<le> u" "t < dur_saturating_add a (period_duration (ap_initial_delay p))"
  shows "\<not> admissible p t (elapse p t (held_view n g u))"
proof (cases "u \<le> t")
  case True
  have "t < dur_saturating_add u (period_duration (ap_initial_delay p))"
    using assms(2,3) sat_add_mono [OF assms(2) order_refl] less_le_trans by blast
  then show ?thesis using True failed_not_admissible [OF assms(1)] by (simp add: elapse_held)
next
  case False
  then show ?thesis by (simp add: elapse_held admissible_def)
qed

section \<open>The contract of a backend\<close>

locale attempt_backend =
  fixes pol :: "'k \<Rightarrow> attempt_policy"
    and inv :: "'s \<Rightarrow> bool"
    and now_of :: "'s \<Rightarrow> duration"
    and view :: "'s \<Rightarrow> duration \<Rightarrow> 'k \<Rightarrow> 'g attempt_view"
    and op_ok :: "'o \<Rightarrow> bool"
    and reading :: "'o \<Rightarrow> duration"
    and step :: "'o \<Rightarrow> 's \<Rightarrow> 's \<times> ('k, 'g) attempt_event"
  assumes pol_ok: "inv s \<Longrightarrow> ap_ok (pol k)"
    and coherent: "inv s \<Longrightarrow> now_of s \<le> t \<Longrightarrow> view s t k = elapse (pol k) t (view s (now_of s) k)"
    and step_inv: "inv s \<Longrightarrow> op_ok opn \<Longrightarrow> step opn s = (s', e) \<Longrightarrow> inv s'"
    and step_time: "inv s \<Longrightarrow> op_ok opn \<Longrightarrow> step opn s = (s', e) \<Longrightarrow>
      now_of s \<le> now_of s' \<and> now_of s' \<le> max (now_of s) (reading opn)"
    and step_enabled: "inv s \<Longrightarrow> op_ok opn \<Longrightarrow> step opn s = (s', e) \<Longrightarrow>
      event_enabled pol (now_of s') e (view s (now_of s'))"
    and step_effect: "inv s \<Longrightarrow> op_ok opn \<Longrightarrow> step opn s = (s', e) \<Longrightarrow> now_of s' \<le> t \<Longrightarrow>
      view s' t = event_effect pol (now_of s') e (view s) t"
begin

lemma lease_earlier:
  assumes "inv s" "now_of s \<le> t" "av_lease (view s t k) = Some (g, u)"
  shows "av_lease (view s (now_of s) k) = Some (g, u)" "t < u"
  using coherent [OF assms(1,2), of k] assms(3) by (auto simp: elapse_lease)

text \<open>No admission of \<open>k\<close> can happen before \<open>a\<close> unless an attempt succeeds.\<close>

definition blocked :: "'s \<Rightarrow> 'k \<Rightarrow> duration \<Rightarrow> bool" where
  "blocked s k a \<longleftrightarrow>
     (\<forall>t \<ge> now_of s. t < a \<longrightarrow> \<not> admissible (pol k) t (view s t k)) \<and>
     (av_lease (view s (now_of s) k) \<noteq> None \<longrightarrow>
        a \<le> dur_saturating_add (now_of s) (period_duration (ap_initial_delay (pol k))))"

lemma blocked_same_view:
  assumes "inv s" "now_of s \<le> now_of s'" "blocked s k a" "\<forall>t \<ge> now_of s'. view s' t k = view s t k"
  shows "blocked s' k a"
  unfolding blocked_def
proof (intro conjI allI impI)
  fix t assume "now_of s' \<le> t" "t < a"
  then show "\<not> admissible (pol k) t (view s' t k)" using assms by (auto simp: blocked_def)
next
  assume "av_lease (view s' (now_of s') k) \<noteq> None"
  then obtain l where "av_lease (view s (now_of s') k) = Some l" using assms(4) by auto
  then have "av_lease (view s (now_of s) k) \<noteq> None"
    using lease_earlier(1) [OF assms(1,2)] by (cases l) auto
  then have "a \<le> dur_saturating_add (now_of s) (period_duration (ap_initial_delay (pol k)))"
    using assms(3) by (simp add: blocked_def)
  also have "\<dots> \<le> dur_saturating_add (now_of s') (period_duration (ap_initial_delay (pol k)))"
    using assms(2) by (intro sat_add_mono) auto
  finally show "a \<le> dur_saturating_add (now_of s') (period_duration (ap_initial_delay (pol k)))" .
qed

lemma blocked_step:
  assumes ok: "inv s" "op_ok opn" "step opn s = (s', e)" and b: "blocked s k a" "now_of s' \<le> duration_MAX"
    and ns: "\<And>g. e \<noteq> Ev_Complete k g Success"
  shows "if admits k e
    then a \<le> now_of s' \<and>
      blocked s' k (dur_saturating_add (now_of s') (period_duration (ap_initial_delay (pol k))))
    else blocked s' k a"
proof -
  have p: "ap_ok (pol k)" by (rule pol_ok [OF ok(1)])
  have le: "now_of s \<le> now_of s'" using step_time [OF ok] by simp
  have V: "view s' t k = event_effect pol (now_of s') e (view s) t k" if "now_of s' \<le> t" for t
    using step_effect [OF ok that] by simp
  have en: "event_enabled pol (now_of s') e (view s (now_of s'))" by (rule step_enabled [OF ok])
  show ?thesis
  proof (cases e)
    case Ev_Silent
    then show ?thesis using V blocked_same_view [OF ok(1) le b(1)] by simp
  next
    case (Ev_Admit k' g)
    show ?thesis
    proof (cases "k' = k")
      case True
      have "a \<le> now_of s'"
        using en b(1) le Ev_Admit True by (cases "a \<le> now_of s'") (auto simp: blocked_def)
      moreover have "now_of s' \<le> dur_saturating_add (now_of s') (period_duration (ap_lease (pol k)))"
        using b(2) by (simp add: dur_saturating_add_def)
      ultimately show ?thesis
        using V True Ev_Admit held_not_admissible [OF p, of _ _ _ _ g] by (auto simp: blocked_def)
    next
      case False
      then show ?thesis using V Ev_Admit blocked_same_view [OF ok(1) le b(1)] by auto
    qed
  next
    case (Ev_Complete k' g outcome)
    show ?thesis
    proof (cases "k' = k")
      case True
      obtain u where "av_lease (view s (now_of s') k) = Some (g, u)"
        using en Ev_Complete True by auto
      then have "av_lease (view s (now_of s) k) \<noteq> None" using lease_earlier(1) [OF ok(1) le] by auto
      then have "a \<le> dur_saturating_add (now_of s) (period_duration (ap_initial_delay (pol k)))"
        using b(1) by (simp add: blocked_def)
      also have "\<dots> \<le> dur_saturating_add (now_of s') (period_duration (ap_initial_delay (pol k)))"
        using le by (intro sat_add_mono) auto
      finally have "a \<le> dur_saturating_add (now_of s') (period_duration (ap_initial_delay (pol k)))" .
      then have "\<not> admissible (pol k) t (view s' t k)" if "now_of s' \<le> t" "t < a" for t
        using V [OF that(1)] that Ev_Complete True ns failed_not_admissible [where ?'a = 'g, OF p, of t "now_of s'"]
        by (auto simp: completed_view_def)
      moreover have "av_lease (view s' (now_of s') k) = None"
        using V [of "now_of s'"] Ev_Complete True ns by (auto simp: completed_view_def elapse_failed)
      ultimately show ?thesis using Ev_Complete by (auto simp: blocked_def)
    next
      case False
      then show ?thesis using V Ev_Complete blocked_same_view [OF ok(1) le b(1)] by auto
    qed
  qed
qed

lemma rate_bound_blocked:
  assumes "inv s" "now_of s \<le> t1" "t1 < duration_MAX" "blocked s k a"
    and "list_all (\<lambda>opn. op_ok opn \<and> reading opn \<le> t1) ops"
    and "\<forall>g. Ev_Complete k g Success \<notin> set (run_events step ops s)"
    and "admit_count k (run_events step ops s) = Suc n"
  shows "a + n * period_duration (ap_initial_delay (pol k)) \<le> t1"
  using assms
proof (induction ops arbitrary: s a n)
  case Nil
  then show ?case by (simp add: admit_count_def)
next
  case (Cons opn ops)
  let ?d = "period_duration (ap_initial_delay (pol k))"
  obtain s' e where st: "step opn s = (s', e)" by fastforce
  have ok: "op_ok opn" "reading opn \<le> t1" using Cons.prems(5) by auto
  have s': "inv s'" "now_of s' \<le> t1"
    using step_inv [OF Cons.prems(1) ok(1) st] step_time [OF Cons.prems(1) ok(1) st] Cons.prems(2) ok(2) by auto
  have ns: "\<And>g. e \<noteq> Ev_Complete k g Success" "\<forall>g. Ev_Complete k g Success \<notin> set (run_events step ops s')"
    using Cons.prems(6) st by auto
  note B = blocked_step [OF Cons.prems(1) ok(1) st Cons.prems(4) _ ns(1)]
  show ?case
  proof (cases "admits k e")
    case False
    then have "admit_count k (run_events step ops s') = Suc n"
      using Cons.prems(7) st by (simp add: admit_count_def)
    with False B show ?thesis
      using Cons.IH [OF s' Cons.prems(3) _ _ ns(2)] Cons.prems(3,5) s'(2) by simp
  next
    case True
    then have a: "a \<le> now_of s'" and b: "blocked s' k (dur_saturating_add (now_of s') ?d)"
      using B Cons.prems(3) s'(2) by auto
    have n: "admit_count k (run_events step ops s') = n"
      using True Cons.prems(7) st by (simp add: admit_count_def)
    show ?thesis
    proof (cases n)
      case 0
      then show ?thesis using a s'(2) by simp
    next
      case (Suc m)
      have "dur_saturating_add (now_of s') ?d + m * ?d \<le> t1"
        using Cons.IH [OF s' Cons.prems(3) b _ ns(2)] Cons.prems(5) n Suc by simp
      then show ?thesis using a Suc Cons.prems(3) by (auto simp: dur_saturating_add_def min_def split: if_splits)
    qed
  qed
qed

theorem rate_bound:
  assumes "inv s" "now_of s \<le> t1" "t1 < duration_MAX"
    and "list_all (\<lambda>opn. op_ok opn \<and> reading opn \<le> t1) ops"
    and "\<forall>g. Ev_Complete k g Success \<notin> set (run_events step ops s)"
  shows "admit_count k (run_events step ops s) \<le>
    1 + (t1 - now_of s) div period_duration (ap_initial_delay (pol k))"
proof (cases "admit_count k (run_events step ops s)")
  case (Suc n)
  let ?d = "period_duration (ap_initial_delay (pol k))"
  have d: "0 < ?d" using pol_ok [OF assms(1), of k]
    by (auto simp: ap_ok_def period_ok_def period_duration_def from_millis_def NANOS_PER_MILLI_def)
  have "blocked s k (now_of s)" using assms(2,3) by (auto simp: blocked_def dur_saturating_add_def)
  from rate_bound_blocked [OF assms(1-3) this assms(4,5) Suc]
  have "n * ?d \<le> t1 - now_of s" by simp
  then have "n \<le> (t1 - now_of s) div ?d" using d by (simp add: less_eq_div_iff_mult_less_eq)
  with Suc show ?thesis by simp
qed simp

text \<open>While a reservation is in flight, nothing but its own completion or its deadline ends it.\<close>

theorem single_flight:
  assumes "inv s" "now_of s \<le> t1" "list_all (\<lambda>opn. op_ok opn \<and> reading opn \<le> t1) ops"
    and "av_lease (view s (now_of s) k) = Some (g, until)" "t1 < until"
    and "\<forall>outcome. Ev_Complete k g outcome \<notin> set (run_events step ops s)"
  shows "admit_count k (run_events step ops s) = 0"
  using assms
proof (induction ops arbitrary: s)
  case (Cons opn ops)
  obtain s' e where st: "step opn s = (s', e)" by fastforce
  have ok: "op_ok opn" "reading opn \<le> t1" using Cons.prems(3) by auto
  note T = step_time [OF Cons.prems(1) ok(1) st]
  have s': "inv s'" "now_of s' \<le> t1" using step_inv [OF Cons.prems(1) ok(1) st] T Cons.prems(2) ok(2) by auto
  have v: "view s (now_of s') k = view s (now_of s) k"
    using coherent [OF Cons.prems(1), of "now_of s'" k] T Cons.prems(4,5) s'(2) by (simp add: elapse_lease_kept)
  have en: "event_enabled pol (now_of s') e (view s (now_of s'))" by (rule step_enabled [OF Cons.prems(1) ok(1) st])
  have ne: "\<And>g'. e \<noteq> Ev_Admit k g'" "\<And>g' oc. e \<noteq> Ev_Complete k g' oc"
    using en v Cons.prems(4,6) st by (auto simp: admissible_def)
  have "view s' (now_of s') k = view s (now_of s) k"
    using step_effect [OF Cons.prems(1) ok(1) st order_refl] v ne by (cases e) auto
  then have "admit_count k (run_events step ops s') = 0"
    using Cons.IH [OF s'] Cons.prems(3-6) st by simp
  moreover have "\<not> admits k e" using ne by (cases e) auto
  ultimately show ?case using st by (simp add: admit_count_def)
qed (simp add: admit_count_def)

end

text \<open>
  A backend whose reservations carry numbers that are never reused: every reservation is then completed
  at most once, and a receipt that was completed or has expired stays dead.
\<close>

locale numbered_attempt_backend = attempt_backend pol inv now_of view op_ok reading step
  for pol :: "'k \<Rightarrow> attempt_policy" and inv :: "'s \<Rightarrow> bool" and now_of :: "'s \<Rightarrow> duration"
    and view :: "'s \<Rightarrow> duration \<Rightarrow> 'k \<Rightarrow> nat attempt_view" and op_ok :: "'o \<Rightarrow> bool"
    and reading :: "'o \<Rightarrow> duration" and step :: "'o \<Rightarrow> 's \<Rightarrow> 's \<times> ('k, nat) attempt_event" +
  fixes gen :: "'s \<Rightarrow> nat"
  assumes gen_mono: "inv s \<Longrightarrow> op_ok opn \<Longrightarrow> step opn s = (s', e) \<Longrightarrow> gen s \<le> gen s'"
    and gen_new: "inv s \<Longrightarrow> op_ok opn \<Longrightarrow> step opn s = (s', Ev_Admit k g) \<Longrightarrow> gen s < g"
    and gen_lease: "inv s \<Longrightarrow> av_lease (view s (now_of s) k) = Some (g, u) \<Longrightarrow> g \<le> gen s"
begin

definition dead :: "'s \<Rightarrow> 'k \<Rightarrow> nat \<Rightarrow> bool" where
  "dead s k g \<longleftrightarrow> g \<le> gen s \<and> (\<forall>u. av_lease (view s (now_of s) k) \<noteq> Some (g, u))"

lemma dead_step:
  assumes ok: "inv s" "op_ok opn" "step opn s = (s', e)" and d: "dead s k g"
  shows "\<not> completes k g e" "dead s' k g"
proof -
  have le: "now_of s \<le> now_of s'" using step_time [OF ok] by simp
  have nl: "av_lease (view s (now_of s') k) \<noteq> Some (g, u)" for u
    using d lease_earlier(1) [OF ok(1) le] by (auto simp: dead_def)
  show "\<not> completes k g e" using step_enabled [OF ok] nl by (cases e) auto
  have "av_lease (view s' (now_of s') k) \<noteq> Some (g, u)" for u
  proof (cases e)
    case (Ev_Admit k' g')
    have "gen s < g'" using gen_new ok Ev_Admit by blast
    then show ?thesis using step_effect [OF ok order_refl] Ev_Admit nl d
      by (auto simp: dead_def elapse_lease)
  qed (use step_effect [OF ok order_refl] nl in \<open>auto simp: elapse_lease completed_view_def\<close>)
  moreover have "g \<le> gen s'" using d gen_mono [OF ok] by (simp add: dead_def)
  ultimately show "dead s' k g" by (simp add: dead_def)
qed

lemma dead_run:
  assumes "inv s" "list_all op_ok ops" "dead s k g"
  shows "complete_count k g (run_events step ops s) = 0"
  using assms
proof (induction ops arbitrary: s)
  case (Cons opn ops)
  obtain s' e where st: "step opn s = (s', e)" by fastforce
  have ok: "op_ok opn" "list_all op_ok ops" using Cons.prems(2) by auto
  from dead_step [OF Cons.prems(1) ok(1) st Cons.prems(3)] Cons.IH [OF step_inv [OF Cons.prems(1) ok(1) st] ok(2)]
  show ?case using st by (simp add: complete_count_def)
qed (simp add: complete_count_def)

lemma completed_dead:
  assumes ok: "inv s" "op_ok opn" "step opn s = (s', e)" and c: "completes k g e"
  shows "dead s' k g"
proof -
  obtain oc where e: "e = Ev_Complete k g oc" using c by (cases e) auto
  obtain u where "av_lease (view s (now_of s') k) = Some (g, u)" using step_enabled [OF ok] e by auto
  then have "g \<le> gen s" using lease_earlier(1) [OF ok(1)] step_time [OF ok] gen_lease [OF ok(1)] by blast
  then have "g \<le> gen s'" using gen_mono [OF ok] by simp
  moreover have "av_lease (view s' (now_of s') k) = None"
    using step_effect [OF ok order_refl] e by (simp add: completed_view_def elapse_failed)
  ultimately show ?thesis by (simp add: dead_def)
qed

theorem completed_once:
  assumes "inv s" "list_all op_ok ops"
  shows "complete_count k g (run_events step ops s) \<le> 1"
  using assms
proof (induction ops arbitrary: s)
  case (Cons opn ops)
  obtain s' e where st: "step opn s = (s', e)" by fastforce
  have ok: "op_ok opn" "list_all op_ok ops" using Cons.prems(2) by auto
  note s' = step_inv [OF Cons.prems(1) ok(1) st]
  show ?case
  proof (cases "completes k g e")
    case True
    then have "complete_count k g (run_events step ops s') = 0"
      using dead_run [OF s' ok(2)] completed_dead [OF Cons.prems(1) ok(1) st] by blast
    then show ?thesis using st True by (simp add: complete_count_def)
  next
    case False
    then show ?thesis using st Cons.IH [OF s' ok(2)] by (simp add: complete_count_def)
  qed
qed (simp add: complete_count_def)

end

end
