(* ===== verification/Memory_Attempts.thy ===== *)
theory Memory_Attempts
  imports Attempt_Spec
begin

text \<open>
  \<open>runlimit-memory/src/attempts.rs\<close>: the bounded process-local attempt store, operation by operation,
  and its refinement of the attempt contract. The clock reading is an input (\<open>None\<close> when the
  clock panics, which poisons the mutex); the identity of the shared allocation, which \<open>Weak::ptr_eq\<close>
  compares, is a number. The B-tree map is an association list; its range queries go through its
  sorted keys.
\<close>

section \<open>State\<close>

type_synonym attempt_key = "u8 list \<times> u8 list"

record attempt_entry =
  ae_policy :: attempt_policy
  ae_failures :: nat
  ae_last_failure :: duration
  ae_retry_at :: duration
  ae_lease :: "(nat \<times> duration) option"

record attempt_state =
  at_entries :: "(attempt_key \<times> attempt_entry) list"
  at_generation :: nat
  at_now :: duration
  at_cursor :: "attempt_key option"

record memory_attempt_receipt =
  rc_store :: nat
  rc_key :: attempt_key
  rc_generation :: nat

record memory_attempt_limiter =
  al_identity :: nat
  al_poisoned :: bool
  al_state :: attempt_state
  al_capacity :: nat

datatype memory_attempt_error = AttemptPoisoned | SequenceExhausted

datatype memory_attempt_completion_error = MemoryAttemptCompletionError

definition AttemptState_default :: attempt_state where
  "AttemptState_default = \<lparr>at_entries = [], at_generation = 0, at_now = 0, at_cursor = None\<rparr>"

text \<open>\<open>with_clock\<close>: a new allocation, identified by \<open>identity\<close>.\<close>

definition MemoryAttemptLimiter_with_clock :: "nat \<Rightarrow> nat \<Rightarrow> memory_attempt_limiter" where
  "MemoryAttemptLimiter_with_clock identity capacity =
     \<lparr>al_identity = identity, al_poisoned = False, al_state = AttemptState_default, al_capacity = capacity\<rparr>"

section \<open>Entries\<close>

definition fail_entry :: "duration \<Rightarrow> attempt_entry \<Rightarrow> attempt_entry" where
  "fail_entry now e =
     (let failures = saturating_add 32 (ae_failures e) 1 in
      e\<lparr>ae_failures := failures, ae_last_failure := now,
        ae_retry_at := dur_saturating_add now (attempt_delay (ae_policy e) failures)\<rparr>)"

definition reconcile :: "duration \<Rightarrow> attempt_entry \<Rightarrow> attempt_entry" where
  "reconcile now e =
     (let e = (case ae_lease e of
          Some (_, until) \<Rightarrow> if now \<ge> until then fail_entry until (e\<lparr>ae_lease := None\<rparr>) else e
        | None \<Rightarrow> e)
      in if ae_lease e = None \<and>
            now \<ge> dur_saturating_add (ae_last_failure e) (period_duration (ap_quiet_period (ae_policy e)))
         then e\<lparr>ae_failures := 0, ae_retry_at := now\<rparr> else e)"

definition deny_entry :: "attempt_entry \<Rightarrow> duration \<Rightarrow> attempt_denial option" where
  "deny_entry e now =
     (case ae_lease e of
        Some (_, until) \<Rightarrow> Some (Busy (Delay (saturating_sub until now)))
      | None \<Rightarrow> if now < ae_retry_at e then Some (Backoff (Delay (saturating_sub (ae_retry_at e) now)))
                else None)"

definition attempt_completion_of :: "attempt_outcome \<Rightarrow> nat \<Rightarrow> duration \<Rightarrow> attempt_completion option" where
  "attempt_completion_of outcome failures delay =
     expect (AttemptCompletion_new outcome failures (Delay delay))"

section \<open>Cleanup\<close>

definition CLEANUP_LIMIT :: nat where "CLEANUP_LIMIT = 16"

definition cleanup_keys :: "attempt_state \<Rightarrow> attempt_key list" where
  "cleanup_keys state =
     (let keys = sort (map fst (at_entries state)) in
      case at_cursor state of
        Some cursor \<Rightarrow> take CLEANUP_LIMIT (filter (\<lambda>k. cursor < k) keys)
      | None \<Rightarrow> take CLEANUP_LIMIT keys)"

definition removable :: "duration \<Rightarrow> attempt_entry \<Rightarrow> bool" where
  "removable now e =
     (let origin = (case ae_lease e of None \<Rightarrow> ae_last_failure e | Some (_, until) \<Rightarrow> until)
      in now \<ge> dur_saturating_add origin (period_duration (ap_quiet_period (ae_policy e))))"

definition cleanup_one ::
    "duration \<Rightarrow> attempt_key \<Rightarrow> (attempt_key \<times> attempt_entry) list \<Rightarrow> (attempt_key \<times> attempt_entry) list" where
  "cleanup_one now key entries =
     (case map_of entries key of
        Some e \<Rightarrow> if removable now e then AList.delete key entries else entries
      | None \<Rightarrow> entries)"

definition last_opt :: "'a list \<Rightarrow> 'a option" where
  "last_opt xs = (if xs = [] then None else Some (last xs))"

definition attempt_cleanup :: "duration \<Rightarrow> attempt_state \<Rightarrow> attempt_state" where
  "attempt_cleanup now state =
     (let keys = cleanup_keys state in
      state\<lparr>at_cursor := last_opt keys, at_entries := fold (cleanup_one now) keys (at_entries state)\<rparr>)"

section \<open>Admission\<close>

definition attempt_key_of :: "attempt_subject \<Rightarrow> attempt_key" where
  "attempt_key_of subject =
     (fingerprint_bytes (ap_fingerprint (as_policy subject)), subject_bytes (as_subject subject))"

text \<open>The part of \<open>admit\<close> between the lock and its release.\<close>

definition admit_locked ::
    "nat \<Rightarrow> nat \<Rightarrow> attempt_subject \<Rightarrow> duration \<Rightarrow> attempt_state \<Rightarrow>
     attempt_state \<times> (memory_attempt_error, memory_attempt_receipt attempt_admission) result" where
  "admit_locked identity capacity subject clock state =
     (let policy = as_policy subject;
          key = attempt_key_of subject;
          state = state\<lparr>at_now := max (at_now state) clock\<rparr>;
          now = at_now state;
          state = attempt_cleanup now state;
          (state, denial) =
            (case map_of (at_entries state) key of
               Some e \<Rightarrow>
                 (let e = reconcile now e
                  in (state\<lparr>at_entries := AList.update key e (at_entries state)\<rparr>, deny_entry e now))
             | None \<Rightarrow>
                 (state, if length (at_entries state) \<ge> capacity then Some AttemptStorageCapacity else None))
      in case denial of
           Some d \<Rightarrow> (state, Ok (AttemptDenied d))
         | None \<Rightarrow>
             (case checked_add 64 (at_generation state) 1 of
                None \<Rightarrow> (state, Err SequenceExhausted)
              | Some generation \<Rightarrow>
                  (let e = (case map_of (at_entries state) key of
                       Some e \<Rightarrow> e
                     | None \<Rightarrow> \<lparr>ae_policy = policy, ae_failures = 0, ae_last_failure = now,
                                ae_retry_at = now, ae_lease = None\<rparr>);
                       e = e\<lparr>ae_lease := Some (generation,
                              dur_saturating_add now (period_duration (ap_lease (ae_policy e))))\<rparr>
                   in (state\<lparr>at_generation := generation, at_entries := AList.update key e (at_entries state)\<rparr>,
                       Ok (AttemptAdmitted \<lparr>rc_store = identity, rc_key = key, rc_generation = generation\<rparr>)))))"

definition admit ::
    "memory_attempt_limiter \<Rightarrow> duration option \<Rightarrow> attempt_subject \<Rightarrow> memory_attempt_limiter \<times>
     (memory_attempt_error, memory_attempt_receipt attempt_admission) result option" where
  "admit self clock subject =
     (if al_poisoned self then (self, Some (Err AttemptPoisoned))
      else case clock of
        None \<Rightarrow> (self\<lparr>al_poisoned := True\<rparr>, None)
      | Some now \<Rightarrow>
          (let (state, result) = admit_locked (al_identity self) (al_capacity self) subject now (al_state self)
           in (self\<lparr>al_state := state\<rparr>, Some result)))"

section \<open>Completion\<close>

text \<open>
  The part of \<open>complete\<close> between the lock and its release: the new state, and the result unless
  building the completion panics.
\<close>

definition complete_locked ::
    "nat \<Rightarrow> memory_attempt_receipt \<Rightarrow> attempt_outcome \<Rightarrow> duration \<Rightarrow> attempt_state \<Rightarrow>
     attempt_state \<times> attempt_completion_result option" where
  "complete_locked identity receipt outcome clock state =
     (let state = state\<lparr>at_now := max (at_now state) clock\<rparr>;
          now = at_now state;
          key = rc_key receipt;
          valid_store = (rc_store receipt = identity)
      in case map_of (at_entries state) key of
           None \<Rightarrow> (state, Some Stale)
         | Some e \<Rightarrow>
             if valid_store \<and>
                (case ae_lease e of
                   Some (generation, until) \<Rightarrow> generation = rc_generation receipt \<and> now < until
                 | None \<Rightarrow> False)
             then
               (let e = e\<lparr>ae_lease := None\<rparr>;
                    (e, failures, delay) =
                      (if outcome = Success then (e, 0, 0)
                       else let e = fail_entry now e
                            in (e, ae_failures e, attempt_delay (ae_policy e) (ae_failures e)));
                    entries = (if outcome = Success then AList.delete key (at_entries state)
                               else AList.update key e (at_entries state))
                in (state\<lparr>at_entries := entries\<rparr>,
                    map_option Applied (attempt_completion_of outcome failures delay)))
             else (state, Some Stale))"

definition complete ::
    "memory_attempt_limiter \<Rightarrow> duration option \<Rightarrow> memory_attempt_receipt \<Rightarrow> attempt_outcome \<Rightarrow>
     memory_attempt_limiter \<times> (memory_attempt_completion_error, attempt_completion_result) result option" where
  "complete self clock receipt outcome =
     (if al_poisoned self then (self, Some (Err MemoryAttemptCompletionError))
      else case clock of
        None \<Rightarrow> (self\<lparr>al_poisoned := True\<rparr>, None)
      | Some now \<Rightarrow>
          (case complete_locked (al_identity self) receipt outcome now (al_state self) of
             (state, None) \<Rightarrow> (self\<lparr>al_state := state, al_poisoned := True\<rparr>, None)
           | (state, Some result) \<Rightarrow> (self\<lparr>al_state := state\<rparr>, Some (Ok result))))"

section \<open>Observation\<close>

definition attempt_notify ::
    "(attempt_observation \<Rightarrow> 'o \<Rightarrow> 'o \<times> bool) option \<Rightarrow> attempt_observation \<Rightarrow> 'o \<Rightarrow> 'o" where
  "attempt_notify observer obs ost =
     (case observer of None \<Rightarrow> ost | Some f \<Rightarrow> observe_attempt_safely f obs ost)"

definition ma_admit ::
    "(attempt_observation \<Rightarrow> 'o \<Rightarrow> 'o \<times> bool) option \<Rightarrow> 'o \<Rightarrow> memory_attempt_limiter \<Rightarrow> duration option \<Rightarrow>
     attempt_subject \<Rightarrow> 'o \<times> memory_attempt_limiter \<times>
     (memory_attempt_error, memory_attempt_receipt attempt_admission) result option" where
  "ma_admit observer ost self clock subject =
     (case admit self clock subject of
        (self', Some (Ok (AttemptDenied d))) \<Rightarrow>
          (attempt_notify observer (ObsDenied d) ost, self', Some (Ok (AttemptDenied d)))
      | (self', Some (Ok (AttemptAdmitted r))) \<Rightarrow>
          (attempt_notify observer ObsAdmitted ost, self', Some (Ok (AttemptAdmitted r)))
      | (self', r) \<Rightarrow> (ost, self', r))"

definition ma_complete ::
    "(attempt_observation \<Rightarrow> 'o \<Rightarrow> 'o \<times> bool) option \<Rightarrow> 'o \<Rightarrow> memory_attempt_limiter \<Rightarrow> duration option \<Rightarrow>
     memory_attempt_receipt \<Rightarrow> attempt_outcome \<Rightarrow> 'o \<times> memory_attempt_limiter \<times>
     (memory_attempt_completion_error, attempt_completion_result) result option" where
  "ma_complete observer ost self clock receipt outcome =
     (case complete self clock receipt outcome of
        (self', Some (Ok (Applied c))) \<Rightarrow>
          (attempt_notify observer (ObsCompleted c) ost, self', Some (Ok (Applied c)))
      | (self', Some (Ok Stale)) \<Rightarrow> (attempt_notify observer ObsStale ost, self', Some (Ok Stale))
      | (self', r) \<Rightarrow> (ost, self', r))"

end
