(* ===== verification/Memory_Attempts_Correct.thy ===== *)
theory Memory_Attempts_Correct
  imports Memory_Attempts
begin

text \<open>
  The memory attempt store refines the attempt contract: an abstraction of its entries, the
  invariant, the effect of every operation on the abstract states, and the interpretation of the
  locale \<open>attempt_backend\<close>. A table \<open>tab\<close> gives the policy of every fingerprint in use, which is what
  collision resistance of the fingerprint provides.
\<close>

section \<open>Abstraction and invariant\<close>

definition abs_entry :: "attempt_entry \<Rightarrow> nat attempt_view" where
  "abs_entry e =
     (case ae_lease e of
        Some (g, until) \<Rightarrow> held_view (ae_failures e) g until
      | None \<Rightarrow> if ae_failures e = 0 then fresh
                else \<lparr>av_failures = ae_failures e, av_last = ae_last_failure e, av_lease = None\<rparr>)"

definition abs_opt :: "attempt_entry option \<Rightarrow> nat attempt_view" where
  "abs_opt x = (case x of None \<Rightarrow> fresh | Some e \<Rightarrow> abs_entry e)"

definition state_view ::
    "(u8 list \<Rightarrow> attempt_policy) \<Rightarrow> attempt_state \<Rightarrow> duration \<Rightarrow> attempt_key \<Rightarrow> nat attempt_view" where
  "state_view tab st t k = elapse (tab (fst k)) t (abs_opt (map_of (at_entries st) k))"

definition entry_ok :: "attempt_policy \<Rightarrow> duration \<Rightarrow> nat \<Rightarrow> attempt_entry \<Rightarrow> bool" where
  "entry_ok p now gen e \<longleftrightarrow>
     ae_policy e = p \<and>
     (if ae_failures e = 0 then ae_retry_at e \<le> now
      else ae_retry_at e = dur_saturating_add (ae_last_failure e) (attempt_delay p (ae_failures e))) \<and>
     (case ae_lease e of Some (g, until) \<Rightarrow> g \<le> gen \<and> until \<le> duration_MAX | None \<Rightarrow> True)"

definition at_ok :: "(u8 list \<Rightarrow> attempt_policy) \<Rightarrow> nat \<Rightarrow> attempt_state \<Rightarrow> bool" where
  "at_ok tab cap st \<longleftrightarrow>
     al_wf (at_entries st) \<and> length (at_entries st) \<le> cap \<and> at_generation st < 2 ^ 64 \<and>
     (\<forall>k e. map_of (at_entries st) k = Some e \<longrightarrow> entry_ok (tab (fst k)) (at_now st) (at_generation st) e)"

section \<open>Entries\<close>

lemma abs_fail_entry:
  "ae_lease e = None \<Longrightarrow> abs_entry (fail_entry t e) = failed_view (ae_failures e) t"
  by (simp add: abs_entry_def fail_entry_def failed_view_def saturating_add_def Let_def)

lemma fail_entry_simps [simp]:
  "ae_policy (fail_entry t e) = ae_policy e" "ae_lease (fail_entry t e) = ae_lease e"
  "ae_last_failure (fail_entry t e) = t" "0 < ae_failures (fail_entry t e)"
  "ae_retry_at (fail_entry t e) = dur_saturating_add t (attempt_delay (ae_policy e) (ae_failures (fail_entry t e)))"
  by (simp_all add: fail_entry_def Let_def saturating_add_def)

lemma entry_ok_fail: "entry_ok p now gen e \<Longrightarrow> ae_lease e = None \<Longrightarrow> entry_ok p now' gen' (fail_entry t e)"
  using fail_entry_simps(4) [of t e] by (simp add: entry_ok_def del: fail_entry_simps(4))

lemma abs_reconcile:
  assumes "ae_policy e = p"
  shows "abs_entry (reconcile t e) = elapse p t (abs_entry e)"
proof (cases "ae_lease e")
  case None
  then show ?thesis using assms by (auto simp: reconcile_def abs_entry_def elapse_def)
next
  case (Some l)
  obtain g u where l: "ae_lease e = Some (g, u)" using Some by (cases l) auto
  show ?thesis
  proof (cases "u \<le> t")
    case True
    let ?e = "fail_entry u (e\<lparr>ae_lease := None\<rparr>)"
    have abs: "abs_entry ?e = failed_view (ae_failures e) u" by (simp add: abs_fail_entry)
    have "abs_entry (?e\<lparr>ae_failures := 0, ae_retry_at := t\<rparr>) = fresh" by (simp add: abs_entry_def)
    then show ?thesis using l True abs assms
      by (simp add: reconcile_def abs_entry_def [of e] elapse_held elapse_failed)
  next
    case False
    then show ?thesis using l by (simp add: reconcile_def abs_entry_def elapse_held)
  qed
qed

lemma reconcile_policy [simp]: "ae_policy (reconcile t e) = ae_policy e"
  by (auto simp: reconcile_def Let_def split: option.splits)

lemma entry_ok_reconcile:
  assumes "entry_ok p now gen e" "now \<le> t"
  shows "entry_ok p t gen (reconcile t e)"
proof -
  have keep: "entry_ok p t gen e'" if "entry_ok p now gen e'" for e'
    using that assms(2) by (auto simp: entry_ok_def split: if_splits)
  have nolease: "entry_ok p now gen (e\<lparr>ae_lease := None\<rparr>)"
    using assms(1) by (auto simp: entry_ok_def)
  have q: "entry_ok p t gen (e'\<lparr>ae_failures := 0, ae_retry_at := t\<rparr>)" if "entry_ok p t gen e'" for e'
    using that by (auto simp: entry_ok_def)
  have "entry_ok p t gen (case ae_lease e of
      Some (_, until) \<Rightarrow> if t \<ge> until then fail_entry until (e\<lparr>ae_lease := None\<rparr>) else e | None \<Rightarrow> e)"
    using keep [OF assms(1)] entry_ok_fail [OF nolease] by (auto split: option.splits)
  then show ?thesis using q unfolding reconcile_def Let_def by (simp only: split: if_splits) auto
qed

lemma deny_entry_spec:
  assumes "entry_ok p t gen e"
  shows "deny_entry e t = denial_of p t (abs_entry e)"
  using assms
  by (auto simp: deny_entry_def denial_of_def abs_entry_def entry_ok_def admissible_def retry_at_def
      saturating_sub_def split: option.splits)

lemma removable_fresh:
  assumes "entry_ok p now gen e" "removable now e" "now \<le> t"
  shows "elapse p t (abs_entry e) = fresh"
proof (cases "ae_lease e")
  case None
  then show ?thesis using assms by (auto simp: removable_def abs_entry_def elapse_def entry_ok_def)
next
  case (Some l)
  obtain g u where l: "ae_lease e = Some (g, u)" using Some by (cases l) auto
  have "dur_saturating_add u (period_duration (ap_quiet_period p)) \<le> t"
    using assms l by (auto simp: removable_def entry_ok_def)
  moreover have "u \<le> dur_saturating_add u (period_duration (ap_quiet_period p))"
    using assms(1) l by (simp add: entry_ok_def dur_saturating_add_def)
  ultimately show ?thesis using l by (simp add: abs_entry_def elapse_held elapse_failed)
qed

section \<open>Cleanup\<close>

lemma at_ok_entry:
  "at_ok tab cap st \<Longrightarrow> map_of (at_entries st) k = Some e \<Longrightarrow>
     entry_ok (tab (fst k)) (at_now st) (at_generation st) e"
  unfolding at_ok_def by blast

lemma at_ok_subset:
  assumes "at_ok tab cap st" "al_wf es" "length es \<le> cap"
    and "\<And>k e. map_of es k = Some e \<Longrightarrow> map_of (at_entries st) k = Some e \<or>
      entry_ok (tab (fst k)) (at_now st) (at_generation st) e"
  shows "at_ok tab cap (st\<lparr>at_entries := es\<rparr>)"
proof -
  have "at_entries (st\<lparr>at_entries := es\<rparr>) = es" "at_now (st\<lparr>at_entries := es\<rparr>) = at_now st"
    "at_generation (st\<lparr>at_entries := es\<rparr>) = at_generation st" by simp_all
  with assms show ?thesis unfolding at_ok_def by metis
qed

lemma cleanup_one_ok:
  assumes "at_ok tab cap (st\<lparr>at_entries := es\<rparr>)"
  shows "at_ok tab cap (st\<lparr>at_entries := cleanup_one (at_now st) k es\<rparr>)"
    "at_now st \<le> t \<Longrightarrow> state_view tab (st\<lparr>at_entries := cleanup_one (at_now st) k es\<rparr>) t =
       state_view tab (st\<lparr>at_entries := es\<rparr>) t"
proof -
  show "at_ok tab cap (st\<lparr>at_entries := cleanup_one (at_now st) k es\<rparr>)"
  proof (cases "\<exists>e. map_of es k = Some e \<and> removable (at_now st) e")
    case True
    have "at_ok tab cap (st\<lparr>at_entries := es, at_entries := AList.delete k es\<rparr>)"
      by (rule at_ok_subset [OF assms])
        (use assms length_delete_le [of k es] in \<open>auto simp: at_ok_def distinct_delete delete_conv' split: if_splits\<close>)
    with True show ?thesis by (auto simp: cleanup_one_def)
  next
    case False
    then have "cleanup_one (at_now st) k es = es" by (auto simp: cleanup_one_def split: option.splits)
    with assms show ?thesis by simp
  qed
  show "state_view tab (st\<lparr>at_entries := cleanup_one (at_now st) k es\<rparr>) t = state_view tab (st\<lparr>at_entries := es\<rparr>) t"
    if "at_now st \<le> t"
  proof
    fix k'
    have "elapse (tab (fst k)) t (abs_entry e) = fresh" if "map_of es k = Some e" "removable (at_now st) e" for e
      using at_ok_entry [OF assms, of k e] that \<open>at_now st \<le> t\<close> by (auto intro: removable_fresh)
    then show "state_view tab (st\<lparr>at_entries := cleanup_one (at_now st) k es\<rparr>) t k' = state_view tab (st\<lparr>at_entries := es\<rparr>) t k'"
      by (auto simp: state_view_def cleanup_one_def al_simps abs_opt_def split: option.splits)
  qed
qed

lemma cleanup_fold_ok:
  assumes "at_ok tab cap (st\<lparr>at_entries := es\<rparr>)"
  shows "at_ok tab cap (st\<lparr>at_entries := fold (cleanup_one (at_now st)) ks es\<rparr>) \<and>
    (\<forall>t \<ge> at_now st. state_view tab (st\<lparr>at_entries := fold (cleanup_one (at_now st)) ks es\<rparr>) t =
       state_view tab (st\<lparr>at_entries := es\<rparr>) t)"
  using assms
proof (induction ks arbitrary: es)
  case (Cons k ks)
  then show ?case using cleanup_one_ok [OF Cons.prems] by simp
qed simp

lemma cleanup_fold_length: "length (fold (cleanup_one now) ks es) \<le> length es"
proof (induction ks arbitrary: es)
  case (Cons k ks)
  have "length (cleanup_one now k es) \<le> length es"
    by (auto simp: cleanup_one_def length_delete_le split: option.splits)
  with Cons [of "cleanup_one now k es"] show ?case by simp
qed simp

lemma attempt_cleanup_ok:
  assumes "at_ok tab cap st"
  shows "at_ok tab cap (attempt_cleanup (at_now st) st)"
    "at_now st \<le> t \<Longrightarrow> state_view tab (attempt_cleanup (at_now st) st) t = state_view tab st t"
    "at_now (attempt_cleanup (at_now st) st) = at_now st"
    "at_generation (attempt_cleanup (at_now st) st) = at_generation st"
proof -
  have C: "at_ok tab cap (st\<lparr>at_entries := fold (cleanup_one (at_now st)) (cleanup_keys st) (at_entries st)\<rparr>) \<and>
    (\<forall>t \<ge> at_now st. state_view tab (st\<lparr>at_entries := fold (cleanup_one (at_now st)) (cleanup_keys st) (at_entries st)\<rparr>) t =
       state_view tab (st\<lparr>at_entries := at_entries st\<rparr>) t)"
    by (rule cleanup_fold_ok) (use assms in simp)
  then show "at_ok tab cap (attempt_cleanup (at_now st) st)"
    "at_now st \<le> t \<Longrightarrow> state_view tab (attempt_cleanup (at_now st) st) t = state_view tab st t"
    by (auto simp: attempt_cleanup_def Let_def at_ok_def state_view_def fun_eq_iff)
qed (simp_all add: attempt_cleanup_def Let_def)

lemma at_ok_clock:
  assumes "at_ok tab cap st"
  shows "at_ok tab cap (st\<lparr>at_now := max (at_now st) c\<rparr>)" "state_view tab (st\<lparr>at_now := n\<rparr>) = state_view tab st"
proof -
  have "entry_ok p (max (at_now st) c) g e" if "entry_ok p (at_now st) g e" for p g e
    using that by (auto simp: entry_ok_def split: if_splits)
  then show "at_ok tab cap (st\<lparr>at_now := max (at_now st) c\<rparr>)" using assms by (auto simp: at_ok_def)
  show "state_view tab (st\<lparr>at_now := n\<rparr>) = state_view tab st" by (simp add: state_view_def fun_eq_iff)
qed

section \<open>Operations on the locked state\<close>

lemma state_view_update:
  "state_view tab (st\<lparr>at_entries := AList.update k e (at_entries st)\<rparr>) t =
     (state_view tab st t)(k := elapse (tab (fst k)) t (abs_entry e))"
  by (auto simp: state_view_def al_simps abs_opt_def fun_eq_iff)

lemma state_view_delete:
  "state_view tab (st\<lparr>at_entries := AList.delete k (at_entries st)\<rparr>) t = (state_view tab st t)(k := fresh)"
  by (auto simp: state_view_def al_simps abs_opt_def fun_eq_iff)

lemma state_view_other [simp]:
  "state_view tab (st\<lparr>at_generation := g\<rparr>) = state_view tab st"
  "state_view tab (st\<lparr>at_entries := es, at_generation := g\<rparr>) = state_view tab (st\<lparr>at_entries := es\<rparr>)"
  by (simp_all add: state_view_def fun_eq_iff)

lemma at_ok_update:
  assumes "at_ok tab cap st" "entry_ok (tab (fst k)) (at_now st) (at_generation st) e"
    and "map_of (at_entries st) k = None \<longrightarrow> length (at_entries st) < cap"
  shows "at_ok tab cap (st\<lparr>at_entries := AList.update k e (at_entries st)\<rparr>)"
proof (rule at_ok_subset [OF assms(1)])
  show "al_wf (AList.update k e (at_entries st))"
    using assms(1) by (simp add: at_ok_def distinct_update)
  show "length (AList.update k e (at_entries st)) \<le> cap"
    using assms(1,3) by (auto simp: at_ok_def al_length_update)
next
  fix k' e' assume "map_of (AList.update k e (at_entries st)) k' = Some e'"
  then show "map_of (at_entries st) k' = Some e' \<or> entry_ok (tab (fst k')) (at_now st) (at_generation st) e'"
    using assms(2) unfolding AList.update_conv' fun_upd_apply by (metis option.inject)
qed

lemma at_ok_delete:
  assumes "at_ok tab cap st"
  shows "at_ok tab cap (st\<lparr>at_entries := AList.delete k (at_entries st)\<rparr>)"
proof (rule at_ok_subset [OF assms])
  show "al_wf (AList.delete k (at_entries st))" using assms by (simp add: at_ok_def distinct_delete)
  show "length (AList.delete k (at_entries st)) \<le> cap"
    using assms length_delete_le [of k "at_entries st"] by (simp add: at_ok_def)
next
  fix k' e' assume "map_of (AList.delete k (at_entries st)) k' = Some e'"
  then show "map_of (at_entries st) k' = Some e' \<or> entry_ok (tab (fst k')) (at_now st) (at_generation st) e'"
    unfolding AList.delete_conv' fun_upd_apply by (metis option.distinct(1))
qed

lemma at_ok_generation:
  assumes "at_ok tab cap st" "at_generation st \<le> g" "g < 2 ^ 64"
  shows "at_ok tab cap (st\<lparr>at_generation := g\<rparr>)"
proof -
  have "entry_ok p n g e" if "entry_ok p n (at_generation st) e" for p n e
    using that assms(2) by (auto simp: entry_ok_def split: option.splits if_splits)
  then show ?thesis using assms(1,3) by (simp add: at_ok_def del: map_of_eq_Some_iff)
qed

text \<open>What \<open>admit\<close> returns, in terms of the subject's state at the instant of the call.\<close>

definition admit_outcome ::
    "(u8 list \<Rightarrow> attempt_policy) \<Rightarrow> nat \<Rightarrow> nat \<Rightarrow> attempt_key \<Rightarrow> attempt_state \<Rightarrow> attempt_state \<Rightarrow>
     (memory_attempt_error, memory_attempt_receipt attempt_admission) result \<Rightarrow> bool" where
  "admit_outcome tab identity cap key st st' r \<longleftrightarrow>
     (let now = at_now st'; v = state_view tab st now key in
      case denial_of (tab (fst key)) now v of
        Some d \<Rightarrow> r = Ok (AttemptDenied d) \<and> (\<forall>t \<ge> now. state_view tab st' t = state_view tab st t)
      | None \<Rightarrow>
          r = Ok (AttemptDenied AttemptStorageCapacity) \<and> v = fresh \<and> length (at_entries st') = cap \<and>
            (\<forall>t \<ge> now. state_view tab st' t = state_view tab st t)
          \<or> r = Err SequenceExhausted \<and> at_generation st = 2 ^ 64 - 1 \<and>
            (\<forall>t \<ge> now. state_view tab st' t = state_view tab st t)
          \<or> r = Ok (AttemptAdmitted \<lparr>rc_store = identity, rc_key = key, rc_generation = at_generation st + 1\<rparr>) \<and>
            at_generation st' = at_generation st + 1 \<and>
            (\<forall>t \<ge> now. state_view tab st' t = event_effect (tab \<circ> fst) now (Ev_Admit key (at_generation st + 1))
               (state_view tab st) t))"

lemma reconcile_update_ok:
  fixes tab st k
  defines "p \<equiv> tab (fst k)" and "now \<equiv> at_now st"
  assumes ok: "at_ok tab cap st" and e: "map_of (at_entries st) k = Some e"
  defines "st' \<equiv> st\<lparr>at_entries := AList.update k (reconcile now e) (at_entries st)\<rparr>"
  shows "at_ok tab cap st'" "entry_ok p now (at_generation st) (reconcile now e)"
    "now \<le> t \<Longrightarrow> state_view tab st' t = state_view tab st t"
    "abs_entry (reconcile now e) = state_view tab st now k"
proof -
  have eo: "entry_ok p now (at_generation st) e" using at_ok_entry [OF ok e] by (simp add: p_def now_def)
  then show eo': "entry_ok p now (at_generation st) (reconcile now e)" by (rule entry_ok_reconcile) simp
  then show "at_ok tab cap st'" unfolding st'_def using ok e by (intro at_ok_update) (auto simp: p_def now_def)
  show abs: "abs_entry (reconcile now e) = state_view tab st now k"
    unfolding state_view_def e abs_opt_def using abs_reconcile [of e p now] eo by (simp add: entry_ok_def p_def)
  show "state_view tab st' t = state_view tab st t" if "now \<le> t"
    unfolding st'_def state_view_update abs using that
    by (auto simp: fun_eq_iff state_view_def elapse_elapse)
qed

lemma grant_ok:
  fixes tab st k e
  defines "g \<equiv> at_generation st + 1" and "until \<equiv> dur_saturating_add (at_now st) (period_duration (ap_lease (tab (fst k))))"
  defines "f \<equiv> e\<lparr>ae_lease := Some (g, until)\<rparr>"
  defines "st' \<equiv> st\<lparr>at_generation := g, at_entries := AList.update k f (at_entries st)\<rparr>"
  assumes ok: "at_ok tab cap st" and e: "entry_ok (tab (fst k)) (at_now st) (at_generation st) e"
    and room: "map_of (at_entries st) k = None \<longrightarrow> length (at_entries st) < cap" and g: "g < 2 ^ 64"
  shows "at_ok tab cap st'"
    "state_view tab st' t = (state_view tab st t)(k := elapse (tab (fst k)) t (held_view (ae_failures e) g until))"
proof -
  let ?s = "st\<lparr>at_generation := g\<rparr>"
  have s: "at_ok tab cap ?s" using at_ok_generation [OF ok _ g] by (simp add: g_def)
  have "entry_ok (tab (fst k)) (at_now ?s) (at_generation ?s) f"
    using e by (auto simp: entry_ok_def f_def until_def dur_saturating_add_def)
  then show "at_ok tab cap st'" using at_ok_update [OF s, of k f] room by (simp add: st'_def)
  have "abs_entry f = held_view (ae_failures e) g until" by (simp add: abs_entry_def f_def)
  then show "state_view tab st' t = (state_view tab st t)(k := elapse (tab (fst k)) t (held_view (ae_failures e) g until))"
    using state_view_update [where st = ?s and k = k and e = f and tab = tab and t = t] by (simp add: st'_def)
qed

text \<open>The state in which \<open>admit\<close> looks the subject up.\<close>

definition admit_start :: "duration \<Rightarrow> attempt_state \<Rightarrow> attempt_state" where
  "admit_start clock st = attempt_cleanup (max (at_now st) clock) (st\<lparr>at_now := max (at_now st) clock\<rparr>)"

lemma admit_start_ok:
  assumes "at_ok tab cap st"
  shows "at_ok tab cap (admit_start clock st)" "at_now (admit_start clock st) = max (at_now st) clock"
    "at_generation (admit_start clock st) = at_generation st"
    "max (at_now st) clock \<le> t \<Longrightarrow> state_view tab (admit_start clock st) t = state_view tab st t"
  using attempt_cleanup_ok [OF at_ok_clock(1) [OF assms, of clock]] at_ok_clock(2) [OF assms]
  unfolding admit_start_def by simp_all

lemma admit_locked_unfold:
  "admit_locked identity cap subject clock st =
     (let st = admit_start clock st; now = at_now st; key = attempt_key_of subject;
          (st, denial) = (case map_of (at_entries st) key of
             Some e \<Rightarrow> (st\<lparr>at_entries := AList.update key (reconcile now e) (at_entries st)\<rparr>, deny_entry (reconcile now e) now)
           | None \<Rightarrow> (st, if length (at_entries st) \<ge> cap then Some AttemptStorageCapacity else None))
      in case denial of Some d \<Rightarrow> (st, Ok (AttemptDenied d))
         | None \<Rightarrow> if at_generation st + 1 < 2 ^ 64
             then let e = (case map_of (at_entries st) key of Some e \<Rightarrow> e
                    | None \<Rightarrow> \<lparr>ae_policy = as_policy subject, ae_failures = 0, ae_last_failure = now, ae_retry_at = now, ae_lease = None\<rparr>)
               in (st\<lparr>at_generation := at_generation st + 1, at_entries := AList.update key
                     (e\<lparr>ae_lease := Some (at_generation st + 1, dur_saturating_add now (period_duration (ap_lease (ae_policy e))))\<rparr>)
                     (at_entries st)\<rparr>,
                   Ok (AttemptAdmitted \<lparr>rc_store = identity, rc_key = key, rc_generation = at_generation st + 1\<rparr>))
             else (st, Err SequenceExhausted))"
  by (simp add: admit_locked_def admit_start_def Let_def checked_add_def attempt_cleanup_def split: option.splits)

lemma admit_locked_present:
  assumes ok: "at_ok tab cap st" and p: "tab (fst (attempt_key_of subject)) = as_policy subject"
    and e: "map_of (at_entries (admit_start clock st)) (attempt_key_of subject) = Some e"
    and r: "admit_locked identity cap subject clock st = (st', r)"
  shows "at_ok tab cap st' \<and> at_now st' = max (at_now st) clock \<and>
    admit_outcome tab identity cap (attempt_key_of subject) st st' r"
proof -
  let ?k = "attempt_key_of subject" and ?s1 = "admit_start clock st"
  let ?now = "at_now ?s1" and ?p = "as_policy subject" and ?g = "at_generation st + 1"
  let ?e = "reconcile ?now e" and ?s2 = "?s1\<lparr>at_entries := AList.update ?k (reconcile ?now e) (at_entries ?s1)\<rparr>"
  note S = admit_start_ok [OF ok, of clock] and U = reconcile_update_ok [OF admit_start_ok(1) [OF ok, of clock] e]
  have V: "state_view tab ?s2 t = state_view tab st t" if "?now \<le> t" for t using U(3) [OF that] S(4) [of t] S(2) that by simp
  have abs: "abs_entry ?e = state_view tab st ?now ?k" using U(4) S(4) [of ?now] S(2) by simp
  have eo: "entry_ok ?p ?now (at_generation st) ?e" using U(2) p S(3) by simp
  have m: "map_of (at_entries ?s2) ?k = Some ?e" by (simp add: update_conv')
  have deny: "deny_entry ?e ?now = denial_of ?p ?now (state_view tab st ?now ?k)"
    using deny_entry_spec [OF eo] abs by simp
  note R = r [unfolded admit_locked_unfold, unfolded Let_def e option.case prod.case m deny]
  consider d where "denial_of ?p ?now (state_view tab st ?now ?k) = Some d"
    | "denial_of ?p ?now (state_view tab st ?now ?k) = None" "\<not> ?g < 2 ^ 64"
    | "denial_of ?p ?now (state_view tab st ?now ?k) = None" "?g < 2 ^ 64" by (cases "denial_of ?p ?now (state_view tab st ?now ?k)") auto
  then show ?thesis
  proof cases
    case 1
    then show ?thesis using R U(1) V p S(2) by (auto simp: admit_outcome_def)
  next
    case 2
    then have "at_generation st = 2 ^ 64 - 1" using ok by (simp add: at_ok_def)
    then show ?thesis using 2 R U(1) V p S(2,3) by (auto simp: admit_outcome_def)
  next
    case 3
    have pe: "ae_policy ?e = ?p" using eo by (simp add: entry_ok_def)
    have st': "st' = ?s2\<lparr>at_generation := ?g, at_entries := AList.update ?k
        (?e\<lparr>ae_lease := Some (?g, dur_saturating_add ?now (period_duration (ap_lease ?p)))\<rparr>) (at_entries ?s2)\<rparr>"
      and r': "r = Ok (AttemptAdmitted \<lparr>rc_store = identity, rc_key = ?k, rc_generation = ?g\<rparr>)"
      using R 3 pe S(3) by auto
    have f: "ae_failures ?e = av_failures (state_view tab st ?now ?k)"
      unfolding abs [symmetric] by (auto simp: abs_entry_def split: option.splits)
    have "at_ok tab cap st'" unfolding st' using grant_ok(1) [OF U(1), of ?k ?e] eo m 3 S p by simp
    moreover have "state_view tab st' t = event_effect (tab \<circ> fst) ?now (Ev_Admit ?k ?g) (state_view tab st) t" if "?now \<le> t" for t
      unfolding st' using grant_ok(2) [OF U(1), of ?k ?e t] eo m 3 S p V [OF that] f by simp
    ultimately show ?thesis using r' 3 p S(2) by (simp add: admit_outcome_def st')
  qed
qed

lemma admit_locked_absent:
  assumes ok: "at_ok tab cap st" and p: "tab (fst (attempt_key_of subject)) = as_policy subject"
    and e: "map_of (at_entries (admit_start clock st)) (attempt_key_of subject) = None"
    and r: "admit_locked identity cap subject clock st = (st', r)"
  shows "at_ok tab cap st' \<and> at_now st' = max (at_now st) clock \<and>
    admit_outcome tab identity cap (attempt_key_of subject) st st' r"
proof -
  let ?k = "attempt_key_of subject" and ?s1 = "admit_start clock st"
  let ?now = "at_now ?s1" and ?p = "as_policy subject" and ?g = "at_generation st + 1"
  let ?e = "\<lparr>ae_policy = ?p, ae_failures = 0, ae_last_failure = ?now, ae_retry_at = ?now, ae_lease = None\<rparr>"
  note S = admit_start_ok [OF ok, of clock]
  have V: "state_view tab ?s1 t = state_view tab st t" if "?now \<le> t" for t using S(2,4) that by simp
  have v: "state_view tab st ?now ?k = fresh"
    unfolding V [OF order_refl, symmetric] by (simp add: state_view_def e abs_opt_def)
  have none: "denial_of ?p ?now (state_view tab st ?now ?k) = None" by (simp add: v denial_of_None)
  note R = r [unfolded admit_locked_unfold, unfolded Let_def e option.case prod.case]
  consider "cap \<le> length (at_entries ?s1)" | "\<not> cap \<le> length (at_entries ?s1)" "\<not> ?g < 2 ^ 64"
    | "\<not> cap \<le> length (at_entries ?s1)" "?g < 2 ^ 64" by blast
  then show ?thesis
  proof cases
    case 1
    then have "length (at_entries ?s1) = cap" using S(1) by (simp add: at_ok_def)
    then show ?thesis using 1 R S V none p v by (auto simp: admit_outcome_def)
  next
    case 2
    then have "at_generation st = 2 ^ 64 - 1" using ok by (simp add: at_ok_def)
    then show ?thesis using 2 R S V none p by (auto simp: admit_outcome_def)
  next
    case 3
    have st': "st' = ?s1\<lparr>at_generation := ?g, at_entries := AList.update ?k
        (?e\<lparr>ae_lease := Some (?g, dur_saturating_add ?now (period_duration (ap_lease ?p)))\<rparr>) (at_entries ?s1)\<rparr>"
      and r': "r = Ok (AttemptAdmitted \<lparr>rc_store = identity, rc_key = ?k, rc_generation = ?g\<rparr>)"
      using R 3 e S(3) by auto
    have eo: "entry_ok ?p ?now (at_generation st) ?e" by (simp add: entry_ok_def)
    have "at_ok tab cap st'" unfolding st' using grant_ok(1) [OF S(1), of ?k ?e] eo 3 S p by simp
    moreover have "state_view tab st' t = event_effect (tab \<circ> fst) ?now (Ev_Admit ?k ?g) (state_view tab st) t" if "?now \<le> t" for t
      unfolding st' using grant_ok(2) [OF S(1), of ?k ?e t] eo 3 S p V [OF that] v by simp
    ultimately show ?thesis using r' none p S(2) by (simp add: admit_outcome_def st')
  qed
qed

lemma admit_locked_spec:
  assumes "at_ok tab cap st" "tab (fst (attempt_key_of subject)) = as_policy subject"
    and "admit_locked identity cap subject clock st = (st', r)"
  shows "at_ok tab cap st'" "at_now st' = max (at_now st) clock"
    "admit_outcome tab identity cap (attempt_key_of subject) st st' r"
  using admit_locked_present [OF assms(1,2) _ assms(3)] admit_locked_absent [OF assms(1,2) _ assms(3)]
  by (cases "map_of (at_entries (admit_start clock st)) (attempt_key_of subject)"; blast)+

text \<open>What \<open>complete\<close> returns, in terms of the subject's state at the instant of the call.\<close>

definition complete_outcome ::
    "(u8 list \<Rightarrow> attempt_policy) \<Rightarrow> nat \<Rightarrow> memory_attempt_receipt \<Rightarrow> attempt_outcome \<Rightarrow> attempt_state \<Rightarrow>
     attempt_state \<Rightarrow> attempt_completion_result \<Rightarrow> bool" where
  "complete_outcome tab identity receipt outcome st st' r \<longleftrightarrow>
     (let now = at_now st'; k = rc_key receipt; g = rc_generation receipt; v = state_view tab st now k;
          v' = completed_view outcome now v in
      if rc_store receipt = identity \<and> (\<exists>until. av_lease v = Some (g, until))
      then r = Applied \<lparr>ac_outcome = outcome, ac_consecutive_failures = av_failures v',
             ac_retry_after = Delay (attempt_delay (tab (fst k)) (av_failures v'))\<rparr> \<and>
           (\<forall>t \<ge> now. state_view tab st' t = event_effect (tab \<circ> fst) now (Ev_Complete k g outcome) (state_view tab st) t)
      else r = Stale \<and> (\<forall>t \<ge> now. state_view tab st' t = state_view tab st t))"

lemma completion_total:
  assumes "ap_ok p" "if outcome = Success then n = 0 else 0 < n"
  shows "attempt_completion_of outcome n (attempt_delay p n) =
    Some \<lparr>ac_outcome = outcome, ac_consecutive_failures = n, ac_retry_after = Delay (attempt_delay p n)\<rparr>"
  using assms attempt_delay_pos [OF assms(1), of n]
  by (cases outcome) (auto simp: attempt_completion_of_def AttemptCompletion_new_def is_zero_def)

lemma complete_applied:
  assumes ok: "at_ok tab cap st" and p: "ap_ok (tab (fst k))"
    and e: "map_of (at_entries st) k = Some e" "ae_lease e = Some (g, u)" "now < u" "now = at_now st"
  defines "f \<equiv> fail_entry now (e\<lparr>ae_lease := None\<rparr>)"
  shows "state_view tab st now k = held_view (ae_failures e) g u"
    "at_ok tab cap (st\<lparr>at_entries := AList.update k f (at_entries st)\<rparr>)"
    "state_view tab (st\<lparr>at_entries := AList.update k f (at_entries st)\<rparr>) t =
       (state_view tab st t)(k := elapse (tab (fst k)) t (failed_view (ae_failures e) now))"
    "ae_policy f = tab (fst k)" "ae_failures f = av_failures (failed_view (ae_failures e) now :: nat attempt_view)"
proof -
  have eo: "entry_ok (tab (fst k)) now (at_generation st) e" using at_ok_entry [OF ok e(1)] e(4) by simp
  show "state_view tab st now k = held_view (ae_failures e) g u"
    unfolding state_view_def e(1) using e(2,3) by (simp add: abs_opt_def abs_entry_def elapse_held)
  have "entry_ok (tab (fst k)) now (at_generation st) (e\<lparr>ae_lease := None\<rparr>)" using eo by (auto simp: entry_ok_def)
  then have "entry_ok (tab (fst k)) (at_now st) (at_generation st) f" unfolding f_def by (rule entry_ok_fail) simp
  then show "at_ok tab cap (st\<lparr>at_entries := AList.update k f (at_entries st)\<rparr>)"
    using at_ok_update [OF ok, of k f] e(1) by simp
  have "abs_entry f = failed_view (ae_failures e) now" unfolding f_def by (simp add: abs_fail_entry)
  then show "state_view tab (st\<lparr>at_entries := AList.update k f (at_entries st)\<rparr>) t =
      (state_view tab st t)(k := elapse (tab (fst k)) t (failed_view (ae_failures e) now))"
    by (simp add: state_view_update)
  show "ae_policy f = tab (fst k)" using eo by (simp add: f_def entry_ok_def)
  show "ae_failures f = av_failures (failed_view (ae_failures e) now :: nat attempt_view)"
    by (simp add: f_def fail_entry_def failed_view_def Let_def)
qed

lemma complete_locked_spec:
  assumes ok: "at_ok tab cap st" and p: "\<And>f. ap_ok (tab f)"
  shows "\<exists>st' r. complete_locked identity receipt outcome clock st = (st', Some r) \<and> at_ok tab cap st' \<and>
    at_now st' = max (at_now st) clock \<and> complete_outcome tab identity receipt outcome st st' r"
proof -
  let ?now = "max (at_now st) clock" and ?k = "rc_key receipt" and ?g = "rc_generation receipt"
  let ?s = "st\<lparr>at_now := max (at_now st) clock\<rparr>" and ?v = "state_view tab st (max (at_now st) clock) (rc_key receipt)"
  note s = at_ok_clock(1) [OF ok, of clock] and V = at_ok_clock(2) [OF ok, of ?now]
  show ?thesis
  proof (cases "rc_store receipt = identity \<and> (\<exists>u. av_lease ?v = Some (?g, u))")
    case True
    then obtain u where u: "av_lease ?v = Some (?g, u)" by blast
    then have "?now < u" "av_lease (abs_opt (map_of (at_entries st) ?k)) = Some (?g, u)"
      by (simp_all add: state_view_def elapse_lease)
    then obtain e where e: "map_of (at_entries ?s) ?k = Some e" "ae_lease e = Some (?g, u)" "?now < u" "?now = at_now ?s"
      by (auto simp: abs_opt_def abs_entry_def held_view_def split: option.splits if_splits)
    note A = complete_applied [OF s p e]
    have vw: "?v = held_view (ae_failures e) ?g u" using A(1) V by simp
    show ?thesis
    proof (cases "outcome = Success")
      case S: True
      show ?thesis
        using True e S at_ok_delete [OF s, of ?k] completion_total [OF p, of Success 0] vw V
        by (simp add: complete_locked_def Let_def complete_outcome_def completed_view_def
            state_view_delete [where st = "?s", simplified])
    next
      case F: False
      have "attempt_completion_of outcome (ae_failures (fail_entry ?now (e\<lparr>ae_lease := None\<rparr>)))
          (attempt_delay (tab (fst ?k)) (ae_failures (fail_entry ?now (e\<lparr>ae_lease := None\<rparr>)))) =
        Some \<lparr>ac_outcome = outcome, ac_consecutive_failures = av_failures (failed_view (ae_failures e) ?now :: nat attempt_view),
          ac_retry_after = Delay (attempt_delay (tab (fst ?k)) (av_failures (failed_view (ae_failures e) ?now :: nat attempt_view)))\<rparr>"
        unfolding A(5) using F completion_total [OF p] by simp
      then show ?thesis
        using True e F A(2,3) A(4) [unfolded fail_entry_simps] vw V
        by (simp add: complete_locked_def Let_def complete_outcome_def completed_view_def)
    qed
  next
    case False
    have "complete_locked identity receipt outcome clock st = (?s, Some Stale)"
    proof (cases "map_of (at_entries st) ?k")
      case (Some e)
      have "\<not> (rc_store receipt = identity \<and> (case ae_lease e of Some (g, u) \<Rightarrow> g = ?g \<and> ?now < u | None \<Rightarrow> False))"
        using False Some by (auto simp: state_view_def abs_opt_def abs_entry_def elapse_lease split: option.splits)
      then show ?thesis using Some by (auto simp: complete_locked_def Let_def split: option.splits)
    qed (simp add: complete_locked_def Let_def)
    then show ?thesis using s False V by (auto simp: complete_outcome_def Let_def)
  qed
qed

end
