(* ===== verification/Memory_Attempt_Limits.thy ===== *)
theory Memory_Attempt_Limits
  imports Memory_Attempts_Correct
begin

text \<open>
  What the memory attempt limiter guarantees: it provides the contract of \<open>attempt_backend\<close>, so at most
  one attempt per subject is in flight, attempts are spaced by the backoff, receipts are completed at
  most once, storage is bounded and no operation panics.
\<close>

section \<open>Histories of operations\<close>

datatype attempt_op =
    At_Admit attempt_subject "duration option"
  | At_Complete memory_attempt_receipt attempt_outcome "duration option"

fun attempt_step :: "attempt_op \<Rightarrow> memory_attempt_limiter \<Rightarrow> memory_attempt_limiter \<times> (attempt_key, nat) attempt_event" where
  "attempt_step (At_Admit subject clock) self =
     (case admit self clock subject of
        (self', Some (Ok (AttemptAdmitted r))) \<Rightarrow> (self', Ev_Admit (rc_key r) (rc_generation r))
      | (self', _) \<Rightarrow> (self', Ev_Silent))"
| "attempt_step (At_Complete receipt outcome clock) self =
     (case complete self clock receipt outcome of
        (self', Some (Ok (Applied c))) \<Rightarrow> (self', Ev_Complete (rc_key receipt) (rc_generation receipt) outcome)
      | (self', _) \<Rightarrow> (self', Ev_Silent))"

definition reading_or_zero :: "duration option \<Rightarrow> duration" where
  "reading_or_zero c = (case c of Some t \<Rightarrow> t | None \<Rightarrow> 0)"

fun attempt_reading :: "attempt_op \<Rightarrow> duration" where
  "attempt_reading (At_Admit subject clock) = reading_or_zero clock"
| "attempt_reading (At_Complete receipt outcome clock) = reading_or_zero clock"

text \<open>The subject's policy is the one its fingerprint stands for.\<close>

fun attempt_op_ok :: "(u8 list \<Rightarrow> attempt_policy) \<Rightarrow> attempt_op \<Rightarrow> bool" where
  "attempt_op_ok tab (At_Admit subject clock) \<longleftrightarrow> tab (fst (attempt_key_of subject)) = as_policy subject"
| "attempt_op_ok tab (At_Complete receipt outcome clock) \<longleftrightarrow> True"

definition ma_ok :: "(u8 list \<Rightarrow> attempt_policy) \<Rightarrow> memory_attempt_limiter \<Rightarrow> bool" where
  "ma_ok tab self \<longleftrightarrow> (\<forall>f. ap_ok (tab f)) \<and> at_ok tab (al_capacity self) (al_state self)"

abbreviation ma_now :: "memory_attempt_limiter \<Rightarrow> duration" where
  "ma_now self \<equiv> at_now (al_state self)"

abbreviation ma_view ::
    "(u8 list \<Rightarrow> attempt_policy) \<Rightarrow> memory_attempt_limiter \<Rightarrow> duration \<Rightarrow> attempt_key \<Rightarrow> nat attempt_view" where
  "ma_view tab self \<equiv> state_view tab (al_state self)"

section \<open>Operations on the limiter\<close>

lemma ma_new_ok: "(\<And>f. ap_ok (tab f)) \<Longrightarrow> ma_ok tab (MemoryAttemptLimiter_with_clock i cap)"
  by (simp add: ma_ok_def at_ok_def MemoryAttemptLimiter_with_clock_def AttemptState_default_def)

lemma ma_poison: "ma_ok tab (self\<lparr>al_poisoned := b\<rparr>) \<longleftrightarrow> ma_ok tab self"
  by (simp add: ma_ok_def)

lemma admit_spec:
  assumes "ma_ok tab self" "tab (fst (attempt_key_of subject)) = as_policy subject" "\<not> al_poisoned self"
  shows "\<exists>self' r. admit self (Some c) subject = (self', Some r) \<and> ma_ok tab self' \<and>
    \<not> al_poisoned self' \<and> al_identity self' = al_identity self \<and> al_capacity self' = al_capacity self \<and>
    ma_now self' = max (ma_now self) c \<and>
    admit_outcome tab (al_identity self) (al_capacity self) (attempt_key_of subject) (al_state self) (al_state self') r"
proof -
  obtain st r where L: "admit_locked (al_identity self) (al_capacity self) subject c (al_state self) = (st, r)"
    by fastforce
  have ok: "at_ok tab (al_capacity self) (al_state self)" using assms(1) by (simp add: ma_ok_def)
  show ?thesis using admit_locked_spec [OF ok assms(2) L] assms(1,3) L by (simp add: admit_def ma_ok_def)
qed

lemma complete_spec:
  assumes "ma_ok tab self" "\<not> al_poisoned self"
  shows "\<exists>self' r. complete self (Some c) receipt outcome = (self', Some (Ok r)) \<and> ma_ok tab self' \<and>
    \<not> al_poisoned self' \<and> al_identity self' = al_identity self \<and> al_capacity self' = al_capacity self \<and>
    ma_now self' = max (ma_now self) c \<and>
    complete_outcome tab (al_identity self) receipt outcome (al_state self) (al_state self') r"
proof -
  have "at_ok tab (al_capacity self) (al_state self)" "\<And>f. ap_ok (tab f)" using assms(1) by (simp_all add: ma_ok_def)
  from complete_locked_spec [OF this, of "al_identity self" receipt outcome c] assms
  show ?thesis by (auto simp: complete_def ma_ok_def)
qed

lemma admit_cases:
  obtains (poisoned) "al_poisoned self" "admit self clock subject = (self, Some (Err AttemptPoisoned))"
  | (panic) "\<not> al_poisoned self" "clock = None" "admit self clock subject = (self\<lparr>al_poisoned := True\<rparr>, None)"
  | (run) c where "\<not> al_poisoned self" "clock = Some c"
  by (cases clock) (auto simp: admit_def)

lemma complete_cases:
  obtains (poisoned) "al_poisoned self" "complete self clock receipt outcome = (self, Some (Err MemoryAttemptCompletionError))"
  | (panic) "\<not> al_poisoned self" "clock = None" "complete self clock receipt outcome = (self\<lparr>al_poisoned := True\<rparr>, None)"
  | (run) c where "\<not> al_poisoned self" "clock = Some c"
  by (cases clock) (auto simp: complete_def)

text \<open>The effect of one step, in the vocabulary of the contract.\<close>

definition step_effect_ok ::
    "(u8 list \<Rightarrow> attempt_policy) \<Rightarrow> memory_attempt_limiter \<Rightarrow> duration \<Rightarrow> memory_attempt_limiter \<Rightarrow>
     (attempt_key, nat) attempt_event \<Rightarrow> bool" where
  "step_effect_ok tab self reading self' e \<longleftrightarrow>
     ma_ok tab self' \<and> ma_now self \<le> ma_now self' \<and> ma_now self' \<le> max (ma_now self) reading \<and>
     event_enabled (tab \<circ> fst) (ma_now self') e (ma_view tab self (ma_now self')) \<and>
     (\<forall>t \<ge> ma_now self'. ma_view tab self' t = event_effect (tab \<circ> fst) (ma_now self') e (ma_view tab self) t) \<and>
     at_generation (al_state self) \<le> at_generation (al_state self') \<and>
     (\<forall>k g. e = Ev_Admit k g \<longrightarrow> at_generation (al_state self) < g)"

lemma silent_step_ok:
  "ma_ok tab self \<Longrightarrow> step_effect_ok tab self r self Ev_Silent"
  "ma_ok tab self \<Longrightarrow> step_effect_ok tab self r (self\<lparr>al_poisoned := b\<rparr>) Ev_Silent"
  by (simp_all add: step_effect_ok_def ma_poison)

lemma admit_generation:
  "admit_locked i cap s c st = (st', r) \<Longrightarrow> at_generation st \<le> at_generation st'"
  by (auto simp: admit_locked_def attempt_cleanup_def Let_def split: option.splits prod.splits if_splits)

lemma complete_generation:
  "complete_locked i rc oc c st = (st', r) \<Longrightarrow> at_generation st' = at_generation st"
  by (auto simp: complete_locked_def Let_def split: option.splits prod.splits if_splits)

lemma admit_step_ok:
  assumes ok: "ma_ok tab self" "tab (fst (attempt_key_of subject)) = as_policy subject"
    and st: "attempt_step (At_Admit subject clock) self = (self', e)"
  shows "step_effect_ok tab self (reading_or_zero clock) self' e"
proof (cases rule: admit_cases [where self = self and clock = clock and subject = subject])
  case (run c)
  obtain s r where A: "admit self (Some c) subject = (s, Some r)" "ma_ok tab s" "ma_now s = max (ma_now self) c"
    and O: "admit_outcome tab (al_identity self) (al_capacity self) (attempt_key_of subject) (al_state self) (al_state s) r"
    using admit_spec [OF ok run(1), of c] by blast
  have g: "at_generation (al_state self) \<le> at_generation (al_state s)"
    using A(1) run(1) by (auto simp: admit_def split: prod.splits dest: admit_generation)
  consider (silent) "self' = s" "e = Ev_Silent" "\<forall>t \<ge> ma_now s. ma_view tab s t = ma_view tab self t"
    | (admit) "self' = s" "e = Ev_Admit (attempt_key_of subject) (at_generation (al_state self) + 1)"
      "admissible (tab (fst (attempt_key_of subject))) (ma_now s) (ma_view tab self (ma_now s) (attempt_key_of subject))"
      "\<forall>t \<ge> ma_now s. ma_view tab s t = event_effect (tab \<circ> fst) (ma_now s) e (ma_view tab self) t"
    using O st run A(1)
    by (auto simp: admit_outcome_def Let_def denial_of_None split: option.splits)
  then show ?thesis
    using A(2,3) g run(2) by cases (auto simp: step_effect_ok_def reading_or_zero_def)
qed (use st silent_step_ok [OF ok(1)] in auto)

lemma complete_step_ok:
  assumes ok: "ma_ok tab self" and st: "attempt_step (At_Complete receipt outcome clock) self = (self', e)"
  shows "step_effect_ok tab self (reading_or_zero clock) self' e"
proof (cases rule: complete_cases [where self = self and clock = clock and receipt = receipt and outcome = outcome])
  case (run c)
  obtain s r where A: "complete self (Some c) receipt outcome = (s, Some (Ok r))" "ma_ok tab s" "ma_now s = max (ma_now self) c"
    and O: "complete_outcome tab (al_identity self) receipt outcome (al_state self) (al_state s) r"
    using complete_spec [OF ok run(1), of c] by blast
  have g: "at_generation (al_state self) = at_generation (al_state s)"
    using A(1) run(1) by (auto simp: complete_def split: prod.splits option.splits dest: complete_generation)
  consider (silent) "self' = s" "e = Ev_Silent" "\<forall>t \<ge> ma_now s. ma_view tab s t = ma_view tab self t"
    | (complete) "self' = s" "e = Ev_Complete (rc_key receipt) (rc_generation receipt) outcome"
      "\<exists>u. av_lease (ma_view tab self (ma_now s) (rc_key receipt)) = Some (rc_generation receipt, u)"
      "\<forall>t \<ge> ma_now s. ma_view tab s t = event_effect (tab \<circ> fst) (ma_now s) e (ma_view tab self) t"
    using O st run A(1) by (auto simp: complete_outcome_def Let_def split: if_splits)
  then show ?thesis
    using A(2,3) g run(2) by cases (auto simp: step_effect_ok_def reading_or_zero_def)
qed (use st silent_step_ok [OF ok] in auto)

lemma attempt_step_ok:
  "ma_ok tab self \<Longrightarrow> attempt_op_ok tab opn \<Longrightarrow> attempt_step opn self = (self', e) \<Longrightarrow>
     step_effect_ok tab self (attempt_reading opn) self' e"
  by (cases opn) (auto dest: admit_step_ok complete_step_ok)

section \<open>The contract holds\<close>

lemma ma_lease_generation:
  assumes "ma_ok tab self" "av_lease (ma_view tab self t k) = Some (g, u)"
  shows "g \<le> at_generation (al_state self)"
proof -
  have "av_lease (abs_opt (map_of (at_entries (al_state self)) k)) = Some (g, u)"
    using assms(2) by (simp add: state_view_def elapse_lease)
  then obtain e where e: "map_of (at_entries (al_state self)) k = Some e" "ae_lease e = Some (g, u)"
    by (auto simp: abs_opt_def abs_entry_def held_view_def split: option.splits if_splits)
  have "at_ok tab (al_capacity self) (al_state self)" using assms(1) by (simp add: ma_ok_def)
  from at_ok_entry [OF this e(1)] e(2) show ?thesis by (simp add: entry_ok_def)
qed

interpretation ma: numbered_attempt_backend "tab \<circ> fst" "ma_ok tab" ma_now "ma_view tab"
    "attempt_op_ok tab" attempt_reading attempt_step "\<lambda>self. at_generation (al_state self)"
  for tab
proof unfold_locales
  fix s t k
  assume "ma_now s \<le> t"
  then show "ma_view tab s t k = elapse ((tab \<circ> fst) k) t (ma_view tab s (ma_now s) k)"
    by (simp add: state_view_def elapse_elapse)
qed (use attempt_step_ok [of tab] ma_lease_generation [of tab] in \<open>auto simp: ma_ok_def [of tab] step_effect_ok_def\<close>)

section \<open>A full store keeps its subjects\<close>

lemma cleanup_fold_dom:
  "al_wf es \<Longrightarrow> al_wf (fold (cleanup_one now) ks es) \<and> fst ` set (fold (cleanup_one now) ks es) \<subseteq> fst ` set es"
proof (induction ks arbitrary: es)
  case (Cons k ks)
  have "al_wf (cleanup_one now k es)" "fst ` set (cleanup_one now k es) \<subseteq> fst ` set es"
    using Cons.prems dom_delete_subset [of k es]
    by (auto simp: cleanup_one_def distinct_delete split: option.splits)
  from this(2) Cons.IH [OF this(1)] show ?case by (simp only: fold_simps) (blast intro: subset_trans)
qed simp

lemma length_al: "al_wf es \<Longrightarrow> length es = card (fst ` set es)"
  by (metis distinct_card length_map list.set_map)

text \<open>A stored subject is never turned away for lack of storage: if its entry goes, its slot is free.\<close>

lemma storage_denial_absent:
  assumes ok: "at_ok tab cap st" and r: "admit_locked i cap subject c st = (st', Ok (AttemptDenied AttemptStorageCapacity))"
  shows "map_of (at_entries st) (attempt_key_of subject) = None"
proof (rule ccontr)
  let ?k = "attempt_key_of subject" and ?es = "at_entries (admit_start c st)"
  assume "map_of (at_entries st) ?k \<noteq> None"
  then have k: "?k \<in> fst ` set (at_entries st)" by (simp add: map_of_eq_None_iff)
  have gone: "map_of ?es ?k = None" and len: "cap \<le> length ?es"
    using r unfolding admit_locked_unfold
    by (auto simp: Let_def deny_entry_def split: option.splits if_splits prod.splits)
  have wf: "al_wf (at_entries st)" "length (at_entries st) \<le> cap" using ok by (simp_all add: at_ok_def)
  have sub: "al_wf ?es \<and> fst ` set ?es \<subseteq> fst ` set (at_entries st)"
    using cleanup_fold_dom [OF wf(1)] by (simp add: admit_start_def attempt_cleanup_def Let_def)
  have "?k \<notin> fst ` set ?es" using gone by (simp add: map_of_eq_None_iff)
  with sub k have "fst ` set ?es \<subset> fst ` set (at_entries st)" by blast
  then have "card (fst ` set ?es) < card (fst ` set (at_entries st))" by (intro psubset_card_mono) auto
  then show False using len wf sub by (simp add: length_al)
qed

lemma elapse_backoff:
  assumes "ap_ok p" "av_lease v = None" "0 < av_failures v"
  shows "admissible p t (elapse p t v) \<longleftrightarrow> retry_at p v \<le> t"
proof -
  have "retry_at p v \<le> dur_saturating_add (av_last v) (period_duration (ap_quiet_period p))"
    unfolding retry_at_def by (rule quiet_after_delay [OF assms(1)])
  then show ?thesis using assms(2,3) by (auto simp: elapse_def admissible_def Let_def)
qed

section \<open>A concrete history\<close>

definition sample_attempt_subject :: attempt_subject where
  "sample_attempt_subject = \<lparr>as_policy = sample_ap (\<lambda>_. []), as_subject = SubjectKey [1]\<rparr>"

abbreviation sample_tab :: "u8 list \<Rightarrow> attempt_policy" where
  "sample_tab \<equiv> (\<lambda>_. sample_ap (\<lambda>_. []))"

definition sample_limiter :: memory_attempt_limiter where
  "sample_limiter = MemoryAttemptLimiter_with_clock 0 2"

definition admitted_limiter :: memory_attempt_limiter where
  "admitted_limiter = fst (admit sample_limiter (Some 0) sample_attempt_subject)"

definition failed_limiter :: memory_attempt_limiter where
  "failed_limiter = \<lparr>al_identity = 0, al_poisoned = False, al_state =
     \<lparr>at_entries = [(([], [1]), \<lparr>ae_policy = sample_ap (\<lambda>_. []), ae_failures = Suc 0, ae_last_failure = 5,
        ae_retry_at = 1000000005, ae_lease = None\<rparr>)], at_generation = Suc 0, at_now = 5, at_cursor = None\<rparr>,
     al_capacity = 2\<rparr>"

lemma sample_subject_simps [simp]:
  "as_policy sample_attempt_subject = sample_ap (\<lambda>_. [])" "attempt_key_of sample_attempt_subject = ([], [1])"
  by (simp_all add: sample_attempt_subject_def attempt_key_of_def sample_ap_def del: str_simps)

lemma sample_limiter_ok: "ma_ok sample_tab sample_limiter" "\<not> al_poisoned sample_limiter"
  by (simp_all add: sample_limiter_def ma_new_ok sample_ap_ok)
    (simp_all add: MemoryAttemptLimiter_with_clock_def)

lemma sample_ap_durations [simp]:
  "period_duration (ap_lease (sample_ap h)) = 30000000000"
  "period_duration (ap_quiet_period (sample_ap h)) = 60000000000"
  "period_duration (ap_initial_delay (sample_ap h)) = 1000000000"
  "attempt_delay (sample_ap h) (Suc 0) = 1000000000"
  by (simp_all add: sample_ap_def period_duration_def from_millis_def NANOS_PER_MILLI_def attempt_delay_def
      checked_shl_def saturating_mul_def)

lemma admitted_limiter_eq:
  "admit sample_limiter (Some 0) sample_attempt_subject = (admitted_limiter,
     Some (Ok (AttemptAdmitted \<lparr>rc_store = 0, rc_key = ([], [1]), rc_generation = Suc 0\<rparr>)))"
  "admitted_limiter = \<lparr>al_identity = 0, al_poisoned = False, al_state =
     \<lparr>at_entries = [(([], [1]), \<lparr>ae_policy = sample_ap (\<lambda>_. []), ae_failures = 0, ae_last_failure = 0,
        ae_retry_at = 0, ae_lease = Some (Suc 0, 30000000000)\<rparr>)], at_generation = Suc 0, at_now = 0, at_cursor = None\<rparr>,
     al_capacity = 2\<rparr>"
  by (simp_all add: admitted_limiter_def sample_limiter_def MemoryAttemptLimiter_with_clock_def AttemptState_default_def
      admit_def admit_locked_def attempt_cleanup_def cleanup_keys_def last_opt_def Let_def checked_add_def
      dur_saturating_add_def duration_MAX_def NANOS_PER_SEC_def del: str_simps)

lemma sample_first_failure:
  "fail_entry 5 \<lparr>ae_policy = sample_ap h, ae_failures = 0, ae_last_failure = 0, ae_retry_at = 0, ae_lease = None\<rparr> =
     \<lparr>ae_policy = sample_ap h, ae_failures = Suc 0, ae_last_failure = 5, ae_retry_at = 1000000005, ae_lease = None\<rparr>"
proof -
  have "saturating_add 32 0 1 = Suc 0" "dur_saturating_add 5 1000000000 = 1000000005"
    by (simp_all add: saturating_add_def dur_saturating_add_def duration_MAX_def NANOS_PER_SEC_def)
  then show ?thesis by (simp add: fail_entry_def Let_def)
qed

lemma sample_completion:
  "attempt_completion_of Failure (Suc 0) 1000000000 =
     Some \<lparr>ac_outcome = Failure, ac_consecutive_failures = Suc 0, ac_retry_after = Delay 1000000000\<rparr>"
  by (simp add: attempt_completion_of_def AttemptCompletion_new_def is_zero_def)

lemma failed_limiter_eq:
  "complete admitted_limiter (Some 5) \<lparr>rc_store = 0, rc_key = ([], [1]), rc_generation = Suc 0\<rparr> Failure =
     (failed_limiter, Some (Ok (Applied \<lparr>ac_outcome = Failure, ac_consecutive_failures = Suc 0, ac_retry_after = Delay 1000000000\<rparr>)))"
  unfolding admitted_limiter_eq(2) complete_def complete_locked_def Let_def failed_limiter_def
  by (simp only: memory_attempt_limiter.simps if_False option.case attempt_state.simps memory_attempt_receipt.simps
      map_of.simps fst_conv snd_conv fun_upd_same, simp, simp only: sample_first_failure, simp add: sample_completion)

lemma admitted_limiter_ok: "ma_ok sample_tab admitted_limiter \<and> \<not> al_poisoned admitted_limiter"
proof -
  have "sample_tab (fst (attempt_key_of sample_attempt_subject)) = as_policy sample_attempt_subject" by simp
  from admit_spec [OF sample_limiter_ok(1) this sample_limiter_ok(2), of 0]
  show ?thesis unfolding admitted_limiter_eq(1) by blast
qed

lemma failed_limiter_ok: "ma_ok sample_tab failed_limiter \<and> \<not> al_poisoned failed_limiter"
proof -
  from complete_spec [of sample_tab admitted_limiter 5 "\<lparr>rc_store = 0, rc_key = ([], [1]), rc_generation = Suc 0\<rparr>" Failure]
    admitted_limiter_ok
  show ?thesis unfolding failed_limiter_eq by blast
qed

section \<open>Properties\<close>

text \<open>
  C28: admission is exactly the attempt contract. On an unpoisoned limiter it never panics, and at the
  clock reading clamped to the limiter's own time: a subject with an attempt in flight is refused as
  busy until the lease ends, one that failed too recently is refused for exactly the rest of its
  backoff, a new subject is refused only when the store is full, and otherwise one reservation is made, or
  an error returned with nothing reserved when the 64-bit generation numbers are used up.
  Cleanup of up to sixteen entries, expired leases and forgotten failures never change what any other
  subject will experience.
\<close>

theorem memory_attempt_admit_correct:
  assumes "ma_ok tab self" "tab (fst (attempt_key_of subject)) = as_policy subject" "\<not> al_poisoned self"
  shows "\<exists>self' r. admit self (Some c) subject = (self', Some r) \<and> ma_ok tab self' \<and> \<not> al_poisoned self' \<and>
    ma_now self' = max (ma_now self) c \<and> length (at_entries (al_state self')) \<le> al_capacity self \<and>
    admit_outcome tab (al_identity self) (al_capacity self) (attempt_key_of subject) (al_state self) (al_state self') r"
  using admit_spec [OF assms, of c] by (auto simp: ma_ok_def at_ok_def)

theorem memory_attempt_admit_correct_witness:
  "\<exists>self' r. admit sample_limiter (Some 7) sample_attempt_subject = (self', Some r) \<and> ma_now self' = max (ma_now sample_limiter) 7"
proof -
  have "sample_tab (fst (attempt_key_of sample_attempt_subject)) = as_policy sample_attempt_subject" by simp
  from memory_attempt_admit_correct [OF sample_limiter_ok(1) this sample_limiter_ok(2), of 7] show ?thesis by blast
qed

text \<open>
  C29: completion is exactly the attempt contract. On an unpoisoned limiter it never panics, in particular
  the metadata it builds is always consistent; a receipt takes effect only at the store that issued it
  and while its reservation is in flight: success forgets the subject, failure and abandonment add one
  failure (saturating) and start the backoff that is reported; every other completion is stale and
  changes no subject.
\<close>

theorem memory_attempt_complete_correct:
  assumes "ma_ok tab self" "\<not> al_poisoned self"
  shows "\<exists>self' r. complete self (Some c) receipt outcome = (self', Some (Ok r)) \<and> ma_ok tab self' \<and>
    \<not> al_poisoned self' \<and> ma_now self' = max (ma_now self) c \<and>
    complete_outcome tab (al_identity self) receipt outcome (al_state self) (al_state self') r"
  using complete_spec [OF assms, of c receipt outcome] by blast

theorem memory_attempt_complete_correct_witness:
  "\<exists>self' r. complete admitted_limiter (Some 5) \<lparr>rc_store = 0, rc_key = ([], [1]), rc_generation = Suc 0\<rparr> Abandoned =
     (self', Some (Ok r)) \<and> ma_now self' = max (ma_now admitted_limiter) 5"
  using memory_attempt_complete_correct [of sample_tab admitted_limiter 5
      "\<lparr>rc_store = 0, rc_key = ([], [1]), rc_generation = Suc 0\<rparr>" Abandoned] admitted_limiter_ok by blast

text \<open>
  C26: guessing is throttled: whatever operations run up to \<open>t\<^sub>1\<close>, with arbitrary clock readings, clock
  panics, foreign and repeated receipts, the attempts admitted for one subject that never succeeds are
  at most one plus the number of initial delays that fit into the time that passed.
\<close>

theorem memory_attempt_rate_bound:
  assumes "ma_ok tab self" "ma_now self \<le> t1" "t1 < duration_MAX"
    and "list_all (\<lambda>opn. attempt_op_ok tab opn \<and> attempt_reading opn \<le> t1) ops"
    and "\<forall>g. Ev_Complete k g Success \<notin> set (run_events attempt_step ops self)"
  shows "admit_count k (run_events attempt_step ops self) \<le>
    1 + (t1 - ma_now self) div period_duration (ap_initial_delay (tab (fst k)))"
  using ma.rate_bound [OF assms] by simp

theorem memory_attempt_rate_bound_witness:
  "admit_count ([], [1]) (run_events attempt_step
     [At_Admit sample_attempt_subject (Some 6), At_Admit sample_attempt_subject (Some 999999999)] failed_limiter) \<le> 1"
proof -
  let ?ops = "[At_Admit sample_attempt_subject (Some 6), At_Admit sample_attempt_subject (Some 999999999)]"
  have ev: "snd (attempt_step (At_Admit s c) l) \<noteq> Ev_Complete k g oc" for s c l k g oc
    by (auto split: prod.splits option.splits sum.splits attempt_admission.splits)
  have "\<forall>g. Ev_Complete ([], [1]) g Success \<notin> set (run_events attempt_step ?ops failed_limiter)"
    using ev by (auto simp: Let_def simp del: attempt_step.simps split: prod.splits) (metis snd_conv)+
  moreover have "ma_now failed_limiter = 5" by (simp add: failed_limiter_def)
  ultimately show ?thesis
    using memory_attempt_rate_bound [OF failed_limiter_ok [THEN conjunct1], of 999999999 ?ops "([], [1])"]
    by (simp add: duration_MAX_def NANOS_PER_SEC_def reading_or_zero_def del: run_events.simps)
qed

text \<open>
  C27: at most one attempt per subject is in flight: while the lease of an admitted attempt lasts and that
  attempt has not been completed, no interleaving of operations admits the subject again; and every
  reservation is completed at most once, however often its receipt, or a copy of its number, is
  presented.
\<close>

theorem memory_attempt_single_flight:
  assumes "ma_ok tab self" "ma_now self \<le> t1"
    and "list_all (\<lambda>opn. attempt_op_ok tab opn \<and> attempt_reading opn \<le> t1) ops"
  shows "(av_lease (ma_view tab self (ma_now self) k) = Some (g, until) \<and> t1 < until \<and>
      (\<forall>outcome. Ev_Complete k g outcome \<notin> set (run_events attempt_step ops self)) \<longrightarrow>
      admit_count k (run_events attempt_step ops self) = 0) \<and>
    complete_count k g (run_events attempt_step ops self) \<le> 1"
proof -
  have "list_all (attempt_op_ok tab) ops" using assms(3) by (simp add: list_all_iff)
  then show ?thesis using ma.single_flight [OF assms] ma.completed_once [OF assms(1)] by blast
qed

theorem memory_attempt_single_flight_witness:
  "av_lease (ma_view sample_tab admitted_limiter 0 ([], [1])) = Some (Suc 0, 30000000000) \<and>
   admit_count ([], [1]) (run_events attempt_step [At_Admit sample_attempt_subject (Some 20000000000)] admitted_limiter) = 0"
proof -
  let ?ops = "[At_Admit sample_attempt_subject (Some 20000000000)]"
  have now: "ma_now admitted_limiter = 0" by (simp add: admitted_limiter_eq(2))
  have v: "av_lease (ma_view sample_tab admitted_limiter 0 ([], [1])) = Some (Suc 0, 30000000000)"
    by (simp add: state_view_def elapse_lease admitted_limiter_eq(2) abs_opt_def abs_entry_def)
  have "snd (attempt_step (At_Admit s c) l) \<noteq> Ev_Complete k g oc" for s c l k g oc
    by (auto split: prod.splits option.splits sum.splits attempt_admission.splits)
  then have "\<forall>oc. Ev_Complete ([], [1]) (Suc 0) oc \<notin> set (run_events attempt_step ?ops admitted_limiter)"
    by (auto simp: Let_def simp del: attempt_step.simps split: prod.splits) (metis snd_conv)
  then show ?thesis
    using memory_attempt_single_flight [OF admitted_limiter_ok [THEN conjunct1], of 20000000000 ?ops "([], [1])" "Suc 0" 30000000000] v now
    by (simp add: reading_or_zero_def del: run_events.simps)
qed

text \<open>
  C30: a backoff ends when it says: after a backoff denial that reports the delay \<open>d\<close>, the next
  admission of the subject succeeds exactly when \<open>d\<close> has elapsed. Neither the storage bound nor the
  cleanup can keep a waiting subject out.
\<close>

theorem memory_attempt_backoff_exact:
  assumes ok: "ma_ok tab self" "tab (fst (attempt_key_of subject)) = as_policy subject" "\<not> al_poisoned self"
    and deny: "admit self (Some c) subject = (self', Some (Ok (AttemptDenied (Backoff d))))"
    and later: "ma_now self' \<le> t" "at_generation (al_state self') < 2 ^ 64 - 1"
  shows "0 < delay_duration d \<and>
    (\<exists>self'' r. admit self' (Some t) subject = (self'', Some (Ok r)) \<and>
      ((\<exists>receipt. r = AttemptAdmitted receipt) \<longleftrightarrow> ma_now self' + delay_duration d \<le> t))"
proof -
  let ?k = "attempt_key_of subject" and ?now = "ma_now self'"
  let ?p = "tab (fst (attempt_key_of subject))"
  let ?v = "ma_view tab self' ?now ?k"
  have p: "ap_ok ?p" using ok(1) by (simp add: ma_ok_def)
  from admit_spec [OF ok, of c] deny have ok': "ma_ok tab self'" "\<not> al_poisoned self'" "al_capacity self' = al_capacity self"
    and O: "admit_outcome tab (al_identity self) (al_capacity self) ?k (al_state self) (al_state self') (Ok (AttemptDenied (Backoff d)))"
    by auto
  have d: "denial_of ?p ?now ?v = Some (Backoff d)"
    using O by (auto simp: admit_outcome_def Let_def split: option.splits)
  then have v: "av_lease ?v = None" "0 < av_failures ?v" "?now < retry_at ?p ?v" "delay_duration d = retry_at ?p ?v - ?now"
    by (auto simp: denial_of_def admissible_def split: option.splits if_splits)
  have adm: "admissible ?p t (ma_view tab self' t ?k) \<longleftrightarrow> ?now + delay_duration d \<le> t"
    using elapse_backoff [OF p v(1,2), of t] later(1) v(3,4) by (simp add: state_view_def elapse_elapse)
  obtain self'' r where A: "admit self' (Some t) subject = (self'', Some r)" "ma_now self'' = t"
    and O': "admit_outcome tab (al_identity self') (al_capacity self') ?k (al_state self') (al_state self'') r"
    using admit_spec [OF ok'(1) ok(2) ok'(2), of t] later(1) by (auto simp: max_def)
  have "map_of (at_entries (al_state self')) ?k \<noteq> None" using v(2) by (auto simp: state_view_def abs_opt_def split: option.splits)
  then have "r \<noteq> Ok (AttemptDenied AttemptStorageCapacity)"
    using storage_denial_absent [of tab "al_capacity self'" "al_state self'"] ok'(1,2) A(1)
    by (auto simp: admit_def ma_ok_def split: prod.splits)
  with O' later(2) have r: "if admissible ?p t (ma_view tab self' t ?k) then (\<exists>rc. r = Ok (AttemptAdmitted rc))
      else (\<exists>x. r = Ok (AttemptDenied x))"
    using A(2) by (auto simp: admit_outcome_def Let_def denial_of_None split: option.splits)
      (metis denial_of_None option.distinct(1))+
  show ?thesis using r adm A(1) v(3,4) by (auto split: if_splits)
qed

theorem memory_attempt_backoff_exact_witness:
  "\<exists>self' r. admit failed_limiter (Some 5) sample_attempt_subject = (self', Some (Ok (AttemptDenied (Backoff (Delay 1000000000))))) \<and>
     (\<exists>self'' receipt. admit self' (Some 1000000005) sample_attempt_subject = (self'', Some (Ok (AttemptAdmitted receipt))))"
proof -
  let ?s = sample_attempt_subject
  have tab: "sample_tab (fst (attempt_key_of ?s)) = as_policy ?s" by simp
  have a: "admit failed_limiter (Some 5) ?s = (failed_limiter\<lparr>al_state := (al_state failed_limiter)\<lparr>at_cursor := Some ([], [1])\<rparr>\<rparr>,
      Some (Ok (AttemptDenied (Backoff (Delay 1000000000)))))" (is "_ = (?l, _)")
    by (simp add: failed_limiter_def admit_def admit_locked_def attempt_cleanup_def cleanup_keys_def CLEANUP_LIMIT_def
        cleanup_one_def removable_def last_opt_def reconcile_def deny_entry_def Let_def
        dur_saturating_add_def duration_MAX_def NANOS_PER_SEC_def saturating_sub_def del: str_simps)
  have "ma_now ?l \<le> 1000000005" "at_generation (al_state ?l) < 2 ^ 64 - 1" "ma_now ?l = 5"
    by (simp_all add: failed_limiter_def)
  from memory_attempt_backoff_exact [OF failed_limiter_ok [THEN conjunct1] tab failed_limiter_ok [THEN conjunct2] a this(1,2)]
    this(3) a show ?thesis by auto
qed

end
