(* ===== verification/Http_Draft11.thy ===== *)
theory Http_Draft11
  imports Decision
begin

text \<open>
  \<open>runlimit-http/src/draft_11.rs\<close>: the \<open>RateLimit-Policy\<close> and \<open>RateLimit\<close> response fields. The
  conversion of a string into an \<open>http::HeaderValue\<close> belongs to the \<open>http\<close> crate and is the parameter
  \<open>try_from_value\<close>, a function of the bytes of the string; a refusal makes \<open>header_value\<close> panic. The
  correctness statements use a reader of the Structured Field grammar as their specification.
\<close>

section \<open>Encoding\<close>

definition MAX_STRUCTURED_FIELD_INTEGER :: nat where "MAX_STRUCTURED_FIELD_INTEGER = 999999999999999"
definition MAX_POLICY_NAME_LENGTH :: nat where "MAX_POLICY_NAME_LENGTH = 128"

type_synonym 'h header_field = "rstr \<times> 'h"

datatype quota_state = QS_Available allowance | QS_Exhausted quota_denial

definition QuotaState_from_allowance :: "allowance \<Rightarrow> quota_state" where
  "QuotaState_from_allowance allowance = QS_Available allowance"

definition QuotaState_from_denial :: "quota_denial \<Rightarrow> quota_state" where
  "QuotaState_from_denial denial = QS_Exhausted denial"

definition QuotaState_from_admitted :: "admitted \<Rightarrow> quota_state" where
  "QuotaState_from_admitted admitted =
     (case Admitted_view admitted of
        AV_Allowed allowance \<Rightarrow> QS_Available allowance
      | AV_ShadowDenied denial \<Rightarrow> QS_Exhausted denial)"

datatype encoding_error =
    EmptyPolicyName
  | PolicyNameTooLong nat nat
  | InvalidPolicyNameCharacter nat rchar
  | StructuredFieldIntegerTooLarge nat nat
  | QuotaPeriodNotWholeSeconds duration

text \<open>The loop over \<open>char_indices\<close>; 34 is the double quote, 92 the backslash.\<close>

fun encode_chars :: "(nat \<times> rchar) list \<Rightarrow> rstr \<Rightarrow> (encoding_error, rstr) result" where
  "encode_chars [] encoded = Ok encoded"
| "encode_chars ((index, character) # rest) encoded =
     (if \<not> (32 \<le> character \<and> character \<le> 126) then Err (InvalidPolicyNameCharacter index character)
      else encode_chars rest
        ((if character = 34 \<or> character = 92 then encoded @ [92] else encoded) @ [character]))"

definition encode_policy_name :: "rstr \<Rightarrow> (encoding_error, rstr) result" where
  "encode_policy_name name =
     (if name = [] then Err EmptyPolicyName
      else if str_len name > MAX_POLICY_NAME_LENGTH
      then Err (PolicyNameTooLong (str_len name) MAX_POLICY_NAME_LENGTH)
      else and_then (encode_chars (char_indices name) [34]) (\<lambda>encoded. Ok (encoded @ [34])))"

definition structured_integer :: "nat \<Rightarrow> (encoding_error, nat) result" where
  "structured_integer value =
     (if value > MAX_STRUCTURED_FIELD_INTEGER
      then Err (StructuredFieldIntegerTooLarge value MAX_STRUCTURED_FIELD_INTEGER)
      else Ok value)"

definition header_value :: "(u8 list \<Rightarrow> 'h option) \<Rightarrow> rstr \<Rightarrow> 'h option" where
  "header_value try_from_value value = try_from_value (as_bytes value)"

definition quota_policy ::
    "(u8 list \<Rightarrow> 'h option) \<Rightarrow> 'p rate_limit_policy \<Rightarrow> rstr \<Rightarrow> 'p \<Rightarrow>
     (encoding_error, 'h header_field) result option" where
  "quota_policy try_from_value P name policy =
     (case encode_policy_name name of Err e \<Rightarrow> Some (Err e) | Ok name \<Rightarrow>
     (case structured_integer (capacity_get (rl_quota P policy)) of Err e \<Rightarrow> Some (Err e) | Ok quota \<Rightarrow>
     (let period = rl_quota_period P policy in
      if period_millis period mod 1000 \<noteq> 0
      then Some (Err (QuotaPeriodNotWholeSeconds (period_duration period)))
      else
     (case structured_integer (period_millis period div 1000) of Err e \<Rightarrow> Some (Err e) | Ok period \<Rightarrow>
      do {
        value \<leftarrow> header_value try_from_value
          (name @ str '';q='' @ decimal quota @ str '';w='' @ decimal period);
        Some (Ok (str ''ratelimit-policy'', value))
      }))))"

definition service_limit ::
    "(u8 list \<Rightarrow> 'h option) \<Rightarrow> rstr \<Rightarrow> quota_state \<Rightarrow> (encoding_error, 'h header_field) result option" where
  "service_limit try_from_value name state =
     (case encode_policy_name name of Err e \<Rightarrow> Some (Err e) | Ok name \<Rightarrow>
     (let (available, effective_window) =
        (case state of
           QS_Available allowance \<Rightarrow>
             (alw_available allowance, delay_seconds (alw_replenishes_after allowance))
         | QS_Exhausted denial \<Rightarrow> (0, delay_seconds (qd_retry_after denial))) in
     (case structured_integer available of Err e \<Rightarrow> Some (Err e) | Ok available \<Rightarrow>
     (case structured_integer effective_window of Err e \<Rightarrow> Some (Err e) | Ok effective_window \<Rightarrow>
      do {
        value \<leftarrow> header_value try_from_value
          (name @ str '';r='' @ decimal available @ str '';t='' @ decimal effective_window);
        Some (Ok (str ''ratelimit'', value))
      }))))"

section \<open>The Structured Field grammar\<close>

text \<open>A reader of the body of an \<open>sf-string\<close>, after its opening quote (RFC 9651, 4.2.5).\<close>

fun sf_string :: "rstr \<Rightarrow> (rstr \<times> rstr) option" where
  "sf_string [] = None"
| "sf_string (c # cs) =
     (if c = 34 then Some ([], cs)
      else if c = 92 then
        (case cs of [] \<Rightarrow> None
         | d # ds \<Rightarrow> if d = 34 \<or> d = 92 then map_option (\<lambda>(s, rest). (d # s, rest)) (sf_string ds) else None)
      else if 32 \<le> c \<and> c \<le> 126 then map_option (\<lambda>(s, rest). (c # s, rest)) (sf_string cs) else None)"

text \<open>A parameter \<open>;key=integer\<close>, of at most 15 digits.\<close>

definition sf_parameter :: "rchar \<Rightarrow> rstr \<Rightarrow> (nat \<times> rstr) option" where
  "sf_parameter key s =
     (let ds = takeWhile is_digit (drop 3 s) in
      if take 3 s = [59, key, 61] \<and> ds \<noteq> [] \<and> length ds \<le> 15
      then Some (digits_value ds, dropWhile is_digit (drop 3 s)) else None)"

text \<open>A list member: a String item with two integer parameters.\<close>

definition sf_member :: "rchar \<Rightarrow> rchar \<Rightarrow> rstr \<Rightarrow> (rstr \<times> nat \<times> nat) option" where
  "sf_member k1 k2 s =
     (if s \<noteq> [] \<and> hd s = 34 then do {
        (name, s) \<leftarrow> sf_string (tl s);
        (a, s) \<leftarrow> sf_parameter k1 s;
        (b, s) \<leftarrow> sf_parameter k2 s;
        if s = [] then Some (name, a, b) else None
      } else None)"

definition visible :: "rchar \<Rightarrow> bool" where "visible c \<longleftrightarrow> 32 \<le> c \<and> c \<le> 126"

definition name_ok :: "rstr \<Rightarrow> bool" where
  "name_ok name \<longleftrightarrow> name \<noteq> [] \<and> length name \<le> MAX_POLICY_NAME_LENGTH \<and> (\<forall>c \<in> set name. visible c)"

text \<open>What the encoding relies on of \<open>HeaderValue::try_from\<close>: visible ASCII is accepted, as the value
  with these bytes.\<close>

definition accepts_visible :: "(u8 list \<Rightarrow> 'h option) \<Rightarrow> (u8 list \<Rightarrow> 'h) \<Rightarrow> bool" where
  "accepts_visible try_from_value of_bytes \<longleftrightarrow>
     (\<forall>bytes. (\<forall>b \<in> set bytes. 32 \<le> b \<and> b \<le> 126) \<longrightarrow> try_from_value bytes = Some (of_bytes bytes))"

section \<open>Decimal numerals\<close>

lemma decimal_15: "n \<le> MAX_STRUCTURED_FIELD_INTEGER \<Longrightarrow> length (decimal n) \<le> 15"
  using decimal_length [of n 14] by (simp add: MAX_STRUCTURED_FIELD_INTEGER_def)

lemma sf_parameter_decimal:
  assumes "n \<le> MAX_STRUCTURED_FIELD_INTEGER" "rest = [] \<or> \<not> is_digit (hd rest)"
  shows "sf_parameter key (59 # key # 61 # decimal n @ rest) = Some (n, rest)"
proof -
  have rest: "takeWhile is_digit rest = [] \<and> dropWhile is_digit rest = rest"
    using assms(2) by (cases rest) auto
  have "takeWhile is_digit (decimal n @ rest) = decimal n" "dropWhile is_digit (decimal n @ rest) = rest"
    using decimal_digits [of n] rest by (simp_all add: takeWhile_append dropWhile_append)
  then show ?thesis using decimal_15 [OF assms(1)] by (simp add: sf_parameter_def Let_def numeral_eq_Suc)
qed

section \<open>Names\<close>

definition escape :: "rstr \<Rightarrow> rstr" where
  "escape name = concat (map (\<lambda>c. if c = 34 \<or> c = 92 then [92, c] else [c]) name)"

lemma sf_string_escape: "\<forall>c \<in> set name. visible c \<Longrightarrow> sf_string (escape name @ 34 # rest) = Some (name, rest)"
  by (induction name) (auto simp: escape_def visible_def)

lemma encode_chars_Ok:
  "\<forall>c \<in> set name. visible c \<Longrightarrow> encode_chars (char_indices_from i name) acc = Ok (acc @ escape name)"
  by (induction i name arbitrary: acc rule: char_indices_from.induct) (auto simp: visible_def escape_def)

lemma encode_chars_Err:
  "\<not> (\<forall>c \<in> set name. visible c) \<Longrightarrow> \<exists>i c. encode_chars (char_indices_from n name) acc = Err (InvalidPolicyNameCharacter i c)"
  by (induction n name arbitrary: acc rule: char_indices_from.induct) (auto simp: visible_def)

lemma visible_ascii: "visible c \<Longrightarrow> is_ascii c"
  by (simp add: visible_def is_ascii_def)

lemma encode_policy_name_cases:
  "case encode_policy_name name of Err e \<Rightarrow> \<not> name_ok name | Ok s \<Rightarrow> name_ok name \<and> s = 34 # escape name @ [34]"
proof -
  have len: "\<forall>c \<in> set name. visible c \<Longrightarrow> str_len name = length name"
    by (simp add: str_len_ascii visible_ascii)
  consider (short) "name = [] \<or> MAX_POLICY_NAME_LENGTH < str_len name"
    | (bad) "name \<noteq> []" "str_len name \<le> MAX_POLICY_NAME_LENGTH" "\<not> (\<forall>c \<in> set name. visible c)"
    | (good) "name \<noteq> []" "str_len name \<le> MAX_POLICY_NAME_LENGTH" "\<forall>c \<in> set name. visible c"
    by fastforce
  then show ?thesis
  proof cases
    case short
    then show ?thesis using len by (auto simp: encode_policy_name_def name_ok_def) blast
  next
    case bad
    then obtain i c where "encode_chars (char_indices name) [34] = Err (InvalidPolicyNameCharacter i c)"
      using encode_chars_Err [of name 0 "[34]"] by (auto simp: char_indices_def)
    with bad show ?thesis by (auto simp: encode_policy_name_def name_ok_def)
  next
    case good
    then have "encode_chars (char_indices name) [34] = Ok (34 # escape name)"
      using encode_chars_Ok [of name 0 "[34]"] by (simp add: char_indices_def)
    with good len show ?thesis by (simp add: encode_policy_name_def name_ok_def)
  qed
qed

text \<open>An encoded member is visible ASCII, and the grammar reads it back.\<close>

definition member_text :: "rchar \<Rightarrow> rchar \<Rightarrow> rstr \<Rightarrow> nat \<Rightarrow> nat \<Rightarrow> rstr" where
  "member_text k1 k2 name a b = 34 # escape name @ 34 # 59 # k1 # 61 # decimal a @ 59 # k2 # 61 # decimal b"

lemma member_text_visible:
  assumes "visible k1" "visible k2" "\<forall>c \<in> set name. visible c"
  shows "\<forall>c \<in> set (member_text k1 k2 name a b). visible c"
proof -
  have "\<forall>c \<in> set (escape name). visible c" using assms(3) by (auto simp: escape_def visible_def)
  moreover have "\<forall>c \<in> set (decimal n). visible c" for n
    using decimal_digits [of n] by (auto simp: is_digit_def visible_def)
  ultimately show ?thesis using assms(1,2) by (auto simp: member_text_def visible_def)
qed

lemma member_text_reads:
  assumes "\<forall>c \<in> set name. visible c" "a \<le> MAX_STRUCTURED_FIELD_INTEGER" "b \<le> MAX_STRUCTURED_FIELD_INTEGER"
  shows "sf_member k1 k2 (member_text k1 k2 name a b) = Some (name, a, b)"
proof -
  have "\<not> is_digit 59" by (simp add: is_digit_def)
  then show ?thesis
    using sf_string_escape [OF assms(1)] sf_parameter_decimal [OF assms(2)] sf_parameter_decimal [OF assms(3), of "[]"]
    by (simp add: sf_member_def member_text_def)
qed

lemma as_bytes_visible: "\<forall>c \<in> set s. visible c \<Longrightarrow> \<forall>b \<in> set (as_bytes s). 32 \<le> b \<and> b \<le> 126"
proof -
  assume s: "\<forall>c \<in> set s. visible c"
  then have "as_bytes s = map of_nat s" by (simp add: as_bytes_ascii visible_ascii)
  moreover have "(32 :: u8) \<le> of_nat c \<and> (of_nat c :: u8) \<le> 126" if "visible c" for c
    using that by (simp add: visible_def word_le_nat_alt unat_of_nat)
  ultimately show ?thesis using s by auto
qed

lemma header_value_member:
  assumes "accepts_visible try_from_value of_bytes" "name_ok name" "visible k1" "visible k2"
  shows "header_value try_from_value (member_text k1 k2 name a b) = Some (of_bytes (as_bytes (member_text k1 k2 name a b)))"
  using assms as_bytes_visible [OF member_text_visible, of k1 k2 name a b]
  by (simp add: header_value_def accepts_visible_def name_ok_def)

section \<open>Properties\<close>

text \<open>What a state discloses: the available units and the delay rounded up to seconds.\<close>

definition state_values :: "quota_state \<Rightarrow> nat \<times> nat" where
  "state_values state = (case state of
     QS_Available a \<Rightarrow> (alw_available a, delay_seconds (alw_replenishes_after a))
   | QS_Exhausted d \<Rightarrow> (0, delay_seconds (qd_retry_after d)))"

text \<open>
  C34: the \<open>RateLimit\<close> field cannot be forged and cannot panic: encoding succeeds exactly for a valid
  name, that is, a nonempty one of at most 128 visible ASCII characters, and values within the Structured
  Field range; then the header holds a text that the Structured Field grammar reads back as exactly this name, the
  available units and the rounded-up delay, whatever quotes and backslashes the name has. In every
  other case an error is returned.
\<close>

theorem http_service_limit_reads_back:
  assumes "accepts_visible try_from_value of_bytes"
  shows "case service_limit try_from_value name state of
      None \<Rightarrow> False
    | Some (Err e) \<Rightarrow> \<not> (name_ok name \<and> fst (state_values state) \<le> 999999999999999 \<and>
        snd (state_values state) \<le> 999999999999999)
    | Some (Ok (field, h)) \<Rightarrow> name_ok name \<and> fst (state_values state) \<le> 999999999999999 \<and>
        snd (state_values state) \<le> 999999999999999 \<and> field = str ''ratelimit'' \<and>
        (\<exists>s. h = of_bytes (as_bytes s) \<and> sf_member 114 116 s = Some (name, state_values state))"
proof -
  obtain a w where aw: "state_values state = (a, w)" by fastforce
  show ?thesis
  proof (cases "encode_policy_name name")
    case (Inl e)
    then show ?thesis using encode_policy_name_cases [of name] by (simp add: service_limit_def)
  next
    case (Inr s)
    then have s: "name_ok name" "s = 34 # escape name @ [34]" using encode_policy_name_cases [of name] by simp_all
    have member: "s @ str '';r='' @ decimal a @ str '';t='' @ decimal w = member_text 114 116 name a w"
      by (simp add: s(2) member_text_def str_def)
    have "header_value try_from_value (member_text 114 116 name a w) = Some (of_bytes (as_bytes (member_text 114 116 name a w)))"
      by (rule header_value_member [OF assms s(1)]) (simp_all add: visible_def)
    moreover have "a \<le> MAX_STRUCTURED_FIELD_INTEGER \<Longrightarrow> w \<le> MAX_STRUCTURED_FIELD_INTEGER \<Longrightarrow>
        sf_member 114 116 (member_text 114 116 name a w) = Some (name, a, w)"
      using s(1) by (intro member_text_reads) (simp_all add: name_ok_def)
    moreover have "service_limit try_from_value name state =
        (case structured_integer a of Err e \<Rightarrow> Some (Err e) | Ok a \<Rightarrow>
        (case structured_integer w of Err e \<Rightarrow> Some (Err e) | Ok w \<Rightarrow>
         do { value \<leftarrow> header_value try_from_value (s @ str '';r='' @ decimal a @ str '';t='' @ decimal w);
              Some (Ok (str ''ratelimit'', value)) }))"
      using Inr aw unfolding service_limit_def state_values_def by (simp add: Let_def split: quota_state.splits)
    ultimately show ?thesis using s(1) aw unfolding structured_integer_def
      by (auto simp: member [simplified] MAX_STRUCTURED_FIELD_INTEGER_def)
  qed
qed

text \<open>An \<open>http\<close> crate that accepts exactly visible ASCII.\<close>

definition sample_try_from :: "u8 list \<Rightarrow> u8 list option" where
  "sample_try_from bytes = (if \<forall>b \<in> set bytes. 32 \<le> b \<and> b \<le> 126 then Some bytes else None)"

lemma sample_accepts: "accepts_visible sample_try_from (\<lambda>b. b)"
  by (simp add: accepts_visible_def sample_try_from_def)

theorem http_service_limit_reads_back_witness:
  "case service_limit sample_try_from (str ''a\"b'') (QS_Exhausted (QuotaDenial (Capacity 10) (Delay (from_millis 1001)))) of
     Some (Ok (field, h)) \<Rightarrow> field = str ''ratelimit'' \<and>
       (\<exists>s. h = as_bytes s \<and> sf_member 114 116 s = Some (str ''a\"b'', 0, 2))
   | _ \<Rightarrow> False"
proof -
  let ?st = "QS_Exhausted (QuotaDenial (Capacity 10) (Delay (from_millis 1001)))"
  have v: "state_values ?st = (0, 2)"
    by (simp add: state_values_def delay_seconds_def Let_def rust_defs)
  have "name_ok (str ''a\"b'')" by (simp add: name_ok_def visible_def MAX_POLICY_NAME_LENGTH_def str_def)
  with http_service_limit_reads_back [OF sample_accepts, of "str ''a\"b''" ?st] v
  show ?thesis by (auto split: option.splits sum.splits)
qed

text \<open>
  The \<open>RateLimit-Policy\<close> field: encoding never panics and succeeds exactly for a valid name, a
  quota within the Structured Field range and a period of whole seconds; then the grammar reads the
  header back as exactly the name, the quota and the period in seconds.
\<close>

theorem http_quota_policy_reads_back:
  assumes "accepts_visible try_from_value of_bytes" "period_ok (rl_quota_period P policy)"
  shows "case quota_policy try_from_value P name policy of
      None \<Rightarrow> False
    | Some (Err e) \<Rightarrow> \<not> (name_ok name \<and> capacity_get (rl_quota P policy) \<le> 999999999999999 \<and>
        period_millis (rl_quota_period P policy) mod 1000 = 0)
    | Some (Ok (field, h)) \<Rightarrow> name_ok name \<and> capacity_get (rl_quota P policy) \<le> 999999999999999 \<and>
        field = str ''ratelimit-policy'' \<and>
        (\<exists>s w. h = of_bytes (as_bytes s) \<and> w * 1000 = period_millis (rl_quota_period P policy) \<and>
          sf_member 113 119 s = Some (name, capacity_get (rl_quota P policy), w))"
proof (cases "encode_policy_name name")
  case (Inl e)
  then show ?thesis using encode_policy_name_cases [of name] by (simp add: quota_policy_def)
next
  case (Inr s)
  let ?q = "capacity_get (rl_quota P policy)" and ?p = "period_millis (rl_quota_period P policy)"
  let ?m = "member_text 113 119 name ?q (?p div 1000)"
  from Inr have s: "name_ok name" "s = 34 # escape name @ [34]" using encode_policy_name_cases [of name] by simp_all
  have member: "s @ str '';q='' @ decimal ?q @ str '';w='' @ decimal (?p div 1000) = ?m"
    by (simp add: s(2) member_text_def str_def)
  have w: "?p div 1000 \<le> MAX_STRUCTURED_FIELD_INTEGER"
    using assms(2) div_le_dividend [of ?p 1000]
    by (auto simp: period_ok_def MAX_WINDOW_MILLIS_value MAX_STRUCTURED_FIELD_INTEGER_def intro: order_trans)
  have "header_value try_from_value ?m = Some (of_bytes (as_bytes ?m))"
    by (rule header_value_member [OF assms(1) s(1)]) (simp_all add: visible_def)
  moreover have "?q \<le> MAX_STRUCTURED_FIELD_INTEGER \<Longrightarrow> sf_member 113 119 ?m = Some (name, ?q, ?p div 1000)"
    using s(1) w by (intro member_text_reads) (simp_all add: name_ok_def)
  moreover have "?p mod 1000 = 0 \<Longrightarrow> ?p div 1000 * 1000 = ?p" by (metis add.right_neutral div_mult_mod_eq)
  ultimately show ?thesis using s(1) Inr w unfolding structured_integer_def
    by (auto simp: quota_policy_def Let_def structured_integer_def member [simplified] MAX_STRUCTURED_FIELD_INTEGER_def)
qed

theorem http_quota_policy_reads_back_witness:
  "case quota_policy sample_try_from FixedWindowPolicy (str ''search'') (sample_fwp (take 32) 100) of
     Some (Ok (field, h)) \<Rightarrow> field = str ''ratelimit-policy'' \<and>
       (\<exists>s. h = as_bytes s \<and> sf_member 113 119 s = Some (str ''search'', 100, 60))
   | _ \<Rightarrow> False"
proof -
  have "name_ok (str ''search'')" by (simp add: name_ok_def visible_def MAX_POLICY_NAME_LENGTH_def str_def)
  moreover have "rl_quota FixedWindowPolicy (sample_fwp (take 32) 100) = Capacity 100"
    "rl_quota_period FixedWindowPolicy (sample_fwp (take 32) 100) = QuotaPeriod 60000"
    by (simp_all add: FixedWindowPolicy_def sample_fwp_def)
  moreover have "w * 1000 = 60000 \<Longrightarrow> w = 60" for w :: nat by simp
  ultimately show ?thesis
    using http_quota_policy_reads_back [OF sample_accepts, of FixedWindowPolicy "sample_fwp (take 32) 100" "str ''search''"]
      small_values_ok(2) [of 60000]
    by (auto split: option.splits sum.splits)
qed

end
