(* ===== verification/Axum_Layer.thy ===== *)
theory Axum_Layer
  imports Check_Batch Decision
begin

text \<open>
  \<open>runlimit-axum/src/lib.rs\<close>: the Tower layer that evaluates one check before the wrapped service.
  The limiter, the subject extractor, the rejection mapper and the wrapped service are the
  application's: they are arguments. Everything they share or mutate is one world state \<open>'w\<close>, threaded
  through their calls in the order the future runs them; \<open>None\<close> is a panic of the limiter or of the
  wrapped service. A request is its own content and the \<open>Admissions\<close> slot of its extensions. Futures
  are run to completion: wakers and cancellation are not modelled.
\<close>

section \<open>Data\<close>

datatype ('k, 'e) rate_limit_rejection = Rej_Key 'k | Rej_Denied denial | Rej_Backend 'e

datatype rejection_kind = RK_Key | RK_Denied | RK_Backend

definition rejection_kind_of :: "('k, 'e) rate_limit_rejection \<Rightarrow> rejection_kind" where
  "rejection_kind_of rejection =
     (case rejection of Rej_Key _ \<Rightarrow> RK_Key | Rej_Denied _ \<Rightarrow> RK_Denied | Rej_Backend _ \<Rightarrow> RK_Backend)"

record admission =
  an_policy_id :: policy_id
  an_scope_id :: scope_id
  an_fingerprint :: policy_fingerprint
  an_decision :: admitted

definition Admission_new :: "'p rate_limit_policy \<Rightarrow> 'p \<Rightarrow> admitted \<Rightarrow> admission" where
  "Admission_new P policy decision =
     \<lparr>an_policy_id = rl_id P policy, an_scope_id = rl_scope P policy,
      an_fingerprint = rl_fingerprint P policy, an_decision = decision\<rparr>"

definition is_for :: "'p rate_limit_policy \<Rightarrow> admission \<Rightarrow> 'p \<Rightarrow> bool" where
  "is_for P self policy \<longleftrightarrow>
     an_policy_id self = rl_id P policy \<and> an_scope_id self = rl_scope P policy \<and>
     an_fingerprint self = rl_fingerprint P policy"

datatype admissions = Admissions (entries: "admission list")

definition Admissions_new :: admissions where "Admissions_new = Admissions []"

definition Admissions_push :: "admissions \<Rightarrow> admission \<Rightarrow> admissions" where
  "Admissions_push self admission = Admissions (entries self @ [admission])"

definition Admissions_get :: "'p rate_limit_policy \<Rightarrow> admissions \<Rightarrow> 'p \<Rightarrow> admission option" where
  "Admissions_get P self policy = List.find (\<lambda>entry. is_for P entry policy) (entries self)"

definition Admissions_len :: "admissions \<Rightarrow> nat" where "Admissions_len self = length (entries self)"

definition Admissions_is_empty :: "admissions \<Rightarrow> bool" where "Admissions_is_empty self \<longleftrightarrow> entries self = []"

definition Admissions_from :: "admission \<Rightarrow> admissions" where "Admissions_from admission = Admissions [admission]"

record 'b request =
  rq_content :: 'b
  rq_admissions :: "admissions option"

section \<open>The layer and its service\<close>

type_synonym ('w, 'b, 'r, 'e) service = "'w \<Rightarrow> 'b request \<Rightarrow> 'w \<times> ('e, 'r) result option"

record ('w, 'b, 'p, 'k, 'l, 'r) rate_limit_layer =
  ly_limiter :: "'w \<Rightarrow> 'p check \<Rightarrow> 'w \<times> ('l, decision) result option"
  ly_policy :: 'p
  ly_key_extractor :: "'b request \<Rightarrow> 'p \<Rightarrow> ('k, subject_key) result"
  ly_rejection_mapper :: "('k, 'l) rate_limit_rejection \<Rightarrow> 'r"

definition RateLimitLayer_new where
  "RateLimitLayer_new limiter policy key_extractor rejection_mapper =
     \<lparr>ly_limiter = limiter, ly_policy = policy, ly_key_extractor = key_extractor,
      ly_rejection_mapper = rejection_mapper\<rparr>"

text \<open>\<open>RateLimitService::call\<close>; \<open>Layer::layer\<close> is its partial application to the inner service.\<close>

definition call ::
    "'p rate_limit_policy \<Rightarrow> ('w, 'b, 'p, 'k, 'l, 'r) rate_limit_layer \<Rightarrow> ('w, 'b, 'r, 'e) service \<Rightarrow>
     ('w, 'b, 'r, 'e) service" where
  "call P self inner w request =
     (case ly_key_extractor self request (ly_policy self) of
        Err error \<Rightarrow> (w, Some (Ok (ly_rejection_mapper self (Rej_Key error))))
      | Ok subject \<Rightarrow>
          (let check = Check_new (SubjectKey_bind subject (ly_policy self)) in
           case ly_limiter self w check of
             (w, None) \<Rightarrow> (w, None)
           | (w, Some (Err error)) \<Rightarrow> (w, Some (Ok (ly_rejection_mapper self (Rej_Backend error))))
           | (w, Some (Ok decision)) \<Rightarrow>
               (case Decision_admit decision of
                  Err denial \<Rightarrow> (w, Some (Ok (ly_rejection_mapper self (Rej_Denied denial))))
                | Ok admitted \<Rightarrow>
                    (let admission = Admission_new P (ly_policy self) admitted in
                     inner w (request\<lparr>rq_admissions := Some
                       (case rq_admissions request of
                          Some admissions \<Rightarrow> Admissions_push admissions admission
                        | None \<Rightarrow> Admissions_from admission)\<rparr>)))))"

text \<open>Nested layers: the first one is the outermost.\<close>

definition layered where
  "layered P layers inner = foldr (call P) layers inner"

section \<open>What one layer does\<close>

text \<open>The outcome of one layer's gate: the world after it, and a rejection, an admission or a panic.\<close>

definition gate where
  "gate ly w request =
     (case ly_key_extractor ly request (ly_policy ly) of
        Err e \<Rightarrow> (w, Some (Inl (Rej_Key e)))
      | Ok s \<Rightarrow>
          (case ly_limiter ly w (Check_new (SubjectKey_bind s (ly_policy ly))) of
             (w, None) \<Rightarrow> (w, None)
           | (w, Some (Err e)) \<Rightarrow> (w, Some (Inl (Rej_Backend e)))
           | (w, Some (Ok d)) \<Rightarrow> (w, Some (case Decision_admit d of Err x \<Rightarrow> Inl (Rej_Denied x) | Ok a \<Rightarrow> Inr a))))"

definition recorded :: "'b request \<Rightarrow> admission list" where
  "recorded request = (case rq_admissions request of None \<Rightarrow> [] | Some a \<Rightarrow> entries a)"

definition record_admission :: "admission \<Rightarrow> 'b request \<Rightarrow> 'b request" where
  "record_admission a request = request\<lparr>rq_admissions := Some (Admissions (recorded request @ [a]))\<rparr>"

lemma recorded_record [simp]:
  "recorded (record_admission a request) = recorded request @ [a]"
  "rq_content (record_admission a request) = rq_content request"
  by (simp_all add: recorded_def record_admission_def)

lemma call_gate:
  "call P ly inner w request =
     (case gate ly w request of
        (w', None) \<Rightarrow> (w', None)
      | (w', Some (Inl r)) \<Rightarrow> (w', Some (Ok (ly_rejection_mapper ly r)))
      | (w', Some (Inr a)) \<Rightarrow> inner w' (record_admission (Admission_new P (ly_policy ly) a) request))"
  by (auto simp: call_def gate_def Let_def recorded_def record_admission_def Admissions_push_def
      Admissions_from_def split: sum.splits prod.splits option.splits)

text \<open>Running the gates of nested layers: the first refusal, or all admissions.\<close>

fun gates where
  "gates P [] w request = (w, Some (Inr request))"
| "gates P (ly # lys) w request =
     (case gate ly w request of
        (w', None) \<Rightarrow> (w', None)
      | (w', Some (Inl r)) \<Rightarrow> (w', Some (Inl (ly_rejection_mapper ly r)))
      | (w', Some (Inr a)) \<Rightarrow> gates P lys w' (record_admission (Admission_new P (ly_policy ly) a) request))"

lemma layered_simps [simp]:
  "layered P [] inner = inner" "layered P (ly # lys) inner = call P ly (layered P lys inner)"
  by (simp_all add: layered_def)

lemma layered_gates:
  "layered P layers inner w request =
     (case gates P layers w request of
        (w', None) \<Rightarrow> (w', None)
      | (w', Some (Inl response)) \<Rightarrow> (w', Some (Ok response))
      | (w', Some (Inr request')) \<Rightarrow> inner w' request')"
  by (induction layers arbitrary: w request) (auto simp: call_gate split: sum.splits prod.splits option.splits)

lemma gates_admitted:
  "gates P layers w request = (w', Some (Inr request')) \<Longrightarrow>
   rq_content request' = rq_content request \<and>
   (\<exists>as. length as = length layers \<and> recorded request' = recorded request @
      map (\<lambda>(ly, a). Admission_new P (ly_policy ly) a) (zip layers as))"
proof (induction layers arbitrary: w request)
  case Nil
  then show ?case by simp
next
  case (Cons ly lys)
  then obtain w1 a where "gate ly w request = (w1, Some (Inr a))"
    "gates P lys w1 (record_admission (Admission_new P (ly_policy ly) a) request) = (w', Some (Inr request'))"
    by (auto split: prod.splits option.splits sum.splits)
  from Cons.IH [OF this(2)] obtain as where "length as = length lys" "rq_content request' = rq_content request"
    "recorded request' = recorded request @ Admission_new P (ly_policy ly) a #
       map (\<lambda>(ly, a). Admission_new P (ly_policy ly) a) (zip lys as)" by auto
  then show ?case by (auto intro!: exI [of _ "a # as"])
qed

section \<open>Properties\<close>

text \<open>
  A layer admits a request to the wrapped service exactly when a subject was extracted, the
  limiter answered and its decision permits the request (an allowance or a shadow denial). The check
  is bound to the layer's own policy with cost one, whatever the extractor does. The service then
  receives the same content with this layer's admission appended to those of the outer layers. In
  every other case the wrapped service is not called and the mapped rejection is the response; a
  failed extraction does not even reach the limiter.
\<close>

theorem axum_call_correct:
  "case ly_key_extractor ly request (ly_policy ly) of
     Err e \<Rightarrow> call P ly inner w request = (w, Some (Ok (ly_rejection_mapper ly (Rej_Key e))))
   | Ok s \<Rightarrow>
       (case ly_limiter ly w \<lparr>chk_policy = ly_policy ly, chk_subject = s, chk_cost = 1\<rparr> of
          (w', None) \<Rightarrow> call P ly inner w request = (w', None)
        | (w', Some (Err e)) \<Rightarrow> call P ly inner w request = (w', Some (Ok (ly_rejection_mapper ly (Rej_Backend e))))
        | (w', Some (Ok d)) \<Rightarrow>
            (if Decision_permits_request d
             then \<exists>a. Decision_admit d = Ok a \<and>
               call P ly inner w request = inner w' (request\<lparr>rq_admissions := Some (Admissions
                 ((case rq_admissions request of None \<Rightarrow> [] | Some as \<Rightarrow> entries as) @ [Admission_new P (ly_policy ly) a]))\<rparr>)
             else \<exists>x. Decision_admit d = Err x \<and>
               call P ly inner w request = (w', Some (Ok (ly_rejection_mapper ly (Rej_Denied x))))))"
proof -
  have "Check_new (SubjectKey_bind s (ly_policy ly)) = \<lparr>chk_policy = ly_policy ly, chk_subject = s, chk_cost = 1\<rparr>" for s
    by (simp add: Check_new_def SubjectKey_bind_def into_parts_def)
  then show ?thesis
    by (auto simp: call_gate gate_def recorded_def record_admission_def Decision_permits_request_def Decision_admit_def
        split: sum.splits prod.splits option.splits decision_outcome.splits)
qed

text \<open>
  Nested layers lose no decision: whenever the innermost service runs, its request carries one
  admission per layer, in evaluation order with the outermost first, after those already recorded;
  each names its own layer's policy, and the request content is untouched. If the service does not
  run, the response is the first refusing layer's, and the wrapped service plays no part in it.
\<close>

theorem axum_layers_ordered:
  "(\<exists>w' request' as. (\<forall>inner. layered P layers inner w request = inner w' request') \<and>
      rq_content request' = rq_content request \<and> length as = length layers \<and>
      recorded request' = recorded request @ map (\<lambda>(ly, a). Admission_new P (ly_policy ly) a) (zip layers as)) \<or>
   (\<exists>w' response. \<forall>inner. layered P layers inner w request = (w', response))"
proof -
  obtain w' g where g: "gates P layers w request = (w', g)" by fastforce
  consider (panic) "g = None" | (reject) r where "g = Some (Inl r)" | (admit) q where "g = Some (Inr q)"
    by (metis option.exhaust sum.exhaust)
  then show ?thesis
  proof cases
    case admit
    from gates_admitted [OF g [unfolded this]] obtain as where as: "rq_content q = rq_content request"
      "length as = length layers" "recorded q = recorded request @ map (\<lambda>(ly, a). Admission_new P (ly_policy ly) a) (zip layers as)"
      by blast
    have "\<forall>inner. layered P layers inner w request = inner w' q" using g admit by (simp add: layered_gates)
    with as show ?thesis by blast
  qed (use g in \<open>auto simp: layered_gates\<close>)
qed

end
