(* ===== verification/Observation.thy ===== *)
theory Observation
  imports Decision
begin

text \<open>
  \<open>runlimit-core/src/observation.rs\<close>: the operational observations the backends report, the
  classification of decisions, and the panic-isolating callback. An observer is its state together
  with a callback that returns the new state and whether it panicked.
\<close>

section \<open>Observations\<close>

record admission_policy =
  ap_id :: policy_id
  ap_scope :: scope_id
  ap_fingerprint :: policy_fingerprint

definition AdmissionPolicy_from_check :: "'p rate_limit_policy \<Rightarrow> 'p check \<Rightarrow> admission_policy" where
  "AdmissionPolicy_from_check P c =
     \<lparr>ap_id = rl_id P (chk_policy c), ap_scope = rl_scope P (chk_policy c),
      ap_fingerprint = rl_fingerprint P (chk_policy c)\<rparr>"

datatype admission_operation =
    Op_Check admission_policy
  | Op_Batch nat "admission_policy option"

datatype admission_outcome =
    Adm_Allowed | Adm_QuotaDenied | Adm_ShadowDenied | Adm_CapacityDenied | Adm_Failed

datatype consumption_status = Consumed | NotConsumed | PossiblyConsumed

record admission_observation =
  ao_operation :: admission_operation
  ao_outcome :: admission_outcome
  ao_consumption :: consumption_status
  ao_elapsed :: duration

definition failed_check ::
    "'p rate_limit_policy \<Rightarrow> 'p check \<Rightarrow> consumption_status \<Rightarrow> duration \<Rightarrow> admission_observation" where
  "failed_check P check consumption elapsed =
     \<lparr>ao_operation = Op_Check (AdmissionPolicy_from_check P check), ao_outcome = Adm_Failed,
      ao_consumption = consumption, ao_elapsed = elapsed\<rparr>"

definition failed_batch ::
    "'p rate_limit_policy \<Rightarrow> 'p check list \<Rightarrow> consumption_status \<Rightarrow> duration \<Rightarrow> admission_observation" where
  "failed_batch P checks consumption elapsed =
     \<lparr>ao_operation = Op_Batch (length checks)
        (case checks of [check] \<Rightarrow> Some (AdmissionPolicy_from_check P check) | _ \<Rightarrow> None),
      ao_outcome = Adm_Failed, ao_consumption = consumption, ao_elapsed = elapsed\<rparr>"

definition classify_denial :: "denial \<Rightarrow> admission_outcome \<times> consumption_status" where
  "classify_denial denial =
     (case denial of
        QuotaExceeded _ \<Rightarrow> (Adm_QuotaDenied, NotConsumed)
      | StorageCapacity _ \<Rightarrow> (Adm_CapacityDenied, NotConsumed))"

definition classify_decision :: "decision \<Rightarrow> admission_outcome \<times> consumption_status" where
  "classify_decision decision =
     (case Decision_view decision of
        DV_Allowed _ \<Rightarrow> (Adm_Allowed, Consumed)
      | DV_Denied denial \<Rightarrow> classify_denial denial
      | DV_ShadowDenied _ \<Rightarrow> (Adm_ShadowDenied, NotConsumed))"

definition classify_batch :: "batch_decision \<Rightarrow> admission_outcome \<times> consumption_status" where
  "classify_batch decision =
     (case BatchDecision_view decision of
        BV_Allowed _ \<Rightarrow> (Adm_Allowed, Consumed)
      | BV_Denied _ _ denial \<Rightarrow> classify_denial denial
      | BV_ShadowDenied _ _ _ \<Rightarrow> (Adm_ShadowDenied, NotConsumed))"

text \<open>\<open>slice::get\<close>.\<close>

definition get_opt :: "'a list \<Rightarrow> nat \<Rightarrow> 'a option" where
  "get_opt xs i = (if i < length xs then Some (xs ! i) else None)"

definition batch_relevant_check :: "'p check list \<Rightarrow> batch_decision \<Rightarrow> 'p check option" where
  "batch_relevant_check checks decision =
     (case BatchDecision_view decision of
        BV_Allowed allowances \<Rightarrow> if length allowances = 1 then get_opt checks 0 else None
      | BV_Denied index _ _ \<Rightarrow> get_opt checks index
      | BV_ShadowDenied index _ _ \<Rightarrow> get_opt checks index)"

definition from_check ::
    "'p rate_limit_policy \<Rightarrow> 'p check \<Rightarrow> decision \<Rightarrow> duration \<Rightarrow> admission_observation" where
  "from_check P check decision elapsed =
     (let (outcome, consumption) = classify_decision decision
      in \<lparr>ao_operation = Op_Check (AdmissionPolicy_from_check P check), ao_outcome = outcome,
          ao_consumption = consumption, ao_elapsed = elapsed\<rparr>)"

definition from_batch ::
    "'p rate_limit_policy \<Rightarrow> 'p check list \<Rightarrow> batch_decision \<Rightarrow> duration \<Rightarrow> admission_observation" where
  "from_batch P checks decision elapsed =
     (let (outcome, consumption) = classify_batch decision
      in \<lparr>ao_operation = Op_Batch (length checks)
            (map_option (AdmissionPolicy_from_check P) (batch_relevant_check checks decision)),
          ao_outcome = outcome, ao_consumption = consumption, ao_elapsed = elapsed\<rparr>)"

datatype cleanup_outcome = Confirmed nat | NoEffect | Unknown

record cleanup_observation =
  co_requested :: nat
  co_outcome :: cleanup_outcome
  co_elapsed :: duration

record capacity_observation =
  cap_used :: nat
  cap_capacity :: nat
  cap_shard_index :: nat

definition headroom :: "capacity_observation \<Rightarrow> nat" where
  "headroom c = saturating_sub (cap_capacity c) (cap_used c)"

datatype observation =
    Obs_Admission admission_observation
  | Obs_Cleanup cleanup_observation
  | Obs_Capacity capacity_observation

section \<open>Observers\<close>

text \<open>\<open>catch_unwind\<close> discards the panic; only the state the callback left behind remains.\<close>

definition observe_safely :: "(observation \<Rightarrow> 'o \<Rightarrow> 'o \<times> bool) \<Rightarrow> observation \<Rightarrow> 'o \<Rightarrow> 'o" where
  "observe_safely observe observation st = (let (st', panicked) = observe observation st in st')"

text \<open>The observations of one operation, delivered in program order when an observer is installed.\<close>

definition notify ::
    "(observation \<Rightarrow> 'o \<Rightarrow> 'o \<times> bool) option \<Rightarrow> observation list \<Rightarrow> 'o \<Rightarrow> 'o" where
  "notify observer observations st =
     (case observer of None \<Rightarrow> st | Some observe \<Rightarrow> fold (observe_safely observe) observations st)"

section \<open>Properties\<close>

text \<open>
  Telemetry tells the truth about consumption: a decision is reported as consuming quota exactly
  when it is an allowance, permitted decisions are exactly the allowed and shadow-denied classes, no
  decision is reported as failed or as possibly consumed, and a batch denial names the policy of the
  failing input.
\<close>

theorem observation_classification:
  "(snd (classify_decision d) = Consumed \<longleftrightarrow> (\<exists>a. Decision_view d = DV_Allowed a)) \<and>
   (Decision_permits_request d \<longleftrightarrow> fst (classify_decision d) \<in> {Adm_Allowed, Adm_ShadowDenied}) \<and>
   (snd (classify_batch b) = Consumed \<longleftrightarrow> (\<exists>as. BatchDecision_view b = BV_Allowed as)) \<and>
   (BatchDecision_permits_request b \<longleftrightarrow> fst (classify_batch b) \<in> {Adm_Allowed, Adm_ShadowDenied}) \<and>
   fst (classify_decision d) \<noteq> Adm_Failed \<and> snd (classify_decision d) \<noteq> PossiblyConsumed \<and>
   fst (classify_batch b) \<noteq> Adm_Failed \<and> snd (classify_batch b) \<noteq> PossiblyConsumed \<and>
   ao_operation (from_batch P checks (BatchDecision (BO_Denied i n x)) t) =
     Op_Batch (length checks) (map_option (AdmissionPolicy_from_check P) (get_opt checks i))"
proof -
  have d: "(snd (classify_decision d) = Consumed \<longleftrightarrow> (\<exists>a. Decision_view d = DV_Allowed a)) \<and>
    (Decision_permits_request d \<longleftrightarrow> fst (classify_decision d) \<in> {Adm_Allowed, Adm_ShadowDenied}) \<and>
    fst (classify_decision d) \<noteq> Adm_Failed \<and> snd (classify_decision d) \<noteq> PossiblyConsumed"
    by (cases d rule: decision_exhaust)
      (auto simp: classify_decision_def classify_denial_def split: denial.splits)
  have b: "(snd (classify_batch b) = Consumed \<longleftrightarrow> (\<exists>as. BatchDecision_view b = BV_Allowed as)) \<and>
    (BatchDecision_permits_request b \<longleftrightarrow> fst (classify_batch b) \<in> {Adm_Allowed, Adm_ShadowDenied}) \<and>
    fst (classify_batch b) \<noteq> Adm_Failed \<and> snd (classify_batch b) \<noteq> PossiblyConsumed"
    by (auto simp: classify_batch_def BatchDecision_view_def BatchDecision_permits_request_def
        classify_denial_def split: batch_outcome.splits denial.splits)
  have f: "ao_operation (from_batch P checks (BatchDecision (BO_Denied i n x)) t) =
     Op_Batch (length checks) (map_option (AdmissionPolicy_from_check P) (get_opt checks i))"
    by (simp add: from_batch_def batch_relevant_check_def BatchDecision_view_def split: prod.splits)
  show ?thesis using d b f by blast
qed

end
