(* ===== verification/Limiter.thy ===== *)
theory Limiter
  imports Observation
begin

text \<open>
  The trait \<open>Limiter\<close> of \<open>runlimit-core/src/limiter.rs\<close> and its contract. Every backend implements it; the
  adapters rely on nothing else. An operation maps a world to a world and a result, \<open>None\<close> being a panic.
\<close>

section \<open>The trait\<close>

record ('w, 'p, 'e, 'b) limiter =
  lm_check :: "'w \<Rightarrow> 'p check \<Rightarrow> 'w \<times> ('e, decision) result option"
  lm_check_all :: "'w \<Rightarrow> 'p check list \<Rightarrow> 'w \<times> ('b, batch_decision) result option"

text \<open>What the observation of an operation says about consumption: the class of its decision, or what its error knows.\<close>

definition check_report :: "('e \<Rightarrow> consumption_status) \<Rightarrow> ('e, decision) result \<Rightarrow> consumption_status" where
  "check_report consumption r = (case r of Ok d \<Rightarrow> snd (classify_decision d) | Err e \<Rightarrow> consumption e)"

definition batch_report :: "('b \<Rightarrow> consumption_status) \<Rightarrow> ('b, batch_decision) result \<Rightarrow> consumption_status" where
  "batch_report consumption r = (case r of Ok d \<Rightarrow> snd (classify_batch d) | Err e \<Rightarrow> consumption e)"

section \<open>The contract\<close>

text \<open>What a decision says of the quota, given whether it was consumed, was kept, and may be exceeded in shadow mode;
  of a batch of \<open>n\<close> checks; and what an error says.\<close>

definition decision_tells :: "bool \<Rightarrow> bool \<Rightarrow> bool \<Rightarrow> decision \<Rightarrow> bool" where
  "decision_tells spent kept shadow d =
     (case Decision_view d of DV_Allowed _ \<Rightarrow> spent | DV_Denied _ \<Rightarrow> kept | DV_ShadowDenied _ \<Rightarrow> kept \<and> shadow)"

definition batch_tells :: "bool \<Rightarrow> bool \<Rightarrow> nat \<Rightarrow> batch_decision \<Rightarrow> bool" where
  "batch_tells spent kept n b =
     (case BatchDecision_view b of
        BV_Allowed as \<Rightarrow> length as = n \<and> spent
      | BV_Denied i m _ \<Rightarrow> i < n \<and> m = n \<and> kept
      | BV_ShadowDenied i m _ \<Rightarrow> i < n \<and> m = n \<and> kept)"

definition error_tells :: "bool \<Rightarrow> bool \<Rightarrow> consumption_status \<Rightarrow> bool" where
  "error_tells spent kept consumption \<longleftrightarrow> consumption \<noteq> Consumed \<and> (kept \<or> consumption = PossiblyConsumed \<and> spent)"

text \<open>
  A backend serves under circumstances \<open>t\<close> that it does not control (the reading of a clock, the behaviour of
  a server). \<open>spent t cs w w'\<close> says that the quota of the checks \<open>cs\<close> was consumed and nothing else, \<open>kept t w w'\<close>
  that no quota was. A slice has fewer than \<open>2\<^sup>6\<^sup>3\<close> elements.
\<close>

locale limiter_contract =
  fixes limiter :: "'t \<Rightarrow> ('w, 'p, 'e, 'b) limiter" and mode :: "'p \<Rightarrow> quota_mode"
    and usable :: "'t \<Rightarrow> 'w \<Rightarrow> bool" and valid :: "'p check \<Rightarrow> bool"
    and kept :: "'t \<Rightarrow> 'w \<Rightarrow> 'w \<Rightarrow> bool" and spent :: "'t \<Rightarrow> 'p check list \<Rightarrow> 'w \<Rightarrow> 'w \<Rightarrow> bool"
    and check_consumption :: "'e \<Rightarrow> consumption_status" and batch_consumption :: "'b \<Rightarrow> consumption_status"
    and invalid_batch :: "batch_error \<Rightarrow> 'b"
  assumes kept_refl: "usable t w \<Longrightarrow> kept t w w"
    and check_answers: "usable t w \<Longrightarrow> valid c \<Longrightarrow> snd (lm_check (limiter t) w c) \<noteq> None"
    and check_decides: "usable t w \<Longrightarrow> valid c \<Longrightarrow> lm_check (limiter t) w c = (w', Some (Ok d)) \<Longrightarrow>
      decision_tells (spent t [c] w w') (kept t w w') (mode (chk_policy c) = Shadow) d"
    and check_fails: "usable t w \<Longrightarrow> valid c \<Longrightarrow> lm_check (limiter t) w c = (w', Some (Err e)) \<Longrightarrow>
      error_tells (spent t [c] w w') (kept t w w') (check_consumption e)"
    and check_all_answers: "usable t w \<Longrightarrow> list_all valid cs \<Longrightarrow> length cs < 2 ^ 63 \<Longrightarrow>
      snd (lm_check_all (limiter t) w cs) \<noteq> None"
    and check_all_decides: "usable t w \<Longrightarrow> list_all valid cs \<Longrightarrow> length cs < 2 ^ 63 \<Longrightarrow>
      lm_check_all (limiter t) w cs = (w', Some (Ok b)) \<Longrightarrow>
      batch_tells (spent t cs w w') (kept t w w') (length cs) b"
    and check_all_fails: "usable t w \<Longrightarrow> list_all valid cs \<Longrightarrow> length cs < 2 ^ 63 \<Longrightarrow>
      lm_check_all (limiter t) w cs = (w', Some (Err x)) \<Longrightarrow>
      error_tells (spent t cs w w') (kept t w w') (batch_consumption x)"
    and check_all_empty: "usable t w \<Longrightarrow>
      \<exists>w'. lm_check_all (limiter t) w [] = (w', Some (Err (invalid_batch EmptyBatch))) \<and> kept t w w'"
begin

text \<open>Telemetry is true of every backend.\<close>

lemma check_report_true:
  assumes "usable t w" "valid c" "lm_check (limiter t) w c = (w', Some r)"
  shows "case check_report check_consumption r of
      Consumed \<Rightarrow> spent t [c] w w'
    | NotConsumed \<Rightarrow> kept t w w'
    | PossiblyConsumed \<Rightarrow> kept t w w' \<or> spent t [c] w w'"
proof (cases r)
  case (Inl e)
  then show ?thesis using check_fails [OF assms(1,2)] assms(3) by (auto simp: check_report_def error_tells_def split: consumption_status.split)
next
  case (Inr d)
  then show ?thesis using check_decides [OF assms(1,2), of w' d] assms(3)
    by (auto simp: check_report_def decision_tells_def classify_decision_def classify_denial_def split: decision_view.splits denial.splits)
qed

lemma batch_report_true:
  assumes "usable t w" "list_all valid cs" "length cs < 2 ^ 63" "lm_check_all (limiter t) w cs = (w', Some r)"
  shows "case batch_report batch_consumption r of
      Consumed \<Rightarrow> spent t cs w w'
    | NotConsumed \<Rightarrow> kept t w w'
    | PossiblyConsumed \<Rightarrow> kept t w w' \<or> spent t cs w w'"
proof (cases r)
  case (Inl e)
  then show ?thesis using check_all_fails [OF assms(1-3)] assms(4) by (auto simp: batch_report_def error_tells_def split: consumption_status.split)
next
  case (Inr d)
  then show ?thesis using check_all_decides [OF assms(1-3), of w' d] assms(4)
    by (auto simp: batch_report_def batch_tells_def classify_batch_def classify_denial_def split: batch_decision_view.splits denial.splits)
qed

text \<open>A policy in enforcing mode permits a request only against its quota.\<close>

lemma enforced_permit_spends:
  assumes "usable t w" "valid c" "mode (chk_policy c) = Enforce" "lm_check (limiter t) w c = (w', Some (Ok d))"
    and "Decision_permits_request d"
  shows "spent t [c] w w'"
  using check_decides [OF assms(1,2,4)] assms(3,5) by (cases d rule: decision_exhaust) (auto simp: decision_tells_def)

lemma enforced_refusal_keeps:
  assumes "usable t w" "valid c" "lm_check (limiter t) w c = (w', Some (Ok d))" "\<not> Decision_permits_request d"
  shows "kept t w w'"
  using check_decides [OF assms(1-3)] assms(4) by (cases d rule: decision_exhaust) (auto simp: decision_tells_def)

end

end
