(* ===== verification/Axum_Limiter.thy ===== *)
theory Axum_Limiter
  imports Axum_Layer Limiter
begin

text \<open>
  The Axum layer in front of any limiter that keeps the contract of the trait: a history of requests served
  through \<open>RateLimitService::call\<close>, and the bound on how many of one subject's requests can reach the
  handler, proved once for every backend.
\<close>

section \<open>Serving requests\<close>

text \<open>The world is the limiter's and the number of handler calls.\<close>

definition limiter_layer ::
    "('w, 'p, 'e, 'c) limiter \<Rightarrow> 'p \<Rightarrow> ('b request \<Rightarrow> 'p \<Rightarrow> ('k, subject_key) result) \<Rightarrow>
     (('k, 'e) rate_limit_rejection \<Rightarrow> 'r) \<Rightarrow> ('w \<times> nat, 'b, 'p, 'k, 'e, 'r) rate_limit_layer" where
  "limiter_layer limiter policy extractor reject =
     RateLimitLayer_new (\<lambda>(w, n) check. let (w', r) = lm_check limiter w check in ((w', n), r)) policy extractor reject"

definition counting_handler :: "'r \<Rightarrow> ('w \<times> nat, 'b, 'r, 'x) service" where
  "counting_handler response w request = ((fst w, Suc (snd w)), Some (Ok response))"

definition serve where
  "serve P limiter policy extractor reject response w request =
     fst (call P (limiter_layer limiter policy extractor reject)
       (counting_handler response :: ('w \<times> nat, 'b, 'r, unit) service) (w, 0) request)"

text \<open>How often the handler runs for requests of subject \<open>s\<close>, each served under its own circumstances.\<close>

fun served where
  "served P limiter policy extractor reject response s w [] = 0"
| "served P limiter policy extractor reject response s w ((t, request) # rest) =
     (let (w', n) = serve P (limiter t) policy extractor reject response w request in
      (if extractor request policy = Ok s then n else 0) + served P limiter policy extractor reject response s w' rest)"

text \<open>Circumstances that are admissible after \<open>f\<close>, which records those that have passed.\<close>

fun arrivals_ok :: "('f \<Rightarrow> 't \<Rightarrow> bool) \<Rightarrow> ('f \<Rightarrow> 't \<Rightarrow> 'f) \<Rightarrow> 'f \<Rightarrow> ('t \<times> 'b request) list \<Rightarrow> bool" where
  "arrivals_ok arrives after f [] \<longleftrightarrow> True"
| "arrivals_ok arrives after f ((t, _) # rest) \<longleftrightarrow> arrives f t \<and> arrivals_ok arrives after (after f t) rest"

abbreviation subject_check :: "'p \<Rightarrow> subject_key \<Rightarrow> 'p check" where
  "subject_check policy s \<equiv> \<lparr>chk_policy = policy, chk_subject = s, chk_cost = 1\<rparr>"

lemma serve_eq:
  "serve P limiter policy extractor reject response w request =
     (case extractor request policy of
        Err _ \<Rightarrow> (w, 0)
      | Ok s \<Rightarrow>
          (case lm_check limiter w (subject_check policy s) of
             (w', Some (Ok d)) \<Rightarrow> (w', if Decision_permits_request d then 1 else 0)
           | (w', _) \<Rightarrow> (w', 0)))"
  by (auto simp: serve_def call_gate gate_def limiter_layer_def RateLimitLayer_new_def counting_handler_def
      Check_new_def SubjectKey_bind_def into_parts_def Decision_permits_request_def Decision_admit_def
      split: sum.splits prod.splits option.splits decision_outcome.splits)

section \<open>Metered limiters\<close>

text \<open>\<open>potential f w\<close> bounds what is still to be charged after \<open>f\<close>; a check owes \<open>due\<close> of it. The checks that meter
  the counter are \<open>counted\<close>.\<close>

locale metered_limiter =
  limiter_contract limiter mode usable valid kept spent check_consumption batch_consumption invalid_batch
  for limiter :: "'t \<Rightarrow> ('w, 'p, 'e, 'c) limiter" and mode usable valid kept spent check_consumption batch_consumption invalid_batch +
  fixes arrives :: "'f \<Rightarrow> 't \<Rightarrow> bool" and after :: "'f \<Rightarrow> 't \<Rightarrow> 'f" and inv :: "'f \<Rightarrow> 'w \<Rightarrow> bool"
    and potential :: "'f \<Rightarrow> 'w \<Rightarrow> nat" and counted :: "'p check \<Rightarrow> bool" and due :: "'p check \<Rightarrow> nat"
  assumes ready: "inv f w \<Longrightarrow> arrives f t \<Longrightarrow> usable t w"
    and kept_metered: "inv f w \<Longrightarrow> arrives f t \<Longrightarrow> kept t w w' \<Longrightarrow>
      inv (after f t) w' \<and> potential (after f t) w' \<le> potential f w"
    and spent_metered: "inv f w \<Longrightarrow> arrives f t \<Longrightarrow> valid c \<Longrightarrow> counted c \<Longrightarrow> spent t [c] w w' \<Longrightarrow>
      inv (after f t) w' \<and> due c + potential (after f t) w' \<le> potential f w"
begin

text \<open>One request.\<close>

lemma serve_metered:
  assumes "inv f w" "arrives f t" "valid (subject_check policy s)" "counted (subject_check policy s)"
    and "mode policy = Enforce" "extractor request policy = Ok s"
    and serve: "serve P (limiter t) policy extractor reject response w request = (w', n)"
  shows "inv (after f t) w' \<and> n * due (subject_check policy s) + potential (after f t) w' \<le> potential f w"
proof -
  let ?c = "subject_check policy s"
  have u: "usable t w" by (rule ready [OF assms(1,2)])
  obtain w1 r where r: "lm_check (limiter t) w ?c = (w1, Some r)"
    using check_answers [OF u assms(3)] by (cases "lm_check (limiter t) w ?c") auto
  note kept = kept_metered [OF assms(1,2)] and spent = spent_metered [OF assms(1-4)]
  show ?thesis
  proof (cases r)
    case (Inl e)
    then have "kept t w w1 \<or> spent t [?c] w w1" using check_fails [OF u assms(3)] r by (auto simp: error_tells_def)
    then show ?thesis using serve assms(6) r Inl kept spent by (fastforce simp: serve_eq)
  next
    case (Inr d)
    then have n: "w' = w1" "n = (if Decision_permits_request d then 1 else 0)" using serve assms(6) r by (simp_all add: serve_eq)
    show ?thesis
    proof (cases "Decision_permits_request d")
      case True
      then have "spent t [?c] w w1" using enforced_permit_spends [OF u assms(3)] assms(5) r Inr by simp
      then show ?thesis using spent n True by simp
    next
      case False
      then have "kept t w w1" using enforced_refusal_keeps [OF u assms(3)] r Inr by simp
      then show ?thesis using kept n False by simp
    qed
  qed
qed

lemma served_metered:
  assumes extracts: "\<And>request s. extractor request policy = Ok s \<Longrightarrow> valid (subject_check policy s) \<and> counted (subject_check policy s)"
    and "mode policy = Enforce"
  shows "inv f w \<Longrightarrow> arrivals_ok arrives after f rs \<Longrightarrow>
    served P limiter policy extractor reject response s w rs * due (subject_check policy s) \<le> potential f w"
proof (induction rs arbitrary: f w)
  case (Cons x rs)
  obtain t request where x: "x = (t, request)" by fastforce
  obtain w' n where sv: "serve P (limiter t) policy extractor reject response w request = (w', n)" by fastforce
  from Cons.prems x have t: "arrives f t" "arrivals_ok arrives after (after f t) rs" by auto
  let ?m = "if extractor request policy = Ok s then n else 0"
  have "inv (after f t) w' \<and> ?m * due (subject_check policy s) + potential (after f t) w' \<le> potential f w"
  proof (cases "extractor request policy")
    case (Inl e)
    then show ?thesis using sv kept_metered [OF Cons.prems(1) t(1) kept_refl [OF ready [OF Cons.prems(1) t(1)]]]
      by (simp add: serve_eq)
  next
    case (Inr s')
    then show ?thesis using serve_metered [OF Cons.prems(1) t(1) _ _ assms(2) Inr sv] extracts [OF Inr] by auto
  qed
  then show ?case using Cons.IH [of "after f t" w'] t(2) x sv by (fastforce simp: algebra_simps)
qed simp

end

end
