(* ===== verification/Memory_Config.thy ===== *)
theory Memory_Config
  imports Rust_Prelude
begin

text \<open>
  \<open>runlimit-memory/src/config.rs\<close>: the validated configuration of a bounded store, its builder steps,
  its Serde form, and the division of the key capacity among shards.
\<close>

definition DEFAULT_SHARD_COUNT :: nat where "DEFAULT_SHARD_COUNT = 1"
definition DEFAULT_MAX_EXPIRED_REMOVALS :: nat where "DEFAULT_MAX_EXPIRED_REMOVALS = 8"
definition DEFAULT_MAX_BATCH_SIZE :: nat where "DEFAULT_MAX_BATCH_SIZE = 32"

record memory_store_config =
  max_keys :: nat
  shard_count :: nat
  max_expired_removals_per_check :: nat
  max_batch_size :: nat

datatype memory_store_config_error =
    ZeroMaxKeys
  | ZeroShardCount
  | MoreShardsThanKeys nat nat
  | ZeroExpiredRemovalLimit
  | ZeroBatchSize

definition MemoryStoreConfig_new :: "nat \<Rightarrow> (memory_store_config_error, memory_store_config) result" where
  "MemoryStoreConfig_new keys =
     (if keys = 0 then Err ZeroMaxKeys
      else Ok \<lparr>max_keys = keys, shard_count = min DEFAULT_SHARD_COUNT keys,
               max_expired_removals_per_check = DEFAULT_MAX_EXPIRED_REMOVALS,
               max_batch_size = DEFAULT_MAX_BATCH_SIZE\<rparr>)"

definition with_shard_count ::
    "nat \<Rightarrow> memory_store_config \<Rightarrow> (memory_store_config_error, memory_store_config) result" where
  "with_shard_count n self =
     (if n = 0 then Err ZeroShardCount
      else if n > max_keys self then Err (MoreShardsThanKeys n (max_keys self))
      else Ok (self\<lparr>shard_count := n\<rparr>))"

definition with_max_expired_removals_per_check ::
    "nat \<Rightarrow> memory_store_config \<Rightarrow> (memory_store_config_error, memory_store_config) result" where
  "with_max_expired_removals_per_check maximum self =
     (if maximum = 0 then Err ZeroExpiredRemovalLimit
      else Ok (self\<lparr>max_expired_removals_per_check := maximum\<rparr>))"

definition with_max_batch_size ::
    "nat \<Rightarrow> memory_store_config \<Rightarrow> (memory_store_config_error, memory_store_config) result" where
  "with_max_batch_size maximum self =
     (if maximum = 0 then Err ZeroBatchSize else Ok (self\<lparr>max_batch_size := maximum\<rparr>))"

definition shard_capacity :: "memory_store_config \<Rightarrow> nat \<Rightarrow> nat" where
  "shard_capacity self shard_index =
     (let base = max_keys self div shard_count self;
          extra = (if shard_index < max_keys self mod shard_count self then 1 else 0)
      in base + extra)"

text \<open>The Serde object; omitted bounds take the defaults.\<close>

record memory_store_config_wire =
  mcw_max_keys :: nat
  mcw_shard_count :: "nat option"
  mcw_max_expired_removals_per_check :: "nat option"
  mcw_max_batch_size :: "nat option"

definition memory_store_config_serialize :: "memory_store_config \<Rightarrow> memory_store_config_wire" where
  "memory_store_config_serialize self =
     \<lparr>mcw_max_keys = max_keys self, mcw_shard_count = Some (shard_count self),
      mcw_max_expired_removals_per_check = Some (max_expired_removals_per_check self),
      mcw_max_batch_size = Some (max_batch_size self)\<rparr>"

definition or_default :: "'a \<Rightarrow> 'a option \<Rightarrow> 'a" where
  "or_default d x = (case x of None \<Rightarrow> d | Some a \<Rightarrow> a)"

definition memory_store_config_deserialize ::
    "memory_store_config_wire \<Rightarrow> (memory_store_config_error, memory_store_config) result" where
  "memory_store_config_deserialize wire =
     and_then (and_then (and_then (MemoryStoreConfig_new (mcw_max_keys wire))
       (with_shard_count (or_default DEFAULT_SHARD_COUNT (mcw_shard_count wire))))
       (with_max_expired_removals_per_check
          (or_default DEFAULT_MAX_EXPIRED_REMOVALS (mcw_max_expired_removals_per_check wire))))
       (with_max_batch_size (or_default DEFAULT_MAX_BATCH_SIZE (mcw_max_batch_size wire)))"

section \<open>Well-formed configurations\<close>

definition config_ok :: "memory_store_config \<Rightarrow> bool" where
  "config_ok c \<longleftrightarrow> 0 < shard_count c \<and> shard_count c \<le> max_keys c \<and>
     0 < max_expired_removals_per_check c \<and> 0 < max_batch_size c"

lemmas config_defs = MemoryStoreConfig_new_def with_shard_count_def
  with_max_expired_removals_per_check_def with_max_batch_size_def DEFAULT_SHARD_COUNT_def
  DEFAULT_MAX_EXPIRED_REMOVALS_def DEFAULT_MAX_BATCH_SIZE_def

lemma config_ok_steps [store_inv]:
  "MemoryStoreConfig_new n = Ok c \<Longrightarrow> config_ok c"
  "config_ok c \<Longrightarrow> with_shard_count n c = Ok d \<Longrightarrow> config_ok d"
  "config_ok c \<Longrightarrow> with_max_expired_removals_per_check n c = Ok d \<Longrightarrow> config_ok d"
  "config_ok c \<Longrightarrow> with_max_batch_size n c = Ok d \<Longrightarrow> config_ok d"
  by (auto simp: config_defs config_ok_def split: if_splits)

lemma shard_capacity_pos: "config_ok c \<Longrightarrow> 0 < shard_capacity c i"
  by (auto simp: config_ok_def shard_capacity_def div_greater_zero_iff)

lemma sum_shard_capacity:
  assumes "0 < shard_count c"
  shows "(\<Sum>i < shard_count c. shard_capacity c i) = max_keys c"
proof -
  let ?n = "shard_count c" and ?r = "max_keys c mod shard_count c"
  have "(\<Sum>i < ?n. (if i < ?r then 1 else 0 :: nat)) = card {i. i < ?n \<and> i < ?r}"
    by (simp add: sum.If_cases Int_def lessThan_def)
  also have "{i. i < ?n \<and> i < ?r} = {..< ?r}"
    using mod_less_divisor [OF assms, of "max_keys c"] by auto
  finally have "(\<Sum>i < ?n. (if i < ?r then 1 else 0 :: nat)) = ?r" by simp
  then show ?thesis by (simp add: shard_capacity_def sum.distrib)
qed

section \<open>Properties\<close>

text \<open>
  Every configuration that the constructors or Serde can produce is well-formed, the per-shard
  capacities are all positive and add up to exactly the configured global maximum, and a well-formed
  configuration survives its Serde form.
\<close>

theorem memory_config_sound:
  assumes "memory_store_config_deserialize wire = Ok c"
  shows "config_ok c \<and> (\<Sum>i < shard_count c. shard_capacity c i) = max_keys c \<and>
    (\<forall>i. 0 < shard_capacity c i) \<and>
    memory_store_config_deserialize (memory_store_config_serialize c) = Ok c"
proof -
  have ok: "config_ok c"
    using assms unfolding memory_store_config_deserialize_def and_then_eq_Inr
    by (elim exE conjE) (erule config_ok_steps(4) [rotated], erule config_ok_steps(3) [rotated],
        erule config_ok_steps(2) [rotated], erule config_ok_steps(1))
  then have "memory_store_config_deserialize (memory_store_config_serialize c) = Ok c"
    by (cases c) (simp add: memory_store_config_deserialize_def memory_store_config_serialize_def
        config_defs config_ok_def or_default_def)
  moreover have "0 < shard_count c" using ok by (simp add: config_ok_def)
  ultimately show ?thesis
    using ok sum_shard_capacity [of c] shard_capacity_pos [OF ok] by blast
qed

theorem memory_config_sound_witness:
  "(\<Sum>i < 3. shard_capacity \<lparr>max_keys = 10, shard_count = 3, max_expired_removals_per_check = 8,
      max_batch_size = 32\<rparr> i) = 10"
proof -
  have "memory_store_config_deserialize \<lparr>mcw_max_keys = 10, mcw_shard_count = Some 3,
      mcw_max_expired_removals_per_check = None, mcw_max_batch_size = None\<rparr> =
    Ok \<lparr>max_keys = 10, shard_count = 3, max_expired_removals_per_check = 8, max_batch_size = 32\<rparr>"
    by (simp add: memory_store_config_deserialize_def config_defs or_default_def)
  from memory_config_sound [OF this] show ?thesis by simp
qed

end
