(* ===== verification/Shards.thy ===== *)
theory Shards
  imports Memory_Config Observation
begin

text \<open>
  \<open>runlimit-memory/src/shards.rs\<close>: the bounded, expiring shard shared by both quota stores, the batch
  topology, and the array of poisonable mutexes around the shards.

  The hash map of a shard is an association list keyed by the counter key (the code's prehashed key
  has the same equality) and the B-tree set of expirations is a sorted list without repetitions.
  \<open>debug_assert!\<close> lines are not executed in release builds; what they assert is proved below.
\<close>

section \<open>Expirations and entries\<close>

datatype expiration = Expiration (exp_at: nat) (exp_key: counter_key)

instantiation expiration :: linorder
begin

definition less_eq_expiration :: "expiration \<Rightarrow> expiration \<Rightarrow> bool" where
  "a \<le> b \<longleftrightarrow> (exp_at a, exp_key a) \<le> (exp_at b, exp_key b)"

definition less_expiration :: "expiration \<Rightarrow> expiration \<Rightarrow> bool" where
  "a < b \<longleftrightarrow> (exp_at a, exp_key a) < (exp_at b, exp_key b)"

instance
  by standard (auto simp: less_eq_expiration_def less_expiration_def expiration.expand)

end

record 'e stored_entry =
  se_value :: 'e
  se_expires_at_millis :: nat

record 'e shard =
  sh_capacity :: nat
  sh_latest_observed_millis :: nat
  sh_entries :: "(counter_key \<times> 'e stored_entry) list"
  sh_expirations :: "expiration list"

definition Shard_new :: "nat \<Rightarrow> 'e shard" where
  "Shard_new capacity =
     \<lparr>sh_capacity = capacity, sh_latest_observed_millis = 0, sh_entries = [], sh_expirations = []\<rparr>"

definition Shard_clear :: "'e shard \<Rightarrow> 'e shard" where
  "Shard_clear self = self\<lparr>sh_entries := [], sh_expirations := []\<rparr>"

definition used :: "'e shard \<Rightarrow> nat" where "used self = length (sh_entries self)"

definition record_observed_millis :: "nat \<Rightarrow> 'e shard \<Rightarrow> 'e shard" where
  "record_observed_millis now_millis self = self\<lparr>sh_latest_observed_millis := now_millis\<rparr>"

definition contains_key :: "'e shard \<Rightarrow> counter_key \<Rightarrow> bool" where
  "contains_key self key \<longleftrightarrow> map_of (sh_entries self) key \<noteq> None"

definition active_entry :: "'e shard \<Rightarrow> counter_key \<Rightarrow> nat \<Rightarrow> ('e \<times> nat) option" where
  "active_entry self key now_millis =
     do {
       entry \<leftarrow> map_of (sh_entries self) key;
       if se_expires_at_millis entry > now_millis
       then Some (se_value entry, se_expires_at_millis entry) else None
     }"

definition update_value :: "counter_key \<Rightarrow> ('e \<Rightarrow> 'e \<times> 'r) \<Rightarrow> 'e shard \<Rightarrow> 'e shard \<times> 'r option" where
  "update_value key update self =
     (case map_of (sh_entries self) key of
        None \<Rightarrow> (self, None)
      | Some entry \<Rightarrow>
          let (value, result) = update (se_value entry)
          in (self\<lparr>sh_entries := AList.update key (entry\<lparr>se_value := value\<rparr>) (sh_entries self)\<rparr>, Some result))"

definition replace :: "counter_key \<Rightarrow> 'e \<Rightarrow> nat \<Rightarrow> 'e shard \<Rightarrow> 'e shard \<times> 'e option" where
  "replace key value expires_at_millis self =
     (let previous = map_of (sh_entries self) key;
          self = self\<lparr>sh_entries := AList.update key
            \<lparr>se_value = value, se_expires_at_millis = expires_at_millis\<rparr> (sh_entries self)\<rparr>;
          self = (case previous of
                    None \<Rightarrow> self
                  | Some previous \<Rightarrow>
                      self\<lparr>sh_expirations :=
                        remove1 (Expiration (se_expires_at_millis previous) key) (sh_expirations self)\<rparr>);
          self = self\<lparr>sh_expirations := insort_insert (Expiration expires_at_millis key) (sh_expirations self)\<rparr>
      in (self, map_option se_value previous))"

text \<open>The bounded loop of \<open>prune_expired\<close>.\<close>

fun prune_expired_loop :: "nat \<Rightarrow> nat \<Rightarrow> nat \<Rightarrow> 'e shard \<Rightarrow> 'e shard \<times> nat" where
  "prune_expired_loop now_millis 0 removed_count self = (self, removed_count)"
| "prune_expired_loop now_millis (Suc n) removed_count self =
     (case sh_expirations self of
        [] \<Rightarrow> (self, removed_count)
      | expiration # rest \<Rightarrow>
          if exp_at expiration > now_millis then (self, removed_count)
          else
            let removed = map_of (sh_entries self) (exp_key expiration)
            in prune_expired_loop now_millis n
                 (removed_count + (if removed = None then 0 else 1))
                 (self\<lparr>sh_expirations := rest,
                       sh_entries := AList.delete (exp_key expiration) (sh_entries self)\<rparr>))"

definition prune_expired :: "nat \<Rightarrow> nat \<Rightarrow> 'e shard \<Rightarrow> 'e shard \<times> nat" where
  "prune_expired now_millis maximum self = prune_expired_loop now_millis maximum 0 self"

definition capacity_retry_after_millis :: "'e shard \<Rightarrow> nat \<Rightarrow> nat option" where
  "capacity_retry_after_millis self now_millis =
     (case sh_expirations self of
        [] \<Rightarrow> None
      | expiration # _ \<Rightarrow> Some (max (saturating_sub (exp_at expiration) now_millis) 1))"

text \<open>\<open>None\<close> is the panic of the narrowing \<open>expect\<close>.\<close>

definition storage_capacity_denial :: "'e shard \<Rightarrow> nat \<Rightarrow> denial option" where
  "storage_capacity_denial self now_millis =
     (case capacity_retry_after_millis self now_millis of
        None \<Rightarrow> Some (StorageCapacity None)
      | Some millis \<Rightarrow>
          do { ms \<leftarrow> try_from 64 millis; Some (StorageCapacity (Some (Delay (from_millis ms)))) })"

section \<open>Hashing and routing\<close>

definition from_le_bytes :: "u8 list \<Rightarrow> u64w" where
  "from_le_bytes bytes = foldr (\<lambda>b acc. push_bit 8 acc + ucast b) bytes 0"

definition leading_u64 :: "u8 list \<Rightarrow> u64w" where
  "leading_u64 bytes = from_le_bytes (take 8 bytes)"

definition counter_key_hash :: "counter_key \<Rightarrow> u64w" where
  "counter_key_hash key =
     xor (leading_u64 (subject_bytes (ck_subject key)))
       (word_rotl 32 (leading_u64 (fingerprint_bytes (ck_fingerprint key))))"

text \<open>The hash-map key: \<open>PrehashedCounterKey\<close> feeds its 64-bit hash to a hasher that returns it.\<close>

definition hasher_write :: "u8 list \<Rightarrow> u64w \<Rightarrow> u64w" where
  "hasher_write bytes state = fold (\<lambda>byte st. xor (word_rotl 8 st) (ucast byte)) bytes state"

definition hasher_write_u64 :: "u64w \<Rightarrow> u64w \<Rightarrow> u64w" where
  "hasher_write_u64 value state = value"

definition prehashed_hash :: "counter_key \<Rightarrow> u64w \<Rightarrow> u64w" where
  "prehashed_hash key state = hasher_write_u64 (counter_key_hash key) state"

section \<open>Batch topology\<close>

record batch_shard =
  bs_index :: nat
  bs_check_count :: nat

record batch_topology =
  bt_shards :: "batch_shard list"
  bt_input_positions :: "nat list"

datatype poisoned_shard_error = PoisonedShardError (pse_shard_index: nat)

datatype memory_batch_error =
    InvalidBatch batch_error
  | BatchExceedsShardCapacity nat nat nat
  | PoisonedShard poisoned_shard_error

text \<open>\<open>slice::partition_point\<close> on a slice the predicate partitions.\<close>

definition partition_point :: "('a \<Rightarrow> bool) \<Rightarrow> 'a list \<Rightarrow> nat" where
  "partition_point P xs = length (takeWhile P xs)"

text \<open>The loop that turns shard indexes into positions and counts checks; \<open>None\<close> is an index panic.\<close>

fun route_checks :: "nat list \<Rightarrow> batch_shard list \<Rightarrow> (batch_shard list \<times> nat list) option" where
  "route_checks [] shards = Some (shards, [])"
| "route_checks (shard_index # rest) shards =
     (let position = partition_point (\<lambda>shard. bs_index shard < shard_index) shards
      in if position < length shards then
           do {
             (shards', positions) \<leftarrow> route_checks rest
               (shards[position := (shards ! position)\<lparr>bs_check_count := bs_check_count (shards ! position) + 1\<rparr>]);
             Some (shards', position # positions)
           }
         else None)"

definition BatchTopology_new ::
    "nat list \<Rightarrow> memory_store_config \<Rightarrow> (memory_batch_error, batch_topology) result option" where
  "BatchTopology_new shard_indexes config =
     (let shards = map (\<lambda>index. \<lparr>bs_index = index, bs_check_count = 0\<rparr>) shard_indexes;
          shards = sort_key bs_index shards;
          shards = remdups_adj shards
      in do {
           (shards, input_positions) \<leftarrow> route_checks shard_indexes shards;
           Some (case List.find (\<lambda>shard. bs_check_count shard > shard_capacity config (bs_index shard)) shards of
                   Some shard \<Rightarrow>
                     Err (BatchExceedsShardCapacity (bs_index shard) (bs_check_count shard)
                       (shard_capacity config (bs_index shard)))
                 | None \<Rightarrow> Ok \<lparr>bt_shards = shards, bt_input_positions = input_positions\<rparr>)
         })"

definition shard_position :: "batch_topology \<Rightarrow> nat \<Rightarrow> nat option" where
  "shard_position self input_index = get_opt (bt_input_positions self) input_index"

definition check_counts :: "batch_topology \<Rightarrow> nat list" where
  "check_counts self = map bs_check_count (bt_shards self)"

section \<open>The locked array of shards\<close>

record 'e shard_mutex =
  mx_poisoned :: bool
  mx_shard :: "'e shard"

type_synonym 'e bounded_shards = "'e shard_mutex list"
type_synonym 'e locked_shards = "(nat \<times> 'e shard) list"

definition BoundedShards_new :: "memory_store_config \<Rightarrow> 'e bounded_shards" where
  "BoundedShards_new config =
     map (\<lambda>index. \<lparr>mx_poisoned = False, mx_shard = Shard_new (shard_capacity config index)\<rparr>)
       [0..<shard_count config]"

definition poisoned_count :: "'e bounded_shards \<Rightarrow> nat" where
  "poisoned_count self = length (filter mx_poisoned self)"

text \<open>For an empty slice the code divides by zero; here every index is then out of range, which is the
  panic of \<open>lock_shard\<close>.\<close>

definition shard_index :: "'e bounded_shards \<Rightarrow> counter_key \<Rightarrow> nat" where
  "shard_index self key = unat (counter_key_hash key) mod length self"

definition lock_shard ::
    "'e bounded_shards \<Rightarrow> nat \<Rightarrow> (poisoned_shard_error, 'e shard) result option" where
  "lock_shard self index =
     (if index < length self then
        Some (if mx_poisoned (self ! index) then Err (PoisonedShardError index)
              else Ok (mx_shard (self ! index)))
      else None)"

fun lock_shards ::
    "'e bounded_shards \<Rightarrow> nat list \<Rightarrow> (poisoned_shard_error, 'e locked_shards) result option" where
  "lock_shards self [] = Some (Ok [])"
| "lock_shards self (index # indexes) =
     do {
       r \<leftarrow> lock_shard self index;
       case r of
         Err e \<Rightarrow> Some (Err e)
       | Ok shard \<Rightarrow>
           do {
             rs \<leftarrow> lock_shards self indexes;
             Some (and_then rs (\<lambda>locked. Ok ((index, shard) # locked)))
           }
     }"

definition lock_topology ::
    "'e bounded_shards \<Rightarrow> batch_topology \<Rightarrow> (poisoned_shard_error, 'e locked_shards) result option" where
  "lock_topology self topology = lock_shards self (map bs_index (bt_shards topology))"

text \<open>
  Dropping the guards publishes the shards they protected. A panic while guards are held poisons
  their mutexes instead; the contents of a poisoned shard are never read again (every lock fails and
  recovery replaces the shard), so the model leaves them as they were.
\<close>

definition release :: "'e locked_shards \<Rightarrow> 'e bounded_shards \<Rightarrow> 'e bounded_shards" where
  "release locked self = fold (\<lambda>(i, s) bs. bs[i := (bs ! i)\<lparr>mx_shard := s\<rparr>]) locked self"

definition poison :: "nat list \<Rightarrow> 'e bounded_shards \<Rightarrow> 'e bounded_shards" where
  "poison indexes self = fold (\<lambda>i bs. bs[i := (bs ! i)\<lparr>mx_poisoned := True\<rparr>]) indexes self"

record memory_store_stats =
  st_entries :: nat
  st_capacity :: nat
  st_shard_count :: nat

definition BoundedShards_stats ::
    "'e bounded_shards \<Rightarrow> memory_store_config \<Rightarrow> (poisoned_shard_error, memory_store_stats) result option" where
  "BoundedShards_stats self config =
     do {
       r \<leftarrow> lock_shards self [0..<length self];
       Some (and_then r (\<lambda>locked.
         Ok \<lparr>st_entries = sum_list (map (\<lambda>(_, shard). used shard) locked),
             st_capacity = max_keys config, st_shard_count = shard_count config\<rparr>))
     }"

definition BoundedShards_clear ::
    "'e bounded_shards \<Rightarrow> 'e bounded_shards \<times> (poisoned_shard_error, unit) result option" where
  "BoundedShards_clear self =
     (case lock_shards self [0..<length self] of
        None \<Rightarrow> (self, None)
      | Some (Err e) \<Rightarrow> (self, Some (Err e))
      | Some (Ok locked) \<Rightarrow>
          (release (map (\<lambda>(i, shard). (i, Shard_clear shard)) locked) self, Some (Ok ())))"

text \<open>Recovery takes every lock in index order, healthy or poisoned, then rebuilds the poisoned shards.\<close>

definition recover_shard :: "memory_store_config \<Rightarrow> nat \<Rightarrow> 'e shard_mutex \<Rightarrow> 'e shard_mutex" where
  "recover_shard config index shard_mutex =
     (if mx_poisoned shard_mutex
      then \<lparr>mx_poisoned = False, mx_shard = Shard_new (shard_capacity config index)\<rparr>
      else shard_mutex)"

definition recover_poisoned_shards ::
    "'e bounded_shards \<Rightarrow> memory_store_config \<Rightarrow> 'e bounded_shards \<times> nat" where
  "recover_poisoned_shards self config =
     (map (\<lambda>(index, shard_mutex). recover_shard config index shard_mutex) (enumerate 0 self),
      length (filter mx_poisoned self))"

section \<open>Effects\<close>

record cleanup_effect =
  ce_requested :: nat
  ce_removed :: nat
  ce_elapsed :: duration

record shard_effect =
  sf_shard_index :: nat
  sf_cleanup :: cleanup_effect
  sf_used :: nat
  sf_capacity :: nat

definition collect_shard_effects :: "'e locked_shards \<Rightarrow> cleanup_effect list \<Rightarrow> shard_effect list" where
  "collect_shard_effects locked_shards cleanup_effects =
     map (\<lambda>((index, shard), cleanup).
       \<lparr>sf_shard_index = index, sf_cleanup = cleanup, sf_used = used shard, sf_capacity = sh_capacity shard\<rparr>)
       (zip locked_shards cleanup_effects)"

definition usize_to_u64 :: "nat \<Rightarrow> nat" where
  "usize_to_u64 value = (case try_from 64 value of Some v \<Rightarrow> v | None \<Rightarrow> u64_MAX)"

section \<open>The interface of an expiring map\<close>

text \<open>
  What the stores rely on: a finite map from counter keys to a value and an expiry, in which inserting
  overwrites one key and pruning at an instant drops only keys that have expired by then.
\<close>

locale expiring_map =
  fixes inv :: "'s \<Rightarrow> bool"
    and lookup :: "'s \<Rightarrow> counter_key \<Rightarrow> ('e \<times> nat) option"
    and count :: "'s \<Rightarrow> nat"
    and put :: "counter_key \<Rightarrow> 'e \<Rightarrow> nat \<Rightarrow> 's \<Rightarrow> 's"
    and prune :: "nat \<Rightarrow> nat \<Rightarrow> 's \<Rightarrow> 's"
  assumes inv_put: "inv s \<Longrightarrow> inv (put k v e s)"
    and inv_prune: "inv s \<Longrightarrow> inv (prune now n s)"
    and lookup_put: "inv s \<Longrightarrow> lookup (put k v e s) = (lookup s)(k \<mapsto> (v, e))"
    and lookup_prune: "inv s \<Longrightarrow> lookup (prune now n s) k = lookup s k \<or>
      lookup (prune now n s) k = None \<and> (\<exists>v e. lookup s k = Some (v, e) \<and> e \<le> now)"
    and finite_lookup: "finite (dom (lookup s))"
    and count_lookup: "inv s \<Longrightarrow> count s = card (dom (lookup s))"
begin

text \<open>The entry that is still in force at an instant.\<close>

definition live :: "nat \<Rightarrow> 's \<Rightarrow> counter_key \<Rightarrow> ('e \<times> nat) option" where
  "live now s k = (case lookup s k of None \<Rightarrow> None | Some (v, e) \<Rightarrow> if now < e then Some (v, e) else None)"

lemma live_prune: "inv s \<Longrightarrow> now \<le> t \<Longrightarrow> live t (prune now n s) k = live t s k"
  using lookup_prune [of s now n k] by (auto simp: live_def)

lemma live_put: "inv s \<Longrightarrow> live t (put k v e s) = (live t s)(k := if t < e then Some (v, e) else None)"
  by (auto simp: live_def lookup_put)

lemma count_put: "inv s \<Longrightarrow> count (put k v e s) = (if lookup s k = None then Suc (count s) else count s)"
  using finite_lookup by (auto simp: count_lookup inv_put lookup_put insert_absorb domI domIff)

lemma count_prune: "inv s \<Longrightarrow> count (prune now n s) \<le> count s"
proof -
  assume inv: "inv s"
  have "dom (lookup (prune now n s)) \<subseteq> dom (lookup s)"
    using lookup_prune [OF inv, of now n] by (force simp: domIff)
  then show ?thesis using inv by (simp add: count_lookup inv_prune card_mono finite_lookup)
qed

lemma prune_keeps_live: "inv s \<Longrightarrow> lookup s k = Some (v, e) \<Longrightarrow> now < e \<Longrightarrow>
    lookup (prune now n s) k = Some (v, e)"
  using lookup_prune [of s now n k] by auto

end

section \<open>Shards implement the interface\<close>

definition shard_map :: "'e shard \<Rightarrow> counter_key \<Rightarrow> ('e \<times> nat) option" where
  "shard_map s k = map_option (\<lambda>x. (se_value x, se_expires_at_millis x)) (map_of (sh_entries s) k)"

text \<open>The two indexes of a shard agree.\<close>

definition index_ok :: "'e shard \<Rightarrow> bool" where
  "index_ok s \<longleftrightarrow> al_wf (sh_entries s) \<and> sorted (sh_expirations s) \<and> distinct (sh_expirations s) \<and>
     (\<forall>t k. Expiration t k \<in> set (sh_expirations s) \<longleftrightarrow> map_option snd (shard_map s k) = Some t)"

abbreviation shard_put :: "counter_key \<Rightarrow> 'e \<Rightarrow> nat \<Rightarrow> 'e shard \<Rightarrow> 'e shard" where
  "shard_put k v e s \<equiv> fst (replace k v e s)"

abbreviation shard_prune :: "nat \<Rightarrow> nat \<Rightarrow> 'e shard \<Rightarrow> 'e shard" where
  "shard_prune now n s \<equiv> fst (prune_expired now n s)"

lemma shard_map_Some:
  "shard_map s k = Some (v, e) \<longleftrightarrow>
     (\<exists>x. map_of (sh_entries s) k = Some x \<and> se_value x = v \<and> se_expires_at_millis x = e)"
  by (auto simp: shard_map_def)

lemma shard_map_None: "shard_map s k = None \<longleftrightarrow> map_of (sh_entries s) k = None"
  by (simp add: shard_map_def)

lemma shard_map_update:
  "shard_map (s\<lparr>sh_entries := AList.update k x (sh_entries s)\<rparr>) =
     (shard_map s)(k \<mapsto> (se_value x, se_expires_at_millis x))"
  by (auto simp: shard_map_def fun_eq_iff al_simps)

lemma shard_map_expirations [simp]: "shard_map (s\<lparr>sh_expirations := xs\<rparr>) = shard_map s"
  by (simp add: shard_map_def fun_eq_iff)

lemma shard_map_replace: "shard_map (shard_put k v e s) = (shard_map s)(k \<mapsto> (v, e))"
  by (auto simp: replace_def Let_def shard_map_update shard_map_def fun_eq_iff al_simps split: option.splits)

lemma replace_fields [simp]:
  "sh_capacity (shard_put k v e s) = sh_capacity s"
  "sh_latest_observed_millis (shard_put k v e s) = sh_latest_observed_millis s"
  by (simp_all add: replace_def Let_def split: option.split)

lemma replace_entries: "sh_entries (shard_put k v e s) =
    AList.update k \<lparr>se_value = v, se_expires_at_millis = e\<rparr> (sh_entries s)"
  by (simp add: replace_def Let_def split: option.split)

lemma replace_expirations: "sh_expirations (shard_put k v e s) =
    insort_insert (Expiration e k) (case shard_map s k of None \<Rightarrow> sh_expirations s
      | Some (_, t) \<Rightarrow> remove1 (Expiration t k) (sh_expirations s))"
  by (simp add: replace_def Let_def shard_map_def split: option.split)

lemma index_ok_replace [store_inv]:
  assumes ok: "index_ok s" shows "index_ok (shard_put k v e s)"
proof -
  let ?xs = "case shard_map s k of None \<Rightarrow> sh_expirations s
      | Some (_, t) \<Rightarrow> remove1 (Expiration t k) (sh_expirations s)"
  have s: "sorted ?xs" "distinct ?xs"
    using ok by (auto simp: index_ok_def sorted_remove1 split: option.splits)
  have mem: "Expiration t l \<in> set ?xs \<longleftrightarrow> l \<noteq> k \<and> map_option snd (shard_map s l) = Some t" for t l
    using ok by (cases "shard_map s k") (auto simp: index_ok_def)
  show ?thesis
    using ok s mem unfolding index_ok_def replace_entries replace_expirations shard_map_replace
    by (auto simp: sorted_insort_insert distinct_insort_insert set_insort_insert al_simps)
qed

lemma index_ok_mem:
  "index_ok s \<Longrightarrow> x \<in> set (sh_expirations s) \<longleftrightarrow> map_option snd (shard_map s (exp_key x)) = Some (exp_at x)"
  by (cases x) (simp add: index_ok_def)

lemma prune_expired_loop_spec:
  assumes "index_ok s" "prune_expired_loop now n r s = (s', r')"
  shows "index_ok s' \<and>
    (\<forall>k. shard_map s' k = shard_map s k \<or>
      shard_map s' k = None \<and> (\<exists>v e. shard_map s k = Some (v, e) \<and> e \<le> now)) \<and>
    used s' + r' = used s + r \<and> r' \<le> n + r \<and>
    (r' < n + r \<longrightarrow> (\<forall>k v e. shard_map s' k = Some (v, e) \<longrightarrow> now < e)) \<and>
    sh_capacity s' = sh_capacity s \<and> sh_latest_observed_millis s' = sh_latest_observed_millis s"
  using assms
proof (induction now n r s rule: prune_expired_loop.induct)
  case (1 now r s)
  then show ?case by simp
next
  case (2 now n r s)
  show ?case
  proof (cases "sh_expirations s")
    case Nil
    then have "shard_map s k = None" for k
      using "2.prems"(1) by (cases "shard_map s k") (auto simp: index_ok_def)
    with Nil "2.prems" show ?thesis by auto
  next
    case (Cons x xs)
    show ?thesis
    proof (cases "exp_at x > now")
      case True
      have "now < e" if "shard_map s k = Some (v, e)" for k v e
      proof -
        have "Expiration e k \<in> set (sh_expirations s)" using that "2.prems"(1) by (simp add: index_ok_def)
        moreover have "sorted (x # xs)" using Cons "2.prems"(1) by (simp add: index_ok_def)
        ultimately have "x \<le> Expiration e k" using Cons sorted_hd_le by metis
        then show ?thesis using True by (auto simp: less_eq_expiration_def)
      qed
      with True Cons "2.prems" show ?thesis by auto
    next
      case False
      let ?k = "exp_key x"
      let ?t = "s\<lparr>sh_expirations := xs, sh_entries := AList.delete ?k (sh_entries s)\<rparr>"
      have x: "map_option snd (shard_map s ?k) = Some (exp_at x)"
        using index_ok_mem [OF "2.prems"(1), of x] Cons by simp
      then obtain v where v: "shard_map s ?k = Some (v, exp_at x)" by auto
      have map: "shard_map ?t = (shard_map s)(?k := None)"
        by (auto simp: shard_map_def fun_eq_iff al_simps)
      have notin: "Expiration t ?k \<in> set xs \<longleftrightarrow> False" for t
      proof
        assume mem: "Expiration t ?k \<in> set xs"
        then have "map_option snd (shard_map s ?k) = Some t"
          using index_ok_mem [OF "2.prems"(1), of "Expiration t ?k"] Cons by simp
        with x mem have "x \<in> set xs" by simp
        with Cons "2.prems"(1) show False by (simp add: index_ok_def)
      qed simp
      have "index_ok ?t"
        using "2.prems"(1) Cons notin unfolding index_ok_def map
        by (auto simp: al_simps) (metis expiration.sel(2))+
      moreover have "map_of (sh_entries s) ?k \<noteq> None" using v by (auto simp: shard_map_def)
      moreover from this have "Suc (used ?t) = used s"
        using "2.prems"(1) by (simp add: used_def al_length_delete_Suc index_ok_def)
      ultimately show ?thesis
        using "2.IH" [OF Cons] False Cons "2.prems"(2) v
        by (auto simp: map) (metis fun_upd_apply linorder_not_less)+
    qed
  qed
qed

lemma prune_expired_spec:
  assumes "index_ok s"
  shows "index_ok (shard_prune now n s)"
    "shard_map (shard_prune now n s) k = shard_map s k \<or>
      shard_map (shard_prune now n s) k = None \<and> (\<exists>v e. shard_map s k = Some (v, e) \<and> e \<le> now)"
    "used (shard_prune now n s) + snd (prune_expired now n s) = used s"
    "snd (prune_expired now n s) \<le> n"
    "snd (prune_expired now n s) < n \<Longrightarrow> shard_map (shard_prune now n s) k = Some (v, e) \<Longrightarrow> now < e"
    "sh_capacity (shard_prune now n s) = sh_capacity s"
    "sh_latest_observed_millis (shard_prune now n s) = sh_latest_observed_millis s"
  using prune_expired_loop_spec [OF assms, of now n 0 "shard_prune now n s" "snd (prune_expired now n s)"]
  unfolding prune_expired_def by auto

lemma finite_shard_map: "finite (dom (shard_map s))"
proof -
  have "dom (shard_map s) = dom (map_of (sh_entries s))" by (auto simp: shard_map_def domIff)
  then show ?thesis by (simp add: finite_dom_map_of)
qed

lemma used_shard_map: "index_ok s \<Longrightarrow> used s = card (dom (shard_map s))"
proof -
  assume "index_ok s"
  then have "card (set (map fst (sh_entries s))) = used s"
    by (simp add: index_ok_def used_def distinct_card del: set_map)
  moreover have "dom (shard_map s) = dom (map_of (sh_entries s))" by (auto simp: shard_map_def domIff)
  then have "dom (shard_map s) = set (map fst (sh_entries s))" by (simp add: dom_map_of_conv_image_fst)
  ultimately show ?thesis by simp
qed

interpretation shard: expiring_map index_ok shard_map used shard_put shard_prune
  by unfold_locales
    (auto simp: index_ok_replace prune_expired_spec(1) shard_map_replace finite_shard_map used_shard_map
      dest: prune_expired_spec(2))

lemma active_entry_live: "active_entry s k now = shard.live now s k"
  by (simp add: active_entry_def shard.live_def shard_map_def split: option.split)

lemma contains_key_map: "contains_key s k \<longleftrightarrow> shard_map s k \<noteq> None"
  by (simp add: contains_key_def shard_map_def)

lemma record_observed_simps [simp]:
  "shard_map (record_observed_millis now s) = shard_map s"
  "index_ok (record_observed_millis now s) = index_ok s"
  "sh_capacity (record_observed_millis now s) = sh_capacity s"
  "sh_latest_observed_millis (record_observed_millis now s) = now"
  "used (record_observed_millis now s) = used s"
  "shard.live t (record_observed_millis now s) = shard.live t s"
proof -
  have map: "shard_map (record_observed_millis now s) = shard_map s"
    by (simp add: record_observed_millis_def shard_map_def fun_eq_iff)
  then show "shard_map (record_observed_millis now s) = shard_map s"
    "shard.live t (record_observed_millis now s) = shard.live t s"
    "index_ok (record_observed_millis now s) = index_ok s"
    by (simp_all add: shard.live_def fun_eq_iff index_ok_def) (simp add: record_observed_millis_def)
qed (simp_all add: record_observed_millis_def used_def)

lemma update_value_spec:
  assumes "shard_map s k = Some (v, e)"
  shows "snd (update_value k f s) = Some (snd (f v))"
    "shard_map (fst (update_value k f s)) = (shard_map s)(k \<mapsto> (fst (f v), e))"
    "index_ok s \<Longrightarrow> index_ok (fst (update_value k f s))"
    "used (fst (update_value k f s)) = used s"
    "sh_capacity (fst (update_value k f s)) = sh_capacity s"
    "sh_latest_observed_millis (fst (update_value k f s)) = sh_latest_observed_millis s"
proof -
  from assms obtain x where x: "map_of (sh_entries s) k = Some x" "se_value x = v"
    "se_expires_at_millis x = e" by (auto simp: shard_map_Some)
  show "snd (update_value k f s) = Some (snd (f v))"
    using x by (simp add: update_value_def split: prod.splits)
  show map: "shard_map (fst (update_value k f s)) = (shard_map s)(k \<mapsto> (fst (f v), e))"
    using x by (simp add: update_value_def shard_map_update split: prod.splits)
  show "used (fst (update_value k f s)) = used s" "sh_capacity (fst (update_value k f s)) = sh_capacity s"
    "sh_latest_observed_millis (fst (update_value k f s)) = sh_latest_observed_millis s"
    using x by (simp_all add: update_value_def used_def al_simps split: prod.splits)
  have fields: "sh_expirations (fst (update_value k f s)) = sh_expirations s"
    "al_wf (sh_entries s) \<Longrightarrow> al_wf (sh_entries (fst (update_value k f s)))"
    using x by (simp_all add: update_value_def al_simps split: prod.splits)
  show "index_ok (fst (update_value k f s))" if "index_ok s"
    using that fields assms unfolding index_ok_def map by auto
qed

section \<open>Storage-capacity denials\<close>

lemma capacity_retry_spec:
  assumes "index_ok s"
  shows "capacity_retry_after_millis s now = None \<Longrightarrow> shard_map s k = None"
    and "capacity_retry_after_millis s now = Some r \<Longrightarrow>
      \<exists>k v e. shard_map s k = Some (v, e) \<and> r = max (e - now) 1 \<and>
        (\<forall>k' v' e'. shard_map s k' = Some (v', e') \<longrightarrow> e \<le> e')"
proof -
  show "shard_map s k = None" if "capacity_retry_after_millis s now = None"
    using that assms by (cases "shard_map s k")
      (auto simp: capacity_retry_after_millis_def index_ok_def split: list.splits)
  assume r: "capacity_retry_after_millis s now = Some r"
  then obtain x xs where x: "sh_expirations s = x # xs" "r = max (exp_at x - now) 1"
    by (auto simp: capacity_retry_after_millis_def saturating_sub_def split: list.splits)
  obtain v where v: "shard_map s (exp_key x) = Some (v, exp_at x)"
    using index_ok_mem [OF assms, of x] x by auto
  have "exp_at x \<le> e'" if "shard_map s k' = Some (v', e')" for k' v' e'
  proof -
    have "Expiration e' k' \<in> set (x # xs)"
      using that index_ok_mem [OF assms, of "Expiration e' k'"] x by simp
    moreover have "sorted (x # xs)" using assms x by (simp add: index_ok_def)
    ultimately have "x \<le> Expiration e' k'" using sorted_hd_le by metis
    then show ?thesis by (auto simp: less_eq_expiration_def)
  qed
  with v x show "\<exists>k v e. shard_map s k = Some (v, e) \<and> r = max (e - now) 1 \<and>
        (\<forall>k' v' e'. shard_map s k' = Some (v', e') \<longrightarrow> e \<le> e')" by blast
qed

text \<open>All expiries lie within a bound of an instant.\<close>

definition expiries_within :: "nat \<Rightarrow> nat \<Rightarrow> 'e shard \<Rightarrow> bool" where
  "expiries_within B now s \<longleftrightarrow> (\<forall>k v e. shard_map s k = Some (v, e) \<longrightarrow> e \<le> now + B)"

lemma storage_capacity_denial_total:
  assumes "index_ok s" "expiries_within B now s" "B < 2 ^ 64"
  shows "\<exists>r. storage_capacity_denial s now = Some (StorageCapacity r)"
proof (cases "capacity_retry_after_millis s now")
  case None
  then show ?thesis by (simp add: storage_capacity_denial_def)
next
  case (Some r)
  then obtain k v e where e: "shard_map s k = Some (v, e)" "r = max (e - now) 1"
    using capacity_retry_spec(2) [OF assms(1)] by blast
  then have "e \<le> now + B" using assms(2) by (auto simp: expiries_within_def)
  with e(2) assms(3) have "r < 2 ^ 64" by simp
  with Some show ?thesis by (simp add: storage_capacity_denial_def try_from_def)
qed

lemma expiries_within_mono: "expiries_within B now s \<Longrightarrow> now \<le> now' \<Longrightarrow> expiries_within B now' s"
  by (fastforce simp: expiries_within_def)

lemma expiries_within_prune:
  "index_ok s \<Longrightarrow> expiries_within B now s \<Longrightarrow> expiries_within B now (shard_prune t n s)"
  unfolding expiries_within_def using prune_expired_spec(2) [of s t n] by (metis option.distinct(1))

lemma expiries_within_put:
  "expiries_within B now s \<Longrightarrow> e \<le> now + B \<Longrightarrow> expiries_within B now (shard_put k v e s)"
  by (auto simp: expiries_within_def shard_map_replace)

lemma expiries_within_record [simp]:
  "expiries_within B now (record_observed_millis t s) = expiries_within B now s"
  by (simp add: expiries_within_def)

end
