(* ===== verification/Shard_Routing.thy ===== *)
theory Shard_Routing
  imports Shards
begin

text \<open>
  Correctness of the batch topology and of the locking discipline of \<open>runlimit-memory/src/shards.rs\<close>:
  routing, per-shard counts, ascending lock order, publication of the locked shards, recovery.
\<close>

section \<open>Routing\<close>

lemma partition_point_sorted:
  assumes "sorted (map f xs)" "distinct (map f xs)" "i \<in> set (map f xs)"
  shows "partition_point (\<lambda>x. f x < (i :: nat)) xs < length xs \<and>
    f (xs ! partition_point (\<lambda>x. f x < i) xs) = i"
  using assms
proof (induction xs)
  case (Cons x xs)
  then show ?case
    by (cases "f x < i") (auto simp: partition_point_def)
qed simp

lemma route_checks_spec:
  assumes "sorted (map bs_index shards)" "distinct (map bs_index shards)"
    "set idxs \<subseteq> set (map bs_index shards)"
  shows "\<exists>shards' positions. route_checks idxs shards = Some (shards', positions) \<and>
    map bs_index shards' = map bs_index shards \<and>
    length positions = length idxs \<and>
    (\<forall>i < length idxs. positions ! i < length shards \<and> bs_index (shards ! (positions ! i)) = idxs ! i) \<and>
    (\<forall>j < length shards. bs_check_count (shards' ! j) =
       bs_check_count (shards ! j) + count_list idxs (bs_index (shards ! j)))"
  using assms
proof (induction idxs arbitrary: shards)
  case Nil
  then show ?case by simp
next
  case (Cons i idxs)
  define p where "p = partition_point (\<lambda>shard. bs_index shard < i) shards"
  have p: "p < length shards" "bs_index (shards ! p) = i"
    using partition_point_sorted [of bs_index shards i] Cons.prems unfolding p_def by auto
  define s where "s = shards[p := (shards ! p)\<lparr>bs_check_count := bs_check_count (shards ! p) + 1\<rparr>]"
  have idx: "map bs_index s = map bs_index shards"
    using p(1) by (auto simp: s_def map_update list_update_same_conv)
  then have len: "length s = length shards" by (metis length_map)
  have idx_nth: "bs_index (s ! j) = bs_index (shards ! j)" if "j < length shards" for j
    using that idx len by (metis nth_map)
  obtain s' ps where IH: "route_checks idxs s = Some (s', ps)" "map bs_index s' = map bs_index s"
    "length ps = length idxs"
    "\<forall>k < length idxs. ps ! k < length s \<and> bs_index (s ! (ps ! k)) = idxs ! k"
    "\<forall>j < length s. bs_check_count (s' ! j) = bs_check_count (s ! j) + count_list idxs (bs_index (s ! j))"
    using Cons.IH [of s] Cons.prems idx by auto
  have "route_checks (i # idxs) shards = Some (s', p # ps)"
    using p IH(1) by (simp add: p_def s_def)
  moreover have "(p # ps) ! k < length shards \<and> bs_index (shards ! ((p # ps) ! k)) = (i # idxs) ! k"
    if "k < length (i # idxs)" for k
    using that p IH(4) idx_nth len by (cases k) auto
  moreover have "bs_check_count (s' ! j) = bs_check_count (shards ! j) + count_list (i # idxs) (bs_index (shards ! j))"
    if j: "j < length shards" for j
  proof -
    have "bs_index (shards ! j) = i \<longleftrightarrow> j = p"
      using p j Cons.prems(2) by (metis length_map nth_eq_iff_index_eq nth_map)
    then show ?thesis using IH(5) j len idx_nth p by (auto simp: s_def nth_list_update)
  qed
  ultimately show ?case using idx IH(2,3) by auto
qed

lemma insort_key_map: "insort_key f (g x) (map g xs) = map g (insort_key (\<lambda>x. f (g x)) x xs)"
  by (induction xs) auto

lemma sort_key_map: "sort_key f (map g xs) = map g (sort_key (\<lambda>x. f (g x)) xs)"
  by (induction xs) (auto simp: insort_key_map)

lemma distinct_remdups_adj_sorted: "sorted xs \<Longrightarrow> distinct (remdups_adj (xs :: nat list))"
  by (induction xs rule: remdups_adj.induct) auto

definition initial_shards :: "nat list \<Rightarrow> batch_shard list" where
  "initial_shards xs =
     remdups_adj (sort_key bs_index (map (\<lambda>i. \<lparr>bs_index = i, bs_check_count = 0\<rparr>) xs))"

lemma initial_shards_map:
  "initial_shards xs = map (\<lambda>i. \<lparr>bs_index = i, bs_check_count = 0\<rparr>) (remdups_adj (sort xs))"
  by (simp add: initial_shards_def sort_key_map remdups_adj_map_injective inj_def)

lemma initial_shards_spec:
  "sorted (map bs_index (initial_shards xs))" "distinct (map bs_index (initial_shards xs))"
  "set (map bs_index (initial_shards xs)) = set xs"
  by (simp_all add: initial_shards_map comp_def sorted_remdups_adj distinct_remdups_adj_sorted)

lemma initial_shards_count: "s \<in> set (initial_shards xs) \<Longrightarrow> bs_check_count s = 0"
  by (auto simp: initial_shards_map)

text \<open>What a topology says about the shard indexes it was built from.\<close>

definition topology_ok :: "nat list \<Rightarrow> batch_topology \<Rightarrow> bool" where
  "topology_ok idxs t \<longleftrightarrow>
     sorted (map bs_index (bt_shards t)) \<and> distinct (map bs_index (bt_shards t)) \<and>
     set (map bs_index (bt_shards t)) = set idxs \<and>
     length (bt_input_positions t) = length idxs \<and>
     (\<forall>i < length idxs. bt_input_positions t ! i < length (bt_shards t) \<and>
        bs_index (bt_shards t ! (bt_input_positions t ! i)) = idxs ! i) \<and>
     (\<forall>s \<in> set (bt_shards t). bs_check_count s = count_list idxs (bs_index s))"

lemma topology_new_cases:
  obtains (ok) t where "BatchTopology_new idxs config = Some (Ok t)" "topology_ok idxs t"
      "\<forall>i. count_list idxs i \<le> shard_capacity config i"
  | (err) i where "BatchTopology_new idxs config =
        Some (Err (BatchExceedsShardCapacity i (count_list idxs i) (shard_capacity config i)))"
      "shard_capacity config i < count_list idxs i"
      "\<forall>j < i. count_list idxs j \<le> shard_capacity config j"
proof -
  obtain s ps where r: "route_checks idxs (initial_shards idxs) = Some (s, ps)"
    and idx: "map bs_index s = map bs_index (initial_shards idxs)"
    and len: "length ps = length idxs"
    and pos: "\<forall>i < length idxs. ps ! i < length (initial_shards idxs) \<and>
      bs_index (initial_shards idxs ! (ps ! i)) = idxs ! i"
    and cnt: "\<forall>j < length (initial_shards idxs). bs_check_count (s ! j) =
      bs_check_count (initial_shards idxs ! j) + count_list idxs (bs_index (initial_shards idxs ! j))"
    using route_checks_spec [of "initial_shards idxs" idxs] initial_shards_spec [of idxs] by auto
  have lens: "length s = length (initial_shards idxs)" using idx by (metis length_map)
  have nth: "bs_index (s ! j) = bs_index (initial_shards idxs ! j)" if "j < length s" for j
    using that idx lens by (metis nth_map)
  have count: "bs_check_count x = count_list idxs (bs_index x)" if "x \<in> set s" for x
    using that cnt lens nth initial_shards_count by (fastforce simp: in_set_conv_nth)
  let ?t = "\<lparr>bt_shards = s, bt_input_positions = ps\<rparr>"
  have sorted: "sorted (map bs_index s)" "distinct (map bs_index s)" "set (map bs_index s) = set idxs"
    using initial_shards_spec [of idxs] idx by simp_all
  have top: "topology_ok idxs ?t"
    using sorted len pos count lens nth by (auto simp: topology_ok_def)
  have new: "BatchTopology_new idxs config =
      Some (case List.find (\<lambda>x. bs_check_count x > shard_capacity config (bs_index x)) s of
        Some x \<Rightarrow> Err (BatchExceedsShardCapacity (bs_index x) (bs_check_count x)
          (shard_capacity config (bs_index x)))
      | None \<Rightarrow> Ok ?t)"
    using r by (simp add: BatchTopology_new_def Let_def initial_shards_def)
  show ?thesis
  proof (cases "List.find (\<lambda>x. bs_check_count x > shard_capacity config (bs_index x)) s")
    case None
    have "count_list idxs i \<le> shard_capacity config i" for i
    proof (cases "i \<in> set idxs")
      case True
      then have "i \<in> set (map bs_index s)" using sorted(3) by simp
      then obtain x where "x \<in> set s" "bs_index x = i" by auto
      with None count show ?thesis by (auto simp: find_None_iff linorder_not_less)
    qed (simp add: count_notin)
    with None new top ok show ?thesis by simp
  next
    case (Some x)
    then obtain j where j: "j < length s" "s ! j = x" "shard_capacity config (bs_index x) < bs_check_count x"
      "\<forall>l < j. \<not> shard_capacity config (bs_index (s ! l)) < bs_check_count (s ! l)"
      by (auto simp: find_Some_iff)
    have "count_list idxs i \<le> shard_capacity config i" if i: "i < bs_index x" for i
    proof (cases "i \<in> set idxs")
      case True
      then obtain l where l: "l < length s" "bs_index (s ! l) = i"
        using sorted(3) by (metis in_set_conv_nth length_map nth_map)
      have "l < j"
      proof (rule ccontr)
        assume "\<not> l < j"
        then have "map bs_index s ! j \<le> map bs_index s ! l"
          using sorted(1) l(1) by (intro sorted_nth_mono) auto
        then show False using l j i by simp
      qed
      with j(4) count l show ?thesis by (metis linorder_not_less nth_mem)
    qed (simp add: count_notin)
    moreover have "bs_check_count x = count_list idxs (bs_index x)" using count j by auto
    ultimately show ?thesis using err [of "bs_index x"] Some new j(3) by simp
  qed
qed

section \<open>Locking\<close>

lemma lock_shards_Some:
  assumes "\<forall>i \<in> set is. i < length bs"
  shows "lock_shards bs is =
    Some (case List.find (\<lambda>i. mx_poisoned (bs ! i)) is of
            Some i \<Rightarrow> Err (PoisonedShardError i)
          | None \<Rightarrow> Ok (map (\<lambda>i. (i, mx_shard (bs ! i))) is))"
  using assms by (induction "is") (auto simp: lock_shard_def split: option.splits)

lemma length_release [simp]: "length (release locked bs) = length bs"
  unfolding release_def by (induction locked arbitrary: bs) (auto simp: case_prod_beta)

lemma length_poison [simp]: "length (poison is bs) = length bs"
  unfolding poison_def by (induction "is" arbitrary: bs) auto

lemma release_nth:
  "distinct (map fst locked) \<Longrightarrow> j < length bs \<Longrightarrow>
   release locked bs ! j = (case map_of locked j of None \<Rightarrow> bs ! j | Some s \<Rightarrow> (bs ! j)\<lparr>mx_shard := s\<rparr>)"
proof (induction locked arbitrary: bs)
  case Nil
  then show ?case by (simp add: release_def)
next
  case (Cons p locked)
  obtain i s where p: "p = (i, s)" by fastforce
  have step: "release (p # locked) bs = release locked (bs[i := (bs ! i)\<lparr>mx_shard := s\<rparr>])"
    by (simp add: release_def p)
  have "map_of locked i = None" using Cons.prems p by (simp add: map_of_eq_None_iff)
  then show ?case using Cons p step by (auto simp: nth_list_update split: option.splits)
qed

lemma poison_nth: "j < length bs \<Longrightarrow> poison is bs ! j = (if j \<in> set is then (bs ! j)\<lparr>mx_poisoned := True\<rparr> else bs ! j)"
proof (induction "is" arbitrary: bs)
  case Nil
  then show ?case by (simp add: poison_def)
next
  case (Cons i "is")
  have "poison (i # is) bs = poison is (bs[i := (bs ! i)\<lparr>mx_poisoned := True\<rparr>])"
    by (simp add: poison_def)
  with Cons show ?case by (cases "i = j") (auto simp: nth_list_update)
qed

lemma shard_index_less: "bs \<noteq> [] \<Longrightarrow> shard_index bs k < length bs"
  by (simp add: shard_index_def)

lemma recover_nth:
  "j < length bs \<Longrightarrow> fst (recover_poisoned_shards bs config) ! j = recover_shard config j (bs ! j)"
  by (simp add: recover_poisoned_shards_def nth_enumerate_eq)

lemma length_recover [simp]: "length (fst (recover_poisoned_shards bs config)) = length bs"
  by (simp add: recover_poisoned_shards_def)

section \<open>Properties\<close>

text \<open>
  Expiry cleanup is bounded and never drops a live counter: it removes at most the requested
  number of entries and reports exactly how many, every entry in force at the cleanup instant or later
  is still in force with the same value, and if it stopped early then no expired entry is left.
\<close>

theorem prune_expired_sound:
  assumes "index_ok s" "prune_expired now n s = (s', r)"
  shows "index_ok s' \<and> r \<le> n \<and> used s' + r = used s \<and>
    (\<forall>k t. now \<le> t \<longrightarrow> active_entry s' k t = active_entry s k t) \<and>
    (r < n \<longrightarrow> (\<forall>k. contains_key s' k \<longrightarrow> active_entry s' k now \<noteq> None))"
proof -
  have s': "s' = shard_prune now n s" and r: "r = snd (prune_expired now n s)" using assms(2) by simp_all
  have "active_entry s' k now \<noteq> None" if less: "r < n" and key: "contains_key s' k" for k
  proof -
    obtain v e where e: "shard_map s' k = Some (v, e)" using key by (auto simp: contains_key_map)
    then have "now < e" using prune_expired_spec(5) [OF assms(1)] less s' r by blast
    with e show ?thesis by (simp add: active_entry_live shard.live_def)
  qed
  then show ?thesis
    using prune_expired_spec [OF assms(1), of now n] shard.live_prune [OF assms(1)] s' r
    by (simp add: active_entry_live)
qed

theorem prune_expired_sound_witness:
  "\<exists>k :: counter_key. used (fst (prune_expired 10 1 (fst (replace k () 10 (fst (replace k () 5 (Shard_new 2))))))) = 0"
proof -
  let ?k = "CounterKey (PolicyFingerprint []) (SubjectKey [])"
  let ?s = "fst (replace ?k () 10 (fst (replace ?k () 5 (Shard_new 2))))"
  have ok: "index_ok ?s"
    by (intro index_ok_replace) (simp add: index_ok_def Shard_new_def shard_map_def)
  have "prune_expired 10 1 ?s = (\<lparr>sh_capacity = 2, sh_latest_observed_millis = 0, sh_entries = [], sh_expirations = []\<rparr>, 1)"
    by (simp add: prune_expired_def replace_def Shard_new_def insort_insert_key_def)
  from prune_expired_sound [OF ok this] show ?thesis
    using \<open>prune_expired 10 1 ?s = _\<close> by (intro exI [of _ ?k]) (simp add: used_def)
qed

text \<open>
  The retry delay of a storage-capacity denial is honest: whenever the shard stores anything it is
  present and positive, and once it has elapsed a cleanup of at least one entry really frees a slot.
\<close>

theorem storage_capacity_retry_honest:
  assumes "index_ok s" "storage_capacity_denial s now = Some (StorageCapacity d)" "0 < used s" "0 < n"
  shows "\<exists>ms > 0. d = Some (Delay (from_millis ms)) \<and> used (fst (prune_expired (now + ms) n s)) < used s"
proof -
  have "dom (shard_map s) \<noteq> {}" using assms(1,3) by (auto simp: used_shard_map)
  then obtain k where k: "shard_map s k \<noteq> None" by blast
  then obtain ms where ms: "capacity_retry_after_millis s now = Some ms"
    using capacity_retry_spec(1) [OF assms(1)] by (cases "capacity_retry_after_millis s now") auto
  then have d: "d = Some (Delay (from_millis ms))"
    using assms(2) by (auto simp: storage_capacity_denial_def split: bind_splits)
  obtain k v e where e: "shard_map s k = Some (v, e)" "ms = max (e - now) 1"
    using capacity_retry_spec(2) [OF assms(1) ms] by blast
  then have late: "e \<le> now + ms" by auto
  let ?s = "shard_prune (now + ms) n s" and ?r = "snd (prune_expired (now + ms) n s)"
  have "0 < ?r"
  proof (rule ccontr)
    assume "\<not> 0 < ?r"
    then have r: "?r = 0" by simp
    then have "used ?s = used s" using prune_expired_spec(3) [OF assms(1), of "now + ms" n] by simp
    moreover have "dom (shard_map ?s) \<subseteq> dom (shard_map s)"
      using prune_expired_spec(2) [OF assms(1), of "now + ms" n] by (force simp: domIff)
    ultimately have "dom (shard_map ?s) = dom (shard_map s)"
      using assms(1) prune_expired_spec(1) [OF assms(1)] finite_shard_map
      by (intro card_subset_eq) (auto simp: used_shard_map)
    then have "k \<in> dom (shard_map ?s)" using e by auto
    then have "shard_map ?s k = Some (v, e)"
      using prune_expired_spec(2) [OF assms(1), of "now + ms" n k] e by auto
    then have "now + ms < e" using prune_expired_spec(5) [OF assms(1), of "now + ms" n] r assms(4) by simp
    then show False using late by simp
  qed
  then have "used ?s < used s" using prune_expired_spec(3) [OF assms(1), of "now + ms" n] by simp
  with d e(2) show ?thesis by (intro exI [of _ ms]) simp
qed

theorem storage_capacity_retry_honest_witness:
  "\<exists>k :: counter_key. used (fst (prune_expired 10 1 (fst (replace k () 10 (Shard_new 1))))) < 1"
proof -
  let ?k = "CounterKey (PolicyFingerprint []) (SubjectKey [])"
  let ?s = "fst (replace ?k () 10 (Shard_new 1))"
  have ok: "index_ok ?s"
    by (intro index_ok_replace) (simp add: index_ok_def Shard_new_def shard_map_def)
  have u: "used ?s = 1" by (simp add: used_def replace_def Shard_new_def)
  have "storage_capacity_denial ?s 7 = Some (StorageCapacity (Some (Delay (from_millis 3))))"
    by (simp add: storage_capacity_denial_def capacity_retry_after_millis_def replace_def Shard_new_def
        insort_insert_key_def saturating_sub_def try_from_def)
  from storage_capacity_retry_honest [OF ok this, of 1] u show ?thesis
    by (intro exI [of _ ?k]) simp
qed

text \<open>
  The batch topology is computed without panicking. It is accepted exactly when no shard is the
  target of more distinct keys than it can ever store; then its shards are in strictly ascending index
  order, which is the lock order, every input is routed to its own shard and every per-shard count is
  right. Otherwise the lowest offending shard is reported with its count and capacity.
\<close>

theorem batch_topology_correct:
  "(\<exists>t. BatchTopology_new idxs config = Some (Ok t) \<and> topology_ok idxs t \<and>
      (\<forall>i. count_list idxs i \<le> shard_capacity config i)) \<or>
   (\<exists>i. BatchTopology_new idxs config =
        Some (Err (BatchExceedsShardCapacity i (count_list idxs i) (shard_capacity config i))) \<and>
      shard_capacity config i < count_list idxs i \<and>
      (\<forall>j < i. count_list idxs j \<le> shard_capacity config j))"
  by (rule topology_new_cases [of idxs config]) blast+

theorem batch_topology_correct_witness:
  "\<exists>t. BatchTopology_new [1, 0, 1] \<lparr>max_keys = 5, shard_count = 2,
      max_expired_removals_per_check = 8, max_batch_size = 32\<rparr> = Some (Ok t) \<and> topology_ok [1, 0, 1] t"
proof -
  let ?c = "\<lparr>max_keys = 5, shard_count = 2, max_expired_removals_per_check = 8, max_batch_size = 32\<rparr>"
  have "\<not> (\<exists>i. shard_capacity ?c i < count_list [1, 0, 1] i)"
    by (auto simp: shard_capacity_def split: if_splits)
  with batch_topology_correct [of "[1, 0, 1]" ?c] show ?thesis by blast
qed

text \<open>
  Recovery rebuilds exactly the poisoned shards: each of them becomes an empty, unpoisoned shard of
  its configured capacity, healthy shards and their counters are untouched, the returned number is the
  number of shards that were poisoned, and afterwards no shard is poisoned.
\<close>

theorem recover_poisoned_exact:
  "snd (recover_poisoned_shards bs config) = poisoned_count bs \<and>
   length (fst (recover_poisoned_shards bs config)) = length bs \<and>
   poisoned_count (fst (recover_poisoned_shards bs config)) = 0 \<and>
   list_all2 (\<lambda>(i, old) new. if mx_poisoned old
       then new = \<lparr>mx_poisoned = False, mx_shard = Shard_new (shard_capacity config i)\<rparr>
       else new = old)
     (enumerate 0 bs) (fst (recover_poisoned_shards bs config))"
proof -
  have "\<not> mx_poisoned m" if "m \<in> set (fst (recover_poisoned_shards bs config))" for m
    using that by (auto simp: recover_poisoned_shards_def recover_shard_def split: if_splits)
  then have "poisoned_count (fst (recover_poisoned_shards bs config)) = 0"
    by (simp add: poisoned_count_def filter_empty_conv)
  moreover have "list_all2 (\<lambda>(i, old) new. if mx_poisoned old
       then new = \<lparr>mx_poisoned = False, mx_shard = Shard_new (shard_capacity config i)\<rparr>
       else new = old) (enumerate 0 bs) (fst (recover_poisoned_shards bs config))"
    by (simp add: list_all2_conv_all_nth recover_nth recover_shard_def nth_enumerate_eq)
  ultimately show ?thesis by (simp add: recover_poisoned_shards_def poisoned_count_def)
qed

end
