(* ===== verification/Memory_Store.thy ===== *)
theory Memory_Store
  imports Shard_Routing
begin

text \<open>
  \<open>runlimit-memory/src/store.rs\<close>: the sharded fixed-window store. An operation takes the store, the
  reading its clock gives while the locks are held (\<open>None\<close> when the clock implementation panics) and
  the measured cleanup times, and returns the new store and its result; the result \<open>None\<close> is a panic.
  Operations hold every lock they need from their first read to their last write, so each is one
  atomic step on the store.
\<close>

section \<open>One shard\<close>

record fw_entry = fe_used :: nat

record prepared_check =
  pc_input_index :: nat
  pc_counter_key :: counter_key
  pc_shard_position :: nat
  pc_limit :: capacity
  pc_window_millis :: nat
  pc_cost :: nat

definition PreparedCheck_new :: "nat \<Rightarrow> fixed_window_policy check \<Rightarrow> nat \<Rightarrow> prepared_check" where
  "PreparedCheck_new input_index check position =
     \<lparr>pc_input_index = input_index, pc_counter_key = chk_counter_key FixedWindowPolicy check,
      pc_shard_position = position, pc_limit = fwp_limit (chk_policy check),
      pc_window_millis = period_millis (fwp_window (chk_policy check)), pc_cost = chk_cost check\<rparr>"

definition remaining_quota :: "capacity \<Rightarrow> nat \<Rightarrow> nat" where
  "remaining_quota limit used_quota = saturating_sub (capacity_get limit) used_quota"

definition duration_from_millis :: "nat \<Rightarrow> duration option" where
  "duration_from_millis millis = do { ms \<leftarrow> try_from 64 millis; Some (from_millis ms) }"

definition build_allowance :: "capacity \<Rightarrow> nat \<Rightarrow> duration \<Rightarrow> allowance option" where
  "build_allowance limit available replenishes_after = expect (Allowance_new limit available replenishes_after)"

definition quota_denial_of ::
    "fw_entry shard \<Rightarrow> prepared_check \<Rightarrow> nat \<Rightarrow> quota_denial option option" where
  "quota_denial_of self check now_millis =
     (case active_entry self (pc_counter_key check) now_millis of
        None \<Rightarrow> Some None
      | Some (entry, expires_at_millis) \<Rightarrow>
          let remaining = remaining_quota (pc_limit check) (fe_used entry)
          in if pc_cost check > remaining then
               do {
                 retry_after \<leftarrow> duration_from_millis (saturating_sub expires_at_millis now_millis);
                 Some (Some (QuotaDenial_new (pc_limit check) retry_after))
               }
             else Some None)"

text \<open>The 128-bit addition \<open>now_millis + window_millis\<close> panics on overflow (in builds with overflow
  checks), so it is a checked addition here.\<close>

definition consume :: "fw_entry shard \<Rightarrow> prepared_check \<Rightarrow> nat \<Rightarrow> (fw_entry shard \<times> allowance) option" where
  "consume self check now_millis =
     do {
       expires_at_millis \<leftarrow> checked_add 128 now_millis (pc_window_millis check);
       case active_entry self (pc_counter_key check) now_millis of
         Some (entry, active_expires_at_millis) \<Rightarrow>
           do {
             let remaining = remaining_quota (pc_limit check) (fe_used entry);
             let (self, updated) = update_value (pc_counter_key check)
               (\<lambda>entry. (entry\<lparr>fe_used := saturating_add 64 (fe_used entry) (pc_cost check)\<rparr>, ())) self;
             _ \<leftarrow> updated;
             replenishes_after \<leftarrow> duration_from_millis (saturating_sub active_expires_at_millis now_millis);
             a \<leftarrow> build_allowance (pc_limit check) (saturating_sub remaining (pc_cost check)) replenishes_after;
             Some (self, a)
           }
       | None \<Rightarrow>
           do {
             let self = fst (replace (pc_counter_key check) \<lparr>fe_used = pc_cost check\<rparr> expires_at_millis self);
             replenishes_after \<leftarrow> duration_from_millis (saturating_sub expires_at_millis now_millis);
             a \<leftarrow> build_allowance (pc_limit check) (remaining_quota (pc_limit check) (pc_cost check)) replenishes_after;
             Some (self, a)
           }
     }"

section \<open>The store\<close>

record memory_store =
  ms_config :: memory_store_config
  ms_shards :: "fw_entry bounded_shards"

record ('t, 'f) evaluated =
  ev_value :: 't
  ev_effect :: 'f

text \<open>\<open>MemoryStoreBuilder::build\<close>.\<close>

definition MemoryStore_new :: "memory_store_config \<Rightarrow> memory_store" where
  "MemoryStore_new config = \<lparr>ms_config = config, ms_shards = BoundedShards_new config\<rparr>"

section \<open>Single checks\<close>

text \<open>The part of \<open>check_inner\<close> that runs while the shard is locked.\<close>

definition check_locked ::
    "memory_store_config \<Rightarrow> nat \<Rightarrow> fixed_window_policy check \<Rightarrow> nat \<Rightarrow> duration \<Rightarrow> fw_entry shard \<Rightarrow>
     (fw_entry shard \<times> (decision, shard_effect) evaluated) option" where
  "check_locked config index check observed_millis cleanup_elapsed shard =
     do {
       let counter_key = chk_counter_key FixedWindowPolicy check;
       let prepared = PreparedCheck_new 0 check 0;
       let now_millis = max observed_millis (sh_latest_observed_millis shard);
       let shard = record_observed_millis now_millis shard;
       let cleanup_requested = max_expired_removals_per_check config;
       let (shard, cleanup_removed) = prune_expired now_millis cleanup_requested shard;
       denial \<leftarrow> quota_denial_of shard prepared now_millis;
       (shard, decision) \<leftarrow>
         (case denial of
            Some denial \<Rightarrow>
              Some (shard, if fwp_quota_mode (chk_policy check) = Shadow then Decision_shadow_denied denial
                           else Decision_denied (QuotaExceeded denial))
          | None \<Rightarrow>
              if \<not> contains_key shard counter_key \<and> used shard \<ge> sh_capacity shard then
                do { d \<leftarrow> storage_capacity_denial shard now_millis; Some (shard, Decision_denied d) }
              else
                do { (shard, a) \<leftarrow> consume shard prepared now_millis; Some (shard, Decision_allowed a) });
       Some (shard,
         \<lparr>ev_value = decision,
          ev_effect = \<lparr>sf_shard_index = index,
            sf_cleanup = \<lparr>ce_requested = cleanup_requested, ce_removed = cleanup_removed,
              ce_elapsed = cleanup_elapsed\<rparr>,
            sf_used = used shard, sf_capacity = sh_capacity shard\<rparr>\<rparr>)
     }"

definition check_inner ::
    "memory_store \<Rightarrow> duration option \<Rightarrow> duration \<Rightarrow> fixed_window_policy check \<Rightarrow>
     memory_store \<times> (poisoned_shard_error, (decision, shard_effect) evaluated) result option" where
  "check_inner store clock cleanup_elapsed check =
     (let index = shard_index (ms_shards store) (chk_counter_key FixedWindowPolicy check) in
      case lock_shard (ms_shards store) index of
        None \<Rightarrow> (store, None)
      | Some (Err e) \<Rightarrow> (store, Some (Err e))
      | Some (Ok shard) \<Rightarrow>
          (case do { now \<leftarrow> clock; check_locked (ms_config store) index check (as_millis now) cleanup_elapsed shard } of
             None \<Rightarrow> (store\<lparr>ms_shards := poison [index] (ms_shards store)\<rparr>, None)
           | Some (shard, evaluation) \<Rightarrow>
               (store\<lparr>ms_shards := release [(index, shard)] (ms_shards store)\<rparr>, Some (Ok evaluation))))"

section \<open>Atomic batches\<close>

text \<open>The cleanup loop over the locked shards; \<open>timer\<close> gives the measured time per shard index.\<close>

fun cleanup_shards ::
    "memory_store_config \<Rightarrow> nat \<Rightarrow> (nat \<Rightarrow> duration) \<Rightarrow> 'e locked_shards \<Rightarrow> nat list \<Rightarrow>
     'e locked_shards \<times> cleanup_effect list" where
  "cleanup_shards config now_millis timer ((index, shard) # locked) (check_count # counts) =
     (let shard = record_observed_millis now_millis shard;
          cleanup_limit = saturating_mul 64 (max_expired_removals_per_check config) check_count;
          (shard, removed) = prune_expired now_millis cleanup_limit shard;
          (locked, effects) = cleanup_shards config now_millis timer locked counts
      in ((index, shard) # locked,
          \<lparr>ce_requested = cleanup_limit, ce_removed = removed, ce_elapsed = timer index\<rparr> # effects))"
| "cleanup_shards config now_millis timer locked counts = (locked, [])"

text \<open>The denial of one prepared check, in enforcing or shadow mode.\<close>

definition batch_quota_denial ::
    "fixed_window_policy check list \<Rightarrow> prepared_check \<Rightarrow> quota_denial \<Rightarrow> batch_decision option" where
  "batch_quota_denial checks check denial =
     do {
       input \<leftarrow> get_opt checks (pc_input_index check);
       expect (if fwp_quota_mode (chk_policy input) = Shadow
               then BatchDecision_shadow_denied (pc_input_index check) (length checks) denial
               else BatchDecision_denied (pc_input_index check) (length checks) (QuotaExceeded denial))
     }"

text \<open>The preflight loop: \<open>Some None\<close> when every check passes, \<open>Some (Some d)\<close> for the early return.\<close>

fun preflight ::
    "fixed_window_policy check list \<Rightarrow> fw_entry locked_shards \<Rightarrow> nat \<Rightarrow> nat list \<Rightarrow> prepared_check list \<Rightarrow>
     batch_decision option option" where
  "preflight checks locked now_millis pending [] = Some None"
| "preflight checks locked now_millis pending (check # rest) =
     do {
       (_, shard) \<leftarrow> get_opt locked (pc_shard_position check);
       denial \<leftarrow> quota_denial_of shard check now_millis;
       case denial of
         Some denial \<Rightarrow> do { value \<leftarrow> batch_quota_denial checks check denial; Some (Some value) }
       | None \<Rightarrow>
           if \<not> contains_key shard (pc_counter_key check) then
             do {
               insertions \<leftarrow> get_opt pending (pc_shard_position check);
               if used shard + insertions \<ge> sh_capacity shard then
                 do {
                   d \<leftarrow> storage_capacity_denial shard now_millis;
                   value \<leftarrow> expect (BatchDecision_denied (pc_input_index check) (length checks) d);
                   Some (Some value)
                 }
               else preflight checks locked now_millis
                      (pending[pc_shard_position check := insertions + 1]) rest
             }
           else preflight checks locked now_millis pending rest
     }"

text \<open>The consumption loop.\<close>

fun consume_all ::
    "fw_entry locked_shards \<Rightarrow> nat \<Rightarrow> prepared_check list \<Rightarrow> (fw_entry locked_shards \<times> allowance list) option" where
  "consume_all locked now_millis [] = Some (locked, [])"
| "consume_all locked now_millis (check # rest) =
     do {
       (index, shard) \<leftarrow> get_opt locked (pc_shard_position check);
       (shard, a) \<leftarrow> consume shard check now_millis;
       (locked, as) \<leftarrow> consume_all (locked[pc_shard_position check := (index, shard)]) now_millis rest;
       Some (locked, a # as)
     }"

fun prepare_checks ::
    "batch_topology \<Rightarrow> nat \<Rightarrow> fixed_window_policy check list \<Rightarrow> prepared_check list option" where
  "prepare_checks topology input_index [] = Some []"
| "prepare_checks topology input_index (check # checks) =
     do {
       position \<leftarrow> shard_position topology input_index;
       rest \<leftarrow> prepare_checks topology (Suc input_index) checks;
       Some (PreparedCheck_new input_index check position # rest)
     }"

text \<open>The part of \<open>check_all_inner\<close> that runs while the shards are locked.\<close>

definition check_all_locked ::
    "memory_store_config \<Rightarrow> fixed_window_policy check list \<Rightarrow> nat list \<Rightarrow> prepared_check list \<Rightarrow> nat \<Rightarrow>
     (nat \<Rightarrow> duration) \<Rightarrow> fw_entry locked_shards \<Rightarrow>
     (fw_entry locked_shards \<times> (batch_decision, shard_effect list) evaluated) option" where
  "check_all_locked config checks counts prepared observed_millis timer locked_shards =
     do {
       let now_millis = fold max (map (\<lambda>(_, shard). sh_latest_observed_millis shard) locked_shards) observed_millis;
       let (locked_shards, cleanup_effects) = cleanup_shards config now_millis timer locked_shards counts;
       denied \<leftarrow> preflight checks locked_shards now_millis (replicate (length locked_shards) 0) prepared;
       case denied of
         Some value \<Rightarrow>
           Some (locked_shards, \<lparr>ev_value = value, ev_effect = collect_shard_effects locked_shards cleanup_effects\<rparr>)
       | None \<Rightarrow>
           do {
             (locked_shards, allowances) \<leftarrow> consume_all locked_shards now_millis prepared;
             value \<leftarrow> expect (BatchDecision_allowed allowances);
             Some (locked_shards, \<lparr>ev_value = value, ev_effect = collect_shard_effects locked_shards cleanup_effects\<rparr>)
           }
     }"

definition check_all_inner ::
    "memory_store \<Rightarrow> duration option \<Rightarrow> (nat \<Rightarrow> duration) \<Rightarrow> fixed_window_policy check list \<Rightarrow>
     memory_store \<times> (memory_batch_error, (batch_decision, shard_effect list) evaluated) result option" where
  "check_all_inner store clock timer checks =
     (case validate_batch FixedWindowPolicy checks (max_batch_size (ms_config store)) of
        Err e \<Rightarrow> (store, Some (Err (InvalidBatch e)))
      | Ok _ \<Rightarrow>
          (case BatchTopology_new
                  (map (\<lambda>check. shard_index (ms_shards store) (chk_counter_key FixedWindowPolicy check)) checks)
                  (ms_config store) of
             None \<Rightarrow> (store, None)
           | Some (Err e) \<Rightarrow> (store, Some (Err e))
           | Some (Ok topology) \<Rightarrow>
               (case prepare_checks topology 0 checks of
                  None \<Rightarrow> (store, None)
                | Some prepared \<Rightarrow>
                    (case lock_topology (ms_shards store) topology of
                       None \<Rightarrow> (store, None)
                     | Some (Err e) \<Rightarrow> (store, Some (Err (PoisonedShard e)))
                     | Some (Ok locked) \<Rightarrow>
                         (case do { now \<leftarrow> clock;
                                    check_all_locked (ms_config store) checks (check_counts topology) prepared
                                      (as_millis now) timer locked } of
                            None \<Rightarrow> (store\<lparr>ms_shards := poison (map fst locked) (ms_shards store)\<rparr>, None)
                          | Some (locked, evaluation) \<Rightarrow>
                              (store\<lparr>ms_shards := release locked (ms_shards store)\<rparr>, Some (Ok evaluation)))))))"

section \<open>Observation and the public operations\<close>

definition observe_shard_effect :: "shard_effect \<Rightarrow> observation list" where
  "observe_shard_effect effect =
     [Obs_Cleanup \<lparr>co_requested = ce_requested (sf_cleanup effect),
        co_outcome = Confirmed (usize_to_u64 (ce_removed (sf_cleanup effect))),
        co_elapsed = ce_elapsed (sf_cleanup effect)\<rparr>,
      Obs_Capacity \<lparr>cap_used = usize_to_u64 (sf_used effect),
        cap_capacity = usize_to_u64 (sf_capacity effect), cap_shard_index = sf_shard_index effect\<rparr>]"

definition observe_shard_effects :: "shard_effect list \<Rightarrow> observation list" where
  "observe_shard_effects effects = concat (map observe_shard_effect effects)"

text \<open>\<open>MemoryStore::check\<close>: the evaluation, then the observations after the lock is released.\<close>

definition ms_check ::
    "(observation \<Rightarrow> 'o \<Rightarrow> 'o \<times> bool) option \<Rightarrow> 'o \<Rightarrow> memory_store \<Rightarrow> duration option \<Rightarrow> duration \<Rightarrow>
     duration \<Rightarrow> fixed_window_policy check \<Rightarrow>
     'o \<times> memory_store \<times> (poisoned_shard_error, decision) result option" where
  "ms_check observer ost store clock cleanup_elapsed elapsed check =
     (case check_inner store clock cleanup_elapsed check of
        (store', None) \<Rightarrow> (ost, store', None)
      | (store', Some (Ok evaluation)) \<Rightarrow>
          (notify observer (observe_shard_effect (ev_effect evaluation) @
             [Obs_Admission (from_check FixedWindowPolicy check (ev_value evaluation) elapsed)]) ost,
           store', Some (Ok (ev_value evaluation)))
      | (store', Some (Err e)) \<Rightarrow>
          (notify observer [Obs_Admission (failed_check FixedWindowPolicy check NotConsumed elapsed)] ost,
           store', Some (Err e)))"

definition ms_check_all ::
    "(observation \<Rightarrow> 'o \<Rightarrow> 'o \<times> bool) option \<Rightarrow> 'o \<Rightarrow> memory_store \<Rightarrow> duration option \<Rightarrow>
     (nat \<Rightarrow> duration) \<Rightarrow> duration \<Rightarrow> fixed_window_policy check list \<Rightarrow>
     'o \<times> memory_store \<times> (memory_batch_error, batch_decision) result option" where
  "ms_check_all observer ost store clock timer elapsed checks =
     (case check_all_inner store clock timer checks of
        (store', None) \<Rightarrow> (ost, store', None)
      | (store', Some (Ok evaluation)) \<Rightarrow>
          (notify observer (observe_shard_effects (ev_effect evaluation) @
             [Obs_Admission (from_batch FixedWindowPolicy checks (ev_value evaluation) elapsed)]) ost,
           store', Some (Ok (ev_value evaluation)))
      | (store', Some (Err e)) \<Rightarrow>
          (notify observer [Obs_Admission (failed_batch FixedWindowPolicy checks NotConsumed elapsed)] ost,
           store', Some (Err e)))"

definition ms_stats :: "memory_store \<Rightarrow> (poisoned_shard_error, memory_store_stats) result option" where
  "ms_stats store = BoundedShards_stats (ms_shards store) (ms_config store)"

definition ms_clear :: "memory_store \<Rightarrow> memory_store \<times> (poisoned_shard_error, unit) result option" where
  "ms_clear store =
     (let (shards, r) = BoundedShards_clear (ms_shards store) in (store\<lparr>ms_shards := shards\<rparr>, r))"

definition ms_recover_poisoned :: "memory_store \<Rightarrow> memory_store \<times> nat" where
  "ms_recover_poisoned store =
     (let (shards, n) = recover_poisoned_shards (ms_shards store) (ms_config store)
      in (store\<lparr>ms_shards := shards\<rparr>, n))"

end
