(* ===== verification/Fixed_Window.thy ===== *)
theory Fixed_Window
  imports Memory_Store
begin

text \<open>
  The fixed-window algorithm of one counter as an abstract transition, and the proof that the shard
  operations of \<open>Memory_Store\<close> implement it: no panic, the stated result, and the stated change of one
  counter only.
\<close>

section \<open>The abstract transition\<close>

text \<open>\<open>st\<close> is the entry of the counter that is in force at the instant of the check.\<close>

definition fw_exceeds :: "prepared_check \<Rightarrow> (fw_entry \<times> nat) option \<Rightarrow> bool" where
  "fw_exceeds pc st = (case st of None \<Rightarrow> False | Some (v, e) \<Rightarrow> capacity_get (pc_limit pc) < fe_used v + pc_cost pc)"

definition fw_next :: "prepared_check \<Rightarrow> nat \<Rightarrow> (fw_entry \<times> nat) option \<Rightarrow> fw_entry \<times> nat" where
  "fw_next pc now st =
     (case st of
        None \<Rightarrow> (\<lparr>fe_used = pc_cost pc\<rparr>, now + pc_window_millis pc)
      | Some (v, e) \<Rightarrow> (\<lparr>fe_used = fe_used v + pc_cost pc\<rparr>, e))"

definition fw_allowance :: "prepared_check \<Rightarrow> nat \<Rightarrow> (fw_entry \<times> nat) option \<Rightarrow> allowance" where
  "fw_allowance pc now st =
     Allowance (pc_limit pc) (capacity_get (pc_limit pc) - fe_used (fst (fw_next pc now st)))
       (Delay (from_millis (snd (fw_next pc now st) - now)))"

definition fw_denial :: "prepared_check \<Rightarrow> nat \<Rightarrow> (fw_entry \<times> nat) option \<Rightarrow> quota_denial" where
  "fw_denial pc now st = QuotaDenial_new (pc_limit pc) (from_millis (snd (the st) - now))"

definition prepared_ok :: "prepared_check \<Rightarrow> bool" where
  "prepared_ok pc \<longleftrightarrow> capacity_ok (pc_limit pc) \<and> 0 < pc_cost pc \<and> pc_cost pc \<le> capacity_get (pc_limit pc) \<and>
     0 < pc_window_millis pc \<and> pc_window_millis pc \<le> MAX_WINDOW_MILLIS"

definition fw_check_ok :: "fixed_window_policy check \<Rightarrow> bool" where
  "fw_check_ok c \<longleftrightarrow> capacity_ok (fwp_limit (chk_policy c)) \<and> period_ok (fwp_window (chk_policy c)) \<and>
     check_ok FixedWindowPolicy c"

lemma prepared_check_ok: "fw_check_ok c \<Longrightarrow> prepared_ok (PreparedCheck_new i c p)"
  by (auto simp: fw_check_ok_def prepared_ok_def PreparedCheck_new_def check_ok_def FixedWindowPolicy_def period_ok_def)

lemma prepared_simps [simp]:
  "pc_input_index (PreparedCheck_new i c p) = i"
  "pc_counter_key (PreparedCheck_new i c p) = chk_counter_key FixedWindowPolicy c"
  "pc_shard_position (PreparedCheck_new i c p) = p"
  "pc_cost (PreparedCheck_new i c p) = chk_cost c"
  "pc_limit (PreparedCheck_new i c p) = fwp_limit (chk_policy c)"
  "pc_window_millis (PreparedCheck_new i c p) = period_millis (fwp_window (chk_policy c))"
  by (simp_all add: PreparedCheck_new_def)

section \<open>The invariant of a shard\<close>

definition CLOCK_BOUND :: nat where "CLOCK_BOUND = 2 ^ 64 * 1000"

text \<open>Expiries are at most one maximal window after the last instant the shard has seen, which is a
  millisecond count of a \<open>Duration\<close>.\<close>

definition shard_ok :: "'e shard \<Rightarrow> bool" where
  "shard_ok s \<longleftrightarrow> index_ok s \<and> used s \<le> sh_capacity s \<and>
     expiries_within MAX_WINDOW_MILLIS (sh_latest_observed_millis s) s \<and>
     sh_latest_observed_millis s < CLOCK_BOUND"

text \<open>A shard that has been brought to the instant \<open>now\<close>.\<close>

definition shard_at :: "nat \<Rightarrow> 'e shard \<Rightarrow> bool" where
  "shard_at now s \<longleftrightarrow> shard_ok s \<and> sh_latest_observed_millis s = now"

lemma shard_ok_new [store_inv]: "shard_ok (Shard_new n)"
  by (simp add: shard_ok_def Shard_new_def index_ok_def shard_map_def used_def expiries_within_def CLOCK_BOUND_def)

lemma shard_ok_clear [store_inv]: "shard_ok s \<Longrightarrow> shard_ok (Shard_clear s)"
  by (simp add: shard_ok_def Shard_clear_def index_ok_def shard_map_def used_def expiries_within_def)

lemma shard_at_cleanup:
  assumes "shard_ok s" "sh_latest_observed_millis s \<le> now" "now < CLOCK_BOUND"
  shows "shard_at now (shard_prune now n (record_observed_millis now s))"
proof -
  let ?r = "record_observed_millis now s"
  have "index_ok ?r" "used ?r \<le> sh_capacity ?r" "expiries_within MAX_WINDOW_MILLIS now ?r"
    using assms expiries_within_mono [of MAX_WINDOW_MILLIS "sh_latest_observed_millis s" s now]
    by (auto simp: shard_ok_def)
  then show ?thesis
    using assms(3) prune_expired_spec [of ?r now n] expiries_within_prune [of ?r MAX_WINDOW_MILLIS now now n]
    by (simp add: shard_at_def shard_ok_def)
qed

lemma cleanup_live:
  "shard_ok s \<Longrightarrow> now \<le> t \<Longrightarrow>
     shard.live t (shard_prune now n (record_observed_millis now s)) k = shard.live t s k"
  by (simp add: shard.live_prune shard_ok_def)

lemma cleanup_capacity [simp]:
  "shard_ok s \<Longrightarrow> sh_capacity (shard_prune now n (record_observed_millis now s)) = sh_capacity s"
  by (simp add: prune_expired_spec(6) shard_ok_def)

lemma live_Some: "shard.live now s k = Some (v, e) \<longleftrightarrow> shard_map s k = Some (v, e) \<and> now < e"
  by (auto simp: shard.live_def split: option.splits)

lemma live_bound:
  assumes "shard_at now s" "shard.live now s k = Some (v, e)"
  shows "now < e" "e \<le> now + MAX_WINDOW_MILLIS" "e - now < 2 ^ 64"
proof -
  show "now < e" and le: "e \<le> now + MAX_WINDOW_MILLIS"
    using assms by (auto simp: shard_at_def shard_ok_def expiries_within_def live_Some)
  show "e - now < 2 ^ 64" using le by (simp add: MAX_WINDOW_MILLIS_value)
qed

section \<open>Evaluation and consumption on one shard\<close>

lemma quota_denial_of_spec:
  assumes "shard_at now s" "prepared_ok pc" "st = shard.live now s (pc_counter_key pc)"
  shows "quota_denial_of s pc now = Some (if fw_exceeds pc st then Some (fw_denial pc now st) else None)"
proof (cases st)
  case None
  with assms show ?thesis by (simp add: quota_denial_of_def active_entry_live fw_exceeds_def)
next
  case (Some x)
  obtain v e where x: "x = (v, e)" by fastforce
  with assms Some have "e - now < 2 ^ 64" using live_bound by metis
  then have "duration_from_millis (e - now) = Some (from_millis (e - now))"
    by (simp add: duration_from_millis_def try_from_def)
  moreover have "remaining_quota (pc_limit pc) (fe_used v) < pc_cost pc \<longleftrightarrow> fw_exceeds pc st"
    using assms(2) Some x by (auto simp: remaining_quota_def saturating_sub_def fw_exceeds_def prepared_ok_def)
  moreover have "active_entry s (pc_counter_key pc) now = Some (v, e)"
    using assms Some x by (simp add: active_entry_live)
  ultimately show ?thesis
    using Some x by (simp add: quota_denial_of_def fw_denial_def saturating_sub_def)
qed

text \<open>What consuming a check does to a shard.\<close>

definition fw_consumed :: "nat \<Rightarrow> prepared_check \<Rightarrow> fw_entry shard \<Rightarrow> fw_entry shard \<Rightarrow> bool" where
  "fw_consumed now pc s s' \<longleftrightarrow>
     index_ok s' \<and> expiries_within MAX_WINDOW_MILLIS now s' \<and>
     sh_capacity s' = sh_capacity s \<and> sh_latest_observed_millis s' = now \<and>
     used s' = (if contains_key s (pc_counter_key pc) then used s else Suc (used s)) \<and>
     shard_map s' = (shard_map s)(pc_counter_key pc \<mapsto> fw_next pc now (shard.live now s (pc_counter_key pc)))"

lemma build_allowance_Some: "n \<le> capacity_get c \<Longrightarrow> build_allowance c n d = Some (Allowance c n (Delay d))"
  by (simp add: build_allowance_def Allowance_new_def)

lemma consume_spec:
  assumes at: "index_ok s" "expiries_within MAX_WINDOW_MILLIS now s" "sh_latest_observed_millis s = now"
    "now < CLOCK_BOUND" and pc: "prepared_ok pc"
    and st: "st = shard.live now s (pc_counter_key pc)" and fits: "\<not> fw_exceeds pc st"
  shows "\<exists>s'. consume s pc now = Some (s', fw_allowance pc now st) \<and> fw_consumed now pc s s'"
proof -
  let ?k = "pc_counter_key pc" and ?L = "capacity_get (pc_limit pc)" and ?e = "now + pc_window_millis pc"
  have win: "pc_window_millis pc \<le> MAX_WINDOW_MILLIS" and cost: "0 < pc_cost pc" "pc_cost pc \<le> ?L" "?L < 2 ^ 63"
    using pc by (auto simp: prepared_ok_def capacity_ok_def MAX_LIMIT_value)
  then have "?e < 2 ^ 128" using at(4) by (simp add: CLOCK_BOUND_def MAX_WINDOW_MILLIS_value)
  then have add: "checked_add 128 now (pc_window_millis pc) = Some ?e" by simp
  show ?thesis
  proof (cases st)
    case None
    have "duration_from_millis (?e - now) = Some (from_millis (?e - now))"
      using win by (simp add: duration_from_millis_def try_from_def MAX_WINDOW_MILLIS_value)
    then have "consume s pc now = Some (shard_put ?k \<lparr>fe_used = pc_cost pc\<rparr> ?e s, fw_allowance pc now st)"
      using None st cost by (simp add: add consume_def active_entry_live fw_allowance_def fw_next_def
          remaining_quota_def saturating_sub_def build_allowance_Some)
    moreover have "fw_consumed now pc s (shard_put ?k \<lparr>fe_used = pc_cost pc\<rparr> ?e s)"
      using None st at win shard.count_put [OF at(1), of ?k "\<lparr>fe_used = pc_cost pc\<rparr>" ?e]
      by (simp add: fw_consumed_def index_ok_replace expiries_within_put shard_map_replace fw_next_def
          contains_key_map)
    ultimately show ?thesis by blast
  next
    case (Some x)
    obtain v e where x: "x = (v, e)" by fastforce
    let ?f = "\<lambda>entry :: fw_entry. (entry\<lparr>fe_used := saturating_add 64 (fe_used entry) (pc_cost pc)\<rparr>, ())"
    have map: "shard_map s ?k = Some (v, e)" and less: "now < e" using Some x st by (simp_all add: live_Some)
    have fit: "fe_used v + pc_cost pc \<le> ?L" using fits Some x by (simp add: fw_exceeds_def)
    have "e \<le> now + MAX_WINDOW_MILLIS" using at(2) map by (auto simp: expiries_within_def)
    then have dur: "duration_from_millis (e - now) = Some (from_millis (e - now))"
      by (simp add: duration_from_millis_def try_from_def MAX_WINDOW_MILLIS_value)
    have fst: "fst (?f v) = \<lparr>fe_used = fe_used v + pc_cost pc\<rparr>"
      using fit cost by (cases v) (simp add: saturating_add_def)
    obtain s' where upd: "update_value ?k ?f s = (s', Some ())"
      using update_value_spec(1) [OF map, of ?f] by (cases "update_value ?k ?f s") auto
    note u = update_value_spec [OF map, of ?f, unfolded upd fst_conv]
    have "consume s pc now = Some (s', fw_allowance pc now st)"
      using Some x st fit
      by (simp add: add upd dur consume_def active_entry_live fw_allowance_def fw_next_def
          remaining_quota_def saturating_sub_def build_allowance_Some)
    moreover have "fw_consumed now pc s s'"
      using u(2-6) fst at map Some x st
      by (auto simp: fw_consumed_def contains_key_map fw_next_def expiries_within_def)
    ultimately show ?thesis by blast
  qed
qed

lemma fw_consumed_at:
  assumes "shard_at now s" "fw_consumed now pc s s'"
    "contains_key s (pc_counter_key pc) \<or> used s < sh_capacity s"
  shows "shard_at now s'"
  using assms by (auto simp: shard_at_def shard_ok_def fw_consumed_def)

lemma fw_consumed_live:
  assumes "fw_consumed now pc s s'" "now \<le> t"
  shows "shard.live t s' = (shard.live t s)(pc_counter_key pc :=
    (let (v, e) = fw_next pc now (shard.live now s (pc_counter_key pc)) in if t < e then Some (v, e) else None))"
  using assms by (auto simp: fw_consumed_def shard.live_def fun_eq_iff split: prod.splits)

section \<open>A single check on its shard\<close>

definition fw_denied_decision :: "fixed_window_policy check \<Rightarrow> quota_denial \<Rightarrow> decision" where
  "fw_denied_decision c d =
     (if fwp_quota_mode (chk_policy c) = Shadow then Decision_shadow_denied d
      else Decision_denied (QuotaExceeded d))"

lemma check_locked_spec:
  fixes c obs s config
  defines "now \<equiv> max obs (sh_latest_observed_millis s)"
    and "pc \<equiv> PreparedCheck_new 0 c 0" and "k \<equiv> chk_counter_key FixedWindowPolicy c"
  defines "s1 \<equiv> shard_prune now (max_expired_removals_per_check config) (record_observed_millis now s)"
    and "st \<equiv> shard.live now s k"
  assumes s: "shard_ok s" and c: "fw_check_ok c" and obs: "obs < CLOCK_BOUND"
  shows "\<exists>s' ev. check_locked config i c obs el s = Some (s', ev) \<and> shard_at now s' \<and>
    sh_capacity s' = sh_capacity s \<and>
    (if fw_exceeds pc st then s' = s1 \<and> ev_value ev = fw_denied_decision c (fw_denial pc now st)
     else if \<not> contains_key s1 k \<and> sh_capacity s \<le> used s1
     then s' = s1 \<and> (\<exists>r. ev_value ev = Decision_denied (StorageCapacity r))
     else fw_consumed now pc s1 s' \<and> ev_value ev = Decision_allowed (fw_allowance pc now st))"
proof -
  have late: "now < CLOCK_BOUND" "sh_latest_observed_millis s \<le> now"
    using s obs by (auto simp: now_def shard_ok_def)
  have at: "shard_at now s1" unfolding s1_def using s late by (intro shard_at_cleanup) auto
  have st: "st = shard.live now s1 (pc_counter_key pc)"
    unfolding st_def s1_def pc_def k_def using s by (simp add: cleanup_live)
  have pc: "prepared_ok pc" unfolding pc_def using c by (rule prepared_check_ok)
  have cap: "sh_capacity s1 = sh_capacity s" unfolding s1_def using s by simp
  have pr: "prune_expired now (max_expired_removals_per_check config) (record_observed_millis now s) =
      (s1, snd (prune_expired now (max_expired_removals_per_check config) (record_observed_millis now s)))"
    by (simp add: s1_def)
  note q = quota_denial_of_spec [OF at pc st]
  consider (exceeds) "fw_exceeds pc st"
    | (full) "\<not> fw_exceeds pc st" "\<not> contains_key s1 k" "sh_capacity s \<le> used s1"
    | (fits) "\<not> fw_exceeds pc st" "contains_key s1 k \<or> used s1 < sh_capacity s"
    by fastforce
  then show ?thesis
  proof cases
    case exceeds
    then show ?thesis using at cap
      unfolding check_locked_def Let_def now_def [symmetric] pc_def [symmetric] k_def [symmetric]
      by (subst pr) (simp add: q fw_denied_decision_def)
  next
    case full
    have "expiries_within MAX_WINDOW_MILLIS now s1" "index_ok s1"
      using at by (auto simp: shard_at_def shard_ok_def)
    then obtain r where r: "storage_capacity_denial s1 now = Some (StorageCapacity r)"
      using storage_capacity_denial_total [of s1 MAX_WINDOW_MILLIS now] by (auto simp: MAX_WINDOW_MILLIS_value)
    show ?thesis using full at cap
      unfolding check_locked_def Let_def now_def [symmetric] pc_def [symmetric] k_def [symmetric]
      by (subst pr) (auto simp: q r)
  next
    case fits
    obtain s' where s': "consume s1 pc now = Some (s', fw_allowance pc now st)" "fw_consumed now pc s1 s'"
      using consume_spec [of s1 now pc st] at pc st fits(1) late(1) by (auto simp: shard_at_def shard_ok_def)
    have "pc_counter_key pc = k" by (simp add: pc_def k_def)
    then have "shard_at now s'" using fw_consumed_at [OF at s'(2)] fits cap by simp
    moreover have "sh_capacity s' = sh_capacity s" using s'(2) cap by (simp add: fw_consumed_def)
    ultimately show ?thesis using fits s' cap
      unfolding check_locked_def Let_def now_def [symmetric] pc_def [symmetric] k_def [symmetric]
      by (subst pr) (auto simp: q)
  qed
qed

section \<open>The invariant of the locked array\<close>

definition shards_ok :: "memory_store_config \<Rightarrow> 'e bounded_shards \<Rightarrow> bool" where
  "shards_ok config bs \<longleftrightarrow> config_ok config \<and> length bs = shard_count config \<and>
     (\<forall>i < length bs. \<not> mx_poisoned (bs ! i) \<longrightarrow>
        shard_ok (mx_shard (bs ! i)) \<and> sh_capacity (mx_shard (bs ! i)) = shard_capacity config i)"

text \<open>The entry of a counter in force at an instant, and the instant a check at \<open>obs\<close> is evaluated at.\<close>

definition bs_live :: "'e bounded_shards \<Rightarrow> nat \<Rightarrow> counter_key \<Rightarrow> ('e \<times> nat) option" where
  "bs_live bs t k = shard.live t (mx_shard (bs ! shard_index bs k)) k"

definition bs_latest :: "'e bounded_shards \<Rightarrow> nat \<Rightarrow> nat" where
  "bs_latest bs i = sh_latest_observed_millis (mx_shard (bs ! i))"

lemma shards_ok_new [store_inv]: "config_ok config \<Longrightarrow> shards_ok config (BoundedShards_new config)"
  by (simp add: shards_ok_def BoundedShards_new_def shard_ok_new) (simp add: Shard_new_def)

lemma shards_ok_poison [store_inv]: "shards_ok config bs \<Longrightarrow> shards_ok config (poison is bs)"
  by (auto simp: shards_ok_def poison_nth)

lemma shards_ok_recover [store_inv]:
  "shards_ok config bs \<Longrightarrow> shards_ok config (fst (recover_poisoned_shards bs config))"
  by (auto simp: shards_ok_def recover_nth recover_shard_def shard_ok_new) (simp add: Shard_new_def)

lemma shards_ok_nonempty: "shards_ok config bs \<Longrightarrow> bs \<noteq> []"
  by (auto simp: shards_ok_def config_ok_def)

lemma shards_ok_nth:
  "shards_ok config bs \<Longrightarrow> i < length bs \<Longrightarrow> \<not> mx_poisoned (bs ! i) \<Longrightarrow>
     shard_ok (mx_shard (bs ! i)) \<and> sh_capacity (mx_shard (bs ! i)) = shard_capacity config i"
  by (simp add: shards_ok_def)

lemma shards_ok_release [store_inv]:
  assumes "shards_ok config bs" "distinct (map fst locked)"
    and "\<forall>(i, s) \<in> set locked. shard_ok s \<and> sh_capacity s = shard_capacity config i"
  shows "shards_ok config (release locked bs)"
  using assms unfolding shards_ok_def
  by (fastforce simp: release_nth dest: map_of_SomeD split: option.splits)

lemma shard_index_release [simp]: "shard_index (release locked bs) k = shard_index bs k"
  by (simp add: shard_index_def)

lemma shards_ok_clear [store_inv]:
  assumes "shards_ok config bs"
  shows "shards_ok config (fst (BoundedShards_clear bs))"
proof -
  have lock: "lock_shards bs [0..<length bs] = Some (case List.find (\<lambda>i. mx_poisoned (bs ! i)) [0..<length bs] of
            Some i \<Rightarrow> Err (PoisonedShardError i)
          | None \<Rightarrow> Ok (map (\<lambda>i. (i, mx_shard (bs ! i))) [0..<length bs]))"
    by (rule lock_shards_Some) auto
  show ?thesis
  proof (cases "List.find (\<lambda>i. mx_poisoned (bs ! i)) [0..<length bs]")
    case None
    then have ok: "shard_ok (mx_shard (bs ! i)) \<and> sh_capacity (mx_shard (bs ! i)) = shard_capacity config i"
      if "i < length bs" for i using that assms by (auto simp: find_None_iff shards_ok_def)
    have "shards_ok config (release (map (\<lambda>i. (i, Shard_clear (mx_shard (bs ! i)))) [0..<length bs]) bs)"
      using assms ok by (intro shards_ok_release) (auto simp: comp_def shard_ok_clear, simp add: Shard_clear_def)
    then show ?thesis using None lock by (simp add: BoundedShards_clear_def comp_def)
  qed (use assms lock in \<open>simp add: BoundedShards_clear_def\<close>)
qed

text \<open>The number of stored counters never exceeds the configured maximum.\<close>

lemma total_used_bound:
  assumes "shards_ok config bs" "poisoned_count bs = 0"
  shows "(\<Sum>i < length bs. used (mx_shard (bs ! i))) \<le> max_keys config"
proof -
  have "used (mx_shard (bs ! i)) \<le> shard_capacity config i" if "i < length bs" for i
  proof -
    have "\<not> mx_poisoned (bs ! i)" using assms(2) that by (auto simp: poisoned_count_def filter_empty_conv)
    then show ?thesis using shards_ok_nth [OF assms(1) that] by (auto simp: shard_ok_def)
  qed
  then have "(\<Sum>i < length bs. used (mx_shard (bs ! i))) \<le> (\<Sum>i < length bs. shard_capacity config i)"
    by (intro sum_mono) auto
  also have "\<dots> = max_keys config"
    using assms(1) sum_shard_capacity [of config] by (auto simp: shards_ok_def config_ok_def)
  finally show ?thesis .
qed

end
