(* ===== verification/Batch_Room.thy ===== *)
theory Batch_Room
  imports Fixed_Window
begin

text \<open>
  Room for the new counters of a batch, shared by the two memory stores. The loops of a batch compare the
  entries of a shard after its cleanup, and the insertions counted so far, with its capacity; here this is
  shown to be a comparison of live counters. A cleanup removes as many expired entries as the batch may
  insert, so that what is left of them never costs a check its slot.
\<close>

section \<open>Stopping at the first failing check\<close>

lemma find_upt_first: "j < n \<Longrightarrow> P j \<Longrightarrow> \<forall>l < j. \<not> P l \<Longrightarrow> List.find P [0..<n] = Some j"
  by (auto simp: find_Some_iff)

lemma find_upt_none: "\<forall>l < n. \<not> P l \<Longrightarrow> List.find P [0..<n] = None"
  by (auto simp: find_None_iff)

text \<open>The input index a decision stops at.\<close>

definition stop_index :: "batch_decision \<Rightarrow> nat option" where
  "stop_index v =
     (case BatchDecision_view v of BV_Allowed _ \<Rightarrow> None | BV_Denied i _ _ \<Rightarrow> Some i | BV_ShadowDenied i _ _ \<Rightarrow> Some i)"

lemma stop_index_simps [simp]:
  "stop_index (BatchDecision (BO_Allowed as)) = None"
  "stop_index (BatchDecision (BO_Denied i n x)) = Some i"
  "stop_index (BatchDecision (BO_ShadowDenied i n q)) = Some i"
  by (simp_all add: stop_index_def BatchDecision_view_def)

section \<open>The cleanup loop\<close>

abbreviation (input) lk :: "'e locked_shards \<Rightarrow> nat \<Rightarrow> 'e shard" where "lk L p \<equiv> snd (L ! p)"

lemma cleanup_shards_spec:
  assumes "length counts = length L" "cleanup_shards config now timer L counts = (L', es)"
  shows "length L' = length L \<and> length es = length L \<and> map fst L' = map fst L \<and>
    (\<forall>p < length L. lk L' p = shard_prune now (saturating_mul 64 (max_expired_removals_per_check config) (counts ! p))
      (record_observed_millis now (lk L p)))"
  using assms
proof (induction config now timer L counts arbitrary: L' es rule: cleanup_shards.induct)
  case (1 config now timer i s L c cs)
  let ?pruned = "\<lambda>c s. shard_prune now (saturating_mul 64 (max_expired_removals_per_check config) c) (record_observed_millis now s)"
  obtain L1 es1 where r: "cleanup_shards config now timer L cs = (L1, es1)" by fastforce
  have IH: "length L1 = length L \<and> length es1 = length L \<and> map fst L1 = map fst L \<and>
      (\<forall>p < length L. lk L1 p = ?pruned (cs ! p) (lk L p))"
    using 1 r by (auto simp: prod_eq_iff)
  have L': "L' = (i, ?pruned c s) # L1" "length es = Suc (length es1)"
    using "1.prems"(2) r by (auto simp: Let_def split: prod.splits)
  have "lk L' p = ?pruned ((c # cs) ! p) (lk ((i, s) # L) p)" if "p < Suc (length L)" for p
    using that L' IH by (cases p) auto
  with IH L' show ?case by simp
qed auto

section \<open>Slots\<close>

text \<open>The position of each check's shard among the locked ones, and its counter; what the loops compare.\<close>

type_synonym slots = "(nat \<times> counter_key) list"

definition new_slots :: "'e locked_shards \<Rightarrow> nat \<Rightarrow> slots \<Rightarrow> nat" where
  "new_slots L p ps = length (filter (\<lambda>(q, k). q = p \<and> \<not> contains_key (lk L p) k) ps)"

definition crowded :: "'e locked_shards \<Rightarrow> nat list \<Rightarrow> slots \<Rightarrow> nat \<Rightarrow> bool" where
  "crowded L pending ps j \<longleftrightarrow>
     (let (p, k) = ps ! j in
      \<not> contains_key (lk L p) k \<and> sh_capacity (lk L p) \<le> used (lk L p) + pending ! p + new_slots L p (take j ps))"

lemma crowded_0: "crowded L pending ((p, k) # ps) 0 \<longleftrightarrow>
    \<not> contains_key (lk L p) k \<and> sh_capacity (lk L p) \<le> used (lk L p) + pending ! p"
  by (simp add: crowded_def new_slots_def)

lemma crowded_Suc:
  assumes "j < length ps" "\<forall>x \<in> set ps. fst x < n"
    and "\<And>q. q < n \<Longrightarrow> pending' ! q = pending ! q + (if p = q \<and> \<not> contains_key (lk L q) k then 1 else 0)"
  shows "crowded L pending ((p, k) # ps) (Suc j) \<longleftrightarrow> crowded L pending' ps j"
  using assms(3) [of "fst (ps ! j)"] assms(1,2) by (auto simp: crowded_def new_slots_def split: prod.splits)

text \<open>The check is the first that fails the test \<open>over\<close> of its quota or finds its shard full.\<close>

definition first_failing :: "(nat \<Rightarrow> bool) \<Rightarrow> 'e locked_shards \<Rightarrow> nat list \<Rightarrow> slots \<Rightarrow> nat \<Rightarrow> bool" where
  "first_failing over L pending ps j \<longleftrightarrow>
     (over j \<or> crowded L pending ps j) \<and> (\<forall>l < j. \<not> over l \<and> \<not> crowded L pending ps l)"

lemma first_failing_0: "over 0 \<or> crowded L pending ps 0 \<Longrightarrow> first_failing over L pending ps 0"
  by (simp add: first_failing_def)

lemma first_failing_Suc:
  assumes first: "first_failing over' L pending' ps j" and j: "j < length ps"
    and pass: "\<not> over 0" "\<not> crowded L pending (x # ps) 0" and over: "\<And>l. over (Suc l) \<longleftrightarrow> over' l"
    and step: "\<And>j. j < length ps \<Longrightarrow> crowded L pending (x # ps) (Suc j) \<longleftrightarrow> crowded L pending' ps j"
  shows "first_failing over L pending (x # ps) (Suc j)"
  unfolding first_failing_def
proof (intro conjI allI impI)
  show "over (Suc j) \<or> crowded L pending (x # ps) (Suc j)"
    using first over step [OF j] by (simp add: first_failing_def)
  fix l assume l: "l < Suc j"
  show "\<not> over l" using first over pass(1) l by (cases l) (simp_all add: first_failing_def)
  show "\<not> crowded L pending (x # ps) l"
  proof (cases l)
    case (Suc l')
    then show ?thesis using first step [of l'] j l by (simp add: first_failing_def)
  qed (simp add: pass(2))
qed

lemma first_failing_find:
  "first_failing over L pending ps j \<Longrightarrow> j < length ps \<Longrightarrow>
   List.find (\<lambda>j. over j \<or> crowded L pending ps j) [0..<length ps] = Some j"
  by (intro find_upt_first) (auto simp: first_failing_def)

text \<open>What it means: the counter is new and the live counters of its shard, with the new ones before it, fill the shard.\<close>

definition no_room :: "nat \<Rightarrow> 'e locked_shards \<Rightarrow> slots \<Rightarrow> nat \<Rightarrow> bool" where
  "no_room now L ps j \<longleftrightarrow>
     (let (p, k) = ps ! j in
      shard.live now (lk L p) k = None \<and>
      sh_capacity (lk L p) \<le> card {k. shard.live now (lk L p) k \<noteq> None} +
        length (filter (\<lambda>(q, k). q = p \<and> shard.live now (lk L p) k = None) (take j ps)))"

text \<open>After a cleanup of up to \<open>n\<close> entries either \<open>n\<close> entries are gone, or all that are left are live.\<close>

lemma cleanup_either:
  fixes s n now
  defines "s1 \<equiv> shard_prune now n (record_observed_millis now s)"
  assumes ok: "shard_ok s"
  shows "used s1 + n \<le> sh_capacity s \<or> (\<forall>k. shard_map s1 k = shard.live now s k)" "card {k. shard.live now s k \<noteq> None} \<le> used s1"
proof -
  let ?r = "record_observed_millis now s"
  have idx: "index_ok ?r" using ok by (simp add: shard_ok_def)
  have live: "shard.live now s1 k = shard.live now s k" for k using cleanup_live [OF ok, of now now] by (simp add: s1_def)
  show "used s1 + n \<le> sh_capacity s \<or> (\<forall>k. shard_map s1 k = shard.live now s k)"
  proof (cases "snd (prune_expired now n ?r) < n")
    case True
    have "shard_map s1 k = shard.live now s1 k" for k
      using prune_expired_spec(5) [OF idx True, of k] by (auto simp: shard.live_def s1_def split: option.splits)
    then show ?thesis using live by simp
  next
    case False
    have "used ?r \<le> sh_capacity s" using ok by (simp add: shard_ok_def)
    then show ?thesis using False prune_expired_spec(3,4) [OF idx, of now n] by (simp add: s1_def)
  qed
  have "{k. shard.live now s k \<noteq> None} \<subseteq> dom (shard_map s1)"
  proof
    fix k assume "k \<in> {k. shard.live now s k \<noteq> None}"
    then have "shard.live now s1 k \<noteq> None" unfolding live by simp
    then show "k \<in> dom (shard_map s1)" by (auto simp: shard.live_def split: option.splits)
  qed
  then show "card {k. shard.live now s k \<noteq> None} \<le> used s1"
    using used_shard_map [OF prune_expired_spec(1) [OF idx]] card_mono [OF finite_shard_map] by (metis s1_def)
qed

lemma filter_mono_length:
  assumes "\<And>x. P x \<Longrightarrow> Q x"
  shows "length (filter P xs) \<le> length (filter Q xs)"
  using assms by (induction xs) auto

lemma filter_count: "length (filter (\<lambda>x. fst x = a) xs) = count_list (map fst xs) a"
  by (induction xs) auto

lemma take_count:
  assumes "j < length ps"
  shows "length (filter (\<lambda>(q, k). q = fst (ps ! j) \<and> Q k) (take j ps)) < count_list (map fst ps) (fst (ps ! j))"
proof -
  let ?p = "fst (ps ! j)"
  have "length (filter (\<lambda>(q, k). q = ?p \<and> Q k) (take j ps)) \<le> length (filter (\<lambda>x. fst x = ?p) (take j ps))"
    by (rule filter_mono_length) auto
  also have "\<dots> < length (filter (\<lambda>x. fst x = ?p) (take j ps @ ps ! j # drop (Suc j) ps))" by simp
  also have "\<dots> = count_list (map fst ps) ?p"
    unfolding id_take_nth_drop [OF assms, symmetric] by (rule filter_count)
  finally show ?thesis .
qed

lemma crowded_no_room:
  assumes j: "j < length ps" and ok: "shard_ok (lk L (fst (ps ! j)))"
    and L1: "lk L1 (fst (ps ! j)) = shard_prune now n (record_observed_millis now (lk L (fst (ps ! j))))"
    and n: "count_list (map fst ps) (fst (ps ! j)) \<le> n" and pending: "pending ! fst (ps ! j) = 0"
  shows "crowded L1 pending ps j \<longleftrightarrow> no_room now L ps j"
proof -
  obtain p k where pk: "ps ! j = (p, k)" by fastforce
  let ?s = "lk L p" and ?s1 = "lk L1 p"
  have s1: "?s1 = shard_prune now n (record_observed_millis now ?s)" and ok': "shard_ok ?s" using L1 ok pk by simp_all
  have cap: "sh_capacity ?s1 = sh_capacity ?s" unfolding s1 by (rule cleanup_capacity [OF ok'])
  note either = cleanup_either [OF ok', of now n, folded s1]
  from either(1) show ?thesis
  proof
    assume "used ?s1 + n \<le> sh_capacity ?s"
    then have small: "used ?s1 + length (filter (\<lambda>(q, k). q = p \<and> Q k) (take j ps)) < sh_capacity ?s" for Q
      using take_count [OF j, of Q] n pk by simp
    have "\<not> crowded L1 pending ps j"
      using small [of "\<lambda>k. \<not> contains_key ?s1 k"] pk cap pending by (simp add: crowded_def new_slots_def)
    moreover have "\<not> no_room now L ps j"
      using small [of "\<lambda>k. shard.live now ?s k = None"] pk either(2) by (simp add: no_room_def)
    ultimately show ?thesis by simp
  next
    assume live: "\<forall>k. shard_map ?s1 k = shard.live now ?s k"
    then have "used ?s1 = card {k. shard.live now ?s k \<noteq> None}"
      using used_shard_map [of ?s1] ok' prune_expired_spec(1) [of "record_observed_millis now ?s" now n]
      by (simp add: s1 shard_ok_def dom_def)
    then show ?thesis using live pk cap pending by (simp add: crowded_def no_room_def new_slots_def contains_key_map del: not_None_eq)
  qed
qed

text \<open>The decision stops at the first check over its quota or without room, where the cleanup had a slot for each check.\<close>

definition stops_first :: "memory_store_config \<Rightarrow> nat \<Rightarrow> nat list \<Rightarrow> 'e locked_shards \<Rightarrow> (nat \<Rightarrow> bool) \<Rightarrow> slots \<Rightarrow>
    batch_decision \<Rightarrow> bool" where
  "stops_first config now counts L over ps v \<longleftrightarrow>
     ((\<forall>x \<in> set ps. count_list (map fst ps) (fst x) \<le>
        saturating_mul 64 (max_expired_removals_per_check config) (counts ! fst x)) \<longrightarrow>
      stop_index v = List.find (\<lambda>j. over j \<or> no_room now L ps j) [0..<length ps])"

lemma stops_firstI:
  assumes ps: "\<And>x. x \<in> set ps \<Longrightarrow> fst x < length L"
    and L: "\<And>p. p < length L \<Longrightarrow> shard_ok (lk L p)" "length L1 = length L"
    and pr: "\<And>p. p < length L \<Longrightarrow> lk L1 p =
      shard_prune now (saturating_mul 64 (max_expired_removals_per_check config) (counts ! p)) (record_observed_millis now (lk L p))"
    and v: "stop_index v = List.find (\<lambda>j. over j \<or> crowded L1 (replicate (length L1) 0) ps j) [0..<length ps]"
  shows "stops_first config now counts L over ps v"
  unfolding stops_first_def
proof (intro impI)
  assume cnt: "\<forall>x \<in> set ps. count_list (map fst ps) (fst x) \<le>
      saturating_mul 64 (max_expired_removals_per_check config) (counts ! fst x)"
  have "crowded L1 (replicate (length L1) 0) ps j \<longleftrightarrow> no_room now L ps j" if "j < length ps" for j
    using that ps [OF nth_mem [OF that]] bspec [OF cnt nth_mem [OF that]] L(1,2) pr
    by (intro crowded_no_room) simp_all
  then show "stop_index v = List.find (\<lambda>j. over j \<or> no_room now L ps j) [0..<length ps]"
    unfolding v by (intro find_cong) auto
qed

section \<open>Room in the store\<close>

text \<open>
  A check of a batch finds no room when its counter is not live and the live counters of its shard, together with
  the earlier checks of the batch that need a new counter there, reach the capacity of the shard.
\<close>

definition batch_no_room :: "memory_store_config \<Rightarrow> 'e bounded_shards \<Rightarrow> nat \<Rightarrow> counter_key list \<Rightarrow> nat \<Rightarrow> bool" where
  "batch_no_room config bs now keys j \<longleftrightarrow>
     (let i = shard_index bs (keys ! j) in
      bs_live bs now (keys ! j) = None \<and>
      shard_capacity config i \<le> card {k. shard.live now (mx_shard (bs ! i)) k \<noteq> None} +
        length (filter (\<lambda>k. shard_index bs k = i \<and> bs_live bs now k = None) (take j keys)))"

lemma no_room_batch:
  assumes L: "distinct (map fst L)"
    "\<And>p. p < length L \<Longrightarrow> lk L p = mx_shard (bs ! fst (L ! p)) \<and> sh_capacity (lk L p) = shard_capacity config (fst (L ! p))"
    and ps: "\<And>x. x \<in> set ps \<Longrightarrow> fst x < length L \<and> fst (L ! fst x) = shard_index bs (snd x)"
    and j: "j < length ps"
  shows "no_room now L ps j \<longleftrightarrow> batch_no_room config bs now (map snd ps) j"
proof -
  let ?p = "fst (ps ! j)" and ?k = "snd (ps ! j)"
  have p: "?p < length L" "fst (L ! ?p) = shard_index bs ?k" using ps [OF nth_mem [OF j]] by simp_all
  have lk_p: "lk L ?p = mx_shard (bs ! shard_index bs ?k)" "sh_capacity (lk L ?p) = shard_capacity config (shard_index bs ?k)"
    using L(2) [OF p(1)] p(2) by (metis, metis)
  have same: "q = ?p \<longleftrightarrow> shard_index bs k = shard_index bs ?k" if "(q, k) \<in> set ps" for q k
    using ps [OF that] p nth_eq_iff_index_eq [OF L(1), of q ?p] by (auto simp: nth_map)
  have "filter (\<lambda>(q, k). q = ?p \<and> shard.live now (lk L ?p) k = None) (take j ps) =
      filter (\<lambda>x. shard_index bs (snd x) = shard_index bs ?k \<and> bs_live bs now (snd x) = None) (take j ps)"
  proof (rule filter_cong [OF refl], clarsimp)
    fix q k assume "(q, k) \<in> set (take j ps)"
    then show "(q = ?p \<and> shard.live now (lk L ?p) k = None) =
        (shard_index bs k = shard_index bs ?k \<and> bs_live bs now k = None)"
      using same [of q k] in_set_takeD [of "(q, k)" j ps] by (auto simp: bs_live_def lk_p(1))
  qed
  then show ?thesis using j lk_p
    by (simp add: no_room_def batch_no_room_def case_prod_beta bs_live_def take_map filter_map comp_def Let_def del: not_None_eq)
qed

text \<open>The cleanup of a batch removes at least one expired entry for each of its checks.\<close>

lemma topology_counts:
  assumes t: "topology_ok idxs t" and j: "j < length idxs"
  shows "check_counts t ! (bt_input_positions t ! j) = count_list (bt_input_positions t) (bt_input_positions t ! j)"
proof -
  let ?ps = "bt_input_positions t" and ?f = "\<lambda>q. bs_index (bt_shards t ! q)"
  have len: "length ?ps = length idxs" and less: "\<And>i. i < length idxs \<Longrightarrow> ?ps ! i < length (bt_shards t)"
    using t by (simp_all add: topology_ok_def)
  have idxs: "idxs = map ?f ?ps" using t by (intro nth_equalityI) (simp_all add: topology_ok_def)
  have "inj_on ?f (set ?ps)"
  proof (rule inj_onI)
    fix x y assume xy: "x \<in> set ?ps" "y \<in> set ?ps" "?f x = ?f y"
    then have "x < length (bt_shards t)" "y < length (bt_shards t)" using less len by (auto simp: in_set_conv_nth)
    then show "x = y" using xy(3) t nth_eq_iff_index_eq [of "map bs_index (bt_shards t)" x y] by (simp add: topology_ok_def)
  qed
  moreover have "?ps ! j \<in> set ?ps" using j len by simp
  ultimately have "count_list idxs (?f (?ps ! j)) = count_list ?ps (?ps ! j)" by (subst idxs) (rule count_list_inj_map)
  then show ?thesis using t less [OF j] by (simp add: topology_ok_def check_counts_def)
qed

lemma prune_limit: "0 < m \<Longrightarrow> n \<le> l \<Longrightarrow> l < 2 ^ 64 \<Longrightarrow> n \<le> saturating_mul 64 m n"
  by (cases m) (simp_all add: saturating_mul_def)

end
