(* ===== verification/Memory_Store_Correct.thy ===== *)
theory Memory_Store_Correct
  imports Batch_Room
begin

text \<open>
  Correctness of the fixed-window memory store: single checks and atomic batches never panic, keep the
  invariant, and change exactly the counters they admit, as the abstract fixed-window transition says.
\<close>

section \<open>Full shards\<close>

text \<open>Because cleanup removes at least one expired entry, a shard that is full after cleanup is full of
  live entries.\<close>

lemma full_of_live:
  assumes ok: "shard_ok s" and now: "sh_latest_observed_millis s \<le> now" and n: "0 < n"
    and full: "sh_capacity s \<le> used (shard_prune now n (record_observed_millis now s))"
  shows "card {k. shard.live now s k \<noteq> None} = sh_capacity s"
proof -
  let ?r = "record_observed_millis now s"
  let ?s1 = "shard_prune now n ?r"
  have idx: "index_ok ?r" using ok by (simp add: shard_ok_def)
  have "used ?r \<le> sh_capacity s" using ok by (simp add: shard_ok_def)
  then have r: "snd (prune_expired now n ?r) = 0" and u: "used ?s1 = sh_capacity s"
    using prune_expired_spec(3) [OF idx, of now n] full by linarith+
  have live: "shard.live now s k = shard_map ?s1 k" for k
  proof -
    have "shard.live now ?s1 k = shard.live now s k" using cleanup_live [OF ok, of now now] by simp
    moreover have "shard.live now ?s1 k = shard_map ?s1 k"
    proof (cases "shard_map ?s1 k")
      case (Some x)
      then have "now < snd x" using prune_expired_spec(5) [OF idx, of now n k] r n by (cases x) simp
      with Some show ?thesis by (cases x) (simp add: shard.live_def)
    qed (simp add: shard.live_def)
    ultimately show ?thesis by simp
  qed
  have "{k. shard.live now s k \<noteq> None} = dom (shard_map ?s1)" by (simp add: live dom_def)
  then show ?thesis using used_shard_map [OF prune_expired_spec(1) [OF idx]] u by metis
qed

section \<open>Single checks\<close>

definition ms_ok :: "memory_store \<Rightarrow> bool" where
  "ms_ok store \<longleftrightarrow> shards_ok (ms_config store) (ms_shards store)"

text \<open>The map of live counters after one check was consumed at \<open>now\<close>.\<close>

definition fw_apply :: "nat \<Rightarrow> prepared_check \<Rightarrow> (fw_entry \<times> nat) option \<Rightarrow> nat \<Rightarrow> (fw_entry \<times> nat) option" where
  "fw_apply now pc st t = (let (v, e) = fw_next pc now st in if t < e then Some (v, e) else None)"

lemma as_millis_clock: "d \<le> duration_MAX \<Longrightarrow> as_millis d < CLOCK_BOUND"
  using as_millis_bound by (simp add: CLOCK_BOUND_def)

lemma bs_live_release1:
  assumes "i < length bs" "\<And>k. shard.live t s' k = f k (shard.live t (mx_shard (bs ! i)) k)"
    and "\<And>k. shard_index bs k \<noteq> i \<Longrightarrow> f k = (\<lambda>x. x)" "bs \<noteq> []"
  shows "bs_live (release [(i, s')] bs) t k = f k (bs_live bs t k)"
  using assms shard_index_less [of bs k]
  by (cases "shard_index bs k = i") (simp_all add: bs_live_def release_nth)

lemma check_inner_spec:
  fixes store c d el
  defines "bs \<equiv> ms_shards store" and "k \<equiv> chk_counter_key FixedWindowPolicy c"
  defines "i \<equiv> shard_index bs k"
  defines "now \<equiv> max (as_millis d) (bs_latest bs i)" and "pc \<equiv> PreparedCheck_new 0 c 0"
  defines "st \<equiv> bs_live bs now k"
  assumes ok: "ms_ok store" and c: "fw_check_ok c" and d: "d \<le> duration_MAX"
    and healthy: "\<not> mx_poisoned (bs ! i)"
  shows "\<exists>store' ev. check_inner store (Some d) el c = (store', Some (Ok ev)) \<and> ms_ok store' \<and>
    ms_config store' = ms_config store \<and> length (ms_shards store') = length bs \<and>
    bs_latest (ms_shards store') i = now \<and>
    (\<forall>j < length bs. j \<noteq> i \<longrightarrow> ms_shards store' ! j = bs ! j) \<and>
    mx_poisoned (ms_shards store' ! i) = False \<and>
    (if fw_exceeds pc st then
       ev_value ev = fw_denied_decision c (fw_denial pc now st) \<and>
       (\<forall>t \<ge> now. bs_live (ms_shards store') t = bs_live bs t)
     else (\<exists>r. ev_value ev = Decision_denied (StorageCapacity r)) \<and>
         (\<forall>t \<ge> now. bs_live (ms_shards store') t = bs_live bs t) \<and>
         st = None \<and> card {k'. shard.live now (mx_shard (bs ! i)) k' \<noteq> None} = shard_capacity (ms_config store) i
       \<or> ev_value ev = Decision_allowed (fw_allowance pc now st) \<and>
         (\<forall>t \<ge> now. bs_live (ms_shards store') t = (bs_live bs t)(k := fw_apply now pc st t)))"
proof -
  let ?s = "mx_shard (bs ! i)"
  let ?n = "max_expired_removals_per_check (ms_config store)"
  let ?s1 = "shard_prune now ?n (record_observed_millis now ?s)"
  have bs: "shards_ok (ms_config store) bs" using ok by (simp add: ms_ok_def bs_def)
  note ne = shards_ok_nonempty [OF bs]
  have i: "i < length bs" using shard_index_less [OF ne] by (simp add: i_def)
  have s: "shard_ok ?s" "sh_capacity ?s = shard_capacity (ms_config store) i"
    using shards_ok_nth [OF bs i healthy] by auto
  have lock: "lock_shard bs i = Some (Ok ?s)" using i healthy by (simp add: lock_shard_def)
  have st: "st = shard.live now ?s k" by (simp add: st_def bs_live_def i_def)
  have n: "0 < ?n" using bs by (simp add: shards_ok_def config_ok_def)
  have latest: "bs_latest bs i = sh_latest_observed_millis ?s" by (simp add: bs_latest_def)
  obtain s' ev where s': "check_locked (ms_config store) i c (as_millis d) el ?s = Some (s', ev)"
    "shard_at now s'" "sh_capacity s' = sh_capacity ?s"
    and cases: "if fw_exceeds pc st then s' = ?s1 \<and> ev_value ev = fw_denied_decision c (fw_denial pc now st)
     else if \<not> contains_key ?s1 k \<and> sh_capacity ?s \<le> used ?s1
     then s' = ?s1 \<and> (\<exists>r. ev_value ev = Decision_denied (StorageCapacity r))
     else fw_consumed now pc ?s1 s' \<and> ev_value ev = Decision_allowed (fw_allowance pc now st)"
    using check_locked_spec [OF s(1) c as_millis_clock [OF d], of "ms_config store" i el]
    unfolding now_def latest pc_def k_def st [unfolded now_def latest k_def] by metis
  let ?store' = "store\<lparr>ms_shards := release [(i, s')] bs\<rparr>"
  have inner: "check_inner store (Some d) el c = (?store', Some (Ok ev))"
    using lock s'(1) by (simp add: check_inner_def bs_def k_def i_def)
  have ok': "ms_ok ?store'"
    using bs s'(2,3) s(2) by (auto simp: ms_ok_def shard_at_def intro!: shards_ok_release)
  have live1: "shard.live t ?s1 = shard.live t ?s" if "now \<le> t" for t
    using cleanup_live [OF s(1) that] by blast
  have same: "bs_live (ms_shards ?store') t = bs_live bs t" if "s' = ?s1" "now \<le> t" for t
  proof
    fix k'
    show "bs_live (ms_shards ?store') t k' = bs_live bs t k'"
      using bs_live_release1 [of i bs t s' "\<lambda>_ x. x" k'] i ne live1 [OF that(2)] that(1) by simp
  qed
  have misc: "ms_config ?store' = ms_config store" "length (ms_shards ?store') = length bs"
    "bs_latest (ms_shards ?store') i = now" "\<forall>j < length bs. j \<noteq> i \<longrightarrow> ms_shards ?store' ! j = bs ! j"
    "mx_poisoned (ms_shards ?store' ! i) = False"
    using i s'(2) healthy by (simp_all add: bs_latest_def release_nth shard_at_def)
  consider (exceeds) "fw_exceeds pc st"
    | (full) "\<not> fw_exceeds pc st" "\<not> contains_key ?s1 k" "sh_capacity ?s \<le> used ?s1"
    | (fits) "\<not> fw_exceeds pc st" "contains_key ?s1 k \<or> used ?s1 < sh_capacity ?s"
    by fastforce
  then show ?thesis
  proof cases
    case exceeds
    then show ?thesis using inner ok' misc cases same by (intro exI [of _ ?store'] exI [of _ ev]) simp
  next
    case full
    have "card {k'. shard.live now ?s k' \<noteq> None} = sh_capacity ?s"
      using full_of_live [OF s(1) _ n full(3)] by (simp add: now_def latest)
    moreover have "st = None"
    proof -
      have "shard_map ?s1 k = None" using full(2) unfolding contains_key_map by blast
      then have "shard.live now ?s1 k = None" by (simp add: shard.live_def)
      then show ?thesis using live1 [of now] by (simp add: st)
    qed
    ultimately show ?thesis using full inner ok' misc cases same s(2)
      by (intro exI [of _ ?store'] exI [of _ ev]) simp
  next
    case fits
    then have cons: "fw_consumed now pc ?s1 s'" and ev: "ev_value ev = Decision_allowed (fw_allowance pc now st)"
      using cases by auto
    have key: "pc_counter_key pc = k" by (simp add: pc_def k_def)
    have "bs_live (ms_shards ?store') t = (bs_live bs t)(k := fw_apply now pc st t)" if "now \<le> t" for t
    proof
      fix k'
      have "shard.live t s' = (shard.live t ?s)(k := fw_apply now pc st t)"
        using fw_consumed_live [OF cons that] live1 [OF that] live1 [of now] key
        by (simp add: fw_apply_def st)
      then have live': "shard.live t s' k'' = (if k'' = k then fw_apply now pc st t else shard.live t ?s k'')" for k''
        by simp
      have "bs_live (release [(i, s')] bs) t k' = (if k' = k then fw_apply now pc st t else bs_live bs t k')"
        by (rule bs_live_release1 [where f = "\<lambda>k' x. if k' = k then fw_apply now pc st t else x"])
          (use i ne live' in \<open>auto simp: i_def\<close>)
      then show "bs_live (ms_shards ?store') t k' = ((bs_live bs t)(k := fw_apply now pc st t)) k'"
        by simp
    qed
    then show ?thesis using fits ev inner ok' misc by (intro exI [of _ ?store'] exI [of _ ev]) simp
  qed
qed

lemma check_inner_poisoned:
  assumes "ms_ok store" "mx_poisoned (ms_shards store ! shard_index (ms_shards store) (chk_counter_key FixedWindowPolicy c))"
  shows "check_inner store clock el c =
    (store, Some (Err (PoisonedShardError (shard_index (ms_shards store) (chk_counter_key FixedWindowPolicy c)))))"
  using assms shard_index_less [OF shards_ok_nonempty, of "ms_config store" "ms_shards store"]
  by (simp add: check_inner_def ms_ok_def lock_shard_def)

section \<open>The loops of a batch\<close>

text \<open>The live entry of a prepared check among the locked shards.\<close>

definition lk_live :: "nat \<Rightarrow> fw_entry locked_shards \<Rightarrow> prepared_check \<Rightarrow> (fw_entry \<times> nat) option" where
  "lk_live now L pc = shard.live now (lk L (pc_shard_position pc)) (pc_counter_key pc)"

definition is_new :: "'e locked_shards \<Rightarrow> nat \<Rightarrow> prepared_check \<Rightarrow> bool" where
  "is_new L p pc \<longleftrightarrow> pc_shard_position pc = p \<and> \<not> contains_key (lk L p) (pc_counter_key pc)"

abbreviation (input) slot :: "prepared_check \<Rightarrow> nat \<times> counter_key" where
  "slot pc \<equiv> (pc_shard_position pc, pc_counter_key pc)"

text \<open>The decision for the check at which the preflight stops.\<close>

definition preflight_stop :: "fixed_window_policy check list \<Rightarrow> nat \<Rightarrow> fw_entry locked_shards \<Rightarrow> prepared_check \<Rightarrow> batch_decision \<Rightarrow> bool" where
  "preflight_stop checks now L pc v \<longleftrightarrow>
     fw_exceeds pc (lk_live now L pc) \<and>
       v = BatchDecision (if fwp_quota_mode (chk_policy (checks ! pc_input_index pc)) = Shadow
             then BO_ShadowDenied (pc_input_index pc) (length checks) (fw_denial pc now (lk_live now L pc))
             else BO_Denied (pc_input_index pc) (length checks) (QuotaExceeded (fw_denial pc now (lk_live now L pc)))) \<or>
     \<not> fw_exceeds pc (lk_live now L pc) \<and>
       (\<exists>r. v = BatchDecision (BO_Denied (pc_input_index pc) (length checks) (StorageCapacity r)))"

lemma batch_quota_denial_Some:
  assumes "pc_input_index pc < length checks"
  shows "batch_quota_denial checks pc d = Some (BatchDecision
    (if fwp_quota_mode (chk_policy (checks ! pc_input_index pc)) = Shadow
     then BO_ShadowDenied (pc_input_index pc) (length checks) d
     else BO_Denied (pc_input_index pc) (length checks) (QuotaExceeded d)))"
  using assms by (auto simp: batch_quota_denial_def get_opt_def BatchDecision_shadow_denied_def
      BatchDecision_denied_def validate_batch_index_def)

text \<open>The checks of a batch that are over their quota, by their position.\<close>

abbreviation (input) overs :: "nat \<Rightarrow> fw_entry locked_shards \<Rightarrow> prepared_check list \<Rightarrow> nat \<Rightarrow> bool" where
  "overs now L prep j \<equiv> fw_exceeds (prep ! j) (lk_live now L (prep ! j))"

lemma preflight_stop_index: "preflight_stop checks now L pc v \<Longrightarrow> stop_index v = Some (pc_input_index pc)"
  by (auto simp: preflight_stop_def)

lemma preflight_spec:
  assumes "\<forall>pc \<in> set prep. pc_shard_position pc < length L \<and> prepared_ok pc \<and> pc_input_index pc < length checks"
    and "\<forall>p < length L. shard_at now (lk L p)" "length pending = length L"
    and "\<forall>p < length L. used (lk L p) + pending ! p \<le> sh_capacity (lk L p)"
  shows "preflight checks L now pending prep = Some None \<and>
      (\<forall>pc \<in> set prep. \<not> fw_exceeds pc (lk_live now L pc)) \<and>
      (\<forall>p < length L. used (lk L p) + pending ! p + length (filter (is_new L p) prep) \<le> sh_capacity (lk L p)) \<and>
      (\<forall>j < length prep. \<not> crowded L pending (map slot prep) j) \<or>
    (\<exists>j v. j < length prep \<and> preflight checks L now pending prep = Some (Some v) \<and>
      preflight_stop checks now L (prep ! j) v \<and> first_failing (overs now L prep) L pending (map slot prep) j)"
  using assms
proof (induction prep arbitrary: pending)
  case Nil
  then show ?case by simp
next
  case (Cons pc prep)
  let ?p = "pc_shard_position pc"
  obtain ix s where Lp: "L ! ?p = (ix, s)" by fastforce
  have p: "?p < length L" "prepared_ok pc" "pc_input_index pc < length checks" using Cons.prems by auto
  have get: "get_opt L ?p = Some (ix, s)" using p Lp by (simp add: get_opt_def)
  have at: "shard_at now s" using Cons.prems(2) p(1) Lp by force
  have q: "quota_denial_of s pc now =
      Some (if fw_exceeds pc (lk_live now L pc) then Some (fw_denial pc now (lk_live now L pc)) else None)"
    using at p by (intro quota_denial_of_spec) (auto simp: lk_live_def Lp)
  have crowded0: "crowded L pending (map slot (pc # prep)) 0 \<longleftrightarrow>
      \<not> contains_key s (pc_counter_key pc) \<and> sh_capacity s \<le> used s + pending ! ?p"
    by (simp add: crowded_0 Lp)
  have stop: "?case" if "preflight checks L now pending (pc # prep) = Some (Some v)" "preflight_stop checks now L pc v"
    "fw_exceeds pc (lk_live now L pc) \<or> crowded L pending (map slot (pc # prep)) 0" for v
    using that by (intro disjI2 exI [of _ 0] exI [of _ v]) (simp add: first_failing_0)
  have continue: ?case
    if pass: "\<not> fw_exceeds pc (lk_live now L pc)" "\<not> crowded L pending (map slot (pc # prep)) 0"
      and step: "preflight checks L now pending (pc # prep) = preflight checks L now pending' prep"
      and len: "length pending' = length L"
      and room: "\<forall>p < length L. used (lk L p) + pending' ! p \<le> sh_capacity (lk L p)"
      and count: "\<And>q. q < length L \<Longrightarrow> pending' ! q = pending ! q + (if is_new L q pc then 1 else 0)" for pending'
  proof -
    have Suc: "crowded L pending (map slot (pc # prep)) (Suc j) \<longleftrightarrow> crowded L pending' (map slot prep) j" if "j < length prep" for j
      using crowded_Suc [of j "map slot prep" "length L" pending' pending ?p L "pc_counter_key pc"] that Cons.prems(1) count
      by (auto simp: is_new_def)
    from Cons.IH [of pending'] Cons.prems len room
    consider "preflight checks L now pending' prep = Some None"
        "\<forall>pc \<in> set prep. \<not> fw_exceeds pc (lk_live now L pc)"
        "\<forall>p < length L. used (lk L p) + pending' ! p + length (filter (is_new L p) prep) \<le> sh_capacity (lk L p)"
        "\<forall>j < length prep. \<not> crowded L pending' (map slot prep) j"
      | j v where "j < length prep" "preflight checks L now pending' prep = Some (Some v)"
        "preflight_stop checks now L (prep ! j) v" "first_failing (overs now L prep) L pending' (map slot prep) j"
      by auto
    then show ?thesis
    proof cases
      case 1
      have "used (lk L p) + pending ! p + length (filter (is_new L p) (pc # prep)) \<le> sh_capacity (lk L p)"
        if "p < length L" for p
        using 1(3) count [OF that] that by auto
      moreover have "\<not> crowded L pending (map slot (pc # prep)) j" if "j < length (pc # prep)" for j
        using that pass(2) 1(4) Suc by (cases j) simp_all
      ultimately show ?thesis using 1(1,2) step pass(1) by simp
    next
      case 2
      have "first_failing (overs now L (pc # prep)) L pending (slot pc # map slot prep) (Suc j)"
        using pass Suc 2(1) by (intro first_failing_Suc [OF 2(4)]) simp_all
      then show ?thesis using step 2(1-3) by (intro disjI2 exI [of _ "Suc j"] exI [of _ v]) simp
    qed
  qed
  show ?case
  proof (cases "fw_exceeds pc (lk_live now L pc)")
    case True
    then show ?thesis using get q batch_quota_denial_Some [OF p(3)] by (intro stop) (auto simp: preflight_stop_def)
  next
    case False
    note pass = this
    show ?thesis
    proof (cases "contains_key s (pc_counter_key pc)")
      case True
      with pass show ?thesis using Cons.prems get q crowded0
        by (intro continue [OF pass, of pending]) (auto simp: is_new_def Lp)
    next
      case new: False
      show ?thesis
      proof (cases "sh_capacity s \<le> used s + pending ! ?p")
        case True
        obtain r where "storage_capacity_denial s now = Some (StorageCapacity r)"
          using storage_capacity_denial_total [of s MAX_WINDOW_MILLIS now] at
          by (auto simp: shard_at_def shard_ok_def MAX_WINDOW_MILLIS_value)
        then have "preflight checks L now pending (pc # prep) =
            Some (Some (BatchDecision (BO_Denied (pc_input_index pc) (length checks) (StorageCapacity r))))"
          using True new pass get q p Cons.prems(3)
          by (auto simp: get_opt_def BatchDecision_denied_def validate_batch_index_def)
        then show ?thesis using pass True new crowded0 by (intro stop) (auto simp: preflight_stop_def)
      next
        case False
        let ?pending = "pending[?p := pending ! ?p + 1]"
        have "preflight checks L now pending (pc # prep) = preflight checks L now ?pending prep"
          using False new pass get q p(1) Cons.prems(3) by (simp add: get_opt_def)
        then show ?thesis
          using False new p(1) Cons.prems(3,4) crowded0
          by (intro continue [OF pass, of ?pending]) (auto simp: nth_list_update is_new_def Lp)
      qed
    qed
  qed
qed

text \<open>A locked shard that is ready for consumption at \<open>now\<close>.\<close>

definition ready :: "nat \<Rightarrow> 'e shard \<Rightarrow> bool" where
  "ready now s \<longleftrightarrow> index_ok s \<and> expiries_within MAX_WINDOW_MILLIS now s \<and> sh_latest_observed_millis s = now"

lemma shard_at_ready: "shard_at now s \<longleftrightarrow> ready now s \<and> used s \<le> sh_capacity s \<and> now < CLOCK_BOUND"
  by (auto simp: shard_at_def shard_ok_def ready_def)

text \<open>The check of a batch that concerns a given position and key.\<close>

definition batch_find :: "prepared_check list \<Rightarrow> nat \<Rightarrow> counter_key \<Rightarrow> prepared_check option" where
  "batch_find prep p k = List.find (\<lambda>pc. pc_shard_position pc = p \<and> pc_counter_key pc = k) prep"

lemma batch_find_simps:
  "batch_find [] p k = None"
  "batch_find (pc # prep) p k =
     (if pc_shard_position pc = p \<and> pc_counter_key pc = k then Some pc else batch_find prep p k)"
  by (simp_all add: batch_find_def)

lemma batch_find_notin: "k \<notin> pc_counter_key ` set prep \<Longrightarrow> batch_find prep p k = None"
  by (auto simp: batch_find_def find_None_iff)

lemma consume_all_spec:
  assumes "\<forall>pc \<in> set prep. pc_shard_position pc < length L \<and> prepared_ok pc \<and> \<not> fw_exceeds pc (lk_live now L pc)"
    and "\<forall>p < length L. ready now (lk L p)" "distinct (map pc_counter_key prep)" "now < CLOCK_BOUND"
  shows "\<exists>L'. consume_all L now prep = Some (L', map (\<lambda>pc. fw_allowance pc now (lk_live now L pc)) prep) \<and>
    map fst L' = map fst L \<and>
    (\<forall>p < length L. ready now (lk L' p) \<and> sh_capacity (lk L' p) = sh_capacity (lk L p) \<and>
       used (lk L' p) = used (lk L p) + length (filter (is_new L p) prep) \<and>
       (\<forall>k. shard_map (lk L' p) k = (case batch_find prep p k of None \<Rightarrow> shard_map (lk L p) k
          | Some pc \<Rightarrow> Some (fw_next pc now (shard.live now (lk L p) k)))))"
  using assms
proof (induction prep arbitrary: L)
  case Nil
  then show ?case by (simp add: batch_find_simps)
next
  case (Cons pc prep)
  let ?p = "pc_shard_position pc" and ?k = "pc_counter_key pc" and ?st = "lk_live now L pc"
  obtain ix s where Lp: "L ! ?p = (ix, s)" by fastforce
  have p: "?p < length L" using Cons.prems by simp
  have "ready now s" using Cons.prems(2) p Lp by force
  then obtain s' where s': "consume s pc now = Some (s', fw_allowance pc now ?st)" "fw_consumed now pc s s'"
    using consume_spec [of s now pc ?st] Cons.prems by (auto simp: ready_def lk_live_def Lp)
  let ?L = "L[?p := (ix, s')]"
  have lk: "lk ?L q = (if q = ?p then s' else lk L q)" if "q < length L" for q
    using that p by (simp add: nth_list_update)
  have map': "shard_map s' = (shard_map s)(?k \<mapsto> fw_next pc now (shard.live now s ?k))"
    and fields: "ready now s'" "sh_capacity s' = sh_capacity s"
      "used s' = (if contains_key s ?k then used s else Suc (used s))"
    using s'(2) by (auto simp: fw_consumed_def ready_def)
  have other: "shard_map (lk ?L q) k = shard_map (lk L q) k" if "q < length L" "k \<noteq> ?k" for q k
    using that map' Lp p by (auto simp: nth_list_update)
  then have live: "shard.live now (lk ?L q) k = shard.live now (lk L q) k" if "q < length L" "k \<noteq> ?k" for q k
    using that by (simp add: shard.live_def)
  have keys: "pc_counter_key pc' \<noteq> ?k" if "pc' \<in> set prep" for pc' using that Cons.prems(3) by (metis distinct.simps(2) image_eqI list.set_map list.simps(9))
  have pos: "pc_shard_position pc' < length L" if "pc' \<in> set prep" for pc' using that Cons.prems(1) by simp
  have lk_live: "lk_live now ?L pc' = lk_live now L pc'" if "pc' \<in> set prep" for pc'
    using live [OF pos keys] that by (simp add: lk_live_def)
  have new: "filter (is_new ?L q) prep = filter (is_new L q) prep" if "q < length L" for q
    using other [OF that] keys by (intro filter_cong) (auto simp: is_new_def contains_key_map)
  have prems: "\<forall>pc \<in> set prep. pc_shard_position pc < length ?L \<and> prepared_ok pc \<and> \<not> fw_exceeds pc (lk_live now ?L pc)"
    "\<forall>q < length ?L. ready now (lk ?L q)" "distinct (map pc_counter_key prep)"
    using Cons.prems(1,2,3) lk_live fields(1) by (simp_all add: nth_list_update)
  obtain L' where IH: "consume_all ?L now prep = Some (L', map (\<lambda>pc. fw_allowance pc now (lk_live now ?L pc)) prep)"
    "map fst L' = map fst ?L"
    "\<forall>p < length ?L. ready now (lk L' p) \<and> sh_capacity (lk L' p) = sh_capacity (lk ?L p) \<and>
       used (lk L' p) = used (lk ?L p) + length (filter (is_new ?L p) prep) \<and>
       (\<forall>k. shard_map (lk L' p) k = (case batch_find prep p k of None \<Rightarrow> shard_map (lk ?L p) k
          | Some pc \<Rightarrow> Some (fw_next pc now (shard.live now (lk ?L p) k))))"
    using Cons.IH [OF prems Cons.prems(4)] by blast
  have "consume_all L now (pc # prep) = Some (L', map (\<lambda>pc. fw_allowance pc now (lk_live now L pc)) (pc # prep))"
    using IH(1) s'(1) p Lp lk_live by (simp add: get_opt_def cong: map_cong)
  moreover have "map fst L' = map fst L" using IH(2) p Lp by (simp add: map_update list_update_same_conv)
  moreover have "ready now (lk L' q) \<and> sh_capacity (lk L' q) = sh_capacity (lk L q) \<and>
      used (lk L' q) = used (lk L q) + length (filter (is_new L q) (pc # prep))" if "q < length L" for q
  proof -
    have IHq: "ready now (lk L' q) \<and> sh_capacity (lk L' q) = sh_capacity (lk ?L q) \<and>
       used (lk L' q) = used (lk ?L q) + length (filter (is_new L q) prep)"
      using IH(3) that new [OF that] by simp
    show ?thesis
    proof (cases "q = ?p")
      case True
      then show ?thesis using IHq fields Lp p by (simp add: is_new_def)
    next
      case False
      then show ?thesis using IHq by (simp add: is_new_def)
    qed
  qed
  moreover have "shard_map (lk L' q) k = (case batch_find (pc # prep) q k of None \<Rightarrow> shard_map (lk L q) k
      | Some pc \<Rightarrow> Some (fw_next pc now (shard.live now (lk L q) k)))" if q: "q < length L" for q k
  proof (cases "k = ?k")
    case True
    then have "batch_find prep q k = None" using keys by (intro batch_find_notin) (metis imageE)
    moreover have "shard_map (lk ?L q) k = (if q = ?p then Some (fw_next pc now (shard.live now s ?k))
        else shard_map (lk L q) k)"
      using True q p map' by (simp add: nth_list_update)
    moreover have "q = ?p \<Longrightarrow> lk L q = s" using Lp by simp
    ultimately show ?thesis using True IH(3) q by (simp add: batch_find_simps)
  next
    case False
    have step: "batch_find (pc # prep) q k = batch_find prep q k" using False by (simp add: batch_find_simps)
    have "shard_map (lk L' q) k = (case batch_find prep q k of None \<Rightarrow> shard_map (lk ?L q) k
        | Some pc \<Rightarrow> Some (fw_next pc now (shard.live now (lk ?L q) k)))" using IH(3) q by simp
    then show ?thesis unfolding step other [OF q False] live [OF q False] .
  qed
  ultimately show ?case by blast
qed

section \<open>Atomic batches\<close>

abbreviation (input) pc_of :: "fixed_window_policy check \<Rightarrow> prepared_check" where
  "pc_of c \<equiv> PreparedCheck_new 0 c 0"

abbreviation (input) fkey :: "fixed_window_policy check \<Rightarrow> counter_key" where
  "fkey c \<equiv> chk_counter_key FixedWindowPolicy c"

lemma prepared_irrelevant:
  "fw_exceeds (PreparedCheck_new j c p) = fw_exceeds (pc_of c)"
  "fw_next (PreparedCheck_new j c p) = fw_next (pc_of c)"
  "fw_allowance (PreparedCheck_new j c p) = fw_allowance (pc_of c)"
  "fw_denial (PreparedCheck_new j c p) = fw_denial (pc_of c)"
  by (simp_all add: fw_exceeds_def fw_next_def fw_allowance_def fw_denial_def fun_eq_iff split: option.splits)

lemma prepare_checks_spec:
  "i + length cs \<le> length (bt_input_positions t) \<Longrightarrow>
   prepare_checks t i cs = Some (map (\<lambda>j. PreparedCheck_new (i + j) (cs ! j) (bt_input_positions t ! (i + j))) [0..<length cs])"
proof (induction cs arbitrary: i)
  case (Cons c cs)
  have "prepare_checks t (Suc i) cs =
      Some (map (\<lambda>j. PreparedCheck_new (Suc i + j) (cs ! j) (bt_input_positions t ! (Suc i + j))) [0..<length cs])"
    using Cons by simp
  moreover have "[0..<length (c # cs)] = 0 # map Suc [0..<length cs]"
    by (simp add: upt_conv_Cons map_Suc_upt del: upt_Suc)
  ultimately show ?case using Cons.prems by (simp add: shard_position_def get_opt_def comp_def)
qed simp

lemma fold_max_ge: "a \<le> fold max xs (a :: nat)" "x \<in> set xs \<Longrightarrow> x \<le> fold max xs a"
proof -
  have fold: "fold max xs a = Max (set (a # xs))" by (simp only: Max.set_eq_fold)
  show "a \<le> fold max xs a" "x \<in> set xs \<Longrightarrow> x \<le> fold max xs a" unfolding fold by auto
qed

lemma fold_max_less: "a < b \<Longrightarrow> (\<And>x. x \<in> set xs \<Longrightarrow> x < b) \<Longrightarrow> fold max xs (a :: nat) < b"
  by (induction xs arbitrary: a) auto

lemma bs_live_release:
  assumes "distinct (map fst L)" "p < length L" "fst (L ! p) = shard_index bs k" "bs \<noteq> []"
  shows "bs_live (release L bs) t k = shard.live t (lk L p) k"
proof -
  have "(shard_index bs k, lk L p) \<in> set L" using assms(2,3) by (metis nth_mem prod.collapse)
  then have "map_of L (shard_index bs k) = Some (lk L p)" using assms(1) by simp
  then show ?thesis using assms shard_index_less [of bs k] by (simp add: bs_live_def release_nth)
qed

lemma bs_live_release_other:
  assumes "distinct (map fst L)" "shard_index bs k \<notin> set (map fst L)" "bs \<noteq> []"
  shows "bs_live (release L bs) t k = bs_live bs t k"
proof -
  have "map_of L (shard_index bs k) = None" using assms(2) by (simp add: map_of_eq_None_iff)
  then show ?thesis using assms shard_index_less [of bs k] by (simp add: bs_live_def release_nth)
qed

definition fw_stop :: "memory_store \<Rightarrow> nat \<Rightarrow> fixed_window_policy check list \<Rightarrow> nat \<Rightarrow> batch_decision \<Rightarrow> bool" where
  "fw_stop store now cs j v \<longleftrightarrow>
     (let c = cs ! j; st = bs_live (ms_shards store) now (fkey c) in
      if fw_exceeds (pc_of c) st
      then v = BatchDecision (if fwp_quota_mode (chk_policy c) = Shadow
             then BO_ShadowDenied j (length cs) (fw_denial (pc_of c) now st)
             else BO_Denied j (length cs) (QuotaExceeded (fw_denial (pc_of c) now st)))
      else \<exists>r. v = BatchDecision (BO_Denied j (length cs) (StorageCapacity r)))"

definition fw_batch_allowed :: "memory_store \<Rightarrow> nat \<Rightarrow> fixed_window_policy check list \<Rightarrow> memory_store \<Rightarrow> batch_decision \<Rightarrow> bool" where
  "fw_batch_allowed store now cs store' v \<longleftrightarrow>
     v = BatchDecision (BO_Allowed (map (\<lambda>c. fw_allowance (pc_of c) now (bs_live (ms_shards store) now (fkey c))) cs)) \<and>
     (\<forall>c \<in> set cs. \<not> fw_exceeds (pc_of c) (bs_live (ms_shards store) now (fkey c))) \<and>
     (\<forall>t \<ge> now. \<forall>k. bs_live (ms_shards store') t k =
        (case List.find (\<lambda>c. fkey c = k) cs of None \<Rightarrow> bs_live (ms_shards store) t k
         | Some c \<Rightarrow> fw_apply now (pc_of c) (bs_live (ms_shards store) now k) t))"

definition fw_batch_denied :: "memory_store \<Rightarrow> nat \<Rightarrow> fixed_window_policy check list \<Rightarrow> memory_store \<Rightarrow> batch_decision \<Rightarrow> bool" where
  "fw_batch_denied store now cs store' v \<longleftrightarrow>
     (\<exists>j < length cs. fw_stop store now cs j v \<and>
        (\<forall>l < j. \<not> fw_exceeds (pc_of (cs ! l)) (bs_live (ms_shards store) now (fkey (cs ! l))))) \<and>
     (\<forall>t \<ge> now. bs_live (ms_shards store') t = bs_live (ms_shards store) t)"

text \<open>The shards a topology locks, when none of them is poisoned.\<close>

definition locked_of :: "'e bounded_shards \<Rightarrow> batch_topology \<Rightarrow> 'e locked_shards" where
  "locked_of bs t = map (\<lambda>i. (i, mx_shard (bs ! i))) (map bs_index (bt_shards t))"

definition touches_poisoned :: "'e bounded_shards \<Rightarrow> counter_key list \<Rightarrow> bool" where
  "touches_poisoned bs keys \<longleftrightarrow> (\<exists>k \<in> set keys. mx_poisoned (bs ! shard_index bs k))"

lemma lock_topology_cases:
  assumes bs: "shards_ok config bs" and t: "topology_ok (map (shard_index bs) keys) t"
  shows "if touches_poisoned bs keys then \<exists>i. lock_topology bs t = Some (Err (PoisonedShardError i)) \<and> mx_poisoned (bs ! i)
    else lock_topology bs t = Some (Ok (locked_of bs t))"
proof -
  have set: "set (map bs_index (bt_shards t)) = shard_index bs ` set keys"
    using t by (simp add: topology_ok_def)
  have "\<forall>i \<in> set (map bs_index (bt_shards t)). i < length bs"
    unfolding set using shard_index_less [OF shards_ok_nonempty [OF bs]] by blast
  note lock = lock_shards_Some [OF this]
  show ?thesis
  proof (cases "List.find (\<lambda>i. mx_poisoned (bs ! i)) (map bs_index (bt_shards t))")
    case None
    have "\<not> touches_poisoned bs keys"
    proof
      assume "touches_poisoned bs keys"
      then obtain i where "i \<in> shard_index bs ` set keys" "mx_poisoned (bs ! i)"
        by (auto simp: touches_poisoned_def)
      then show False using None unfolding set [symmetric] find_None_iff by blast
    qed
    then show ?thesis using None lock by (simp add: lock_topology_def locked_of_def)
  next
    case (Some i)
    then have i: "mx_poisoned (bs ! i)" "i \<in> set (map bs_index (bt_shards t))"
      by (auto simp: find_Some_iff)
    then have "touches_poisoned bs keys" unfolding set by (auto simp: touches_poisoned_def)
    then show ?thesis using Some lock i by (simp add: lock_topology_def)
  qed
qed

lemma locked_of_facts:
  assumes bs: "shards_ok config bs" and t: "topology_ok (map (shard_index bs) keys) t"
    and healthy: "\<not> touches_poisoned bs keys"
  shows "distinct (map fst (locked_of bs t))"
    "\<And>p. p < length (locked_of bs t) \<Longrightarrow> shard_ok (lk (locked_of bs t) p) \<and>
      sh_capacity (lk (locked_of bs t) p) = shard_capacity config (fst (locked_of bs t ! p)) \<and>
      lk (locked_of bs t) p = mx_shard (bs ! fst (locked_of bs t ! p))"
    "\<And>j. j < length keys \<Longrightarrow> bt_input_positions t ! j < length (locked_of bs t) \<and>
      fst (locked_of bs t ! (bt_input_positions t ! j)) = shard_index bs (keys ! j)"
    "length (check_counts t) = length (locked_of bs t)"
    "length (bt_input_positions t) = length keys"
proof -
  have set: "set (map bs_index (bt_shards t)) = shard_index bs ` set keys"
    using t by (simp add: topology_ok_def)
  show "distinct (map fst (locked_of bs t))" "length (bt_input_positions t) = length keys"
    "length (check_counts t) = length (locked_of bs t)"
    using t by (simp_all add: locked_of_def topology_ok_def comp_def check_counts_def)
  show "shard_ok (lk (locked_of bs t) p) \<and>
      sh_capacity (lk (locked_of bs t) p) = shard_capacity config (fst (locked_of bs t ! p)) \<and>
      lk (locked_of bs t) p = mx_shard (bs ! fst (locked_of bs t ! p))" if p: "p < length (locked_of bs t)" for p
  proof -
    let ?i = "bs_index (bt_shards t ! p)"
    have "?i \<in> set (map bs_index (bt_shards t))" using p by (auto simp: locked_of_def)
    then obtain k where k: "k \<in> set keys" "?i = shard_index bs k" unfolding set by blast
    have "?i < length bs" using k shard_index_less [OF shards_ok_nonempty [OF bs]] by simp
    moreover have "\<not> mx_poisoned (bs ! ?i)" using k healthy by (auto simp: touches_poisoned_def)
    ultimately show ?thesis using shards_ok_nth [OF bs, of ?i] p by (simp add: locked_of_def)
  qed
  show "bt_input_positions t ! j < length (locked_of bs t) \<and>
      fst (locked_of bs t ! (bt_input_positions t ! j)) = shard_index bs (keys ! j)" if "j < length keys" for j
    using that t by (simp add: topology_ok_def locked_of_def)
qed

lemma stops_first_store:
  fixes bs :: "'e bounded_shards" and t :: batch_topology
  defines "L \<equiv> locked_of bs t"
  assumes first: "stops_first config now (check_counts t) L over (zip (bt_input_positions t) keys) v"
    and len: "length keys < 2 ^ 64" and bs: "shards_ok config bs" and t: "topology_ok (map (shard_index bs) keys) t"
    and healthy: "\<not> touches_poisoned bs keys"
  shows "stop_index v = List.find (\<lambda>j. over j \<or> batch_no_room config bs now keys j) [0..<length keys]"
proof -
  let ?ps = "zip (bt_input_positions t) keys"
  note facts = locked_of_facts [OF bs t healthy, folded L_def]
  have ps: "map fst ?ps = bt_input_positions t" "map snd ?ps = keys" "length ?ps = length keys" using facts(5) by simp_all
  have m: "0 < max_expired_removals_per_check config" using bs by (simp add: shards_ok_def config_ok_def)
  have at: "\<exists>j < length keys. x = (bt_input_positions t ! j, keys ! j)" if "x \<in> set ?ps" for x
    using that facts(5) by (auto simp: in_set_zip)
  have "count_list (map fst ?ps) (fst x) \<le> saturating_mul 64 (max_expired_removals_per_check config) (check_counts t ! fst x)"
    if x: "x \<in> set ?ps" for x
  proof -
    obtain j where j: "j < length keys" "x = (bt_input_positions t ! j, keys ! j)" using at [OF x] by blast
    have "count_list (bt_input_positions t) (bt_input_positions t ! j) \<le> length keys"
      using count_le_length [of "bt_input_positions t"] facts(5) by simp
    from prune_limit [OF m this len] show ?thesis using topology_counts [OF t, of j] j ps by simp
  qed
  then have "stop_index v = List.find (\<lambda>j. over j \<or> no_room now L ?ps j) [0..<length ?ps]"
    using first unfolding stops_first_def by blast
  moreover have "no_room now L ?ps j \<longleftrightarrow> batch_no_room config bs now (map snd ?ps) j" if j: "j < length keys" for j
  proof (rule no_room_batch [OF facts(1)])
    show "lk L p = mx_shard (bs ! fst (L ! p)) \<and> sh_capacity (lk L p) = shard_capacity config (fst (L ! p))"
      if "p < length L" for p
      using facts(2) [OF that] by blast
    show "fst x < length L \<and> fst (L ! fst x) = shard_index bs (snd x)" if "x \<in> set ?ps" for x
      using at [OF that] facts(3) by auto
  qed (simp only: ps(3) j)
  ultimately show ?thesis unfolding ps(2,3) by simp (rule find_cong; simp)
qed

lemma release_ok:
  assumes bs: "shards_ok config bs" and L: "distinct (map fst L)" "map fst L' = map fst L"
    and "\<And>p. p < length L \<Longrightarrow> sh_capacity (lk L p) = shard_capacity config (fst (L ! p))"
    and "\<And>p. p < length L \<Longrightarrow> shard_ok (lk L' p) \<and> sh_capacity (lk L' p) = sh_capacity (lk L p)"
  shows "shards_ok config (release L' bs)"
proof (rule shards_ok_release [OF bs])
  have len: "length L' = length L" using L(2) by (metis length_map)
  have "shard_ok (snd x) \<and> sh_capacity (snd x) = shard_capacity config (fst x)" if x: "x \<in> set L'" for x
  proof -
    obtain p where "p < length L" "x = L' ! p" using x len by (auto simp: in_set_conv_nth)
    moreover from this have "fst (L' ! p) = fst (L ! p)" using L(2) len by (metis nth_map)
    ultimately show ?thesis using assms(4,5) by simp
  qed
  then show "\<forall>(i, s) \<in> set L'. shard_ok s \<and> sh_capacity s = shard_capacity config i" by fastforce
  show "distinct (map fst L')" using L by simp
qed

lemma release_live:
  assumes ne: "bs \<noteq> []" and L: "distinct (map fst L)" "map fst L' = map fst L"
    and L_bs: "\<And>p. p < length L \<Longrightarrow> lk L p = mx_shard (bs ! fst (L ! p))"
    and f: "\<And>p. p < length L \<Longrightarrow> fst (L ! p) = shard_index bs k \<Longrightarrow> shard.live t (lk L' p) k = f (shard.live t (lk L p) k)"
    and out: "shard_index bs k \<notin> set (map fst L) \<Longrightarrow> f = (\<lambda>x. x)"
  shows "bs_live (release L' bs) t k = f (bs_live bs t k)"
proof (cases "shard_index bs k \<in> set (map fst L)")
  case True
  have len: "length L' = length L" using L(2) by (metis length_map)
  from True obtain p where "p < length (map fst L)" "map fst L ! p = shard_index bs k"
    unfolding in_set_conv_nth by blast
  then have p: "p < length L" "fst (L ! p) = shard_index bs k" by simp_all
  then have "fst (L' ! p) = shard_index bs k" using L(2) len by (metis nth_map)
  then have "bs_live (release L' bs) t k = shard.live t (lk L' p) k"
    using p L len ne by (intro bs_live_release) auto
  then show ?thesis using f [OF p] L_bs [OF p(1)] p(2) by (simp add: bs_live_def)
next
  case False
  then have id: "f = (\<lambda>x. x)" by (rule out)
  have "distinct (map fst L')" "shard_index bs k \<notin> set (map fst L')" using L False by simp_all
  from bs_live_release_other [OF this ne, of t] show ?thesis unfolding id .
qed

text \<open>What the locked part of a batch establishes about the shards and the decision.\<close>

definition fw_locked_denied :: "nat \<Rightarrow> fixed_window_policy check list \<Rightarrow> fw_entry locked_shards \<Rightarrow> prepared_check list \<Rightarrow>
    fw_entry locked_shards \<Rightarrow> batch_decision \<Rightarrow> bool" where
  "fw_locked_denied now cs L prep L' v \<longleftrightarrow>
     (\<exists>j < length prep. preflight_stop cs now L (prep ! j) v \<and>
        (\<forall>l < j. \<not> fw_exceeds (prep ! l) (lk_live now L (prep ! l)))) \<and>
     (\<forall>p < length L. \<forall>t \<ge> now. shard.live t (lk L' p) = shard.live t (lk L p))"

definition fw_locked_allowed :: "nat \<Rightarrow> fw_entry locked_shards \<Rightarrow> prepared_check list \<Rightarrow>
    fw_entry locked_shards \<Rightarrow> batch_decision \<Rightarrow> bool" where
  "fw_locked_allowed now L prep L' v \<longleftrightarrow>
     v = BatchDecision (BO_Allowed (map (\<lambda>pc. fw_allowance pc now (lk_live now L pc)) prep)) \<and>
     (\<forall>pc \<in> set prep. \<not> fw_exceeds pc (lk_live now L pc)) \<and>
     (\<forall>p < length L. \<forall>t \<ge> now. \<forall>k. shard.live t (lk L' p) k =
        (case batch_find prep p k of None \<Rightarrow> shard.live t (lk L p) k
         | Some pc \<Rightarrow> fw_apply now pc (shard.live now (lk L p) k) t))"

lemma live_by_map:
  assumes "shard_map s' k = (case x of None \<Rightarrow> shard_map s k | Some pc \<Rightarrow> Some (fw_next pc now (shard.live now s k)))"
  shows "shard.live t s' k = (case x of None \<Rightarrow> shard.live t s k | Some pc \<Rightarrow> fw_apply now pc (shard.live now s k) t)"
  using assms by (auto simp: shard.live_def fw_apply_def split: option.splits prod.splits)

lemma check_all_locked_spec:
  fixes L obs
  defines "now \<equiv> fold max (map (\<lambda>(_, shard). sh_latest_observed_millis shard) L) obs"
  assumes L: "\<And>p. p < length L \<Longrightarrow> shard_ok (lk L p)" "length counts = length L" and obs: "obs < CLOCK_BOUND"
    and prep: "\<forall>pc \<in> set prep. pc_shard_position pc < length L \<and> prepared_ok pc \<and> pc_input_index pc < length cs"
    and keys: "distinct (map pc_counter_key prep)" "prep \<noteq> []"
  shows "\<exists>L' ev. check_all_locked config cs counts prep obs timer L = Some (L', ev) \<and> map fst L' = map fst L \<and>
    (\<forall>p < length L. shard_at now (lk L' p) \<and> sh_capacity (lk L' p) = sh_capacity (lk L p)) \<and>
    (fw_locked_denied now cs L prep L' (ev_value ev) \<or> fw_locked_allowed now L prep L' (ev_value ev)) \<and>
    (map pc_input_index prep = [0..<length prep] \<longrightarrow>
      stops_first config now counts L (overs now L prep) (map slot prep) (ev_value ev))"
proof -
  obtain L1 es where cl: "cleanup_shards config now timer L counts = (L1, es)" by fastforce
  have L1: "length L1 = length L" "map fst L1 = map fst L"
    and pr: "\<And>p. p < length L \<Longrightarrow> lk L1 p =
      shard_prune now (saturating_mul 64 (max_expired_removals_per_check config) (counts ! p)) (record_observed_millis now (lk L p))"
    using cleanup_shards_spec [OF L(2) cl] by auto
  have latest: "sh_latest_observed_millis (lk L p) \<le> now" if "p < length L" for p
  proof -
    have "sh_latest_observed_millis (lk L p) \<in> set (map (\<lambda>(_, shard). sh_latest_observed_millis shard) L)"
      using that by (force simp: case_prod_beta)
    then show ?thesis unfolding now_def by (rule fold_max_ge(2))
  qed
  have bound: "now < CLOCK_BOUND" unfolding now_def using obs
  proof (rule fold_max_less)
    fix x assume "x \<in> set (map (\<lambda>(_, shard). sh_latest_observed_millis shard) L)"
    then obtain p where "p < length L" "x = sh_latest_observed_millis (lk L p)"
      by (auto simp: in_set_conv_nth case_prod_beta)
    then show "x < CLOCK_BOUND" using L(1) by (simp add: shard_ok_def)
  qed
  have at: "shard_at now (lk L1 p)" "sh_capacity (lk L1 p) = sh_capacity (lk L p)"
    "\<And>t. now \<le> t \<Longrightarrow> shard.live t (lk L1 p) = shard.live t (lk L p)" if p: "p < length L" for p
    using pr [OF p] shard_at_cleanup [OF L(1) [OF p] latest [OF p] bound] cleanup_live [OF L(1) [OF p]] L(1) [OF p]
    by auto
  have lk_live: "lk_live now L1 pc = lk_live now L pc" if "pc \<in> set prep" for pc
    using at(3) [of "pc_shard_position pc" now] prep that by (simp add: lk_live_def)
  have first: "stops_first config now counts L (overs now L prep) (map slot prep) v"
    if "stop_index v = List.find (\<lambda>j. overs now L1 prep j \<or> crowded L1 (replicate (length L1) 0) (map slot prep) j) [0..<length prep]" for v
  proof (rule stops_firstI [OF _ L(1) L1(1) pr])
    show "stop_index v = List.find (\<lambda>j. overs now L prep j \<or> crowded L1 (replicate (length L1) 0) (map slot prep) j) [0..<length (map slot prep)]"
      unfolding that using lk_live by (simp, intro find_cong) simp_all
  qed (use prep in auto)
  have room: "\<forall>p < length L1. used (lk L1 p) + replicate (length L1) 0 ! p \<le> sh_capacity (lk L1 p)"
    using at(1) L1(1) by (simp add: shard_at_ready)
  consider (pass) "preflight cs L1 now (replicate (length L1) 0) prep = Some None"
      "\<forall>pc \<in> set prep. \<not> fw_exceeds pc (lk_live now L1 pc)"
      "\<forall>p < length L1. used (lk L1 p) + length (filter (is_new L1 p) prep) \<le> sh_capacity (lk L1 p)"
      "\<forall>j < length prep. \<not> crowded L1 (replicate (length L1) 0) (map slot prep) j"
    | (stop) j v where "j < length prep" "preflight cs L1 now (replicate (length L1) 0) prep = Some (Some v)"
      "preflight_stop cs now L1 (prep ! j) v" "first_failing (overs now L1 prep) L1 (replicate (length L1) 0) (map slot prep) j"
    using preflight_spec [of prep L1 cs now "replicate (length L1) 0"] prep at(1) L1(1) room by auto
  then show ?thesis
  proof cases
    case pass
    have prems: "\<forall>pc \<in> set prep. pc_shard_position pc < length L1 \<and> prepared_ok pc \<and> \<not> fw_exceeds pc (lk_live now L1 pc)"
      "\<forall>p < length L1. ready now (lk L1 p)"
      using pass(2) prep L1(1) at(1) by (auto simp: shard_at_ready)
    obtain L' where L': "consume_all L1 now prep = Some (L', map (\<lambda>pc. fw_allowance pc now (lk_live now L1 pc)) prep)"
      "map fst L' = map fst L1"
      "\<forall>p < length L1. ready now (lk L' p) \<and> sh_capacity (lk L' p) = sh_capacity (lk L1 p) \<and>
        used (lk L' p) = used (lk L1 p) + length (filter (is_new L1 p) prep) \<and>
        (\<forall>k. shard_map (lk L' p) k = (case batch_find prep p k of None \<Rightarrow> shard_map (lk L1 p) k
          | Some pc \<Rightarrow> Some (fw_next pc now (shard.live now (lk L1 p) k))))"
      using consume_all_spec [OF prems keys(1) bound] by blast
    let ?v = "BatchDecision (BO_Allowed (map (\<lambda>pc. fw_allowance pc now (lk_live now L pc)) prep))"
    have map: "map (\<lambda>pc. fw_allowance pc now (lk_live now L1 pc)) prep = map (\<lambda>pc. fw_allowance pc now (lk_live now L pc)) prep"
      using lk_live by simp
    have "check_all_locked config cs counts prep obs timer L =
        Some (L', \<lparr>ev_value = ?v, ev_effect = collect_shard_effects L' es\<rparr>)"
      unfolding check_all_locked_def now_def [symmetric] Let_def
      using pass(1) cl L'(1) keys(2) by (simp add: map BatchDecision_allowed_def)
    moreover have "shard_at now (lk L' p) \<and> sh_capacity (lk L' p) = sh_capacity (lk L p)" if "p < length L" for p
    proof -
      have p: "p < length L1" using that L1(1) by simp
      show ?thesis using L'(3) [rule_format, OF p] pass(3) [rule_format, OF p] at(2) [OF that] bound
        by (simp add: shard_at_ready)
    qed
    moreover have "shard.live t (lk L' p) k = (case batch_find prep p k of None \<Rightarrow> shard.live t (lk L p) k
        | Some pc \<Rightarrow> fw_apply now pc (shard.live now (lk L p) k) t)" if "p < length L" "now \<le> t" for p t k
    proof -
      have p: "p < length L1" using that L1(1) by simp
      have "shard_map (lk L' p) k = (case batch_find prep p k of None \<Rightarrow> shard_map (lk L1 p) k
          | Some pc \<Rightarrow> Some (fw_next pc now (shard.live now (lk L1 p) k)))"
        using L'(3) p by blast
      from live_by_map [OF this, of t] show ?thesis
        using at(3) [OF that(1) that(2)] at(3) [OF that(1), of now] by (simp split: option.splits)
    qed
    moreover have "stops_first config now counts L (overs now L prep) (map slot prep) ?v"
      using pass(2,4) by (intro first) (auto intro!: find_upt_none [symmetric])
    ultimately show ?thesis using L'(2) L1(2) pass(2) lk_live by (simp add: fw_locked_allowed_def)
  next
    case stop
    have "check_all_locked config cs counts prep obs timer L =
        Some (L1, \<lparr>ev_value = v, ev_effect = collect_shard_effects L1 es\<rparr>)"
      unfolding check_all_locked_def now_def [symmetric] Let_def using stop(2) cl by simp
    moreover have "preflight_stop cs now L (prep ! j) v"
      using stop(3) unfolding preflight_stop_def lk_live [OF nth_mem [OF stop(1)]] .
    moreover have "\<forall>l < j. \<not> fw_exceeds (prep ! l) (lk_live now L (prep ! l))"
      using stop(1,4) lk_live unfolding first_failing_def by (metis nth_mem order.strict_trans)
    moreover have "stops_first config now counts L (overs now L prep) (map slot prep) v"
      if idx: "map pc_input_index prep = [0..<length prep]"
    proof -
      have "pc_input_index (prep ! j) = j" using arg_cong [OF idx, of "\<lambda>xs. xs ! j"] stop(1) by simp
      then show ?thesis using preflight_stop_index [OF stop(3)] first_failing_find [OF stop(4)] stop(1) by (intro first) simp
    qed
    ultimately show ?thesis using L1 at stop(1) by (auto simp: fw_locked_denied_def)
  qed
qed

lemma batch_find_checks:
  assumes keys: "distinct (map fkey cs)" and p: "\<And>j. j < length cs \<Longrightarrow> fst (L ! pos j) = shard_index bs (fkey (cs ! j))"
    and L: "distinct (map fst L)" "\<And>j. j < length cs \<Longrightarrow> pos j < length L"
    and q: "q < length L" "fst (L ! q) = shard_index bs k"
  shows "map_option (fw_apply now) (batch_find (map (\<lambda>j. PreparedCheck_new j (cs ! j) (pos j)) [0..<length cs]) q k) =
    map_option (\<lambda>c. fw_apply now (pc_of c)) (List.find (\<lambda>c. fkey c = k) cs)"
proof (cases "List.find (\<lambda>c. fkey c = k) cs")
  case None
  then have "k \<notin> fkey ` set cs" by (auto simp: find_None_iff)
  then have "batch_find (map (\<lambda>j. PreparedCheck_new j (cs ! j) (pos j)) [0..<length cs]) q k = None"
    by (intro batch_find_notin) (auto simp: image_iff)
  with None show ?thesis by simp
next
  case (Some c)
  then obtain j where j: "j < length cs" "cs ! j = c" "fkey c = k" by (auto simp: find_Some_iff)
  have uniq: "i = j" if "i < length cs" "fkey (cs ! i) = k" for i
    using that j keys by (metis length_map nth_eq_iff_index_eq nth_map)
  have "pos j = q"
  proof -
    have "map fst L ! pos j = map fst L ! q" using p [OF j(1)] q j L(2) [OF j(1)] by simp
    then show ?thesis using nth_eq_iff_index_eq [OF L(1)] L(2) [OF j(1)] q(1) by simp
  qed
  moreover have "\<forall>i < j. fkey (cs ! i) \<noteq> k" using uniq j(1) by (metis nat_neq_iff order.strict_trans)
  ultimately have "batch_find (map (\<lambda>j. PreparedCheck_new j (cs ! j) (pos j)) [0..<length cs]) q k =
      Some (PreparedCheck_new j c q)"
    unfolding batch_find_def find_Some_iff using j by (intro exI [of _ j]) simp
  moreover have "fw_apply now (PreparedCheck_new j c q) = fw_apply now (pc_of c)"
    by (intro ext) (simp only: fw_apply_def prepared_irrelevant(2) [of j c q])
  ultimately show ?thesis using Some by simp
qed

text \<open>The instant a batch is evaluated at: the clock reading, clamped to every locked shard.\<close>

definition batch_now :: "'e bounded_shards \<Rightarrow> counter_key list \<Rightarrow> nat \<Rightarrow> nat \<Rightarrow> bool" where
  "batch_now bs keys obs now \<longleftrightarrow>
     now = Max (insert obs ((\<lambda>k. bs_latest bs (shard_index bs k)) ` set keys))"

lemma batch_nowI:
  assumes t: "topology_ok (map (shard_index bs) keys) t"
  shows "batch_now bs keys obs
    (fold max (map (\<lambda>(_, shard). sh_latest_observed_millis shard) (locked_of bs t)) obs)"
proof -
  have "fold max (map (\<lambda>(_, shard). sh_latest_observed_millis shard) (locked_of bs t)) obs =
      Max (insert obs ((\<lambda>i. bs_latest bs i) ` set (map bs_index (bt_shards t))))"
    by (simp add: Max.set_eq_fold [symmetric] locked_of_def bs_latest_def comp_def image_image)
  also have "set (map bs_index (bt_shards t)) = shard_index bs ` set keys"
    using t by (simp add: topology_ok_def)
  finally show ?thesis by (simp add: batch_now_def image_image)
qed

lemma batch_release_live:
  assumes ne: "bs \<noteq> []" and L: "distinct (map fst L)" "map fst L' = map fst L"
    and lk_bs: "\<And>p. p < length L \<Longrightarrow> lk L p = mx_shard (bs ! fst (L ! p))"
    and pos: "\<And>j. j < length cs \<Longrightarrow> pos j < length L"
      "\<And>j. j < length cs \<Longrightarrow> fst (L ! pos j) = shard_index bs (fkey (cs ! j))"
    and keys: "distinct (map fkey cs)"
    and live: "\<And>p. p < length L \<Longrightarrow> shard.live u (lk L' p) k =
      (case batch_find (map (\<lambda>j. PreparedCheck_new j (cs ! j) (pos j)) [0..<length cs]) p k of
         None \<Rightarrow> shard.live u (lk L p) k | Some pc \<Rightarrow> fw_apply now pc (shard.live now (lk L p) k) u)"
  shows "bs_live (release L' bs) u k =
    (case List.find (\<lambda>c. fkey c = k) cs of None \<Rightarrow> bs_live bs u k
     | Some c \<Rightarrow> fw_apply now (pc_of c) (bs_live bs now k) u)"
proof -
  let ?f = "\<lambda>x. case List.find (\<lambda>c. fkey c = k) cs of None \<Rightarrow> x
     | Some c \<Rightarrow> fw_apply now (pc_of c) (bs_live bs now k) u"
  have "bs_live (release L' bs) u k = ?f (bs_live bs u k)"
  proof (rule release_live [OF ne L lk_bs])
    fix p assume p: "p < length L" "fst (L ! p) = shard_index bs k"
    have "shard.live now (lk L p) k = bs_live bs now k" using lk_bs [OF p(1)] p(2) by (simp add: bs_live_def)
    moreover note batch_find_checks [OF keys pos(2) L(1) pos(1) p, where now = now]
    ultimately show "shard.live u (lk L' p) k = ?f (shard.live u (lk L p) k)"
      using live [OF p(1)] by (auto split: option.splits)
  next
    assume out: "shard_index bs k \<notin> set (map fst L)"
    have "List.find (\<lambda>c. fkey c = k) cs = None"
    proof (rule ccontr)
      assume "List.find (\<lambda>c. fkey c = k) cs \<noteq> None"
      then obtain j where j: "j < length cs" "fkey (cs ! j) = k" by (auto simp: find_Some_iff)
      then have "shard_index bs k = map fst L ! pos j" "pos j < length (map fst L)" using pos [OF j(1)] by simp_all
      then show False using out nth_mem by metis
    qed
    then show "?f = (\<lambda>x. x)" by simp
  qed
  then show ?thesis .
qed

lemma release_latest:
  assumes L: "distinct (map fst L)" "map fst L' = map fst L"
    and at: "\<And>p. p < length L \<Longrightarrow> sh_latest_observed_millis (lk L' p) = now"
  shows "\<forall>i < length bs. bs_latest (release L' bs) i \<le> max now (bs_latest bs i)"
proof (intro allI impI)
  fix i assume i: "i < length bs"
  have d: "distinct (map fst L')" using L by simp
  show "bs_latest (release L' bs) i \<le> max now (bs_latest bs i)"
  proof (cases "map_of L' i")
    case None
    then show ?thesis using i d by (simp add: bs_latest_def release_nth)
  next
    case (Some s)
    then have "(i, s) \<in> set L'" by (rule map_of_SomeD)
    then obtain p where p: "p < length L'" "L' ! p = (i, s)" by (auto simp: in_set_conv_nth)
    have "length L' = length L" using L(2) by (metis length_map)
    then have "sh_latest_observed_millis s = now" using at [of p] p by simp
    then show ?thesis using Some i d by (simp add: bs_latest_def release_nth)
  qed
qed

text \<open>A check of a batch cannot be admitted when it is over its quota or finds no room.\<close>

definition fw_refused :: "memory_store \<Rightarrow> nat \<Rightarrow> fixed_window_policy check list \<Rightarrow> nat \<Rightarrow> bool" where
  "fw_refused store now cs j \<longleftrightarrow>
     fw_exceeds (pc_of (cs ! j)) (bs_live (ms_shards store) now (fkey (cs ! j))) \<or>
     batch_no_room (ms_config store) (ms_shards store) now (map fkey cs) j"

lemma check_all_inner_spec:
  fixes store cs d timer
  defines "bs \<equiv> ms_shards store" and "keys \<equiv> map fkey cs"
  assumes ok: "ms_ok store" and cs: "\<forall>c \<in> set cs. fw_check_ok c" and d: "d \<le> duration_MAX"
    and valid: "batch_ok FixedWindowPolicy (max_batch_size (ms_config store)) cs"
    and fits: "\<forall>i. count_list (map (shard_index bs) keys) i \<le> shard_capacity (ms_config store) i"
    and healthy: "\<not> touches_poisoned bs keys"
  shows "\<exists>now store' ev. check_all_inner store (Some d) timer cs = (store', Some (Ok ev)) \<and>
    batch_now bs keys (as_millis d) now \<and> ms_ok store' \<and> ms_config store' = ms_config store \<and>
    (\<forall>i < length bs. bs_latest (ms_shards store') i \<le> max now (bs_latest bs i)) \<and>
    (length cs < 2 ^ 64 \<longrightarrow> stop_index (ev_value ev) = List.find (fw_refused store now cs) [0..<length cs]) \<and>
    (fw_batch_denied store now cs store' (ev_value ev) \<or> fw_batch_allowed store now cs store' (ev_value ev))"
proof -
  have bs: "shards_ok (ms_config store) bs" using ok by (simp add: ms_ok_def bs_def)
  note ne = shards_ok_nonempty [OF bs]
  have distinct: "distinct (map fkey cs)" and nonempty: "cs \<noteq> []" using valid by (auto simp: batch_ok_def)
  obtain t where t: "BatchTopology_new (map (shard_index bs) keys) (ms_config store) = Some (Ok t)"
    "topology_ok (map (shard_index bs) keys) t"
  proof (cases rule: topology_new_cases [of "map (shard_index bs) keys" "ms_config store"])
    case (err i)
    then show thesis using fits leD by blast
  qed
  let ?L = "locked_of bs t" and ?pos = "\<lambda>j. bt_input_positions t ! j"
  let ?prep = "map (\<lambda>j. PreparedCheck_new j (cs ! j) (?pos j)) [0..<length cs]"
  note facts = locked_of_facts [OF bs t(2) healthy]
  have pos: "?pos j < length ?L" "fst (?L ! ?pos j) = shard_index bs (fkey (cs ! j))" if "j < length cs" for j
    using facts(3) [of j] that by (auto simp: keys_def)
  have prepared: "prepare_checks t 0 cs = Some ?prep"
    using prepare_checks_spec [of 0 cs t] facts(5) by (simp add: keys_def)
  have lock: "lock_topology bs t = Some (Ok ?L)" using lock_topology_cases [OF bs t(2)] healthy by simp
  define now where "now = fold max (map (\<lambda>(_, shard). sh_latest_observed_millis shard) ?L) (as_millis d)"
  have prep_ok: "\<forall>pc \<in> set ?prep. pc_shard_position pc < length ?L \<and> prepared_ok pc \<and> pc_input_index pc < length cs"
    using pos(1) cs by (auto intro: prepared_check_ok)
  have "map pc_counter_key ?prep = map fkey cs" by (rule nth_equalityI) simp_all
  then have prep_keys: "distinct (map pc_counter_key ?prep)" "?prep \<noteq> []"
    using distinct nonempty by simp_all
  obtain L' ev where L': "check_all_locked (ms_config store) cs (check_counts t) ?prep (as_millis d) timer ?L = Some (L', ev)"
    "map fst L' = map fst ?L"
    "\<forall>p < length ?L. shard_at now (lk L' p) \<and> sh_capacity (lk L' p) = sh_capacity (lk ?L p)"
    and post: "fw_locked_denied now cs ?L ?prep L' (ev_value ev) \<or> fw_locked_allowed now ?L ?prep L' (ev_value ev)"
    and first: "map pc_input_index ?prep = [0..<length ?prep] \<longrightarrow>
      stops_first (ms_config store) now (check_counts t) ?L (overs now ?L ?prep) (map slot ?prep) (ev_value ev)"
    using check_all_locked_spec [OF _ facts(4) as_millis_clock [OF d] prep_ok prep_keys] facts(2)
    unfolding now_def by blast
  let ?store' = "store\<lparr>ms_shards := release L' bs\<rparr>"
  have inner: "check_all_inner store (Some d) timer cs = (?store', Some (Ok ev))"
    using valid t(1) prepared lock L'(1) unfolding check_all_inner_def validate_batch_Ok [symmetric]
    by (simp add: bs_def keys_def comp_def)
  have "shards_ok (ms_config store) (release L' bs)"
  proof (rule release_ok [OF bs facts(1) L'(2)])
    fix p assume p: "p < length ?L"
    show "sh_capacity (lk ?L p) = shard_capacity (ms_config store) (fst (?L ! p))"
      using facts(2) [OF p] by blast
    show "shard_ok (lk L' p) \<and> sh_capacity (lk L' p) = sh_capacity (lk ?L p)"
      using L'(3) p unfolding shard_at_def by blast
  qed
  then have ok': "ms_ok ?store'" by (simp add: ms_ok_def)
  have nth: "?prep ! j = PreparedCheck_new j (cs ! j) (?pos j)" if "j < length cs" for j using that by simp
  have live: "lk_live now ?L (?prep ! j) = bs_live bs now (fkey (cs ! j))" if "j < length cs" for j
    using pos [OF that] facts(2) [OF pos(1) [OF that]] by (simp add: nth [OF that] lk_live_def bs_live_def)
  have exceeds: "fw_exceeds (?prep ! j) (lk_live now ?L (?prep ! j)) \<longleftrightarrow>
      fw_exceeds (pc_of (cs ! j)) (bs_live bs now (fkey (cs ! j)))" if "j < length cs" for j
    unfolding live [OF that] unfolding nth [OF that] prepared_irrelevant(1) [of j "cs ! j" "?pos j"] ..
  have lk_bs: "lk ?L p = mx_shard (bs ! fst (?L ! p))" if "p < length ?L" for p using facts(2) [OF that] by blast
  have latest: "\<forall>i < length bs. bs_latest (release L' bs) i \<le> max now (bs_latest bs i)"
    using release_latest [OF facts(1) L'(2)] L'(3) by (simp add: shard_at_def)
  have at_now: "batch_now bs keys (as_millis d) now" unfolding now_def by (rule batch_nowI [OF t(2)])
  have stops: "stop_index (ev_value ev) = List.find (fw_refused store now cs) [0..<length cs]" if small: "length cs < 2 ^ 64"
  proof -
    have slots: "map slot ?prep = zip (bt_input_positions t) keys"
      using facts(5) by (intro nth_equalityI) (simp_all add: keys_def)
    have "map pc_input_index ?prep = [0..<length ?prep]" by (rule nth_equalityI) simp_all
    with first have "stops_first (ms_config store) now (check_counts t) ?L (overs now ?L ?prep) (zip (bt_input_positions t) keys) (ev_value ev)"
      unfolding slots by blast
    from stops_first_store [OF this _ bs t(2) healthy] small show ?thesis using exceeds
      by (simp add: keys_def) (rule find_cong; simp add: fw_refused_def bs_def)
  qed
  from post show ?thesis
  proof
    assume denied: "fw_locked_denied now cs ?L ?prep L' (ev_value ev)"
    then obtain j where j: "j < length cs" "preflight_stop cs now ?L (?prep ! j) (ev_value ev)"
      "\<forall>l < j. \<not> fw_exceeds (?prep ! l) (lk_live now ?L (?prep ! l))"
      by (auto simp: fw_locked_denied_def)
    have "fw_stop store now cs j (ev_value ev)"
      using j(2) unfolding preflight_stop_def exceeds [OF j(1)]
      unfolding live [OF j(1)] unfolding nth [OF j(1)] prepared_irrelevant(4) [of j "cs ! j" "?pos j"]
      by (auto simp: fw_stop_def Let_def bs_def)
    moreover have "\<forall>l < j. \<not> fw_exceeds (pc_of (cs ! l)) (bs_live bs now (fkey (cs ! l)))"
    proof (intro allI impI)
      fix l assume l: "l < j"
      then have "l < length cs" using j(1) by simp
      from exceeds [OF this] j(3) l show "\<not> fw_exceeds (pc_of (cs ! l)) (bs_live bs now (fkey (cs ! l)))" by blast
    qed
    moreover have "bs_live (release L' bs) u = bs_live bs u" if "now \<le> u" for u
    proof
      fix k show "bs_live (release L' bs) u k = bs_live bs u k"
        using denied that by (intro release_live [OF ne facts(1) L'(2) lk_bs, where f = "\<lambda>x. x"])
          (auto simp: fw_locked_denied_def)
    qed
    ultimately have "fw_batch_denied store now cs ?store' (ev_value ev)"
      using j(1) by (auto simp: fw_batch_denied_def bs_def)
    then show ?thesis using inner ok' at_now latest stops by auto
  next
    assume allowed: "fw_locked_allowed now ?L ?prep L' (ev_value ev)"
    have "map (\<lambda>pc. fw_allowance pc now (lk_live now ?L pc)) ?prep =
        map (\<lambda>c. fw_allowance (pc_of c) now (bs_live bs now (fkey c))) cs"
    proof (rule nth_equalityI)
      fix j assume "j < length (map (\<lambda>pc. fw_allowance pc now (lk_live now ?L pc)) ?prep)"
      then have j: "j < length cs" by simp
      have "fw_allowance (?prep ! j) now (lk_live now ?L (?prep ! j)) =
          fw_allowance (pc_of (cs ! j)) now (bs_live bs now (fkey (cs ! j)))"
        unfolding live [OF j] unfolding nth [OF j] prepared_irrelevant(3) [of j "cs ! j" "?pos j"] ..
      then show "map (\<lambda>pc. fw_allowance pc now (lk_live now ?L pc)) ?prep ! j =
          map (\<lambda>c. fw_allowance (pc_of c) now (bs_live bs now (fkey c))) cs ! j"
        using j by (simp del: map_map)
    qed simp
    moreover have "\<not> fw_exceeds (pc_of (cs ! j)) (bs_live bs now (fkey (cs ! j)))" if "j < length cs" for j
      using allowed exceeds [OF that] that by (auto simp: fw_locked_allowed_def)
    then have "\<forall>c \<in> set cs. \<not> fw_exceeds (pc_of c) (bs_live bs now (fkey c))" by (metis in_set_conv_nth)
    moreover have "bs_live (release L' bs) u k = (case List.find (\<lambda>c. fkey c = k) cs of None \<Rightarrow> bs_live bs u k
         | Some c \<Rightarrow> fw_apply now (pc_of c) (bs_live bs now k) u)" if u: "now \<le> u" for u k
      using allowed u by (intro batch_release_live [OF ne facts(1) L'(2) lk_bs pos distinct])
        (auto simp: fw_locked_allowed_def)
    ultimately have "fw_batch_allowed store now cs ?store' (ev_value ev)"
      unfolding fw_batch_allowed_def bs_def [symmetric] using allowed by (simp add: fw_locked_allowed_def)
    then show ?thesis using inner ok' at_now latest stops by auto
  qed
qed

lemma check_all_inner_errors:
  fixes store cs
  defines "bs \<equiv> ms_shards store" and "keys \<equiv> map fkey cs"
  assumes ok: "ms_ok store"
  shows "validate_batch FixedWindowPolicy cs (max_batch_size (ms_config store)) = Err e \<Longrightarrow>
      check_all_inner store clock timer cs = (store, Some (Err (InvalidBatch e)))"
    and "batch_ok FixedWindowPolicy (max_batch_size (ms_config store)) cs \<Longrightarrow>
      \<not> (\<forall>i. count_list (map (shard_index bs) keys) i \<le> shard_capacity (ms_config store) i) \<Longrightarrow>
      \<exists>i n cap. check_all_inner store clock timer cs = (store, Some (Err (BatchExceedsShardCapacity i n cap)))"
    and "batch_ok FixedWindowPolicy (max_batch_size (ms_config store)) cs \<Longrightarrow>
      \<forall>i. count_list (map (shard_index bs) keys) i \<le> shard_capacity (ms_config store) i \<Longrightarrow>
      touches_poisoned bs keys \<Longrightarrow>
      \<exists>i. check_all_inner store clock timer cs = (store, Some (Err (PoisonedShard (PoisonedShardError i))))"
proof -
  have bs: "shards_ok (ms_config store) bs" using ok by (simp add: ms_ok_def bs_def)
  show "check_all_inner store clock timer cs = (store, Some (Err (InvalidBatch e)))"
    if "validate_batch FixedWindowPolicy cs (max_batch_size (ms_config store)) = Err e"
    using that by (simp add: check_all_inner_def)
  assume valid: "batch_ok FixedWindowPolicy (max_batch_size (ms_config store)) cs"
  then have v: "validate_batch FixedWindowPolicy cs (max_batch_size (ms_config store)) = Ok ()"
    by (simp add: validate_batch_Ok)
  have idx: "map (\<lambda>check. shard_index (ms_shards store) (chk_counter_key FixedWindowPolicy check)) cs =
      map (shard_index bs) keys" by (simp add: bs_def keys_def comp_def)
  show "\<exists>i n cap. check_all_inner store clock timer cs = (store, Some (Err (BatchExceedsShardCapacity i n cap)))"
    if big: "\<not> (\<forall>i. count_list (map (shard_index bs) keys) i \<le> shard_capacity (ms_config store) i)"
  proof (cases rule: topology_new_cases [of "map (shard_index bs) keys" "ms_config store"])
    case (err i)
    then show ?thesis using v unfolding check_all_inner_def idx by simp
  qed (use big in blast)
  assume fits: "\<forall>i. count_list (map (shard_index bs) keys) i \<le> shard_capacity (ms_config store) i"
    and pois: "touches_poisoned bs keys"
  obtain t where t: "BatchTopology_new (map (shard_index bs) keys) (ms_config store) = Some (Ok t)"
    "topology_ok (map (shard_index bs) keys) t"
  proof (cases rule: topology_new_cases [of "map (shard_index bs) keys" "ms_config store"])
    case (err i)
    then show thesis using fits leD by blast
  qed
  have "length (bt_input_positions t) = length cs" using t(2) by (simp add: topology_ok_def keys_def)
  then obtain prep where "prepare_checks t 0 cs = Some prep" using prepare_checks_spec [of 0 cs t] by simp
  moreover obtain i where "lock_topology bs t = Some (Err (PoisonedShardError i))"
    using lock_topology_cases [OF bs t(2)] pois by auto
  ultimately show "\<exists>i. check_all_inner store clock timer cs = (store, Some (Err (PoisonedShard (PoisonedShardError i))))"
    using v t(1) unfolding check_all_inner_def idx by (simp add: bs_def)
qed

end
