(* ===== verification/Store_History.thy ===== *)
theory Store_History
  imports Memory_Store_Correct
begin

text \<open>
  Histories of admission operations, shared by the fixed-window and the GCRA memory stores: what a
  history of checks and batches admits for one counter, and the interface through which a store bounds
  it. A store promises a potential, what a counter can still be granted until \<open>t\<^sub>1\<close>, that time never
  raises and that every admission pays for.
\<close>

section \<open>Operations and charges\<close>

datatype 'p store_op = Do_Check "'p check" | Do_Batch "'p check list"

fun op_checks :: "'p store_op \<Rightarrow> 'p check list" where
  "op_checks (Do_Check c) = [c]"
| "op_checks (Do_Batch cs) = cs"

definition charge_of :: "counter_key \<Rightarrow> (counter_key \<times> nat) list \<Rightarrow> nat" where
  "charge_of k charges = sum_list (map snd (filter (\<lambda>(k', _). k' = k) charges))"

text \<open>The total cost admitted for one counter over a history, given what one operation does.\<close>

fun admitted :: "('s \<Rightarrow> duration \<Rightarrow> 'o \<Rightarrow> 's \<times> (counter_key \<times> nat) list) \<Rightarrow> counter_key \<Rightarrow> 's \<Rightarrow>
    (duration \<times> 'o) list \<Rightarrow> nat" where
  "admitted step k s [] = 0"
| "admitted step k s ((d, op) # ops) =
     (let (s', charges) = step s d op in charge_of k charges + admitted step k s' ops)"

text \<open>Readings of a monotonic clock between \<open>t\<^sub>0\<close> and \<open>t\<^sub>1\<close> milliseconds.\<close>

fun timed_history :: "('o \<Rightarrow> bool) \<Rightarrow> nat \<Rightarrow> nat \<Rightarrow> (duration \<times> 'o) list \<Rightarrow> bool" where
  "timed_history op_ok t0 t1 [] \<longleftrightarrow> t0 \<le> t1"
| "timed_history op_ok t0 t1 ((d, op) # ops) \<longleftrightarrow>
     t0 \<le> as_millis d \<and> as_millis d \<le> t1 \<and> d \<le> duration_MAX \<and> op_ok op \<and>
     timed_history op_ok (as_millis d) t1 ops"

lemma charge_of_simps [simp]:
  "charge_of k [] = 0" "charge_of k ((k', n) # xs) = (if k' = k then n else 0) + charge_of k xs"
  by (simp_all add: charge_of_def)

lemma charge_of_batch:
  "distinct (map f cs) \<Longrightarrow> charge_of k (map (\<lambda>c. (f c, chk_cost c)) cs) =
     (case List.find (\<lambda>c. f c = k) cs of None \<Rightarrow> 0 | Some c \<Rightarrow> chk_cost c)"
proof (induction cs)
  case (Cons c cs)
  show ?case
  proof (cases "f c = k")
    case True
    with Cons.prems have "k \<notin> f ` set cs" by simp
    then have "List.find (\<lambda>c. f c = k) cs = None" by (auto simp: find_None_iff)
    with Cons True show ?thesis by simp
  qed (use Cons in simp)
qed simp

section \<open>Stores that bound what they admit\<close>

locale metered_store =
  fixes step :: "'s \<Rightarrow> duration \<Rightarrow> 'o \<Rightarrow> 's \<times> (counter_key \<times> nat) list"
    and ok :: "'s \<Rightarrow> nat \<Rightarrow> bool"
    and op_ok :: "'o \<Rightarrow> bool"
    and k :: counter_key
    and unit_cost :: nat
    and t1 :: nat
    and pot :: "'s \<Rightarrow> nat \<Rightarrow> nat"
  assumes ok_later: "ok s t \<Longrightarrow> t \<le> u \<Longrightarrow> ok s u"
    and pot_later: "ok s t \<Longrightarrow> t \<le> u \<Longrightarrow> u \<le> t1 \<Longrightarrow> pot s u \<le> pot s t"
    and step_ok: "ok s (as_millis d) \<Longrightarrow> d \<le> duration_MAX \<Longrightarrow> op_ok op \<Longrightarrow> step s d op = (s', charges) \<Longrightarrow>
      ok s' (as_millis d)"
    and step_pays: "ok s (as_millis d) \<Longrightarrow> d \<le> duration_MAX \<Longrightarrow> op_ok op \<Longrightarrow> step s d op = (s', charges) \<Longrightarrow>
      as_millis d \<le> t1 \<Longrightarrow> charge_of k charges * unit_cost + pot s' (as_millis d) \<le> pot s (as_millis d)"
begin

lemma admitted_le_potential:
  "ok s t0 \<Longrightarrow> timed_history op_ok t0 t1 ops \<Longrightarrow> admitted step k s ops * unit_cost \<le> pot s t0"
proof (induction ops arbitrary: s t0)
  case (Cons x ops)
  obtain d op where x: "x = (d, op)" by fastforce
  obtain s' charges where step: "step s d op = (s', charges)" by fastforce
  let ?now = "as_millis d"
  from Cons.prems x have t: "t0 \<le> ?now" "?now \<le> t1" "d \<le> duration_MAX" "op_ok op"
    and rest: "timed_history op_ok ?now t1 ops" by auto
  note now = ok_later [OF Cons.prems(1) t(1)]
  have "admitted step k s (x # ops) * unit_cost = charge_of k charges * unit_cost + admitted step k s' ops * unit_cost"
    using x step by (simp add: add_mult_distrib)
  also have "\<dots> \<le> charge_of k charges * unit_cost + pot s' ?now"
    using Cons.IH [OF step_ok [OF now t(3,4) step] rest] by simp
  also have "\<dots> \<le> pot s ?now" by (rule step_pays [OF now t(3,4) step t(2)])
  also have "\<dots> \<le> pot s t0" using Cons.prems(1) t(1,2) by (rule pot_later)
  finally show ?case .
qed simp

lemma ok_after:
  "ok s t0 \<Longrightarrow> timed_history op_ok t0 t1 ops \<Longrightarrow> ok (fold (\<lambda>(d, op) s. fst (step s d op)) ops s) t1"
proof (induction ops arbitrary: s t0)
  case Nil
  then show ?case using ok_later by simp
next
  case (Cons x ops)
  obtain d op where x: "x = (d, op)" by fastforce
  with Cons.prems have t: "t0 \<le> as_millis d" "d \<le> duration_MAX" "op_ok op"
    and rest: "timed_history op_ok (as_millis d) t1 ops" by auto
  have "ok (fst (step s d op)) (as_millis d)"
    using step_ok [OF ok_later [OF Cons.prems(1) t(1)] t(2,3)] by (metis prod.collapse)
  from Cons.IH [OF this rest] show ?case using x by simp
qed

end

text \<open>A live entry seen later.\<close>

lemma live_later:
  "t \<le> u \<Longrightarrow> bs_live bs u k = (case bs_live bs t k of None \<Rightarrow> None | Some (v, e) \<Rightarrow> if u < e then Some (v, e) else None)"
  by (auto simp: bs_live_def shard.live_def split: option.splits)

lemma new_shards_live:
  assumes "config_ok config" shows "bs_live (BoundedShards_new config :: 'e bounded_shards) t k = None"
proof -
  let ?bs = "BoundedShards_new config :: 'e bounded_shards"
  have "?bs \<noteq> []" using assms by (simp add: BoundedShards_new_def config_ok_def)
  then have "shard_index ?bs k < shard_count config"
    using shard_index_less [of ?bs k] by (simp add: BoundedShards_new_def)
  then have "mx_shard (?bs ! shard_index ?bs k) = Shard_new (shard_capacity config (shard_index ?bs k))"
    by (simp add: BoundedShards_new_def)
  then show ?thesis
    by (simp add: bs_live_def shard.live_def) (simp add: Shard_new_def shard_map_def)
qed

lemma batch_now_latest:
  assumes "bs \<noteq> []" "batch_now bs keys obs now" "\<forall>i < length bs. bs_latest bs i \<le> obs"
  shows "now = obs"
  using assms(2,3) shard_index_less [OF assms(1)] unfolding batch_now_def by (auto intro!: Max_eqI)

section \<open>Concrete instances\<close>

definition sample_config :: memory_store_config where
  "sample_config = \<lparr>max_keys = 10, shard_count = 1, max_expired_removals_per_check = 8, max_batch_size = 32\<rparr>"

lemma sample_config_ok: "config_ok sample_config"
  by (simp add: sample_config_def config_ok_def)

end
