(* ===== verification/Memory_Limits.thy ===== *)
theory Memory_Limits
  imports Store_History
begin

text \<open>
  The guarantees of the fixed-window memory store: the per-window bound over arbitrary histories of
  checks and batches, all-or-nothing batches, bounded storage, and the independence of results from
  observers.
\<close>

section \<open>Histories\<close>

type_synonym fw_op = "fixed_window_policy store_op"

text \<open>One operation at a clock reading: the new store and the charges it admitted.\<close>

definition ms_step :: "memory_store \<Rightarrow> duration \<Rightarrow> fw_op \<Rightarrow> memory_store \<times> (counter_key \<times> nat) list" where
  "ms_step store d op =
     (case op of
        Do_Check c \<Rightarrow>
          (case check_inner store (Some d) 0 c of
             (store', Some (Ok ev)) \<Rightarrow>
               (store', case Decision_view (ev_value ev) of DV_Allowed _ \<Rightarrow> [(fkey c, chk_cost c)] | _ \<Rightarrow> [])
           | (store', _) \<Rightarrow> (store', []))
      | Do_Batch cs \<Rightarrow>
          (case check_all_inner store (Some d) (\<lambda>_. 0) cs of
             (store', Some (Ok ev)) \<Rightarrow>
               (store', case BatchDecision_view (ev_value ev) of
                  BV_Allowed _ \<Rightarrow> map (\<lambda>c. (fkey c, chk_cost c)) cs | _ \<Rightarrow> [])
           | (store', _) \<Rightarrow> (store', [])))"

text \<open>Checks built by the constructors, and one limit and window for the counter \<open>k\<close> (no fingerprint
  collision).\<close>

definition fw_op_ok :: "counter_key \<Rightarrow> nat \<Rightarrow> nat \<Rightarrow> fw_op \<Rightarrow> bool" where
  "fw_op_ok k L W op \<longleftrightarrow> (\<forall>c \<in> set (op_checks op). fw_check_ok c \<and>
     (fkey c = k \<longrightarrow> capacity_get (fwp_limit (chk_policy c)) = L \<and> period_millis (fwp_window (chk_policy c)) = W))"

section \<open>One operation\<close>

definition latest_le :: "memory_store \<Rightarrow> nat \<Rightarrow> bool" where
  "latest_le store t \<longleftrightarrow> (\<forall>i < length (ms_shards store). bs_latest (ms_shards store) i \<le> t)"

text \<open>The effect of an operation at \<open>now\<close> on one counter: nothing, or the consumption of one check.\<close>

definition key_effect :: "memory_store \<Rightarrow> nat \<Rightarrow> fixed_window_policy check list \<Rightarrow> counter_key \<Rightarrow> memory_store \<Rightarrow> nat \<Rightarrow> bool" where
  "key_effect store now cs k store' charge \<longleftrightarrow>
     charge = 0 \<and> (\<forall>t \<ge> now. bs_live (ms_shards store') t k = bs_live (ms_shards store) t k) \<or>
     (\<exists>c \<in> set cs. fkey c = k \<and> charge = chk_cost c \<and>
        \<not> fw_exceeds (pc_of c) (bs_live (ms_shards store) now k) \<and>
        (\<forall>t \<ge> now. bs_live (ms_shards store') t k = fw_apply now (pc_of c) (bs_live (ms_shards store) now k) t))"

lemma step_unchanged: "key_effect store now cs k store 0"
  by (simp add: key_effect_def)

lemma check_step_effect:
  assumes ok: "ms_ok store" "latest_le store (as_millis d)" and d: "d \<le> duration_MAX" and c: "fw_check_ok c"
    and step: "ms_step store d (Do_Check c) = (store', charges)"
  shows "ms_ok store' \<and> latest_le store' (as_millis d) \<and>
    key_effect store (as_millis d) [c] k store' (charge_of k charges)"
proof (cases "mx_poisoned (ms_shards store ! shard_index (ms_shards store) (fkey c))")
  case True
  then have "store' = store \<and> charges = []"
    using check_inner_poisoned [OF ok(1) True] step by (simp add: ms_step_def)
  then show ?thesis using ok step_unchanged by simp
next
  case False
  let ?bs = "ms_shards store" and ?now = "as_millis d"
  let ?i = "shard_index ?bs (fkey c)"
  have i: "?i < length ?bs"
    using ok(1) shard_index_less [OF shards_ok_nonempty] by (simp add: ms_ok_def)
  then have now: "max (as_millis d) (bs_latest ?bs ?i) = ?now" using ok(2) by (simp add: latest_le_def max_absorb1)
  obtain store1 ev where s: "check_inner store (Some d) 0 c = (store1, Some (Ok ev))" "ms_ok store1"
    "length (ms_shards store1) = length ?bs" "bs_latest (ms_shards store1) ?i = ?now"
    "\<forall>j < length ?bs. j \<noteq> ?i \<longrightarrow> ms_shards store1 ! j = ?bs ! j"
    and cases: "if fw_exceeds (pc_of c) (bs_live ?bs ?now (fkey c)) then
       ev_value ev = fw_denied_decision c (fw_denial (pc_of c) ?now (bs_live ?bs ?now (fkey c))) \<and>
       (\<forall>t \<ge> ?now. bs_live (ms_shards store1) t = bs_live ?bs t)
     else (\<exists>r. ev_value ev = Decision_denied (StorageCapacity r)) \<and>
         (\<forall>t \<ge> ?now. bs_live (ms_shards store1) t = bs_live ?bs t) \<and>
         bs_live ?bs ?now (fkey c) = None \<and>
         card {k'. shard.live ?now (mx_shard (?bs ! ?i)) k' \<noteq> None} = shard_capacity (ms_config store) ?i
       \<or> ev_value ev = Decision_allowed (fw_allowance (pc_of c) ?now (bs_live ?bs ?now (fkey c))) \<and>
         (\<forall>t \<ge> ?now. bs_live (ms_shards store1) t =
            (bs_live ?bs t)(fkey c := fw_apply ?now (pc_of c) (bs_live ?bs ?now (fkey c)) t))"
    using check_inner_spec [OF ok(1) c d False, of 0] unfolding now by blast
  have store': "store' = store1" and charges: "charges = (case Decision_view (ev_value ev) of
      DV_Allowed _ \<Rightarrow> [(fkey c, chk_cost c)] | _ \<Rightarrow> [])"
    using step s(1) by (auto simp: ms_step_def)
  have latest: "latest_le store1 ?now"
    unfolding latest_le_def
  proof (intro allI impI)
    fix j assume "j < length (ms_shards store1)"
    then show "bs_latest (ms_shards store1) j \<le> ?now"
      using s(3-5) ok(2) by (cases "j = ?i") (simp_all add: latest_le_def bs_latest_def)
  qed
  have "key_effect store ?now [c] k store1 (charge_of k charges)"
  proof (cases "\<exists>a. ev_value ev = Decision_allowed a")
    case True
    then have "\<not> fw_exceeds (pc_of c) (bs_live ?bs ?now (fkey c)) \<and> (\<forall>t \<ge> ?now. bs_live (ms_shards store1) t =
            (bs_live ?bs t)(fkey c := fw_apply ?now (pc_of c) (bs_live ?bs ?now (fkey c)) t))"
      using cases by (auto simp: fw_denied_decision_def decision_con_defs split: if_splits)
    moreover have "charges = [(fkey c, chk_cost c)]" using True charges by auto
    ultimately show ?thesis by (auto simp: key_effect_def)
  next
    case False
    then have "\<forall>t \<ge> ?now. bs_live (ms_shards store1) t = bs_live ?bs t" using cases by (auto split: if_splits)
    moreover have "charges = []" using False charges by (cases "ev_value ev" rule: decision_exhaust) auto
    ultimately show ?thesis by (auto simp: key_effect_def)
  qed
  then show ?thesis using store' s(2) latest by simp
qed

lemma batch_step_effect:
  assumes ok: "ms_ok store" "latest_le store (as_millis d)" and d: "d \<le> duration_MAX"
    and cs: "\<forall>c \<in> set cs. fw_check_ok c" and step: "ms_step store d (Do_Batch cs) = (store', charges)"
  shows "ms_ok store' \<and> latest_le store' (as_millis d) \<and>
    key_effect store (as_millis d) cs k store' (charge_of k charges)"
proof -
  let ?bs = "ms_shards store" and ?keys = "map fkey cs" and ?now = "as_millis d"
  let ?valid = "batch_ok FixedWindowPolicy (max_batch_size (ms_config store)) cs"
    and ?fits = "\<forall>i. count_list (map (shard_index ?bs) ?keys) i \<le> shard_capacity (ms_config store) i"
  show ?thesis
  proof (cases "?valid \<and> ?fits \<and> \<not> touches_poisoned ?bs ?keys")
    case False
    then have "\<exists>e. check_all_inner store (Some d) (\<lambda>_. 0) cs = (store, Some (Err e))"
    proof (cases "validate_batch FixedWindowPolicy cs (max_batch_size (ms_config store))")
      case (Inl e)
      then show ?thesis using check_all_inner_errors(1) [OF ok(1)] by blast
    next
      case (Inr u)
      then have valid: ?valid using validate_batch_Ok [of FixedWindowPolicy cs] by simp
      show ?thesis using False check_all_inner_errors(2,3) [OF ok(1) valid] valid by metis
    qed
    then have "store' = store \<and> charges = []" using step by (auto simp: ms_step_def)
    then show ?thesis using ok step_unchanged by simp
  next
    case True
    then obtain now store1 ev where s: "check_all_inner store (Some d) (\<lambda>_. 0) cs = (store1, Some (Ok ev))"
      "batch_now ?bs ?keys (as_millis d) now" "ms_ok store1" "ms_config store1 = ms_config store"
      "\<forall>i < length ?bs. bs_latest (ms_shards store1) i \<le> max now (bs_latest ?bs i)"
      and post: "fw_batch_denied store now cs store1 (ev_value ev) \<or> fw_batch_allowed store now cs store1 (ev_value ev)"
      using check_all_inner_spec [OF ok(1) cs d, of "\<lambda>_. 0"] by blast
    have ne: "?bs \<noteq> []" using ok(1) shards_ok_nonempty by (auto simp: ms_ok_def)
    have now: "now = ?now" using batch_now_latest [OF ne s(2)] ok(2) by (simp add: latest_le_def)
    have len: "length (ms_shards store1) = length ?bs" using s(3,4) ok(1) by (simp add: ms_ok_def shards_ok_def)
    have latest: "latest_le store1 ?now" using s(5) ok(2) len now by (fastforce simp: latest_le_def)
    have store': "store' = store1" and charges: "charges = (case BatchDecision_view (ev_value ev) of
        BV_Allowed _ \<Rightarrow> map (\<lambda>c. (fkey c, chk_cost c)) cs | _ \<Rightarrow> [])"
      using step s(1) by (auto simp: ms_step_def)
    from post have "key_effect store ?now cs k store1 (charge_of k charges)"
    proof
      assume denied: "fw_batch_denied store now cs store1 (ev_value ev)"
      then have "charges = []" unfolding charges
        by (auto simp: fw_batch_denied_def fw_stop_def Let_def BatchDecision_view_def split: if_splits)
      with denied now show ?thesis by (auto simp: fw_batch_denied_def key_effect_def)
    next
      assume allowed: "fw_batch_allowed store now cs store1 (ev_value ev)"
      then have ch: "charges = map (\<lambda>c. (fkey c, chk_cost c)) cs"
        unfolding charges by (simp add: fw_batch_allowed_def BatchDecision_view_def)
      have dist: "distinct (map fkey cs)" using True by (simp add: batch_ok_def)
      show ?thesis
      proof (cases "List.find (\<lambda>c. fkey c = k) cs")
        case None
        then show ?thesis using allowed now ch charge_of_batch [OF dist, of k]
          by (simp add: fw_batch_allowed_def key_effect_def)
      next
        case (Some c)
        then have c: "c \<in> set cs" "fkey c = k" by (auto simp: find_Some_iff)
        then show ?thesis using Some allowed now ch charge_of_batch [OF dist, of k]
          by (auto simp: fw_batch_allowed_def key_effect_def)
      qed
    qed
    then show ?thesis using store' s(3) latest by simp
  qed
qed

lemma step_effect:
  assumes "ms_ok store" "latest_le store (as_millis d)" "d \<le> duration_MAX"
    "\<forall>c \<in> set (op_checks op). fw_check_ok c" "ms_step store d op = (store', charges)"
  shows "ms_ok store' \<and> latest_le store' (as_millis d) \<and>
    key_effect store (as_millis d) (op_checks op) k store' (charge_of k charges)"
proof (cases op)
  case (Do_Check c)
  then show ?thesis using check_step_effect [OF assms(1-3)] assms(4,5) by simp
next
  case (Do_Batch cs)
  then show ?thesis using batch_step_effect [OF assms(1-3)] assms(4,5) by simp
qed

section \<open>The window bound\<close>

text \<open>How much a counter can still admit until \<open>t\<^sub>1\<close>, given its live entry at \<open>t\<close>.\<close>

definition fw_potential :: "nat \<Rightarrow> nat \<Rightarrow> nat \<Rightarrow> nat \<Rightarrow> (fw_entry \<times> nat) option \<Rightarrow> nat" where
  "fw_potential L W t1 t st =
     (case st of
        None \<Rightarrow> L * (1 + (t1 - t) div W)
      | Some (v, e) \<Rightarrow> (L - fe_used v) + (if e \<le> t1 then L * (1 + (t1 - e) div W) else 0))"

lemma potential_advance:
  assumes "t \<le> u" "u \<le> t1"
  shows "fw_potential L W t1 u (bs_live bs u k) \<le> fw_potential L W t1 t (bs_live bs t k)"
proof (cases "bs_live bs t k")
  case None
  have "(t1 - u) div W \<le> (t1 - t) div W" using assms by (intro div_le_mono) simp
  with None show ?thesis using live_later [OF assms(1), of bs k] by (simp add: fw_potential_def)
next
  case (Some x)
  obtain v e where x: "x = (v, e)" by fastforce
  show ?thesis
  proof (cases "u < e")
    case True
    then show ?thesis using Some x live_later [OF assms(1), of bs k] by (simp add: fw_potential_def)
  next
    case False
    then have "(t1 - u) div W \<le> (t1 - e) div W" by (intro div_le_mono) simp
    then have le: "L * (1 + (t1 - u) div W) \<le> (L - fe_used v) + L * (1 + (t1 - e) div W)"
      using mult_le_mono2 [of "1 + (t1 - u) div W" "1 + (t1 - e) div W" L] by linarith
    have "bs_live bs u k = None" using False Some x live_later [OF assms(1), of bs k] by simp
    then have "fw_potential L W t1 u (bs_live bs u k) = L * (1 + (t1 - u) div W)"
      by (simp only: fw_potential_def option.case)
    moreover have "fw_potential L W t1 t (bs_live bs t k) = (L - fe_used v) + L * (1 + (t1 - e) div W)"
      using False assms(2) by (simp add: fw_potential_def Some x)
    ultimately show ?thesis using le by (simp only:)
  qed
qed

lemma potential_consume:
  assumes pc: "capacity_get (pc_limit pc) = L" "pc_window_millis pc = W" "0 < W" "pc_cost pc \<le> L"
    and fits: "\<not> fw_exceeds pc st" and now: "now \<le> t1" and st: "\<And>v e. st = Some (v, e) \<Longrightarrow> now < e"
  shows "pc_cost pc + fw_potential L W t1 now (fw_apply now pc st now) \<le> fw_potential L W t1 now st"
proof (cases st)
  case None
  have app: "fw_apply now pc st now = Some (\<lparr>fe_used = pc_cost pc\<rparr>, now + W)"
    using None pc(2,3) by (simp add: fw_apply_def fw_next_def)
  show ?thesis
  proof (cases "now + W \<le> t1")
    case True
    then have "(t1 - now) div W = Suc ((t1 - (now + W)) div W)"
      using pc(3) by (subst le_div_geq) (simp_all add: diff_diff_add)
    then show ?thesis using True app None pc(4) by (simp add: fw_potential_def algebra_simps)
  next
    case False
    have "pc_cost pc + (L - pc_cost pc) \<le> L * (1 + (t1 - now) div W)" using pc(4) by simp
    then show ?thesis using False app None by (simp add: fw_potential_def)
  qed
next
  case (Some x)
  obtain v e where x: "x = (v, e)" by fastforce
  have "fw_apply now pc st now = Some (\<lparr>fe_used = fe_used v + pc_cost pc\<rparr>, e)"
    using Some x st by (simp add: fw_apply_def fw_next_def)
  moreover have "fe_used v + pc_cost pc \<le> L" using fits Some x pc(1) by (simp add: fw_exceeds_def)
  ultimately show ?thesis using Some x by (simp add: fw_potential_def)
qed

lemma potential_effect:
  assumes eff: "key_effect store now cs k store' charge" and now: "now \<le> t1"
    and cs: "\<forall>c \<in> set cs. fw_check_ok c \<and> (fkey c = k \<longrightarrow> capacity_get (fwp_limit (chk_policy c)) = L \<and>
      period_millis (fwp_window (chk_policy c)) = W)"
  shows "charge + fw_potential L W t1 now (bs_live (ms_shards store') now k) \<le>
    fw_potential L W t1 now (bs_live (ms_shards store) now k)"
proof -
  from eff consider "charge = 0" "bs_live (ms_shards store') now k = bs_live (ms_shards store) now k"
    | c where "c \<in> set cs" "fkey c = k" "charge = chk_cost c"
      "\<not> fw_exceeds (pc_of c) (bs_live (ms_shards store) now k)"
      "bs_live (ms_shards store') now k = fw_apply now (pc_of c) (bs_live (ms_shards store) now k) now"
    by (auto simp: key_effect_def)
  then show ?thesis
  proof cases
    case (2 c)
    have "prepared_ok (pc_of c)" using 2(1) cs prepared_check_ok by blast
    then show ?thesis
      using potential_consume [of "pc_of c" L W "bs_live (ms_shards store) now k" now t1] 2 cs now
      by (auto simp: prepared_ok_def bs_live_def live_Some)
  qed simp
qed

interpretation fw_store: metered_store ms_step "\<lambda>s t. ms_ok s \<and> latest_le s t" "fw_op_ok k L W" k 1 t1
    "\<lambda>s t. fw_potential L W t1 t (bs_live (ms_shards s) t k)" for k L W t1
proof (unfold_locales, goal_cases)
  case (1 s t u)
  then show ?case by (auto simp: latest_le_def)
next
  case (2 s t u)
  then show ?case by (intro potential_advance)
next
  case (3 s d op s' charges)
  then show ?case using step_effect [of s d op s' charges k] by (auto simp: fw_op_ok_def)
next
  case (4 s d op s' charges)
  then have "key_effect s (as_millis d) (op_checks op) k s' (charge_of k charges)"
    using step_effect [of s d op s' charges k] by (auto simp: fw_op_ok_def)
  from potential_effect [OF this 4(5)] 4(3) show ?case by (simp add: fw_op_ok_def)
qed

lemma potential_bound:
  "fw_potential L W t1 t (bs_live bs t k) \<le>
     (case bs_live bs t k of None \<Rightarrow> 0 | Some (v, e) \<Rightarrow> L - fe_used v) + L * (1 + (t1 - t) div W)"
proof (cases "bs_live bs t k")
  case (Some x)
  obtain v e where x: "x = (v, e)" by fastforce
  then have "t < e" using Some by (simp add: bs_live_def live_Some)
  then have "(t1 - e) div W \<le> (t1 - t) div W" by (intro div_le_mono) simp
  then have "L * (1 + (t1 - e) div W) \<le> L * (1 + (t1 - t) div W)" by simp
  then show ?thesis using Some x by (simp add: fw_potential_def)
qed (simp add: fw_potential_def)

lemma new_store_ok: "config_ok config \<Longrightarrow> ms_ok (MemoryStore_new config)"
  by (simp add: ms_ok_def MemoryStore_new_def shards_ok_new)

lemma new_store_latest: "latest_le (MemoryStore_new config) t"
  by (simp add: latest_le_def MemoryStore_new_def BoundedShards_new_def bs_latest_def Shard_new_def)

lemma new_store_live:
  "config_ok config \<Longrightarrow> bs_live (ms_shards (MemoryStore_new config)) t k = None"
  by (simp add: MemoryStore_new_def new_shards_live)

section \<open>Reachable stores\<close>

definition clock_ok :: "duration option \<Rightarrow> bool" where
  "clock_ok clock = (case clock of None \<Rightarrow> True | Some d \<Rightarrow> d \<le> duration_MAX)"

text \<open>Every store that the public operations can produce, a panicking clock included.\<close>

inductive ms_reach :: "memory_store_config \<Rightarrow> memory_store \<Rightarrow> bool" for config where
  reach_new: "config_ok config \<Longrightarrow> ms_reach config (MemoryStore_new config)"
| reach_check: "ms_reach config s \<Longrightarrow> fw_check_ok c \<Longrightarrow> clock_ok clock \<Longrightarrow>
    ms_reach config (fst (check_inner s clock el c))"
| reach_batch: "ms_reach config s \<Longrightarrow> \<forall>c \<in> set cs. fw_check_ok c \<Longrightarrow> clock_ok clock \<Longrightarrow>
    ms_reach config (fst (check_all_inner s clock timer cs))"
| reach_clear: "ms_reach config s \<Longrightarrow> ms_reach config (fst (ms_clear s))"
| reach_recover: "ms_reach config s \<Longrightarrow> ms_reach config (fst (ms_recover_poisoned s))"

lemma check_inner_ok:
  assumes "ms_ok s" "fw_check_ok c" "clock_ok clock"
  shows "ms_ok (fst (check_inner s clock el c)) \<and> ms_config (fst (check_inner s clock el c)) = ms_config s"
proof (cases "mx_poisoned (ms_shards s ! shard_index (ms_shards s) (fkey c))")
  case True
  then show ?thesis using check_inner_poisoned [OF assms(1) True] assms(1) by simp
next
  case False
  show ?thesis
  proof (cases clock)
    case None
    have "shard_index (ms_shards s) (fkey c) < length (ms_shards s)"
      using assms(1) shard_index_less [OF shards_ok_nonempty] by (simp add: ms_ok_def)
    then show ?thesis using None False assms(1)
      by (simp add: check_inner_def lock_shard_def ms_ok_def shards_ok_poison)
  next
    case (Some d)
    then have "d \<le> duration_MAX" using assms(3) by (simp add: clock_ok_def)
    from check_inner_spec [OF assms(1,2) this False, of el] Some show ?thesis by auto
  qed
qed

lemma check_all_inner_no_clock:
  assumes "ms_ok s" shows "ms_ok (fst (check_all_inner s None timer cs)) \<and>
    ms_config (fst (check_all_inner s None timer cs)) = ms_config s"
  using assms by (simp add: check_all_inner_def ms_ok_def shards_ok_poison split: sum.splits option.splits)

lemma check_all_inner_ok:
  assumes "ms_ok s" "\<forall>c \<in> set cs. fw_check_ok c" "clock_ok clock"
  shows "ms_ok (fst (check_all_inner s clock timer cs)) \<and> ms_config (fst (check_all_inner s clock timer cs)) = ms_config s"
proof (cases clock)
  case None
  then show ?thesis using check_all_inner_no_clock [OF assms(1)] by simp
next
  case (Some d)
  then have d: "d \<le> duration_MAX" using assms(3) by (simp add: clock_ok_def)
  let ?keys = "map fkey cs" and ?bs = "ms_shards s"
  consider (ok) "batch_ok FixedWindowPolicy (max_batch_size (ms_config s)) cs"
      "\<forall>i. count_list (map (shard_index ?bs) ?keys) i \<le> shard_capacity (ms_config s) i"
      "\<not> touches_poisoned ?bs ?keys"
    | (err) e where "check_all_inner s clock timer cs = (s, Some (Err e))"
  proof (cases "validate_batch FixedWindowPolicy cs (max_batch_size (ms_config s))")
    case (Inl e)
    then show thesis using check_all_inner_errors(1) [OF assms(1)] that(2) by blast
  next
    case (Inr u)
    then have valid: "batch_ok FixedWindowPolicy (max_batch_size (ms_config s)) cs"
      using validate_batch_Ok [of FixedWindowPolicy cs] by simp
    show thesis using check_all_inner_errors(2,3) [OF assms(1) valid, of clock timer] valid that by metis
  qed
  then show ?thesis
  proof cases
    case ok
    from check_all_inner_spec [OF assms(1,2) d ok, of timer] Some show ?thesis by auto
  next
    case err
    then show ?thesis using assms(1) by simp
  qed
qed

lemma ms_reach_ok: "ms_reach config s \<Longrightarrow> ms_ok s \<and> ms_config s = config"
proof (induction rule: ms_reach.induct)
  case reach_new
  then show ?case by (simp add: new_store_ok) (simp add: MemoryStore_new_def)
next
  case (reach_check s c clock el)
  then show ?case using check_inner_ok by simp
next
  case (reach_batch s cs clock timer)
  then show ?case using check_all_inner_ok by simp
next
  case (reach_clear s)
  then show ?case using shards_ok_clear [of config "ms_shards s"]
    by (cases "BoundedShards_clear (ms_shards s)") (auto simp: ms_clear_def ms_ok_def)
next
  case (reach_recover s)
  then show ?case using shards_ok_recover [of config "ms_shards s"]
    by (cases "recover_poisoned_shards (ms_shards s) config") (auto simp: ms_recover_poisoned_def ms_ok_def)
qed

lemma stats_spec:
  assumes "ms_ok s"
  shows "case ms_stats s of
      Some (Ok st) \<Rightarrow> st_entries st \<le> max_keys (ms_config s) \<and> st_capacity st = max_keys (ms_config s)
    | Some (Err e) \<Rightarrow> 0 < poisoned_count (ms_shards s)
    | None \<Rightarrow> False"
proof -
  let ?bs = "ms_shards s"
  have lock: "lock_shards ?bs [0..<length ?bs] = Some (case List.find (\<lambda>i. mx_poisoned (?bs ! i)) [0..<length ?bs] of
            Some i \<Rightarrow> Err (PoisonedShardError i)
          | None \<Rightarrow> Ok (map (\<lambda>i. (i, mx_shard (?bs ! i))) [0..<length ?bs]))"
    by (rule lock_shards_Some) auto
  show ?thesis
  proof (cases "List.find (\<lambda>i. mx_poisoned (?bs ! i)) [0..<length ?bs]")
    case None
    then have "\<forall>m \<in> set ?bs. \<not> mx_poisoned m" by (auto simp: find_None_iff in_set_conv_nth)
    then have "poisoned_count ?bs = 0" by (simp add: poisoned_count_def filter_empty_conv)
    then have "(\<Sum>i < length ?bs. used (mx_shard (?bs ! i))) \<le> max_keys (ms_config s)"
      using total_used_bound assms by (simp add: ms_ok_def)
    moreover have "sum_list (map (\<lambda>i. used (mx_shard (?bs ! i))) [0..<length ?bs]) = (\<Sum>i < length ?bs. used (mx_shard (?bs ! i)))"
      by (simp add: sum_list_sum_nth atLeast0LessThan)
    ultimately show ?thesis using lock None by (simp add: ms_stats_def BoundedShards_stats_def comp_def)
  next
    case (Some i)
    then have "\<exists>m \<in> set ?bs. mx_poisoned m" by (auto simp: find_Some_iff)
    then have "0 < poisoned_count ?bs" by (auto simp: poisoned_count_def filter_empty_conv)
    then show ?thesis using lock Some by (simp add: ms_stats_def BoundedShards_stats_def)
  qed
qed

section \<open>Concrete instances\<close>

definition sample_check :: "nat \<Rightarrow> nat \<Rightarrow> fixed_window_policy check" where
  "sample_check limit cost =
     \<lparr>chk_policy = sample_fwp (take 32) limit, chk_subject = SubjectKey [7], chk_cost = cost\<rparr>"

lemma sample_check_ok: "0 < n \<Longrightarrow> n \<le> m \<Longrightarrow> m \<le> 1000000 \<Longrightarrow> fw_check_ok (sample_check m n)"
  by (simp add: sample_check_def fw_check_ok_def check_ok_def FixedWindowPolicy_def sample_fwp_def small_values_ok)

lemma sample_new_ok: "ms_ok (MemoryStore_new sample_config)"
  by (rule new_store_ok [OF sample_config_ok])

lemma sample_healthy: "\<not> mx_poisoned (ms_shards (MemoryStore_new sample_config) ! 0)"
  by (simp add: MemoryStore_new_def BoundedShards_new_def sample_config_def)

lemma sample_index: "shard_index (ms_shards (MemoryStore_new sample_config)) k = 0"
  by (simp add: MemoryStore_new_def BoundedShards_new_def sample_config_def shard_index_def)

section \<open>Properties\<close>

text \<open>
  C1: the fixed-window limit holds for every history: whatever single checks and batches are evaluated
  at readings of a monotonic clock between \<open>t\<^sub>0\<close> and \<open>t\<^sub>1\<close>, the cost admitted for one counter is at most
  what the window in force at \<open>t\<^sub>0\<close> still allows plus one full limit for each window that can start
  in that time; in particular at most twice the limit in any interval shorter than a window.
\<close>

theorem memory_window_bound:
  assumes "ms_ok store" "latest_le store t0" "timed_history (fw_op_ok k L W) t0 t1 ops"
  shows "admitted ms_step k store ops \<le>
      (case bs_live (ms_shards store) t0 k of None \<Rightarrow> 0 | Some (v, e) \<Rightarrow> L - fe_used v) + L * (1 + (t1 - t0) div W) \<and>
    (t1 - t0 < W \<longrightarrow> admitted ms_step k store ops \<le> 2 * L)"
proof -
  have le: "admitted ms_step k store ops \<le>
      (case bs_live (ms_shards store) t0 k of None \<Rightarrow> 0 | Some (v, e) \<Rightarrow> L - fe_used v) + L * (1 + (t1 - t0) div W)"
    using fw_store.admitted_le_potential [OF conjI [OF assms(1,2)] assms(3)] potential_bound [of L W t1 t0 "ms_shards store" k] by simp
  moreover have "(case bs_live (ms_shards store) t0 k of None \<Rightarrow> 0 | Some (v, e) \<Rightarrow> L - fe_used v) \<le> L"
    by (auto split: option.splits)
  ultimately show ?thesis by auto
qed

theorem memory_window_bound_witness:
  "admitted ms_step (fkey (sample_check 8 1)) (MemoryStore_new sample_config)
     [(0, Do_Check (sample_check 8 5)), (from_millis 10, Do_Batch [sample_check 8 3]),
      (from_millis 20, Do_Check (sample_check 8 1))] \<le> 8"
proof -
  let ?ops = "[(0, Do_Check (sample_check 8 5)), (from_millis 10, Do_Batch [sample_check 8 3]),
      (from_millis 20, Do_Check (sample_check 8 1))]"
  have "timed_history (fw_op_ok (fkey (sample_check 8 1)) 8 60000) 0 20 ?ops"
    by (simp add: fw_op_ok_def sample_check_ok duration_MAX_def rust_defs) (simp add: sample_check_def sample_fwp_def)
  from memory_window_bound [OF sample_new_ok new_store_latest this] show ?thesis
    by (simp add: new_store_live [OF sample_config_ok])
qed

text \<open>
  C2: a single check on a well-formed store never panics and does exactly what the fixed-window
  specification says. A poisoned shard fails closed and leaves the store alone. Otherwise the check is
  evaluated at the clock reading clamped to the shard's latest instant against the entry in force
  then: it is denied (or shadow-denied) exactly when the cost does not fit, with the time to the end
  of the window as retry delay; it is denied for storage only if the counter is new and its shard is
  full of live counters; else it is allowed and exactly this counter changes. A denial changes no
  live counter.
\<close>

theorem memory_check_correct:
  fixes store c d el
  defines "bs \<equiv> ms_shards store" and "k \<equiv> chk_counter_key FixedWindowPolicy c"
  defines "i \<equiv> shard_index bs k"
  defines "now \<equiv> max (as_millis d) (bs_latest bs i)" and "pc \<equiv> PreparedCheck_new 0 c 0"
  defines "st \<equiv> bs_live bs now k"
  assumes "ms_ok store" "fw_check_ok c" "d \<le> duration_MAX"
  shows "if mx_poisoned (bs ! i)
    then check_inner store (Some d) el c = (store, Some (Err (PoisonedShardError i)))
    else \<exists>store' ev. check_inner store (Some d) el c = (store', Some (Ok ev)) \<and> ms_ok store' \<and>
      (if fw_exceeds pc st then
         ev_value ev = fw_denied_decision c (fw_denial pc now st) \<and>
         (\<forall>t \<ge> now. bs_live (ms_shards store') t = bs_live bs t)
       else (\<exists>r. ev_value ev = Decision_denied (StorageCapacity r)) \<and>
           (\<forall>t \<ge> now. bs_live (ms_shards store') t = bs_live bs t) \<and>
           st = None \<and> card {k'. shard.live now (mx_shard (bs ! i)) k' \<noteq> None} = shard_capacity (ms_config store) i
         \<or> ev_value ev = Decision_allowed (fw_allowance pc now st) \<and>
           (\<forall>t \<ge> now. bs_live (ms_shards store') t = (bs_live bs t)(k := fw_apply now pc st t)))"
proof (cases "mx_poisoned (bs ! i)")
  case True
  then show ?thesis using check_inner_poisoned [OF assms(7), of c] by (simp add: bs_def k_def i_def)
next
  case False
  show ?thesis unfolding if_not_P [OF False]
    using check_inner_spec [OF assms(7-9) False [unfolded bs_def k_def i_def], of el]
    unfolding bs_def k_def i_def now_def pc_def st_def
    by (elim exE conjE) (intro exI conjI; assumption)
qed

theorem memory_check_correct_witness:
  "\<exists>store' ev. check_inner (MemoryStore_new sample_config) (Some 0) 0 (sample_check 8 3) = (store', Some (Ok ev)) \<and>
     ms_ok store'"
  using memory_check_correct [of "MemoryStore_new sample_config" "sample_check 8 3" 0 0]
    sample_new_ok sample_check_ok [of 3 8] sample_healthy
  by (simp add: sample_index duration_MAX_def) blast

text \<open>
  C3: batches are atomic: for a structurally valid batch on healthy shards that it can fit, the call
  never panics and either every check is admitted, with one allowance per check in input order, each
  computed from that counter alone, and exactly these counters change; or the batch stops at the first
  check (in input order) that cannot be admitted, reports its index, and no live counter changes at
  all. A check cannot be admitted exactly when it is over its quota, or when its counter is not live and
  the live counters of its shard, with the earlier checks of the batch that need a new counter there, reach
  the capacity of the shard; a check over its quota is denied for the quota, the other for the storage.
  Everything happens at one instant, the clock reading clamped to every shard involved. (A slice has fewer
  than \<open>2 ^ 64\<close> elements.)
\<close>

theorem memory_batch_atomic:
  fixes store cs d timer
  defines "bs \<equiv> ms_shards store" and "keys \<equiv> map fkey cs"
  assumes "ms_ok store" "\<forall>c \<in> set cs. fw_check_ok c" "d \<le> duration_MAX"
    and "batch_ok FixedWindowPolicy (max_batch_size (ms_config store)) cs"
    and "\<forall>i. count_list (map (shard_index bs) keys) i \<le> shard_capacity (ms_config store) i"
    and "\<not> touches_poisoned bs keys" "length cs < 2 ^ 64"
  shows "\<exists>now store' ev. check_all_inner store (Some d) timer cs = (store', Some (Ok ev)) \<and>
    batch_now bs keys (as_millis d) now \<and> ms_ok store' \<and>
    stop_index (ev_value ev) = List.find (fw_refused store now cs) [0..<length cs] \<and>
    (fw_batch_denied store now cs store' (ev_value ev) \<or> fw_batch_allowed store now cs store' (ev_value ev))"
  using check_all_inner_spec [OF assms(3-5) assms(6) assms(7,8) [unfolded bs_def keys_def], of timer] assms(9)
  unfolding bs_def keys_def by blast

theorem memory_batch_atomic_witness:
  "\<exists>now store' ev. check_all_inner (MemoryStore_new sample_config) (Some 0) (\<lambda>_. 0) [sample_check 8 3] = (store', Some (Ok ev)) \<and>
     batch_now (ms_shards (MemoryStore_new sample_config)) [fkey (sample_check 8 3)] 0 now"
proof -
  have "batch_ok FixedWindowPolicy (max_batch_size (ms_config (MemoryStore_new sample_config))) [sample_check 8 3]"
    by (simp add: batch_ok_def MemoryStore_new_def sample_config_def)
  moreover have "count_list (map (shard_index (ms_shards (MemoryStore_new sample_config))) (map fkey [sample_check 8 3])) i \<le>
      shard_capacity (ms_config (MemoryStore_new sample_config)) i" for i
    by (simp add: sample_index) (simp add: MemoryStore_new_def sample_config_def shard_capacity_def)
  moreover have "\<not> touches_poisoned (ms_shards (MemoryStore_new sample_config)) (map fkey [sample_check 8 3])"
    using sample_healthy by (simp add: touches_poisoned_def sample_index)
  ultimately show ?thesis
    using memory_batch_atomic [OF sample_new_ok, of "[sample_check 8 3]" 0 "\<lambda>_. 0"] sample_check_ok [of 3 8]
    by (auto simp: duration_MAX_def rust_defs)
qed

text \<open>
  A rejected batch changes nothing: a structurally invalid batch, one that targets more keys at a
  shard than it can hold, and one that touches a poisoned shard are all refused with the store
  unchanged, whatever the clock does.
\<close>

theorem memory_batch_rejected_unchanged:
  assumes "ms_ok store"
    and "\<not> batch_ok FixedWindowPolicy (max_batch_size (ms_config store)) cs \<or>
      (\<exists>i. shard_capacity (ms_config store) i < count_list (map (shard_index (ms_shards store)) (map fkey cs)) i) \<or>
      touches_poisoned (ms_shards store) (map fkey cs)"
  shows "\<exists>e. check_all_inner store clock timer cs = (store, Some (Err e))"
proof (cases "validate_batch FixedWindowPolicy cs (max_batch_size (ms_config store))")
  case (Inl e)
  then show ?thesis using check_all_inner_errors(1) [OF assms(1)] by blast
next
  case (Inr u)
  then have valid: "batch_ok FixedWindowPolicy (max_batch_size (ms_config store)) cs"
    using validate_batch_Ok [of FixedWindowPolicy cs] by simp
  show ?thesis
    using assms(2) valid check_all_inner_errors(2,3) [OF assms(1) valid, of clock timer] by (meson leD)
qed

theorem memory_batch_rejected_unchanged_witness:
  "\<exists>e. check_all_inner (MemoryStore_new sample_config) None (\<lambda>_. 0) [] = (MemoryStore_new sample_config, Some (Err e))"
  using memory_batch_rejected_unchanged [OF sample_new_ok, of "[]" None "\<lambda>_. 0"] by (simp add: batch_ok_def)

text \<open>
  C31: storage is hard-bounded in every reachable store, through any interleaving of checks, batches,
  clearing, recovery and clock panics: \<open>stats\<close> never panics and reports at most \<open>max_keys\<close> counters,
  or fails only because a shard is poisoned.
\<close>

theorem memory_storage_bounded:
  assumes "ms_reach config s"
  shows "ms_ok s \<and> (case ms_stats s of
      Some (Ok st) \<Rightarrow> st_entries st \<le> max_keys config \<and> st_capacity st = max_keys config
    | Some (Err e) \<Rightarrow> 0 < poisoned_count (ms_shards s)
    | None \<Rightarrow> False)"
  using ms_reach_ok [OF assms] stats_spec [of s] by auto

theorem memory_storage_bounded_witness:
  "ms_ok (fst (check_inner (MemoryStore_new sample_config) None 0 (sample_check 8 3)))"
proof -
  have "ms_reach sample_config (fst (check_inner (MemoryStore_new sample_config) None 0 (sample_check 8 3)))"
    by (intro reach_check reach_new) (simp_all add: sample_config_ok sample_check_ok clock_ok_def)
  from memory_storage_bounded [OF this] show ?thesis by simp
qed

text \<open>
  C32: the retry delay of a quota denial is exact: if an enforced check is quota-denied at \<open>now\<close> with
  retry delay \<open>r\<close>, then the same check, evaluated next on that store at any later clock reading, is
  quota-denied again exactly while less than \<open>r\<close> has elapsed.
\<close>

theorem memory_retry_exact:
  fixes store c d
  defines "i \<equiv> shard_index (ms_shards store) (fkey c)"
  defines "now \<equiv> max (as_millis d) (bs_latest (ms_shards store) i)"
  assumes ok: "ms_ok store" "fw_check_ok c" "d \<le> duration_MAX" and mode: "fwp_quota_mode (chk_policy c) = Enforce"
    and first: "check_inner store (Some d) el c = (store', Some (Ok ev))"
      "ev_value ev = Decision_denied (QuotaExceeded q)"
    and later: "now \<le> as_millis d'" "d' \<le> duration_MAX"
  shows "\<exists>r > 0. delay_duration (qd_retry_after q) = from_millis r \<and>
    (\<exists>store'' ev'. check_inner store' (Some d') el' c = (store'', Some (Ok ev')) \<and>
      ((\<exists>q'. ev_value ev' = Decision_denied (QuotaExceeded q')) \<longleftrightarrow> as_millis d' < now + r))"
proof -
  let ?bs = "ms_shards store" and ?k = "fkey c"
  have healthy: "\<not> mx_poisoned (?bs ! i)"
    using first(1) check_inner_poisoned [OF ok(1), of c] unfolding i_def by auto
  let ?st = "bs_live ?bs now ?k"
  have spec1: "ms_ok store'" "length (ms_shards store') = length ?bs" "bs_latest (ms_shards store') i = now"
    "mx_poisoned (ms_shards store' ! i) = False" "fw_exceeds (pc_of c) ?st"
    "q = fw_denial (pc_of c) now ?st" "\<forall>t \<ge> now. bs_live (ms_shards store') t = bs_live ?bs t"
    using check_inner_spec [OF ok healthy [unfolded i_def], of el] first mode unfolding i_def [symmetric] now_def [symmetric]
    by (auto simp: fw_denied_decision_def decision_con_defs split: if_splits)
  then obtain v e where st: "?st = Some (v, e)" and ve: "capacity_get (fwp_limit (chk_policy c)) < fe_used v + chk_cost c"
    by (auto simp: fw_exceeds_def split: option.splits)
  then have e: "now < e" by (simp add: bs_live_def live_Some)
  have idx: "shard_index (ms_shards store') ?k = i" using spec1(2) by (simp add: shard_index_def i_def)
  have now': "max (as_millis d') (bs_latest (ms_shards store') i) = as_millis d'" using spec1(3) later(1) by simp
  have live': "bs_live (ms_shards store') (as_millis d') ?k = (if as_millis d' < e then Some (v, e) else None)"
    using spec1(7) later(1) live_later [OF later(1), of ?bs ?k] st by simp
  have exceeds: "fw_exceeds (pc_of c) (bs_live (ms_shards store') (as_millis d') ?k) \<longleftrightarrow> as_millis d' < e"
    unfolding live' using ve by (simp add: fw_exceeds_def)
  have healthy': "\<not> mx_poisoned (ms_shards store' ! shard_index (ms_shards store') ?k)" using spec1(4) idx by simp
  obtain store'' ev' where s2: "check_inner store' (Some d') el' c = (store'', Some (Ok ev'))"
    "(\<exists>q'. ev_value ev' = Decision_denied (QuotaExceeded q')) \<longleftrightarrow> as_millis d' < e"
    using check_inner_spec [OF spec1(1) ok(2) later(2) healthy', of el'] exceeds mode
    unfolding idx now' by (auto simp: fw_denied_decision_def decision_con_defs split: if_splits)
  have "delay_duration (qd_retry_after q) = from_millis (e - now)"
    using spec1(6) st by (simp add: fw_denial_def QuotaDenial_new_def)
  then show ?thesis using s2 e by (intro exI [of _ "e - now"]) auto
qed

text \<open>An enforced check that uses up its whole limit, twice on a new store.\<close>

definition sample_enforced :: "fixed_window_policy check" where
  "sample_enforced = (sample_check 8 8)\<lparr>chk_policy := fwp_with_quota_mode Enforce (sample_fwp (take 32) 8)\<rparr>"

lemma sample_enforced_ok: "fw_check_ok sample_enforced"
  using sample_check_ok [of 8 8]
  by (simp add: sample_enforced_def sample_check_def fw_check_ok_def check_ok_def FixedWindowPolicy_def
      fwp_with_quota_mode_def sample_fwp_def)

lemma sample_first:
  "\<exists>store1 ev. check_inner (MemoryStore_new sample_config) (Some 0) 0 sample_enforced = (store1, Some (Ok ev)) \<and>
     ms_ok store1 \<and> length (ms_shards store1) = 1 \<and> bs_latest (ms_shards store1) 0 = 0 \<and>
     \<not> mx_poisoned (ms_shards store1 ! 0) \<and>
     bs_live (ms_shards store1) 0 (fkey sample_enforced) = Some (\<lparr>fe_used = 8\<rparr>, 60000)"
proof -
  let ?s = "MemoryStore_new sample_config"
  have live: "shard.live t (mx_shard (ms_shards ?s ! 0)) k = None" for t k
    using new_store_live [OF sample_config_ok, of t k] by (simp add: bs_live_def sample_index)
  have now: "max (as_millis 0) (bs_latest (ms_shards ?s) 0) = 0"
    by (simp add: as_millis_def bs_latest_def MemoryStore_new_def BoundedShards_new_def sample_config_def Shard_new_def)
  have len: "length (ms_shards ?s) = 1" by (simp add: MemoryStore_new_def BoundedShards_new_def sample_config_def)
  have cap: "shard_capacity (ms_config ?s) 0 \<noteq> 0" by (simp add: MemoryStore_new_def sample_config_def shard_capacity_def)
  have app: "fw_apply 0 (pc_of sample_enforced) None 0 = Some (\<lparr>fe_used = 8\<rparr>, 60000)"
    by (simp add: fw_apply_def fw_next_def sample_enforced_def sample_check_def fwp_with_quota_mode_def sample_fwp_def)
  from check_inner_spec [OF sample_new_ok sample_enforced_ok, of 0 0, unfolded sample_index now] sample_healthy
  show ?thesis
    by (simp add: duration_MAX_def fw_exceeds_def bs_live_def sample_index live len cap)
      (auto simp: app bs_live_def sample_index fun_eq_iff)
qed

theorem memory_retry_exact_witness:
  "\<exists>store' ev q r. check_inner (fst (check_inner (MemoryStore_new sample_config) (Some 0) 0 sample_enforced))
      (Some 0) 0 sample_enforced = (store', Some (Ok ev)) \<and>
     ev_value ev = Decision_denied (QuotaExceeded q) \<and> 0 < r \<and> delay_duration (qd_retry_after q) = from_millis r"
proof -
  obtain s ev where s: "check_inner (MemoryStore_new sample_config) (Some 0) 0 sample_enforced = (s, Some (Ok ev))"
    "ms_ok s" "length (ms_shards s) = 1" "bs_latest (ms_shards s) 0 = 0" "\<not> mx_poisoned (ms_shards s ! 0)"
    "bs_live (ms_shards s) 0 (fkey sample_enforced) = Some (\<lparr>fe_used = 8\<rparr>, 60000)"
    using sample_first by blast
  have idx: "shard_index (ms_shards s) (fkey sample_enforced) = 0" using s(3) by (simp add: shard_index_def)
  have mode: "fwp_quota_mode (chk_policy sample_enforced) = Enforce"
    by (simp add: sample_enforced_def fwp_with_quota_mode_def)
  have now: "max (as_millis 0) (bs_latest (ms_shards s) 0) = 0" using s(4) by (simp add: as_millis_def)
  have ex: "fw_exceeds (pc_of sample_enforced) (Some (\<lparr>fe_used = 8\<rparr>, 60000))"
    by (simp add: fw_exceeds_def sample_enforced_def sample_check_def fwp_with_quota_mode_def sample_fwp_def)
  obtain s' ev' q where d: "check_inner s (Some 0) 0 sample_enforced = (s', Some (Ok ev'))"
    "ev_value ev' = Decision_denied (QuotaExceeded q)"
    using check_inner_spec [OF s(2) sample_enforced_ok, of 0 0, unfolded idx now] s(5,6) ex mode
    by (auto simp: duration_MAX_def fw_denied_decision_def)
  from memory_retry_exact [OF s(2) sample_enforced_ok _ mode d, of 0 0] show ?thesis
    using d s(1,4) idx by (fastforce simp: as_millis_def duration_MAX_def)
qed

text \<open>
  Observers cannot influence admission: the decision and the new store are the same with any
  observer, panicking or not, as with none, for single checks and for batches.
\<close>

theorem memory_observer_independent:
  "snd (ms_check observer ost store clock el t c) = snd (ms_check None ost' store clock el t c) \<and>
   snd (ms_check_all observer ost store clock timer t cs) = snd (ms_check_all None ost' store clock timer t cs)"
  by (auto simp: ms_check_def ms_check_all_def split: prod.splits option.splits sum.splits)

end
