(* ===== verification/Gcra.thy ===== *)
theory Gcra
  imports Decision
begin

text \<open>
  \<open>runlimit-core/src/gcra.rs\<close>: the storage-independent GCRA transition. Time is whole milliseconds in
  a backend-owned epoch; the theoretical arrival time is scaled by the quota so that all arithmetic is
  exact. Every checked 128-bit operation of the code is a branch of the model.
\<close>

section \<open>The transition\<close>

datatype arithmetic_overflow = ArithmeticOverflow

record pending_allowance =
  pa_tat_scaled :: nat
  pa_expires_at_millis :: nat
  pa_allowance :: allowance

datatype evaluation = Ev_Allowed pending_allowance | Ev_Denied quota_denial

definition gcra_duration :: "nat \<Rightarrow> (arithmetic_overflow, duration) result" where
  "gcra_duration millis =
     and_then (ok_or ArithmeticOverflow (try_from 64 millis)) (\<lambda>ms. Ok (from_millis ms))"

definition evaluate ::
    "gcra_policy check \<Rightarrow> nat \<Rightarrow> nat option \<Rightarrow> (arithmetic_overflow, evaluation) result" where
  "evaluate check now_millis tat_scaled =
     (let policy = chk_policy check;
          quota = capacity_get (gcp_quota policy);
          period = period_millis (gcp_period policy);
          capacity = gcp_burst_capacity policy in
      and_then (ok_or ArithmeticOverflow (checked_mul 128 now_millis quota)) (\<lambda>scaled_now.
      let active_tat = max (case tat_scaled of None \<Rightarrow> scaled_now | Some tat \<Rightarrow> tat) scaled_now in
      and_then (ok_or ArithmeticOverflow (checked_mul 128 (chk_cost check) period)) (\<lambda>increment.
      and_then (ok_or ArithmeticOverflow (checked_add 128 active_tat increment)) (\<lambda>candidate.
      and_then (ok_or ArithmeticOverflow (checked_mul 128 (capacity_get capacity) period)) (\<lambda>burst_span.
      and_then (ok_or ArithmeticOverflow (checked_add 128 scaled_now burst_span)) (\<lambda>ceiling.
      if candidate > ceiling then
        let retry = div_ceil (candidate - ceiling) quota in
        and_then (gcra_duration retry) (\<lambda>retry_after.
          Ok (Ev_Denied (QuotaDenial_new capacity retry_after)))
      else
        and_then (ok_or ArithmeticOverflow (try_from 64 ((ceiling - candidate) div period))) (\<lambda>available.
        let replenish = div_ceil (candidate - scaled_now) quota in
        and_then (ok_or ArithmeticOverflow (checked_add 128 now_millis replenish)) (\<lambda>expires_at_millis.
        and_then (gcra_duration replenish) (\<lambda>replenishes_after.
        and_then (map_err (\<lambda>_. ArithmeticOverflow) (Allowance_new capacity available replenishes_after))
          (\<lambda>allowance.
          Ok (Ev_Allowed \<lparr>pa_tat_scaled = candidate, pa_expires_at_millis = expires_at_millis,
                pa_allowance = allowance\<rparr>)))))))))))"

section \<open>Exact arithmetic specification\<close>

text \<open>
  The same transition over unbounded naturals. \<open>gq\<close>, \<open>gp\<close> and \<open>gb\<close> are the quota, the period and the
  burst of a check's policy.
\<close>

definition gq :: "gcra_policy check \<Rightarrow> nat" where "gq c = capacity_get (gcp_quota (chk_policy c))"
definition gp :: "gcra_policy check \<Rightarrow> nat" where "gp c = period_millis (gcp_period (chk_policy c))"
definition gb :: "gcra_policy check \<Rightarrow> nat" where "gb c = capacity_get (gcp_burst_capacity (chk_policy c))"

text \<open>The arrival time in force at \<open>now\<close>.\<close>

definition active :: "gcra_policy check \<Rightarrow> nat \<Rightarrow> nat option \<Rightarrow> nat" where
  "active c now tat = (case tat of None \<Rightarrow> now * gq c | Some t \<Rightarrow> max t (now * gq c))"

definition conforms :: "gcra_policy check \<Rightarrow> nat \<Rightarrow> nat option \<Rightarrow> bool" where
  "conforms c now tat \<longleftrightarrow> active c now tat + chk_cost c * gp c \<le> now * gq c + gb c * gp c"

definition gcra_retry :: "gcra_policy check \<Rightarrow> nat \<Rightarrow> nat option \<Rightarrow> nat" where
  "gcra_retry c now tat =
     div_ceil (active c now tat + chk_cost c * gp c - (now * gq c + gb c * gp c)) (gq c)"

definition gcra_replenish :: "gcra_policy check \<Rightarrow> nat \<Rightarrow> nat option \<Rightarrow> nat" where
  "gcra_replenish c now tat = div_ceil (active c now tat + chk_cost c * gp c - now * gq c) (gq c)"

definition gcra_available :: "gcra_policy check \<Rightarrow> nat \<Rightarrow> nat option \<Rightarrow> nat" where
  "gcra_available c now tat =
     (now * gq c + gb c * gp c - (active c now tat + chk_cost c * gp c)) div gp c"

definition gcra_spec :: "gcra_policy check \<Rightarrow> nat \<Rightarrow> nat option \<Rightarrow> evaluation" where
  "gcra_spec c now tat =
     (if conforms c now tat
      then Ev_Allowed
        \<lparr>pa_tat_scaled = active c now tat + chk_cost c * gp c,
         pa_expires_at_millis = now + gcra_replenish c now tat,
         pa_allowance = Allowance (gcp_burst_capacity (chk_policy c)) (gcra_available c now tat)
           (Delay (from_millis (gcra_replenish c now tat)))\<rparr>
      else Ev_Denied (QuotaDenial_new (gcp_burst_capacity (chk_policy c))
        (from_millis (gcra_retry c now tat))))"

text \<open>What the code relies on: a constructed policy and check, a 64-bit clock, and a stored arrival time
  that some earlier instant of the same clock admitted.\<close>

definition gcheck_ok :: "gcra_policy check \<Rightarrow> bool" where
  "gcheck_ok c \<longleftrightarrow> capacity_ok (gcp_quota (chk_policy c)) \<and> period_ok (gcp_period (chk_policy c)) \<and>
     capacity_ok (gcp_burst_capacity (chk_policy c)) \<and>
     gb c * gp c \<le> MAX_WINDOW_MILLIS * gq c \<and> check_ok GcraPolicy c"

definition tat_ok :: "gcra_policy check \<Rightarrow> nat \<Rightarrow> nat option \<Rightarrow> bool" where
  "tat_ok c now tat = (case tat of None \<Rightarrow> True | Some t \<Rightarrow> t \<le> now * gq c + gb c * gp c)"

lemma gcheck_okI: "gcp_ok sha256 (chk_policy c) \<Longrightarrow> check_ok GcraPolicy c \<Longrightarrow> gcheck_ok c"
  using div_ceil_le_iff [of "gq c" "gb c * gp c" MAX_WINDOW_MILLIS]
  by (auto simp: gcheck_ok_def gcp_ok_def gq_def gp_def gb_def capacity_ok_def)

lemma gcheck_bounds:
  assumes "gcheck_ok c"
  shows "0 < gq c" "gq c < 2 ^ 63" "0 < gp c" "gp c < 2 ^ 44" "0 < gb c" "gb c < 2 ^ 63"
    "0 < chk_cost c" "chk_cost c \<le> gb c" "gb c * gp c \<le> 9007199254740 * gq c"
  using assms by (auto simp: gcheck_ok_def gq_def gp_def gb_def capacity_ok_def period_ok_def
      MAX_LIMIT_value MAX_WINDOW_MILLIS_value check_ok_def GcraPolicy_def)

lemma active_bounds:
  "now * gq c \<le> active c now tat"
  "tat_ok c now tat \<Longrightarrow> active c now tat \<le> now * gq c + gb c * gp c"
  by (auto simp: active_def tat_ok_def split: option.splits)

lemma active_unfold:
  "max (case tat of None \<Rightarrow> now * gq c | Some t \<Rightarrow> t) (now * gq c) = active c now tat"
  by (simp add: active_def split: option.splits)

lemma product_bounds:
  assumes "gcheck_ok c" "now < 2 ^ 64" "tat_ok c now tat"
  shows "now * gq c < 2 ^ 127" "chk_cost c * gp c < 2 ^ 107" "gb c * gp c < 2 ^ 107"
    "active c now tat + chk_cost c * gp c < 2 ^ 128" "now * gq c + gb c * gp c < 2 ^ 128"
proof -
  note b = gcheck_bounds [OF assms(1)]
  have "now * gq c \<le> (2 ^ 64 - 1) * (2 ^ 63 - 1)"
    using assms(2) b(2) by (intro mult_le_mono) auto
  then show nq: "now * gq c < 2 ^ 127" by simp
  have "gb c * gp c \<le> (2 ^ 63 - 1) * (2 ^ 44 - 1)" using b(4,6) by (intro mult_le_mono) auto
  then show bp: "gb c * gp c < 2 ^ 107" by simp
  have "chk_cost c * gp c \<le> gb c * gp c" using b(8) by simp
  with bp show cp: "chk_cost c * gp c < 2 ^ 107" by (rule order_le_less_trans [rotated])
  show "now * gq c + gb c * gp c < 2 ^ 128" using nq bp by simp
  show "active c now tat + chk_cost c * gp c < 2 ^ 128"
    using nq bp cp active_bounds(2) [OF assms(3)] by simp
qed

lemma delay_bounds:
  assumes "gcheck_ok c" "tat_ok c now tat"
  shows "gcra_retry c now tat \<le> 9007199254740"
    "conforms c now tat \<Longrightarrow> gcra_replenish c now tat \<le> 9007199254740"
proof -
  note b = gcheck_bounds [OF assms(1)] and a = active_bounds(2) [OF assms(2)]
  have "chk_cost c * gp c \<le> gb c * gp c" using b(8) by simp
  then show "gcra_retry c now tat \<le> 9007199254740"
    unfolding gcra_retry_def using b(1,9) a by (subst div_ceil_le_iff) linarith+
  show "gcra_replenish c now tat \<le> 9007199254740" if "conforms c now tat"
    unfolding gcra_replenish_def using b(1,9) a that
    by (subst div_ceil_le_iff) (auto simp: conforms_def)
qed

lemma available_bound:
  assumes "gcheck_ok c" shows "gcra_available c now tat \<le> gb c"
proof -
  have "now * gq c + gb c * gp c - (active c now tat + chk_cost c * gp c) \<le> gb c * gp c"
    using active_bounds(1) [of now c tat] by simp
  then have "gcra_available c now tat \<le> gb c * gp c div gp c"
    unfolding gcra_available_def by (rule div_le_mono)
  then show ?thesis using gcheck_bounds(3) [OF assms] by simp
qed

lemma gcra_duration_Ok: "ms < 2 ^ 64 \<Longrightarrow> gcra_duration ms = Ok (from_millis ms)"
  by (simp add: gcra_duration_def try_from_def)

lemma evaluate_eq_spec:
  assumes "gcheck_ok c" "now < 2 ^ 64" "tat_ok c now tat"
  shows "evaluate c now tat = Ok (gcra_spec c now tat)"
proof -
  note pb = product_bounds [OF assms] and b = gcheck_bounds [OF assms(1)]
    and d = delay_bounds [OF assms(1,3)] and av = available_bound [OF assms(1), of now tat]
  have steps: "checked_mul 128 now (gq c) = Some (now * gq c)"
    "checked_mul 128 (chk_cost c) (gp c) = Some (chk_cost c * gp c)"
    "checked_add 128 (active c now tat) (chk_cost c * gp c) = Some (active c now tat + chk_cost c * gp c)"
    "checked_mul 128 (gb c) (gp c) = Some (gb c * gp c)"
    "checked_add 128 (now * gq c) (gb c * gp c) = Some (now * gq c + gb c * gp c)"
    using pb by (auto intro: order_less_trans)
  show ?thesis
  proof (cases "conforms c now tat")
    case True
    have allowed: "try_from 64 (gcra_available c now tat) = Some (gcra_available c now tat)"
      "checked_add 128 now (gcra_replenish c now tat) = Some (now + gcra_replenish c now tat)"
      "gcra_duration (gcra_replenish c now tat) = Ok (from_millis (gcra_replenish c now tat))"
      "Allowance_new (gcp_burst_capacity (chk_policy c)) (gcra_available c now tat)
        (from_millis (gcra_replenish c now tat)) =
      Ok (Allowance (gcp_burst_capacity (chk_policy c)) (gcra_available c now tat)
        (Delay (from_millis (gcra_replenish c now tat))))"
      using av b(6) d(2) [OF True] assms(2)
      by (simp_all add: try_from_def checked_add_def gcra_duration_Ok allowance_new_Ok gb_def)
    have le: "\<not> now * gq c + gb c * gp c < active c now tat + chk_cost c * gp c"
      using True by (simp add: conforms_def)
    show ?thesis
      unfolding evaluate_def gcra_spec_def Let_def gq_def [symmetric] gp_def [symmetric]
        gb_def [symmetric]
      using True le by (simp add: steps allowed active_unfold gcra_available_def [symmetric]
          gcra_replenish_def [symmetric])
  next
    case False
    have denied: "gcra_duration (gcra_retry c now tat) = Ok (from_millis (gcra_retry c now tat))"
      using d(1) by (simp add: gcra_duration_Ok)
    have less: "now * gq c + gb c * gp c < active c now tat + chk_cost c * gp c"
      using False by (simp add: conforms_def)
    show ?thesis
      unfolding evaluate_def gcra_spec_def Let_def gq_def [symmetric] gp_def [symmetric]
        gb_def [symmetric]
      using False less by (simp add: steps denied active_unfold gcra_retry_def [symmetric])
  qed
qed

section \<open>Sequences of evaluations\<close>

text \<open>
  The total cost admitted when the checks \<open>(now, cost)\<close> of one counter are evaluated in turn, each
  admission storing its new arrival time.
\<close>

fun gcra_admitted :: "gcra_policy check \<Rightarrow> nat option \<Rightarrow> (nat \<times> nat) list \<Rightarrow> nat" where
  "gcra_admitted c tat [] = 0"
| "gcra_admitted c tat ((now, cost) # es) =
     (case evaluate (c\<lparr>chk_cost := cost\<rparr>) now tat of
        Ok (Ev_Allowed pa) \<Rightarrow> cost + gcra_admitted c (Some (pa_tat_scaled pa)) es
      | _ \<Rightarrow> gcra_admitted c tat es)"

text \<open>Checks whose times are nondecreasing and lie between \<open>t\<^sub>0\<close> and \<open>t\<^sub>1\<close>.\<close>

fun gcra_events_ok :: "gcra_policy check \<Rightarrow> nat \<Rightarrow> nat \<Rightarrow> (nat \<times> nat) list \<Rightarrow> bool" where
  "gcra_events_ok c t0 t1 [] \<longleftrightarrow> t0 \<le> t1"
| "gcra_events_ok c t0 t1 ((now, cost) # es) \<longleftrightarrow>
     t0 \<le> now \<and> now \<le> t1 \<and> 0 < cost \<and> cost \<le> gb c \<and> gcra_events_ok c now t1 es"

lemma cost_update [simp]:
  "gq (c\<lparr>chk_cost := n\<rparr>) = gq c" "gp (c\<lparr>chk_cost := n\<rparr>) = gp c" "gb (c\<lparr>chk_cost := n\<rparr>) = gb c"
  by (simp_all add: gq_def gp_def gb_def)

lemma cost_update_state [simp]:
  "active (c\<lparr>chk_cost := n\<rparr>) now tat = active c now tat"
  "tat_ok (c\<lparr>chk_cost := n\<rparr>) now tat = tat_ok c now tat"
  by (simp_all add: active_def tat_ok_def split: option.split)

lemma gcheck_ok_cost:
  "gcheck_ok c \<Longrightarrow> 0 < n \<Longrightarrow> n \<le> gb c \<Longrightarrow> gcheck_ok (c\<lparr>chk_cost := n\<rparr>)"
  by (auto simp: gcheck_ok_def check_ok_def GcraPolicy_def gb_def gq_def gp_def)

lemma active_mono: "t \<le> u \<Longrightarrow> active c t tat \<le> active c u tat"
  by (auto simp: active_def max.coboundedI2 split: option.splits)

lemma tat_ok_mono: "tat_ok c t tat \<Longrightarrow> t \<le> u \<Longrightarrow> tat_ok c u tat"
  by (auto simp: tat_ok_def split: option.splits) (meson add_le_mono1 le_trans mult_le_mono1)

lemma active_stored:
  "active c now tat + n \<le> t * gq c + k \<Longrightarrow> now = t \<Longrightarrow>
     active c t (Some (active c now tat + n)) = active c now tat + n"
  using active_bounds(1) [of now c tat] by (simp add: active_def)

lemma gcra_admitted_bound:
  assumes "gcheck_ok c" "t1 < 2 ^ 64"
  shows "tat_ok c t0 tat \<Longrightarrow> gcra_events_ok c t0 t1 es \<Longrightarrow>
    gcra_admitted c tat es * gp c + active c t0 tat \<le> t1 * gq c + gb c * gp c"
proof (induction es arbitrary: t0 tat)
  case Nil
  have "t0 * gq c \<le> t1 * gq c" using Nil by simp
  then show ?case using active_bounds(2) [OF Nil(1)] unfolding gcra_admitted.simps by linarith
next
  case (Cons e es)
  obtain now cost where e: "e = (now, cost)" by fastforce
  let ?c = "c\<lparr>chk_cost := cost\<rparr>"
  from Cons.prems e have now: "t0 \<le> now" "now \<le> t1" and cost: "0 < cost" "cost \<le> gb c"
    and rest: "gcra_events_ok c now t1 es" by auto
  have ok: "tat_ok c now tat" using Cons.prems(1) now(1) by (rule tat_ok_mono)
  have le: "active c t0 tat \<le> active c now tat" using now(1) by (rule active_mono)
  have ev: "evaluate ?c now tat = Ok (gcra_spec ?c now tat)"
    using assms now ok gcheck_ok_cost [OF assms(1) cost] by (intro evaluate_eq_spec) auto
  show ?case
  proof (cases "conforms ?c now tat")
    case True
    let ?tat = "active c now tat + cost * gp c"
    have fits: "?tat \<le> now * gq c + gb c * gp c" using True by (simp add: conforms_def)
    have "gcra_admitted c (Some ?tat) es * gp c + active c now (Some ?tat) \<le> t1 * gq c + gb c * gp c"
      using fits rest by (intro Cons.IH) (simp_all add: tat_ok_def)
    moreover have "active c now (Some ?tat) = ?tat" using fits by (intro active_stored) simp_all
    moreover have "gcra_admitted c tat (e # es) = cost + gcra_admitted c (Some ?tat) es"
      using True e ev by (simp add: gcra_spec_def)
    ultimately show ?thesis using le by (simp add: add_mult_distrib)
  next
    case False
    have "gcra_admitted c tat (e # es) = gcra_admitted c tat es"
      using False e ev by (simp add: gcra_spec_def)
    then show ?thesis using Cons.IH [OF ok rest] le by simp
  qed
qed

lemma conforms_later:
  assumes "gcheck_ok c"
  shows "conforms c t (Some x) \<longleftrightarrow> x + chk_cost c * gp c \<le> t * gq c + gb c * gp c"
proof -
  have "chk_cost c * gp c \<le> gb c * gp c" using gcheck_bounds(8) [OF assms] by simp
  then show ?thesis unfolding conforms_def active_def option.case max_def
    by (cases "x \<le> t * gq c") (simp_all only: if_True if_False, linarith)
qed

lemma conforms_None: "gcheck_ok c \<Longrightarrow> conforms c t None"
  using gcheck_bounds(8) by (simp add: conforms_def active_def)

lemma conforms_retry:
  assumes ok: "gcheck_ok c" and denied: "\<not> conforms c now tat" and t: "now \<le> t"
  shows "conforms c t tat \<longleftrightarrow> now + gcra_retry c now tat \<le> t"
proof -
  obtain x where x: "tat = Some x" using denied conforms_None [OF ok] by (cases tat) auto
  have cap: "chk_cost c * gp c \<le> gb c * gp c" using gcheck_bounds(8) [OF ok] by simp
  have "active c now tat = x"
    using denied cap by (auto simp: conforms_def x active_def max_def split: if_splits)
  then have "now + gcra_retry c now tat \<le> t \<longleftrightarrow>
      div_ceil (x + chk_cost c * gp c - (now * gq c + gb c * gp c)) (gq c) \<le> t - now"
    using t unfolding gcra_retry_def by auto
  also have "\<dots> \<longleftrightarrow> x + chk_cost c * gp c - (now * gq c + gb c * gp c) \<le> (t - now) * gq c"
    by (rule div_ceil_le_iff) (rule gcheck_bounds(1) [OF ok])
  also have "\<dots> \<longleftrightarrow> x + chk_cost c * gp c \<le> t * gq c + gb c * gp c"
    using mult_le_mono1 [OF t, of "gq c"] unfolding diff_mult_distrib by linarith
  finally show ?thesis using conforms_later [OF ok] x by simp
qed

lemma evaluate_Allowed:
  assumes "gcheck_ok c" "now < 2 ^ 64" "tat_ok c now tat"
  shows "(\<exists>pa. evaluate c now tat = Ok (Ev_Allowed pa)) \<longleftrightarrow> conforms c now tat"
  by (simp add: evaluate_eq_spec [OF assms] gcra_spec_def)

lemma expired_le:
  assumes "gcheck_ok c" and "now \<le> t"
  shows "now + gcra_replenish c now tat \<le> t \<longleftrightarrow> active c now tat + chk_cost c * gp c \<le> t * gq c"
proof -
  have "now + gcra_replenish c now tat \<le> t \<longleftrightarrow> gcra_replenish c now tat \<le> t - now"
    using assms(2) by auto
  also have "\<dots> \<longleftrightarrow> active c now tat + chk_cost c * gp c - now * gq c \<le> (t - now) * gq c"
    unfolding gcra_replenish_def by (rule div_ceil_le_iff) (rule gcheck_bounds(1) [OF assms(1)])
  also have "\<dots> \<longleftrightarrow> active c now tat + chk_cost c * gp c \<le> t * gq c"
    using mult_le_mono1 [OF assms(2), of "gq c"] active_bounds(1) [of now c tat]
    unfolding diff_mult_distrib by linarith
  finally show ?thesis .
qed

lemma spec_stored:
  assumes "gcra_spec c now tat = Ev_Allowed pa"
  shows "conforms c now tat" "pa_tat_scaled pa = active c now tat + chk_cost c * gp c"
    "pa_expires_at_millis pa = now + gcra_replenish c now tat"
    "alw_available (pa_allowance pa) = gcra_available c now tat"
    "alw_replenishes_after (pa_allowance pa) = Delay (from_millis (gcra_replenish c now tat))"
    "tat_ok c now (Some (pa_tat_scaled pa))" "now * gq c \<le> pa_tat_scaled pa"
  using assms active_bounds(1) [of now c tat]
  by (auto simp: gcra_spec_def conforms_def tat_ok_def split: if_splits)

section \<open>Concrete instances\<close>

text \<open>A policy of 10 units per second with a burst of 5.\<close>

definition sample_gcp :: gcra_policy where
  "sample_gcp =
     \<lparr>gcp_id = PolicyId (str ''auth.login''), gcp_scope = ScopeId (str ''client''),
      gcp_quota = Capacity 10, gcp_period = QuotaPeriod 1000, gcp_burst_capacity = Capacity 5,
      gcp_fingerprint = gcra_fingerprint (take 32) (PolicyId (str ''auth.login''))
        (ScopeId (str ''client'')) (Capacity 10) (QuotaPeriod 1000) (Capacity 5),
      gcp_quota_mode = Enforce\<rparr>"

definition sample_gcheck :: "nat \<Rightarrow> gcra_policy check" where
  "sample_gcheck cost = \<lparr>chk_policy = sample_gcp, chk_subject = SubjectKey [7], chk_cost = cost\<rparr>"

lemma sample_gcp_ok: "gcp_ok (take 32) sample_gcp"
  by (simp add: gcp_ok_def sample_gcp_def small_values_ok div_ceil_def MAX_WINDOW_MILLIS_value
      del: str_simps)

lemma sample_gcheck_ok:
  "0 < n \<Longrightarrow> n \<le> 5 \<Longrightarrow> gcp_ok (take 32) (chk_policy (sample_gcheck n)) \<and> check_ok GcraPolicy (sample_gcheck n)"
  using sample_gcp_ok by (simp add: sample_gcheck_def check_ok_def GcraPolicy_def sample_gcp_def)

lemma sample_gcheck_simps:
  "gq (sample_gcheck n) = 10" "gp (sample_gcheck n) = 1000" "gb (sample_gcheck n) = 5"
  "chk_cost (sample_gcheck n) = n"
  by (simp_all add: gq_def gp_def gb_def sample_gcheck_def sample_gcp_def)

lemmas gcra_eval = gcra_spec_def conforms_def active_def gcra_retry_def gcra_replenish_def
  gcra_available_def sample_gcheck_simps div_ceil_def tat_ok_def

section \<open>Properties\<close>

text \<open>
  C25: for every constructed policy and check, every 64-bit millisecond clock and every arrival time
  the same configuration can have stored, no checked operation of \<open>evaluate\<close> overflows and its result
  is the exact transition over unbounded numbers.
\<close>

theorem gcra_evaluate_exact:
  assumes "gcp_ok sha256 (chk_policy c)" "check_ok GcraPolicy c" "now < 2 ^ 64" "tat_ok c now tat"
  shows "evaluate c now tat = Ok (gcra_spec c now tat)"
  using assms gcheck_okI by (intro evaluate_eq_spec)

theorem gcra_evaluate_exact_witness:
  "evaluate (sample_gcheck 3) 100 (Some 4000) = Ok (Ev_Denied (QuotaDenial_new
     (gcp_burst_capacity sample_gcp) (from_millis 100)))"
  using gcra_evaluate_exact [of "take 32" "sample_gcheck 3" 100 "Some 4000"] sample_gcheck_ok [of 3]
  by (simp add: gcra_eval) (simp add: sample_gcheck_def)

text \<open>
  GCRA enforces its rate: whatever checks of one counter are evaluated between \<open>t\<^sub>0\<close> and \<open>t\<^sub>1\<close>, and
  whatever state the counter is in at the start, the admitted cost times the period is at most the
  burst times the period plus the elapsed time times the quota; that is, at most
  \<open>burst + quota * elapsed / period\<close> units are admitted.
\<close>

theorem gcra_rate_bound:
  assumes "gcp_ok sha256 (chk_policy c)" "check_ok GcraPolicy c" "t1 < 2 ^ 64"
    and "tat_ok c t0 tat" "gcra_events_ok c t0 t1 es"
  shows "gcra_admitted c tat es * gp c \<le> gb c * gp c + (t1 - t0) * gq c"
proof -
  have "gcra_admitted c tat es * gp c + active c t0 tat \<le> t1 * gq c + gb c * gp c"
    using assms gcheck_okI by (intro gcra_admitted_bound) auto
  then show ?thesis using active_bounds(1) [of t0 c tat] unfolding diff_mult_distrib by linarith
qed

theorem gcra_rate_bound_witness:
  "gcra_admitted (sample_gcheck 1) None [(0, 5), (50, 1), (100, 1), (100, 1)] * 1000 \<le> 5 * 1000 + 100 * 10"
  using gcra_rate_bound [of "take 32" "sample_gcheck 1" 100 0 None "[(0, 5), (50, 1), (100, 1), (100, 1)]"]
    sample_gcheck_ok [of 1]
  by (simp add: sample_gcheck_simps tat_ok_def)

text \<open>
  The retry delay of a GCRA denial is exact: it is positive, and, the stored state being unchanged,
  the same check is admitted at a later instant exactly when the reported delay has elapsed.
\<close>

theorem gcra_retry_exact:
  assumes "gcp_ok sha256 (chk_policy c)" "check_ok GcraPolicy c" "tat_ok c now tat"
    and "now \<le> t" "t < 2 ^ 64"
    and "evaluate c now tat = Ok (Ev_Denied d)"
  shows "\<exists>r > 0. delay_duration (qd_retry_after d) = from_millis r \<and>
    ((\<exists>pa. evaluate c t tat = Ok (Ev_Allowed pa)) \<longleftrightarrow> now + r \<le> t)"
proof -
  have ok: "gcheck_ok c" using assms gcheck_okI by blast
  have now: "now < 2 ^ 64" using assms by simp
  have spec: "gcra_spec c now tat = Ev_Denied d"
    using assms evaluate_eq_spec [OF ok now assms(3)] by simp
  then have no: "\<not> conforms c now tat" and d: "d = QuotaDenial_new (gcp_burst_capacity (chk_policy c))
      (from_millis (gcra_retry c now tat))"
    by (auto simp: gcra_spec_def split: if_splits)
  have "conforms c t tat \<longleftrightarrow> now + gcra_retry c now tat \<le> t"
    using conforms_retry [OF ok no assms(4)] .
  moreover have "(\<exists>pa. evaluate c t tat = Ok (Ev_Allowed pa)) \<longleftrightarrow> conforms c t tat"
    using evaluate_Allowed [OF ok assms(5) tat_ok_mono [OF assms(3,4)]] .
  moreover have "0 < gcra_retry c now tat"
    using conforms_retry [OF ok no, of now] no by (cases "gcra_retry c now tat") auto
  ultimately show ?thesis
    by (intro exI [of _ "gcra_retry c now tat"]) (simp add: d QuotaDenial_new_def)
qed

theorem gcra_retry_exact_witness:
  "\<exists>r > 0. delay_duration (qd_retry_after (QuotaDenial_new (gcp_burst_capacity sample_gcp)
      (from_millis 100))) = from_millis r \<and>
    ((\<exists>pa. evaluate (sample_gcheck 3) 200 (Some 4000) = Ok (Ev_Allowed pa)) \<longleftrightarrow> 100 + r \<le> 200)"
proof (rule gcra_retry_exact)
  show "gcp_ok (take 32) (chk_policy (sample_gcheck 3))" "check_ok GcraPolicy (sample_gcheck 3)"
    using sample_gcheck_ok [of 3] by simp_all
  show "evaluate (sample_gcheck 3) 100 (Some 4000) = Ok (Ev_Denied (QuotaDenial_new
     (gcp_burst_capacity sample_gcp) (from_millis 100)))"
    using evaluate_eq_spec [OF gcheck_okI, of "take 32" "sample_gcheck 3" 100 "Some 4000"]
      sample_gcheck_ok [of 3]
    by (simp add: gcra_eval) (simp add: sample_gcheck_def)
qed (simp_all add: gcra_eval)

text \<open>
  The reported availability is exact: right after an admission that reports \<open>available = n\<close>, a
  further check of the same counter at the same instant is admitted exactly when its cost is at most
  \<open>n\<close>.
\<close>

theorem gcra_available_exact:
  assumes "gcp_ok sha256 (chk_policy c)" "check_ok GcraPolicy c" "now < 2 ^ 64" "tat_ok c now tat"
    and "evaluate c now tat = Ok (Ev_Allowed pa)" "0 < cost" "cost \<le> gb c"
  shows "(\<exists>pa'. evaluate (c\<lparr>chk_cost := cost\<rparr>) now (Some (pa_tat_scaled pa)) = Ok (Ev_Allowed pa')) \<longleftrightarrow>
    cost \<le> alw_available (pa_allowance pa)"
proof -
  have ok: "gcheck_ok c" using assms gcheck_okI by blast
  have spec: "gcra_spec c now tat = Ev_Allowed pa"
    using assms evaluate_eq_spec [OF ok assms(3,4)] by simp
  note st = spec_stored [OF spec]
  let ?c = "c\<lparr>chk_cost := cost\<rparr>"
  have ok': "gcheck_ok ?c" using ok assms(6,7) by (rule gcheck_ok_cost)
  have "(\<exists>pa'. evaluate ?c now (Some (pa_tat_scaled pa)) = Ok (Ev_Allowed pa')) \<longleftrightarrow>
      conforms ?c now (Some (pa_tat_scaled pa))"
    using evaluate_Allowed [OF ok' assms(3)] st(6) by simp
  also have "\<dots> \<longleftrightarrow> pa_tat_scaled pa + cost * gp c \<le> now * gq c + gb c * gp c"
    using conforms_later [OF ok'] by simp
  also have "\<dots> \<longleftrightarrow> cost * gp c \<le> now * gq c + gb c * gp c - (active c now tat + chk_cost c * gp c)"
    using st(1,2) unfolding conforms_def by linarith
  also have "\<dots> \<longleftrightarrow> cost \<le> gcra_available c now tat"
    unfolding gcra_available_def using gcheck_bounds(3) [OF ok] by (simp add: less_eq_div_iff_mult_less_eq)
  finally show ?thesis using st(4) by simp
qed

theorem gcra_available_exact_witness:
  "\<exists>pa. evaluate (sample_gcheck 3) 0 None = Ok (Ev_Allowed pa) \<and>
     (\<exists>pa'. evaluate ((sample_gcheck 3)\<lparr>chk_cost := 2\<rparr>) 0 (Some (pa_tat_scaled pa)) = Ok (Ev_Allowed pa'))"
proof -
  have ok: "gcp_ok (take 32) (chk_policy (sample_gcheck 3))" "check_ok GcraPolicy (sample_gcheck 3)"
    using sample_gcheck_ok [of 3] by simp_all
  have "evaluate (sample_gcheck 3) 0 None = Ok (gcra_spec (sample_gcheck 3) 0 None)"
    using ok gcheck_okI by (intro evaluate_eq_spec) (simp_all add: tat_ok_def)
  then have ev: "evaluate (sample_gcheck 3) 0 None = Ok (Ev_Allowed
      \<lparr>pa_tat_scaled = 3000, pa_expires_at_millis = 300,
       pa_allowance = Allowance (gcp_burst_capacity (chk_policy (sample_gcheck 3))) 2
         (Delay (from_millis 300))\<rparr>)"
    by (simp add: gcra_eval)
  show ?thesis
    using ev gcra_available_exact [OF ok _ _ ev, of 2] by (auto simp: sample_gcheck_simps tat_ok_def)
qed

text \<open>
  Forgetting an expired counter is sound and the replenishment delay is exact: at any instant from
  the reported expiry on, evaluating with the stored arrival time and with no state at all give the
  same result for every check of the counter; and the full burst is available at an instant exactly
  when that expiry has been reached.
\<close>

theorem gcra_expiry_exact:
  assumes "gcp_ok sha256 (chk_policy c)" "check_ok GcraPolicy c" "now \<le> t" "t < 2 ^ 64" "tat_ok c now tat"
    and "evaluate c now tat = Ok (Ev_Allowed pa)" "0 < cost" "cost \<le> gb c"
  shows "pa_expires_at_millis pa = now + as_millis (delay_duration (alw_replenishes_after (pa_allowance pa))) \<and>
    (pa_expires_at_millis pa \<le> t \<longrightarrow>
       evaluate (c\<lparr>chk_cost := cost\<rparr>) t (Some (pa_tat_scaled pa)) = evaluate (c\<lparr>chk_cost := cost\<rparr>) t None) \<and>
    ((\<exists>pa'. evaluate (c\<lparr>chk_cost := gb c\<rparr>) t (Some (pa_tat_scaled pa)) = Ok (Ev_Allowed pa')) \<longleftrightarrow>
       pa_expires_at_millis pa \<le> t)"
proof -
  have ok: "gcheck_ok c" using assms gcheck_okI by blast
  have now: "now < 2 ^ 64" using assms by simp
  have spec: "gcra_spec c now tat = Ev_Allowed pa"
    using assms evaluate_eq_spec [OF ok now assms(5)] by simp
  note st = spec_stored [OF spec] and tat' = tat_ok_mono [OF spec_stored(6) [OF spec] assms(3)]
  have exp: "pa_expires_at_millis pa \<le> t \<longleftrightarrow> pa_tat_scaled pa \<le> t * gq c"
    using expired_le [OF ok assms(3)] st(2,3) by simp
  have ok': "gcheck_ok (c\<lparr>chk_cost := cost\<rparr>)" and full: "gcheck_ok (c\<lparr>chk_cost := gb c\<rparr>)"
    using ok assms(7,8) gcheck_bounds(5) [OF ok] by (auto intro: gcheck_ok_cost)
  have "evaluate (c\<lparr>chk_cost := cost\<rparr>) t (Some (pa_tat_scaled pa)) = evaluate (c\<lparr>chk_cost := cost\<rparr>) t None"
    if "pa_expires_at_millis pa \<le> t"
  proof -
    have "active c t (Some (pa_tat_scaled pa)) = active c t None"
      using that exp by (simp add: active_def)
    then show ?thesis
      using evaluate_eq_spec [OF ok' assms(4)] tat'
      by (simp add: tat_ok_def gcra_spec_def conforms_def gcra_retry_def gcra_replenish_def gcra_available_def)
  qed
  moreover have "(\<exists>pa'. evaluate (c\<lparr>chk_cost := gb c\<rparr>) t (Some (pa_tat_scaled pa)) = Ok (Ev_Allowed pa')) \<longleftrightarrow>
       pa_expires_at_millis pa \<le> t"
    using evaluate_Allowed [OF full assms(4)] tat' conforms_later [OF full] exp by simp
  ultimately show ?thesis using st(3,5) by simp
qed

theorem gcra_expiry_exact_witness:
  "\<exists>pa. evaluate (sample_gcheck 3) 0 None = Ok (Ev_Allowed pa) \<and> pa_expires_at_millis pa = 300 \<and>
     evaluate ((sample_gcheck 3)\<lparr>chk_cost := 2\<rparr>) 300 (Some (pa_tat_scaled pa)) =
     evaluate ((sample_gcheck 3)\<lparr>chk_cost := 2\<rparr>) 300 None"
proof -
  have ok: "gcp_ok (take 32) (chk_policy (sample_gcheck 3))" "check_ok GcraPolicy (sample_gcheck 3)"
    using sample_gcheck_ok [of 3] by simp_all
  have "evaluate (sample_gcheck 3) 0 None = Ok (gcra_spec (sample_gcheck 3) 0 None)"
    using ok gcheck_okI by (intro evaluate_eq_spec) (simp_all add: tat_ok_def)
  then have ev: "evaluate (sample_gcheck 3) 0 None = Ok (Ev_Allowed
      \<lparr>pa_tat_scaled = 3000, pa_expires_at_millis = 300,
       pa_allowance = Allowance (gcp_burst_capacity (chk_policy (sample_gcheck 3))) 2
         (Delay (from_millis 300))\<rparr>)"
    by (simp add: gcra_eval)
  show ?thesis
    using ev gcra_expiry_exact [OF ok _ _ _ ev, of 300 2] by (auto simp: sample_gcheck_simps tat_ok_def)
qed

end
