(* ===== verification/Memory_Gcra.thy ===== *)
theory Memory_Gcra
  imports Gcra Memory_Store
begin

text \<open>
  \<open>runlimit-memory/src/gcra.rs\<close>: the process-local GCRA store over the shared bounded shards. As in the
  fixed-window store the clock reading is an input (\<open>None\<close> when the clock panics under the lock),
  measured times only reach telemetry, and \<open>None\<close> as a result is a panic.
\<close>

section \<open>Entries and errors\<close>

record gcra_entry = ge_tat_scaled :: nat

record gcra_prepared =
  gc_input_index :: nat
  gc_counter_key :: counter_key
  gc_shard_position :: nat
  gc_check :: "gcra_policy check"
  gc_quota_mode :: quota_mode

definition GcraPrepared_new :: "nat \<Rightarrow> gcra_policy check \<Rightarrow> nat \<Rightarrow> gcra_prepared" where
  "GcraPrepared_new input_index check position =
     \<lparr>gc_input_index = input_index, gc_counter_key = chk_counter_key GcraPolicy check,
      gc_shard_position = position, gc_check = check, gc_quota_mode = gcp_quota_mode (chk_policy check)\<rparr>"

datatype gcra_check_error = GcraPoisonedShard poisoned_shard_error | GcraArithmeticOverflow

datatype gcra_batch_error = GcraStoreError memory_batch_error | GcraBatchArithmeticOverflow

definition gcra_batch_error_of_poison :: "poisoned_shard_error \<Rightarrow> gcra_batch_error" where
  "gcra_batch_error_of_poison e = GcraStoreError (PoisonedShard e)"

definition gcra_evaluate ::
    "gcra_entry shard \<Rightarrow> gcra_prepared \<Rightarrow> nat \<Rightarrow> (arithmetic_overflow, evaluation) result" where
  "gcra_evaluate shard check now_millis =
     evaluate (gc_check check) now_millis
       (map_option (\<lambda>(entry, _). ge_tat_scaled entry) (active_entry shard (gc_counter_key check) now_millis))"

definition gcra_consume ::
    "gcra_entry shard \<Rightarrow> gcra_prepared \<Rightarrow> pending_allowance \<Rightarrow> gcra_entry shard \<times> allowance" where
  "gcra_consume shard check pending =
     (fst (replace (gc_counter_key check) \<lparr>ge_tat_scaled = pa_tat_scaled pending\<rparr> (pa_expires_at_millis pending) shard),
      pa_allowance pending)"

section \<open>The store and single checks\<close>

record gcra_store =
  gs_config :: memory_store_config
  gs_shards :: "gcra_entry bounded_shards"

definition GcraStore_new :: "memory_store_config \<Rightarrow> gcra_store" where
  "GcraStore_new config = \<lparr>gs_config = config, gs_shards = BoundedShards_new config\<rparr>"

text \<open>
  The part of \<open>check_inner\<close> that runs while the shard is locked. The evaluation comes first, so an
  arithmetic overflow leaves the shard as it was.
\<close>

definition gcra_check_locked ::
    "memory_store_config \<Rightarrow> nat \<Rightarrow> gcra_policy check \<Rightarrow> nat \<Rightarrow> duration \<Rightarrow> gcra_entry shard \<Rightarrow>
     (gcra_entry shard \<times> (gcra_check_error, (decision, shard_effect) evaluated) result) option" where
  "gcra_check_locked config index check observed_millis cleanup_elapsed shard =
     (let counter_key = chk_counter_key GcraPolicy check;
          prepared = GcraPrepared_new 0 check 0;
          now_millis = max observed_millis (sh_latest_observed_millis shard)
      in case gcra_evaluate shard prepared now_millis of
           Err _ \<Rightarrow> Some (shard, Err GcraArithmeticOverflow)
         | Ok evaluation \<Rightarrow>
             (let shard = record_observed_millis now_millis shard;
                  cleanup_requested = max_expired_removals_per_check config;
                  (shard, cleanup_removed) = prune_expired now_millis cleanup_requested shard
              in do {
                (shard, decision) \<leftarrow>
                  (case evaluation of
                     Ev_Allowed pending \<Rightarrow>
                       if \<not> contains_key shard counter_key \<and> used shard \<ge> sh_capacity shard then
                         do { d \<leftarrow> storage_capacity_denial shard now_millis; Some (shard, Decision_denied d) }
                       else
                         (let (shard, a) = gcra_consume shard prepared pending in Some (shard, Decision_allowed a))
                   | Ev_Denied denial \<Rightarrow>
                       Some (shard, if gc_quota_mode prepared = Shadow then Decision_shadow_denied denial
                                    else Decision_denied (QuotaExceeded denial)));
                Some (shard, Ok
                  \<lparr>ev_value = decision,
                   ev_effect = \<lparr>sf_shard_index = index,
                     sf_cleanup = \<lparr>ce_requested = cleanup_requested, ce_removed = cleanup_removed,
                       ce_elapsed = cleanup_elapsed\<rparr>,
                     sf_used = used shard, sf_capacity = sh_capacity shard\<rparr>\<rparr>)
              }))"

definition gcra_check_inner ::
    "gcra_store \<Rightarrow> duration option \<Rightarrow> duration \<Rightarrow> gcra_policy check \<Rightarrow>
     gcra_store \<times> (gcra_check_error, (decision, shard_effect) evaluated) result option" where
  "gcra_check_inner store clock cleanup_elapsed check =
     (let index = shard_index (gs_shards store) (chk_counter_key GcraPolicy check) in
      case lock_shard (gs_shards store) index of
        None \<Rightarrow> (store, None)
      | Some (Err e) \<Rightarrow> (store, Some (Err (GcraPoisonedShard e)))
      | Some (Ok shard) \<Rightarrow>
          (case do { now \<leftarrow> clock; gcra_check_locked (gs_config store) index check (as_millis now) cleanup_elapsed shard } of
             None \<Rightarrow> (store\<lparr>gs_shards := poison [index] (gs_shards store)\<rparr>, None)
           | Some (shard, result) \<Rightarrow>
               (store\<lparr>gs_shards := release [(index, shard)] (gs_shards store)\<rparr>, Some result)))"

section \<open>Atomic batches\<close>

fun gcra_prepare ::
    "batch_topology \<Rightarrow> nat \<Rightarrow> gcra_policy check list \<Rightarrow> gcra_prepared list option" where
  "gcra_prepare topology input_index [] = Some []"
| "gcra_prepare topology input_index (check # checks) =
     do {
       position \<leftarrow> shard_position topology input_index;
       rest \<leftarrow> gcra_prepare topology (Suc input_index) checks;
       Some (GcraPrepared_new input_index check position # rest)
     }"

text \<open>The evaluation loop; the first overflow ends the batch.\<close>

fun evaluate_all ::
    "gcra_entry locked_shards \<Rightarrow> nat \<Rightarrow> gcra_prepared list \<Rightarrow> (arithmetic_overflow, evaluation list) result option" where
  "evaluate_all locked now_millis [] = Some (Ok [])"
| "evaluate_all locked now_millis (check # rest) =
     do {
       (_, shard) \<leftarrow> get_opt locked (gc_shard_position check);
       case gcra_evaluate shard check now_millis of
         Err e \<Rightarrow> Some (Err e)
       | Ok evaluation \<Rightarrow>
           do {
             r \<leftarrow> evaluate_all locked now_millis rest;
             Some (and_then r (\<lambda>evaluations. Ok (evaluation # evaluations)))
           }
     }"

definition gcra_batch_quota_denial :: "nat \<Rightarrow> gcra_prepared \<Rightarrow> quota_denial \<Rightarrow> batch_decision option" where
  "gcra_batch_quota_denial n check denial =
     expect (if gc_quota_mode check = Shadow
             then BatchDecision_shadow_denied (gc_input_index check) n denial
             else BatchDecision_denied (gc_input_index check) n (QuotaExceeded denial))"

text \<open>
  The loop over the evaluations: the allowances to consume (\<open>Inr\<close>) or the early return (\<open>Inl\<close>) with
  the decision for the first check that cannot be admitted.
\<close>

fun gcra_preflight ::
    "nat \<Rightarrow> gcra_entry locked_shards \<Rightarrow> nat \<Rightarrow> nat list \<Rightarrow> (gcra_prepared \<times> evaluation) list \<Rightarrow>
     (batch_decision + pending_allowance list) option" where
  "gcra_preflight n locked now_millis pending [] = Some (Inr [])"
| "gcra_preflight n locked now_millis pending ((check, evaluation) # rest) =
     do {
       (_, shard) \<leftarrow> get_opt locked (gc_shard_position check);
       case evaluation of
         Ev_Denied denial \<Rightarrow> do { value \<leftarrow> gcra_batch_quota_denial n check denial; Some (Inl value) }
       | Ev_Allowed a \<Rightarrow>
           if \<not> contains_key shard (gc_counter_key check) then
             do {
               insertions \<leftarrow> get_opt pending (gc_shard_position check);
               if used shard + insertions \<ge> sh_capacity shard then
                 do {
                   d \<leftarrow> storage_capacity_denial shard now_millis;
                   value \<leftarrow> expect (BatchDecision_denied (gc_input_index check) n d);
                   Some (Inl value)
                 }
               else
                 do {
                   r \<leftarrow> gcra_preflight n locked now_millis (pending[gc_shard_position check := insertions + 1]) rest;
                   Some (map_sum id (\<lambda>as. a # as) r)
                 }
             }
           else
             do {
               r \<leftarrow> gcra_preflight n locked now_millis pending rest;
               Some (map_sum id (\<lambda>as. a # as) r)
             }
     }"

fun gcra_consume_all ::
    "gcra_entry locked_shards \<Rightarrow> (gcra_prepared \<times> pending_allowance) list \<Rightarrow>
     (gcra_entry locked_shards \<times> allowance list) option" where
  "gcra_consume_all locked [] = Some (locked, [])"
| "gcra_consume_all locked ((check, a) # rest) =
     do {
       (index, shard) \<leftarrow> get_opt locked (gc_shard_position check);
       let (shard, consumed) = gcra_consume shard check a;
       (locked, as) \<leftarrow> gcra_consume_all (locked[gc_shard_position check := (index, shard)]) rest;
       Some (locked, consumed # as)
     }"

definition gcra_check_all_locked ::
    "memory_store_config \<Rightarrow> nat \<Rightarrow> nat list \<Rightarrow> gcra_prepared list \<Rightarrow> nat \<Rightarrow> (nat \<Rightarrow> duration) \<Rightarrow>
     gcra_entry locked_shards \<Rightarrow>
     (gcra_entry locked_shards \<times> (gcra_batch_error, (batch_decision, shard_effect list) evaluated) result) option" where
  "gcra_check_all_locked config n counts prepared observed_millis timer locked_shards =
     (let now_millis = fold max (map (\<lambda>(_, shard). sh_latest_observed_millis shard) locked_shards) observed_millis
      in do {
        evaluated \<leftarrow> evaluate_all locked_shards now_millis prepared;
        case evaluated of
          Err _ \<Rightarrow> Some (locked_shards, Err GcraBatchArithmeticOverflow)
        | Ok evaluations \<Rightarrow>
            (let (locked_shards, cleanup_effects) = cleanup_shards config now_millis timer locked_shards counts
             in do {
               pre \<leftarrow> gcra_preflight n locked_shards now_millis (replicate (length locked_shards) 0)
                        (zip prepared evaluations);
               case pre of
                 Inl value \<Rightarrow>
                   Some (locked_shards,
                     Ok \<lparr>ev_value = value, ev_effect = collect_shard_effects locked_shards cleanup_effects\<rparr>)
               | Inr allowances \<Rightarrow>
                   do {
                     (locked_shards, consumed) \<leftarrow> gcra_consume_all locked_shards (zip prepared allowances);
                     value \<leftarrow> expect (BatchDecision_allowed consumed);
                     Some (locked_shards,
                       Ok \<lparr>ev_value = value, ev_effect = collect_shard_effects locked_shards cleanup_effects\<rparr>)
                   }
             })
      })"

definition gcra_check_all_inner ::
    "gcra_store \<Rightarrow> duration option \<Rightarrow> (nat \<Rightarrow> duration) \<Rightarrow> gcra_policy check list \<Rightarrow>
     gcra_store \<times> (gcra_batch_error, (batch_decision, shard_effect list) evaluated) result option" where
  "gcra_check_all_inner store clock timer checks =
     (case validate_batch GcraPolicy checks (max_batch_size (gs_config store)) of
        Err e \<Rightarrow> (store, Some (Err (GcraStoreError (InvalidBatch e))))
      | Ok _ \<Rightarrow>
          (case BatchTopology_new
                  (map (\<lambda>check. shard_index (gs_shards store) (chk_counter_key GcraPolicy check)) checks)
                  (gs_config store) of
             None \<Rightarrow> (store, None)
           | Some (Err e) \<Rightarrow> (store, Some (Err (GcraStoreError e)))
           | Some (Ok topology) \<Rightarrow>
               (case gcra_prepare topology 0 checks of
                  None \<Rightarrow> (store, None)
                | Some prepared \<Rightarrow>
                    (case lock_topology (gs_shards store) topology of
                       None \<Rightarrow> (store, None)
                     | Some (Err e) \<Rightarrow> (store, Some (Err (gcra_batch_error_of_poison e)))
                     | Some (Ok locked) \<Rightarrow>
                         (case do { now \<leftarrow> clock;
                                    gcra_check_all_locked (gs_config store) (length checks) (check_counts topology)
                                      prepared (as_millis now) timer locked } of
                            None \<Rightarrow> (store\<lparr>gs_shards := poison (map fst locked) (gs_shards store)\<rparr>, None)
                          | Some (locked, result) \<Rightarrow>
                              (store\<lparr>gs_shards := release locked (gs_shards store)\<rparr>, Some result))))))"

section \<open>The public operations\<close>

definition gs_check ::
    "(observation \<Rightarrow> 'o \<Rightarrow> 'o \<times> bool) option \<Rightarrow> 'o \<Rightarrow> gcra_store \<Rightarrow> duration option \<Rightarrow> duration \<Rightarrow>
     duration \<Rightarrow> gcra_policy check \<Rightarrow> 'o \<times> gcra_store \<times> (gcra_check_error, decision) result option" where
  "gs_check observer ost store clock cleanup_elapsed elapsed check =
     (case gcra_check_inner store clock cleanup_elapsed check of
        (store', None) \<Rightarrow> (ost, store', None)
      | (store', Some (Ok evaluation)) \<Rightarrow>
          (notify observer (observe_shard_effect (ev_effect evaluation) @
             [Obs_Admission (from_check GcraPolicy check (ev_value evaluation) elapsed)]) ost,
           store', Some (Ok (ev_value evaluation)))
      | (store', Some (Err e)) \<Rightarrow>
          (notify observer [Obs_Admission (failed_check GcraPolicy check NotConsumed elapsed)] ost,
           store', Some (Err e)))"

definition gs_check_all ::
    "(observation \<Rightarrow> 'o \<Rightarrow> 'o \<times> bool) option \<Rightarrow> 'o \<Rightarrow> gcra_store \<Rightarrow> duration option \<Rightarrow>
     (nat \<Rightarrow> duration) \<Rightarrow> duration \<Rightarrow> gcra_policy check list \<Rightarrow>
     'o \<times> gcra_store \<times> (gcra_batch_error, batch_decision) result option" where
  "gs_check_all observer ost store clock timer elapsed checks =
     (case gcra_check_all_inner store clock timer checks of
        (store', None) \<Rightarrow> (ost, store', None)
      | (store', Some (Ok evaluation)) \<Rightarrow>
          (notify observer (observe_shard_effects (ev_effect evaluation) @
             [Obs_Admission (from_batch GcraPolicy checks (ev_value evaluation) elapsed)]) ost,
           store', Some (Ok (ev_value evaluation)))
      | (store', Some (Err e)) \<Rightarrow>
          (notify observer [Obs_Admission (failed_batch GcraPolicy checks NotConsumed elapsed)] ost,
           store', Some (Err e)))"

definition gs_stats :: "gcra_store \<Rightarrow> (poisoned_shard_error, memory_store_stats) result option" where
  "gs_stats store = BoundedShards_stats (gs_shards store) (gs_config store)"

definition gs_clear :: "gcra_store \<Rightarrow> gcra_store \<times> (poisoned_shard_error, unit) result option" where
  "gs_clear store =
     (let (shards, r) = BoundedShards_clear (gs_shards store) in (store\<lparr>gs_shards := shards\<rparr>, r))"

definition gs_recover_poisoned :: "gcra_store \<Rightarrow> gcra_store \<times> nat" where
  "gs_recover_poisoned store =
     (let (shards, n) = recover_poisoned_shards (gs_shards store) (gs_config store)
      in (store\<lparr>gs_shards := shards\<rparr>, n))"

end
