(* ===== verification/Memory_Gcra_Correct.thy ===== *)
theory Memory_Gcra_Correct
  imports Memory_Gcra Memory_Store_Correct
begin

text \<open>
  Correctness of the memory GCRA store: stored arrival times stay within what the exact arithmetic
  needs, so single checks and atomic batches never panic, fail only by arithmetic overflow (and then
  change nothing), and otherwise follow the exact GCRA transition on exactly the counters they admit.
  A table \<open>tab\<close> gives the configuration behind every fingerprint in use.
\<close>

section \<open>Rates and the invariant of a shard\<close>

type_synonym rate_table = "policy_fingerprint \<Rightarrow> gcra_policy"

abbreviation (input) gkey :: "gcra_policy check \<Rightarrow> counter_key" where
  "gkey c \<equiv> chk_counter_key GcraPolicy c"

text \<open>A constructed check whose policy has the quota, period and burst its fingerprint stands for.\<close>

definition gc_ok :: "rate_table \<Rightarrow> gcra_policy check \<Rightarrow> bool" where
  "gc_ok tab c \<longleftrightarrow> gcheck_ok c \<and>
     (let p = tab (ck_fingerprint (gkey c)) in
      gcp_quota p = gcp_quota (chk_policy c) \<and> gcp_period p = gcp_period (chk_policy c) \<and>
      gcp_burst_capacity p = gcp_burst_capacity (chk_policy c))"

definition gentry_ok :: "gcra_policy \<Rightarrow> nat \<Rightarrow> nat \<Rightarrow> nat \<Rightarrow> bool" where
  "gentry_ok p now tat e \<longleftrightarrow>
     tat \<le> now * capacity_get (gcp_quota p) + capacity_get (gcp_burst_capacity p) * period_millis (gcp_period p) \<and>
     e = div_ceil tat (capacity_get (gcp_quota p))"

definition gentries_ok :: "rate_table \<Rightarrow> nat \<Rightarrow> gcra_entry shard \<Rightarrow> bool" where
  "gentries_ok tab now s \<longleftrightarrow> (\<forall>k v e. shard_map s k = Some (v, e) \<longrightarrow>
     gentry_ok (tab (ck_fingerprint k)) now (ge_tat_scaled v) e)"

definition gshard_ok :: "rate_table \<Rightarrow> gcra_entry shard \<Rightarrow> bool" where
  "gshard_ok tab s \<longleftrightarrow> shard_ok s \<and> gentries_ok tab (sh_latest_observed_millis s) s"

abbreviation tat_of :: "(gcra_entry \<times> nat) option \<Rightarrow> nat option" where
  "tat_of st \<equiv> map_option (\<lambda>(v, _). ge_tat_scaled v) st"

lemma gc_ok_entry:
  assumes "gc_ok tab c"
  shows "gentry_ok (tab (ck_fingerprint (gkey c))) now t e \<longleftrightarrow> tat_ok c now (Some t) \<and> e = div_ceil t (gq c)"
  using assms by (auto simp: gc_ok_def gentry_ok_def tat_ok_def gq_def gp_def gb_def Let_def)

lemma gentry_ok_mono: "gentry_ok p now t e \<Longrightarrow> now \<le> now' \<Longrightarrow> gentry_ok p now' t e"
  by (auto simp: gentry_ok_def) (meson add_le_mono1 le_trans mult_le_mono1)

lemma gentries_ok_mono: "gentries_ok tab now s \<Longrightarrow> now \<le> now' \<Longrightarrow> gentries_ok tab now' s"
  using gentry_ok_mono unfolding gentries_ok_def by blast

lemma live_tat_ok:
  assumes "gentries_ok tab now s" "gc_ok tab c"
  shows "tat_ok c now (tat_of (shard.live t s (gkey c)))"
proof (cases "shard.live t s (gkey c)")
  case (Some x)
  then obtain v e where "x = (v, e)" "shard_map s (gkey c) = Some (v, e)" by (cases x) (auto simp: live_Some)
  moreover from this have "gentry_ok (tab (ck_fingerprint (gkey c))) now (ge_tat_scaled v) e"
    using assms(1) by (simp add: gentries_ok_def)
  ultimately show ?thesis using Some gc_ok_entry [OF assms(2)] by simp
qed (simp add: tat_ok_def)

section \<open>The evaluation\<close>

text \<open>Whatever the clock, an evaluation that does not overflow is the exact one.\<close>

lemma evaluate_Ok_spec:
  assumes ok: "gcheck_ok c" and ev: "evaluate c now tat = Ok r"
  shows "r = gcra_spec c now tat"
proof -
  have av: "Allowance_new (gcp_burst_capacity (chk_policy c)) (gcra_available c now tat) d =
      Ok (Allowance (gcp_burst_capacity (chk_policy c)) (gcra_available c now tat) (Delay d))" for d
    using available_bound [OF ok, of now tat] by (simp add: allowance_new_Ok gb_def)
  from ev show ?thesis
    unfolding evaluate_def gcra_spec_def Let_def gq_def [symmetric] gp_def [symmetric] gb_def [symmetric]
    by (auto simp: and_then_eq_Inr active_unfold gcra_duration_def gcra_available_def [symmetric] av
        gcra_replenish_def [symmetric] gcra_retry_def [symmetric] conforms_def split: if_splits)
qed

text \<open>The entry and the expiry that an admission stores.\<close>

definition g_next :: "gcra_policy check \<Rightarrow> nat \<Rightarrow> (gcra_entry \<times> nat) option \<Rightarrow> gcra_entry \<times> nat" where
  "g_next c now st =
     (\<lparr>ge_tat_scaled = active c now (tat_of st) + chk_cost c * gp c\<rparr>, now + gcra_replenish c now (tat_of st))"

definition g_allowance :: "gcra_policy check \<Rightarrow> nat \<Rightarrow> (gcra_entry \<times> nat) option \<Rightarrow> allowance" where
  "g_allowance c now st = Allowance (gcp_burst_capacity (chk_policy c)) (gcra_available c now (tat_of st))
     (Delay (from_millis (gcra_replenish c now (tat_of st))))"

definition g_denial :: "gcra_policy check \<Rightarrow> nat \<Rightarrow> (gcra_entry \<times> nat) option \<Rightarrow> quota_denial" where
  "g_denial c now st = QuotaDenial_new (gcp_burst_capacity (chk_policy c)) (from_millis (gcra_retry c now (tat_of st)))"

abbreviation g_conforms :: "gcra_policy check \<Rightarrow> nat \<Rightarrow> (gcra_entry \<times> nat) option \<Rightarrow> bool" where
  "g_conforms c now st \<equiv> conforms c now (tat_of st)"

lemma gcra_spec_cases:
  "gcra_spec c now (tat_of st) =
     (if g_conforms c now st
      then Ev_Allowed \<lparr>pa_tat_scaled = ge_tat_scaled (fst (g_next c now st)),
        pa_expires_at_millis = snd (g_next c now st), pa_allowance = g_allowance c now st\<rparr>
      else Ev_Denied (g_denial c now st))"
  by (simp add: gcra_spec_def g_next_def g_allowance_def g_denial_def)

lemma g_next_ok:
  assumes c: "gc_ok tab c" and t: "tat_ok c now (tat_of st)" and conf: "g_conforms c now st"
  shows "gentry_ok (tab (ck_fingerprint (gkey c))) now (ge_tat_scaled (fst (g_next c now st))) (snd (g_next c now st))"
    "snd (g_next c now st) \<le> now + MAX_WINDOW_MILLIS" "now < snd (g_next c now st)"
proof -
  have g: "gcheck_ok c" using c by (simp add: gc_ok_def)
  let ?cand = "active c now (tat_of st) + chk_cost c * gp c"
  have q: "0 < gq c" and "0 < chk_cost c * gp c" using gcheck_bounds [OF g] by simp_all
  then have lt: "now * gq c < ?cand" using active_bounds(1) [of now c "tat_of st"] by linarith
  have "now + gcra_replenish c now (tat_of st) = div_ceil (now * gq c + (?cand - now * gq c)) (gq c)"
    unfolding gcra_replenish_def using q by (simp add: div_ceil_add_mult del: le_add_diff_inverse)
  also have "\<dots> = div_ceil ?cand (gq c)" using lt by simp
  finally have e: "snd (g_next c now st) = div_ceil ?cand (gq c)" by (simp add: g_next_def)
  have "tat_ok c now (Some ?cand)" using conf by (simp add: tat_ok_def conforms_def)
  then show "gentry_ok (tab (ck_fingerprint (gkey c))) now (ge_tat_scaled (fst (g_next c now st))) (snd (g_next c now st))"
    using gc_ok_entry [OF c] e by (simp add: g_next_def)
  show "snd (g_next c now st) \<le> now + MAX_WINDOW_MILLIS"
    using delay_bounds(2) [OF g t conf] by (simp add: g_next_def MAX_WINDOW_MILLIS_value)
  show "now < snd (g_next c now st)" unfolding e using q lt by (simp add: less_div_ceil_iff)
qed

lemma gcra_evaluate_live:
  "gcra_evaluate s (GcraPrepared_new i c p) now = evaluate c now (tat_of (shard.live now s (gkey c)))"
  by (simp add: gcra_evaluate_def GcraPrepared_new_def active_entry_live)

section \<open>One shard\<close>

definition gshard_at :: "rate_table \<Rightarrow> nat \<Rightarrow> gcra_entry shard \<Rightarrow> bool" where
  "gshard_at tab now s \<longleftrightarrow> shard_at now s \<and> gentries_ok tab now s"

lemma gshard_at_ok: "gshard_at tab now s \<Longrightarrow> gshard_ok tab s"
  by (simp add: gshard_at_def gshard_ok_def shard_at_def)

lemma gshard_at_cleanup:
  assumes "gshard_ok tab s" "sh_latest_observed_millis s \<le> now" "now < CLOCK_BOUND"
  shows "gshard_at tab now (shard_prune now n (record_observed_millis now s))"
proof -
  have ok: "shard_ok s" "gentries_ok tab now s"
    using assms(1) gentries_ok_mono [OF _ assms(2)] by (auto simp: gshard_ok_def)
  have "index_ok (record_observed_millis now s)" using ok(1) by (simp add: shard_ok_def)
  from shard.lookup_prune [OF this, of now n] ok(2)
  have "gentries_ok tab now (shard_prune now n (record_observed_millis now s))"
    unfolding gentries_ok_def by (metis option.distinct(1) record_observed_simps(1))
  then show ?thesis using shard_at_cleanup [OF ok(1) assms(2,3)] by (simp add: gshard_at_def)
qed

text \<open>What consuming a check does to a shard; whether the shard has room is decided before.\<close>

definition g_put :: "nat \<Rightarrow> gcra_policy check \<Rightarrow> gcra_entry shard \<Rightarrow> gcra_entry shard" where
  "g_put now c s = (let (v, e) = g_next c now (shard.live now s (gkey c)) in shard_put (gkey c) v e s)"

definition g_apply :: "nat \<Rightarrow> gcra_policy check \<Rightarrow> (gcra_entry \<times> nat) option \<Rightarrow> nat \<Rightarrow> (gcra_entry \<times> nat) option" where
  "g_apply now c st t = (let (v, e) = g_next c now st in if t < e then Some (v, e) else None)"

lemma gcra_consume_put:
  "st = shard.live now s (gkey c) \<Longrightarrow>
   gcra_consume s (GcraPrepared_new i c p) \<lparr>pa_tat_scaled = ge_tat_scaled (fst (g_next c now st)),
      pa_expires_at_millis = snd (g_next c now st), pa_allowance = g_allowance c now st\<rparr> =
     (g_put now c s, g_allowance c now st)"
  by (simp add: gcra_consume_def GcraPrepared_new_def g_put_def g_next_def)

lemma g_put_facts:
  assumes s: "index_ok s" "expiries_within MAX_WINDOW_MILLIS now s" "gentries_ok tab now s"
    and c: "gc_ok tab c" "g_conforms c now (shard.live now s (gkey c))"
  shows "index_ok (g_put now c s)" "expiries_within MAX_WINDOW_MILLIS now (g_put now c s)"
    "gentries_ok tab now (g_put now c s)"
    "sh_capacity (g_put now c s) = sh_capacity s"
    "sh_latest_observed_millis (g_put now c s) = sh_latest_observed_millis s"
    "used (g_put now c s) = (if contains_key s (gkey c) then used s else Suc (used s))"
    "shard_map (g_put now c s) = (shard_map s)(gkey c \<mapsto> g_next c now (shard.live now s (gkey c)))"
proof -
  let ?st = "shard.live now s (gkey c)"
  obtain v e where n: "g_next c now ?st = (v, e)" by fastforce
  then have put: "g_put now c s = shard_put (gkey c) v e s" by (simp add: g_put_def)
  note N = g_next_ok [OF c(1) live_tat_ok [OF s(3) c(1)] c(2), unfolded n fst_conv snd_conv]
  show map: "shard_map (g_put now c s) = (shard_map s)(gkey c \<mapsto> g_next c now ?st)"
    by (simp add: put n shard_map_replace)
  show "index_ok (g_put now c s)" "sh_capacity (g_put now c s) = sh_capacity s"
    "sh_latest_observed_millis (g_put now c s) = sh_latest_observed_millis s"
    using s(1) by (simp_all add: put index_ok_replace)
  show "expiries_within MAX_WINDOW_MILLIS now (g_put now c s)"
    using s(2) N(2) by (simp add: put expiries_within_put)
  show "used (g_put now c s) = (if contains_key s (gkey c) then used s else Suc (used s))"
    using shard.count_put [OF s(1), of "gkey c" v e] by (simp add: put contains_key_map)
  show "gentries_ok tab now (g_put now c s)"
    unfolding gentries_ok_def map n using s(3) N(1) by (auto simp: gentries_ok_def)
qed

lemma g_put_live:
  assumes "index_ok s" "now \<le> t"
  shows "shard.live t (g_put now c s) = (shard.live t s)(gkey c := g_apply now c (shard.live now s (gkey c)) t)"
  using assms by (simp add: g_put_def g_apply_def shard.live_put split: prod.splits)

lemma g_put_at:
  assumes "gshard_at tab now s" "gc_ok tab c" "g_conforms c now (shard.live now s (gkey c))"
    "contains_key s (gkey c) \<or> used s < sh_capacity s"
  shows "gshard_at tab now (g_put now c s)"
  using assms g_put_facts [of s now tab c] by (auto simp: gshard_at_def shard_at_def shard_ok_def)

lemma storage_denial_at:
  assumes "shard_at now s"
  obtains r where "storage_capacity_denial s now = Some (StorageCapacity r)"
  using storage_capacity_denial_total [of s MAX_WINDOW_MILLIS now] assms
  by (auto simp: shard_at_def shard_ok_def MAX_WINDOW_MILLIS_value)

section \<open>A single check on its shard\<close>

definition g_denied_decision :: "gcra_policy check \<Rightarrow> quota_denial \<Rightarrow> decision" where
  "g_denied_decision c d =
     (if gcp_quota_mode (chk_policy c) = Shadow then Decision_shadow_denied d
      else Decision_denied (QuotaExceeded d))"

lemma gcra_check_locked_spec:
  fixes c obs s config
  defines "now \<equiv> max obs (sh_latest_observed_millis s)" and "k \<equiv> gkey c"
  defines "s1 \<equiv> shard_prune now (max_expired_removals_per_check config) (record_observed_millis now s)"
    and "st \<equiv> shard.live now s k"
  assumes s: "gshard_ok tab s" and c: "gc_ok tab c" and obs: "obs < CLOCK_BOUND"
  shows "case evaluate c now (tat_of st) of
      Err e \<Rightarrow> gcra_check_locked config i c obs el s = Some (s, Err GcraArithmeticOverflow)
    | Ok _ \<Rightarrow> \<exists>s' ev. gcra_check_locked config i c obs el s = Some (s', Ok ev) \<and> gshard_at tab now s' \<and>
        sh_capacity s' = sh_capacity s \<and>
        (if \<not> g_conforms c now st then s' = s1 \<and> ev_value ev = g_denied_decision c (g_denial c now st)
         else if \<not> contains_key s1 k \<and> sh_capacity s \<le> used s1
         then s' = s1 \<and> (\<exists>r. ev_value ev = Decision_denied (StorageCapacity r))
         else s' = g_put now c s1 \<and> ev_value ev = Decision_allowed (g_allowance c now st))"
proof (cases "evaluate c now (tat_of st)")
  case (Inl e)
  then show ?thesis
    by (simp add: gcra_check_locked_def Let_def gcra_evaluate_live now_def [symmetric] k_def [symmetric] st_def [symmetric])
next
  case (Inr r)
  have g: "gcheck_ok c" using c by (simp add: gc_ok_def)
  have r: "r = gcra_spec c now (tat_of st)" by (rule evaluate_Ok_spec [OF g Inr])
  have late: "now < CLOCK_BOUND" "sh_latest_observed_millis s \<le> now" and so: "shard_ok s"
    using s obs by (auto simp: now_def gshard_ok_def shard_ok_def)
  have at: "gshard_at tab now s1" unfolding s1_def using gshard_at_cleanup [OF s late(2,1)] .
  have st1: "st = shard.live now s1 (gkey c)" unfolding st_def s1_def k_def using so by (simp add: cleanup_live)
  have cap: "sh_capacity s1 = sh_capacity s" unfolding s1_def using so by simp
  have pr: "prune_expired now (max_expired_removals_per_check config) (record_observed_millis now s) =
      (s1, snd (prune_expired now (max_expired_removals_per_check config) (record_observed_millis now s)))"
    by (simp add: s1_def)
  have ev: "gcra_evaluate s (GcraPrepared_new 0 c 0) now = Ok (gcra_spec c now (tat_of st))"
    using Inr r by (simp add: gcra_evaluate_live st_def k_def)
  have mode: "gc_quota_mode (GcraPrepared_new 0 c 0) = gcp_quota_mode (chk_policy c)" by (simp add: GcraPrepared_new_def)
  note unf = gcra_check_locked_def Let_def now_def [symmetric] k_def [symmetric] ev sum.case gcra_spec_cases
  consider (denied) "\<not> g_conforms c now st"
    | (full) "g_conforms c now st" "\<not> contains_key s1 k" "sh_capacity s \<le> used s1"
    | (fits) "g_conforms c now st" "contains_key s1 k \<or> used s1 < sh_capacity s"
    by fastforce
  then have "\<exists>s' ev. gcra_check_locked config i c obs el s = Some (s', Ok ev) \<and> gshard_at tab now s' \<and>
        sh_capacity s' = sh_capacity s \<and>
        (if \<not> g_conforms c now st then s' = s1 \<and> ev_value ev = g_denied_decision c (g_denial c now st)
         else if \<not> contains_key s1 k \<and> sh_capacity s \<le> used s1
         then s' = s1 \<and> (\<exists>r. ev_value ev = Decision_denied (StorageCapacity r))
         else s' = g_put now c s1 \<and> ev_value ev = Decision_allowed (g_allowance c now st))"
  proof cases
    case denied
    then show ?thesis using at cap unfolding unf by (subst pr) (simp add: mode g_denied_decision_def)
  next
    case full
    obtain q where "storage_capacity_denial s1 now = Some (StorageCapacity q)"
      using at storage_denial_at [of now s1] by (auto simp: gshard_at_def)
    then show ?thesis using full at cap unfolding unf by (subst pr) auto
  next
    case fits
    have "gshard_at tab now (g_put now c s1)" using g_put_at [OF at c] fits st1 cap by (simp add: k_def)
    moreover have "sh_capacity (g_put now c s1) = sh_capacity s"
      using g_put_facts(4) [of s1 now tab c] at fits st1 cap c by (auto simp: gshard_at_def shard_at_def shard_ok_def)
    ultimately show ?thesis using fits cap unfolding unf
      by (subst pr) (auto simp: gcra_consume_put [OF st1, of 0 0])
  qed
  then show ?thesis using Inr by simp
qed

section \<open>Single checks on the store\<close>

definition gshards_ok :: "rate_table \<Rightarrow> memory_store_config \<Rightarrow> gcra_entry bounded_shards \<Rightarrow> bool" where
  "gshards_ok tab config bs \<longleftrightarrow> shards_ok config bs \<and>
     (\<forall>i < length bs. \<not> mx_poisoned (bs ! i) \<longrightarrow> gshard_ok tab (mx_shard (bs ! i)))"

definition gs_ok :: "rate_table \<Rightarrow> gcra_store \<Rightarrow> bool" where
  "gs_ok tab store \<longleftrightarrow> gshards_ok tab (gs_config store) (gs_shards store)"

lemma gshards_ok_release:
  assumes "gshards_ok tab config bs" "shards_ok config (release locked bs)" "distinct (map fst locked)"
    and "\<forall>(i, s) \<in> set locked. gshard_ok tab s"
  shows "gshards_ok tab config (release locked bs)"
  using assms unfolding gshards_ok_def
  by (fastforce simp: release_nth dest: map_of_SomeD split: option.splits)

lemma gshards_ok_poison [store_inv]: "gshards_ok tab config bs \<Longrightarrow> gshards_ok tab config (poison is bs)"
  by (auto simp: gshards_ok_def poison_nth shards_ok_poison)

lemma release_same:
  assumes "i < length bs" shows "release [(i, mx_shard (bs ! i))] bs = bs"
  using assms by (intro nth_equalityI) (auto simp: release_nth)

text \<open>What one evaluated check does to the live counters, and its decision.\<close>

definition g_checked :: "rate_table \<Rightarrow> gcra_store \<Rightarrow> nat \<Rightarrow> gcra_policy check \<Rightarrow> gcra_store \<Rightarrow> decision \<Rightarrow> bool" where
  "g_checked tab store now c store' v \<longleftrightarrow>
     (let bs = gs_shards store; k = gkey c; st = bs_live bs now k in
      if \<not> g_conforms c now st then
        v = g_denied_decision c (g_denial c now st) \<and> (\<forall>t \<ge> now. bs_live (gs_shards store') t = bs_live bs t)
      else (\<exists>r. v = Decision_denied (StorageCapacity r)) \<and>
          (\<forall>t \<ge> now. bs_live (gs_shards store') t = bs_live bs t) \<and> st = None \<and>
          card {k'. shard.live now (mx_shard (bs ! shard_index bs k)) k' \<noteq> None} =
            shard_capacity (gs_config store) (shard_index bs k)
        \<or> v = Decision_allowed (g_allowance c now st) \<and>
          (\<forall>t \<ge> now. bs_live (gs_shards store') t = (bs_live bs t)(k := g_apply now c st t)))"

lemma gcra_check_inner_spec:
  fixes store c d el
  defines "bs \<equiv> gs_shards store" and "k \<equiv> gkey c"
  defines "i \<equiv> shard_index bs k"
  defines "now \<equiv> max (as_millis d) (bs_latest bs i)"
  assumes ok: "gs_ok tab store" and c: "gc_ok tab c" and d: "d \<le> duration_MAX"
    and healthy: "\<not> mx_poisoned (bs ! i)"
  shows "case evaluate c now (tat_of (bs_live bs now k)) of
      Err _ \<Rightarrow> gcra_check_inner store (Some d) el c = (store, Some (Err GcraArithmeticOverflow))
    | Ok _ \<Rightarrow> \<exists>s' ev. gcra_check_inner store (Some d) el c = (store\<lparr>gs_shards := release [(i, s')] bs\<rparr>, Some (Ok ev)) \<and>
        gs_ok tab (store\<lparr>gs_shards := release [(i, s')] bs\<rparr>) \<and> sh_latest_observed_millis s' = now \<and>
        g_checked tab store now c (store\<lparr>gs_shards := release [(i, s')] bs\<rparr>) (ev_value ev)"
proof -
  let ?s = "mx_shard (bs ! i)" and ?st = "bs_live bs now k"
  let ?n = "max_expired_removals_per_check (gs_config store)"
  let ?s1 = "shard_prune now ?n (record_observed_millis now ?s)"
  have gbs: "gshards_ok tab (gs_config store) bs" and bs: "shards_ok (gs_config store) bs"
    using ok by (simp_all add: gs_ok_def bs_def gshards_ok_def)
  note ne = shards_ok_nonempty [OF bs]
  have i: "i < length bs" using shard_index_less [OF ne] by (simp add: i_def)
  have s: "gshard_ok tab ?s" "shard_ok ?s" "sh_capacity ?s = shard_capacity (gs_config store) i"
    using gbs i healthy shards_ok_nth [OF bs i healthy] by (auto simp: gshards_ok_def)
  have lock: "lock_shard bs i = Some (Ok ?s)" using i healthy by (simp add: lock_shard_def)
  have st: "?st = shard.live now ?s k" by (simp add: bs_live_def i_def)
  have latest: "bs_latest bs i = sh_latest_observed_millis ?s" by (simp add: bs_latest_def)
  note L = gcra_check_locked_spec [OF s(1) c as_millis_clock [OF d], of "gs_config store" i el,
      unfolded latest [symmetric], folded now_def k_def, folded st]
  show ?thesis
  proof (cases "evaluate c now (tat_of ?st)")
    case (Inl e)
    with L have "gcra_check_locked (gs_config store) i c (as_millis d) el ?s = Some (?s, Err GcraArithmeticOverflow)" by simp
    then have "gcra_check_inner store (Some d) el c = (store\<lparr>gs_shards := bs\<rparr>, Some (Err GcraArithmeticOverflow))"
      using lock release_same [OF i] by (simp add: gcra_check_inner_def bs_def k_def i_def)
    then show ?thesis using Inl by (simp add: bs_def)
  next
    case (Inr r)
    with L obtain s' ev where s': "gcra_check_locked (gs_config store) i c (as_millis d) el ?s = Some (s', Ok ev)"
      "gshard_at tab now s'" "sh_capacity s' = sh_capacity ?s"
      and post: "if \<not> g_conforms c now ?st then s' = ?s1 \<and> ev_value ev = g_denied_decision c (g_denial c now ?st)
         else if \<not> contains_key ?s1 k \<and> sh_capacity ?s \<le> used ?s1
         then s' = ?s1 \<and> (\<exists>r. ev_value ev = Decision_denied (StorageCapacity r))
         else s' = g_put now c ?s1 \<and> ev_value ev = Decision_allowed (g_allowance c now ?st)"
      by auto
    let ?store' = "store\<lparr>gs_shards := release [(i, s')] bs\<rparr>"
    have inner: "gcra_check_inner store (Some d) el c = (?store', Some (Ok ev))"
      using lock s'(1) by (simp add: gcra_check_inner_def bs_def k_def i_def)
    have sok': "shard_ok s'" "gshard_ok tab s'" using gshard_at_ok [OF s'(2)] by (auto simp: gshard_ok_def)
    have "shards_ok (gs_config store) (release [(i, s')] bs)" using bs sok' s'(3) s(3) by (intro shards_ok_release) auto
    then have ok': "gs_ok tab ?store'"
      using gshards_ok_release [OF gbs] sok' by (simp add: gs_ok_def)
    have live1: "shard.live t ?s1 = shard.live t ?s" if "now \<le> t" for t using cleanup_live [OF s(2) that] by blast
    have live': "bs_live (gs_shards ?store') t k' = f k' (bs_live bs t k')"
      if "\<And>k'. shard.live t s' k' = f k' (shard.live t ?s k')" "\<And>k'. shard_index bs k' \<noteq> i \<Longrightarrow> f k' = (\<lambda>x. x)" for t k' f
      using bs_live_release1 [of i bs t s' f k'] i ne that by simp
    have same: "bs_live (gs_shards ?store') t = bs_live bs t" if "s' = ?s1" "now \<le> t" for t
      using live' [of t "\<lambda>_ x. x"] live1 [OF that(2)] that(1) by auto
    have "g_checked tab store now c ?store' (ev_value ev)"
    proof -
      consider (denied) "\<not> g_conforms c now ?st"
        | (full) "g_conforms c now ?st" "\<not> contains_key ?s1 k" "sh_capacity ?s \<le> used ?s1"
        | (fits) "g_conforms c now ?st" "contains_key ?s1 k \<or> used ?s1 < sh_capacity ?s"
        by fastforce
      then show ?thesis
      proof cases
        case denied
        then show ?thesis using post same by (auto simp: g_checked_def bs_def [symmetric] k_def [symmetric] Let_def)
      next
        case full
        have n: "0 < ?n" using bs by (simp add: shards_ok_def config_ok_def)
        have "card {k'. shard.live now ?s k' \<noteq> None} = sh_capacity ?s"
          using full_of_live [OF s(2) _ n full(3)] by (simp add: now_def latest)
        moreover have "?st = None"
        proof -
          have "shard_map ?s1 k = None" using full(2) unfolding contains_key_map by blast
          then have "shard.live now ?s1 k = None" by (simp add: shard.live_def)
          then show ?thesis using live1 [of now] by (simp add: st)
        qed
        ultimately show ?thesis using full post same s(3)
          by (auto simp: g_checked_def bs_def [symmetric] k_def [symmetric] i_def [symmetric] Let_def)
      next
        case fits
        then have s1: "s' = g_put now c ?s1" and ev: "ev_value ev = Decision_allowed (g_allowance c now ?st)"
          using post by auto
        have idx: "index_ok ?s1"
          using gshard_at_cleanup [OF s(1), of now ?n] s(2) as_millis_clock [OF d] latest
          by (simp add: now_def gshard_at_def shard_at_def shard_ok_def)
        have "bs_live (gs_shards ?store') t = (bs_live bs t)(k := g_apply now c ?st t)" if "now \<le> t" for t
        proof
          fix k'
          have "shard.live t s' k'' = (if k'' = k then g_apply now c ?st t else shard.live t ?s k'')" for k''
            using g_put_live [OF idx that, of c] live1 [OF that] live1 [of now] by (simp add: s1 st [unfolded k_def] k_def)
          then have "bs_live (gs_shards ?store') t k' = (if k' = k then g_apply now c ?st t else bs_live bs t k')"
            by (rule live' [of t "\<lambda>k'' x. if k'' = k then g_apply now c ?st t else x"]) (auto simp: i_def)
          then show "bs_live (gs_shards ?store') t k' = ((bs_live bs t)(k := g_apply now c ?st t)) k'" by simp
        qed
        then show ?thesis using fits ev by (simp add: g_checked_def bs_def [symmetric] k_def [symmetric] Let_def)
      qed
    qed
    then show ?thesis using inner ok' s'(2) Inr by (auto simp: gshard_at_def shard_at_def)
  qed
qed

lemma gcra_check_inner_poisoned:
  assumes "gs_ok tab store" "mx_poisoned (gs_shards store ! shard_index (gs_shards store) (gkey c))"
  shows "gcra_check_inner store clock el c =
    (store, Some (Err (GcraPoisonedShard (PoisonedShardError (shard_index (gs_shards store) (gkey c))))))"
  using assms shard_index_less [OF shards_ok_nonempty, of "gs_config store" "gs_shards store"]
  by (simp add: gcra_check_inner_def gs_ok_def gshards_ok_def lock_shard_def)

end
