(* ===== verification/Memory_Gcra_Batch.thy ===== *)
theory Memory_Gcra_Batch
  imports Memory_Gcra_Correct
begin

text \<open>
  Atomic batches of the memory GCRA store: the evaluation, preflight and consumption loops, and the
  batch as a whole.
\<close>

section \<open>Prepared checks\<close>

definition gprep_ok :: "rate_table \<Rightarrow> nat \<Rightarrow> nat \<Rightarrow> gcra_prepared \<Rightarrow> bool" where
  "gprep_ok tab m n pc \<longleftrightarrow> gc_ok tab (gc_check pc) \<and>
     pc = GcraPrepared_new (gc_input_index pc) (gc_check pc) (gc_shard_position pc) \<and>
     gc_shard_position pc < m \<and> gc_input_index pc < n"

definition g_lk_live :: "nat \<Rightarrow> gcra_entry locked_shards \<Rightarrow> gcra_prepared \<Rightarrow> (gcra_entry \<times> nat) option" where
  "g_lk_live now L pc = shard.live now (lk L (gc_shard_position pc)) (gkey (gc_check pc))"

definition g_pending :: "nat \<Rightarrow> gcra_entry locked_shards \<Rightarrow> gcra_prepared \<Rightarrow> pending_allowance" where
  "g_pending now L pc =
     \<lparr>pa_tat_scaled = ge_tat_scaled (fst (g_next (gc_check pc) now (g_lk_live now L pc))),
      pa_expires_at_millis = snd (g_next (gc_check pc) now (g_lk_live now L pc)),
      pa_allowance = g_allowance (gc_check pc) now (g_lk_live now L pc)\<rparr>"

abbreviation g_spec :: "nat \<Rightarrow> gcra_entry locked_shards \<Rightarrow> gcra_prepared \<Rightarrow> evaluation" where
  "g_spec now L pc \<equiv> gcra_spec (gc_check pc) now (tat_of (g_lk_live now L pc))"

abbreviation g_fits :: "nat \<Rightarrow> gcra_entry locked_shards \<Rightarrow> gcra_prepared \<Rightarrow> bool" where
  "g_fits now L pc \<equiv> g_conforms (gc_check pc) now (g_lk_live now L pc)"

lemma g_spec_eq:
  "g_spec now L pc = (if g_fits now L pc then Ev_Allowed (g_pending now L pc)
     else Ev_Denied (g_denial (gc_check pc) now (g_lk_live now L pc)))"
  by (simp add: gcra_spec_cases g_pending_def)

lemma gprep_key: "gprep_ok tab m n pc \<Longrightarrow> gc_counter_key pc = gkey (gc_check pc)"
  "gprep_ok tab m n pc \<Longrightarrow> gc_quota_mode pc = gcp_quota_mode (chk_policy (gc_check pc))"
  unfolding gprep_ok_def by (metis GcraPrepared_new_def gcra_prepared.select_convs(2),
      metis GcraPrepared_new_def gcra_prepared.select_convs(5))

lemma gcra_prepared_simps [simp]:
  "gc_input_index (GcraPrepared_new i c p) = i" "gc_check (GcraPrepared_new i c p) = c"
  "gc_shard_position (GcraPrepared_new i c p) = p"
  by (simp_all add: GcraPrepared_new_def)

lemma gprep_evaluate:
  assumes "gprep_ok tab (length L) n pc" "L ! gc_shard_position pc = (ix, s)"
  shows "gcra_evaluate s pc now = evaluate (gc_check pc) now (tat_of (g_lk_live now L pc))"
  using assms gcra_evaluate_live [of s "gc_input_index pc" "gc_check pc" "gc_shard_position pc" now]
  by (metis gprep_ok_def g_lk_live_def snd_conv)

lemma evaluate_all_spec:
  assumes "\<forall>pc \<in> set prep. gprep_ok tab (length L) n pc"
  shows "(\<exists>e. evaluate_all L now prep = Some (Err e)) \<and>
      (\<exists>pc \<in> set prep. \<exists>e. evaluate (gc_check pc) now (tat_of (g_lk_live now L pc)) = Err e) \<or>
    evaluate_all L now prep = Some (Ok (map (g_spec now L) prep)) \<and>
      (\<forall>pc \<in> set prep. \<exists>r. evaluate (gc_check pc) now (tat_of (g_lk_live now L pc)) = Ok r)"
  using assms
proof (induction prep)
  case (Cons pc prep)
  have pc: "gprep_ok tab (length L) n pc" using Cons.prems by simp
  obtain ix s where Lp: "L ! gc_shard_position pc = (ix, s)" by fastforce
  then have get: "get_opt L (gc_shard_position pc) = Some (ix, s)" using pc by (simp add: get_opt_def gprep_ok_def)
  have ev: "gcra_evaluate s pc now = evaluate (gc_check pc) now (tat_of (g_lk_live now L pc))"
    by (rule gprep_evaluate [OF pc Lp])
  show ?case
  proof (cases "evaluate (gc_check pc) now (tat_of (g_lk_live now L pc))")
    case (Inl e)
    then show ?thesis using get ev by simp
  next
    case (Inr r)
    have "r = g_spec now L pc" using evaluate_Ok_spec [OF _ Inr] pc by (simp add: gprep_ok_def gc_ok_def)
    then show ?thesis using get ev Inr Cons by auto
  qed
qed simp

section \<open>The preflight loop\<close>

definition g_is_new :: "gcra_entry locked_shards \<Rightarrow> nat \<Rightarrow> gcra_prepared \<Rightarrow> bool" where
  "g_is_new L p pc \<longleftrightarrow> gc_shard_position pc = p \<and> \<not> contains_key (lk L p) (gkey (gc_check pc))"

definition g_preflight_stop :: "nat \<Rightarrow> nat \<Rightarrow> gcra_entry locked_shards \<Rightarrow> gcra_prepared \<Rightarrow> batch_decision \<Rightarrow> bool" where
  "g_preflight_stop n now L pc v \<longleftrightarrow>
     (let c = gc_check pc; d = g_denial c now (g_lk_live now L pc) in
      if \<not> g_fits now L pc
      then v = BatchDecision (if gcp_quota_mode (chk_policy c) = Shadow
             then BO_ShadowDenied (gc_input_index pc) n d
             else BO_Denied (gc_input_index pc) n (QuotaExceeded d))
      else \<exists>r. v = BatchDecision (BO_Denied (gc_input_index pc) n (StorageCapacity r)))"

lemma gcra_batch_quota_denial_Some:
  assumes "gprep_ok tab m n pc"
  shows "gcra_batch_quota_denial n pc d = Some (BatchDecision
    (if gcp_quota_mode (chk_policy (gc_check pc)) = Shadow
     then BO_ShadowDenied (gc_input_index pc) n d else BO_Denied (gc_input_index pc) n (QuotaExceeded d)))"
  using assms gprep_key(2) [OF assms]
  by (auto simp: gcra_batch_quota_denial_def BatchDecision_shadow_denied_def gprep_ok_def
      BatchDecision_denied_def validate_batch_index_def)

abbreviation (input) g_slot :: "gcra_prepared \<Rightarrow> nat \<times> counter_key" where
  "g_slot pc \<equiv> (gc_shard_position pc, gkey (gc_check pc))"

abbreviation (input) g_overs :: "nat \<Rightarrow> gcra_entry locked_shards \<Rightarrow> gcra_prepared list \<Rightarrow> nat \<Rightarrow> bool" where
  "g_overs now L prep j \<equiv> \<not> g_fits now L (prep ! j)"

lemma g_preflight_stop_index: "g_preflight_stop n now L pc v \<Longrightarrow> stop_index v = Some (gc_input_index pc)"
  by (auto simp: g_preflight_stop_def Let_def split: if_splits)

text \<open>The outcome of the preflight over the checks \<open>prep\<close>.\<close>

definition g_preflight_pass :: "nat \<Rightarrow> gcra_entry locked_shards \<Rightarrow> nat list \<Rightarrow> gcra_prepared list \<Rightarrow>
    (batch_decision + pending_allowance list) option \<Rightarrow> bool" where
  "g_preflight_pass now L pending prep r \<longleftrightarrow>
     r = Some (Inr (map (g_pending now L) prep)) \<and> (\<forall>pc \<in> set prep. g_fits now L pc) \<and>
     (\<forall>p < length L. used (lk L p) + pending ! p + length (filter (g_is_new L p) prep) \<le> sh_capacity (lk L p)) \<and>
     (\<forall>j < length prep. \<not> crowded L pending (map g_slot prep) j)"

definition g_preflight_fail :: "nat \<Rightarrow> nat \<Rightarrow> gcra_entry locked_shards \<Rightarrow> nat list \<Rightarrow> gcra_prepared list \<Rightarrow>
    (batch_decision + pending_allowance list) option \<Rightarrow> bool" where
  "g_preflight_fail n now L pending prep r \<longleftrightarrow>
     (\<exists>j v. j < length prep \<and> r = Some (Inl v) \<and> g_preflight_stop n now L (prep ! j) v \<and>
        first_failing (g_overs now L prep) L pending (map g_slot prep) j)"

lemma g_preflight_step:
  assumes fits: "g_fits now L pc" and room: "\<not> crowded L pending (map g_slot (pc # prep)) 0"
    and prep: "\<forall>pc \<in> set prep. gc_shard_position pc < length L"
    and r: "r = map_option (map_sum id (\<lambda>as. g_pending now L pc # as)) r'"
    and pend: "\<forall>p < length L. pending' ! p = pending ! p + (if g_is_new L p pc then 1 else 0)"
    and IH: "g_preflight_pass now L pending' prep r' \<or> g_preflight_fail n now L pending' prep r'"
  shows "g_preflight_pass now L pending (pc # prep) r \<or> g_preflight_fail n now L pending (pc # prep) r"
proof -
  have Suc: "crowded L pending (map g_slot (pc # prep)) (Suc j) \<longleftrightarrow> crowded L pending' (map g_slot prep) j"
    if "j < length prep" for j
    using crowded_Suc [of j "map g_slot prep" "length L" pending' pending "gc_shard_position pc" L "gkey (gc_check pc)"]
      that prep pend by (auto simp: g_is_new_def)
  from IH show ?thesis
  proof
    assume pass: "g_preflight_pass now L pending' prep r'"
    have "used (lk L p) + pending ! p + length (filter (g_is_new L p) (pc # prep)) \<le> sh_capacity (lk L p)"
      if p: "p < length L" for p
    proof -
      have "used (lk L p) + pending' ! p + length (filter (g_is_new L p) prep) \<le> sh_capacity (lk L p)"
        using pass p by (simp add: g_preflight_pass_def)
      then show ?thesis using pend p by (cases "g_is_new L p pc") simp_all
    qed
    moreover have "\<not> crowded L pending (map g_slot (pc # prep)) j" if "j < length (pc # prep)" for j
      using that room pass Suc by (cases j) (simp_all add: g_preflight_pass_def)
    ultimately show ?thesis using pass fits r by (simp add: g_preflight_pass_def)
  next
    assume "g_preflight_fail n now L pending' prep r'"
    then obtain j v where j: "j < length prep" "r' = Some (Inl v)" "g_preflight_stop n now L (prep ! j) v"
      "first_failing (g_overs now L prep) L pending' (map g_slot prep) j" by (auto simp: g_preflight_fail_def)
    have "first_failing (g_overs now L (pc # prep)) L pending (g_slot pc # map g_slot prep) (Suc j)"
      using fits room Suc j(1) by (intro first_failing_Suc [OF j(4)]) simp_all
    then have "g_preflight_fail n now L pending (pc # prep) r"
      unfolding g_preflight_fail_def using j(1-3) r by (intro exI [of _ "Suc j"] exI [of _ v]) simp
    then show ?thesis ..
  qed
qed

lemma gcra_preflight_spec:
  assumes "\<forall>pc \<in> set prep. gprep_ok tab (length L) n pc"
    and "\<forall>p < length L. shard_at now (lk L p)" "length pending = length L"
    and "\<forall>p < length L. used (lk L p) + pending ! p \<le> sh_capacity (lk L p)"
  shows "g_preflight_pass now L pending prep (gcra_preflight n L now pending (map (\<lambda>pc. (pc, g_spec now L pc)) prep)) \<or>
    g_preflight_fail n now L pending prep (gcra_preflight n L now pending (map (\<lambda>pc. (pc, g_spec now L pc)) prep))"
  using assms
proof (induction prep arbitrary: pending)
  case Nil
  then show ?case by (simp add: g_preflight_pass_def)
next
  case (Cons pc prep)
  let ?p = "gc_shard_position pc" and ?items = "map (\<lambda>pc. (pc, g_spec now L pc))"
  let ?r = "gcra_preflight n L now pending (?items (pc # prep))"
  have pc: "gprep_ok tab (length L) n pc" using Cons.prems by simp
  have p: "?p < length L" "gc_input_index pc < n" using pc by (auto simp: gprep_ok_def)
  obtain ix s where Lp: "L ! ?p = (ix, s)" by fastforce
  have get: "get_opt L ?p = Some (ix, s)" "get_opt pending ?p = Some (pending ! ?p)"
    using p Lp Cons.prems(3) by (simp_all add: get_opt_def)
  have at: "shard_at now s" using Cons.prems(2) p(1) Lp by force
  have crowded0: "crowded L pending (map g_slot (pc # prep)) 0 \<longleftrightarrow>
      \<not> contains_key s (gkey (gc_check pc)) \<and> sh_capacity s \<le> used s + pending ! ?p"
    by (simp add: crowded_0 Lp)
  have fail: ?case if "?r = Some (Inl v)" "g_preflight_stop n now L pc v"
    "\<not> g_fits now L pc \<or> crowded L pending (map g_slot (pc # prep)) 0" for v
    using that unfolding g_preflight_fail_def by (intro disjI2 exI [of _ 0] exI [of _ v]) (simp add: first_failing_0)
  have pos: "\<forall>pc \<in> set prep. gc_shard_position pc < length L" using Cons.prems(1) by (simp add: gprep_ok_def)
  have IH: ?case if "g_fits now L pc" "\<not> crowded L pending (map g_slot (pc # prep)) 0" "length pending' = length L"
    "?r = map_option (map_sum id (\<lambda>as. g_pending now L pc # as)) (gcra_preflight n L now pending' (?items prep))"
    "\<forall>p < length L. pending' ! p = pending ! p + (if g_is_new L p pc then 1 else 0)"
    "\<forall>p < length L. used (lk L p) + pending' ! p \<le> sh_capacity (lk L p)" for pending'
    using g_preflight_step [OF that(1,2) pos that(4,5)] Cons.IH [OF _ Cons.prems(2) that(3,6)] Cons.prems(1) by simp
  note key = gprep_key(1) [OF pc]
  show ?case
  proof (cases "g_fits now L pc")
    case False
    then show ?thesis using get gcra_batch_quota_denial_Some [OF pc]
      by (intro fail) (auto simp: g_spec_eq g_preflight_stop_def Let_def)
  next
    case fits: True
    consider (old) "contains_key s (gkey (gc_check pc))"
      | (full) "\<not> contains_key s (gkey (gc_check pc))" "sh_capacity s \<le> used s + pending ! ?p"
      | (room) "\<not> contains_key s (gkey (gc_check pc))" "used s + pending ! ?p < sh_capacity s" by fastforce
    then show ?thesis
    proof cases
      case old
      show ?thesis
        by (rule IH [OF fits _ Cons.prems(3) _ _ Cons.prems(4)])
          (use crowded0 old get fits key Lp in \<open>auto simp: g_spec_eq g_is_new_def split: option.splits Option.bind_splits\<close>)
    next
      case full
      obtain r where "storage_capacity_denial s now = Some (StorageCapacity r)" by (rule storage_denial_at [OF at])
      then show ?thesis using full get fits key p(2) crowded0
        by (intro fail) (auto simp: g_spec_eq g_preflight_stop_def BatchDecision_denied_def validate_batch_index_def)
    next
      case room
      let ?pending = "pending[?p := pending ! ?p + 1]"
      have pend: "\<forall>p < length L. ?pending ! p = pending ! p + (if g_is_new L p pc then 1 else 0)"
        using room Lp p(1) Cons.prems(3) by (auto simp: nth_list_update g_is_new_def)
      have cap: "\<forall>p < length L. used (lk L p) + ?pending ! p \<le> sh_capacity (lk L p)"
        using room Lp p(1) Cons.prems(3,4) by (auto simp: nth_list_update)
      have r: "?r = map_option (map_sum id (\<lambda>as. g_pending now L pc # as)) (gcra_preflight n L now ?pending (?items prep))"
        using room get fits key by (auto simp: g_spec_eq split: option.splits Option.bind_splits)
      show ?thesis using room crowded0 by (intro IH [OF fits _ _ r pend cap]) (simp_all add: Cons.prems(3))
    qed
  qed
qed

section \<open>The consumption loop\<close>

definition gready :: "rate_table \<Rightarrow> nat \<Rightarrow> gcra_entry shard \<Rightarrow> bool" where
  "gready tab now s \<longleftrightarrow> ready now s \<and> gentries_ok tab now s"

definition g_find :: "gcra_prepared list \<Rightarrow> nat \<Rightarrow> counter_key \<Rightarrow> gcra_prepared option" where
  "g_find prep p k = List.find (\<lambda>pc. gc_shard_position pc = p \<and> gkey (gc_check pc) = k) prep"

lemma g_find_simps:
  "g_find [] p k = None"
  "g_find (pc # prep) p k =
     (if gc_shard_position pc = p \<and> gkey (gc_check pc) = k then Some pc else g_find prep p k)"
  by (simp_all add: g_find_def)

lemma g_find_notin: "k \<notin> (\<lambda>pc. gkey (gc_check pc)) ` set prep \<Longrightarrow> g_find prep p k = None"
  by (auto simp: g_find_def find_None_iff)

text \<open>The state of the locked shards after the checks \<open>prep\<close> were consumed.\<close>

definition g_consumed :: "rate_table \<Rightarrow> nat \<Rightarrow> gcra_prepared list \<Rightarrow> gcra_entry locked_shards \<Rightarrow> gcra_entry locked_shards \<Rightarrow> bool" where
  "g_consumed tab now prep L L' \<longleftrightarrow> map fst L' = map fst L \<and>
     (\<forall>p < length L. gready tab now (lk L' p) \<and> sh_capacity (lk L' p) = sh_capacity (lk L p) \<and>
        used (lk L' p) = used (lk L p) + length (filter (g_is_new L p) prep) \<and>
        (\<forall>k. shard_map (lk L' p) k = (case g_find prep p k of None \<Rightarrow> shard_map (lk L p) k
           | Some pc \<Rightarrow> Some (g_next (gc_check pc) now (shard.live now (lk L p) k)))))"

text \<open>Consuming the first check leaves the others as they were.\<close>

lemma g_put_others:
  fixes L pc
  defines "p \<equiv> gc_shard_position pc" and "k \<equiv> gkey (gc_check pc)"
  assumes p: "p < length L" "L ! p = (ix, s)" and pc: "gc_ok tab (gc_check pc)" "g_fits now L pc" and s: "gready tab now s"
  defines "L1 \<equiv> L[p := (ix, g_put now (gc_check pc) s)]"
  shows "q < length L \<Longrightarrow> k' \<noteq> k \<Longrightarrow> shard_map (lk L1 q) k' = shard_map (lk L q) k'"
    "q < length L \<Longrightarrow> k' \<noteq> k \<Longrightarrow> shard.live t (lk L1 q) k' = shard.live t (lk L q) k'"
    "q < length L \<Longrightarrow> shard_map (lk L1 q) k = (if q = p then Some (g_next (gc_check pc) now (shard.live now s k)) else shard_map (lk L q) k)"
    "q < length L \<Longrightarrow> gready tab now (lk L q) \<Longrightarrow> gready tab now (lk L1 q)"
    "q < length L \<Longrightarrow> sh_capacity (lk L1 q) = sh_capacity (lk L q)"
    "q < length L \<Longrightarrow> used (lk L1 q) = used (lk L q) + (if g_is_new L q pc then 1 else 0)"
    "map fst L1 = map fst L"
proof -
  have st: "g_lk_live now L pc = shard.live now s k" using p(2) by (simp add: g_lk_live_def p_def k_def)
  note P = g_put_facts [of s now tab "gc_check pc"]
  have put: "ready now s" "gentries_ok tab now s" using s by (auto simp: gready_def)
  have F: "index_ok (g_put now (gc_check pc) s)" "expiries_within MAX_WINDOW_MILLIS now (g_put now (gc_check pc) s)"
    "gentries_ok tab now (g_put now (gc_check pc) s)" "sh_capacity (g_put now (gc_check pc) s) = sh_capacity s"
    "sh_latest_observed_millis (g_put now (gc_check pc) s) = now"
    "used (g_put now (gc_check pc) s) = (if contains_key s k then used s else Suc (used s))"
    "shard_map (g_put now (gc_check pc) s) = (shard_map s)(k \<mapsto> g_next (gc_check pc) now (shard.live now s k))"
    using P put pc st by (auto simp: ready_def k_def)
  have lk: "lk L1 q = (if q = p then g_put now (gc_check pc) s else lk L q)" if "q < length L" for q
    using that p(1) by (simp add: L1_def nth_list_update)
  have lp: "lk L p = s" using p(2) by simp
  show map: "shard_map (lk L1 q) k' = shard_map (lk L q) k'" if "q < length L" "k' \<noteq> k" for q k'
    using that F(7) lk lp by auto
  then show "shard.live t (lk L1 q) k' = shard.live t (lk L q) k'" if "q < length L" "k' \<noteq> k" for q k'
    using that by (simp add: shard.live_def)
  show "shard_map (lk L1 q) k = (if q = p then Some (g_next (gc_check pc) now (shard.live now s k)) else shard_map (lk L q) k)"
    if "q < length L" for q using that F(7) lk by simp
  show "gready tab now (lk L1 q)" if "q < length L" "gready tab now (lk L q)" for q
    using that F lk by (auto simp: gready_def ready_def)
  show "sh_capacity (lk L1 q) = sh_capacity (lk L q)" if "q < length L" for q using that F(4) lk lp by simp
  show "used (lk L1 q) = used (lk L q) + (if g_is_new L q pc then 1 else 0)" if "q < length L" for q
    using that F(6) lk lp by (auto simp: g_is_new_def p_def k_def)
  show "map fst L1 = map fst L" using p by (simp add: L1_def map_update list_update_same_conv)
qed

lemma gcra_consume_all_spec:
  assumes "\<forall>pc \<in> set prep. gprep_ok tab (length L) n pc \<and> g_fits now L pc"
    and "\<forall>p < length L. gready tab now (lk L p)" "distinct (map (\<lambda>pc. gkey (gc_check pc)) prep)"
  shows "\<exists>L'. gcra_consume_all L (map (\<lambda>pc. (pc, g_pending now L pc)) prep) =
      Some (L', map (\<lambda>pc. g_allowance (gc_check pc) now (g_lk_live now L pc)) prep) \<and> g_consumed tab now prep L L'"
  using assms
proof (induction prep arbitrary: L)
  case Nil
  then show ?case by (simp add: g_consumed_def g_find_simps)
next
  case (Cons pc prep)
  let ?p = "gc_shard_position pc" and ?k = "gkey (gc_check pc)"
  obtain ix s where Lp: "L ! ?p = (ix, s)" by fastforce
  have pc: "gprep_ok tab (length L) n pc" "g_fits now L pc" using Cons.prems by auto
  then have p: "?p < length L" and c: "gc_ok tab (gc_check pc)" by (auto simp: gprep_ok_def)
  have s: "gready tab now s" using Cons.prems(2) p Lp by force
  let ?L = "L[?p := (ix, g_put now (gc_check pc) s)]"
  note O = g_put_others [OF p Lp c pc(2) s]
  have keys: "gkey (gc_check pc') \<noteq> ?k" if "pc' \<in> set prep" for pc'
    using that Cons.prems(3) by (simp add: image_iff) metis
  have pos: "gc_shard_position pc' < length L" if "pc' \<in> set prep" for pc' using that Cons.prems(1) by (auto simp: gprep_ok_def)
  have live: "g_lk_live now ?L pc' = g_lk_live now L pc'" if "pc' \<in> set prep" for pc'
    using O(2) [OF pos [OF that] keys [OF that]] by (simp add: g_lk_live_def)
  then have pend: "g_pending now ?L pc' = g_pending now L pc'" if "pc' \<in> set prep" for pc'
    using that by (simp add: g_pending_def)
  have new: "filter (g_is_new ?L q) prep = filter (g_is_new L q) prep" if "q < length L" for q
    using O(1) [OF that keys] by (intro filter_cong) (auto simp: g_is_new_def contains_key_map)
  have "\<forall>pc \<in> set prep. gprep_ok tab (length ?L) n pc \<and> g_fits now ?L pc" "\<forall>p < length ?L. gready tab now (lk ?L p)"
    "distinct (map (\<lambda>pc. gkey (gc_check pc)) prep)"
    using Cons.prems live O(4) by simp_all
  from Cons.IH [OF this] obtain L' where IH: "gcra_consume_all ?L (map (\<lambda>pc. (pc, g_pending now ?L pc)) prep) =
      Some (L', map (\<lambda>pc. g_allowance (gc_check pc) now (g_lk_live now ?L pc)) prep)" "g_consumed tab now prep ?L L'" by blast
  have "gcra_consume s pc (g_pending now L pc) = (g_put now (gc_check pc) s, g_allowance (gc_check pc) now (g_lk_live now L pc))"
    using gcra_consume_put [of "g_lk_live now L pc" now s "gc_check pc" "gc_input_index pc" ?p] pc(1) Lp
    by (simp add: g_lk_live_def g_pending_def gprep_ok_def)
  then have "gcra_consume_all L (map (\<lambda>pc. (pc, g_pending now L pc)) (pc # prep)) =
      Some (L', map (\<lambda>pc. g_allowance (gc_check pc) now (g_lk_live now L pc)) (pc # prep))"
    using IH(1) p Lp live pend by (simp add: get_opt_def cong: map_cong)
  moreover have "g_consumed tab now (pc # prep) L L'"
    unfolding g_consumed_def
  proof (intro conjI allI impI)
    show "map fst L' = map fst L" using IH(2) O(7) by (simp add: g_consumed_def)
    fix q assume q: "q < length L"
    have IHq: "gready tab now (lk L' q)" "sh_capacity (lk L' q) = sh_capacity (lk ?L q)"
      "used (lk L' q) = used (lk ?L q) + length (filter (g_is_new L q) prep)"
      "\<And>k. shard_map (lk L' q) k = (case g_find prep q k of None \<Rightarrow> shard_map (lk ?L q) k
         | Some pc \<Rightarrow> Some (g_next (gc_check pc) now (shard.live now (lk ?L q) k)))"
      using IH(2) q new [OF q] by (simp_all add: g_consumed_def)
    show "gready tab now (lk L' q)" by (rule IHq(1))
    show "sh_capacity (lk L' q) = sh_capacity (lk L q)" using IHq(2) O(5) [OF q] by simp
    show "used (lk L' q) = used (lk L q) + length (filter (g_is_new L q) (pc # prep))" using IHq(3) O(6) [OF q] by simp
    fix k
    show "shard_map (lk L' q) k = (case g_find (pc # prep) q k of None \<Rightarrow> shard_map (lk L q) k
        | Some pc \<Rightarrow> Some (g_next (gc_check pc) now (shard.live now (lk L q) k)))"
    proof (cases "k = ?k")
      case True
      have none: "g_find prep q ?k = None" using keys by (intro g_find_notin) force
      have "shard_map (lk L' q) ?k = (if q = ?p then Some (g_next (gc_check pc) now (shard.live now s ?k)) else shard_map (lk L q) ?k)"
        using IHq(4) [of ?k] O(3) [OF q] none by simp
      then show ?thesis using True none Lp by (simp add: g_find_simps)
    next
      case False
      then have "g_find (pc # prep) q k = g_find prep q k" by (simp add: g_find_simps)
      then show ?thesis using IHq(4) [of k] unfolding O(1,2) [OF q False] by simp
    qed
  qed
  ultimately show ?case by blast
qed

section \<open>The locked part of a batch\<close>

definition g_locked_denied :: "nat \<Rightarrow> nat \<Rightarrow> gcra_entry locked_shards \<Rightarrow> gcra_prepared list \<Rightarrow> gcra_entry locked_shards \<Rightarrow> batch_decision \<Rightarrow> bool" where
  "g_locked_denied n now L prep L' v \<longleftrightarrow>
     (\<exists>j < length prep. g_preflight_stop n now L (prep ! j) v \<and> (\<forall>l < j. g_fits now L (prep ! l))) \<and>
     (\<forall>p < length L. \<forall>t \<ge> now. shard.live t (lk L' p) = shard.live t (lk L p))"

definition g_locked_allowed :: "nat \<Rightarrow> gcra_entry locked_shards \<Rightarrow> gcra_prepared list \<Rightarrow> gcra_entry locked_shards \<Rightarrow> batch_decision \<Rightarrow> bool" where
  "g_locked_allowed now L prep L' v \<longleftrightarrow>
     v = BatchDecision (BO_Allowed (map (\<lambda>pc. g_allowance (gc_check pc) now (g_lk_live now L pc)) prep)) \<and>
     (\<forall>pc \<in> set prep. g_fits now L pc) \<and>
     (\<forall>p < length L. \<forall>t \<ge> now. \<forall>k. shard.live t (lk L' p) k =
        (case g_find prep p k of None \<Rightarrow> shard.live t (lk L p) k
         | Some pc \<Rightarrow> g_apply now (gc_check pc) (shard.live now (lk L p) k) t))"

lemma g_live_by_map:
  assumes "shard_map s' k = (case x of None \<Rightarrow> shard_map s k | Some pc \<Rightarrow> Some (g_next (gc_check pc) now st))"
  shows "shard.live t s' k = (case x of None \<Rightarrow> shard.live t s k | Some pc \<Rightarrow> g_apply now (gc_check pc) st t)"
  using assms by (auto simp: shard.live_def g_apply_def split: option.splits prod.splits)

lemma zip_map_self: "zip xs (map f xs) = map (\<lambda>x. (x, f x)) xs"
  by (induction xs) auto

lemma locked_now:
  fixes L obs
  defines "now \<equiv> fold max (map (\<lambda>(_, shard). sh_latest_observed_millis shard) L) obs"
  assumes L: "\<And>p. p < length L \<Longrightarrow> shard_ok (lk L p)" and obs: "obs < CLOCK_BOUND"
  shows "\<And>p. p < length L \<Longrightarrow> sh_latest_observed_millis (lk L p) \<le> now" "now < CLOCK_BOUND"
proof -
  show "sh_latest_observed_millis (lk L p) \<le> now" if "p < length L" for p
  proof -
    have "sh_latest_observed_millis (lk L p) \<in> set (map (\<lambda>(_, shard). sh_latest_observed_millis shard) L)"
      using that by (force simp: case_prod_beta)
    then show ?thesis unfolding now_def by (rule fold_max_ge(2))
  qed
  show "now < CLOCK_BOUND" unfolding now_def using obs
  proof (rule fold_max_less)
    fix x assume "x \<in> set (map (\<lambda>(_, shard). sh_latest_observed_millis shard) L)"
    then obtain p where "p < length L" "x = sh_latest_observed_millis (lk L p)"
      by (auto simp: in_set_conv_nth case_prod_beta)
    then show "x < CLOCK_BOUND" using L by (simp add: shard_ok_def)
  qed
qed

lemma gcra_check_all_locked_spec:
  fixes L obs
  defines "now \<equiv> fold max (map (\<lambda>(_, shard). sh_latest_observed_millis shard) L) obs"
  assumes L: "\<And>p. p < length L \<Longrightarrow> gshard_ok tab (lk L p)" "length counts = length L" and obs: "obs < CLOCK_BOUND"
    and prep: "\<forall>pc \<in> set prep. gprep_ok tab (length L) n pc"
    and keys: "distinct (map (\<lambda>pc. gkey (gc_check pc)) prep)" "prep \<noteq> []"
  shows "(\<exists>pc \<in> set prep. \<exists>e. evaluate (gc_check pc) now (tat_of (g_lk_live now L pc)) = Err e) \<and>
      gcra_check_all_locked config n counts prep obs timer L = Some (L, Err GcraBatchArithmeticOverflow) \<or>
    (\<exists>L' ev. gcra_check_all_locked config n counts prep obs timer L = Some (L', Ok ev) \<and> map fst L' = map fst L \<and>
      (\<forall>p < length L. gshard_at tab now (lk L' p) \<and> sh_capacity (lk L' p) = sh_capacity (lk L p)) \<and>
      (g_locked_denied n now L prep L' (ev_value ev) \<or> g_locked_allowed now L prep L' (ev_value ev)) \<and>
      (map gc_input_index prep = [0..<length prep] \<longrightarrow>
        stops_first config now counts L (g_overs now L prep) (map g_slot prep) (ev_value ev)))"
proof -
  have so: "shard_ok (lk L p)" if "p < length L" for p using L(1) [OF that] by (simp add: gshard_ok_def)
  have N: "\<And>p. p < length L \<Longrightarrow> sh_latest_observed_millis (lk L p) \<le> now" "now < CLOCK_BOUND"
    unfolding now_def using locked_now [of L obs] so obs by blast+
  obtain L1 es where cl: "cleanup_shards config now timer L counts = (L1, es)" by fastforce
  have L1: "length L1 = length L" "map fst L1 = map fst L"
    and pr: "\<And>p. p < length L \<Longrightarrow> lk L1 p =
      shard_prune now (saturating_mul 64 (max_expired_removals_per_check config) (counts ! p)) (record_observed_millis now (lk L p))"
    using cleanup_shards_spec [OF L(2) cl] by auto
  have at: "gshard_at tab now (lk L1 p)" "sh_capacity (lk L1 p) = sh_capacity (lk L p)"
    "\<And>t. now \<le> t \<Longrightarrow> shard.live t (lk L1 p) = shard.live t (lk L p)" if p: "p < length L" for p
    using pr [OF p] gshard_at_cleanup [OF L(1) [OF p] N(1) [OF p] N(2)] cleanup_live [OF so [OF p]] so [OF p] by auto
  have live: "g_lk_live now L1 pc = g_lk_live now L pc" if "pc \<in> set prep" for pc
    using at(3) [of "gc_shard_position pc" now] prep that by (simp add: g_lk_live_def gprep_ok_def)
  have first: "stops_first config now counts L (g_overs now L prep) (map g_slot prep) v"
    if "stop_index v = List.find (\<lambda>j. g_overs now L1 prep j \<or> crowded L1 (replicate (length L1) 0) (map g_slot prep) j) [0..<length prep]" for v
  proof (rule stops_firstI [OF _ so L1(1) pr])
    show "stop_index v = List.find (\<lambda>j. g_overs now L prep j \<or> crowded L1 (replicate (length L1) 0) (map g_slot prep) j) [0..<length (map g_slot prep)]"
      unfolding that using live by (simp, intro find_cong) simp_all
  qed (use prep in \<open>auto simp: gprep_ok_def\<close>)
  have specs: "map (g_spec now L) prep = map (g_spec now L1) prep" using live by simp
  have prep1: "\<forall>pc \<in> set prep. gprep_ok tab (length L1) n pc" using prep L1(1) by simp
  consider (overflow) e where "evaluate_all L now prep = Some (Err e)"
      "\<exists>pc \<in> set prep. \<exists>e. evaluate (gc_check pc) now (tat_of (g_lk_live now L pc)) = Err e"
    | (run) "evaluate_all L now prep = Some (Ok (map (g_spec now L1) prep))"
    using evaluate_all_spec [OF prep, of now] specs by auto
  then show ?thesis
  proof cases
    case overflow
    then show ?thesis unfolding gcra_check_all_locked_def Let_def now_def [symmetric] by simp
  next
    case run
    have room: "\<forall>p < length L1. used (lk L1 p) + replicate (length L1) 0 ! p \<le> sh_capacity (lk L1 p)"
      and sat: "\<forall>p < length L1. shard_at now (lk L1 p)"
      using at(1) L1(1) by (simp_all add: gshard_at_def shard_at_ready)
    let ?r = "gcra_preflight n L1 now (replicate (length L1) 0) (map (\<lambda>pc. (pc, g_spec now L1 pc)) prep)"
    note U = gcra_check_all_locked_def Let_def now_def [symmetric]
    from gcra_preflight_spec [OF prep1 sat _ room] show ?thesis
    proof
      show "length (replicate (length L1) 0) = length L1" by simp
    next
      assume "g_preflight_fail n now L1 (replicate (length L1) 0) prep ?r"
      then obtain j v where j: "j < length prep" "?r = Some (Inl v)" "g_preflight_stop n now L1 (prep ! j) v"
        "first_failing (g_overs now L1 prep) L1 (replicate (length L1) 0) (map g_slot prep) j"
        by (auto simp: g_preflight_fail_def)
      have "gcra_check_all_locked config n counts prep obs timer L =
          Some (L1, Ok \<lparr>ev_value = v, ev_effect = collect_shard_effects L1 es\<rparr>)"
        unfolding U using run cl j(2) by (simp add: zip_map_self)
      moreover have "g_preflight_stop n now L (prep ! j) v"
        using j(3) unfolding g_preflight_stop_def live [OF nth_mem [OF j(1)]] .
      moreover have "\<forall>l < j. g_fits now L (prep ! l)" 
        using j(1,4) live unfolding first_failing_def by (metis nth_mem order.strict_trans)
      moreover have "stops_first config now counts L (g_overs now L prep) (map g_slot prep) v"
        if idx: "map gc_input_index prep = [0..<length prep]"
      proof -
        have "gc_input_index (prep ! j) = j" using arg_cong [OF idx, of "\<lambda>xs. xs ! j"] j(1) by simp
        then show ?thesis using g_preflight_stop_index [OF j(3)] first_failing_find [OF j(4)] j(1) by (intro first) simp
      qed
      ultimately show ?thesis using L1(2) at j(1) by (auto simp: g_locked_denied_def)
    next
      assume "g_preflight_pass now L1 (replicate (length L1) 0) prep ?r"
      then have r: "?r = Some (Inr (map (g_pending now L1) prep))" and fits: "\<forall>pc \<in> set prep. g_fits now L1 pc"
        and cap: "\<forall>p < length L1. used (lk L1 p) + length (filter (g_is_new L1 p) prep) \<le> sh_capacity (lk L1 p)"
        and uncrowded: "\<forall>j < length prep. \<not> crowded L1 (replicate (length L1) 0) (map g_slot prep) j"
        by (auto simp: g_preflight_pass_def)
      have "\<forall>p < length L1. gready tab now (lk L1 p)" using at(1) L1(1) by (simp add: gready_def gshard_at_def shard_at_ready)
      then obtain L' where L': "gcra_consume_all L1 (map (\<lambda>pc. (pc, g_pending now L1 pc)) prep) =
          Some (L', map (\<lambda>pc. g_allowance (gc_check pc) now (g_lk_live now L1 pc)) prep)" "g_consumed tab now prep L1 L'"
        using gcra_consume_all_spec [of prep tab L1 n now] prep1 fits keys(1) by blast
      let ?v = "BatchDecision (BO_Allowed (map (\<lambda>pc. g_allowance (gc_check pc) now (g_lk_live now L pc)) prep))"
      have map: "map (\<lambda>pc. g_allowance (gc_check pc) now (g_lk_live now L1 pc)) prep =
          map (\<lambda>pc. g_allowance (gc_check pc) now (g_lk_live now L pc)) prep" using live by simp
      have "gcra_check_all_locked config n counts prep obs timer L =
          Some (L', Ok \<lparr>ev_value = ?v, ev_effect = collect_shard_effects L' es\<rparr>)"
        unfolding U using run cl r L'(1) keys(2) by (simp add: zip_map_self map BatchDecision_allowed_def)
      moreover have "gshard_at tab now (lk L' p) \<and> sh_capacity (lk L' p) = sh_capacity (lk L p)" if "p < length L" for p
      proof -
        have p: "p < length L1" using that L1(1) by simp
        show ?thesis using L'(2) p cap at(2) [OF that] N(2)
          by (auto simp: g_consumed_def gready_def gshard_at_def shard_at_ready)
      qed
      moreover have "shard.live t (lk L' p) k = (case g_find prep p k of None \<Rightarrow> shard.live t (lk L p) k
          | Some pc \<Rightarrow> g_apply now (gc_check pc) (shard.live now (lk L p) k) t)" if "p < length L" "now \<le> t" for p t k
      proof -
        have "shard_map (lk L' p) k = (case g_find prep p k of None \<Rightarrow> shard_map (lk L1 p) k
            | Some pc \<Rightarrow> Some (g_next (gc_check pc) now (shard.live now (lk L1 p) k)))"
          using L'(2) that(1) L1(1) by (simp add: g_consumed_def)
        from g_live_by_map [OF this, of t] show ?thesis
          using at(3) [OF that(1) that(2)] at(3) [OF that(1), of now] by (simp split: option.splits)
      qed
      moreover have "stops_first config now counts L (g_overs now L prep) (map g_slot prep) ?v"
        using fits uncrowded by (intro first) (auto intro!: find_upt_none [symmetric])
      ultimately show ?thesis using L'(2) L1(2) fits live by (simp add: g_locked_allowed_def g_consumed_def)
    qed
  qed
qed

section \<open>Batches on the store\<close>

definition g_stop :: "gcra_store \<Rightarrow> nat \<Rightarrow> gcra_policy check list \<Rightarrow> nat \<Rightarrow> batch_decision \<Rightarrow> bool" where
  "g_stop store now cs j v \<longleftrightarrow>
     (let c = cs ! j; st = bs_live (gs_shards store) now (gkey c) in
      if \<not> g_conforms c now st
      then v = BatchDecision (if gcp_quota_mode (chk_policy c) = Shadow
             then BO_ShadowDenied j (length cs) (g_denial c now st)
             else BO_Denied j (length cs) (QuotaExceeded (g_denial c now st)))
      else \<exists>r. v = BatchDecision (BO_Denied j (length cs) (StorageCapacity r)))"

definition g_batch_allowed :: "gcra_store \<Rightarrow> nat \<Rightarrow> gcra_policy check list \<Rightarrow> gcra_store \<Rightarrow> batch_decision \<Rightarrow> bool" where
  "g_batch_allowed store now cs store' v \<longleftrightarrow>
     v = BatchDecision (BO_Allowed (map (\<lambda>c. g_allowance c now (bs_live (gs_shards store) now (gkey c))) cs)) \<and>
     (\<forall>c \<in> set cs. g_conforms c now (bs_live (gs_shards store) now (gkey c))) \<and>
     (\<forall>t \<ge> now. \<forall>k. bs_live (gs_shards store') t k =
        (case List.find (\<lambda>c. gkey c = k) cs of None \<Rightarrow> bs_live (gs_shards store) t k
         | Some c \<Rightarrow> g_apply now c (bs_live (gs_shards store) now k) t))"

definition g_batch_denied :: "gcra_store \<Rightarrow> nat \<Rightarrow> gcra_policy check list \<Rightarrow> gcra_store \<Rightarrow> batch_decision \<Rightarrow> bool" where
  "g_batch_denied store now cs store' v \<longleftrightarrow>
     (\<exists>j < length cs. g_stop store now cs j v \<and>
        (\<forall>l < j. g_conforms (cs ! l) now (bs_live (gs_shards store) now (gkey (cs ! l))))) \<and>
     (\<forall>t \<ge> now. bs_live (gs_shards store') t = bs_live (gs_shards store) t)"

lemma gcra_prepare_spec:
  "i + length cs \<le> length (bt_input_positions t) \<Longrightarrow>
   gcra_prepare t i cs = Some (map (\<lambda>j. GcraPrepared_new (i + j) (cs ! j) (bt_input_positions t ! (i + j))) [0..<length cs])"
proof (induction cs arbitrary: i)
  case (Cons c cs)
  have "gcra_prepare t (Suc i) cs =
      Some (map (\<lambda>j. GcraPrepared_new (Suc i + j) (cs ! j) (bt_input_positions t ! (Suc i + j))) [0..<length cs])"
    using Cons by simp
  moreover have "[0..<length (c # cs)] = 0 # map Suc [0..<length cs]"
    by (simp add: upt_conv_Cons map_Suc_upt del: upt_Suc)
  ultimately show ?case using Cons.prems by (simp add: shard_position_def get_opt_def comp_def)
qed simp

lemma g_find_checks:
  assumes keys: "distinct (map gkey cs)" and p: "\<And>j. j < length cs \<Longrightarrow> fst (L ! pos j) = shard_index bs (gkey (cs ! j))"
    and L: "distinct (map fst L)" "\<And>j. j < length cs \<Longrightarrow> pos j < length L"
    and q: "q < length L" "fst (L ! q) = shard_index bs k"
  shows "map_option gc_check (g_find (map (\<lambda>j. GcraPrepared_new j (cs ! j) (pos j)) [0..<length cs]) q k) =
    List.find (\<lambda>c. gkey c = k) cs"
proof (cases "List.find (\<lambda>c. gkey c = k) cs")
  case None
  then have "k \<notin> gkey ` set cs" by (auto simp: find_None_iff)
  then have "g_find (map (\<lambda>j. GcraPrepared_new j (cs ! j) (pos j)) [0..<length cs]) q k = None"
    by (intro g_find_notin) (auto simp: image_iff)
  with None show ?thesis by simp
next
  case (Some c)
  then obtain j where j: "j < length cs" "cs ! j = c" "gkey c = k" by (auto simp: find_Some_iff)
  have uniq: "i = j" if "i < length cs" "gkey (cs ! i) = k" for i
    using that j keys by (metis length_map nth_eq_iff_index_eq nth_map)
  have "map fst L ! pos j = map fst L ! q" using p [OF j(1)] q j L(2) [OF j(1)] by simp
  then have "pos j = q" using nth_eq_iff_index_eq [OF L(1)] L(2) [OF j(1)] q(1) by simp
  moreover have "\<forall>i < j. gkey (cs ! i) \<noteq> k" using uniq j(1) by (metis nat_neq_iff order.strict_trans)
  ultimately have "g_find (map (\<lambda>j. GcraPrepared_new j (cs ! j) (pos j)) [0..<length cs]) q k = Some (GcraPrepared_new j c q)"
    unfolding g_find_def find_Some_iff using j by (intro exI [of _ j]) simp
  with Some show ?thesis by simp
qed

lemma g_batch_release_live:
  assumes ne: "bs \<noteq> []" and L: "distinct (map fst L)" "map fst L' = map fst L"
    and lk_bs: "\<And>p. p < length L \<Longrightarrow> lk L p = mx_shard (bs ! fst (L ! p))"
    and pos: "\<And>j. j < length cs \<Longrightarrow> pos j < length L"
      "\<And>j. j < length cs \<Longrightarrow> fst (L ! pos j) = shard_index bs (gkey (cs ! j))"
    and keys: "distinct (map gkey cs)"
    and live: "\<And>p. p < length L \<Longrightarrow> shard.live u (lk L' p) k =
      (case g_find (map (\<lambda>j. GcraPrepared_new j (cs ! j) (pos j)) [0..<length cs]) p k of
         None \<Rightarrow> shard.live u (lk L p) k | Some pc \<Rightarrow> g_apply now (gc_check pc) (shard.live now (lk L p) k) u)"
  shows "bs_live (release L' bs) u k =
    (case List.find (\<lambda>c. gkey c = k) cs of None \<Rightarrow> bs_live bs u k | Some c \<Rightarrow> g_apply now c (bs_live bs now k) u)"
proof -
  let ?f = "\<lambda>x. case List.find (\<lambda>c. gkey c = k) cs of None \<Rightarrow> x | Some c \<Rightarrow> g_apply now c (bs_live bs now k) u"
  have "bs_live (release L' bs) u k = ?f (bs_live bs u k)"
  proof (rule release_live [OF ne L lk_bs])
    fix p assume p: "p < length L" "fst (L ! p) = shard_index bs k"
    have "shard.live now (lk L p) k = bs_live bs now k" using lk_bs [OF p(1)] p(2) by (simp add: bs_live_def)
    moreover note g_find_checks [OF keys pos(2) L(1) pos(1) p, symmetric]
    ultimately show "shard.live u (lk L' p) k = ?f (shard.live u (lk L p) k)"
      using live [OF p(1)] by (auto split: option.splits)
  next
    assume out: "shard_index bs k \<notin> set (map fst L)"
    have "List.find (\<lambda>c. gkey c = k) cs = None"
    proof (rule ccontr)
      assume "List.find (\<lambda>c. gkey c = k) cs \<noteq> None"
      then obtain j where j: "j < length cs" "gkey (cs ! j) = k" by (auto simp: find_Some_iff)
      then have "shard_index bs k = map fst L ! pos j" "pos j < length (map fst L)" using pos [OF j(1)] by simp_all
      then show False using out nth_mem by metis
    qed
    then show "?f = (\<lambda>x. x)" by simp
  qed
  then show ?thesis .
qed

text \<open>From the locked shards back to the counters of the store.\<close>

lemma g_locked_to_store:
  fixes cs
  defines "prep \<equiv> \<lambda>pos. map (\<lambda>j. GcraPrepared_new j (cs ! j) (pos j)) [0..<length cs]"
  assumes ne: "bs \<noteq> []" and bs: "gs_shards store = bs" "gs_shards store' = release L' bs"
    and L: "distinct (map fst L)" "map fst L' = map fst L"
    and lk_bs: "\<And>p. p < length L \<Longrightarrow> lk L p = mx_shard (bs ! fst (L ! p))"
    and pos: "\<And>j. j < length cs \<Longrightarrow> pos j < length L"
      "\<And>j. j < length cs \<Longrightarrow> fst (L ! pos j) = shard_index bs (gkey (cs ! j))"
    and keys: "distinct (map gkey cs)"
  shows "j < length cs \<Longrightarrow> g_lk_live now L (prep pos ! j) = bs_live bs now (gkey (cs ! j))"
    and "g_locked_denied (length cs) now L (prep pos) L' v \<Longrightarrow> g_batch_denied store now cs store' v"
    and "g_locked_allowed now L (prep pos) L' v \<Longrightarrow> g_batch_allowed store now cs store' v"
proof -
  have nth: "prep pos ! j = GcraPrepared_new j (cs ! j) (pos j)" if "j < length cs" for j using that by (simp add: prep_def)
  show live: "g_lk_live now L (prep pos ! j) = bs_live bs now (gkey (cs ! j))" if "j < length cs" for j
    using pos [OF that] lk_bs [OF pos(1) [OF that]] by (simp add: nth [OF that] g_lk_live_def bs_live_def)
  have fits: "g_fits now L (prep pos ! j) \<longleftrightarrow> g_conforms (cs ! j) now (bs_live bs now (gkey (cs ! j)))"
    if "j < length cs" for j using live [OF that] nth [OF that] by simp
  show "g_batch_denied store now cs store' v" if denied: "g_locked_denied (length cs) now L (prep pos) L' v"
  proof -
    obtain j where j: "j < length cs" "g_preflight_stop (length cs) now L (prep pos ! j) v"
      "\<forall>l < j. g_fits now L (prep pos ! l)"
      using denied by (auto simp: g_locked_denied_def prep_def)
    have "g_stop store now cs j v"
      using j(2) live [OF j(1)] unfolding nth [OF j(1)]
      by (auto simp: g_preflight_stop_def g_stop_def Let_def bs split: if_splits)
    moreover have "\<forall>l < j. g_conforms (cs ! l) now (bs_live bs now (gkey (cs ! l)))" using j fits by auto
    moreover have "bs_live (release L' bs) u k = bs_live bs u k" if "now \<le> u" for u k
      using denied that by (intro release_live [OF ne L lk_bs, where f = "\<lambda>x. x"]) (auto simp: g_locked_denied_def)
    ultimately show ?thesis using j(1) by (auto simp: g_batch_denied_def bs)
  qed
  show "g_batch_allowed store now cs store' v" if allowed: "g_locked_allowed now L (prep pos) L' v"
  proof -
    have "map (\<lambda>pc. g_allowance (gc_check pc) now (g_lk_live now L pc)) (prep pos) =
        map (\<lambda>c. g_allowance c now (bs_live bs now (gkey c))) cs"
    proof (rule nth_equalityI)
      fix j assume "j < length (map (\<lambda>pc. g_allowance (gc_check pc) now (g_lk_live now L pc)) (prep pos))"
      then have j: "j < length cs" by (simp add: prep_def)
      have "g_allowance (gc_check (prep pos ! j)) now (g_lk_live now L (prep pos ! j)) =
          g_allowance (cs ! j) now (bs_live bs now (gkey (cs ! j)))" using live [OF j] nth [OF j] by simp
      then show "map (\<lambda>pc. g_allowance (gc_check pc) now (g_lk_live now L pc)) (prep pos) ! j =
          map (\<lambda>c. g_allowance c now (bs_live bs now (gkey c))) cs ! j" using j by (simp add: prep_def)
    qed (simp add: prep_def)
    moreover have "\<forall>c \<in> set cs. g_conforms c now (bs_live bs now (gkey c))"
    proof
      fix c assume "c \<in> set cs"
      then obtain j where j: "j < length cs" "c = cs ! j" by (auto simp: in_set_conv_nth)
      moreover have "prep pos ! j \<in> set (prep pos)" using j(1) by (simp add: prep_def)
      ultimately show "g_conforms c now (bs_live bs now (gkey c))"
        using allowed fits [OF j(1)] by (simp add: g_locked_allowed_def)
    qed
    moreover have "bs_live (release L' bs) u k = (case List.find (\<lambda>c. gkey c = k) cs of None \<Rightarrow> bs_live bs u k
         | Some c \<Rightarrow> g_apply now c (bs_live bs now k) u)" if u: "now \<le> u" for u k
      using allowed u by (intro g_batch_release_live [OF ne L lk_bs pos keys]) (auto simp: g_locked_allowed_def prep_def)
    ultimately show ?thesis using allowed unfolding g_batch_allowed_def bs by (simp add: g_locked_allowed_def)
  qed
qed

lemma locked_healthy:
  assumes "shards_ok config bs" "topology_ok (map (shard_index bs) keys) t" "\<not> touches_poisoned bs keys"
    and p: "p < length (locked_of bs t)"
  shows "fst (locked_of bs t ! p) < length bs \<and> \<not> mx_poisoned (bs ! fst (locked_of bs t ! p))"
proof -
  have "fst (locked_of bs t ! p) \<in> set (map bs_index (bt_shards t))" using p by (simp add: locked_of_def)
  then have "fst (locked_of bs t ! p) \<in> shard_index bs ` set keys" using assms(2) by (simp add: topology_ok_def)
  then show ?thesis using assms(3) shard_index_less [OF shards_ok_nonempty [OF assms(1)]]
    by (auto simp: touches_poisoned_def)
qed

lemma release_poisoned:
  "distinct (map fst locked) \<Longrightarrow> i < length bs \<Longrightarrow> mx_poisoned (release locked bs ! i) = mx_poisoned (bs ! i)"
  by (simp add: release_nth split: option.split)

lemma release_locked_same:
  assumes L: "distinct (map fst L)" and lk_bs: "\<And>p. p < length L \<Longrightarrow> lk L p = mx_shard (bs ! fst (L ! p))"
  shows "release L bs = bs"
proof (rule nth_equalityI)
  fix i assume "i < length (release L bs)"
  then have i: "i < length bs" by simp
  show "release L bs ! i = bs ! i"
  proof (cases "map_of L i")
    case (Some s)
    then have "(i, s) \<in> set L" by (rule map_of_SomeD)
    then obtain p where p: "p < length L" "L ! p = (i, s)" by (auto simp: in_set_conv_nth)
    then have "mx_shard (bs ! i) = s" using lk_bs [OF p(1)] by simp
    then show ?thesis using Some i L by (simp add: release_nth)
  qed (use i L in \<open>simp add: release_nth\<close>)
qed simp

text \<open>A check of a batch cannot be admitted when it does not conform or finds no room.\<close>

definition g_refused :: "gcra_store \<Rightarrow> nat \<Rightarrow> gcra_policy check list \<Rightarrow> nat \<Rightarrow> bool" where
  "g_refused store now cs j \<longleftrightarrow>
     \<not> g_conforms (cs ! j) now (bs_live (gs_shards store) now (gkey (cs ! j))) \<or>
     batch_no_room (gs_config store) (gs_shards store) now (map gkey cs) j"

lemma gcra_check_all_inner_spec:
  fixes store cs d timer
  defines "bs \<equiv> gs_shards store" and "keys \<equiv> map gkey cs"
  assumes ok: "gs_ok tab store" and cs: "\<forall>c \<in> set cs. gc_ok tab c" and d: "d \<le> duration_MAX"
    and valid: "batch_ok GcraPolicy (max_batch_size (gs_config store)) cs"
    and fits: "\<forall>i. count_list (map (shard_index bs) keys) i \<le> shard_capacity (gs_config store) i"
    and healthy: "\<not> touches_poisoned bs keys"
  shows "\<exists>now. batch_now bs keys (as_millis d) now \<and>
    ((\<exists>c \<in> set cs. \<exists>e. evaluate c now (tat_of (bs_live bs now (gkey c))) = Err e) \<and>
       gcra_check_all_inner store (Some d) timer cs = (store, Some (Err GcraBatchArithmeticOverflow)) \<or>
     (\<exists>store' ev. gcra_check_all_inner store (Some d) timer cs = (store', Some (Ok ev)) \<and>
       gs_ok tab store' \<and> gs_config store' = gs_config store \<and> length (gs_shards store') = length bs \<and>
       (\<forall>i < length bs. mx_poisoned (gs_shards store' ! i) = mx_poisoned (bs ! i)) \<and>
       (\<forall>i < length bs. bs_latest (gs_shards store') i \<le> max now (bs_latest bs i)) \<and>
       (length cs < 2 ^ 64 \<longrightarrow> stop_index (ev_value ev) = List.find (g_refused store now cs) [0..<length cs]) \<and>
       (g_batch_denied store now cs store' (ev_value ev) \<or> g_batch_allowed store now cs store' (ev_value ev))))"
proof -
  have gbs: "gshards_ok tab (gs_config store) bs" and bs: "shards_ok (gs_config store) bs"
    using ok by (simp_all add: gs_ok_def bs_def gshards_ok_def)
  note ne = shards_ok_nonempty [OF bs]
  have bs_eq: "gs_shards store = bs" by (simp add: bs_def)
  have distinct: "distinct (map gkey cs)" and nonempty: "cs \<noteq> []" using valid by (auto simp: batch_ok_def)
  obtain t where t: "BatchTopology_new (map (shard_index bs) keys) (gs_config store) = Some (Ok t)"
    "topology_ok (map (shard_index bs) keys) t"
  proof (cases rule: topology_new_cases [of "map (shard_index bs) keys" "gs_config store"])
    case (err i)
    then show thesis using fits leD by blast
  qed
  let ?L = "locked_of bs t" and ?pos = "\<lambda>j. bt_input_positions t ! j"
  let ?prep = "map (\<lambda>j. GcraPrepared_new j (cs ! j) (?pos j)) [0..<length cs]"
  note facts = locked_of_facts [OF bs t(2) healthy]
  have pos: "?pos j < length ?L" "fst (?L ! ?pos j) = shard_index bs (gkey (cs ! j))" if "j < length cs" for j
    using facts(3) [of j] that by (auto simp: keys_def)
  have prepared: "gcra_prepare t 0 cs = Some ?prep"
    using gcra_prepare_spec [of 0 cs t] facts(5) by (simp add: keys_def)
  have lock: "lock_topology bs t = Some (Ok ?L)" using lock_topology_cases [OF bs t(2)] healthy by simp
  define now where "now = fold max (map (\<lambda>(_, shard). sh_latest_observed_millis shard) ?L) (as_millis d)"
  have at_now: "batch_now bs keys (as_millis d) now" unfolding now_def by (rule batch_nowI [OF t(2)])
  have gL: "gshard_ok tab (lk ?L p)" if p: "p < length ?L" for p
    using gbs facts(2) [OF p] locked_healthy [OF bs t(2) healthy p] by (simp add: gshards_ok_def)
  have prep_ok: "\<forall>pc \<in> set ?prep. gprep_ok tab (length ?L) (length cs) pc"
    using pos(1) cs by (auto simp: gprep_ok_def)
  have "map (\<lambda>pc. gkey (gc_check pc)) ?prep = map gkey cs" by (rule nth_equalityI) simp_all
  then have prep_keys: "distinct (map (\<lambda>pc. gkey (gc_check pc)) ?prep)" "?prep \<noteq> []"
    using distinct nonempty by simp_all
  have lk_bs: "lk ?L p = mx_shard (bs ! fst (?L ! p))" if "p < length ?L" for p using facts(2) [OF that] by blast
  have inner: "gcra_check_all_inner store (Some d) timer cs = (store\<lparr>gs_shards := release L' bs\<rparr>, Some r)"
    if "gcra_check_all_locked (gs_config store) (length cs) (check_counts t) ?prep (as_millis d) timer ?L = Some (L', r)" for L' r
    using valid t(1) prepared lock that unfolding gcra_check_all_inner_def validate_batch_Ok [symmetric]
    by (simp add: bs_def keys_def comp_def)
  let ?run = "gcra_check_all_locked (gs_config store) (length cs) (check_counts t) ?prep (as_millis d) timer ?L"
  consider (overflow) pc e where "pc \<in> set ?prep" "evaluate (gc_check pc) now (tat_of (g_lk_live now ?L pc)) = Err e"
      "?run = Some (?L, Err GcraBatchArithmeticOverflow)"
    | (run) L' ev where "?run = Some (L', Ok ev)" "map fst L' = map fst ?L"
      "\<forall>p < length ?L. gshard_at tab now (lk L' p) \<and> sh_capacity (lk L' p) = sh_capacity (lk ?L p)"
      "g_locked_denied (length cs) now ?L ?prep L' (ev_value ev) \<or> g_locked_allowed now ?L ?prep L' (ev_value ev)"
      "map gc_input_index ?prep = [0..<length ?prep] \<longrightarrow>
        stops_first (gs_config store) now (check_counts t) ?L (g_overs now ?L ?prep) (map g_slot ?prep) (ev_value ev)"
    using gcra_check_all_locked_spec [OF gL facts(4) as_millis_clock [OF d] prep_ok prep_keys, of "gs_config store" timer]
    unfolding now_def [symmetric] by blast
  then show ?thesis
  proof cases
    case overflow
    note pc = overflow(1,2) and run = overflow(3)
    from pc(1) obtain j where j: "j < length cs" "pc = GcraPrepared_new j (cs ! j) (?pos j)" by auto
    have "g_lk_live now ?L pc = bs_live bs now (gkey (cs ! j))"
      using pos [OF j(1)] lk_bs [OF pos(1) [OF j(1)]] j(2) by (simp add: g_lk_live_def bs_live_def)
    then have "\<exists>c \<in> set cs. \<exists>e. evaluate c now (tat_of (bs_live bs now (gkey c))) = Err e"
      using pc(2) j by (intro bexI [of _ "cs ! j"]) auto
    moreover have "release ?L bs = bs" by (rule release_locked_same [OF facts(1) lk_bs])
    ultimately show ?thesis using inner [OF run] at_now by (auto simp: bs_def)
  next
    case (run L' ev)
    note fst = run(2) and at = run(3) and post = run(4) and first = run(5) and run = run(1)
    let ?store' = "store\<lparr>gs_shards := release L' bs\<rparr>"
    have len: "length L' = length ?L" using fst by (metis length_map)
    have "shards_ok (gs_config store) (release L' bs)"
    proof (rule release_ok [OF bs facts(1) fst])
      fix p assume p: "p < length ?L"
      show "sh_capacity (lk ?L p) = shard_capacity (gs_config store) (fst (?L ! p))" using facts(2) [OF p] by blast
      show "shard_ok (lk L' p) \<and> sh_capacity (lk L' p) = sh_capacity (lk ?L p)"
        using at p unfolding gshard_at_def shard_at_def by blast
    qed
    then have ok': "gs_ok tab ?store'"
      using at len facts(1) fst by (auto simp: gs_ok_def in_set_conv_nth intro!: gshards_ok_release [OF gbs])
        (metis gshard_at_ok snd_conv)
    have latest: "\<forall>i < length bs. bs_latest (release L' bs) i \<le> max now (bs_latest bs i)"
      using release_latest [OF facts(1) fst] at by (simp add: gshard_at_def shard_at_def)
    note to_store = g_locked_to_store [OF ne bs_eq _ facts(1) fst lk_bs pos distinct, of ?store']
    have "g_batch_denied store now cs ?store' (ev_value ev) \<or> g_batch_allowed store now cs ?store' (ev_value ev)"
      using post to_store(2,3) by auto
    moreover have "stop_index (ev_value ev) = List.find (g_refused store now cs) [0..<length cs]" if small: "length cs < 2 ^ 64"
    proof -
      have slots: "map g_slot ?prep = zip (bt_input_positions t) keys"
        using facts(5) by (intro nth_equalityI) (simp_all add: keys_def)
      have "map gc_input_index ?prep = [0..<length ?prep]" by (rule nth_equalityI) simp_all
      with first have "stops_first (gs_config store) now (check_counts t) ?L (g_overs now ?L ?prep) (zip (bt_input_positions t) keys) (ev_value ev)"
        unfolding slots by blast
      from stops_first_store [OF this _ bs t(2) healthy] small show ?thesis using to_store(1)
        by (simp add: keys_def) (rule find_cong; simp add: g_refused_def bs_def)
    qed
    moreover have "\<forall>i < length bs. mx_poisoned (release L' bs ! i) = mx_poisoned (bs ! i)"
      using release_poisoned [of L' _ bs] facts(1) fst by simp
    ultimately show ?thesis using inner [OF run] ok' latest at_now by (auto simp: bs_def)
  qed
qed

lemma gcra_check_all_inner_errors:
  fixes store cs
  defines "bs \<equiv> gs_shards store" and "keys \<equiv> map gkey cs"
  assumes ok: "gs_ok tab store"
    and bad: "\<not> batch_ok GcraPolicy (max_batch_size (gs_config store)) cs \<or>
      (\<exists>i. shard_capacity (gs_config store) i < count_list (map (shard_index bs) keys) i) \<or> touches_poisoned bs keys"
  shows "\<exists>e. gcra_check_all_inner store clock timer cs = (store, Some (Err (GcraStoreError e)))"
proof (cases "validate_batch GcraPolicy cs (max_batch_size (gs_config store))")
  case (Inl e)
  then show ?thesis by (simp add: gcra_check_all_inner_def)
next
  case (Inr u)
  then have valid: "batch_ok GcraPolicy (max_batch_size (gs_config store)) cs"
    using validate_batch_Ok [of GcraPolicy cs] by simp
  have bs: "shards_ok (gs_config store) bs" using ok by (simp add: gs_ok_def gshards_ok_def bs_def)
  have idx: "map (\<lambda>check. shard_index (gs_shards store) (chk_counter_key GcraPolicy check)) cs =
      map (shard_index bs) keys" by (simp add: bs_def keys_def comp_def)
  show ?thesis
  proof (cases rule: topology_new_cases [of "map (shard_index bs) keys" "gs_config store"])
    case (err i)
    then show ?thesis using Inr unfolding gcra_check_all_inner_def idx by simp
  next
    case (ok t)
    have pois: "touches_poisoned bs keys" using bad valid ok by (meson leD)
    have "length (bt_input_positions t) = length cs" using ok(2) by (simp add: topology_ok_def keys_def)
    then obtain prep where "gcra_prepare t 0 cs = Some prep" using gcra_prepare_spec [of 0 cs t] by simp
    moreover obtain i where "lock_topology bs t = Some (Err (PoisonedShardError i))"
      using lock_topology_cases [OF bs ok(2)] pois by auto
    ultimately show ?thesis
      using Inr ok(1) unfolding gcra_check_all_inner_def idx by (simp add: bs_def gcra_batch_error_of_poison_def)
  qed
qed

end
