(* ===== verification/Memory_Gcra_Limits.thy ===== *)
theory Memory_Gcra_Limits
  imports Memory_Gcra_Batch Store_History
begin

text \<open>
  The guarantees of the memory GCRA store: single checks follow the exact transition, batches are
  atomic, overflow changes nothing, and over any history of checks and batches a counter is granted at
  most its burst plus what its rate refills.
\<close>

section \<open>Histories\<close>

type_synonym gcra_op = "gcra_policy store_op"

definition gs_step :: "gcra_store \<Rightarrow> duration \<Rightarrow> gcra_op \<Rightarrow> gcra_store \<times> (counter_key \<times> nat) list" where
  "gs_step store d op =
     (case op of
        Do_Check c \<Rightarrow>
          (case gcra_check_inner store (Some d) 0 c of
             (store', Some (Ok ev)) \<Rightarrow>
               (store', case Decision_view (ev_value ev) of DV_Allowed _ \<Rightarrow> [(gkey c, chk_cost c)] | _ \<Rightarrow> [])
           | (store', _) \<Rightarrow> (store', []))
      | Do_Batch cs \<Rightarrow>
          (case gcra_check_all_inner store (Some d) (\<lambda>_. 0) cs of
             (store', Some (Ok ev)) \<Rightarrow>
               (store', case BatchDecision_view (ev_value ev) of
                  BV_Allowed _ \<Rightarrow> map (\<lambda>c. (gkey c, chk_cost c)) cs | _ \<Rightarrow> [])
           | (store', _) \<Rightarrow> (store', [])))"

definition gcra_op_ok :: "rate_table \<Rightarrow> gcra_op \<Rightarrow> bool" where
  "gcra_op_ok tab op \<longleftrightarrow> (\<forall>c \<in> set (op_checks op). gc_ok tab c)"

definition g_latest_le :: "gcra_store \<Rightarrow> nat \<Rightarrow> bool" where
  "g_latest_le store t \<longleftrightarrow> (\<forall>i < length (gs_shards store). bs_latest (gs_shards store) i \<le> t)"

abbreviation g_poisoned :: "gcra_store \<Rightarrow> counter_key \<Rightarrow> bool" where
  "g_poisoned store k \<equiv> mx_poisoned (gs_shards store ! shard_index (gs_shards store) k)"

section \<open>One operation\<close>

text \<open>The effect of an operation at \<open>now\<close> on one counter: nothing, or the admission of one check.\<close>

definition g_key_effect :: "gcra_store \<Rightarrow> nat \<Rightarrow> gcra_policy check list \<Rightarrow> counter_key \<Rightarrow> gcra_store \<Rightarrow> nat \<Rightarrow> bool" where
  "g_key_effect store now cs k store' charge \<longleftrightarrow>
     charge = 0 \<and> (\<forall>t \<ge> now. bs_live (gs_shards store') t k = bs_live (gs_shards store) t k) \<or>
     (\<exists>c \<in> set cs. gkey c = k \<and> charge = chk_cost c \<and> \<not> g_poisoned store k \<and>
        g_conforms c now (bs_live (gs_shards store) now k) \<and>
        (\<forall>t \<ge> now. bs_live (gs_shards store') t k = g_apply now c (bs_live (gs_shards store) now k) t))"

definition g_step_ok :: "rate_table \<Rightarrow> gcra_store \<Rightarrow> nat \<Rightarrow> gcra_policy check list \<Rightarrow> counter_key \<Rightarrow> gcra_store \<Rightarrow> nat \<Rightarrow> bool" where
  "g_step_ok tab store now cs k store' charge \<longleftrightarrow>
     gs_ok tab store' \<and> g_latest_le store' now \<and> g_poisoned store' k = g_poisoned store k \<and>
     g_key_effect store now cs k store' charge"

lemma g_step_unchanged: "gs_ok tab store \<Longrightarrow> g_latest_le store now \<Longrightarrow> g_step_ok tab store now cs k store 0"
  by (simp add: g_step_ok_def g_key_effect_def)

lemma gs_ok_index: "gs_ok tab store \<Longrightarrow> shard_index (gs_shards store) k < length (gs_shards store)"
  using shard_index_less [OF shards_ok_nonempty] unfolding gs_ok_def gshards_ok_def by blast

lemma g_check_step:
  assumes ok: "gs_ok tab store" "g_latest_le store (as_millis d)" and d: "d \<le> duration_MAX" and c: "gc_ok tab c"
    and step: "gs_step store d (Do_Check c) = (store', charges)"
  shows "g_step_ok tab store (as_millis d) [c] k store' (charge_of k charges)"
proof -
  let ?bs = "gs_shards store" and ?now = "as_millis d"
  let ?i = "shard_index ?bs (gkey c)"
  let ?st = "bs_live ?bs ?now (gkey c)"
  have i: "?i < length ?bs" by (rule gs_ok_index [OF ok(1)])
  then have now: "max (as_millis d) (bs_latest ?bs ?i) = ?now" using ok(2) by (simp add: g_latest_le_def max_absorb1)
  have same: ?thesis if "gcra_check_inner store (Some d) 0 c = (store, Some (Err e))" for e
    using that step g_step_unchanged [OF ok] by (auto simp: gs_step_def)
  show ?thesis
  proof (cases "g_poisoned store (gkey c)")
    case True
    from gcra_check_inner_poisoned [OF ok(1) True] show ?thesis by (rule same)
  next
    case False
    note spec = gcra_check_inner_spec [OF ok(1) c d False, of 0, unfolded now]
    show ?thesis
    proof (cases "evaluate c ?now (tat_of ?st)")
      case (Inl e)
      with spec show ?thesis by (intro same) simp
    next
      case (Inr r)
      with spec obtain s' ev where s: "gcra_check_inner store (Some d) 0 c = (store\<lparr>gs_shards := release [(?i, s')] ?bs\<rparr>, Some (Ok ev))"
        "gs_ok tab (store\<lparr>gs_shards := release [(?i, s')] ?bs\<rparr>)" "sh_latest_observed_millis s' = ?now"
        and post: "g_checked tab store ?now c (store\<lparr>gs_shards := release [(?i, s')] ?bs\<rparr>) (ev_value ev)"
        by auto
      have store': "store' = store\<lparr>gs_shards := release [(?i, s')] ?bs\<rparr>" and charges: "charges =
          (case Decision_view (ev_value ev) of DV_Allowed _ \<Rightarrow> [(gkey c, chk_cost c)] | _ \<Rightarrow> [])"
        using step s(1) by (auto simp: gs_step_def)
      have latest: "g_latest_le store' ?now"
        using ok(2) s(3) by (auto simp: store' g_latest_le_def bs_latest_def release_nth)
      have pois: "g_poisoned store' k = g_poisoned store k"
        using release_poisoned [of "[(?i, s')]"] gs_ok_index [OF ok(1), of k] by (simp add: store' shard_index_def)
      have "g_key_effect store ?now [c] k store' (charge_of k charges)"
      proof (cases "\<exists>a. ev_value ev = Decision_allowed a")
        case True
        then have "g_conforms c ?now ?st \<and> (\<forall>t \<ge> ?now. bs_live (gs_shards store') t =
            (bs_live ?bs t)(gkey c := g_apply ?now c ?st t))"
          using post by (auto simp: store' g_checked_def g_denied_decision_def decision_con_defs Let_def split: if_splits)
        moreover have "charges = [(gkey c, chk_cost c)]" using True charges by auto
        ultimately show ?thesis using False by (auto simp: g_key_effect_def)
      next
        case no: False
        then have "\<forall>t \<ge> ?now. bs_live (gs_shards store') t = bs_live ?bs t"
          using post by (auto simp: store' g_checked_def Let_def split: if_splits)
        moreover have "charges = []" using no charges by (cases "ev_value ev" rule: decision_exhaust) auto
        ultimately show ?thesis by (auto simp: g_key_effect_def)
      qed
      then show ?thesis using s(2) latest pois by (simp add: g_step_ok_def store')
    qed
  qed
qed

lemma g_batch_effect:
  assumes post: "g_batch_denied store now cs store' v \<or> g_batch_allowed store now cs store' v"
    and dist: "distinct (map gkey cs)" and healthy: "\<not> touches_poisoned (gs_shards store) (map gkey cs)"
  shows "g_key_effect store now cs k store' (charge_of k
    (case BatchDecision_view v of BV_Allowed _ \<Rightarrow> map (\<lambda>c. (gkey c, chk_cost c)) cs | _ \<Rightarrow> []))"
  using post
proof
  assume denied: "g_batch_denied store now cs store' v"
  then have "(case BatchDecision_view v of BV_Allowed _ \<Rightarrow> map (\<lambda>c. (gkey c, chk_cost c)) cs | _ \<Rightarrow> []) = []"
    by (auto simp: g_batch_denied_def g_stop_def Let_def BatchDecision_view_def split: if_splits)
  with denied show ?thesis by (auto simp: g_batch_denied_def g_key_effect_def)
next
  assume allowed: "g_batch_allowed store now cs store' v"
  then have ch: "(case BatchDecision_view v of BV_Allowed _ \<Rightarrow> map (\<lambda>c. (gkey c, chk_cost c)) cs | _ \<Rightarrow> []) =
      map (\<lambda>c. (gkey c, chk_cost c)) cs"
    by (simp add: g_batch_allowed_def BatchDecision_view_def)
  show ?thesis
  proof (cases "List.find (\<lambda>c. gkey c = k) cs")
    case None
    then show ?thesis using allowed charge_of_batch [OF dist, of k] unfolding ch
      by (simp add: g_batch_allowed_def g_key_effect_def)
  next
    case (Some c)
    then have c: "c \<in> set cs" "gkey c = k" by (auto simp: find_Some_iff)
    then have "\<not> g_poisoned store k" using healthy by (auto simp: touches_poisoned_def)
    then show ?thesis using Some c allowed charge_of_batch [OF dist, of k] unfolding ch
      by (auto simp: g_batch_allowed_def g_key_effect_def)
  qed
qed

lemma g_batch_step:
  assumes ok: "gs_ok tab store" "g_latest_le store (as_millis d)" and d: "d \<le> duration_MAX"
    and cs: "\<forall>c \<in> set cs. gc_ok tab c" and step: "gs_step store d (Do_Batch cs) = (store', charges)"
  shows "g_step_ok tab store (as_millis d) cs k store' (charge_of k charges)"
proof -
  let ?bs = "gs_shards store" and ?keys = "map gkey cs" and ?now = "as_millis d"
  have same: ?thesis if "gcra_check_all_inner store (Some d) (\<lambda>_. 0) cs = (store, Some (Err e))" for e
    using that step g_step_unchanged [OF ok] by (auto simp: gs_step_def)
  show ?thesis
  proof (cases "batch_ok GcraPolicy (max_batch_size (gs_config store)) cs \<and>
      (\<forall>i. count_list (map (shard_index ?bs) ?keys) i \<le> shard_capacity (gs_config store) i) \<and> \<not> touches_poisoned ?bs ?keys")
    case False
    then obtain e where "gcra_check_all_inner store (Some d) (\<lambda>_. 0) cs = (store, Some (Err (GcraStoreError e)))"
      using gcra_check_all_inner_errors [OF ok(1), of cs "Some d" "\<lambda>_. 0"] by (metis leI)
    then show ?thesis by (rule same)
  next
    case True
    have ne: "?bs \<noteq> []" using gs_ok_index [OF ok(1), of k] by auto
    obtain now where bn: "batch_now ?bs ?keys ?now now"
      and run: "gcra_check_all_inner store (Some d) (\<lambda>_. 0) cs = (store, Some (Err GcraBatchArithmeticOverflow)) \<or>
       (\<exists>store' ev. gcra_check_all_inner store (Some d) (\<lambda>_. 0) cs = (store', Some (Ok ev)) \<and>
       gs_ok tab store' \<and> length (gs_shards store') = length ?bs \<and>
       (\<forall>i < length ?bs. mx_poisoned (gs_shards store' ! i) = mx_poisoned (?bs ! i)) \<and>
       (\<forall>i < length ?bs. bs_latest (gs_shards store') i \<le> max now (bs_latest ?bs i)) \<and>
       (g_batch_denied store now cs store' (ev_value ev) \<or> g_batch_allowed store now cs store' (ev_value ev)))"
      using gcra_check_all_inner_spec [OF ok(1) cs d, of "\<lambda>_. 0"] True by blast
    have now: "now = ?now" using batch_now_latest [OF ne bn] ok(2) by (simp add: g_latest_le_def)
    show ?thesis
    proof (cases "gcra_check_all_inner store (Some d) (\<lambda>_. 0) cs = (store, Some (Err GcraBatchArithmeticOverflow))")
      case True
      then show ?thesis by (rule same)
    next
      case False
      with run obtain store1 ev where s: "gcra_check_all_inner store (Some d) (\<lambda>_. 0) cs = (store1, Some (Ok ev))"
        "gs_ok tab store1" "length (gs_shards store1) = length ?bs"
        "\<forall>i < length ?bs. mx_poisoned (gs_shards store1 ! i) = mx_poisoned (?bs ! i)"
        "\<forall>i < length ?bs. bs_latest (gs_shards store1) i \<le> max now (bs_latest ?bs i)"
        "g_batch_denied store now cs store1 (ev_value ev) \<or> g_batch_allowed store now cs store1 (ev_value ev)"
        by blast
      have store': "store' = store1" and charges: "charges = (case BatchDecision_view (ev_value ev) of
          BV_Allowed _ \<Rightarrow> map (\<lambda>c. (gkey c, chk_cost c)) cs | _ \<Rightarrow> [])"
        using step s(1) by (auto simp: gs_step_def)
      have "g_latest_le store' ?now" using s(3,5) ok(2) now store' by (fastforce simp: g_latest_le_def)
      moreover have "g_poisoned store' k = g_poisoned store k"
        using s(3,4) store' gs_ok_index [OF ok(1), of k] by (simp add: shard_index_def)
      moreover have "g_key_effect store ?now cs k store' (charge_of k charges)"
        unfolding charges store' using g_batch_effect [of store now cs store1 "ev_value ev" k] s(6) True now
        by (simp add: batch_ok_def)
      ultimately show ?thesis using s(2) store' by (simp add: g_step_ok_def)
    qed
  qed
qed

lemma g_step:
  assumes "gs_ok tab store" "g_latest_le store (as_millis d)" "d \<le> duration_MAX" "gcra_op_ok tab op"
    "gs_step store d op = (store', charges)"
  shows "g_step_ok tab store (as_millis d) (op_checks op) k store' (charge_of k charges)"
proof (cases op)
  case (Do_Check c)
  then show ?thesis using g_check_step [OF assms(1-3)] assms(4,5) by (simp add: gcra_op_ok_def)
next
  case (Do_Batch cs)
  then show ?thesis using g_batch_step [OF assms(1-3)] assms(4,5) by (simp add: gcra_op_ok_def)
qed

section \<open>The rate bound\<close>

text \<open>The scaled arrival time in force at \<open>t\<close>, and the scaled credit a counter can still spend until
  \<open>t\<^sub>1\<close>; a counter on a poisoned shard spends nothing.\<close>

definition g_level :: "nat \<Rightarrow> nat \<Rightarrow> (gcra_entry \<times> nat) option \<Rightarrow> nat" where
  "g_level q t st = (case st of None \<Rightarrow> t * q | Some (v, _) \<Rightarrow> max (ge_tat_scaled v) (t * q))"

abbreviation "rate_q tab k \<equiv> capacity_get (gcp_quota (tab (ck_fingerprint k)))"
abbreviation "rate_p tab k \<equiv> period_millis (gcp_period (tab (ck_fingerprint k)))"
abbreviation "rate_b tab k \<equiv> capacity_get (gcp_burst_capacity (tab (ck_fingerprint k)))"

definition g_credit :: "rate_table \<Rightarrow> counter_key \<Rightarrow> nat \<Rightarrow> gcra_store \<Rightarrow> nat \<Rightarrow> nat" where
  "g_credit tab k t1 s t = (if g_poisoned s k then 0
     else t1 * rate_q tab k + rate_b tab k * rate_p tab k - g_level (rate_q tab k) t (bs_live (gs_shards s) t k))"

lemma active_level: "active c t (tat_of st) = g_level (gq c) t st"
  by (auto simp: active_def g_level_def split: option.splits)

lemma rate_of:
  "gc_ok tab c \<Longrightarrow> rate_q tab (gkey c) = gq c \<and> rate_p tab (gkey c) = gp c \<and> rate_b tab (gkey c) = gb c"
  by (simp add: gc_ok_def gq_def gp_def gb_def Let_def)

lemma live_entry_ok:
  assumes ok: "gs_ok tab s" "g_latest_le s t" and healthy: "\<not> g_poisoned s k"
    and live: "bs_live (gs_shards s) t k = Some (v, e)"
  shows "gentry_ok (tab (ck_fingerprint k)) t (ge_tat_scaled v) e"
proof -
  let ?i = "shard_index (gs_shards s) k"
  have i: "?i < length (gs_shards s)" by (rule gs_ok_index [OF ok(1)])
  then have "gentries_ok tab (bs_latest (gs_shards s) ?i) (mx_shard (gs_shards s ! ?i))"
    using ok(1) healthy by (simp add: gs_ok_def gshards_ok_def gshard_ok_def bs_latest_def)
  from gentries_ok_mono [OF this] have "gentries_ok tab t (mx_shard (gs_shards s ! ?i))"
    using ok(2) i by (simp add: g_latest_le_def)
  then show ?thesis using live by (simp add: gentries_ok_def bs_live_def live_Some)
qed

lemma g_credit_later:
  assumes ok: "gs_ok tab s" "g_latest_le s t" and q: "0 < rate_q tab k" and t: "t \<le> u"
  shows "g_credit tab k t1 s u \<le> g_credit tab k t1 s t"
proof (cases "g_poisoned s k")
  case False
  let ?q = "rate_q tab k"
  have tq: "t * ?q \<le> u * ?q" using t by simp
  have "g_level ?q t (bs_live (gs_shards s) t k) \<le> g_level ?q u (bs_live (gs_shards s) u k)"
  proof (cases "bs_live (gs_shards s) t k")
    case None
    then show ?thesis using tq live_later [OF t, of "gs_shards s" k] by (simp add: g_level_def)
  next
    case (Some x)
    obtain v e where x: "x = (v, e)" by fastforce
    have e: "e = div_ceil (ge_tat_scaled v) ?q" using live_entry_ok [OF ok False] Some x by (simp add: gentry_ok_def)
    have "ge_tat_scaled v \<le> u * ?q" if "e \<le> u"
      using that e div_ceil_le_iff [OF q, of "ge_tat_scaled v" u] by simp
    then show ?thesis using Some x tq live_later [OF t, of "gs_shards s" k]
      by (auto simp: g_level_def max.coboundedI2)
  qed
  then show ?thesis using False by (simp add: g_credit_def)
qed (simp add: g_credit_def)

lemma g_credit_pays:
  assumes step: "g_step_ok tab s now cs k s' charge" and cs: "\<forall>c \<in> set cs. gc_ok tab c" and now: "now \<le> t1"
  shows "charge * rate_p tab k + g_credit tab k t1 s' now \<le> g_credit tab k t1 s now"
proof -
  from step consider (same) "charge = 0" "bs_live (gs_shards s') now k = bs_live (gs_shards s) now k"
    | (admit) c where "c \<in> set cs" "gkey c = k" "charge = chk_cost c" "\<not> g_poisoned s k"
      "g_conforms c now (bs_live (gs_shards s) now k)"
      "bs_live (gs_shards s') now k = g_apply now c (bs_live (gs_shards s) now k) now"
    by (auto simp: g_step_ok_def g_key_effect_def)
  then show ?thesis
  proof cases
    case same
    then show ?thesis using step by (simp add: g_credit_def g_step_ok_def)
  next
    case (admit c)
    let ?st = "bs_live (gs_shards s) now k"
    have c: "gc_ok tab c" using admit(1) cs by blast
    then have g: "gcheck_ok c" by (simp add: gc_ok_def)
    let ?cand = "g_level (gq c) now ?st + chk_cost c * gp c"
    have le: "?cand \<le> now * gq c + gb c * gp c" using admit(5) by (simp add: conforms_def active_level)
    have "0 < chk_cost c * gp c" using gcheck_bounds [OF g] by simp
    moreover have "now * gq c \<le> g_level (gq c) now ?st" by (simp add: g_level_def split: option.split)
    ultimately have lt: "now * gq c < ?cand" by linarith
    have "\<not> now + gcra_replenish c now (tat_of ?st) \<le> now"
      using expired_le [OF g order_refl, of now "tat_of ?st"] lt by (simp add: active_level)
    then have "bs_live (gs_shards s') now k = Some (g_next c now ?st)"
      using admit(6) by (simp add: g_apply_def g_next_def)
    then have "g_level (gq c) now (bs_live (gs_shards s') now k) = ?cand"
      using lt by (simp add: g_level_def g_next_def active_level)
    moreover have "?cand \<le> t1 * gq c + gb c * gp c" using le mult_le_mono1 [OF now, of "gq c"] by linarith
    ultimately show ?thesis
      using admit(2-4) rate_of [OF c] step unfolding g_credit_def by (simp add: g_step_ok_def)
  qed
qed

interpretation gcra_store: metered_store gs_step "\<lambda>s t. gs_ok tab s \<and> g_latest_le s t \<and> 0 < rate_q tab k"
    "gcra_op_ok tab" k "rate_p tab k" t1 "g_credit tab k t1" for tab k t1
proof (unfold_locales, goal_cases)
  case (1 s t u)
  then show ?case by (auto simp: g_latest_le_def)
next
  case (2 s t u)
  then show ?case by (intro g_credit_later) auto
next
  case (3 s d op s' charges)
  then show ?case using g_step [of tab s d op s' charges k] by (auto simp: g_step_ok_def)
next
  case (4 s d op s' charges)
  then have "g_step_ok tab s (as_millis d) (op_checks op) k s' (charge_of k charges)"
    by (intro g_step) auto
  from g_credit_pays [OF this _ 4(5)] 4(3) show ?case by (simp add: gcra_op_ok_def)
qed

lemma g_credit_bound: "g_credit tab k t1 store t0 \<le> rate_b tab k * rate_p tab k + (t1 - t0) * rate_q tab k"
proof -
  have "t0 * rate_q tab k \<le> g_level (rate_q tab k) t0 (bs_live (gs_shards store) t0 k)" by (simp add: g_level_def split: option.split)
  then have "g_credit tab k t1 store t0 \<le> t1 * rate_q tab k + rate_b tab k * rate_p tab k - t0 * rate_q tab k"
    unfolding g_credit_def by (simp add: diff_le_mono2)
  also have "\<dots> \<le> rate_b tab k * rate_p tab k + (t1 - t0) * rate_q tab k" by (simp add: diff_mult_distrib)
  finally show ?thesis .
qed

section \<open>Concrete instances\<close>

lemma gshard_ok_new: "gshard_ok tab (Shard_new n)"
  by (simp add: gshard_ok_def shard_ok_new) (simp add: gentries_ok_def Shard_new_def shard_map_def)

lemma g_new_ok: "config_ok config \<Longrightarrow> gs_ok tab (GcraStore_new config)"
  using shards_ok_new [of config]
  by (simp add: gs_ok_def GcraStore_new_def gshards_ok_def) (simp add: BoundedShards_new_def gshard_ok_new)

lemma g_new_latest: "g_latest_le (GcraStore_new config) t"
  by (simp add: g_latest_le_def GcraStore_new_def BoundedShards_new_def bs_latest_def Shard_new_def)

lemma g_new_live: "config_ok config \<Longrightarrow> bs_live (gs_shards (GcraStore_new config)) t k = None"
  by (simp add: GcraStore_new_def new_shards_live)

text \<open>The table of a deployment with the one sample policy.\<close>

abbreviation sample_tab :: rate_table where "sample_tab \<equiv> \<lambda>_. sample_gcp"

abbreviation sample_gstore :: gcra_store where "sample_gstore \<equiv> GcraStore_new sample_config"

lemma sample_gc_ok: "0 < n \<Longrightarrow> n \<le> 5 \<Longrightarrow> gc_ok sample_tab (sample_gcheck n)"
  using sample_gcheck_ok [of n] gcheck_okI by (auto simp: gc_ok_def Let_def) (simp_all add: sample_gcheck_def)

lemma sample_gstore_facts:
  "gs_ok sample_tab sample_gstore" "\<not> mx_poisoned (gs_shards sample_gstore ! 0)"
  "shard_index (gs_shards sample_gstore) k = 0" "gs_config sample_gstore = sample_config"
  "bs_live (gs_shards sample_gstore) t k = None" "bs_latest (gs_shards sample_gstore) 0 = 0"
  using g_new_ok [OF sample_config_ok] g_new_live [OF sample_config_ok]
  by (simp_all add: GcraStore_new_def BoundedShards_new_def sample_config_def shard_index_def bs_latest_def Shard_new_def)

section \<open>Properties\<close>

lemma overflow_late:
  assumes "gs_ok tab s" "\<not> g_poisoned s (gkey c)" "gc_ok tab c"
    and "bs_latest (gs_shards s) (shard_index (gs_shards s) (gkey c)) \<le> now"
    and err: "evaluate c now (tat_of (bs_live (gs_shards s) now (gkey c))) = Err e"
  shows "2 ^ 64 \<le> now"
proof (rule ccontr)
  assume "\<not> 2 ^ 64 \<le> now"
  let ?i = "shard_index (gs_shards s) (gkey c)"
  have "gentries_ok tab (bs_latest (gs_shards s) ?i) (mx_shard (gs_shards s ! ?i))"
    using assms(1,2) gs_ok_index [OF assms(1)] by (simp add: gs_ok_def gshards_ok_def gshard_ok_def bs_latest_def)
  then have "tat_ok c now (tat_of (bs_live (gs_shards s) now (gkey c)))"
    unfolding bs_live_def using gentries_ok_mono [OF _ assms(4)] by (intro live_tat_ok [OF _ assms(3)])
  then show False using err evaluate_eq_spec [of c now] assms(3) \<open>\<not> 2 ^ 64 \<le> now\<close> by (simp add: gc_ok_def)
qed

text \<open>
  C21: a single GCRA check on a well-formed store never panics. A poisoned shard fails closed. The only
  other failure is arithmetic overflow, which needs a clock beyond 64-bit milliseconds and leaves the
  store alone. Otherwise the check is evaluated at the clock reading clamped to the shard's latest
  instant and follows the exact GCRA transition on the counter in force then: it is denied (or
  shadow-denied) exactly when it does not conform, with the exact retry delay; denied for storage only
  if the counter is new and its shard is full of live counters; else allowed, storing the new arrival
  time and expiry of exactly this counter. A denial changes no live counter.
\<close>

theorem memory_gcra_check_correct:
  fixes store c d el
  defines "bs \<equiv> gs_shards store" and "k \<equiv> chk_counter_key GcraPolicy c"
  defines "i \<equiv> shard_index bs k"
  defines "now \<equiv> max (as_millis d) (bs_latest bs i)"
  assumes "gs_ok tab store" "gc_ok tab c" "d \<le> duration_MAX"
  shows "if mx_poisoned (bs ! i)
    then gcra_check_inner store (Some d) el c = (store, Some (Err (GcraPoisonedShard (PoisonedShardError i))))
    else 2 ^ 64 \<le> now \<and> gcra_check_inner store (Some d) el c = (store, Some (Err GcraArithmeticOverflow)) \<or>
      (\<exists>store' ev. gcra_check_inner store (Some d) el c = (store', Some (Ok ev)) \<and> gs_ok tab store' \<and>
         g_checked tab store now c store' (ev_value ev))"
proof (cases "mx_poisoned (bs ! i)")
  case True
  then show ?thesis using gcra_check_inner_poisoned [OF assms(5), of c] by (simp add: bs_def k_def i_def)
next
  case False
  note healthy = False [unfolded bs_def k_def i_def]
  note spec = gcra_check_inner_spec [OF assms(5-7) healthy, of el, folded k_def, folded bs_def, folded i_def, folded now_def]
  show ?thesis
  proof (cases "evaluate c now (tat_of (bs_live bs now k))")
    case (Inl e)
    have "2 ^ 64 \<le> now"
      using Inl by (intro overflow_late [OF assms(5) healthy assms(6)]) (simp_all add: now_def bs_def k_def i_def)
    with Inl spec False show ?thesis by simp
  next
    case (Inr r)
    with spec False show ?thesis by auto
  qed
qed

theorem memory_gcra_check_correct_witness:
  "\<exists>store' ev. gcra_check_inner sample_gstore (Some 0) 0 (sample_gcheck 3) = (store', Some (Ok ev)) \<and>
     gs_ok sample_tab store' \<and> g_checked sample_tab sample_gstore 0 (sample_gcheck 3) store' (ev_value ev)"
  using memory_gcra_check_correct [OF sample_gstore_facts(1) sample_gc_ok [of 3], of 0 0] sample_gstore_facts(2)
  by (simp add: sample_gstore_facts duration_MAX_def rust_defs)

text \<open>
  C22: GCRA batches are atomic: for a structurally valid batch on healthy shards that it can fit, the
  call never panics. Either one evaluation overflows (a clock beyond 64-bit milliseconds) and nothing
  at all changes; or every check is admitted, in input order, each computed from its own counter, and
  exactly these counters change; or the batch stops at the first check that cannot be admitted,
  reports its index and changes no live counter. A check cannot be admitted exactly when it does not
  conform, or when its counter is not live and the live counters of its shard, with the earlier checks of
  the batch that need a new counter there, reach the capacity of the shard. All of it at one instant. (A
  slice has fewer than \<open>2 ^ 64\<close> elements.)
\<close>

theorem memory_gcra_batch_atomic:
  fixes store cs d timer
  defines "bs \<equiv> gs_shards store" and "keys \<equiv> map gkey cs"
  assumes "gs_ok tab store" "\<forall>c \<in> set cs. gc_ok tab c" "d \<le> duration_MAX"
    and "batch_ok GcraPolicy (max_batch_size (gs_config store)) cs"
    and "\<forall>i. count_list (map (shard_index bs) keys) i \<le> shard_capacity (gs_config store) i"
    and "\<not> touches_poisoned bs keys" "length cs < 2 ^ 64"
  shows "\<exists>now. batch_now bs keys (as_millis d) now \<and>
    (2 ^ 64 \<le> now \<and> gcra_check_all_inner store (Some d) timer cs = (store, Some (Err GcraBatchArithmeticOverflow)) \<or>
     (\<exists>store' ev. gcra_check_all_inner store (Some d) timer cs = (store', Some (Ok ev)) \<and> gs_ok tab store' \<and>
       stop_index (ev_value ev) = List.find (g_refused store now cs) [0..<length cs] \<and>
       (g_batch_denied store now cs store' (ev_value ev) \<or> g_batch_allowed store now cs store' (ev_value ev))))"
proof -
  have late: "2 ^ 64 \<le> now" if n: "batch_now bs keys (as_millis d) now" and c: "c \<in> set cs"
    and e: "evaluate c now (tat_of (bs_live bs now (gkey c))) = Err e" for now c e
  proof (rule overflow_late [OF assms(3)])
    show "gc_ok tab c" using c assms(4) by blast
    show "\<not> g_poisoned store (gkey c)" using c assms(8) by (auto simp: touches_poisoned_def bs_def keys_def)
    show "bs_latest (gs_shards store) (shard_index (gs_shards store) (gkey c)) \<le> now"
      using n c unfolding batch_now_def by (auto simp: bs_def keys_def intro: Max_ge)
    show "evaluate c now (tat_of (bs_live (gs_shards store) now (gkey c))) = Err e" using e by (simp add: bs_def)
  qed
  show ?thesis
    using gcra_check_all_inner_spec [OF assms(3-6) assms(7,8) [unfolded bs_def keys_def], of timer] late assms(9)
    unfolding bs_def keys_def by metis
qed

theorem memory_gcra_batch_atomic_witness:
  "\<exists>store' ev. gcra_check_all_inner sample_gstore (Some 0) (\<lambda>_. 0) [sample_gcheck 3] = (store', Some (Ok ev)) \<and>
     gs_ok sample_tab store'"
proof -
  have "batch_ok GcraPolicy (max_batch_size (gs_config sample_gstore)) [sample_gcheck 3]"
    by (simp add: batch_ok_def sample_gstore_facts) (simp add: sample_config_def)
  moreover have "count_list (map (shard_index (gs_shards sample_gstore)) (map gkey [sample_gcheck 3])) i \<le>
      shard_capacity (gs_config sample_gstore) i" for i
    by (simp add: sample_gstore_facts) (simp add: sample_config_def shard_capacity_def)
  moreover have "\<not> touches_poisoned (gs_shards sample_gstore) (map gkey [sample_gcheck 3])"
    by (simp add: touches_poisoned_def sample_gstore_facts)
  ultimately obtain now where "batch_now (gs_shards sample_gstore) [gkey (sample_gcheck 3)] 0 now"
    "2 ^ 64 \<le> now \<or> ?thesis"
    using memory_gcra_batch_atomic [OF sample_gstore_facts(1), of "[sample_gcheck 3]" 0 "\<lambda>_. 0"] sample_gc_ok [of 3]
    by (auto simp: duration_MAX_def rust_defs)
  then show ?thesis by (auto simp: batch_now_def sample_gstore_facts)
qed

text \<open>
  C20: the memory GCRA store enforces its rate over every history: whatever checks and batches are
  evaluated at readings of a monotonic clock between \<open>t\<^sub>0\<close> and \<open>t\<^sub>1\<close>, on any well-formed store, the cost
  admitted for one counter times the period is at most the burst times the period plus the elapsed
  time times the quota, that is, at most \<open>burst + quota * elapsed / period\<close> units.
\<close>

theorem memory_gcra_rate_bound:
  assumes "gs_ok tab store" "g_latest_le store t0" "timed_history (gcra_op_ok tab) t0 t1 ops"
    and "0 < capacity_get (gcp_quota (tab (ck_fingerprint k)))"
  shows "admitted gs_step k store ops * period_millis (gcp_period (tab (ck_fingerprint k))) \<le>
    capacity_get (gcp_burst_capacity (tab (ck_fingerprint k))) * period_millis (gcp_period (tab (ck_fingerprint k))) +
    (t1 - t0) * capacity_get (gcp_quota (tab (ck_fingerprint k)))"
  using gcra_store.admitted_le_potential [of tab store t0 k t1 ops] g_credit_bound [of tab k t1 store t0] assms by simp

theorem memory_gcra_rate_bound_witness:
  "admitted gs_step (gkey (sample_gcheck 1)) sample_gstore
     [(0, Do_Check (sample_gcheck 4)), (from_millis 50, Do_Batch [sample_gcheck 2]),
      (from_millis 100, Do_Check (sample_gcheck 3))] \<le> 6"
proof -
  let ?ops = "[(0, Do_Check (sample_gcheck 4)), (from_millis 50, Do_Batch [sample_gcheck 2]),
      (from_millis 100, Do_Check (sample_gcheck 3))]"
  have "timed_history (gcra_op_ok sample_tab) 0 100 ?ops"
    by (simp add: gcra_op_ok_def sample_gc_ok duration_MAX_def rust_defs)
  from memory_gcra_rate_bound [OF sample_gstore_facts(1) g_new_latest this] show ?thesis
    by (simp add: sample_gcp_def)
qed

end
