(* ===== verification/Memory_Limiters.thy ===== *)
theory Memory_Limiters
  imports Limiter Memory_Limits Memory_Gcra_Limits
begin

text \<open>
  The memory stores as limiters: \<open>impl Limiter for MemoryStore\<close> and \<open>impl Limiter for GcraStore\<close>, and that they
  keep the contract of the trait. The circumstances of an operation are the reading of the store's
  clock, which must not be before what the store has observed.
\<close>

section \<open>The fixed-window store\<close>

definition memory_limiter ::
    "duration \<Rightarrow> (memory_store, fixed_window_policy, poisoned_shard_error, memory_batch_error) limiter" where
  "memory_limiter d =
     \<lparr>lm_check = \<lambda>store check. snd (ms_check None () store (Some d) 0 0 check),
      lm_check_all = \<lambda>store checks. snd (ms_check_all None () store (Some d) (\<lambda>_. 0) 0 checks)\<rparr>"

definition ms_usable :: "duration \<Rightarrow> memory_store \<Rightarrow> bool" where
  "ms_usable d store \<longleftrightarrow> ms_ok store \<and> latest_le store (as_millis d) \<and> d \<le> duration_MAX"

definition ms_kept :: "duration \<Rightarrow> memory_store \<Rightarrow> memory_store \<Rightarrow> bool" where
  "ms_kept d store store' \<longleftrightarrow> ms_ok store' \<and> latest_le store' (as_millis d) \<and>
     (\<forall>k. \<forall>t \<ge> as_millis d. bs_live (ms_shards store') t k = bs_live (ms_shards store) t k)"

text \<open>Every counter of the checks, within its limit, is charged the cost of its check; no other counter changes.\<close>

definition ms_spent :: "duration \<Rightarrow> fixed_window_policy check list \<Rightarrow> memory_store \<Rightarrow> memory_store \<Rightarrow> bool" where
  "ms_spent d cs store store' \<longleftrightarrow> ms_ok store' \<and> latest_le store' (as_millis d) \<and>
     (\<forall>k. key_effect store (as_millis d) cs k store' (charge_of k (map (\<lambda>c. (fkey c, chk_cost c)) cs)))"

lemma memory_limiter_simps:
  "lm_check (memory_limiter d) store c =
     (case check_inner store (Some d) 0 c of
        (store', None) \<Rightarrow> (store', None)
      | (store', Some (Ok ev)) \<Rightarrow> (store', Some (Ok (ev_value ev)))
      | (store', Some (Err e)) \<Rightarrow> (store', Some (Err e)))"
  "lm_check_all (memory_limiter d) store cs =
     (case check_all_inner store (Some d) (\<lambda>_. 0) cs of
        (store', None) \<Rightarrow> (store', None)
      | (store', Some (Ok ev)) \<Rightarrow> (store', Some (Ok (ev_value ev)))
      | (store', Some (Err e)) \<Rightarrow> (store', Some (Err e)))"
  by (auto simp: memory_limiter_def ms_check_def ms_check_all_def split: prod.split option.split sum.split)

lemma uncharged_kept:
  assumes "\<And>k. key_effect store now cs k store' 0" "\<forall>c \<in> set cs. fw_check_ok c"
  shows "\<forall>k. \<forall>t \<ge> now. bs_live (ms_shards store') t k = bs_live (ms_shards store) t k"
proof -
  have "chk_cost c \<noteq> 0" if "c \<in> set cs" for c using assms(2) that by (auto simp: fw_check_ok_def check_ok_def)
  then show ?thesis using assms(1) unfolding key_effect_def by metis
qed

lemma ms_check_cases:
  assumes u: "ms_usable d store" and c: "fw_check_ok c"
  obtains (decided) ev store' where "check_inner store (Some d) 0 c = (store', Some (Ok ev))"
      "decision_tells (ms_spent d [c] store store') (ms_kept d store store') (fwp_quota_mode (chk_policy c) = Shadow) (ev_value ev)"
  | (failed) e where "check_inner store (Some d) 0 c = (store, Some (Err e))"
proof (cases "mx_poisoned (ms_shards store ! shard_index (ms_shards store) (fkey c))")
  case True
  have "ms_ok store" using u by (simp add: ms_usable_def)
  from check_inner_poisoned [OF this True] show thesis by (rule failed)
next
  case False
  have u': "ms_ok store" "latest_le store (as_millis d)" "d \<le> duration_MAX" using u by (simp_all add: ms_usable_def)
  from check_inner_spec [OF u'(1) c u'(3) False, of 0] obtain store' ev where
    run: "check_inner store (Some d) 0 c = (store', Some (Ok ev))" and
    shadow: "\<And>q. ev_value ev = Decision_shadow_denied q \<Longrightarrow> fwp_quota_mode (chk_policy c) = Shadow"
    by (fastforce simp: fw_denied_decision_def decision_con_defs split: if_splits)
  let ?charges = "case Decision_view (ev_value ev) of DV_Allowed _ \<Rightarrow> [(fkey c, chk_cost c)] | _ \<Rightarrow> []"
  have eff: "ms_ok store' \<and> latest_le store' (as_millis d) \<and> key_effect store (as_millis d) [c] k store' (charge_of k ?charges)" for k
    by (rule check_step_effect [OF u' c]) (simp add: ms_step_def run)
  note kept = uncharged_kept [of store "as_millis d" "[c]" store']
  have "decision_tells (ms_spent d [c] store store') (ms_kept d store store') (fwp_quota_mode (chk_policy c) = Shadow) (ev_value ev)"
    using eff kept c shadow by (cases "ev_value ev" rule: decision_exhaust) (simp_all add: decision_tells_def ms_spent_def ms_kept_def)
  with run show thesis by (rule decided)
qed

lemma ms_batch_cases:
  assumes u: "ms_usable d store" and valid_checks: "list_all fw_check_ok cs"
  obtains (decided) ev store' where "check_all_inner store (Some d) (\<lambda>_. 0) cs = (store', Some (Ok ev))"
      "batch_tells (ms_spent d cs store store') (ms_kept d store store') (length cs) (ev_value ev)"
  | (failed) e where "check_all_inner store (Some d) (\<lambda>_. 0) cs = (store, Some (Err e))"
proof -
  have u': "ms_ok store" "latest_le store (as_millis d)" "d \<le> duration_MAX" using u by (simp_all add: ms_usable_def)
  have cs: "\<forall>c \<in> set cs. fw_check_ok c" using valid_checks by (simp add: list_all_iff)
  show thesis
  proof (cases "\<exists>e. check_all_inner store (Some d) (\<lambda>_. 0) cs = (store, Some (Err e))")
    case False
    let ?bs = "ms_shards store"
    have valid: "batch_ok FixedWindowPolicy (max_batch_size (ms_config store)) cs"
      using False check_all_inner_errors(1) [OF u'(1)] validate_batch_Ok [of FixedWindowPolicy cs]
      by (cases "validate_batch FixedWindowPolicy cs (max_batch_size (ms_config store))") auto
    then have "\<forall>i. count_list (map (shard_index ?bs) (map fkey cs)) i \<le> shard_capacity (ms_config store) i"
      "\<not> touches_poisoned ?bs (map fkey cs)"
      using False check_all_inner_errors(2,3) [OF u'(1) valid] by metis+
    from check_all_inner_spec [OF u'(1) cs u'(3) valid this, of "\<lambda>_. 0"] obtain now store' ev where
      run: "check_all_inner store (Some d) (\<lambda>_. 0) cs = (store', Some (Ok ev))" and
      post: "fw_batch_denied store now cs store' (ev_value ev) \<or> fw_batch_allowed store now cs store' (ev_value ev)" by blast
    let ?charges = "case BatchDecision_view (ev_value ev) of BV_Allowed _ \<Rightarrow> map (\<lambda>c. (fkey c, chk_cost c)) cs | _ \<Rightarrow> []"
    have eff: "ms_ok store' \<and> latest_le store' (as_millis d) \<and> key_effect store (as_millis d) cs k store' (charge_of k ?charges)" for k
      by (rule batch_step_effect [OF u' cs]) (simp add: ms_step_def run)
    note kept = uncharged_kept [of store "as_millis d" cs store', OF _ cs]
    from post have "batch_tells (ms_spent d cs store store') (ms_kept d store store') (length cs) (ev_value ev)"
    proof
      assume "fw_batch_denied store now cs store' (ev_value ev)"
      then show ?thesis using eff kept
        by (auto simp: fw_batch_denied_def fw_stop_def Let_def batch_tells_def BatchDecision_view_def ms_kept_def split: if_splits)
    next
      assume "fw_batch_allowed store now cs store' (ev_value ev)"
      then show ?thesis using eff by (simp add: fw_batch_allowed_def batch_tells_def BatchDecision_view_def ms_spent_def)
    qed
    with run show thesis by (rule decided)
  qed (use failed in blast)
qed

interpretation memory: limiter_contract memory_limiter fwp_quota_mode ms_usable fw_check_ok ms_kept ms_spent
    "\<lambda>_. NotConsumed" "\<lambda>_. NotConsumed" InvalidBatch
proof (unfold_locales, goal_cases)
  case (1 d store)
  then show ?case by (simp add: ms_usable_def ms_kept_def)
next
  case (2 d store c)
  then show ?case by (cases rule: ms_check_cases [OF 2(1,2)]) (auto simp: memory_limiter_simps)
next
  case (3 d store c)
  then show ?case by (cases rule: ms_check_cases [OF 3(1,2)]) (auto simp: memory_limiter_simps)
next
  case (4 d store c)
  have "ms_kept d store store" using 4(1) by (simp add: ms_usable_def ms_kept_def)
  with 4 show ?case by (cases rule: ms_check_cases [OF 4(1,2)]) (auto simp: memory_limiter_simps error_tells_def)
next
  case (5 d store cs)
  then show ?case by (cases rule: ms_batch_cases [OF 5(1,2)]) (auto simp: memory_limiter_simps)
next
  case (6 d store cs)
  then show ?case by (cases rule: ms_batch_cases [OF 6(1,2)]) (auto simp: memory_limiter_simps)
next
  case (7 d store cs)
  have "ms_kept d store store" using 7(1) by (simp add: ms_usable_def ms_kept_def)
  with 7 show ?case by (cases rule: ms_batch_cases [OF 7(1,2)]) (auto simp: memory_limiter_simps error_tells_def)
next
  case (8 d store)
  then show ?case by (simp add: memory_limiter_simps check_all_inner_def validate_batch_def ms_usable_def ms_kept_def)
qed

section \<open>The GCRA store\<close>

definition gcra_memory_limiter ::
    "duration \<Rightarrow> (gcra_store, gcra_policy, gcra_check_error, gcra_batch_error) limiter" where
  "gcra_memory_limiter d =
     \<lparr>lm_check = \<lambda>store check. snd (gs_check None () store (Some d) 0 0 check),
      lm_check_all = \<lambda>store checks. snd (gs_check_all None () store (Some d) (\<lambda>_. 0) 0 checks)\<rparr>"

definition gs_usable :: "rate_table \<Rightarrow> duration \<Rightarrow> gcra_store \<Rightarrow> bool" where
  "gs_usable tab d store \<longleftrightarrow> gs_ok tab store \<and> g_latest_le store (as_millis d) \<and> d \<le> duration_MAX"

text \<open>An operation that admits the checks \<open>cs\<close>; one that admits none has no effect on any counter.\<close>

definition gs_spent :: "rate_table \<Rightarrow> duration \<Rightarrow> gcra_policy check list \<Rightarrow> gcra_store \<Rightarrow> gcra_store \<Rightarrow> bool" where
  "gs_spent tab d cs store store' \<longleftrightarrow>
     (\<forall>k. g_step_ok tab store (as_millis d) cs k store' (charge_of k (map (\<lambda>c. (gkey c, chk_cost c)) cs)))"

abbreviation gs_kept :: "rate_table \<Rightarrow> duration \<Rightarrow> gcra_store \<Rightarrow> gcra_store \<Rightarrow> bool" where
  "gs_kept tab d \<equiv> gs_spent tab d []"

lemma gs_kept_refl: "gs_usable tab d store \<Longrightarrow> gs_kept tab d store store"
  by (simp add: gs_usable_def gs_spent_def g_step_unchanged)

lemma gcra_memory_limiter_simps:
  "lm_check (gcra_memory_limiter d) store c =
     (case gcra_check_inner store (Some d) 0 c of
        (store', None) \<Rightarrow> (store', None)
      | (store', Some (Ok ev)) \<Rightarrow> (store', Some (Ok (ev_value ev)))
      | (store', Some (Err e)) \<Rightarrow> (store', Some (Err e)))"
  "lm_check_all (gcra_memory_limiter d) store cs =
     (case gcra_check_all_inner store (Some d) (\<lambda>_. 0) cs of
        (store', None) \<Rightarrow> (store', None)
      | (store', Some (Ok ev)) \<Rightarrow> (store', Some (Ok (ev_value ev)))
      | (store', Some (Err e)) \<Rightarrow> (store', Some (Err e)))"
  by (auto simp: gcra_memory_limiter_def gs_check_def gs_check_all_def split: prod.split option.split sum.split)

lemma g_uncharged_kept:
  assumes "\<And>k. g_step_ok tab store (as_millis d) cs k store' 0" "\<forall>c \<in> set cs. gc_ok tab c"
  shows "gs_kept tab d store store'"
proof -
  have "chk_cost c \<noteq> 0" if "c \<in> set cs" for c
    using assms(2) that gcheck_bounds [of c] by (simp add: gc_ok_def)
  then have "g_key_effect store (as_millis d) [] k store' 0" if "g_key_effect store (as_millis d) cs k store' 0" for k
    using that by (fastforce simp: g_key_effect_def)
  then show ?thesis using assms(1) by (simp add: gs_spent_def g_step_ok_def)
qed

lemma gs_check_cases:
  assumes u: "gs_usable tab d store" and c: "gc_ok tab c"
  obtains (decided) ev store' where "gcra_check_inner store (Some d) 0 c = (store', Some (Ok ev))"
      "decision_tells (gs_spent tab d [c] store store') (gs_kept tab d store store') (gcp_quota_mode (chk_policy c) = Shadow) (ev_value ev)"
  | (failed) e where "gcra_check_inner store (Some d) 0 c = (store, Some (Err e))"
proof -
  have u': "gs_ok tab store" "g_latest_le store (as_millis d)" "d \<le> duration_MAX" using u by (simp_all add: gs_usable_def)
  show thesis
  proof (cases "\<exists>e. gcra_check_inner store (Some d) 0 c = (store, Some (Err e))")
    case False
    then have "\<not> g_poisoned store (gkey c)" using gcra_check_inner_poisoned [OF u'(1), of c] by blast
    from gcra_check_inner_spec [OF u'(1) c u'(3) this, of 0] False obtain store' ev now where
      run: "gcra_check_inner store (Some d) 0 c = (store', Some (Ok ev))" and post: "g_checked tab store now c store' (ev_value ev)"
      by (auto split: sum.splits)
    have shadow: "gcp_quota_mode (chk_policy c) = Shadow" if "ev_value ev = Decision_shadow_denied q" for q
      using post that by (auto simp: g_checked_def g_denied_decision_def decision_con_defs Let_def split: if_splits)
    let ?charges = "case Decision_view (ev_value ev) of DV_Allowed _ \<Rightarrow> [(gkey c, chk_cost c)] | _ \<Rightarrow> []"
    have eff: "g_step_ok tab store (as_millis d) [c] k store' (charge_of k ?charges)" for k
      by (rule g_check_step [OF u' c]) (simp add: gs_step_def run)
    note kept = g_uncharged_kept [of tab store d "[c]" store']
    have "decision_tells (gs_spent tab d [c] store store') (gs_kept tab d store store') (gcp_quota_mode (chk_policy c) = Shadow) (ev_value ev)"
      using eff kept c shadow by (cases "ev_value ev" rule: decision_exhaust) (simp_all add: decision_tells_def gs_spent_def)
    with run show thesis by (rule decided)
  qed (use failed in blast)
qed

lemma gs_batch_cases:
  assumes u: "gs_usable tab d store" and valid_checks: "list_all (gc_ok tab) cs"
  obtains (decided) ev store' where "gcra_check_all_inner store (Some d) (\<lambda>_. 0) cs = (store', Some (Ok ev))"
      "batch_tells (gs_spent tab d cs store store') (gs_kept tab d store store') (length cs) (ev_value ev)"
  | (failed) e where "gcra_check_all_inner store (Some d) (\<lambda>_. 0) cs = (store, Some (Err e))"
proof -
  have u': "gs_ok tab store" "g_latest_le store (as_millis d)" "d \<le> duration_MAX" using u by (simp_all add: gs_usable_def)
  have cs: "\<forall>c \<in> set cs. gc_ok tab c" using valid_checks by (simp add: list_all_iff)
  show thesis
  proof (cases "\<exists>e. gcra_check_all_inner store (Some d) (\<lambda>_. 0) cs = (store, Some (Err e))")
    case False
    let ?bs = "gs_shards store"
    have "batch_ok GcraPolicy (max_batch_size (gs_config store)) cs"
      "\<forall>i. count_list (map (shard_index ?bs) (map gkey cs)) i \<le> shard_capacity (gs_config store) i"
      "\<not> touches_poisoned ?bs (map gkey cs)"
      using False gcra_check_all_inner_errors [OF u'(1), of cs "Some d" "\<lambda>_. 0"] by (meson not_le)+
    from gcra_check_all_inner_spec [OF u'(1) cs u'(3) this, of "\<lambda>_. 0"] False obtain now store' ev where
      run: "gcra_check_all_inner store (Some d) (\<lambda>_. 0) cs = (store', Some (Ok ev))" and
      post: "g_batch_denied store now cs store' (ev_value ev) \<or> g_batch_allowed store now cs store' (ev_value ev)" by blast
    let ?charges = "case BatchDecision_view (ev_value ev) of BV_Allowed _ \<Rightarrow> map (\<lambda>c. (gkey c, chk_cost c)) cs | _ \<Rightarrow> []"
    have eff: "g_step_ok tab store (as_millis d) cs k store' (charge_of k ?charges)" for k
      by (rule g_batch_step [OF u' cs]) (simp add: gs_step_def run)
    note kept = g_uncharged_kept [where store' = store', OF _ cs]
    from post have "batch_tells (gs_spent tab d cs store store') (gs_kept tab d store store') (length cs) (ev_value ev)"
    proof
      assume "g_batch_denied store now cs store' (ev_value ev)"
      then show ?thesis using eff kept
        by (auto simp: g_batch_denied_def g_stop_def Let_def batch_tells_def BatchDecision_view_def split: if_splits)
    next
      assume "g_batch_allowed store now cs store' (ev_value ev)"
      then show ?thesis using eff by (simp add: g_batch_allowed_def batch_tells_def BatchDecision_view_def gs_spent_def)
    qed
    with run show thesis by (rule decided)
  qed (use failed in blast)
qed

interpretation gcra_memory: limiter_contract gcra_memory_limiter gcp_quota_mode "gs_usable tab" "gc_ok tab" "gs_kept tab" "gs_spent tab"
    "\<lambda>_. NotConsumed" "\<lambda>_. NotConsumed" "\<lambda>e. GcraStoreError (InvalidBatch e)" for tab
proof (unfold_locales, goal_cases)
  case (1 d store)
  then show ?case by (rule gs_kept_refl)
next
  case (2 d store c)
  then show ?case by (cases rule: gs_check_cases [OF 2]) (auto simp: gcra_memory_limiter_simps)
next
  case (3 d store c)
  then show ?case by (cases rule: gs_check_cases [OF 3(1,2)]) (auto simp: gcra_memory_limiter_simps)
next
  case (4 d store c)
  then show ?case using gs_kept_refl [OF 4(1)]
    by (cases rule: gs_check_cases [OF 4(1,2)]) (auto simp: gcra_memory_limiter_simps error_tells_def)
next
  case (5 d store cs)
  then show ?case by (cases rule: gs_batch_cases [OF 5(1,2)]) (auto simp: gcra_memory_limiter_simps)
next
  case (6 d store cs)
  then show ?case by (cases rule: gs_batch_cases [OF 6(1,2)]) (auto simp: gcra_memory_limiter_simps)
next
  case (7 d store cs)
  then show ?case using gs_kept_refl [OF 7(1)]
    by (cases rule: gs_batch_cases [OF 7(1,2)]) (auto simp: gcra_memory_limiter_simps error_tells_def)
next
  case (8 d store)
  then show ?case using gs_kept_refl by (simp add: gcra_memory_limiter_simps gcra_check_all_inner_def validate_batch_def)
qed

end
