(* ===== verification/System_Clock.thy ===== *)
theory System_Clock
  imports Rust_Prelude
begin

text \<open>
  \<open>runlimit-memory/src/clock.rs\<close>: the clock of a memory store. A \<open>Clock\<close> is any source of readings; the stores take
  the reading of an operation as an argument. \<open>SystemClock\<close> measures from its creation; a reading of
  \<open>Instant::now()\<close> is an argument of its operations.
\<close>

record system_clock =
  sc_origin :: instant

definition SystemClock_new :: "instant \<Rightarrow> system_clock" where
  "SystemClock_new now = \<lparr>sc_origin = now\<rparr>"

text \<open>\<open>Instant::elapsed\<close>, which saturates at zero.\<close>

definition instant_elapsed :: "instant \<Rightarrow> instant \<Rightarrow> duration" where
  "instant_elapsed origin now = now - origin"

definition SystemClock_now :: "system_clock \<Rightarrow> instant \<Rightarrow> duration" where
  "SystemClock_now self now = instant_elapsed (sc_origin self) now"

lemma system_clock_mono: "i \<le> j \<Longrightarrow> SystemClock_now clock i \<le> SystemClock_now clock j"
  by (simp add: SystemClock_now_def instant_elapsed_def)

lemma system_clock_starts_at_zero: "SystemClock_now (SystemClock_new i) i = 0"
  by (simp add: SystemClock_now_def instant_elapsed_def SystemClock_new_def)

end
