(* ===== verification/Axum_Memory.thy ===== *)
theory Axum_Memory
  imports Axum_Limiter Memory_Limiters System_Clock
begin

text \<open>
  The Axum layer in front of the memory stores: requests served through \<open>RateLimitService::call\<close> with
  \<open>MemoryStore::check\<close> or \<open>GcraStore::check\<close> as its limiter, and the bound on how many of one subject's
  requests can reach the handler.
\<close>

section \<open>The fixed-window store\<close>

text \<open>Readings of a monotonic clock up to \<open>t1\<close>.\<close>

definition reading_ok :: "nat \<Rightarrow> nat \<Rightarrow> duration \<Rightarrow> bool" where
  "reading_ok t1 t d \<longleftrightarrow> t \<le> as_millis d \<and> as_millis d \<le> t1 \<and> d \<le> duration_MAX"

abbreviation readings_ok :: "nat \<Rightarrow> nat \<Rightarrow> (duration \<times> 'b request) list \<Rightarrow> bool" where
  "readings_ok t0 t1 \<equiv> arrivals_ok (reading_ok t1) (\<lambda>_. as_millis) t0"

definition fw_policy_ok :: "fixed_window_policy \<Rightarrow> bool" where
  "fw_policy_ok policy \<longleftrightarrow> capacity_ok (fwp_limit policy) \<and> period_ok (fwp_window policy)"

lemma subject_check_ok: "fw_policy_ok policy \<Longrightarrow> fw_check_ok (subject_check policy s)"
  by (simp add: fw_policy_ok_def fw_check_ok_def check_ok_def FixedWindowPolicy_def capacity_ok_def)

interpretation axum_memory: metered_limiter memory_limiter fwp_quota_mode ms_usable fw_check_ok ms_kept ms_spent
    "\<lambda>_. NotConsumed" "\<lambda>_. NotConsumed" InvalidBatch "reading_ok t1" "\<lambda>_. as_millis" "\<lambda>t store. ms_ok store \<and> latest_le store t"
    "\<lambda>t store. fw_potential L W t1 t (bs_live (ms_shards store) t k)" "\<lambda>c. fw_op_ok k L W (Do_Check c)"
    "\<lambda>c. if fkey c = k then chk_cost c else 0" for k L W t1
proof (unfold_locales, goal_cases)
  case (1 t store d)
  then show ?case by (auto simp: reading_ok_def ms_usable_def latest_le_def)
next
  case (2 t store d store')
  then show ?case using potential_advance [of t "as_millis d" t1 L W "ms_shards store" k]
    by (simp add: reading_ok_def ms_kept_def)
next
  case (3 t store d c store')
  have "(if fkey c = k then chk_cost c else 0) + fw_potential L W t1 (as_millis d) (bs_live (ms_shards store') (as_millis d) k)
      \<le> fw_potential L W t1 (as_millis d) (bs_live (ms_shards store) (as_millis d) k)"
    using 3 potential_effect [of store "as_millis d" "[c]" k store' "if fkey c = k then chk_cost c else 0" t1 L W]
    by (simp add: reading_ok_def fw_op_ok_def ms_spent_def)
  then show ?case using 3 potential_advance [of t "as_millis d" t1 L W "ms_shards store" k]
    by (simp add: reading_ok_def ms_spent_def)
qed

lemma served_window_bound:
  assumes "ms_ok store" "latest_le store t0" "readings_ok t0 t1 rs"
    and "fw_policy_ok policy" "fwp_quota_mode policy = Enforce"
  shows "served FixedWindowPolicy memory_limiter policy extractor reject response s store rs \<le>
    (case bs_live (ms_shards store) t0 (chk_counter_key FixedWindowPolicy (subject_check policy s)) of
       None \<Rightarrow> 0 | Some (v, e) \<Rightarrow> capacity_get (fwp_limit policy) - fe_used v) +
    capacity_get (fwp_limit policy) * (1 + (t1 - t0) div period_millis (fwp_window policy))"
proof -
  let ?k = "fkey (subject_check policy s)" and ?L = "capacity_get (fwp_limit policy)" and ?W = "period_millis (fwp_window policy)"
  note valid = subject_check_ok [OF assms(4)]
  have "served FixedWindowPolicy memory_limiter policy extractor reject response s store rs * 1 \<le>
      fw_potential ?L ?W t1 t0 (bs_live (ms_shards store) t0 ?k)"
    using axum_memory.served_metered [where k = ?k and L = ?L and W = ?W and s = s, OF _ assms(5) conjI [OF assms(1,2)] assms(3)] valid
    by (simp add: fw_op_ok_def)
  then show ?thesis using potential_bound [of ?L ?W t1 t0 "ms_shards store" ?k] by simp
qed

text \<open>Readings that \<open>SystemClock\<close> takes at instants of a monotonic clock.\<close>

abbreviation clocked :: "system_clock \<Rightarrow> (instant \<times> 'b request) list \<Rightarrow> (duration \<times> 'b request) list" where
  "clocked clock \<equiv> map (\<lambda>(i, request). (SystemClock_now clock i, request))"

lemma system_clock_readings:
  "sorted (map fst rs) \<Longrightarrow> \<forall>(i, _) \<in> set rs. t0 \<le> as_millis (SystemClock_now clock i) \<and> SystemClock_now clock i \<le> d \<Longrightarrow>
   d \<le> duration_MAX \<Longrightarrow> readings_ok t0 (as_millis d) (clocked clock rs)"
proof (induction rs arbitrary: t0)
  case (Cons x rs)
  obtain i request where x: "x = (i, request)" by (cases x)
  let ?now = "as_millis (SystemClock_now clock i)"
  have mono: "as_millis a \<le> as_millis b" if "a \<le> b" for a b using that by (simp add: as_millis_def div_le_mono)
  have "readings_ok ?now (as_millis d) (clocked clock rs)"
    using Cons.prems x mono system_clock_mono by (intro Cons.IH) fastforce+
  moreover have "reading_ok (as_millis d) t0 (SystemClock_now clock i)"
    using Cons.prems x mono by (auto simp: reading_ok_def)
  ultimately show ?case using x by simp
qed simp

text \<open>A store with its default clock: from its creation at \<open>i0\<close> on, over \<open>d\<close> nanoseconds.\<close>

lemma axum_system_clock:
  assumes "config_ok config" "sorted (map fst rs)" "\<forall>(i, _) \<in> set rs. i0 \<le> i \<and> i \<le> i0 + d" "d \<le> duration_MAX"
    and "fw_policy_ok policy" "fwp_quota_mode policy = Enforce"
  shows "served FixedWindowPolicy memory_limiter policy extractor reject response s (MemoryStore_new config)
      (clocked (SystemClock_new i0) rs) \<le>
    capacity_get (fwp_limit policy) * (1 + as_millis d div period_millis (fwp_window policy))"
proof -
  have "readings_ok 0 (as_millis d) (clocked (SystemClock_new i0) rs)"
    using assms(2-4) by (intro system_clock_readings) (auto simp: SystemClock_now_def SystemClock_new_def instant_elapsed_def)
  from served_window_bound [OF new_store_ok [OF assms(1)] new_store_latest this assms(5,6), of extractor reject response s]
  show ?thesis by (simp add: new_store_live [OF assms(1)])
qed

section \<open>The GCRA store\<close>

definition gcra_policy_ok :: "rate_table \<Rightarrow> gcra_policy \<Rightarrow> bool" where
  "gcra_policy_ok tab policy \<longleftrightarrow> (\<forall>s. gc_ok tab (subject_check policy s))"

interpretation axum_gcra: metered_limiter gcra_memory_limiter gcp_quota_mode "gs_usable tab" "gc_ok tab" "gs_kept tab" "gs_spent tab"
    "\<lambda>_. NotConsumed" "\<lambda>_. NotConsumed" "\<lambda>e. GcraStoreError (InvalidBatch e)" "reading_ok t1" "\<lambda>_. as_millis"
    "\<lambda>t store. gs_ok tab store \<and> g_latest_le store t \<and> 0 < rate_q tab k" "\<lambda>t store. g_credit tab k t1 store t" "\<lambda>_. True"
    "\<lambda>c. if gkey c = k then chk_cost c * rate_p tab k else 0" for tab k t1
proof (unfold_locales, goal_cases)
  case (1 t store d)
  then show ?case by (auto simp: reading_ok_def gs_usable_def g_latest_le_def)
next
  case (2 t store d store')
  then have "g_step_ok tab store (as_millis d) [] k store' 0" by (simp add: gs_spent_def)
  then show ?case using 2 g_credit_pays [of tab store "as_millis d" "[]" k store' 0 t1] g_credit_later [of tab store t k "as_millis d" t1]
    by (simp add: reading_ok_def g_step_ok_def)
next
  case (3 t store d c store')
  then have "g_step_ok tab store (as_millis d) [c] k store' (if gkey c = k then chk_cost c else 0)" by (simp add: gs_spent_def)
  then show ?case using 3 g_credit_later [of tab store t k "as_millis d" t1]
      g_credit_pays [of tab store "as_millis d" "[c]" k store' "if gkey c = k then chk_cost c else 0" t1]
    by (simp add: reading_ok_def g_step_ok_def split: if_splits)
qed

section \<open>Properties\<close>

text \<open>
  C24: the layer enforces the limit of an enforcing policy (one in shadow mode only observes and permits
  every request) at the handler: over any sequence of requests at readings of a monotonic clock between
  \<open>t\<^sub>0\<close> and \<open>t\<^sub>1\<close>, whatever the application extracts from them and whatever else is stored, the handler runs for one subject at most as often as the window in force at \<open>t\<^sub>0\<close> still
  allows plus one full limit for every window that can start in that time.
\<close>

theorem axum_memory_end_to_end:
  assumes "ms_ok store" "latest_le store t0" "readings_ok t0 t1 rs"
    and "fw_policy_ok policy" "fwp_quota_mode policy = Enforce"
  shows "served FixedWindowPolicy memory_limiter policy extractor reject response s store rs \<le>
    (case bs_live (ms_shards store) t0 (chk_counter_key FixedWindowPolicy (subject_check policy s)) of
       None \<Rightarrow> 0 | Some (v, e) \<Rightarrow> capacity_get (fwp_limit policy) - fe_used v) +
    capacity_get (fwp_limit policy) * (1 + (t1 - t0) div period_millis (fwp_window policy))"
  by (rule served_window_bound [OF assms])

text \<open>Ten requests of one subject within one window, on a new store and with a limit of eight.\<close>

theorem axum_memory_end_to_end_witness:
  "served FixedWindowPolicy memory_limiter (fwp_with_quota_mode Enforce (sample_fwp (take 32) 8))
     (\<lambda>_ _. Ok (SubjectKey [7]) :: (unit, subject_key) result) (\<lambda>_. ()) () (SubjectKey [7]) (MemoryStore_new sample_config)
     (map (\<lambda>i. (from_millis i, \<lparr>rq_content = (), rq_admissions = None\<rparr>)) [0, 1, 2, 3, 4, 5, 6, 7, 8, 9]) \<le> 8"
proof -
  let ?p = "fwp_with_quota_mode Enforce (sample_fwp (take 32) 8)"
  let ?rs = "map (\<lambda>i. (from_millis i, \<lparr>rq_content = (), rq_admissions = None\<rparr>)) [0, 1, 2, 3, 4, 5, 6, 7, 8, 9]"
  have "readings_ok 0 9 ?rs" by (simp add: reading_ok_def duration_MAX_def) (simp add: rust_defs)
  moreover have "fw_policy_ok ?p" "fwp_quota_mode ?p = Enforce"
    by (simp_all add: fw_policy_ok_def fwp_with_quota_mode_def sample_fwp_def small_values_ok)
  moreover have "capacity_get (fwp_limit ?p) = 8" "period_millis (fwp_window ?p) = 60000"
    by (simp_all add: fwp_with_quota_mode_def sample_fwp_def)
  ultimately show ?thesis
    using axum_memory_end_to_end [OF sample_new_ok new_store_latest [of sample_config 0], of 9 ?rs ?p
        "\<lambda>_ _. Ok (SubjectKey [7]) :: (unit, subject_key) result" "\<lambda>_. ()" "()" "SubjectKey [7]"]
    by (simp add: new_store_live [OF sample_config_ok])
qed

text \<open>
  The layer enforces the rate of an enforcing policy of the GCRA store at the handler: over any sequence of requests at readings of
  a monotonic clock between \<open>t\<^sub>0\<close> and \<open>t\<^sub>1\<close>, the handler runs for one subject at most
  \<open>burst + quota * elapsed / period\<close> times.
\<close>

theorem axum_gcra_end_to_end:
  assumes "gs_ok tab store" "g_latest_le store t0" "readings_ok t0 t1 rs"
    and "gcra_policy_ok tab policy" "gcp_quota_mode policy = Enforce"
  shows "served GcraPolicy gcra_memory_limiter policy extractor reject response s store rs * period_millis (gcp_period policy) \<le>
    capacity_get (gcp_burst_capacity policy) * period_millis (gcp_period policy) + (t1 - t0) * capacity_get (gcp_quota policy)"
proof -
  let ?c = "subject_check policy s"
  let ?k = "gkey ?c"
  have valid: "gc_ok tab (subject_check policy s)" for s using assms(4) by (simp add: gcra_policy_ok_def)
  have rate: "rate_q tab ?k = capacity_get (gcp_quota policy)" "rate_p tab ?k = period_millis (gcp_period policy)"
    "rate_b tab ?k = capacity_get (gcp_burst_capacity policy)"
    using rate_of [OF valid [of s]] by (simp_all add: gq_def gp_def gb_def)
  have "0 < rate_q tab ?k" using valid [of s] gcheck_bounds [of ?c] rate_of [OF valid [of s]] by (simp add: gc_ok_def)
  then have "served GcraPolicy gcra_memory_limiter policy extractor reject response s store rs * rate_p tab ?k \<le> g_credit tab ?k t1 store t0"
    using axum_gcra.served_metered [where k = ?k and s = s, OF _ assms(5) _ assms(3), where w = store and tab = tab and extractor = extractor and P = GcraPolicy]
      valid assms(1,2) by simp
  from order_trans [OF this g_credit_bound] show ?thesis unfolding rate .
qed

theorem axum_gcra_end_to_end_witness:
  "served GcraPolicy gcra_memory_limiter sample_gcp (\<lambda>_ _. Ok (SubjectKey [7]) :: (unit, subject_key) result) (\<lambda>_. ()) ()
     (SubjectKey [7]) sample_gstore
     (map (\<lambda>i. (from_millis i, \<lparr>rq_content = (), rq_admissions = None\<rparr>)) [0, 1, 2, 3, 4, 5, 6, 7, 8, 9]) * 1000 \<le> 5090"
proof -
  let ?rs = "map (\<lambda>i. (from_millis i, \<lparr>rq_content = (), rq_admissions = None\<rparr>)) [0, 1, 2, 3, 4, 5, 6, 7, 8, 9]"
  have "readings_ok 0 9 ?rs" by (simp add: reading_ok_def duration_MAX_def) (simp add: rust_defs)
  moreover have "gcheck_ok (subject_check sample_gcp s)" for s
    by (rule gcheck_okI [of "take 32"]) (simp_all add: sample_gcp_ok check_ok_def, simp_all add: GcraPolicy_def sample_gcp_def)
  then have "gcra_policy_ok sample_tab sample_gcp" by (simp add: gcra_policy_ok_def gc_ok_def)
  moreover have "gcp_quota_mode sample_gcp = Enforce" by (simp add: sample_gcp_def)
  ultimately show ?thesis
    using axum_gcra_end_to_end [OF sample_gstore_facts(1) g_new_latest [of sample_config 0], of 9 ?rs sample_gcp
        "\<lambda>_ _. Ok (SubjectKey [7]) :: (unit, subject_key) result" "\<lambda>_. ()" "()" "SubjectKey [7]"]
    by (simp add: sample_gcp_def)
qed

end
