(* ===== verification/Postgres_Base.thy ===== *)
theory Postgres_Base
  imports Check_Batch Observation
begin

text \<open>
  The foundations of the Postgres backend: \<open>runlimit-postgres/src/config.rs\<close>, \<open>errors.rs\<close>, the
  functions of \<open>protocol.rs\<close>, and the connection outcomes of \<open>lib.rs\<close>. SHA-256 is a parameter. Of an
  error of the database driver only what the code looks at is kept: whether the server reported it,
  and with which SQLSTATE.
\<close>

section \<open>Configuration\<close>

definition CAPACITY_SHARD_COUNT :: nat where "CAPACITY_SHARD_COUNT = 256"
definition HARD_MAX_ROWS_PER_SHARD :: nat where "HARD_MAX_ROWS_PER_SHARD = 65536"

record postgres_config =
  pg_maximum_rows_per_shard :: nat
  pg_max_batch_size :: nat
  pg_pool_acquire_timeout :: duration
  pg_operation_timeout :: duration

datatype postgres_config_error =
    ZeroMaximumRowsPerShard
  | MaximumRowsPerShardTooLarge nat nat
  | PgZeroBatchSize
  | ZeroPoolAcquireTimeout
  | PoolAcquireTimeoutTooLong duration duration
  | ZeroOperationTimeout
  | OperationTimeoutTooLong duration duration

definition DEFAULT_MAXIMUM_ROWS_PER_SHARD :: nat where "DEFAULT_MAXIMUM_ROWS_PER_SHARD = 4096"
definition PG_DEFAULT_MAX_BATCH_SIZE :: nat where "PG_DEFAULT_MAX_BATCH_SIZE = 32"
definition DEFAULT_POOL_ACQUIRE_TIMEOUT :: duration where "DEFAULT_POOL_ACQUIRE_TIMEOUT = from_secs 3"
definition DEFAULT_OPERATION_TIMEOUT :: duration where "DEFAULT_OPERATION_TIMEOUT = from_secs 3"
definition MAXIMUM_POOL_ACQUIRE_TIMEOUT :: duration where "MAXIMUM_POOL_ACQUIRE_TIMEOUT = from_secs 60"
definition MAXIMUM_OPERATION_TIMEOUT :: duration where "MAXIMUM_OPERATION_TIMEOUT = from_secs 60"

definition PostgresConfig_new :: postgres_config where
  "PostgresConfig_new =
     \<lparr>pg_maximum_rows_per_shard = DEFAULT_MAXIMUM_ROWS_PER_SHARD, pg_max_batch_size = PG_DEFAULT_MAX_BATCH_SIZE,
      pg_pool_acquire_timeout = DEFAULT_POOL_ACQUIRE_TIMEOUT, pg_operation_timeout = DEFAULT_OPERATION_TIMEOUT\<rparr>"

definition with_maximum_rows_per_shard ::
    "nat \<Rightarrow> postgres_config \<Rightarrow> (postgres_config_error, postgres_config) result" where
  "with_maximum_rows_per_shard maximum self =
     (if maximum = 0 then Err ZeroMaximumRowsPerShard
      else if maximum > HARD_MAX_ROWS_PER_SHARD
      then Err (MaximumRowsPerShardTooLarge maximum HARD_MAX_ROWS_PER_SHARD)
      else Ok (self\<lparr>pg_maximum_rows_per_shard := maximum\<rparr>))"

definition pg_with_max_batch_size ::
    "nat \<Rightarrow> postgres_config \<Rightarrow> (postgres_config_error, postgres_config) result" where
  "pg_with_max_batch_size maximum self =
     (if maximum = 0 then Err PgZeroBatchSize else Ok (self\<lparr>pg_max_batch_size := maximum\<rparr>))"

definition with_pool_acquire_timeout ::
    "duration \<Rightarrow> postgres_config \<Rightarrow> (postgres_config_error, postgres_config) result" where
  "with_pool_acquire_timeout timeout self =
     (if is_zero timeout then Err ZeroPoolAcquireTimeout
      else if timeout > MAXIMUM_POOL_ACQUIRE_TIMEOUT
      then Err (PoolAcquireTimeoutTooLong timeout MAXIMUM_POOL_ACQUIRE_TIMEOUT)
      else Ok (self\<lparr>pg_pool_acquire_timeout := timeout\<rparr>))"

definition with_operation_timeout ::
    "duration \<Rightarrow> postgres_config \<Rightarrow> (postgres_config_error, postgres_config) result" where
  "with_operation_timeout timeout self =
     (if is_zero timeout then Err ZeroOperationTimeout
      else if timeout > MAXIMUM_OPERATION_TIMEOUT
      then Err (OperationTimeoutTooLong timeout MAXIMUM_OPERATION_TIMEOUT)
      else Ok (self\<lparr>pg_operation_timeout := timeout\<rparr>))"

text \<open>The Serde object; an omitted field is \<open>None\<close> and takes its default.\<close>

record postgres_config_wire =
  pcw_maximum_rows_per_shard :: "nat option"
  pcw_max_batch_size :: "nat option"
  pcw_pool_acquire_timeout :: "duration option"
  pcw_operation_timeout :: "duration option"

definition postgres_config_serialize :: "postgres_config \<Rightarrow> postgres_config_wire" where
  "postgres_config_serialize self =
     \<lparr>pcw_maximum_rows_per_shard = Some (pg_maximum_rows_per_shard self),
      pcw_max_batch_size = Some (pg_max_batch_size self),
      pcw_pool_acquire_timeout = Some (pg_pool_acquire_timeout self),
      pcw_operation_timeout = Some (pg_operation_timeout self)\<rparr>"

definition pg_or_default :: "'a \<Rightarrow> 'a option \<Rightarrow> 'a" where
  "pg_or_default d x = (case x of None \<Rightarrow> d | Some a \<Rightarrow> a)"

definition postgres_config_deserialize ::
    "postgres_config_wire \<Rightarrow> (postgres_config_error, postgres_config) result" where
  "postgres_config_deserialize wire =
     and_then (with_maximum_rows_per_shard
       (pg_or_default DEFAULT_MAXIMUM_ROWS_PER_SHARD (pcw_maximum_rows_per_shard wire)) PostgresConfig_new) (\<lambda>config.
     and_then (pg_with_max_batch_size (pg_or_default PG_DEFAULT_MAX_BATCH_SIZE (pcw_max_batch_size wire)) config) (\<lambda>config.
     and_then (with_pool_acquire_timeout
       (pg_or_default DEFAULT_POOL_ACQUIRE_TIMEOUT (pcw_pool_acquire_timeout wire)) config) (\<lambda>config.
     with_operation_timeout (pg_or_default DEFAULT_OPERATION_TIMEOUT (pcw_operation_timeout wire)) config)))"

section \<open>Errors\<close>

datatype sqlx_error = SqlxDatabase "string option" | SqlxOther

record storage_invariant_error =
  si_detail :: string
  si_source :: "sqlx_error option"

definition StorageInvariantError_semantic :: "string \<Rightarrow> storage_invariant_error" where
  "StorageInvariantError_semantic detail = \<lparr>si_detail = detail, si_source = None\<rparr>"

definition StorageInvariantError_decode :: "string \<Rightarrow> sqlx_error \<Rightarrow> storage_invariant_error" where
  "StorageInvariantError_decode detail source = \<lparr>si_detail = detail, si_source = Some source\<rparr>"

datatype check_phase =
    AcquiringConnection
  | BeginningTransaction
  | AcquiringLogicalKeyLocks
  | AcquiringCounterRowLocks
  | AcquiringCapacityShardLocks
  | PreflightingCounters
  | UpdatingCounters
  | PreparingCommit
  | StartingCommit

datatype cleanup_phase =
    CleanupAcquiringConnection
  | CleanupBeginningTransaction
  | CleanupConfiguringTimeouts
  | CleanupDeletingExpiredWindows
  | CleanupPreparingCommit
  | CleanupStartingCommit

datatype pg_check_error =
    DefinitelyNotConsumed sqlx_error
  | CommitOutcomeUnknown sqlx_error
  | TimedOutBeforeCommit check_phase
  | CommitTimedOut
  | StorageInvariant storage_invariant_error

definition storage_invariant :: "string \<Rightarrow> pg_check_error" where
  "storage_invariant detail = StorageInvariant (StorageInvariantError_semantic detail)"

definition storage_decode_invariant :: "string \<Rightarrow> sqlx_error \<Rightarrow> pg_check_error" where
  "storage_decode_invariant detail source = StorageInvariant (StorageInvariantError_decode detail source)"

definition CheckError_consumption :: "pg_check_error \<Rightarrow> consumption_status" where
  "CheckError_consumption self =
     (case self of
        CommitOutcomeUnknown _ \<Rightarrow> PossiblyConsumed
      | CommitTimedOut \<Rightarrow> PossiblyConsumed
      | DefinitelyNotConsumed _ \<Rightarrow> NotConsumed
      | TimedOutBeforeCommit _ \<Rightarrow> NotConsumed
      | StorageInvariant _ \<Rightarrow> NotConsumed)"

datatype batch_check_error = PgInvalidBatch batch_error | PgCheck pg_check_error

definition BatchCheckError_consumption :: "batch_check_error \<Rightarrow> consumption_status" where
  "BatchCheckError_consumption self =
     (case self of PgInvalidBatch _ \<Rightarrow> NotConsumed | PgCheck error \<Rightarrow> CheckError_consumption error)"

datatype maintenance_error =
    MaintenanceDatabase sqlx_error
  | MaintenanceTimedOutBeforeCommit cleanup_phase
  | MaintenanceCommitOutcomeUnknown sqlx_error
  | MaintenanceCommitTimedOut

definition may_have_removed_rows :: "maintenance_error \<Rightarrow> bool" where
  "may_have_removed_rows self =
     (case self of MaintenanceCommitOutcomeUnknown _ \<Rightarrow> True | MaintenanceCommitTimedOut \<Rightarrow> True | _ \<Rightarrow> False)"

section \<open>Protocol\<close>

definition ADVISORY_LOCK_DOMAIN :: "u8 list" where
  "ADVISORY_LOCK_DOMAIN = as_bytes (str ''runlimit/postgres-advisory-lock/v1'' @ [0])"

definition SERVER_TIMEOUT_GRACE :: duration where "SERVER_TIMEOUT_GRACE = from_millis 25"

definition is_server_timeout :: "sqlx_error \<Rightarrow> bool" where
  "is_server_timeout error =
     (case error of
        SqlxDatabase code \<Rightarrow> code = Some ''57014'' \<or> code = Some ''55P03''
      | SqlxOther \<Rightarrow> False)"

text \<open>\<open>now\<close> is the reading of \<open>Instant::now()\<close>.\<close>

definition remaining_server_timeout_settings :: "instant \<Rightarrow> instant \<Rightarrow> (rstr \<times> rstr) option" where
  "remaining_server_timeout_settings deadline now =
     (if deadline < now then None
      else
        let remaining_millis = as_millis (deadline - now);
            statement_millis = max (saturating_sub remaining_millis (as_millis SERVER_TIMEOUT_GRACE)) 1;
            lock_millis = max (saturating_sub statement_millis 1) 1
        in Some (decimal statement_millis @ str ''ms'', decimal lock_millis @ str ''ms''))"

text \<open>\<open>i64::from_be_bytes\<close>.\<close>

definition be_value :: "u8 list \<Rightarrow> nat" where
  "be_value bytes = foldl (\<lambda>n b. 256 * n + unat b) 0 bytes"

definition i64_from_be_bytes :: "u8 list \<Rightarrow> int" where
  "i64_from_be_bytes bytes = (if be_value bytes < 2 ^ 63 then int (be_value bytes) else int (be_value bytes) - 2 ^ 64)"

definition advisory_lock_id :: "(u8 list \<Rightarrow> u8 list) \<Rightarrow> counter_key \<Rightarrow> int" where
  "advisory_lock_id sha256 counter_key =
     i64_from_be_bytes (take 8 (sha256 (ADVISORY_LOCK_DOMAIN @ CounterKey_to_bytes counter_key)))"

definition capacity_shard :: "counter_key \<Rightarrow> nat" where
  "capacity_shard counter_key =
     unat (xor (fingerprint_bytes (ck_fingerprint counter_key) ! 0) (subject_bytes (ck_subject counter_key) ! 0))"

section \<open>Connection outcomes\<close>

datatype 'a connection_outcome = Reusable 'a | MustClose 'a

definition ConnectionOutcome_map :: "('a \<Rightarrow> 'b) \<Rightarrow> 'a connection_outcome \<Rightarrow> 'b connection_outcome" where
  "ConnectionOutcome_map f self =
     (case self of Reusable value \<Rightarrow> Reusable (f value) | MustClose value \<Rightarrow> MustClose (f value))"

text \<open>\<open>ConnectionCancellationGuard::finish\<close>: the result, and whether the socket is closed on drop.\<close>

definition guard_finish :: "'a connection_outcome \<Rightarrow> 'a \<times> bool" where
  "guard_finish outcome = (case outcome of Reusable result \<Rightarrow> (result, False) | MustClose result \<Rightarrow> (result, True))"

section \<open>Lemmas\<close>

lemma capacity_shard_less: "capacity_shard k < CAPACITY_SHARD_COUNT"
  unfolding capacity_shard_def CAPACITY_SHARD_COUNT_def
  using unsigned_less [where ?'a = nat, of "xor (fingerprint_bytes (ck_fingerprint k) ! 0) (subject_bytes (ck_subject k) ! 0)"] by simp

definition postgres_config_ok :: "postgres_config \<Rightarrow> bool" where
  "postgres_config_ok c \<longleftrightarrow>
     0 < pg_maximum_rows_per_shard c \<and> pg_maximum_rows_per_shard c \<le> HARD_MAX_ROWS_PER_SHARD \<and>
     0 < pg_max_batch_size c \<and>
     0 < pg_pool_acquire_timeout c \<and> pg_pool_acquire_timeout c \<le> MAXIMUM_POOL_ACQUIRE_TIMEOUT \<and>
     0 < pg_operation_timeout c \<and> pg_operation_timeout c \<le> MAXIMUM_OPERATION_TIMEOUT"

lemmas pg_config_defs = with_maximum_rows_per_shard_def pg_with_max_batch_size_def with_pool_acquire_timeout_def
  with_operation_timeout_def is_zero_def pg_or_default_def

lemmas pg_config_constants = DEFAULT_MAXIMUM_ROWS_PER_SHARD_def PG_DEFAULT_MAX_BATCH_SIZE_def
  DEFAULT_POOL_ACQUIRE_TIMEOUT_def DEFAULT_OPERATION_TIMEOUT_def MAXIMUM_POOL_ACQUIRE_TIMEOUT_def
  MAXIMUM_OPERATION_TIMEOUT_def HARD_MAX_ROWS_PER_SHARD_def

section \<open>Properties\<close>

text \<open>
  Every configuration Serde can produce is within the hard bounds of the backend, and a
  well-formed configuration survives its Serde form.
\<close>

theorem postgres_config_sound:
  assumes "postgres_config_deserialize wire = Ok c"
  shows "postgres_config_ok c \<and> postgres_config_deserialize (postgres_config_serialize c) = Ok c"
proof
  show ok: "postgres_config_ok c"
    using assms unfolding postgres_config_deserialize_def and_then_eq_Inr
    by (auto simp: pg_config_defs postgres_config_ok_def split: if_splits)
  then show "postgres_config_deserialize (postgres_config_serialize c) = Ok c"
    by (cases c) (simp add: postgres_config_deserialize_def postgres_config_serialize_def pg_config_defs
        postgres_config_ok_def)
qed

theorem postgres_config_sound_witness: "postgres_config_ok PostgresConfig_new"
proof -
  have "postgres_config_deserialize \<lparr>pcw_maximum_rows_per_shard = None, pcw_max_batch_size = None,
      pcw_pool_acquire_timeout = None, pcw_operation_timeout = None\<rparr> = Ok PostgresConfig_new"
    by (simp add: postgres_config_deserialize_def PostgresConfig_new_def pg_config_defs pg_config_constants rust_defs)
  from postgres_config_sound [OF this] show ?thesis by simp
qed

end
