(* ===== verification/Postgres_Admission.thy ===== *)
theory Postgres_Admission
  imports Postgres_Base
begin

text \<open>
  \<open>runlimit-postgres/src/admission.rs\<close> and the admission operations of \<open>lib.rs\<close>: how the client turns a
  batch of checks into SQL parameters, runs the phases of one transaction under a deadline, decodes the
  rows it gets back and decides. The server is the parameter \<open>sv\<close>: one operation per statement, each of
  which may be answered, cut off by the client's deadline, or fail. Rows are untrusted: every column is
  a decoding result. Timestamps are microseconds and durations nanoseconds; \<open>PgInterval::try_from\<close>, of
  the database driver, is the parameter \<open>to_interval\<close>.
\<close>

section \<open>Decisions\<close>

datatype pg_admission = PA_Allowed "allowance list" | PA_Denied nat denial | PA_ShadowDenied nat quota_denial

definition single_decision :: "pg_admission \<Rightarrow> (pg_check_error, decision) result" where
  "single_decision admission =
     (case admission of
        PA_Allowed allowances \<Rightarrow>
          (case allowances of
             [allowance] \<Rightarrow> Ok (Decision_allowed allowance)
           | _ \<Rightarrow> Err (storage_invariant ''single check returned a different number of allowances''))
      | PA_Denied index denial \<Rightarrow>
          if index = 0 then Ok (Decision_denied denial)
          else Err (storage_invariant ''single check denied an input other than its only check'')
      | PA_ShadowDenied index denial \<Rightarrow>
          if index = 0 then Ok (Decision_shadow_denied denial)
          else Err (storage_invariant ''single check denied an input other than its only check''))"

definition batch_decision_of :: "nat \<Rightarrow> pg_admission \<Rightarrow> (pg_check_error, batch_decision) result" where
  "batch_decision_of batch_size admission =
     (if (case admission of PA_Allowed allowances \<Rightarrow> length allowances \<noteq> batch_size | _ \<Rightarrow> False)
      then Err (storage_invariant ''allowed batch returned a different number of allowances than submitted checks'')
      else map_err (\<lambda>_. storage_invariant ''batch decision did not match the submitted batch'')
        (case admission of
           PA_Allowed allowances \<Rightarrow> BatchDecision_allowed allowances
         | PA_Denied index denial \<Rightarrow> BatchDecision_denied index batch_size denial
         | PA_ShadowDenied index denial \<Rightarrow> BatchDecision_shadow_denied index batch_size denial))"

section \<open>Parameters of the statements\<close>

type_synonym timestamp = int

record batch_sql_input =
  bi_policy_ids :: "rstr list"
  bi_scope_ids :: "rstr list"
  bi_fingerprints :: "u8 list list"
  bi_subjects :: "u8 list list"
  bi_capacity_shards :: "nat list"
  bi_lock_input_positions :: "nat list"
  bi_advisory_lock_ids :: "int list"
  bi_windows :: "int list"
  bi_costs :: "int list"
  bi_limits :: "int list"

definition database_integer :: "nat \<Rightarrow> int option" where
  "database_integer value = (if value < 2 ^ 63 then Some (int value) else None)"

definition BatchSqlInput_from_checks ::
    "(u8 list \<Rightarrow> u8 list) \<Rightarrow> (duration \<Rightarrow> int option) \<Rightarrow> fixed_window_policy check list \<Rightarrow> batch_sql_input option" where
  "BatchSqlInput_from_checks sha256 to_interval checks =
     (let counter_keys = map (chk_counter_key FixedWindowPolicy) checks;
          ordered_indices = sort_key (\<lambda>index. counter_keys ! index) [0..<length checks]
      in do {
        lock_input_positions \<leftarrow> those (map (\<lambda>index. map_option nat (database_integer (index + 1))) ordered_indices);
        windows \<leftarrow> those (map (\<lambda>check. to_interval (period_duration (fwp_window (chk_policy check)))) checks);
        costs \<leftarrow> those (map (\<lambda>check. database_integer (chk_cost check)) checks);
        limits \<leftarrow> those (map (\<lambda>check. database_integer (capacity_get (fwp_limit (chk_policy check)))) checks);
        Some \<lparr>bi_policy_ids = map (\<lambda>check. policy_id_str (fwp_id (chk_policy check))) checks,
          bi_scope_ids = map (\<lambda>check. scope_id_str (fwp_scope (chk_policy check))) checks,
          bi_fingerprints = map (\<lambda>k. fingerprint_bytes (ck_fingerprint k)) counter_keys,
          bi_subjects = map (\<lambda>k. subject_bytes (ck_subject k)) counter_keys,
          bi_capacity_shards = map capacity_shard counter_keys,
          bi_lock_input_positions = lock_input_positions,
          bi_advisory_lock_ids = remdups_adj (sort (map (advisory_lock_id sha256) counter_keys)),
          bi_windows = windows, bi_costs = costs, bi_limits = limits\<rparr>
      })"

section \<open>Pending outcomes\<close>

record pg_pending_allowance = pp_allowance :: allowance

definition PendingAllowance_new :: "capacity \<Rightarrow> nat \<Rightarrow> duration \<Rightarrow> (pg_check_error, pg_pending_allowance) result" where
  "PendingAllowance_new limit used reset_from_sample =
     (if used > capacity_get limit then Err (storage_invariant ''stored usage exceeds its policy limit'')
      else and_then (map_err (\<lambda>_. storage_invariant ''stored usage exceeds its policy limit'')
        (Allowance_new limit (capacity_get limit - used) reset_from_sample)) (\<lambda>allowance.
        Ok \<lparr>pp_allowance = allowance\<rparr>))"

definition PendingAllowance_finish :: "duration \<Rightarrow> pg_pending_allowance \<Rightarrow> allowance option" where
  "PendingAllowance_finish authoritative_elapsed self =
     expect (Allowance_new (alw_capacity (pp_allowance self)) (alw_available (pp_allowance self))
       (saturating_sub (delay_duration (alw_replenishes_after (pp_allowance self))) authoritative_elapsed))"

record pending_quota_denial =
  pq_limit :: capacity
  pq_retry_from_sample :: duration

definition PendingQuotaDenial_finish :: "duration \<Rightarrow> pending_quota_denial \<Rightarrow> quota_denial" where
  "PendingQuotaDenial_finish authoritative_elapsed self =
     QuotaDenial_new (pq_limit self) (saturating_sub (pq_retry_from_sample self) authoritative_elapsed)"

datatype pending_denial = PD_Quota pending_quota_denial | PD_StorageCapacity

definition PendingDenial_finish :: "duration \<Rightarrow> pending_denial \<Rightarrow> denial" where
  "PendingDenial_finish authoritative_elapsed self =
     (case self of
        PD_Quota denial \<Rightarrow> QuotaExceeded (PendingQuotaDenial_finish authoritative_elapsed denial)
      | PD_StorageCapacity \<Rightarrow> StorageCapacity None)"

datatype pending_batch_outcome = PB_Allowed "pg_pending_allowance list" | PB_Denied nat pending_denial

text \<open>\<open>signed_duration_since\<close> with \<open>to_std\<close>, which refuses a negative difference.\<close>

definition to_std :: "int \<Rightarrow> duration option" where
  "to_std micros = (if micros < 0 then None else Some (nat micros * 1000))"

definition authoritative_elapsed :: "timestamp \<Rightarrow> timestamp \<Rightarrow> duration" where
  "authoritative_elapsed start finish = (case to_std (finish - start) of None \<Rightarrow> 0 | Some d \<Rightarrow> d)"

definition duration_until :: "timestamp \<Rightarrow> timestamp \<Rightarrow> (pg_check_error, duration) result" where
  "duration_until expires_at database_now =
     ok_or (storage_invariant ''stored window is already expired'') (to_std (expires_at - database_now))"

section \<open>Decoding rows\<close>

type_synonym 'a decoded = "(sqlx_error, 'a) result"

definition try_get :: "string \<Rightarrow> 'a decoded \<Rightarrow> (pg_check_error, 'a) result" where
  "try_get detail column = map_err (storage_decode_invariant detail) column"

definition nonnegative :: "string \<Rightarrow> int \<Rightarrow> (pg_check_error, nat) result" where
  "nonnegative detail value = (if value < 0 then Err (storage_invariant detail) else Ok (nat value))"

record capacity_row =
  cr_input_index :: "int decoded"
  cr_capacity_shard :: "int decoded"
  cr_row_count :: "int option decoded"

fun capacity_loop ::
    "nat list \<Rightarrow> nat \<Rightarrow> nat list \<Rightarrow> capacity_row list \<Rightarrow> (pg_check_error, (nat \<times> pending_denial) option) result" where
  "capacity_loop capacity_shards maximum_rows_per_shard pending_insertions [] = Ok None"
| "capacity_loop capacity_shards maximum_rows_per_shard pending_insertions (row # rows) =
     and_then (try_get ''capacity preflight returned an undecodable input index'' (cr_input_index row)) (\<lambda>input_index.
     and_then (nonnegative ''capacity preflight returned an invalid input index'' input_index) (\<lambda>input_index.
     and_then (ok_or (storage_invariant ''capacity preflight returned an out-of-range input index'')
       (get_opt capacity_shards input_index)) (\<lambda>expected_shard.
     and_then (try_get ''capacity preflight returned an undecodable shard'' (cr_capacity_shard row)) (\<lambda>returned_shard.
     if returned_shard \<noteq> int expected_shard
     then Err (storage_invariant ''capacity preflight returned a mismatched shard'')
     else
     and_then (nonnegative ''capacity preflight returned a negative shard'' returned_shard) (\<lambda>shard_index.
     and_then (ok_or (storage_invariant ''capacity preflight returned an out-of-range shard'')
       (get_opt pending_insertions shard_index)) (\<lambda>pending.
     and_then (try_get ''capacity preflight returned an undecodable ledger count'' (cr_row_count row)) (\<lambda>stored_rows.
     and_then (ok_or (storage_invariant ''capacity shard ledger row is missing'') stored_rows) (\<lambda>stored_rows.
     and_then (nonnegative ''capacity shard ledger count is negative'' stored_rows) (\<lambda>stored_rows.
     and_then (ok_or (storage_invariant ''capacity shard ledger count overflowed'')
       (Option.bind (checked_add 64 stored_rows pending) (\<lambda>rows. checked_add 64 rows 1))) (\<lambda>projected_rows.
     if projected_rows > maximum_rows_per_shard then Ok (Some (input_index, PD_StorageCapacity))
     else capacity_loop capacity_shards maximum_rows_per_shard
       (pending_insertions[shard_index := pending + 1]) rows))))))))))"

record preflight_row =
  pr_database_now :: "timestamp decoded"
  pr_response_now :: "timestamp decoded"
  pr_input_index :: "int option decoded"
  pr_window_expires_at :: "timestamp option decoded"

record batch_preflight =
  bp_database_now :: timestamp
  bp_response_now :: timestamp
  bp_denial :: "(nat \<times> pending_denial) option"

definition preflight_denial ::
    "fixed_window_policy check list \<Rightarrow> timestamp \<Rightarrow> int option \<Rightarrow> timestamp option \<Rightarrow>
     (pg_check_error, (nat \<times> pending_denial) option) result" where
  "preflight_denial checks database_now denied_index denied_expiry =
     (case (denied_index, denied_expiry) of
        (Some input_index, Some expires_at) \<Rightarrow>
          and_then (nonnegative ''batch preflight returned an invalid input index'' input_index) (\<lambda>input_index.
          and_then (ok_or (storage_invariant ''batch preflight returned an out-of-range input index'')
            (get_opt checks input_index)) (\<lambda>check.
          and_then (duration_until expires_at database_now) (\<lambda>retry.
          Ok (Some (input_index, PD_Quota
            \<lparr>pq_limit = fwp_limit (chk_policy check), pq_retry_from_sample = retry\<rparr>)))))
      | (None, None) \<Rightarrow> Ok None
      | _ \<Rightarrow> Err (storage_invariant ''batch preflight returned an incomplete denial''))"

definition decode_preflight ::
    "fixed_window_policy check list \<Rightarrow> preflight_row \<Rightarrow> (pg_check_error, batch_preflight) result" where
  "decode_preflight checks row =
     and_then (try_get ''batch preflight returned an undecodable database time'' (pr_database_now row)) (\<lambda>database_now.
     and_then (try_get ''batch preflight returned an undecodable response time'' (pr_response_now row)) (\<lambda>response_now.
     and_then (try_get ''batch preflight returned an undecodable denial index'' (pr_input_index row)) (\<lambda>denied_index.
     and_then (try_get ''batch preflight returned an undecodable denial expiry'' (pr_window_expires_at row)) (\<lambda>denied_expiry.
     and_then (preflight_denial checks database_now denied_index denied_expiry) (\<lambda>denial.
     Ok \<lparr>bp_database_now = database_now, bp_response_now = response_now, bp_denial = denial\<rparr>)))))"

record upsert_row =
  ur_input_index :: "int decoded"
  ur_used :: "int decoded"
  ur_window_expires_at :: "timestamp decoded"
  ur_response_now :: "timestamp decoded"

definition read_used :: "upsert_row \<Rightarrow> (pg_check_error, nat) result" where
  "read_used row =
     and_then (try_get ''batch update returned undecodable usage'' (ur_used row)) (\<lambda>used.
     nonnegative ''stored usage is negative'' used)"

definition read_expiry :: "upsert_row \<Rightarrow> (pg_check_error, timestamp) result" where
  "read_expiry row = try_get ''batch update returned undecodable expiry'' (ur_window_expires_at row)"

fun upsert_loop ::
    "fixed_window_policy check list \<Rightarrow> timestamp \<Rightarrow> nat \<Rightarrow> upsert_row list \<Rightarrow>
     (pg_check_error, pg_pending_allowance list) result" where
  "upsert_loop checks database_now output_position [] = Ok []"
| "upsert_loop checks database_now output_position (row # rows) =
     and_then (try_get ''batch update returned an undecodable input index'' (ur_input_index row)) (\<lambda>input_index.
     and_then (nonnegative ''batch evaluation returned an invalid input index'' input_index) (\<lambda>input_index.
     and_then (ok_or (storage_invariant ''batch evaluation returned an out-of-range input index'')
       (get_opt checks input_index)) (\<lambda>check.
     and_then (read_expiry row) (\<lambda>expires_at.
     and_then (duration_until expires_at database_now) (\<lambda>remaining_from_sample.
     if input_index \<noteq> output_position
     then Err (storage_invariant ''allowed batch decisions were not returned in caller order'')
     else
     and_then (read_used row) (\<lambda>used.
     and_then (PendingAllowance_new (fwp_limit (chk_policy check)) used remaining_from_sample) (\<lambda>allowance.
     and_then (upsert_loop checks database_now (Suc output_position) rows) (\<lambda>allowances.
     Ok (allowance # allowances)))))))))"

definition decode_upsert ::
    "fixed_window_policy check list \<Rightarrow> timestamp \<Rightarrow> upsert_row list \<Rightarrow>
     (pg_check_error, pg_pending_allowance list \<times> timestamp) result" where
  "decode_upsert checks database_now rows =
     (case rows of
        [] \<Rightarrow> Err (storage_invariant ''allowed batch update returned no decisions'')
      | row # _ \<Rightarrow>
          and_then (try_get ''batch update returned an undecodable response time'' (ur_response_now row)) (\<lambda>response_now.
          and_then (upsert_loop checks database_now 0 rows) (\<lambda>allowances.
          if length allowances \<noteq> length checks
          then Err (storage_invariant ''allowed batch returned an incomplete decision set'')
          else Ok (allowances, response_now))))"

section \<open>The server and the transaction\<close>

datatype 'a answer = Answered 'a | TimedOut | Failed sqlx_error

record 'w pg_server =
  sv_now :: "'w \<Rightarrow> 'w \<times> instant"
  sv_acquire :: "duration \<Rightarrow> 'w \<Rightarrow> 'w \<times> unit answer"
  sv_begin :: "'w \<Rightarrow> 'w \<times> unit answer"
  sv_set_timeouts :: "rstr \<times> rstr \<Rightarrow> 'w \<Rightarrow> 'w \<times> unit answer"
  sv_advisory_locks :: "int list \<Rightarrow> 'w \<Rightarrow> 'w \<times> unit answer"
  sv_row_locks :: "batch_sql_input \<Rightarrow> 'w \<Rightarrow> 'w \<times> unit answer"
  sv_capacity_locks :: "batch_sql_input \<Rightarrow> 'w \<Rightarrow> 'w \<times> capacity_row list answer"
  sv_preflight :: "batch_sql_input \<Rightarrow> 'w \<Rightarrow> 'w \<times> preflight_row answer"
  sv_upsert :: "batch_sql_input \<Rightarrow> timestamp \<Rightarrow> 'w \<Rightarrow> 'w \<times> upsert_row list answer"
  sv_cleanup :: "nat \<Rightarrow> 'w \<Rightarrow> 'w \<times> nat answer"
  sv_commit :: "'w \<Rightarrow> 'w \<times> unit answer"
  sv_rollback :: "'w \<Rightarrow> 'w \<times> unit answer"
  sv_release :: "bool \<Rightarrow> 'w \<Rightarrow> 'w"

text \<open>An asynchronous step: it changes the world and returns, fails, or panics (\<open>None\<close>).\<close>

type_synonym ('w, 'f, 'a) step = "'w \<Rightarrow> 'w \<times> ('f, 'a) result option"

definition and_await :: "('w, 'f, 'a) step \<Rightarrow> ('a \<Rightarrow> ('w, 'f, 'b) step) \<Rightarrow> ('w, 'f, 'b) step" where
  "and_await m f w =
     (case m w of
        (w, None) \<Rightarrow> (w, None)
      | (w, Some (Err e)) \<Rightarrow> (w, Some (Err e))
      | (w, Some (Ok a)) \<Rightarrow> f a w)"

definition ready_result :: "('f, 'a) result \<Rightarrow> ('w, 'f, 'a) step" where "ready_result r w = (w, Some r)"

type_synonym failure = "pg_check_error connection_outcome"

definition reusable_check_error :: "pg_check_error \<Rightarrow> failure" where
  "reusable_check_error error = Reusable error"

definition map_check_database_error :: "sqlx_error \<Rightarrow> check_phase \<Rightarrow> pg_check_error" where
  "map_check_database_error error phase =
     (if is_server_timeout error then TimedOutBeforeCommit phase else DefinitelyNotConsumed error)"

definition check_before_commit :: "check_phase \<Rightarrow> ('w \<Rightarrow> 'w \<times> 'a answer) \<Rightarrow> ('w, failure, 'a) step" where
  "check_before_commit phase future w =
     (case future w of
        (w, TimedOut) \<Rightarrow> (w, Some (Err (MustClose (TimedOutBeforeCommit phase))))
      | (w, Failed error) \<Rightarrow> (w, Some (Err (Reusable (map_check_database_error error phase))))
      | (w, Answered value) \<Rightarrow> (w, Some (Ok value)))"

definition set_check_server_timeouts :: "'w pg_server \<Rightarrow> instant \<Rightarrow> check_phase \<Rightarrow> ('w, failure, unit) step" where
  "set_check_server_timeouts sv deadline phase w =
     (let (w, now) = sv_now sv w in
      case remaining_server_timeout_settings deadline now of
        None \<Rightarrow> (w, Some (Err (Reusable (TimedOutBeforeCommit phase))))
      | Some settings \<Rightarrow> check_before_commit phase (sv_set_timeouts sv settings) w)"

text \<open>\<open>CheckTransaction::execute\<close>, \<open>fetch_all\<close> and \<open>fetch_one\<close>: fresh server timeouts, then the statement.\<close>

definition tx_execute ::
    "'w pg_server \<Rightarrow> instant \<Rightarrow> check_phase \<Rightarrow> ('w \<Rightarrow> 'w \<times> 'a answer) \<Rightarrow> ('w, failure, 'a) step" where
  "tx_execute sv deadline phase query =
     and_await (set_check_server_timeouts sv deadline phase) (\<lambda>_. check_before_commit phase query)"

definition commit_check :: "'w pg_server \<Rightarrow> instant \<Rightarrow> ('w, failure, unit) step" where
  "commit_check sv deadline w =
     (let (w, now) = sv_now sv w in
      if now \<ge> deadline then (w, Some (Err (Reusable (TimedOutBeforeCommit StartingCommit))))
      else case sv_commit sv w of
        (w, TimedOut) \<Rightarrow> (w, Some (Err (MustClose CommitTimedOut)))
      | (w, Failed error) \<Rightarrow> (w, Some (Err (Reusable (CommitOutcomeUnknown error))))
      | (w, Answered _) \<Rightarrow> (w, Some (Ok ())))"

definition tx_commit :: "'w pg_server \<Rightarrow> instant \<Rightarrow> ('w, failure, unit) step" where
  "tx_commit sv deadline =
     and_await (set_check_server_timeouts sv deadline PreparingCommit) (\<lambda>_. commit_check sv deadline)"

definition finish_denied_transaction :: "'w pg_server \<Rightarrow> 'd \<Rightarrow> ('w, failure, 'd connection_outcome) step" where
  "finish_denied_transaction sv decision w =
     (case sv_rollback sv w of
        (w, Answered _) \<Rightarrow> (w, Some (Ok (Reusable decision)))
      | (w, _) \<Rightarrow> (w, Some (Ok (MustClose decision))))"

definition first_capacity_denial ::
    "'w pg_server \<Rightarrow> instant \<Rightarrow> batch_sql_input \<Rightarrow> nat \<Rightarrow> ('w, failure, (nat \<times> pending_denial) option) step" where
  "first_capacity_denial sv deadline input maximum_rows_per_shard =
     and_await (tx_execute sv deadline AcquiringCapacityShardLocks (sv_capacity_locks sv input)) (\<lambda>rows.
     ready_result (map_err reusable_check_error
       (capacity_loop (bi_capacity_shards input) maximum_rows_per_shard (replicate CAPACITY_SHARD_COUNT 0) rows)))"

definition preflight_batch ::
    "'w pg_server \<Rightarrow> instant \<Rightarrow> batch_sql_input \<Rightarrow> fixed_window_policy check list \<Rightarrow> ('w, failure, batch_preflight) step" where
  "preflight_batch sv deadline input checks =
     and_await (tx_execute sv deadline PreflightingCounters (sv_preflight sv input)) (\<lambda>row.
     ready_result (map_err reusable_check_error (decode_preflight checks row)))"

definition upsert_batch ::
    "'w pg_server \<Rightarrow> instant \<Rightarrow> batch_sql_input \<Rightarrow> fixed_window_policy check list \<Rightarrow> timestamp \<Rightarrow>
     ('w, failure, pg_pending_allowance list \<times> timestamp) step" where
  "upsert_batch sv deadline input checks database_now =
     and_await (tx_execute sv deadline UpdatingCounters (sv_upsert sv input database_now)) (\<lambda>rows.
     ready_result (map_err reusable_check_error (decode_upsert checks database_now rows)))"

definition first_denial_of ::
    "(nat \<times> pending_denial) option \<Rightarrow> (nat \<times> pending_denial) option \<Rightarrow> (nat \<times> pending_denial) option" where
  "first_denial_of capacity_denial quota_denial =
     (case (capacity_denial, quota_denial) of
        (Some capacity, Some quota) \<Rightarrow> Some (if fst capacity < fst quota then capacity else quota)
      | (Some capacity, None) \<Rightarrow> Some capacity
      | (None, Some quota) \<Rightarrow> Some quota
      | (None, None) \<Rightarrow> None)"

definition execute_batch ::
    "'w pg_server \<Rightarrow> instant \<Rightarrow> batch_sql_input \<Rightarrow> fixed_window_policy check list \<Rightarrow> nat \<Rightarrow>
     ('w, failure, pending_batch_outcome \<times> duration) step" where
  "execute_batch sv deadline input checks maximum_rows_per_shard =
     and_await (first_capacity_denial sv deadline input maximum_rows_per_shard) (\<lambda>capacity_denial.
     and_await (preflight_batch sv deadline input checks) (\<lambda>preflight.
     case first_denial_of capacity_denial (bp_denial preflight) of
       Some (index, denial) \<Rightarrow>
         ready_result (Ok (PB_Denied index denial,
           authoritative_elapsed (bp_database_now preflight) (bp_response_now preflight)))
     | None \<Rightarrow>
         and_await (upsert_batch sv deadline input checks (bp_database_now preflight)) (\<lambda>(allowances, response_now).
         ready_result (Ok (PB_Allowed allowances,
           authoritative_elapsed (bp_database_now preflight) response_now)))))"

definition denied_admission :: "fixed_window_policy check list \<Rightarrow> duration \<Rightarrow> nat \<Rightarrow> pending_denial \<Rightarrow> pg_admission option" where
  "denied_admission checks elapsed index denial =
     do {
       first \<leftarrow> get_opt checks 0;
       Some (case (denial, fwp_quota_mode (chk_policy first)) of
          (PD_Quota denial, Shadow) \<Rightarrow> PA_ShadowDenied index (PendingQuotaDenial_finish elapsed denial)
        | (denial, _) \<Rightarrow> PA_Denied index (PendingDenial_finish elapsed denial))
     }"

definition run_check_transaction_inner ::
    "'w pg_server \<Rightarrow> batch_sql_input \<Rightarrow> fixed_window_policy check list \<Rightarrow> nat \<Rightarrow> instant \<Rightarrow>
     (pg_admission \<Rightarrow> (pg_check_error, 'd) result) \<Rightarrow> ('w, failure, 'd connection_outcome) step" where
  "run_check_transaction_inner sv input checks maximum_rows_per_shard deadline build =
     and_await (check_before_commit BeginningTransaction (sv_begin sv)) (\<lambda>_.
     and_await (tx_execute sv deadline AcquiringLogicalKeyLocks (sv_advisory_locks sv (bi_advisory_lock_ids input))) (\<lambda>_.
     and_await (tx_execute sv deadline AcquiringCounterRowLocks (sv_row_locks sv input)) (\<lambda>_.
     and_await (execute_batch sv deadline input checks maximum_rows_per_shard) (\<lambda>(pending, elapsed).
     case pending of
       PB_Denied index denial \<Rightarrow>
         (\<lambda>w. case denied_admission checks elapsed index denial of
            None \<Rightarrow> (w, None)
          | Some admission \<Rightarrow>
              (case build admission of
                 Err error \<Rightarrow> (w, Some (Err (reusable_check_error error)))
               | Ok decision \<Rightarrow> finish_denied_transaction sv decision w))
     | PB_Allowed allowances \<Rightarrow>
         (\<lambda>w. case those (map (PendingAllowance_finish elapsed) allowances) of
            None \<Rightarrow> (w, None)
          | Some allowances \<Rightarrow>
              (case build (PA_Allowed allowances) of
                 Err error \<Rightarrow> (w, Some (Err (reusable_check_error error)))
               | Ok decision \<Rightarrow>
                   and_await (tx_commit sv deadline) (\<lambda>_. ready_result (Ok (Reusable decision))) w))))))"

definition acquire_check_connection :: "'w pg_server \<Rightarrow> duration \<Rightarrow> ('w, pg_check_error, unit) step" where
  "acquire_check_connection sv acquire_timeout w =
     (case sv_acquire sv acquire_timeout w of
        (w, TimedOut) \<Rightarrow> (w, Some (Err (TimedOutBeforeCommit AcquiringConnection)))
      | (w, Failed error) \<Rightarrow> (w, Some (Err (DefinitelyNotConsumed error)))
      | (w, Answered _) \<Rightarrow> (w, Some (Ok ())))"

text \<open>The life of an operation, shared by every limiter of the crate: a connection, a fresh deadline, the
  transaction, and the connection's return or its closing. Dropping the connection, whether reused,
  closed, or unwound by a panic, ends the transaction.\<close>

definition run_guarded ::
    "'w pg_server \<Rightarrow> postgres_config \<Rightarrow> (instant \<Rightarrow> ('w, failure, 'd connection_outcome) step) \<Rightarrow> ('w, pg_check_error, 'd) step" where
  "run_guarded sv config inner =
     and_await (acquire_check_connection sv (pg_pool_acquire_timeout config)) (\<lambda>_ w.
       let (w, now) = sv_now sv w;
           deadline = now + pg_operation_timeout config
       in case inner deadline w of
            (w, None) \<Rightarrow> (sv_release sv True w, None)
          | (w, Some result) \<Rightarrow>
              (let (result, close) = guard_finish
                 (case result of Ok outcome \<Rightarrow> ConnectionOutcome_map Ok outcome | Err outcome \<Rightarrow> ConnectionOutcome_map Err outcome)
               in (sv_release sv close w, Some result)))"

definition run_checks ::
    "(u8 list \<Rightarrow> u8 list) \<Rightarrow> (duration \<Rightarrow> int option) \<Rightarrow> 'w pg_server \<Rightarrow> postgres_config \<Rightarrow>
     fixed_window_policy check list \<Rightarrow> (pg_admission \<Rightarrow> (pg_check_error, 'd) result) \<Rightarrow> ('w, pg_check_error, 'd) step" where
  "run_checks sha256 to_interval sv config checks build w =
     (case BatchSqlInput_from_checks sha256 to_interval checks of
        None \<Rightarrow> (w, None)
      | Some input \<Rightarrow>
          run_guarded sv config
            (\<lambda>deadline. run_check_transaction_inner sv input checks (pg_maximum_rows_per_shard config) deadline build) w)"

section \<open>The public operations\<close>

definition pg_check where
  "pg_check observer ost sha256 to_interval sv config elapsed check w =
     (case run_checks sha256 to_interval sv config [check] single_decision w of
        (w, None) \<Rightarrow> (ost, w, None)
      | (w, Some (Ok decision)) \<Rightarrow>
          (notify observer [Obs_Admission (from_check FixedWindowPolicy check decision elapsed)] ost, w, Some (Ok decision))
      | (w, Some (Err error)) \<Rightarrow>
          (notify observer [Obs_Admission (failed_check FixedWindowPolicy check (CheckError_consumption error) elapsed)] ost,
           w, Some (Err error)))"

definition check_all_unobserved where
  "check_all_unobserved sha256 to_interval sv config checks w =
     (case validate_batch FixedWindowPolicy checks (pg_max_batch_size config) of
        Err e \<Rightarrow> (w, Some (Err (PgInvalidBatch e)))
      | Ok _ \<Rightarrow>
          (case run_checks sha256 to_interval sv config checks (batch_decision_of (length checks)) w of
             (w, None) \<Rightarrow> (w, None)
           | (w, Some (Ok decision)) \<Rightarrow> (w, Some (Ok decision))
           | (w, Some (Err e)) \<Rightarrow> (w, Some (Err (PgCheck e)))))"

definition pg_check_all where
  "pg_check_all observer ost sha256 to_interval sv config elapsed checks w =
     (case check_all_unobserved sha256 to_interval sv config checks w of
        (w, None) \<Rightarrow> (ost, w, None)
      | (w, Some (Ok decision)) \<Rightarrow>
          (notify observer [Obs_Admission (from_batch FixedWindowPolicy checks decision elapsed)] ost, w, Some (Ok decision))
      | (w, Some (Err error)) \<Rightarrow>
          (notify observer [Obs_Admission (failed_batch FixedWindowPolicy checks (BatchCheckError_consumption error) elapsed)] ost,
           w, Some (Err error)))"

end
