(* ===== verification/Postgres_Session.thy ===== *)
theory Postgres_Session
  imports Postgres_Admission
begin

text \<open>
  What every operation of the Postgres backend shares: a Hoare calculus for its asynchronous steps, the
  interface \<open>pg_session\<close> of a server that keeps transactions apart, and, inside it, the rules for the
  client's timeouts, statements, commit and rollback, and for an operation's life from the pool and back.
\<close>

section \<open>A Hoare calculus for steps\<close>

text \<open>From a world satisfying \<open>P\<close> the step does not panic, and returns with \<open>Q\<close> or fails with \<open>E\<close>.\<close>

definition triple :: "('w \<Rightarrow> bool) \<Rightarrow> ('w, 'f, 'a) step \<Rightarrow> ('a \<Rightarrow> 'w \<Rightarrow> bool) \<Rightarrow> ('f \<Rightarrow> 'w \<Rightarrow> bool) \<Rightarrow> bool" where
  "triple P m Q E \<longleftrightarrow> (\<forall>w. P w \<longrightarrow>
     (case m w of (w', None) \<Rightarrow> False | (w', Some (Ok a)) \<Rightarrow> Q a w' | (w', Some (Err f)) \<Rightarrow> E f w'))"

lemma triple_and_await:
  assumes "triple P m R E" "\<And>a. triple (R a) (f a) Q E"
  shows "triple P (and_await m f) Q E"
  using assms unfolding triple_def and_await_def by (fastforce split: prod.splits option.splits sum.splits)

lemma triple_ready:
  "(\<And>w a. P w \<Longrightarrow> r = Ok a \<Longrightarrow> Q a w) \<Longrightarrow> (\<And>w f. P w \<Longrightarrow> r = Err f \<Longrightarrow> E f w) \<Longrightarrow> triple P (ready_result r) Q E"
  by (cases r) (auto simp: triple_def ready_result_def)

lemma triple_weaken:
  "triple P m Q E \<Longrightarrow> (\<And>w. P' w \<Longrightarrow> P w) \<Longrightarrow> (\<And>a w. Q a w \<Longrightarrow> Q' a w) \<Longrightarrow> (\<And>f w. E f w \<Longrightarrow> E' f w) \<Longrightarrow> triple P' m Q' E'"
  unfolding triple_def by (fastforce split: prod.splits option.splits sum.splits)

lemma tripleD: "triple P m Q E \<Longrightarrow> P w \<Longrightarrow>
    (case m w of (w', None) \<Rightarrow> False | (w', Some (Ok a)) \<Rightarrow> Q a w' | (w', Some (Err f)) \<Rightarrow> E f w')"
  by (simp add: triple_def)

lemma tripleI: "(\<And>w. P w \<Longrightarrow>
    (case m w of (w', None) \<Rightarrow> False | (w', Some (Ok a)) \<Rightarrow> Q a w' | (w', Some (Err f)) \<Rightarrow> E f w')) \<Longrightarrow> triple P m Q E"
  by (simp add: triple_def)

lemma triple_pre_ex: "(\<And>x. triple (P x) m Q E) \<Longrightarrow> triple (\<lambda>w. \<exists>x. P x w) m Q E"
  by (rule tripleI) (elim exE, rule tripleD)

lemma triple_pre_conj: "(A \<Longrightarrow> triple P m Q E) \<Longrightarrow> triple (\<lambda>w. P w \<and> A) m Q E"
  by (rule tripleI) (elim conjE, rule tripleD)

definition outcome_value :: "'a connection_outcome \<Rightarrow> 'a" where
  "outcome_value c = (case c of Reusable a \<Rightarrow> a | MustClose a \<Rightarrow> a)"

lemma outcome_value_simps [simp]:
  "outcome_value (Reusable a) = a" "outcome_value (MustClose a) = a"
  "outcome_value (ConnectionOutcome_map f c) = f (outcome_value c)" "fst (guard_finish c) = outcome_value c"
  by (cases c; simp add: outcome_value_def ConnectionOutcome_map_def guard_finish_def)+

abbreviation not_consumed :: "failure \<Rightarrow> bool" where
  "not_consumed f \<equiv> CheckError_consumption (outcome_value f) = NotConsumed"

lemma check_before_commit_triple:
  assumes "\<And>w w' a. P w \<Longrightarrow> future w = (w', a) \<Longrightarrow> I w' \<and> (\<forall>x. a = Answered x \<longrightarrow> Q x w')"
  shows "triple P (check_before_commit phase future) Q (\<lambda>f w. not_consumed f \<and> I w)"
  unfolding triple_def
proof (intro allI impI)
  fix w assume P: "P w"
  obtain w' a where f: "future w = (w', a)" by fastforce
  note assms [OF P f]
  then show "case check_before_commit phase future w of (w', None) \<Rightarrow> False | (w', Some (Ok x)) \<Rightarrow> Q x w'
      | (w', Some (Err f)) \<Rightarrow> not_consumed f \<and> I w'"
    by (cases a) (simp_all add: check_before_commit_def f map_check_database_error_def CheckError_consumption_def)
qed

text \<open>An error tells the truth about the durable state: it is unchanged, unless the error admits possible consumption
  and the state is one that a decision commits.\<close>

definition honest :: "('a \<Rightarrow> 'd \<Rightarrow> bool) \<Rightarrow> 'd \<Rightarrow> pg_check_error \<Rightarrow> 'd \<Rightarrow> bool" where
  "honest R d e d' \<longleftrightarrow> d' = d \<or> CheckError_consumption e = PossiblyConsumed \<and> (\<exists>dec. R dec d')"

lemma not_consumed_honest: "CheckError_consumption e = NotConsumed \<Longrightarrow> honest R d e d"
  by (simp add: honest_def)

section \<open>The interface of a transactional server\<close>

text \<open>
  \<open>db\<close> is the durable state and \<open>tx\<close> the state the open transaction sees. Only a commit may change \<open>db\<close>; if
  its answer is lost it may or may not have. \<open>good\<close> is an invariant of the server's world, such as a
  range of its clock.
\<close>

locale pg_session =
  fixes sv :: "'w pg_server"
    and db :: "'w \<Rightarrow> 'd"
    and tx :: "'w \<Rightarrow> 'd"
    and good :: "'w \<Rightarrow> bool"
  assumes now: "sv_now sv w = (w', n) \<Longrightarrow> good w \<Longrightarrow> good w' \<and> db w' = db w \<and> tx w' = tx w"
    and acquire: "sv_acquire sv d w = (w', a) \<Longrightarrow> good w \<Longrightarrow> good w' \<and> db w' = db w"
    and begins: "sv_begin sv w = (w', a) \<Longrightarrow> good w \<Longrightarrow> db w' = db w \<and> (a = Answered () \<longrightarrow> good w' \<and> tx w' = db w)"
    and set_timeouts: "sv_set_timeouts sv s w = (w', a) \<Longrightarrow> good w \<Longrightarrow> db w' = db w \<and> (a = Answered () \<longrightarrow> good w' \<and> tx w' = tx w)"
    and commit: "sv_commit sv w = (w', a) \<Longrightarrow> good w \<Longrightarrow> (db w' = db w \<or> db w' = tx w) \<and> (a = Answered () \<longrightarrow> db w' = tx w)"
    and rollback: "sv_rollback sv w = (w', a) \<Longrightarrow> good w \<Longrightarrow> db w' = db w"
    and release: "db (sv_release sv close w) = db w"
begin

text \<open>In the transaction, with the durable state \<open>d\<close> and the pending state \<open>d'\<close>; and after a harmless failure.\<close>

abbreviation within :: "'d \<Rightarrow> 'd \<Rightarrow> 'w \<Rightarrow> bool" where
  "within d d' w \<equiv> good w \<and> db w = d \<and> tx w = d'"

abbreviation idle :: "'d \<Rightarrow> 'w \<Rightarrow> bool" where
  "idle d w \<equiv> good w \<and> db w = d"

abbreviation unharmed :: "'d \<Rightarrow> failure \<Rightarrow> 'w \<Rightarrow> bool" where
  "unharmed d f w \<equiv> not_consumed f \<and> db w = d"

lemma set_timeouts_triple: "triple (within d d') (set_check_server_timeouts sv deadline phase) (\<lambda>_. within d d') (unharmed d)"
proof -
  have inner: "triple (within d d') (check_before_commit phase (sv_set_timeouts sv s)) (\<lambda>_. within d d') (unharmed d)" for s
  proof (rule check_before_commit_triple)
    fix w w' a assume "within d d' w" "sv_set_timeouts sv s w = (w', a)"
    then show "db w' = d \<and> (\<forall>x. a = Answered x \<longrightarrow> within d d' w')" using set_timeouts [of s w w' a] by simp
  qed
  show ?thesis unfolding triple_def
  proof (intro allI impI)
    fix w assume w: "within d d' w"
    obtain w1 n where n: "sv_now sv w = (w1, n)" by fastforce
    then have w1: "within d d' w1" using w now [OF n] by simp
    show "case set_check_server_timeouts sv deadline phase w of (w', None) \<Rightarrow> False | (w', Some (Ok a)) \<Rightarrow> within d d' w'
        | (w', Some (Err f)) \<Rightarrow> unharmed d f w'"
    proof (cases "remaining_server_timeout_settings deadline n")
      case None
      then show ?thesis using w1 n by (simp add: set_check_server_timeouts_def CheckError_consumption_def)
    next
      case (Some s)
      then show ?thesis using inner [of s] w1 n unfolding triple_def set_check_server_timeouts_def by simp
    qed
  qed
qed

lemma tx_execute_triple:
  assumes "\<And>w w' a. within d d' w \<Longrightarrow> query w = (w', a) \<Longrightarrow> db w' = d \<and> (\<forall>x. a = Answered x \<longrightarrow> Q x w')"
  shows "triple (within d d') (tx_execute sv deadline phase query) Q (unharmed d)"
  unfolding tx_execute_def
  by (rule triple_and_await [OF set_timeouts_triple check_before_commit_triple [OF assms]])

lemma tx_commit_triple:
  "triple (within d d') (tx_commit sv deadline) (\<lambda>_ w. db w = d')
     (\<lambda>f w. unharmed d f w \<or> (CheckError_consumption (outcome_value f) = PossiblyConsumed \<and> (db w = d \<or> db w = d')))"
  (is "triple _ _ ?Q ?E")
  unfolding tx_commit_def
proof (rule triple_and_await)
  show "triple (within d d') (set_check_server_timeouts sv deadline PreparingCommit) (\<lambda>_. within d d') ?E"
    by (rule triple_weaken [OF set_timeouts_triple]) auto
  show "triple (within d d') (commit_check sv deadline) ?Q ?E" for a :: unit
  proof (rule tripleI)
    fix w assume w: "within d d' w"
    obtain w1 n where n: "sv_now sv w = (w1, n)" by fastforce
    obtain w2 a where c: "sv_commit sv w1 = (w2, a)" by fastforce
    show "case commit_check sv deadline w of (w', None) \<Rightarrow> False | (w', Some (Ok a)) \<Rightarrow> ?Q a w' | (w', Some (Err f)) \<Rightarrow> ?E f w'"
      using w now [OF n] commit [OF c]
      by (cases a) (auto simp: commit_check_def n c CheckError_consumption_def)
  qed
qed

lemma finish_denied_triple:
  "triple (within d d') (finish_denied_transaction sv dec) (\<lambda>c w. outcome_value c = dec \<and> db w = d) E"
proof (rule tripleI)
  fix w assume w: "within d d' w"
  obtain w1 a where r: "sv_rollback sv w = (w1, a)" by fastforce
  show "case finish_denied_transaction sv dec w of (w', None) \<Rightarrow> False | (w', Some (Ok c)) \<Rightarrow> outcome_value c = dec \<and> db w' = d
      | (w', Some (Err f)) \<Rightarrow> E f w'"
    using w rollback [OF r] by (cases a) (auto simp: finish_denied_transaction_def r)
qed

lemma begin_triple:
  "triple (idle d) (check_before_commit BeginningTransaction (sv_begin sv)) (\<lambda>_. within d d) (unharmed d)"
  by (rule check_before_commit_triple) (use begins in fastforce)

text \<open>A decision that commits \<open>d'\<close>, and one that commits nothing.\<close>

lemma commit_decision_triple:
  assumes R: "R dec d'"
  shows "triple (within d d') (and_await (tx_commit sv deadline) (\<lambda>_. ready_result (Ok (Reusable dec))))
     (\<lambda>c w. R (outcome_value c) (db w)) (\<lambda>f w. honest R d (outcome_value f) (db w))"
proof (rule triple_and_await)
  show "triple (within d d') (tx_commit sv deadline) (\<lambda>_ w. db w = d') (\<lambda>f w. honest R d (outcome_value f) (db w))"
    by (rule triple_weaken [OF tx_commit_triple]) (use R in \<open>auto simp: honest_def\<close>)
  show "triple (\<lambda>w. db w = d') (ready_result (Ok (Reusable dec))) (\<lambda>c w. R (outcome_value c) (db w))
      (\<lambda>f w. honest R d (outcome_value f) (db w))" for a :: unit
    by (rule triple_ready) (use R in auto)
qed

lemma deny_decision_triple:
  "R dec d \<Longrightarrow> triple (within d d') (finish_denied_transaction sv dec)
     (\<lambda>c w. R (outcome_value c) (db w)) (\<lambda>f w. honest R d (outcome_value f) (db w))"
  by (rule triple_weaken [OF finish_denied_triple [where E = "\<lambda>f w. honest R d (outcome_value f) (db w)"]]) auto

text \<open>Harmless failures are honest.\<close>

lemma unharmed_honest:
  "triple P m Q (unharmed d) \<Longrightarrow> triple P m Q (\<lambda>f w. honest R d (outcome_value f) (db w))"
  by (erule triple_weaken) (auto simp: not_consumed_honest)

lemma run_guarded_triple:
  assumes "\<And>deadline. triple (idle d) (inner deadline)
      (\<lambda>c w. R (outcome_value c) (db w)) (\<lambda>f w. honest R d (outcome_value f) (db w))"
  shows "triple (idle d) (run_guarded sv config inner) (\<lambda>dec w. R dec (db w)) (\<lambda>e w. honest R d e (db w))"
proof (rule tripleI)
  fix w assume w: "idle d w"
  obtain w1 a where acq: "sv_acquire sv (pg_pool_acquire_timeout config) w = (w1, a)" by fastforce
  then have w1: "idle d w1" using acquire [OF acq] w by simp
  obtain w2 n where n: "sv_now sv w1 = (w2, n)" by fastforce
  then have w2: "idle d w2" using now [OF n] w1 by simp
  show "case run_guarded sv config inner w of (w', None) \<Rightarrow> False | (w', Some (Ok dec)) \<Rightarrow> R dec (db w')
      | (w', Some (Err e)) \<Rightarrow> honest R d e (db w')"
    using tripleD [OF assms [of "n + pg_operation_timeout config"] w2] w1
    by (cases a) (auto simp: run_guarded_def and_await_def acquire_check_connection_def acq n release
        guard_finish_def ConnectionOutcome_map_def outcome_value_def not_consumed_honest CheckError_consumption_def
        split: prod.splits option.splits sum.splits connection_outcome.splits)
qed

end

end
