(* ===== verification/Postgres_Transaction.thy ===== *)
theory Postgres_Transaction
  imports Postgres_Session
begin

text \<open>
  What the client of \<open>admission.rs\<close> guarantees against any transactional server: the interface
  \<open>pg_database\<close> says what each statement of a fixed-window admission reads, and inside it the outcome of
  \<open>run_checks\<close> is classified: every decision is durable and every error honest.
\<close>

section \<open>What a batch amounts to\<close>

text \<open>The outcome of the answered statements on the state \<open>d\<close>, and the state to commit; \<open>now\<close>, \<open>r1\<close> and \<open>r2\<close> are
  the times the server samples.\<close>

definition batch_result where
  "batch_result cap pre ups input checks maximum now r1 r2 d =
     and_then (capacity_loop (bi_capacity_shards input) maximum (replicate CAPACITY_SHARD_COUNT 0) (cap input d)) (\<lambda>cd.
     and_then (decode_preflight checks (pre input now r1 d)) (\<lambda>p.
     case first_denial_of cd (bp_denial p) of
       Some (i, x) \<Rightarrow> Ok (PB_Denied i x, authoritative_elapsed (bp_database_now p) (bp_response_now p), d)
     | None \<Rightarrow>
         and_then (map_err DefinitelyNotConsumed (ups input (bp_database_now p) r2 d)) (\<lambda>(d', rows).
         and_then (decode_upsert checks (bp_database_now p) rows) (\<lambda>(as, rn).
         Ok (PB_Allowed as, authoritative_elapsed (bp_database_now p) rn, d')))))"

definition pending_admission where
  "pending_admission checks p elapsed =
     (case p of
        PB_Denied i x \<Rightarrow> denied_admission checks elapsed i x
      | PB_Allowed as \<Rightarrow> map_option PA_Allowed (those (map (PendingAllowance_finish elapsed) as)))"

lemma map_err_eq_Inl: "map_err g r = Inl e \<longleftrightarrow> (\<exists>x. r = Inl x \<and> e = g x)"
  by (cases r) auto

lemma and_then_eq_Inl: "and_then r f = Inl e \<longleftrightarrow> r = Inl e \<or> (\<exists>a. r = Inr a \<and> f a = Inl e)"
  by (cases r) auto

text \<open>Every error of decoding is a storage invariant: nothing was consumed.\<close>

definition decode_error :: "pg_check_error \<Rightarrow> bool" where
  "decode_error e \<longleftrightarrow> (\<exists>s. e = StorageInvariant s)"

lemma decode_error_not_consumed: "decode_error e \<Longrightarrow> CheckError_consumption e = NotConsumed"
  by (auto simp: decode_error_def CheckError_consumption_def)

lemma decode_error_simps [simp]:
  "decode_error (storage_invariant x)"
  "try_get x c = Inl e \<Longrightarrow> decode_error e" "nonnegative x n = Inl e \<Longrightarrow> decode_error e"
  "duration_until a b = Inl e \<Longrightarrow> decode_error e" "PendingAllowance_new l u r = Inl e \<Longrightarrow> decode_error e"
  "ok_or (storage_invariant x) y = Inl e \<Longrightarrow> decode_error e"
  by (auto simp: decode_error_def storage_invariant_def try_get_def storage_decode_invariant_def nonnegative_def
      duration_until_def PendingAllowance_new_def and_then_eq_Inl map_err_def ok_or_def split: sum.splits if_splits option.splits)

lemma capacity_loop_error: "capacity_loop shards maximum pending rows = Inl e \<Longrightarrow> decode_error e"
  by (induction shards maximum pending rows rule: capacity_loop.induct)
    (auto simp: and_then_eq_Inl split: if_splits)

lemma preflight_denial_error: "preflight_denial checks now i x = Inl e \<Longrightarrow> decode_error e"
  by (cases i; cases x) (auto simp: preflight_denial_def and_then_eq_Inl)

lemma decode_preflight_error: "decode_preflight checks row = Inl e \<Longrightarrow> decode_error e"
  by (auto simp: decode_preflight_def and_then_eq_Inl preflight_denial_error)

lemma upsert_loop_error: "upsert_loop checks now i rows = Inl e \<Longrightarrow> decode_error e"
  by (induction checks now i rows rule: upsert_loop.induct)
    (auto simp: and_then_eq_Inl read_used_def read_expiry_def split: if_splits)

lemma decode_upsert_error: "decode_upsert checks now rows = Inl e \<Longrightarrow> decode_error e"
  by (auto simp: decode_upsert_def and_then_eq_Inl upsert_loop_error simp del: upsert_loop.simps split: list.splits if_splits)

text \<open>The decision \<open>dec\<close> that a batch on the state \<open>d\<close> may give, and the state it commits.\<close>

definition batch_decided where
  "batch_decided time_ok cap pre ups input checks maximum build d dec d' \<longleftrightarrow>
     (\<exists>now r1 r2 p el adm. time_ok now \<and> batch_result cap pre ups input checks maximum now r1 r2 d = Ok (p, el, d') \<and>
        pending_admission checks p el = Some adm \<and> build adm = Ok dec)"

lemma PendingAllowance_new_finish:
  assumes "PendingAllowance_new l u r = Ok a"
  shows "\<exists>y. PendingAllowance_finish el a = Some y"
  using assms by (auto simp: PendingAllowance_new_def PendingAllowance_finish_def and_then_eq_Inr map_err_def expect_def
      Allowance_new_def split: if_splits sum.splits)

lemma upsert_loop_finish:
  "upsert_loop checks now i rows = Ok as \<Longrightarrow> a \<in> set as \<Longrightarrow> \<exists>y. PendingAllowance_finish el a = Some y"
  by (induction checks now i rows arbitrary: as rule: upsert_loop.induct)
    (auto simp: and_then_eq_Inr PendingAllowance_new_finish split: if_splits)

lemma those_not_None: "(\<And>x. x \<in> set xs \<Longrightarrow> x \<noteq> None) \<Longrightarrow> \<exists>ys. those xs = Some ys"
  by (induction xs) (fastforce split: option.splits)+

lemma decode_upsert_finish:
  assumes "decode_upsert checks now rows = Ok (as, rn)"
  shows "\<exists>ys. those (map (PendingAllowance_finish el) as) = Some ys"
proof (rule those_not_None)
  from assms obtain row rows' where "rows = row # rows'" "upsert_loop checks now 0 rows = Ok as"
    by (cases rows) (auto simp: decode_upsert_def and_then_eq_Inr simp del: upsert_loop.simps split: if_splits)
  then show "x \<noteq> None" if "x \<in> set (map (PendingAllowance_finish el) as)" for x
    using that upsert_loop_finish [of checks now 0 rows as _ el] by auto
qed

text \<open>Finishing a batch never panics.\<close>

lemma pending_admission_total:
  assumes "batch_result cap pre ups input checks maximum now r1 r2 d = Ok (p, el, d')" "checks \<noteq> []"
  shows "\<exists>adm. pending_admission checks p el' = Some adm"
proof (cases p)
  case (PB_Denied i x)
  then show ?thesis using assms(2) by (cases checks) (auto simp: pending_admission_def denied_admission_def get_opt_def)
next
  case (PB_Allowed as)
  with assms(1) obtain rows now' rn where "decode_upsert checks now' rows = Ok (as, rn)"
    by (auto simp: batch_result_def and_then_eq_Inr split: option.splits prod.splits)
  from decode_upsert_finish [OF this] show ?thesis using PB_Allowed by (auto simp: pending_admission_def)
qed

lemma batch_result_denied:
  "batch_result cap pre ups input checks maximum now r1 r2 d = Ok (PB_Denied i x, el, d') \<Longrightarrow> d' = d"
  by (auto simp: batch_result_def and_then_eq_Inr split: option.splits prod.splits)

lemma build_error_not_consumed:
  "single_decision adm = Inl e \<Longrightarrow> CheckError_consumption e = NotConsumed"
  "batch_decision_of n adm = Inl e \<Longrightarrow> CheckError_consumption e = NotConsumed"
  by (auto simp: single_decision_def batch_decision_of_def storage_invariant_def CheckError_consumption_def map_err_def
      split: pg_admission.splits list.splits if_splits sum.splits)

section \<open>The interface of the statements\<close>

text \<open>The pure functions \<open>cap\<close>, \<open>pre\<close> and \<open>ups\<close> are the answers of the three data statements.\<close>

locale pg_database = pg_session sv db tx good
  for sv :: "'w pg_server" and db :: "'w \<Rightarrow> 'b" and tx :: "'w \<Rightarrow> 'b" and good :: "'w \<Rightarrow> bool" +
  fixes time_ok :: "timestamp \<Rightarrow> bool"
    and cap :: "batch_sql_input \<Rightarrow> 'b \<Rightarrow> capacity_row list"
    and pre :: "batch_sql_input \<Rightarrow> timestamp \<Rightarrow> timestamp \<Rightarrow> 'b \<Rightarrow> preflight_row"
    and ups :: "batch_sql_input \<Rightarrow> timestamp \<Rightarrow> timestamp \<Rightarrow> 'b \<Rightarrow> (sqlx_error, 'b \<times> upsert_row list) result"
  assumes advisory: "sv_advisory_locks sv ids w = (w', a) \<Longrightarrow> good w \<Longrightarrow> db w' = db w \<and> (a = Answered () \<longrightarrow> good w' \<and> tx w' = tx w)"
    and row_locks: "sv_row_locks sv input w = (w', a) \<Longrightarrow> good w \<Longrightarrow> db w' = db w \<and> (a = Answered () \<longrightarrow> good w' \<and> tx w' = tx w)"
    and capacity: "sv_capacity_locks sv input w = (w', b) \<Longrightarrow> good w \<Longrightarrow> db w' = db w \<and>
      (\<forall>rows. b = Answered rows \<longrightarrow> good w' \<and> tx w' = tx w \<and> rows = cap input (tx w))"
    and preflight: "sv_preflight sv input w = (w', c) \<Longrightarrow> good w \<Longrightarrow> db w' = db w \<and>
      (\<forall>row. c = Answered row \<longrightarrow> good w' \<and> tx w' = tx w \<and> (\<exists>now r. time_ok now \<and> row = pre input now r (tx w)))"
    and upsert: "sv_upsert sv input t w = (w', e) \<Longrightarrow> good w \<Longrightarrow> db w' = db w \<and>
      (\<forall>rows. e = Answered rows \<longrightarrow> good w' \<and> (\<exists>r. ups input t r (tx w) = Ok (tx w', rows)))"
begin

lemma locks_triple:
  "triple (within d d') (tx_execute sv deadline AcquiringLogicalKeyLocks (sv_advisory_locks sv ids)) (\<lambda>_. within d d') (unharmed d)"
  "triple (within d d') (tx_execute sv deadline AcquiringCounterRowLocks (sv_row_locks sv input)) (\<lambda>_. within d d') (unharmed d)"
  by (rule tx_execute_triple, use advisory row_locks in fastforce)+

lemma capacity_triple:
  "triple (within d d) (first_capacity_denial sv deadline input maximum)
     (\<lambda>cd w. within d d w \<and> capacity_loop (bi_capacity_shards input) maximum (replicate CAPACITY_SHARD_COUNT 0) (cap input d) = Ok cd)
     (unharmed d)"
  unfolding first_capacity_denial_def
proof (rule triple_and_await)
  show "triple (within d d) (tx_execute sv deadline AcquiringCapacityShardLocks (sv_capacity_locks sv input))
      (\<lambda>rows w. within d d w \<and> rows = cap input d) (unharmed d)"
    by (rule tx_execute_triple) (use capacity in fastforce)
  fix rows
  show "triple (\<lambda>w. within d d w \<and> rows = cap input d) (ready_result (map_err reusable_check_error
      (capacity_loop (bi_capacity_shards input) maximum (replicate CAPACITY_SHARD_COUNT 0) rows)))
      (\<lambda>cd w. within d d w \<and> capacity_loop (bi_capacity_shards input) maximum (replicate CAPACITY_SHARD_COUNT 0) (cap input d) = Ok cd)
      (unharmed d)"
    by (rule triple_ready)
      (auto simp: map_err_def reusable_check_error_def decode_error_not_consumed [OF capacity_loop_error] split: sum.splits)
qed

lemma preflight_triple:
  "triple (within d d) (preflight_batch sv deadline input checks)
     (\<lambda>p w. within d d w \<and> (\<exists>now r. time_ok now \<and> decode_preflight checks (pre input now r d) = Ok p)) (unharmed d)"
  unfolding preflight_batch_def
proof (rule triple_and_await)
  show "triple (within d d) (tx_execute sv deadline PreflightingCounters (sv_preflight sv input))
      (\<lambda>row w. within d d w \<and> (\<exists>now r. time_ok now \<and> row = pre input now r d)) (unharmed d)"
    by (rule tx_execute_triple) (use preflight in fastforce)
  fix row
  show "triple (\<lambda>w. within d d w \<and> (\<exists>now r. time_ok now \<and> row = pre input now r d))
      (ready_result (map_err reusable_check_error (decode_preflight checks row)))
      (\<lambda>p w. within d d w \<and> (\<exists>now r. time_ok now \<and> decode_preflight checks (pre input now r d) = Ok p)) (unharmed d)"
    by (rule triple_ready)
      (auto simp: map_err_def reusable_check_error_def decode_error_not_consumed [OF decode_preflight_error] split: sum.splits)
qed

lemma upsert_triple:
  "triple (within d d) (upsert_batch sv deadline input checks t)
     (\<lambda>(as, rn) w. \<exists>r d' rows. within d d' w \<and> ups input t r d = Ok (d', rows) \<and> decode_upsert checks t rows = Ok (as, rn))
     (unharmed d)"
  unfolding upsert_batch_def
proof (rule triple_and_await)
  show "triple (within d d) (tx_execute sv deadline UpdatingCounters (sv_upsert sv input t))
      (\<lambda>rows w. \<exists>r. good w \<and> db w = d \<and> ups input t r d = Ok (tx w, rows)) (unharmed d)"
    by (rule tx_execute_triple) (use upsert in fastforce)
  fix rows
  show "triple (\<lambda>w. \<exists>r. good w \<and> db w = d \<and> ups input t r d = Ok (tx w, rows))
      (ready_result (map_err reusable_check_error (decode_upsert checks t rows)))
      (\<lambda>(as, rn) w. \<exists>r d' rows. within d d' w \<and> ups input t r d = Ok (d', rows) \<and> decode_upsert checks t rows = Ok (as, rn))
      (unharmed d)"
    by (rule triple_ready)
      (auto simp: map_err_def reusable_check_error_def decode_error_not_consumed [OF decode_upsert_error] split: sum.splits)
qed

lemma execute_batch_triple:
  "triple (within d d) (execute_batch sv deadline input checks maximum)
     (\<lambda>(p, el) w. \<exists>now r1 r2 d'. within d d' w \<and> time_ok now \<and> batch_result cap pre ups input checks maximum now r1 r2 d = Ok (p, el, d'))
     (unharmed d)"
  unfolding execute_batch_def
proof (rule triple_and_await [OF capacity_triple], rule triple_and_await)
  fix cd
  let ?cap = "capacity_loop (bi_capacity_shards input) maximum (replicate CAPACITY_SHARD_COUNT 0) (cap input d) = Ok cd"
  show "triple (\<lambda>w. within d d w \<and> ?cap) (preflight_batch sv deadline input checks)
      (\<lambda>p w. within d d w \<and> (?cap \<and> (\<exists>now r. time_ok now \<and> decode_preflight checks (pre input now r d) = Ok p))) (unharmed d)"
    by (rule triple_pre_conj, rule triple_weaken [OF preflight_triple]) auto
  fix p
  show "triple (\<lambda>w. within d d w \<and> (?cap \<and> (\<exists>now r. time_ok now \<and> decode_preflight checks (pre input now r d) = Ok p)))
      (case first_denial_of cd (bp_denial p) of
         Some (i, x) \<Rightarrow> ready_result (Ok (PB_Denied i x, authoritative_elapsed (bp_database_now p) (bp_response_now p)))
       | None \<Rightarrow> and_await (upsert_batch sv deadline input checks (bp_database_now p)) (\<lambda>(as, rn).
           ready_result (Ok (PB_Allowed as, authoritative_elapsed (bp_database_now p) rn))))
      (\<lambda>(p, el) w. \<exists>now r1 r2 d'. within d d' w \<and> time_ok now \<and> batch_result cap pre ups input checks maximum now r1 r2 d = Ok (p, el, d'))
      (unharmed d)" (is "triple _ ?m ?Q ?E")
  proof (rule triple_pre_conj, elim conjE exE)
    fix now r assume c: ?cap and ok: "time_ok now" and pf: "decode_preflight checks (pre input now r d) = Ok p"
    show "triple (within d d) ?m ?Q ?E"
    proof (cases "first_denial_of cd (bp_denial p)")
      case None
      have "triple (within d d) (and_await (upsert_batch sv deadline input checks (bp_database_now p)) (\<lambda>(as, rn).
           ready_result (Ok (PB_Allowed as, authoritative_elapsed (bp_database_now p) rn))))
        (\<lambda>(p, el) w. \<exists>now r1 r2 d'. within d d' w \<and> time_ok now \<and> batch_result cap pre ups input checks maximum now r1 r2 d = Ok (p, el, d'))
        (unharmed d)"
      proof (rule triple_and_await [OF upsert_triple])
        fix x :: "pg_pending_allowance list \<times> timestamp"
        obtain as rn where x: "x = (as, rn)" by fastforce
        have *: "batch_result cap pre ups input checks maximum now r r' d =
            Ok (PB_Allowed as, authoritative_elapsed (bp_database_now p) rn, d')"
          if "ups input (bp_database_now p) r' d = Ok (d', rows)" "decode_upsert checks (bp_database_now p) rows = Ok (as, rn)"
          for r' d' rows
          using c pf None that by (simp add: batch_result_def)
        show "triple ((\<lambda>(as, rn) w. \<exists>r' d' rows. within d d' w \<and> ups input (bp_database_now p) r' d = Ok (d', rows) \<and>
            decode_upsert checks (bp_database_now p) rows = Ok (as, rn)) x)
          ((\<lambda>(as, rn). ready_result (Ok (PB_Allowed as, authoritative_elapsed (bp_database_now p) rn))) x) ?Q ?E"
          unfolding x prod.case by (rule triple_ready) (use * ok in fastforce)+
      qed
      with None show ?thesis by (simp add: triple_def)
    next
      case (Some x)
      obtain i y where x: "x = (i, y)" by fastforce
      have "batch_result cap pre ups input checks maximum now r r d =
          Ok (PB_Denied i y, authoritative_elapsed (bp_database_now p) (bp_response_now p), d)"
        using c pf Some x by (simp add: batch_result_def)
      with ok show ?thesis unfolding Some x option.case prod.case by (intro triple_ready) fastforce+
    qed
  qed
qed

text \<open>One transaction: a decision is durable, and an error says what became of the state.\<close>

abbreviation decides where "decides input checks maximum build d \<equiv> batch_decided time_ok cap pre ups input checks maximum build d"

lemma finish_batch_triple:
  assumes checks: "checks \<noteq> []"
    and build: "\<And>adm e. build adm = Inl e \<Longrightarrow> CheckError_consumption e = NotConsumed"
    and ok: "time_ok now" and br: "batch_result cap pre ups input checks maximum now r1 r2 d = Ok (p, el, d')"
  shows "triple (within d d')
     (case p of
       PB_Denied index denial \<Rightarrow>
         (\<lambda>w. case denied_admission checks el index denial of
            None \<Rightarrow> (w, None)
          | Some admission \<Rightarrow>
              (case build admission of
                 Err error \<Rightarrow> (w, Some (Err (reusable_check_error error)))
               | Ok decision \<Rightarrow> finish_denied_transaction sv decision w))
     | PB_Allowed allowances \<Rightarrow>
         (\<lambda>w. case those (map (PendingAllowance_finish el) allowances) of
            None \<Rightarrow> (w, None)
          | Some allowances \<Rightarrow>
              (case build (PA_Allowed allowances) of
                 Err error \<Rightarrow> (w, Some (Err (reusable_check_error error)))
               | Ok decision \<Rightarrow>
                   and_await (tx_commit sv deadline) (\<lambda>_. ready_result (Ok (Reusable decision))) w)))
     (\<lambda>c w. decides input checks maximum build d (outcome_value c) (db w))
     (\<lambda>f w. honest (decides input checks maximum build d) d (outcome_value f) (db w))"
  (is "triple _ ?m ?Q ?E")
proof -
  obtain adm where adm: "pending_admission checks p el = Some adm" using pending_admission_total [OF br checks] by blast
  show ?thesis
  proof (cases "build adm")
    case (Inl e)
    then have "triple (within d d') (ready_result (Err (reusable_check_error e))) ?Q ?E"
      by (intro triple_ready) (auto simp: reusable_check_error_def not_consumed_honest build)
    then show ?thesis using Inl adm by (cases p) (auto simp: triple_def pending_admission_def ready_result_def)
  next
    case (Inr dec)
    with ok br adm have R: "decides input checks maximum build d dec d'" unfolding batch_decided_def by blast
    show ?thesis
    proof (cases p)
      case (PB_Denied i x)
      have "d' = d" by (rule batch_result_denied [OF br [unfolded PB_Denied]])
      then have "triple (within d d') (finish_denied_transaction sv dec) ?Q ?E"
        using deny_decision_triple [of "decides input checks maximum build d" dec d d'] R by simp
      then show ?thesis using Inr adm PB_Denied by (simp add: triple_def pending_admission_def)
    next
      case (PB_Allowed as)
      have "triple (within d d') (and_await (tx_commit sv deadline) (\<lambda>_. ready_result (Ok (Reusable dec)))) ?Q ?E"
        by (rule commit_decision_triple [where R = "decides input checks maximum build d", OF R])
      moreover obtain as' where "those (map (PendingAllowance_finish el) as) = Some as'" "adm = PA_Allowed as'"
        using adm PB_Allowed by (auto simp: pending_admission_def)
      ultimately show ?thesis using Inr PB_Allowed by (simp add: triple_def)
    qed
  qed
qed

lemma transaction_triple:
  assumes checks: "checks \<noteq> []"
    and build: "\<And>adm e. build adm = Inl e \<Longrightarrow> CheckError_consumption e = NotConsumed"
  shows "triple (idle d) (run_check_transaction_inner sv input checks maximum deadline build)
     (\<lambda>c w. decides input checks maximum build d (outcome_value c) (db w))
     (\<lambda>f w. honest (decides input checks maximum build d) d (outcome_value f) (db w))"
  (is "triple _ _ ?Q ?E")
proof -
  note locks = unharmed_honest [OF locks_triple(1)] unharmed_honest [OF locks_triple(2)]
  note batch = unharmed_honest [OF execute_batch_triple]
  show ?thesis unfolding run_check_transaction_inner_def
  proof (rule triple_and_await [OF unharmed_honest [OF begin_triple]], rule triple_and_await [OF locks(1)], rule triple_and_await [OF locks(2)],
      rule triple_and_await [OF batch], unfold split_def, intro triple_pre_ex triple_pre_conj, goal_cases)
    case (1 _ _ _ x now r1 r2 d')
    show ?case by (rule finish_batch_triple [OF checks build conjunct1 [OF 1] conjunct2 [OF 1]]) assumption
  qed
qed

text \<open>A whole operation: connection, deadline, transaction, and the return of the connection to the pool.\<close>

lemma run_checks_triple:
  fixes config :: postgres_config
  assumes checks: "checks \<noteq> []" and input: "BatchSqlInput_from_checks sha256 to_interval checks = Some input"
    and build: "\<And>adm e. build adm = Inl e \<Longrightarrow> CheckError_consumption e = NotConsumed"
  defines "R \<equiv> decides input checks (pg_maximum_rows_per_shard config) build"
  shows "triple (idle d) (run_checks sha256 to_interval sv config checks build)
     (\<lambda>dec w. R d dec (db w)) (\<lambda>e w. honest (R d) d e (db w))"
proof -
  have "triple (idle d) (run_guarded sv config
      (\<lambda>deadline. run_check_transaction_inner sv input checks (pg_maximum_rows_per_shard config) deadline build))
      (\<lambda>dec w. R d dec (db w)) (\<lambda>e w. honest (R d) d e (db w))"
    unfolding R_def by (rule run_guarded_triple, rule transaction_triple [OF checks build]) assumption
  then show ?thesis by (simp add: triple_def run_checks_def input)
qed

end

end
