(* ===== verification/Postgres_Sql.thy ===== *)
theory Postgres_Sql
  imports Postgres_Transaction
begin

text \<open>
  The SQL of the Postgres backend: the statements of \<open>runlimit-postgres/src/protocol.rs\<close> and the tables,
  constraints and triggers of its migrations, as functions on the two tables. Timestamps are
  microseconds since the database's epoch; sessions run in UTC, as the driver sets them, so that
  adding an interval adds its microseconds. The locking clauses order concurrent transactions and
  have no effect in the serial executions considered here.
\<close>

section \<open>Tables\<close>

record window_row =
  wr_policy_id :: rstr
  wr_scope_id :: rstr
  wr_fingerprint :: "u8 list"
  wr_subject :: "u8 list"
  wr_started_at :: timestamp
  wr_expires_at :: timestamp
  wr_used :: int

type_synonym storage_key = "u8 list \<times> u8 list"

record pg_tables =
  tb_windows :: "window_row list"
  tb_ledger :: "nat \<Rightarrow> int option"

definition wr_key :: "window_row \<Rightarrow> storage_key" where
  "wr_key row = (wr_fingerprint row, wr_subject row)"

definition key_shard :: "storage_key \<Rightarrow> nat" where
  "key_shard k = unat (xor (fst k ! 0) (snd k ! 0))"

definition find_row :: "storage_key \<Rightarrow> window_row list \<Rightarrow> window_row option" where
  "find_row k rows = List.find (\<lambda>row. wr_key row = k) rows"

abbreviation window_at :: "pg_tables \<Rightarrow> storage_key \<Rightarrow> window_row option" where
  "window_at d k \<equiv> find_row k (tb_windows d)"

text \<open>The check constraints of the windows table.\<close>

definition row_constraints :: "window_row \<Rightarrow> bool" where
  "row_constraints row \<longleftrightarrow>
     length (as_bytes (wr_policy_id row)) \<in> {1..128} \<and> length (as_bytes (wr_scope_id row)) \<in> {1..128} \<and>
     length (wr_fingerprint row) = 32 \<and> length (wr_subject row) = 32 \<and>
     wr_expires_at row > wr_started_at row \<and> wr_used row > 0"

definition sql_error :: "string \<Rightarrow> sqlx_error" where "sql_error code = SqlxDatabase (Some code)"

definition check_violation :: sqlx_error where "check_violation = sql_error ''23514''"
definition foreign_key_violation :: sqlx_error where "foreign_key_violation = sql_error ''23503''"
definition cardinality_violation :: sqlx_error where "cardinality_violation = sql_error ''21000''"
definition datetime_overflow :: sqlx_error where "datetime_overflow = sql_error ''22008''"
definition numeric_overflow :: sqlx_error where "numeric_overflow = sql_error ''22003''"

text \<open>The first microsecond after the range of \<open>TIMESTAMPTZ\<close>, and \<open>BIGINT\<close> arithmetic.\<close>

definition TIMESTAMP_END :: int where "TIMESTAMP_END = 9223371331200000000"

definition bigint :: "int \<Rightarrow> int decoded" where
  "bigint n = (if - (2 ^ 63) \<le> n \<and> n < 2 ^ 63 then Ok n else Err numeric_overflow)"

text \<open>\<open>floor(extract(epoch FROM clock_timestamp()) * 1000)::BIGINT\<close>: timestamps count microseconds from 2000-01-01, epochs
  seconds from 1970-01-01.\<close>

definition TIMESTAMP_BEGIN :: int where "TIMESTAMP_BEGIN = - 211813488000000000"

definition UNIX_EPOCH_MICROS :: int where "UNIX_EPOCH_MICROS = 946684800000000"

definition SAMPLE_TIME :: "timestamp \<Rightarrow> int decoded" where
  "SAMPLE_TIME t =
     (if TIMESTAMP_BEGIN \<le> t \<and> t < TIMESTAMP_END then Ok ((t + UNIX_EPOCH_MICROS) div 1000) else Err datetime_overflow)"

definition EARLIEST_MS :: int where "EARLIEST_MS = (TIMESTAMP_BEGIN + UNIX_EPOCH_MICROS) div 1000"
definition LATEST_MS :: int where "LATEST_MS = (TIMESTAMP_END + UNIX_EPOCH_MICROS) div 1000"

lemma clock_bounds: "EARLIEST_MS = - 210866803200000" "LATEST_MS = 9224318016000000"
  by (simp_all add: EARLIEST_MS_def LATEST_MS_def TIMESTAMP_BEGIN_def TIMESTAMP_END_def UNIX_EPOCH_MICROS_def)

text \<open>What the clock can read.\<close>

definition sample_ok :: "int \<Rightarrow> bool" where "sample_ok t \<longleftrightarrow> EARLIEST_MS \<le> t \<and> t \<le> LATEST_MS"

lemma sample_time_ok: "SAMPLE_TIME u = Ok t \<Longrightarrow> sample_ok t"
  by (auto simp: SAMPLE_TIME_def sample_ok_def EARLIEST_MS_def LATEST_MS_def zdiv_mono1 split: if_splits)

text \<open>The milliseconds that a clock may give whose readings satisfy \<open>T\<close>.\<close>

definition sampled :: "(timestamp \<Rightarrow> bool) \<Rightarrow> int \<Rightarrow> bool" where
  "sampled T t \<longleftrightarrow> (\<exists>now. T now \<and> SAMPLE_TIME now = Ok t)"

lemma sampled_ok: "sampled T t \<Longrightarrow> sample_ok t"
  by (auto simp: sampled_def sample_time_ok)

section \<open>The capacity ledger's triggers\<close>

definition shard_deltas :: "window_row list \<Rightarrow> (nat \<times> nat) list" where
  "shard_deltas rows = (let shards = map (\<lambda>row. key_shard (wr_key row)) rows in
     map (\<lambda>s. (s, count_list shards s)) (sort (remdups shards)))"

fun ledger_after_insert :: "(nat \<times> nat) list \<Rightarrow> (nat \<Rightarrow> int option) \<Rightarrow> (sqlx_error, nat \<Rightarrow> int option) result" where
  "ledger_after_insert [] ledger = Ok ledger"
| "ledger_after_insert ((shard, added_rows) # deltas) ledger =
     (case ledger shard of
        None \<Rightarrow> Err foreign_key_violation
      | Some current_row_count \<Rightarrow>
          if int added_rows > 65536 - current_row_count then Err check_violation
          else ledger_after_insert deltas (ledger(shard \<mapsto> current_row_count + int added_rows)))"

fun ledger_after_delete :: "(nat \<times> nat) list \<Rightarrow> (nat \<Rightarrow> int option) \<Rightarrow> (sqlx_error, nat \<Rightarrow> int option) result" where
  "ledger_after_delete [] ledger = Ok ledger"
| "ledger_after_delete ((shard, removed_rows) # deltas) ledger =
     (case ledger shard of
        None \<Rightarrow> Err foreign_key_violation
      | Some current_row_count \<Rightarrow>
          if int removed_rows > current_row_count then Err check_violation
          else ledger_after_delete deltas (ledger(shard \<mapsto> current_row_count - int removed_rows)))"

section \<open>The statements\<close>

definition batch_key :: "batch_sql_input \<Rightarrow> nat \<Rightarrow> storage_key" where
  "batch_key input i = (bi_fingerprints input ! i, bi_subjects input ! i)"

definition positions :: "batch_sql_input \<Rightarrow> nat list" where
  "positions input = [0..<length (bi_fingerprints input)]"

definition missing_keys :: "batch_sql_input \<Rightarrow> pg_tables \<Rightarrow> nat list" where
  "missing_keys input d = filter (\<lambda>i. window_at d (batch_key input i) = None) (positions input)"

definition BATCH_CAPACITY_LOCK_SQL :: "batch_sql_input \<Rightarrow> pg_tables \<Rightarrow> capacity_row list" where
  "BATCH_CAPACITY_LOCK_SQL input d =
     map (\<lambda>i. \<lparr>cr_input_index = Ok (int i), cr_capacity_shard = Ok (int (bi_capacity_shards input ! i)),
        cr_row_count = Ok (tb_ledger d (bi_capacity_shards input ! i))\<rparr>) (missing_keys input d)"

definition quota_denies :: "batch_sql_input \<Rightarrow> timestamp \<Rightarrow> pg_tables \<Rightarrow> nat \<Rightarrow> bool" where
  "quota_denies input database_now d i =
     (case window_at d (batch_key input i) of
        None \<Rightarrow> False
      | Some row \<Rightarrow> wr_expires_at row > database_now \<and> wr_used row > bi_limits input ! i - bi_costs input ! i)"

definition BATCH_PREFLIGHT_SQL ::
    "batch_sql_input \<Rightarrow> timestamp \<Rightarrow> timestamp \<Rightarrow> pg_tables \<Rightarrow> preflight_row" where
  "BATCH_PREFLIGHT_SQL input database_now response_now d =
     (let first_denial = List.find (quota_denies input database_now d) (positions input) in
      \<lparr>pr_database_now = Ok database_now, pr_response_now = Ok response_now,
       pr_input_index = Ok (map_option int first_denial),
       pr_window_expires_at = Ok (Option.bind first_denial (\<lambda>i. map_option wr_expires_at (window_at d (batch_key input i))))\<rparr>)"

text \<open>One row of the \<open>INSERT\<close>. \<open>touched\<close> holds the rows this command has inserted or updated.\<close>

definition excluded_row :: "batch_sql_input \<Rightarrow> timestamp \<Rightarrow> nat \<Rightarrow> window_row" where
  "excluded_row input t i =
     \<lparr>wr_policy_id = bi_policy_ids input ! i, wr_scope_id = bi_scope_ids input ! i,
      wr_fingerprint = bi_fingerprints input ! i, wr_subject = bi_subjects input ! i,
      wr_started_at = t, wr_expires_at = t + bi_windows input ! i, wr_used = bi_costs input ! i\<rparr>"

definition updated_row :: "timestamp \<Rightarrow> window_row \<Rightarrow> window_row \<Rightarrow> (sqlx_error, window_row) result" where
  "updated_row t excluded row =
     (let named = row\<lparr>wr_policy_id := wr_policy_id excluded, wr_scope_id := wr_scope_id excluded\<rparr> in
      if wr_expires_at row \<le> t
      then Ok (named\<lparr>wr_started_at := t, wr_expires_at := t + (wr_expires_at excluded - wr_started_at excluded),
        wr_used := wr_used excluded\<rparr>)
      else and_then (bigint (wr_used row + wr_used excluded)) (\<lambda>used. Ok (named\<lparr>wr_used := used\<rparr>)))"

definition checked_row :: "window_row \<Rightarrow> (sqlx_error, window_row) result" where
  "checked_row row = (if row_constraints row then Ok row else Err check_violation)"

text \<open>The scalar subquery of the conflict clause.\<close>

definition quota_room :: "batch_sql_input \<Rightarrow> storage_key \<Rightarrow> int decoded" where
  "quota_room input k =
     (case filter (\<lambda>i. batch_key input i = k) (positions input) of
        [i] \<Rightarrow> Ok (bi_limits input ! i - bi_costs input ! i)
      | _ \<Rightarrow> Err cardinality_violation)"

definition replace_row :: "window_row \<Rightarrow> window_row list \<Rightarrow> window_row list" where
  "replace_row row rows = map (\<lambda>r. if wr_key r = wr_key row then row else r) rows"

type_synonym upsert_state = "window_row list \<times> window_row list \<times> window_row list"

definition upsert_row_step ::
    "batch_sql_input \<Rightarrow> timestamp \<Rightarrow> nat \<Rightarrow> upsert_state \<Rightarrow> (sqlx_error, upsert_state) result" where
  "upsert_row_step input t i st =
     (let (rows, inserted, touched) = st; excluded = excluded_row input t i in
      if wr_expires_at excluded \<ge> TIMESTAMP_END then Err datetime_overflow
      else and_then (checked_row excluded) (\<lambda>excluded.
      case find_row (wr_key excluded) rows of
        None \<Rightarrow> Ok (rows @ [excluded], inserted @ [excluded], touched @ [excluded])
      | Some row \<Rightarrow>
          if find_row (wr_key excluded) touched \<noteq> None then Err cardinality_violation
          else and_then (quota_room input (wr_key excluded)) (\<lambda>room.
            if wr_expires_at row \<le> t \<or> wr_used row \<le> room
            then and_then (updated_row t excluded row) (\<lambda>row.
              and_then (checked_row row) (\<lambda>row. Ok (replace_row row rows, inserted, touched @ [row])))
            else Ok st)))"

fun upsert_rows ::
    "batch_sql_input \<Rightarrow> timestamp \<Rightarrow> nat list \<Rightarrow> upsert_state \<Rightarrow> (sqlx_error, upsert_state) result" where
  "upsert_rows input t [] st = Ok st"
| "upsert_rows input t (i # is) st = and_then (upsert_row_step input t i st) (upsert_rows input t is)"

definition BATCH_UPSERT_SQL ::
    "batch_sql_input \<Rightarrow> timestamp \<Rightarrow> timestamp \<Rightarrow> pg_tables \<Rightarrow> (sqlx_error, pg_tables \<times> upsert_row list) result" where
  "BATCH_UPSERT_SQL input t response_now d =
     and_then (upsert_rows input t (positions input) (tb_windows d, [], [])) (\<lambda>(rows, inserted, upserted).
     and_then (ledger_after_insert (shard_deltas inserted) (tb_ledger d)) (\<lambda>ledger.
     Ok (\<lparr>tb_windows = rows, tb_ledger = ledger\<rparr>,
       List.map_filter (\<lambda>i. map_option (\<lambda>row.
         \<lparr>ur_input_index = Ok (int i), ur_used = Ok (wr_used row), ur_window_expires_at = Ok (wr_expires_at row),
          ur_response_now = Ok response_now\<rparr>) (find_row (batch_key input i) upserted)) (positions input))))"

section \<open>The table invariant\<close>

text \<open>Keys are unique, every row meets its constraints, and the ledger of each of the 256 shards holds the exact
  number of its rows, within the hard maximum.\<close>

definition rows_in_shard :: "nat \<Rightarrow> window_row list \<Rightarrow> nat" where
  "rows_in_shard s rows = count_list (map (\<lambda>row. key_shard (wr_key row)) rows) s"

definition tables_ok :: "pg_tables \<Rightarrow> bool" where
  "tables_ok d \<longleftrightarrow>
     distinct (map wr_key (tb_windows d)) \<and> list_all row_constraints (tb_windows d) \<and>
     (\<forall>s<CAPACITY_SHARD_COUNT. tb_ledger d s = Some (int (rows_in_shard s (tb_windows d))) \<and>
        rows_in_shard s (tb_windows d) \<le> HARD_MAX_ROWS_PER_SHARD)"

lemma key_shard_less: "key_shard k < CAPACITY_SHARD_COUNT"
  unfolding key_shard_def CAPACITY_SHARD_COUNT_def
  using unsigned_less [where ?'a = nat, of "xor (fst k ! 0) (snd k ! 0)"] by simp

end
