(* ===== verification/Postgres_Sql_Correct.thy ===== *)
theory Postgres_Sql_Correct
  imports Postgres_Sql
begin

text \<open>
  What the statements of a batch compute together with the client's decoding: the specification of one
  batch on the tables (the first check in caller order that has no quota or no storage slot, or else
  every counter charged), and the proof that \<open>batch_result\<close> on the SQL of \<open>Postgres_Sql\<close> meets it and keeps
  the table invariant, the exact ledger included.
\<close>

section \<open>Specification\<close>

text \<open>A check as its constructors leave it, and what the driver documents of whole-millisecond intervals.\<close>

definition pg_check_ok :: "fixed_window_policy check \<Rightarrow> bool" where
  "pg_check_ok c \<longleftrightarrow>
     policy_id_ok (fwp_id (chk_policy c)) \<and> scope_id_ok (fwp_scope (chk_policy c)) \<and>
     capacity_ok (fwp_limit (chk_policy c)) \<and> period_ok (fwp_window (chk_policy c)) \<and>
     check_ok FixedWindowPolicy c \<and> counter_key_ok (chk_counter_key FixedWindowPolicy c)"

definition interval_exact :: "(duration \<Rightarrow> int option) \<Rightarrow> bool" where
  "interval_exact to_interval \<longleftrightarrow>
     (\<forall>p. period_ok p \<longrightarrow> to_interval (period_duration p) = Some (int (period_millis p) * 1000))"

definition pg_key :: "fixed_window_policy check \<Rightarrow> storage_key" where
  "pg_key c = (fingerprint_bytes (ck_fingerprint (chk_counter_key FixedWindowPolicy c)), subject_bytes (chk_subject c))"

definition window_micros :: "fixed_window_policy check \<Rightarrow> int" where
  "window_micros c = int (period_millis (fwp_window (chk_policy c))) * 1000"

text \<open>The slots missing for checks before position \<open>i\<close> in the shard of check \<open>i\<close>.\<close>

definition slots_before :: "pg_tables \<Rightarrow> fixed_window_policy check list \<Rightarrow> nat \<Rightarrow> nat" where
  "slots_before d checks i =
     length (filter (\<lambda>j. window_at d (pg_key (checks ! j)) = None \<and> key_shard (pg_key (checks ! j)) = key_shard (pg_key (checks ! i)))
       [0..<i])"

definition pg_denial_at ::
    "nat \<Rightarrow> timestamp \<Rightarrow> pg_tables \<Rightarrow> fixed_window_policy check list \<Rightarrow> nat \<Rightarrow> pending_denial option" where
  "pg_denial_at maximum now d checks i =
     (let c = checks ! i; limit = fwp_limit (chk_policy c) in
      case window_at d (pg_key c) of
        None \<Rightarrow>
          if rows_in_shard (key_shard (pg_key c)) (tb_windows d) + slots_before d checks i + 1 > maximum
          then Some PD_StorageCapacity else None
      | Some row \<Rightarrow>
          if wr_expires_at row > now \<and> wr_used row + int (chk_cost c) > int (capacity_get limit)
          then Some (PD_Quota \<lparr>pq_limit = limit, pq_retry_from_sample = nat (wr_expires_at row - now) * 1000\<rparr>)
          else None)"

definition pg_first_denial where
  "pg_first_denial maximum now d checks =
     map_option (\<lambda>i. (i, the (pg_denial_at maximum now d checks i)))
       (List.find (\<lambda>i. pg_denial_at maximum now d checks i \<noteq> None) [0..<length checks])"

text \<open>The row of a counter after it is charged: a live window keeps its expiry.\<close>

definition charged_row :: "timestamp \<Rightarrow> fixed_window_policy check \<Rightarrow> window_row option \<Rightarrow> window_row" where
  "charged_row t c row =
     (let started = (case row of Some r \<Rightarrow> if wr_expires_at r > t then Some r else None | None \<Rightarrow> None) in
      \<lparr>wr_policy_id = policy_id_str (fwp_id (chk_policy c)), wr_scope_id = scope_id_str (fwp_scope (chk_policy c)),
       wr_fingerprint = fst (pg_key c), wr_subject = snd (pg_key c),
       wr_started_at = (case started of None \<Rightarrow> t | Some r \<Rightarrow> wr_started_at r),
       wr_expires_at = (case started of None \<Rightarrow> t + window_micros c | Some r \<Rightarrow> wr_expires_at r),
       wr_used = (case started of None \<Rightarrow> 0 | Some r \<Rightarrow> wr_used r) + int (chk_cost c)\<rparr>)"

definition pg_allowance :: "timestamp \<Rightarrow> pg_tables \<Rightarrow> fixed_window_policy check \<Rightarrow> pg_pending_allowance" where
  "pg_allowance t d c =
     (let row = charged_row t c (window_at d (pg_key c)); limit = fwp_limit (chk_policy c) in
      \<lparr>pp_allowance = Allowance limit (capacity_get limit - nat (wr_used row)) (Delay (nat (wr_expires_at row - t) * 1000))\<rparr>)"

text \<open>Every counter of the batch charged, and no other one touched.\<close>

definition pg_charged :: "timestamp \<Rightarrow> fixed_window_policy check list \<Rightarrow> pg_tables \<Rightarrow> pg_tables \<Rightarrow> bool" where
  "pg_charged t checks d d' \<longleftrightarrow>
     (\<forall>k. window_at d' k =
        (case List.find (\<lambda>c. pg_key c = k) checks of
           None \<Rightarrow> window_at d k
         | Some c \<Rightarrow> Some (charged_row t c (window_at d k))))"

section \<open>The parameters of the statements\<close>

text \<open>The arrays of a batch, check by check.\<close>

definition input_of :: "fixed_window_policy check list \<Rightarrow> batch_sql_input \<Rightarrow> bool" where
  "input_of checks input \<longleftrightarrow>
     length (bi_fingerprints input) = length checks \<and> length (bi_capacity_shards input) = length checks \<and>
     (\<forall>i < length checks.
        batch_key input i = pg_key (checks ! i) \<and>
        bi_capacity_shards input ! i = key_shard (pg_key (checks ! i)) \<and>
        bi_windows input ! i = window_micros (checks ! i) \<and>
        bi_costs input ! i = int (chk_cost (checks ! i)) \<and>
        bi_limits input ! i = int (capacity_get (fwp_limit (chk_policy (checks ! i)))) \<and>
        bi_policy_ids input ! i = policy_id_str (fwp_id (chk_policy (checks ! i))) \<and>
        bi_scope_ids input ! i = scope_id_str (fwp_scope (chk_policy (checks ! i))))"

lemma those_map_Some: "(\<And>x. x \<in> set xs \<Longrightarrow> f x = Some (g x)) \<Longrightarrow> those (map f xs) = Some (map g xs)"
  by (induction xs) auto

lemma key_shard_capacity: "key_shard (pg_key c) = capacity_shard (chk_counter_key FixedWindowPolicy c)"
  by (simp add: key_shard_def pg_key_def capacity_shard_def chk_counter_key_def)

lemma pg_check_bounds:
  assumes "pg_check_ok c"
  shows "0 < chk_cost c" "chk_cost c \<le> capacity_get (fwp_limit (chk_policy c))"
    "capacity_get (fwp_limit (chk_policy c)) < 2 ^ 63" "0 < window_micros c"
  using assms by (auto simp: pg_check_ok_def check_ok_def FixedWindowPolicy_def capacity_ok_def MAX_LIMIT_def i64_MAX_def
      period_ok_def window_micros_def)

lemma from_checks_ok:
  assumes "\<forall>c \<in> set checks. pg_check_ok c" "interval_exact to_interval" "length checks < 2 ^ 63"
  shows "\<exists>input. BatchSqlInput_from_checks sha256 to_interval checks = Some input \<and> input_of checks input"
proof -
  let ?n = "length checks" and ?keys = "map (chk_counter_key FixedWindowPolicy) checks"
  let ?ord = "sort_key (\<lambda>index. ?keys ! index) [0..<?n]"
  have lock: "those (map (\<lambda>index. map_option nat (database_integer (index + 1))) ?ord) = Some (map Suc ?ord)"
    by (rule those_map_Some) (use assms(3) in \<open>auto simp: database_integer_def\<close>)
  have win: "those (map (\<lambda>check. to_interval (period_duration (fwp_window (chk_policy check)))) checks) = Some (map window_micros checks)"
    by (rule those_map_Some) (use assms(1,2) in \<open>auto simp: interval_exact_def pg_check_ok_def window_micros_def\<close>)
  have cost: "those (map (\<lambda>check. database_integer (chk_cost check)) checks) = Some (map (\<lambda>c. int (chk_cost c)) checks)"
  proof (rule those_map_Some)
    fix c assume "c \<in> set checks"
    with assms(1) have "pg_check_ok c" by blast
    from pg_check_bounds(2,3) [OF this] show "database_integer (chk_cost c) = Some (int (chk_cost c))"
      by (simp add: database_integer_def)
  qed
  have limit: "those (map (\<lambda>check. database_integer (capacity_get (fwp_limit (chk_policy check)))) checks) =
      Some (map (\<lambda>c. int (capacity_get (fwp_limit (chk_policy c)))) checks)"
    by (rule those_map_Some) (use assms(1) pg_check_bounds(3) in \<open>auto simp: database_integer_def\<close>)
  show ?thesis
    using lock win cost limit
    by (simp add: BatchSqlInput_from_checks_def input_of_def batch_key_def key_shard_def capacity_shard_def pg_key_def chk_counter_key_def Let_def)
qed

section \<open>Storage capacity\<close>

definition shard_total :: "(nat \<Rightarrow> nat) \<Rightarrow> nat list \<Rightarrow> nat \<Rightarrow> nat" where
  "shard_total shard is s = length (filter (\<lambda>j. shard j = s) is)"

definition slot_refused :: "(nat \<Rightarrow> nat) \<Rightarrow> (nat \<Rightarrow> nat) \<Rightarrow> nat \<Rightarrow> nat list \<Rightarrow> nat \<Rightarrow> bool" where
  "slot_refused led shard maximum is i \<longleftrightarrow>
     led (shard i) + shard_total shard (filter (\<lambda>j. j < i) is) (shard i) + 1 > maximum"

lemma filter_before:
  "sorted_wrt (<) (done @ i # is) \<Longrightarrow> filter (\<lambda>j. j < (i :: nat)) (done @ i # is) = done"
  by (auto simp: sorted_wrt_append intro!: filter_True filter_False)

lemma shard_total_snoc: "shard_total shard (done @ [i]) s = shard_total shard done s + (if shard i = s then 1 else 0)"
  by (simp add: shard_total_def)

lemma capacity_loop_spec:
  assumes "sorted_wrt (<) (done @ is)" "\<forall>i \<in> set is. i < length shards \<and> shards ! i < CAPACITY_SHARD_COUNT"
    and "\<forall>s < CAPACITY_SHARD_COUNT. ledger s = Some (int (led s)) \<and> led s \<le> HARD_MAX_ROWS_PER_SHARD"
    and "length (done @ is) < 2 ^ 63"
  shows "capacity_loop shards maximum (map (shard_total ((!) shards) done) [0..<CAPACITY_SHARD_COUNT])
     (map (\<lambda>i. \<lparr>cr_input_index = Ok (int i), cr_capacity_shard = Ok (int (shards ! i)), cr_row_count = Ok (ledger (shards ! i))\<rparr>) is) =
     Ok (map_option (\<lambda>i. (i, PD_StorageCapacity)) (List.find (slot_refused led ((!) shards) maximum (done @ is)) is))"
  using assms
proof (induction "is" arbitrary: "done")
  case (Cons i "is")
  let ?s = "shards ! i" and ?pend = "\<lambda>done. map (shard_total ((!) shards) done) [0..<CAPACITY_SHARD_COUNT]"
  from Cons.prems have i: "i < length shards" "?s < CAPACITY_SHARD_COUNT" "ledger ?s = Some (int (led ?s))"
    "led ?s \<le> HARD_MAX_ROWS_PER_SHARD" by auto
  have le: "shard_total ((!) shards) done ?s \<le> length done" by (simp add: shard_total_def)
  have add: "Option.bind (checked_add 64 (led ?s) (shard_total ((!) shards) done ?s)) (\<lambda>rows. checked_add 64 rows 1) =
      Some (led ?s + shard_total ((!) shards) done ?s + 1)"
    using le i(4) Cons.prems(4) by (simp add: checked_add_def HARD_MAX_ROWS_PER_SHARD_def)
  have upd: "(?pend done)[?s := shard_total ((!) shards) done ?s + 1] = ?pend (done @ [i])"
    using i(2) by (intro nth_equalityI) (auto simp: shard_total_snoc nth_list_update)
  have refused: "slot_refused led ((!) shards) maximum (done @ i # is) i \<longleftrightarrow> led ?s + shard_total ((!) shards) done ?s + 1 > maximum"
    unfolding slot_refused_def filter_before [OF Cons.prems(1)] ..
  have IH: "capacity_loop shards maximum (?pend (done @ [i]))
     (map (\<lambda>i. \<lparr>cr_input_index = Ok (int i), cr_capacity_shard = Ok (int (shards ! i)), cr_row_count = Ok (ledger (shards ! i))\<rparr>) is) =
     Ok (map_option (\<lambda>i. (i, PD_StorageCapacity)) (List.find (slot_refused led ((!) shards) maximum (done @ i # is)) is))"
    using Cons.IH [of "done @ [i]"] Cons.prems by simp
  have get: "get_opt shards i = Some ?s" "get_opt (?pend done) ?s = Some (shard_total ((!) shards) done ?s)"
    using i(1,2) by (simp_all add: get_opt_def)
  show ?case using IH
    by (simp add: try_get_def map_err_def nonnegative_def ok_or_def get i(3) add [simplified] refused upd [simplified] del: find.simps(2))
      (simp add: refused)
qed simp

lemma find_filter: "List.find P (filter Q xs) = List.find (\<lambda>x. Q x \<and> P x) xs"
  by (induction xs) auto

lemma find_cong_set: "(\<And>x. x \<in> set xs \<Longrightarrow> P x = Q x) \<Longrightarrow> List.find P xs = List.find Q xs"
  by (induction xs) auto

lemma tables_ledger:
  "tables_ok d \<Longrightarrow> \<forall>s < CAPACITY_SHARD_COUNT. tb_ledger d s = Some (int (rows_in_shard s (tb_windows d))) \<and>
     rows_in_shard s (tb_windows d) \<le> HARD_MAX_ROWS_PER_SHARD"
  by (simp add: tables_ok_def)

lemma missing_keys_eq:
  "input_of checks input \<Longrightarrow> missing_keys input d = filter (\<lambda>i. window_at d (pg_key (checks ! i)) = None) [0..<length checks]"
  unfolding missing_keys_def positions_def by (auto simp: input_of_def intro!: filter_cong)

lemma slot_refused_denial:
  assumes "input_of checks input" "i < length checks" "window_at d (pg_key (checks ! i)) = None"
  shows "slot_refused (\<lambda>s. rows_in_shard s (tb_windows d)) ((!) (bi_capacity_shards input)) maximum (missing_keys input d) i \<longleftrightarrow>
    pg_denial_at maximum now d checks i = Some PD_StorageCapacity"
proof -
  let ?m = "\<lambda>i. window_at d (pg_key (checks ! i)) = None"
  have up: "[0..<length checks] = [0..<i] @ [i..<length checks]" using assms(2) upt_add_eq_append [of 0 i "length checks - i"] by simp
  have "filter (\<lambda>j. j < i) (missing_keys input d) = filter ?m [0..<i]"
    unfolding missing_keys_eq [OF assms(1)] up filter_append by (auto intro!: filter_cong)
  then have "shard_total ((!) (bi_capacity_shards input)) (filter (\<lambda>j. j < i) (missing_keys input d)) (bi_capacity_shards input ! i) =
      slots_before d checks i"
    using assms(1,2) by (auto simp: shard_total_def slots_before_def input_of_def intro!: arg_cong [where f = length] filter_cong)
  then show ?thesis using assms by (simp add: slot_refused_def pg_denial_at_def input_of_def Let_def)
qed

lemma cap_spec:
  assumes "tables_ok d" "input_of checks input" "length checks < 2 ^ 63"
  shows "capacity_loop (bi_capacity_shards input) maximum (replicate CAPACITY_SHARD_COUNT 0) (BATCH_CAPACITY_LOCK_SQL input d) =
     Ok (map_option (\<lambda>i. (i, PD_StorageCapacity))
       (List.find (\<lambda>i. pg_denial_at maximum now d checks i = Some PD_StorageCapacity) [0..<length checks]))"
proof -
  let ?ms = "missing_keys input d" and ?sh = "bi_capacity_shards input"
  have len: "length ?ms < 2 ^ 63"
    using assms(3) length_filter_le [of _ "[0..<length checks]"] unfolding missing_keys_eq [OF assms(2)]
    by (metis (lifting) diff_zero length_upt order_le_less_trans)
  have ms: "sorted_wrt (<) ?ms" "\<forall>i \<in> set ?ms. i < length ?sh \<and> ?sh ! i < CAPACITY_SHARD_COUNT"
    using assms(2) by (auto simp: missing_keys_eq [OF assms(2)] sorted_wrt_filter input_of_def key_shard_less)
  have init: "map (shard_total ((!) ?sh) []) [0..<CAPACITY_SHARD_COUNT] = replicate CAPACITY_SHARD_COUNT 0"
    by (intro nth_equalityI) (simp_all add: shard_total_def)
  have "List.find (slot_refused (\<lambda>s. rows_in_shard s (tb_windows d)) ((!) ?sh) maximum ?ms) ?ms =
      List.find (\<lambda>i. pg_denial_at maximum now d checks i = Some PD_StorageCapacity) [0..<length checks]"
    unfolding missing_keys_eq [OF assms(2)] find_filter
    by (rule find_cong_set)
      (auto simp: slot_refused_denial [OF assms(2), where now = now] missing_keys_eq [OF assms(2), symmetric]
        pg_denial_at_def Let_def split: option.splits if_splits)
  then show ?thesis
    using capacity_loop_spec [of "[]" ?ms ?sh "tb_ledger d" "\<lambda>s. rows_in_shard s (tb_windows d)" maximum] ms len tables_ledger [OF assms(1)]
    unfolding BATCH_CAPACITY_LOCK_SQL_def append_Nil init by simp
qed

section \<open>Quota\<close>

abbreviation is_quota :: "pending_denial option \<Rightarrow> bool" where "is_quota x \<equiv> \<exists>q. x = Some (PD_Quota q)"

lemma quota_denies_denial:
  assumes "input_of checks input" "i < length checks"
  shows "quota_denies input now d i \<longleftrightarrow> is_quota (pg_denial_at maximum now d checks i)"
  using assms by (auto simp: quota_denies_def pg_denial_at_def input_of_def Let_def split: option.splits)

lemma pre_spec:
  assumes "input_of checks input"
  shows "decode_preflight checks (BATCH_PREFLIGHT_SQL input now r d) =
    Ok \<lparr>bp_database_now = now, bp_response_now = r,
      bp_denial = map_option (\<lambda>i. (i, the (pg_denial_at maximum now d checks i)))
        (List.find (\<lambda>i. is_quota (pg_denial_at maximum now d checks i)) [0..<length checks])\<rparr>"
proof -
  have pos: "positions input = [0..<length checks]" using assms by (simp add: positions_def input_of_def)
  have find: "List.find (quota_denies input now d) (positions input) =
      List.find (\<lambda>i. is_quota (pg_denial_at maximum now d checks i)) [0..<length checks]" (is "_ = ?f")
    unfolding pos by (rule find_cong_set) (simp add: quota_denies_denial [OF assms])
  show ?thesis
  proof (cases ?f)
    case None
    then show ?thesis using find
      by (simp add: BATCH_PREFLIGHT_SQL_def decode_preflight_def try_get_def map_err_def preflight_denial_def)
  next
    case (Some i)
    then have i: "i < length checks" "is_quota (pg_denial_at maximum now d checks i)" by (auto simp: find_Some_iff)
    then obtain row where row: "window_at d (pg_key (checks ! i)) = Some row" "wr_expires_at row > now"
      "pg_denial_at maximum now d checks i = Some (PD_Quota
         \<lparr>pq_limit = fwp_limit (chk_policy (checks ! i)), pq_retry_from_sample = nat (wr_expires_at row - now) * 1000\<rparr>)"
      by (auto simp: pg_denial_at_def Let_def split: option.splits if_splits)
    have key: "batch_key input i = pg_key (checks ! i)" using assms i by (simp add: input_of_def)
    show ?thesis using find Some i row
      by (simp add: BATCH_PREFLIGHT_SQL_def decode_preflight_def try_get_def map_err_def preflight_denial_def key nonnegative_def
          get_opt_def ok_or_def duration_until_def to_std_def)
  qed
qed

text \<open>The earlier of the two first denials is the first denial.\<close>

lemma find_upt_Some_iff: "List.find P [0..<n] = Some i \<longleftrightarrow> i < n \<and> P i \<and> (\<forall>j < i. \<not> P j)"
  by (auto simp: find_Some_iff)

lemma find_upt_None_iff: "List.find P [0..<n] = None \<longleftrightarrow> (\<forall>j < n. \<not> P j)"
  by (auto simp: find_None_iff)

lemma first_denial_spec:
  "first_denial_of
     (map_option (\<lambda>i. (i, PD_StorageCapacity)) (List.find (\<lambda>i. f i = Some PD_StorageCapacity) [0..<n]))
     (map_option (\<lambda>i. (i, the (f i))) (List.find (\<lambda>i. is_quota (f i)) [0..<n])) =
   map_option (\<lambda>i. (i, the (f i))) (List.find (\<lambda>i. f i \<noteq> None) [0..<n])"
proof -
  let ?c = "List.find (\<lambda>i. f i = Some PD_StorageCapacity) [0..<n]" and ?q = "List.find (\<lambda>i. is_quota (f i)) [0..<n]"
    and ?a = "List.find (\<lambda>i. f i \<noteq> None) [0..<n]"
  have split: "f i \<noteq> None \<longleftrightarrow> f i = Some PD_StorageCapacity \<or> is_quota (f i)" for i
    by (metis not_None_eq pending_denial.exhaust)
  show ?thesis
  proof (cases ?a)
    case None
    then have "?c = None" "?q = None" unfolding find_upt_None_iff by auto
    with None show ?thesis by (simp add: first_denial_of_def)
  next
    case (Some i)
    then have i: "i < n" "f i \<noteq> None" "\<And>j. j < i \<Longrightarrow> f j = None" by (auto simp: find_upt_Some_iff)
    have c: "?c = Some k \<Longrightarrow> i \<le> k" and q: "?q = Some k \<Longrightarrow> i \<le> k" for k
      unfolding find_upt_Some_iff using i(3) by (metis not_le option.distinct(1))+
    consider "f i = Some PD_StorageCapacity" "?c = Some i" "?q \<noteq> Some i" | "is_quota (f i)" "?q = Some i" "?c \<noteq> Some i"
      using split [of i] i by (auto simp: find_upt_Some_iff)
    then show ?thesis using Some c q by cases (auto simp: first_denial_of_def le_less split: option.split)
  qed
qed

section \<open>The upsert\<close>

lemma find_row_simps [simp]:
  "find_row k [] = None" "find_row k (r # rows) = (if wr_key r = k then Some r else find_row k rows)"
  by (simp_all add: find_row_def)

lemma find_row_append: "find_row k (xs @ ys) = (case find_row k xs of None \<Rightarrow> find_row k ys | Some r \<Rightarrow> Some r)"
  by (induction xs) auto

lemma find_row_key: "find_row k rows = Some r \<Longrightarrow> wr_key r = k \<and> r \<in> set rows"
  by (induction rows) (auto split: if_splits)

lemma find_row_None: "find_row k rows = None \<longleftrightarrow> k \<notin> wr_key ` set rows"
  by (induction rows) auto

lemma find_row_replace:
  "find_row k (replace_row r rows) = (if k = wr_key r \<and> find_row k rows \<noteq> None then Some r else find_row k rows)"
  by (induction rows) (auto simp: replace_row_def)

lemma replace_row_keys [simp]: "map wr_key (replace_row r rows) = map wr_key rows"
  by (induction rows) (auto simp: replace_row_def)

lemma charged_row_key [simp]: "wr_key (charged_row t c r) = pg_key c"
  by (simp add: wr_key_def charged_row_def Let_def)

definition row_admits :: "timestamp \<Rightarrow> fixed_window_policy check \<Rightarrow> window_row option \<Rightarrow> bool" where
  "row_admits t c r =
     (case r of
        None \<Rightarrow> True
      | Some row \<Rightarrow> wr_expires_at row \<le> t \<or> wr_used row + int (chk_cost c) \<le> int (capacity_get (fwp_limit (chk_policy c))))"

lemma identifier_octets: "identifier_ok s \<Longrightarrow> length (as_bytes s) \<in> {1..128}"
  using as_bytes_ascii [of s] identifier_ok_ascii [of s]
  by (auto simp: identifier_ok_def MAX_IDENTIFIER_LENGTH_def Suc_le_eq)

lemma charged_row_ok:
  assumes "pg_check_ok c" "\<And>row. r = Some row \<Longrightarrow> row_constraints row"
  shows "row_constraints (charged_row t c r)"
  using assms pg_check_bounds [OF assms(1)] identifier_octets
  by (auto simp: row_constraints_def charged_row_def pg_check_ok_def policy_id_ok_def scope_id_ok_def counter_key_ok_def
      pg_key_def chk_counter_key_def Let_def split: option.split)

lemma charged_row_used:
  assumes "pg_check_ok c" "row_admits t c r" "\<And>row. r = Some row \<Longrightarrow> row_constraints row"
  shows "0 < wr_used (charged_row t c r)" "wr_used (charged_row t c r) \<le> int (capacity_get (fwp_limit (chk_policy c)))"
    "t < wr_expires_at (charged_row t c r)"
  using assms(2,3) pg_check_bounds [OF assms(1)]
  by (auto simp: row_admits_def charged_row_def row_constraints_def Let_def split: option.splits)

lemma quota_room_distinct:
  assumes "input_of checks input" "distinct (map pg_key checks)" "i < length checks"
  shows "quota_room input (pg_key (checks ! i)) = Ok (int (capacity_get (fwp_limit (chk_policy (checks ! i)))) - int (chk_cost (checks ! i)))"
proof -
  have "filter (\<lambda>j. batch_key input j = pg_key (checks ! i)) (positions input) = filter (\<lambda>j. j = i) [0..<length checks]"
    using assms nth_eq_iff_index_eq [OF assms(2)] by (auto simp: positions_def input_of_def intro!: filter_cong)
  also have "\<dots> = [i]" using assms(3) by (induction checks rule: rev_induct) (auto simp: nth_append)
  finally show ?thesis using assms(1,3) by (simp add: quota_room_def input_of_def)
qed

lemma upsert_row_step_spec:
  fixes rows :: "window_row list" and t :: timestamp
  assumes input: "input_of checks input" "distinct (map pg_key checks)" "i < length checks"
  defines "c \<equiv> checks ! i"
  defines "new \<equiv> charged_row t c (find_row (pg_key c) rows)"
  assumes ok: "pg_check_ok c" "t + window_micros c < TIMESTAMP_END" "list_all row_constraints rows"
    and free: "find_row (pg_key c) touched = None" and admits: "row_admits t c (find_row (pg_key c) rows)"
  shows "upsert_row_step input t i (rows, inserted, touched) =
    Ok (if find_row (pg_key c) rows = None then (rows @ [new], inserted @ [new], touched @ [new])
        else (replace_row new rows, inserted, touched @ [new]))"
proof -
  have ex: "excluded_row input t i = charged_row t c None"
    using input by (simp add: excluded_row_def charged_row_def input_of_def batch_key_def c_def Let_def)
      (metis fst_conv snd_conv)
  have exok: "checked_row (charged_row t c None) = Ok (charged_row t c None)"
    using charged_row_ok [OF ok(1), of None] by (simp add: checked_row_def)
  have exp: "wr_expires_at (charged_row t c None) = t + window_micros c" by (simp add: charged_row_def)
  show ?thesis
  proof (cases "find_row (pg_key c) rows")
    case None
    then show ?thesis using ok(2) exok exp by (simp add: upsert_row_step_def ex new_def Let_def)
  next
    case (Some row)
    then have row: "wr_key row = pg_key c" "row_constraints row" using ok(3) find_row_key by (auto simp: list_all_iff)
    have newok: "row_constraints new" unfolding new_def Some by (rule charged_row_ok [OF ok(1)]) (use row(2) in simp)
    have k: "fst (pg_key c) = wr_fingerprint row" "snd (pg_key c) = wr_subject row" by (simp_all add: row(1) [symmetric] wr_key_def)
    have upd: "updated_row t (charged_row t c None) row = Ok new"
      using admits Some row(2) k pg_check_bounds [OF ok(1)]
      by (cases row) (auto simp: updated_row_def new_def charged_row_def row_admits_def bigint_def row_constraints_def Let_def)
    have room: "quota_room input (pg_key c) = Ok (int (capacity_get (fwp_limit (chk_policy c))) - int (chk_cost c))"
      unfolding c_def by (rule quota_room_distinct [OF input])
    show ?thesis using ok(2) exok exp Some free upd newok admits
      by (auto simp: upsert_row_step_def ex room checked_row_def [of new] row_admits_def Let_def)
  qed
qed

text \<open>The row of position \<open>i\<close> after the statement, from \<open>rows\<close> before it.\<close>

definition upserted where
  "upserted t checks rows i = charged_row t (checks ! i) (find_row (pg_key (checks ! i)) rows)"

lemma upsert_rows_spec:
  assumes input: "input_of checks input" "distinct (map pg_key checks)"
    and ok: "\<forall>c \<in> set checks. pg_check_ok c \<and> t + window_micros c < TIMESTAMP_END"
  shows "distinct is \<Longrightarrow> \<forall>i \<in> set is. i < length checks \<Longrightarrow> list_all row_constraints rows \<Longrightarrow>
    \<forall>i \<in> set is. find_row (pg_key (checks ! i)) touched = None \<and> row_admits t (checks ! i) (find_row (pg_key (checks ! i)) rows) \<Longrightarrow>
    \<exists>rows' new. upsert_rows input t is (rows, inserted, touched) =
        Ok (rows', inserted @ new, touched @ map (upserted t checks rows) is) \<and>
      (\<forall>k. find_row k rows' = (case List.find (\<lambda>i. pg_key (checks ! i) = k) is of
          None \<Rightarrow> find_row k rows | Some i \<Rightarrow> Some (upserted t checks rows i))) \<and>
      map wr_key new = map (\<lambda>i. pg_key (checks ! i)) (filter (\<lambda>i. find_row (pg_key (checks ! i)) rows = None) is) \<and>
      map wr_key rows' = map wr_key rows @ map wr_key new \<and> list_all row_constraints rows'"
proof (induction "is" arbitrary: rows inserted touched)
  case (Cons i "is")
  let ?key = "\<lambda>i. pg_key (checks ! i)"
  let ?new = "charged_row t (checks ! i) (find_row (?key i) rows)"
  let ?rows = "if find_row (?key i) rows = None then rows @ [?new] else replace_row ?new rows"
  let ?ins = "if find_row (?key i) rows = None then inserted @ [?new] else inserted"
  have i: "i < length checks" "checks ! i \<in> set checks" using Cons.prems(2) by auto
  have step: "upsert_row_step input t i (rows, inserted, touched) = Ok (?rows, ?ins, touched @ [?new])"
    using upsert_row_step_spec [OF input i(1), of t rows touched inserted] ok i(2) Cons.prems(3,4) by simp
  have newok: "row_constraints ?new"
    by (rule charged_row_ok) (use ok i(2) find_row_key Cons.prems(3) in \<open>auto simp: list_all_iff\<close>)
  have keyneq: "?key j \<noteq> ?key i" if "j \<in> set is" for j
    using that Cons.prems(1,2) nth_eq_iff_index_eq [OF input(2), of j i] by auto
  have find: "find_row k ?rows = (if k = ?key i then Some ?new else find_row k rows)" for k
    by (auto simp: find_row_append find_row_replace split: option.split)
  have rowsok: "list_all row_constraints ?rows" using Cons.prems(3) newok by (auto simp: list_all_iff replace_row_def)
  have "\<forall>j \<in> set is. find_row (?key j) (touched @ [?new]) = None \<and> row_admits t (checks ! j) (find_row (?key j) ?rows)"
    using Cons.prems(4) keyneq by (auto simp: find_row_append find dest: keyneq [symmetric])
  with Cons.IH [of ?rows "touched @ [?new]" ?ins] Cons.prems(1,2) rowsok obtain rows' new where
    IH: "upsert_rows input t is (?rows, ?ins, touched @ [?new]) = Ok (rows', ?ins @ new, (touched @ [?new]) @ map (upserted t checks ?rows) is)"
      "\<And>k. find_row k rows' = (case List.find (\<lambda>i. ?key i = k) is of None \<Rightarrow> find_row k ?rows | Some i \<Rightarrow> Some (upserted t checks ?rows i))"
      "map wr_key new = map ?key (filter (\<lambda>i. find_row (?key i) ?rows = None) is)"
      "map wr_key rows' = map wr_key ?rows @ map wr_key new" "list_all row_constraints rows'"
    by auto
  have ups: "upserted t checks ?rows j = upserted t checks rows j" if "j \<in> set is" for j
    using keyneq [OF that] by (simp add: upserted_def find)
  have miss: "filter (\<lambda>i. find_row (?key i) ?rows = None) is = filter (\<lambda>i. find_row (?key i) rows = None) is"
    using keyneq by (auto simp: find intro!: filter_cong)
  have find': "find_row k rows' = (case List.find (\<lambda>i. ?key i = k) (i # is) of
      None \<Rightarrow> find_row k rows | Some i \<Rightarrow> Some (upserted t checks rows i))" for k
  proof (cases "List.find (\<lambda>i. ?key i = k) is")
    case None
    then show ?thesis using IH(2) [of k] by (simp add: find upserted_def)
  next
    case (Some j)
    then have "j \<in> set is" "?key j = k" by (auto simp: find_Some_iff)
    with keyneq [of j] ups have "?key i \<noteq> k" "upserted t checks ?rows j = upserted t checks rows j" by auto
    then show ?thesis using IH(2) [of k] Some by simp
  qed
  let ?n = "if find_row (?key i) rows = None then ?new # new else new"
  have "upsert_rows input t (i # is) (rows, inserted, touched) =
      Ok (rows', inserted @ ?n, touched @ map (upserted t checks rows) (i # is))"
    using step IH(1) ups by (simp add: upserted_def)
  moreover have "map wr_key ?n = map ?key (filter (\<lambda>i. find_row (?key i) rows = None) (i # is))"
    using IH(3) miss by simp
  moreover have "map wr_key rows' = map wr_key rows @ map wr_key ?n" using IH(4) by simp
  ultimately show ?case using find' IH(5) by blast
qed simp

text \<open>The insert trigger adds the inserted rows to the ledger.\<close>

lemma ledger_after_insert_spec:
  assumes "distinct (map fst deltas)"
    "\<forall>(s, n) \<in> set deltas. \<exists>m. ledger s = Some (int m) \<and> m + n \<le> 65536"
  shows "\<exists>ledger'. ledger_after_insert deltas ledger = Ok ledger' \<and>
    (\<forall>s. ledger' s = (case map_of deltas s of None \<Rightarrow> ledger s | Some n \<Rightarrow> map_option (\<lambda>m. m + int n) (ledger s)))"
  using assms
proof (induction deltas ledger rule: ledger_after_insert.induct)
  case (2 s n deltas ledger)
  then obtain m where m: "ledger s = Some (int m)" "m + n \<le> 65536" by auto
  let ?l = "ledger(s \<mapsto> int m + int n)"
  have "\<forall>(s', n') \<in> set deltas. \<exists>m. ?l s' = Some (int m) \<and> m + n' \<le> 65536" using 2(2,3) by force
  with 2(1) [OF m(1)] 2(2) m(2) obtain l' where l': "ledger_after_insert deltas ?l = Ok l'"
    "\<forall>x. l' x = (case map_of deltas x of None \<Rightarrow> ?l x | Some n \<Rightarrow> map_option (\<lambda>m. m + int n) (?l x))"
    by (auto simp del: fun_upd_apply)
  have "map_of deltas s = None" using 2(2) by (auto simp: map_of_eq_None_iff)
  with l' m show ?case by (auto split: option.split)
qed simp

lemma rows_in_shard_keys: "rows_in_shard s rows = length (filter (\<lambda>k. key_shard k = s) (map wr_key rows))"
  by (induction rows) (auto simp: rows_in_shard_def)

lemma map_of_shard_deltas: "map_of (shard_deltas rows) s = (if rows_in_shard s rows = 0 then None else Some (rows_in_shard s rows))"
proof -
  have "map_of (map (\<lambda>s. (s, f s)) xs) s = (if s \<in> set xs then Some (f s) else None)" for f :: "nat \<Rightarrow> nat" and xs
    by (induction xs) auto
  then show ?thesis by (auto simp: shard_deltas_def rows_in_shard_def Let_def count_list_0_iff)
qed

lemma shard_deltas_distinct: "distinct (map fst (shard_deltas rows))"
  by (simp add: shard_deltas_def Let_def comp_def)

lemma last_filter_upt:
  "filter P [0..<n] \<noteq> [] \<Longrightarrow> \<exists>j<n. P j \<and> length (filter P [0..<n]) = Suc (length (filter P [0..<j]))"
proof (induction n)
  case (Suc n)
  show ?case
  proof (cases "P n")
    case False
    with Suc obtain j where "j < n" "P j" "length (filter P [0..<n]) = Suc (length (filter P [0..<j]))" by auto
    then show ?thesis using False by (intro exI [of _ j]) simp
  qed (intro exI [of _ n], simp)
qed simp

lemma slots_bounded:
  assumes "\<forall>i < length checks. pg_denial_at maximum t d checks i = None"
    and "filter (\<lambda>i. window_at d (pg_key (checks ! i)) = None \<and> key_shard (pg_key (checks ! i)) = s) [0..<length checks] \<noteq> []"
  shows "rows_in_shard s (tb_windows d) +
    length (filter (\<lambda>i. window_at d (pg_key (checks ! i)) = None \<and> key_shard (pg_key (checks ! i)) = s) [0..<length checks]) \<le> maximum"
proof -
  from last_filter_upt [OF assms(2)] obtain j where j: "j < length checks" "window_at d (pg_key (checks ! j)) = None"
    "key_shard (pg_key (checks ! j)) = s"
    "length (filter (\<lambda>i. window_at d (pg_key (checks ! i)) = None \<and> key_shard (pg_key (checks ! i)) = s) [0..<length checks]) =
      Suc (slots_before d checks j)"
    by (auto simp: slots_before_def)
  then show ?thesis using assms(1) by (auto simp: pg_denial_at_def Let_def split: if_splits)
qed

text \<open>The ledger stays exact over a batch of new rows.\<close>

lemma ledger_insert_exact:
  assumes d: "tables_ok d" and keys: "map wr_key new = map (\<lambda>i. pg_key (checks ! i)) (filter (\<lambda>i. window_at d (pg_key (checks ! i)) = None) [0..<length checks])"
    and admitted: "\<forall>i < length checks. pg_denial_at maximum t d checks i = None" "maximum \<le> HARD_MAX_ROWS_PER_SHARD"
    and rows: "map wr_key rows' = map wr_key (tb_windows d) @ map wr_key new"
  shows "\<exists>ledger. ledger_after_insert (shard_deltas new) (tb_ledger d) = Ok ledger \<and>
    (\<forall>s < CAPACITY_SHARD_COUNT. ledger s = Some (int (rows_in_shard s rows')) \<and> rows_in_shard s rows' \<le> HARD_MAX_ROWS_PER_SHARD)"
proof -
  have count: "rows_in_shard s rows' = rows_in_shard s (tb_windows d) + rows_in_shard s new" for s
    by (simp add: rows_in_shard_keys rows)
  have new: "rows_in_shard s new =
      length (filter (\<lambda>i. window_at d (pg_key (checks ! i)) = None \<and> key_shard (pg_key (checks ! i)) = s) [0..<length checks])" for s
    unfolding rows_in_shard_keys keys by (simp add: filter_map comp_def)
  have bound: "rows_in_shard s (tb_windows d) + rows_in_shard s new \<le> HARD_MAX_ROWS_PER_SHARD" if "s < CAPACITY_SHARD_COUNT" for s
  proof (cases "rows_in_shard s new = 0")
    case True
    then show ?thesis using tables_ledger [OF d] that by simp
  next
    case False
    then show ?thesis using slots_bounded [OF admitted(1), of s] admitted(2) unfolding new by simp
  qed
  have shard: "s < CAPACITY_SHARD_COUNT" if "rows_in_shard s new \<noteq> 0" for s
    using that unfolding rows_in_shard_keys by (auto simp: filter_empty_conv key_shard_less)
  have "\<forall>(s, n) \<in> set (shard_deltas new). \<exists>m. tb_ledger d s = Some (int m) \<and> m + n \<le> 65536"
  proof clarify
    fix s n assume "(s, n) \<in> set (shard_deltas new)"
    then have "map_of (shard_deltas new) s = Some n" using map_of_is_SomeI [OF shard_deltas_distinct] by blast
    then have n: "n = rows_in_shard s new" "rows_in_shard s new \<noteq> 0" by (auto simp: map_of_shard_deltas split: if_splits)
    then show "\<exists>m. tb_ledger d s = Some (int m) \<and> m + n \<le> 65536"
      using shard [OF n(2)] bound [of s] tables_ledger [OF d] by (auto simp: HARD_MAX_ROWS_PER_SHARD_def)
  qed
  from ledger_after_insert_spec [OF shard_deltas_distinct this] obtain ledger where
    l: "ledger_after_insert (shard_deltas new) (tb_ledger d) = Ok ledger"
    "\<And>s. ledger s = (case map_of (shard_deltas new) s of None \<Rightarrow> tb_ledger d s | Some n \<Rightarrow> map_option (\<lambda>m. m + int n) (tb_ledger d s))"
    by blast
  have "ledger s = Some (int (rows_in_shard s rows'))" if "s < CAPACITY_SHARD_COUNT" for s
    using l(2) [of s] tables_ledger [OF d] that by (auto simp: map_of_shard_deltas count)
  then show ?thesis using l(1) bound by (auto simp: count)
qed

lemma no_denial_admits:
  "pg_denial_at maximum t d checks i = None \<Longrightarrow> row_admits t (checks ! i) (window_at d (pg_key (checks ! i)))"
  by (auto simp: pg_denial_at_def row_admits_def Let_def split: option.splits if_splits)

definition upsert_answer :: "timestamp \<Rightarrow> timestamp \<Rightarrow> pg_tables \<Rightarrow> fixed_window_policy check list \<Rightarrow> nat \<Rightarrow> upsert_row" where
  "upsert_answer t r d checks i =
     \<lparr>ur_input_index = Ok (int i), ur_used = Ok (wr_used (upserted t checks (tb_windows d) i)),
      ur_window_expires_at = Ok (wr_expires_at (upserted t checks (tb_windows d) i)), ur_response_now = Ok r\<rparr>"

lemma find_index_upt:
  "distinct (map f xs) \<Longrightarrow> List.find (\<lambda>i. f (xs ! i) = k) [0..<length xs] = Some i \<Longrightarrow> List.find (\<lambda>x. f x = k) xs = Some (xs ! i)"
  "List.find (\<lambda>i. f (xs ! i) = k) [0..<length xs] = None \<Longrightarrow> List.find (\<lambda>x. f x = k) xs = None"
  by (force simp: find_Some_iff, auto simp: find_None_iff in_set_conv_nth)

lemma map_filter_all: "(\<And>x. x \<in> set xs \<Longrightarrow> f x = Some (g x)) \<Longrightarrow> List.map_filter f xs = map g xs"
  by (induction xs) (auto simp: List.map_filter_def)

lemma ups_spec:
  assumes d: "tables_ok d" and input: "input_of checks input" "distinct (map pg_key checks)"
    and ok: "\<forall>c \<in> set checks. pg_check_ok c \<and> t + window_micros c < TIMESTAMP_END"
    and admitted: "\<forall>i < length checks. pg_denial_at maximum t d checks i = None" "maximum \<le> HARD_MAX_ROWS_PER_SHARD"
  shows "\<exists>d'. BATCH_UPSERT_SQL input t r d = Ok (d', map (upsert_answer t r d checks) [0..<length checks]) \<and>
    pg_charged t checks d d' \<and> tables_ok d'"
proof -
  let ?n = "length checks" and ?key = "\<lambda>i. pg_key (checks ! i)" and ?rows = "tb_windows d"
  have pos: "positions input = [0..<?n]" using input by (simp add: positions_def input_of_def)
  have dok: "distinct (map wr_key ?rows)" "list_all row_constraints ?rows" using d by (auto simp: tables_ok_def)
  have "\<forall>i \<in> set [0..<?n]. find_row (?key i) [] = None \<and> row_admits t (checks ! i) (find_row (?key i) ?rows)"
    using no_denial_admits admitted(1) by auto
  from upsert_rows_spec [OF input ok, of "[0..<?n]" ?rows "[]" "[]", OF _ _ dok(2) this]
  obtain rows' new where up: "upsert_rows input t [0..<?n] (?rows, [], []) = Ok (rows', new, map (upserted t checks ?rows) [0..<?n])"
    "\<And>k. find_row k rows' = (case List.find (\<lambda>i. ?key i = k) [0..<?n] of None \<Rightarrow> find_row k ?rows | Some i \<Rightarrow> Some (upserted t checks ?rows i))"
    "map wr_key new = map ?key (filter (\<lambda>i. find_row (?key i) ?rows = None) [0..<?n])"
    "map wr_key rows' = map wr_key ?rows @ map wr_key new" "list_all row_constraints rows'"
    by auto
  from ledger_insert_exact [OF d up(3) admitted up(4)] obtain ledger where
    l: "ledger_after_insert (shard_deltas new) (tb_ledger d) = Ok ledger"
    "\<forall>s < CAPACITY_SHARD_COUNT. ledger s = Some (int (rows_in_shard s rows')) \<and> rows_in_shard s rows' \<le> HARD_MAX_ROWS_PER_SHARD"
    by blast
  let ?d = "\<lparr>tb_windows = rows', tb_ledger = ledger\<rparr>"
  have key_inj: "?key i = ?key j \<Longrightarrow> i < ?n \<Longrightarrow> j < ?n \<Longrightarrow> i = j" for i j
    using nth_eq_iff_index_eq [OF input(2), of i j] by simp
  have found: "find_row (batch_key input i) (map (upserted t checks ?rows) [0..<?n]) = Some (upserted t checks ?rows i)"
    if i: "i < ?n" for i
  proof -
    have "batch_key input i = ?key i" using input(1) i by (simp add: input_of_def)
    moreover have "find_row (?key i) (map (upserted t checks ?rows) xs) = Some (upserted t checks ?rows i)"
      if "i \<in> set xs" "set xs \<subseteq> {0..<?n}" for xs
      using that i by (induction xs) (auto simp: upserted_def dest: key_inj)
    ultimately show ?thesis using i by simp
  qed
  have "BATCH_UPSERT_SQL input t r d = Ok (?d, map (upsert_answer t r d checks) [0..<?n])"
    unfolding BATCH_UPSERT_SQL_def pos up(1) and_then_simps prod.case l(1)
    by (subst map_filter_all [where g = "upsert_answer t r d checks"]) (simp_all add: found upsert_answer_def)
  moreover have "pg_charged t checks d ?d" unfolding pg_charged_def
  proof
    fix k
    show "window_at ?d k = (case List.find (\<lambda>c. pg_key c = k) checks of None \<Rightarrow> window_at d k | Some c \<Rightarrow> Some (charged_row t c (window_at d k)))"
    proof (cases "List.find (\<lambda>i. ?key i = k) [0..<?n]")
      case None
      then show ?thesis using up(2) [of k] find_index_upt(2) [OF None] by simp
    next
      case (Some i)
      then have "?key i = k" by (auto simp: find_Some_iff)
      then show ?thesis using up(2) [of k] Some find_index_upt(1) [OF input(2) Some] by (simp add: upserted_def)
    qed
  qed
  moreover have "distinct (map wr_key rows')"
  proof -
    have "distinct (map ?key (filter P [0..<?n]))" for P
      using nth_eq_iff_index_eq [OF input(2)] by (auto simp: distinct_map inj_on_def)
    then show ?thesis using dok(1) by (auto simp: up(3,4) find_row_None)
  qed
  ultimately show ?thesis using l(2) up(5) by (auto simp: tables_ok_def)
qed

section \<open>The whole batch\<close>

lemma upsert_loop_spec:
  assumes "\<And>i. i < length checks \<Longrightarrow> 0 \<le> wr_used (upserted t checks (tb_windows d) i) \<and>
      wr_used (upserted t checks (tb_windows d) i) \<le> int (capacity_get (fwp_limit (chk_policy (checks ! i)))) \<and>
      t \<le> wr_expires_at (upserted t checks (tb_windows d) i)"
  shows "k \<le> length checks \<Longrightarrow> upsert_loop checks t k (map (upsert_answer t r d checks) [k..<length checks]) =
    Ok (map (\<lambda>i. pg_allowance t d (checks ! i)) [k..<length checks])"
proof (induction "length checks - k" arbitrary: k)
  case (Suc m)
  then have k: "k < length checks" and up: "[k..<length checks] = k # [Suc k..<length checks]" by (simp_all add: upt_conv_Cons)
  have IH: "upsert_loop checks t (Suc k) (map (upsert_answer t r d checks) [Suc k..<length checks]) =
    Ok (map (\<lambda>i. pg_allowance t d (checks ! i)) [Suc k..<length checks])"
    using Suc by (intro Suc.hyps(1)) auto
  show ?case unfolding up using assms [OF k] IH k
    by (simp add: upsert_answer_def try_get_def map_err_def nonnegative_def get_opt_def ok_or_def read_expiry_def read_used_def
        duration_until_def to_std_def PendingAllowance_new_def Allowance_new_def pg_allowance_def upserted_def Let_def nat_le_iff)
      linarith
qed simp

lemma pg_first_denial_iff:
  "pg_first_denial maximum now d checks = Some (i, x) \<longleftrightarrow>
     i < length checks \<and> pg_denial_at maximum now d checks i = Some x \<and> (\<forall>j < i. pg_denial_at maximum now d checks j = None)"
  "pg_first_denial maximum now d checks = None \<longleftrightarrow> (\<forall>i < length checks. pg_denial_at maximum now d checks i = None)"
  by (auto simp: pg_first_denial_def find_upt_Some_iff find_upt_None_iff)

text \<open>What the statements and the client's decoding of their rows amount to.\<close>

definition pg_spec where
  "pg_spec maximum checks now d p d' \<longleftrightarrow>
     (case pg_first_denial maximum now d checks of
        Some (i, x) \<Rightarrow> p = PB_Denied i x \<and> d' = d
      | None \<Rightarrow> p = PB_Allowed (map (pg_allowance now d) checks) \<and> pg_charged now checks d d')"

abbreviation sql_result where
  "sql_result \<equiv> batch_result BATCH_CAPACITY_LOCK_SQL BATCH_PREFLIGHT_SQL BATCH_UPSERT_SQL"

text \<open>Before the upsert the first denial decides.\<close>

lemma sql_result_cases:
  assumes "tables_ok d" "input_of checks input" "length checks < 2 ^ 63"
  shows "sql_result input checks maximum now r1 r2 d =
    (case pg_first_denial maximum now d checks of
       Some (i, x) \<Rightarrow> Ok (PB_Denied i x, authoritative_elapsed now r1, d)
     | None \<Rightarrow> and_then (map_err DefinitelyNotConsumed (BATCH_UPSERT_SQL input now r2 d)) (\<lambda>(d', rows).
         and_then (decode_upsert checks now rows) (\<lambda>(as, rn). Ok (PB_Allowed as, authoritative_elapsed now rn, d'))))"
  unfolding batch_result_def cap_spec [OF assms, where now = now] and_then_simps
    pre_spec [OF assms(2), where maximum = maximum] batch_preflight.simps first_denial_spec pg_first_denial_def ..

lemma sql_result_spec:
  assumes d: "tables_ok d" and input: "input_of checks input" "distinct (map pg_key checks)" and ne: "checks \<noteq> []" "length checks < 2 ^ 63"
    and ok: "\<forall>c \<in> set checks. pg_check_ok c" "\<forall>c \<in> set checks. now + window_micros c < TIMESTAMP_END"
    and max: "maximum \<le> HARD_MAX_ROWS_PER_SHARD"
  shows "\<exists>p d'. sql_result input checks maximum now r1 r2 d =
      Ok (p, authoritative_elapsed now (case p of PB_Denied _ _ \<Rightarrow> r1 | PB_Allowed _ \<Rightarrow> r2), d') \<and>
    pg_spec maximum checks now d p d' \<and> tables_ok d'"
proof (cases "pg_first_denial maximum now d checks")
  case (Some x)
  then obtain i y where x: "pg_first_denial maximum now d checks = Some (i, y)" by (cases x) auto
  then have "sql_result input checks maximum now r1 r2 d = Ok (PB_Denied i y, authoritative_elapsed now r1, d)"
    using sql_result_cases [OF d input(1) ne(2), of maximum now r1 r2] by simp
  then show ?thesis using x d by (auto simp: pg_spec_def)
next
  case None
  then have admitted: "\<forall>i < length checks. pg_denial_at maximum now d checks i = None" by (simp add: pg_first_denial_iff)
  obtain d' where d': "BATCH_UPSERT_SQL input now r2 d = Ok (d', map (upsert_answer now r2 d checks) [0..<length checks])"
    "pg_charged now checks d d'" "tables_ok d'"
    using ups_spec [OF d input, of now maximum r2] ok admitted max by blast
  have bounds: "0 \<le> wr_used (upserted now checks (tb_windows d) i) \<and>
      wr_used (upserted now checks (tb_windows d) i) \<le> int (capacity_get (fwp_limit (chk_policy (checks ! i)))) \<and>
      now \<le> wr_expires_at (upserted now checks (tb_windows d) i)" if "i < length checks" for i
  proof -
    have "pg_check_ok (checks ! i)" "row_admits now (checks ! i) (window_at d (pg_key (checks ! i)))"
      "\<And>row. window_at d (pg_key (checks ! i)) = Some row \<Longrightarrow> row_constraints row"
      using ok(1) that no_denial_admits admitted d find_row_key by (auto simp: tables_ok_def list_all_iff)
    from charged_row_used [OF this] show ?thesis by (simp add: upserted_def)
  qed
  have map: "map (\<lambda>i. pg_allowance now d (checks ! i)) [0..<length checks] = map (pg_allowance now d) checks"
    by (intro nth_equalityI) simp_all
  have "decode_upsert checks now (map (upsert_answer now r2 d checks) [0..<length checks]) = Ok (map (pg_allowance now d) checks, r2)"
    using upsert_loop_spec [OF bounds, of 0 r2] ne(1) unfolding map
    by (cases checks) (simp_all add: decode_upsert_def upt_conv_Cons del: upsert_loop.simps upt.simps,
      simp add: upsert_answer_def try_get_def map_err_def)
  then have "sql_result input checks maximum now r1 r2 d = Ok (PB_Allowed (map (pg_allowance now d) checks), authoritative_elapsed now r2, d')"
    using None d'(1) sql_result_cases [OF d input(1) ne(2), of maximum now r1 r2] by (simp add: map_err_def)
  then show ?thesis using None d' by (auto simp: pg_spec_def)
qed

text \<open>Past the end of time the upsert fails, so an outcome always meets the specification.\<close>

lemma upsert_rows_in_range:
  "upsert_rows input t is st = Ok st' \<Longrightarrow> i \<in> set is \<Longrightarrow> t + bi_windows input ! i < TIMESTAMP_END"
  by (induction "is" arbitrary: st)
    (auto simp: and_then_eq_Inr upsert_row_step_def excluded_row_def Let_def split: prod.splits if_splits)

lemma sql_result_sound:
  assumes d: "tables_ok d" and input: "input_of checks input" "distinct (map pg_key checks)" and ne: "checks \<noteq> []" "length checks < 2 ^ 63"
    and ok: "\<forall>c \<in> set checks. pg_check_ok c" and max: "maximum \<le> HARD_MAX_ROWS_PER_SHARD"
    and res: "sql_result input checks maximum now r1 r2 d = Ok (p, el, d')"
  shows "pg_spec maximum checks now d p d' \<and> tables_ok d'"
proof (cases "pg_first_denial maximum now d checks")
  case None
  with res sql_result_cases [OF d input(1) ne(2), of maximum now r1 r2]
  obtain st where st: "upsert_rows input now (positions input) (tb_windows d, [], []) = Ok st"
    by (auto simp: and_then_eq_Inr map_err_def BATCH_UPSERT_SQL_def split: sum.splits)
  have "\<forall>c \<in> set checks. now + window_micros c < TIMESTAMP_END"
  proof
    fix c assume "c \<in> set checks"
    then obtain i where i: "i < length checks" "c = checks ! i" by (auto simp: in_set_conv_nth)
    then have "i \<in> set (positions input)" "bi_windows input ! i = window_micros c" using input(1) by (auto simp: positions_def input_of_def)
    with upsert_rows_in_range [OF st] show "now + window_micros c < TIMESTAMP_END" by metis
  qed
  from sql_result_spec [OF d input ne ok this max, of r1 r2] res show ?thesis by auto
next
  case (Some x)
  then obtain i y where x: "pg_first_denial maximum now d checks = Some (i, y)" by (cases x) auto
  then have "sql_result input checks maximum now r1 r2 d = Ok (PB_Denied i y, authoritative_elapsed now r1, d)"
    using sql_result_cases [OF d input(1) ne(2), of maximum now r1 r2] by simp
  then show ?thesis using res x d by (auto simp: pg_spec_def)
qed

end
