(* ===== verification/Postgres_Maintenance.thy ===== *)
theory Postgres_Maintenance
  imports Postgres_Sql_Correct
begin

text \<open>
  Cleanup in the Postgres backend: \<open>runlimit-postgres/src/maintenance.rs\<close>, \<open>cleanup_expired\<close> of \<open>lib.rs\<close>
  and the statement \<open>cleanup_expired.sql\<close>. Two results: against any transactional server an outcome
  says truthfully whether rows were removed, and the statement removes only expired windows and keeps
  the ledger exact.
\<close>

section \<open>The client\<close>

type_synonym cleanup_failure = "maintenance_error connection_outcome"

definition acquire_maintenance_connection :: "'w pg_server \<Rightarrow> duration \<Rightarrow> ('w, maintenance_error, unit) step" where
  "acquire_maintenance_connection sv acquire_timeout w =
     (case sv_acquire sv acquire_timeout w of
        (w, TimedOut) \<Rightarrow> (w, Some (Err (MaintenanceTimedOutBeforeCommit CleanupAcquiringConnection)))
      | (w, Failed error) \<Rightarrow> (w, Some (Err (MaintenanceDatabase error)))
      | (w, Answered _) \<Rightarrow> (w, Some (Ok ())))"

definition maintenance_before_commit :: "cleanup_phase \<Rightarrow> ('w \<Rightarrow> 'w \<times> 'a answer) \<Rightarrow> ('w, cleanup_failure, 'a) step" where
  "maintenance_before_commit phase future w =
     (case future w of
        (w, TimedOut) \<Rightarrow> (w, Some (Err (MustClose (MaintenanceTimedOutBeforeCommit phase))))
      | (w, Failed error) \<Rightarrow>
          (w, Some (Err (Reusable
            (if is_server_timeout error then MaintenanceTimedOutBeforeCommit phase else MaintenanceDatabase error))))
      | (w, Answered value) \<Rightarrow> (w, Some (Ok value)))"

definition set_maintenance_server_timeouts ::
    "'w pg_server \<Rightarrow> instant \<Rightarrow> cleanup_phase \<Rightarrow> ('w, cleanup_failure, unit) step" where
  "set_maintenance_server_timeouts sv deadline phase w =
     (let (w, now) = sv_now sv w in
      case remaining_server_timeout_settings deadline now of
        None \<Rightarrow> (w, Some (Err (Reusable (MaintenanceTimedOutBeforeCommit phase))))
      | Some settings \<Rightarrow> maintenance_before_commit phase (sv_set_timeouts sv settings) w)"

definition maintenance_commit :: "'w pg_server \<Rightarrow> ('w, cleanup_failure, unit) step" where
  "maintenance_commit sv w =
     (case sv_commit sv w of
        (w, TimedOut) \<Rightarrow> (w, Some (Err (MustClose MaintenanceCommitTimedOut)))
      | (w, Failed error) \<Rightarrow> (w, Some (Err (Reusable (MaintenanceCommitOutcomeUnknown error))))
      | (w, Answered _) \<Rightarrow> (w, Some (Ok ())))"

definition commit_maintenance :: "'w pg_server \<Rightarrow> instant \<Rightarrow> ('w, cleanup_failure, unit) step" where
  "commit_maintenance sv deadline w =
     (let (w, now) = sv_now sv w in
      if now \<ge> deadline then (w, Some (Err (Reusable (MaintenanceTimedOutBeforeCommit CleanupStartingCommit))))
      else and_await (set_maintenance_server_timeouts sv deadline CleanupPreparingCommit) (\<lambda>_. maintenance_commit sv) w)"

definition run_cleanup_transaction_inner :: "'w pg_server \<Rightarrow> nat \<Rightarrow> instant \<Rightarrow> ('w, cleanup_failure, nat) step" where
  "run_cleanup_transaction_inner sv maximum_rows deadline =
     and_await (maintenance_before_commit CleanupBeginningTransaction (sv_begin sv)) (\<lambda>_.
     and_await (set_maintenance_server_timeouts sv deadline CleanupConfiguringTimeouts) (\<lambda>_.
     and_await (maintenance_before_commit CleanupDeletingExpiredWindows (sv_cleanup sv maximum_rows)) (\<lambda>rows_affected.
     and_await (commit_maintenance sv deadline) (\<lambda>_.
     ready_result (Ok rows_affected)))))"

text \<open>The life of a maintenance operation: a connection, a fresh deadline, the transaction, and the
  connection's return or its closing.\<close>

definition maintenance_guarded ::
    "'w pg_server \<Rightarrow> postgres_config \<Rightarrow> (instant \<Rightarrow> ('w, cleanup_failure, nat) step) \<Rightarrow> ('w, maintenance_error, nat) step" where
  "maintenance_guarded sv config inner =
     and_await (acquire_maintenance_connection sv (pg_pool_acquire_timeout config)) (\<lambda>_ w.
       let (w, now) = sv_now sv w;
           deadline = now + pg_operation_timeout config
       in case inner deadline w of
            (w, None) \<Rightarrow> (sv_release sv True w, None)
          | (w, Some result) \<Rightarrow>
              (let (result, close) = guard_finish
                 (case result of Ok rows \<Rightarrow> Reusable (Ok rows) | Err outcome \<Rightarrow> ConnectionOutcome_map Err outcome)
               in (sv_release sv close w, Some result)))"

definition cleanup_expired_unobserved :: "'w pg_server \<Rightarrow> postgres_config \<Rightarrow> nat \<Rightarrow> ('w, maintenance_error, nat) step" where
  "cleanup_expired_unobserved sv config maximum_rows =
     (if maximum_rows = 0 then ready_result (Ok 0)
      else maintenance_guarded sv config (run_cleanup_transaction_inner sv maximum_rows))"

definition pg_observe_cleanup where
  "pg_observe_cleanup observer ost requested result elapsed =
     notify observer [Obs_Cleanup \<lparr>co_requested = requested,
       co_outcome =
         (case result of
            Ok removed \<Rightarrow> Confirmed removed
          | Err error \<Rightarrow> if may_have_removed_rows error then Unknown else NoEffect),
       co_elapsed = elapsed\<rparr>] ost"

definition cleanup_expired where
  "cleanup_expired observer ost sv config elapsed maximum_rows w =
     (case cleanup_expired_unobserved sv config maximum_rows w of
        (w, None) \<Rightarrow> (ost, w, None)
      | (w, Some result) \<Rightarrow> (pg_observe_cleanup observer ost maximum_rows result elapsed, w, Some result))"

section \<open>Against a transactional server\<close>

text \<open>An error tells the truth about removed rows; \<open>R\<close> relates a count to the state without those rows.\<close>

definition cleanup_honest :: "(nat \<Rightarrow> 'd \<Rightarrow> bool) \<Rightarrow> 'd \<Rightarrow> maintenance_error \<Rightarrow> 'd \<Rightarrow> bool" where
  "cleanup_honest R d e d' \<longleftrightarrow> d' = d \<or> may_have_removed_rows e \<and> (\<exists>rows. R rows d')"

context pg_session
begin

lemma maintenance_before_commit_triple:
  assumes "\<And>w w' a. P w \<Longrightarrow> future w = (w', a) \<Longrightarrow> db w' = d \<and> (\<forall>x. a = Answered x \<longrightarrow> Q x w')"
  shows "triple P (maintenance_before_commit phase future) Q (\<lambda>f w. cleanup_honest R d (outcome_value f) (db w))"
proof (rule tripleI)
  fix w assume P: "P w"
  obtain w' a where f: "future w = (w', a)" by fastforce
  show "case maintenance_before_commit phase future w of (w', None) \<Rightarrow> False | (w', Some (Ok x)) \<Rightarrow> Q x w'
      | (w', Some (Err f)) \<Rightarrow> cleanup_honest R d (outcome_value f) (db w')"
    using assms [OF P f] by (cases a) (simp_all add: maintenance_before_commit_def f cleanup_honest_def)
qed

lemma maintenance_begin_triple:
  "triple (idle d) (maintenance_before_commit phase (sv_begin sv)) (\<lambda>_. within d d)
     (\<lambda>f w. cleanup_honest R d (outcome_value f) (db w))"
  by (rule maintenance_before_commit_triple) (use begins in fastforce)

lemma set_maintenance_timeouts_triple:
  "triple (within d d') (set_maintenance_server_timeouts sv deadline phase) (\<lambda>_. within d d')
     (\<lambda>f w. cleanup_honest R d (outcome_value f) (db w))"
proof (rule tripleI)
  fix w assume w: "within d d' w"
  obtain w1 n where n: "sv_now sv w = (w1, n)" by fastforce
  then have w1: "within d d' w1" using w now [OF n] by simp
  have "triple (within d d') (maintenance_before_commit phase (sv_set_timeouts sv s)) (\<lambda>_. within d d')
      (\<lambda>f w. cleanup_honest R d (outcome_value f) (db w))" for s
    by (rule maintenance_before_commit_triple) (use set_timeouts in fastforce)
  from tripleD [OF this w1] show "case set_maintenance_server_timeouts sv deadline phase w of (w', None) \<Rightarrow> False
      | (w', Some (Ok a)) \<Rightarrow> within d d' w' | (w', Some (Err f)) \<Rightarrow> cleanup_honest R d (outcome_value f) (db w')"
    using w1 by (cases "remaining_server_timeout_settings deadline n")
      (simp_all add: set_maintenance_server_timeouts_def n cleanup_honest_def)
qed

lemma commit_maintenance_triple:
  assumes R: "R rows d'"
  shows "triple (within d d') (and_await (commit_maintenance sv deadline) (\<lambda>_. ready_result (Ok rows)))
     (\<lambda>rows w. R rows (db w)) (\<lambda>f w. cleanup_honest R d (outcome_value f) (db w))" (is "triple _ _ _ ?E")
proof (rule triple_and_await)
  show "triple (within d d') (commit_maintenance sv deadline) (\<lambda>_ w. db w = d') ?E"
  proof (rule tripleI)
    fix w assume w: "within d d' w"
    obtain w1 m where m: "sv_now sv w = (w1, m)" by fastforce
    then have w1: "within d d' w1" using w now [OF m] by simp
    have "triple (within d d') (maintenance_commit sv) (\<lambda>_ w. db w = d') ?E"
    proof (rule tripleI)
      fix w assume w: "within d d' w"
      obtain w2 a where c: "sv_commit sv w = (w2, a)" by fastforce
      show "case maintenance_commit sv w of (w', None) \<Rightarrow> False | (w', Some (Ok a)) \<Rightarrow> db w' = d' | (w', Some (Err f)) \<Rightarrow> ?E f w'"
        using w commit [OF c] R by (cases a) (auto simp: maintenance_commit_def c cleanup_honest_def may_have_removed_rows_def)
    qed
    from tripleD [OF triple_and_await [OF set_maintenance_timeouts_triple this] w1]
    show "case commit_maintenance sv deadline w of (w', None) \<Rightarrow> False
        | (w', Some (Ok a)) \<Rightarrow> db w' = d' | (w', Some (Err f)) \<Rightarrow> ?E f w'"
      using w1 by (simp add: commit_maintenance_def m cleanup_honest_def)
  qed
  show "triple (\<lambda>w. db w = d') (ready_result (Ok rows)) (\<lambda>rows w. R rows (db w)) ?E" for a :: unit
    by (rule triple_ready) (use R in auto)
qed

lemma maintenance_guarded_triple:
  assumes "\<And>deadline. triple (idle d) (inner deadline) (\<lambda>rows w. R rows (db w)) (\<lambda>f w. cleanup_honest R d (outcome_value f) (db w))"
  shows "triple (idle d) (maintenance_guarded sv config inner) (\<lambda>rows w. R rows (db w)) (\<lambda>e w. cleanup_honest R d e (db w))"
proof (rule tripleI)
  fix w assume w: "idle d w"
  obtain w1 a where acq: "sv_acquire sv (pg_pool_acquire_timeout config) w = (w1, a)" by fastforce
  then have w1: "idle d w1" using acquire [OF acq] w by simp
  obtain w2 m where m: "sv_now sv w1 = (w2, m)" by fastforce
  then have w2: "idle d w2" using now [OF m] w1 by simp
  show "case maintenance_guarded sv config inner w of (w', None) \<Rightarrow> False
      | (w', Some (Ok rows)) \<Rightarrow> R rows (db w') | (w', Some (Err e)) \<Rightarrow> cleanup_honest R d e (db w')"
    using w w1 tripleD [OF assms [of "m + pg_operation_timeout config"] w2]
    by (cases a) (auto simp: maintenance_guarded_def and_await_def acquire_maintenance_connection_def acq m
        release guard_finish_def ConnectionOutcome_map_def outcome_value_def cleanup_honest_def
        split: prod.splits option.splits sum.splits connection_outcome.splits)
qed

end

text \<open>The interface of the fixed-window cleanup: \<open>del\<close> is what its statement does.\<close>

locale pg_maintained = pg_database +
  fixes del :: "timestamp \<Rightarrow> nat \<Rightarrow> 'b \<Rightarrow> (sqlx_error, 'b \<times> nat) result"
  assumes cleanup: "sv_cleanup sv n w = (w', a) \<Longrightarrow> good w \<Longrightarrow> db w' = db w \<and>
      (\<forall>rows. a = Answered rows \<longrightarrow> good w' \<and> (\<exists>now. time_ok now \<and> del now n (tx w) = Ok (tx w', rows)))"
begin

abbreviation removed :: "nat \<Rightarrow> 'b \<Rightarrow> nat \<Rightarrow> 'b \<Rightarrow> bool" where
  "removed n d rows d' \<equiv> \<exists>now. time_ok now \<and> del now n d = Ok (d', rows)"

lemma cleanup_transaction_triple:
  "triple (idle d) (run_cleanup_transaction_inner sv n deadline)
     (\<lambda>rows w. removed n d rows (db w)) (\<lambda>f w. cleanup_honest (removed n d) d (outcome_value f) (db w))" (is "triple _ _ ?Q ?E")
proof -
  have delete: "triple (within d d) (maintenance_before_commit CleanupDeletingExpiredWindows (sv_cleanup sv n))
      (\<lambda>rows w. \<exists>d'. within d d' w \<and> removed n d rows d') ?E"
    by (rule maintenance_before_commit_triple) (use cleanup in fastforce)
  show ?thesis unfolding run_cleanup_transaction_inner_def
    by (rule triple_and_await [OF maintenance_begin_triple], rule triple_and_await [OF set_maintenance_timeouts_triple],
      rule triple_and_await [OF delete], intro triple_pre_ex triple_pre_conj, rule commit_maintenance_triple)
qed

lemma cleanup_triple:
  "triple (idle d) (cleanup_expired_unobserved sv config n)
     (\<lambda>rows w. if n = 0 then rows = 0 \<and> db w = d else removed n d rows (db w)) (\<lambda>e w. cleanup_honest (removed n d) d e (db w))"
proof (cases "n = 0")
  case True
  then show ?thesis by (simp add: triple_def cleanup_expired_unobserved_def ready_result_def)
next
  case False
  then show ?thesis using maintenance_guarded_triple [OF cleanup_transaction_triple, of d config n]
    by (simp add: cleanup_expired_unobserved_def)
qed

end

section \<open>The statement\<close>

text \<open>Rows that another session has locked are skipped. The others are chosen by expiry; among rows that expire
  together the database may choose any, here the earlier one.\<close>

definition expired_rows :: "(storage_key \<Rightarrow> bool) \<Rightarrow> timestamp \<Rightarrow> nat \<Rightarrow> window_row list \<Rightarrow> window_row list" where
  "expired_rows locked sampled_at maximum rows =
     take maximum (sort_key wr_expires_at (filter (\<lambda>row. wr_expires_at row \<le> sampled_at \<and> \<not> locked (wr_key row)) rows))"

definition CLEANUP_SQL :: "(storage_key \<Rightarrow> bool) \<Rightarrow> timestamp \<Rightarrow> nat \<Rightarrow> pg_tables \<Rightarrow> (sqlx_error, pg_tables \<times> nat) result" where
  "CLEANUP_SQL locked sampled_at maximum d =
     (let expired = expired_rows locked sampled_at maximum (tb_windows d);
          target_shards = remdups (map (\<lambda>row. key_shard (wr_key row)) expired);
          locked_capacity = filter (\<lambda>s. tb_ledger d s \<noteq> None) target_shards
      in if length locked_capacity \<noteq> length target_shards then Ok (d, 0)
         else and_then (ledger_after_delete (shard_deltas expired) (tb_ledger d)) (\<lambda>ledger.
           Ok (\<lparr>tb_windows = filter (\<lambda>row. row \<notin> set expired) (tb_windows d), tb_ledger = ledger\<rparr>, length expired)))"

lemma ledger_after_delete_spec:
  assumes "distinct (map fst deltas)"
    "\<forall>(s, n) \<in> set deltas. \<exists>m. ledger s = Some (int m) \<and> n \<le> m"
  shows "\<exists>ledger'. ledger_after_delete deltas ledger = Ok ledger' \<and>
    (\<forall>s. ledger' s = (case map_of deltas s of None \<Rightarrow> ledger s | Some n \<Rightarrow> map_option (\<lambda>m. m - int n) (ledger s)))"
  using assms
proof (induction deltas ledger rule: ledger_after_delete.induct)
  case (2 s n deltas ledger)
  then obtain m where m: "ledger s = Some (int m)" "n \<le> m" by auto
  let ?l = "ledger(s \<mapsto> int m - int n)"
  have "\<forall>(s', n') \<in> set deltas. \<exists>m. ?l s' = Some (int m) \<and> n' \<le> m" using 2(2,3) by force
  with 2(1) [OF m(1)] 2(2) m(2) obtain l' where l': "ledger_after_delete deltas ?l = Ok l'"
    "\<forall>x. l' x = (case map_of deltas x of None \<Rightarrow> ?l x | Some n \<Rightarrow> map_option (\<lambda>m. m - int n) (?l x))"
    by (auto simp del: fun_upd_apply)
  have "map_of deltas s = None" using 2(2) by (auto simp: map_of_eq_None_iff)
  with l' m show ?case by (auto split: option.split)
qed simp

text \<open>The rows a cleanup may remove.\<close>

definition removable :: "(storage_key \<Rightarrow> bool) \<Rightarrow> timestamp \<Rightarrow> window_row list \<Rightarrow> window_row list" where
  "removable locked now rows = filter (\<lambda>row. wr_expires_at row \<le> now \<and> \<not> locked (wr_key row)) rows"

lemma expired_rows_props:
  assumes "distinct rows"
  shows "distinct (expired_rows locked now n rows)" "set (expired_rows locked now n rows) \<subseteq> set (removable locked now rows)"
    "length (expired_rows locked now n rows) = min n (length (removable locked now rows))"
  using assms set_take_subset [of n "sort_key wr_expires_at (removable locked now rows)"]
  by (auto simp: expired_rows_def removable_def)

lemma length_taken_out:
  assumes "distinct rows" "distinct out" "set out \<subseteq> set rows"
  shows "length (filter (\<lambda>r. r \<notin> set out) rows) + length out = length rows"
proof -
  have "{r \<in> set rows. r \<in> set out} = set out" using assms(3) by blast
  then have "length (filter (\<lambda>r. r \<in> set out) rows) = length out"
    using distinct_card [OF distinct_filter [OF assms(1)], of "\<lambda>r. r \<in> set out"] distinct_card [OF assms(2)] by simp
  then show ?thesis using sum_length_filter_compl [of "\<lambda>r. r \<in> set out" rows] by simp
qed

text \<open>Taking out rows splits the count of a shard.\<close>

lemma rows_in_shard_split:
  assumes "distinct rows" "distinct out" "set out \<subseteq> set rows"
  shows "rows_in_shard s rows = rows_in_shard s (filter (\<lambda>r. r \<notin> set out) rows) + rows_in_shard s out"
proof -
  have card: "rows_in_shard s xs = card {r \<in> set xs. key_shard (wr_key r) = s}" if "distinct xs" for xs
    using distinct_card [of "filter (\<lambda>r. key_shard (wr_key r) = s) xs"] that
    by (simp add: rows_in_shard_keys filter_map comp_def)
  have "{r \<in> set rows. key_shard (wr_key r) = s} =
      {r \<in> set (filter (\<lambda>r. r \<notin> set out) rows). key_shard (wr_key r) = s} \<union> {r \<in> set out. key_shard (wr_key r) = s}"
    using assms(3) by auto
  then show ?thesis using assms(1,2) by (simp add: card) (subst card_Un_disjoint, auto)
qed

lemma find_row_filter:
  assumes "distinct (map wr_key rows)"
  shows "find_row k (filter P rows) = (case find_row k rows of None \<Rightarrow> None | Some r \<Rightarrow> if P r then Some r else None)"
  using assms
proof (induction rows)
  case (Cons r rows)
  then have "find_row (wr_key r) rows = None" "find_row (wr_key r) (filter P rows) = None" by (auto simp: find_row_None)
  with Cons show ?case by (cases "wr_key r = k") (auto split: option.split)
qed simp

lemma cleanup_spec:
  assumes d: "tables_ok d"
  shows "\<exists>d'. CLEANUP_SQL locked now n d = Ok (d', min n (length (removable locked now (tb_windows d)))) \<and> tables_ok d' \<and>
    length (tb_windows d') + min n (length (removable locked now (tb_windows d))) = length (tb_windows d) \<and>
    (\<forall>k. window_at d' k = window_at d k \<or> window_at d' k = None \<and> (\<exists>row. window_at d k = Some row \<and> wr_expires_at row \<le> now))"
proof -
  let ?out = "expired_rows locked now n (tb_windows d)" and ?keep = "filter (\<lambda>row. row \<notin> set (expired_rows locked now n (tb_windows d))) (tb_windows d)"
  have keys: "distinct (map wr_key (tb_windows d))" and rows: "distinct (tb_windows d)"
    using d by (auto simp: tables_ok_def distinct_map)
  note out = expired_rows_props [OF rows, of locked now n]
  have count: "rows_in_shard s (tb_windows d) = rows_in_shard s ?keep + rows_in_shard s ?out" for s
    using out by (intro rows_in_shard_split [OF rows]) (auto simp: removable_def)
  have "\<forall>(s, m) \<in> set (shard_deltas ?out). \<exists>c. tb_ledger d s = Some (int c) \<and> m \<le> c"
  proof clarify
    fix s m assume "(s, m) \<in> set (shard_deltas ?out)"
    then have "map_of (shard_deltas ?out) s = Some m" using map_of_is_SomeI [OF shard_deltas_distinct] by blast
    then have m: "m = rows_in_shard s ?out" "rows_in_shard s ?out \<noteq> 0" by (auto simp: map_of_shard_deltas split: if_splits)
    then have "s < CAPACITY_SHARD_COUNT" unfolding rows_in_shard_keys by (auto simp: filter_empty_conv key_shard_less)
    then show "\<exists>c. tb_ledger d s = Some (int c) \<and> m \<le> c" using tables_ledger [OF d] count [of s] m(1)
      by (intro exI [of _ "rows_in_shard s (tb_windows d)"]) simp
  qed
  from ledger_after_delete_spec [OF shard_deltas_distinct this] obtain ledger where
    l: "ledger_after_delete (shard_deltas ?out) (tb_ledger d) = Ok ledger"
    "\<And>s. ledger s = (case map_of (shard_deltas ?out) s of None \<Rightarrow> tb_ledger d s | Some n \<Rightarrow> map_option (\<lambda>m. m - int n) (tb_ledger d s))"
    by blast
  have "tb_ledger d (key_shard k) \<noteq> None" for k using tables_ledger [OF d] key_shard_less by auto
  then have "filter (\<lambda>s. tb_ledger d s \<noteq> None) (remdups (map (\<lambda>row. key_shard (wr_key row)) ?out)) =
      remdups (map (\<lambda>row. key_shard (wr_key row)) ?out)" by (auto intro!: filter_True)
  then have "CLEANUP_SQL locked now n d = Ok (\<lparr>tb_windows = ?keep, tb_ledger = ledger\<rparr>, length ?out)"
    using l(1) by (simp add: CLEANUP_SQL_def Let_def)
  moreover have "tables_ok \<lparr>tb_windows = ?keep, tb_ledger = ledger\<rparr>"
    using d l(2) tables_ledger [OF d] count
    by (auto simp: tables_ok_def distinct_map_filter list_all_iff map_of_shard_deltas)
  moreover have "window_at \<lparr>tb_windows = ?keep, tb_ledger = ledger\<rparr> k = window_at d k \<or>
      window_at \<lparr>tb_windows = ?keep, tb_ledger = ledger\<rparr> k = None \<and> (\<exists>row. window_at d k = Some row \<and> wr_expires_at row \<le> now)" for k
    using out(2) by (auto simp: find_row_filter [OF keys] removable_def split: option.split)
  moreover have "length ?keep + length ?out = length (tb_windows d)"
    using out by (intro length_taken_out [OF rows]) (auto simp: removable_def)
  ultimately show ?thesis using out(3) by auto
qed

end
