(* ===== verification/Postgres_World.thy ===== *)
theory Postgres_World
  imports Postgres_Maintenance
begin

text \<open>
  A database server that runs one transaction at a time under a script of delays and faults: its
  sessions, whatever the tables are. The statements on the tables are added where the tables are
  modelled.
\<close>

section \<open>The server\<close>

text \<open>What happens to one statement: it is answered, or it does not run or its reply is lost, and the client then
  sees its deadline (\<open>None\<close>) or an error.\<close>

datatype fault = No_Fault | Not_Run "sqlx_error option" | Reply_Lost "sqlx_error option"

definition fault_answer :: "sqlx_error option \<Rightarrow> 'a answer" where
  "fault_answer error = (case error of None \<Rightarrow> TimedOut | Some e \<Rightarrow> Failed e)"

text \<open>What other sessions may hold when a statement skips what is locked: a row, or the capacity row of a shard.\<close>

datatype sql_lock = Row_Lock storage_key | Shard_Lock nat

text \<open>A world holds the durable tables and those the open transaction sees, the clocks of the client and of the
  server, the identifier of the last transaction and the number of UUIDs generated, the locks that other
  sessions hold at each reading of the server's clock, and a script. One step of the script: the client's
  delay, the change of the server's clock before the statement and while it runs, and the fault. A
  statement waits for a lock unless it says \<open>SKIP LOCKED\<close>; only those statements read the locks.\<close>

record 'd sql_world =
  sw_db :: 'd
  sw_tx :: 'd
  sw_clock :: instant
  sw_time :: timestamp
  sw_xid :: nat
  sw_uuids :: nat
  sw_locked :: "timestamp \<Rightarrow> sql_lock \<Rightarrow> bool"
  sw_script :: "(duration \<times> int \<times> int \<times> fault) list"

definition sql_tick :: "'d sql_world \<Rightarrow> 'd sql_world \<times> int \<times> fault" where
  "sql_tick w =
     (case sw_script w of
        [] \<Rightarrow> (w, 0, No_Fault)
      | (delay, before, during, fault) # script \<Rightarrow>
          (w\<lparr>sw_clock := sw_clock w + delay, sw_time := sw_time w + before, sw_script := script\<rparr>, during, fault))"

text \<open>\<open>run\<close> gets the time at the start and the end of the statement.\<close>

definition sql_statement ::
    "(timestamp \<Rightarrow> timestamp \<Rightarrow> 'd sql_world \<Rightarrow> (sqlx_error, 'd sql_world \<times> 'a) result) \<Rightarrow>
     'd sql_world \<Rightarrow> 'd sql_world \<times> 'a answer" where
  "sql_statement run w =
     (let (w, during, fault) = sql_tick w;
          finish = sw_time w + during;
          result = run (sw_time w) finish w
      in case fault of
           Not_Run error \<Rightarrow> (w, fault_answer error)
         | Reply_Lost error \<Rightarrow>
             (case result of Ok (w', _) \<Rightarrow> (w'\<lparr>sw_time := finish\<rparr>, fault_answer error) | Err _ \<Rightarrow> (w, fault_answer error))
         | No_Fault \<Rightarrow> (case result of Ok (w', a) \<Rightarrow> (w'\<lparr>sw_time := finish\<rparr>, Answered a) | Err error \<Rightarrow> (w, Failed error)))"

text \<open>A session knows no tables: every statement on data fails until a server adds it.\<close>

definition undefined_table :: sqlx_error where "undefined_table = sql_error ''42P01''"

definition sql_session :: "'d sql_world pg_server" where
  "sql_session =
     \<lparr>sv_now = (\<lambda>w. let (w, _, _) = sql_tick w in (w, sw_clock w)),
      sv_acquire = (\<lambda>_. sql_statement (\<lambda>_ _ w. Ok (w, ()))),
      sv_begin = sql_statement (\<lambda>_ _ w. Ok (w\<lparr>sw_tx := sw_db w, sw_xid := sw_xid w + 1\<rparr>, ())),
      sv_set_timeouts = (\<lambda>_. sql_statement (\<lambda>_ _ w. Ok (w, ()))),
      sv_advisory_locks = (\<lambda>_. sql_statement (\<lambda>_ _ w. Ok (w, ()))),
      sv_row_locks = (\<lambda>_. sql_statement (\<lambda>_ _ w. Err undefined_table)),
      sv_capacity_locks = (\<lambda>_. sql_statement (\<lambda>_ _ w. Err undefined_table)),
      sv_preflight = (\<lambda>_. sql_statement (\<lambda>_ _ w. Err undefined_table)),
      sv_upsert = (\<lambda>_ _. sql_statement (\<lambda>_ _ w. Err undefined_table)),
      sv_cleanup = (\<lambda>_. sql_statement (\<lambda>_ _ w. Err undefined_table)),
      sv_commit = sql_statement (\<lambda>_ _ w. Ok (w\<lparr>sw_db := sw_tx w\<rparr>, ())),
      sv_rollback = sql_statement (\<lambda>_ _ w. Ok (w\<lparr>sw_tx := sw_db w\<rparr>, ())),
      sv_release = (\<lambda>_ w. w\<lparr>sw_tx := sw_db w\<rparr>)\<rparr>"

text \<open>The readings of the server's clock, now and for the rest of the script, whichever statements run.\<close>

fun readings_in :: "(timestamp \<Rightarrow> bool) \<Rightarrow> timestamp \<Rightarrow> (duration \<times> int \<times> int \<times> fault) list \<Rightarrow> bool" where
  "readings_in T t [] \<longleftrightarrow> T t"
| "readings_in T t ((_, before, during, _) # script) \<longleftrightarrow>
     T (t + before) \<and> T (t + before + during) \<and> readings_in T (t + before) script \<and> readings_in T (t + before + during) script"

definition clock_in :: "(timestamp \<Rightarrow> bool) \<Rightarrow> 'd sql_world \<Rightarrow> bool" where
  "clock_in T w \<longleftrightarrow> readings_in T (sw_time w) (sw_script w)"

lemma readings_in_True [simp]: "readings_in (\<lambda>_. True) t script"
  by (induction "\<lambda>_ :: timestamp. True" t script rule: readings_in.induct) auto

lemma clock_in_True [simp]: "clock_in (\<lambda>_. True) w"
  by (simp add: clock_in_def)

lemma clock_in_reading: "clock_in T w \<Longrightarrow> \<exists>now. T now"
  by (cases "sw_script w") (auto simp: clock_in_def)

lemma clock_in_tables [simp]: "clock_in T (sw_db_update f w) = clock_in T w" "clock_in T (sw_tx_update f w) = clock_in T w"
  by (simp_all add: clock_in_def)

lemma sql_tick_keeps:
  assumes "sql_tick w = (w', during, f)" "clock_in T w"
  shows "sw_db w' = sw_db w \<and> sw_tx w' = sw_tx w \<and> sw_locked w' = sw_locked w \<and> clock_in T w' \<and> T (sw_time w') \<and> T (sw_time w' + during) \<and>
    readings_in T (sw_time w' + during) (sw_script w')"
  using assms by (auto simp: sql_tick_def clock_in_def split: list.splits prod.splits)

text \<open>A statement that only reads answers with what its run gives.\<close>

lemma fault_answer_not [simp]: "fault_answer e \<noteq> Answered x"
  by (cases e) (simp_all add: fault_answer_def)

lemma sql_statement_cases:
  assumes "sql_statement run w = (w', a)" "clock_in T w"
  obtains (idle) "sw_db w' = sw_db w" "sw_tx w' = sw_tx w" "sw_locked w' = sw_locked w" "\<And>x. a \<noteq> Answered x" "clock_in T w'"
    | (ran) w1 now r w2 x where "sw_db w1 = sw_db w" "sw_tx w1 = sw_tx w" "sw_locked w1 = sw_locked w" "run now r w1 = Ok (w2, x)" "T now" "T r"
        "sw_db w' = sw_db w2" "sw_tx w' = sw_tx w2" "sw_locked w' = sw_locked w2" "a = Answered x \<or> (\<forall>y. a \<noteq> Answered y)" "sw_script w2 = sw_script w1 \<Longrightarrow> clock_in T w'"
proof -
  obtain w1 during f where t: "sql_tick w = (w1, during, f)" by (cases "sql_tick w") auto
  note keep = sql_tick_keeps [OF t assms(2)]
  show thesis
  proof (cases "run (sw_time w1) (sw_time w1 + during) w1")
    case (Inl e)
    then show thesis using assms(1) keep idle by (cases f) (auto simp: sql_statement_def t)
  next
    case (Inr y)
    then obtain w2 x where r: "run (sw_time w1) (sw_time w1 + during) w1 = Ok (w2, x)" by (cases y) auto
    show thesis
    proof (cases "f = No_Fault \<or> (\<exists>e. f = Reply_Lost e)")
      case True
      then have w': "w' = w2\<lparr>sw_time := sw_time w1 + during\<rparr>" "a = Answered x \<or> (\<forall>y. a \<noteq> Answered y)"
        using assms(1) r by (auto simp: sql_statement_def t)
      with keep show thesis by (intro ran [OF _ _ _ r]) (auto simp: clock_in_def)
    next
      case False
      then show thesis using assms(1) keep idle by (cases f) (auto simp: sql_statement_def t)
    qed
  qed
qed

lemma sql_statement_law:
  assumes "sql_statement run w = (w', a)" "clock_in T w"
    and "\<And>now r w1 w2 x. run now r w1 = Ok (w2, x) \<Longrightarrow> T now \<Longrightarrow> sw_db w1 = sw_db w \<Longrightarrow> sw_tx w1 = sw_tx w \<Longrightarrow> sw_locked w1 = sw_locked w \<Longrightarrow>
      sw_db w2 = sw_db w \<and> sw_script w2 = sw_script w1 \<and> sw_locked w2 = sw_locked w \<and> Q x (sw_tx w2)"
  shows "sw_db w' = sw_db w \<and> (\<forall>x. a = Answered x \<longrightarrow> clock_in T w' \<and> sw_locked w' = sw_locked w \<and> Q x (sw_tx w'))"
  by (rule sql_statement_cases [OF assms(1,2)]) (use assms(3) in auto)

text \<open>A statement that reads, and one that changes the tables of the transaction.\<close>

lemma sql_statement_read:
  assumes "sql_statement (\<lambda>t r w. Ok (w, f t r (sw_tx w))) w = (w', a)" "clock_in T w"
  shows "sw_db w' = sw_db w \<and> (\<forall>x. a = Answered x \<longrightarrow> clock_in T w' \<and> sw_locked w' = sw_locked w \<and> sw_tx w' = sw_tx w \<and>
    (\<exists>now r. T now \<and> x = f now r (sw_tx w)))"
  by (rule sql_statement_law [OF assms]) auto

lemma sql_statement_write:
  assumes "sql_statement (\<lambda>t r w. and_then (f (sw_locked w) t r (sw_tx w)) (\<lambda>(d, x). Ok (w\<lparr>sw_tx := d\<rparr>, x))) w = (w', a)" "clock_in T w"
  shows "sw_db w' = sw_db w \<and> (\<forall>x. a = Answered x \<longrightarrow> clock_in T w' \<and> sw_locked w' = sw_locked w \<and>
    (\<exists>now r. T now \<and> f (sw_locked w) now r (sw_tx w) = Ok (sw_tx w', x)))"
  by (rule sql_statement_law [OF assms]) (auto simp: and_then_eq_Inr, blast)

lemma sql_session_simps [simp]:
  "sv_acquire sql_session d = sql_statement (\<lambda>_ _ w. Ok (w, ()))"
  "sv_set_timeouts sql_session s = sql_statement (\<lambda>_ _ w. Ok (w, ()))"
  by (simp_all add: sql_session_def)

lemma sql_session_now:
  "clock_in T w \<Longrightarrow> sv_now sql_session w = (w', n) \<Longrightarrow>
     clock_in T w' \<and> sw_locked w' = sw_locked w \<and> sw_db w' = sw_db w \<and> sw_tx w' = sw_tx w"
  by (auto simp: sql_session_def dest: sql_tick_keeps split: prod.splits)

interpretation sql_session: pg_session "sql_session :: 'd sql_world pg_server" sw_db sw_tx "clock_in T" for T
proof unfold_locales
  fix w w' :: "'d sql_world" and n :: nat
  show "clock_in T w \<Longrightarrow> sv_now sql_session w = (w', n) \<Longrightarrow> clock_in T w' \<and> sw_db w' = sw_db w \<and> sw_tx w' = sw_tx w"
    using sql_session_now [of T w w' n] by blast
qed (auto simp: sql_session_def elim!: sql_statement_cases)

text \<open>The same session where the locks of the other sessions matter.\<close>

definition server_in :: "(timestamp \<Rightarrow> bool) \<Rightarrow> (timestamp \<Rightarrow> sql_lock \<Rightarrow> bool) \<Rightarrow> 'd sql_world \<Rightarrow> bool" where
  "server_in T locked w \<longleftrightarrow> clock_in T w \<and> sw_locked w = locked"

interpretation locked_session: pg_session "sql_session :: 'd sql_world pg_server" sw_db sw_tx "server_in T locked" for T locked
proof unfold_locales
  fix w w' :: "'d sql_world" and n :: nat
  show "server_in T locked w \<Longrightarrow> sv_now sql_session w = (w', n) \<Longrightarrow> server_in T locked w' \<and> sw_db w' = sw_db w \<and> sw_tx w' = sw_tx w"
    using sql_session_now [of T w w' n] by (auto simp: server_in_def)
qed (auto simp: sql_session_def server_in_def elim!: sql_statement_cases)

end
