(* ===== verification/Postgres_Server.thy ===== *)
theory Postgres_Server
  imports Postgres_World
begin

text \<open>
  The server of \<open>Postgres_World\<close> with the SQL of \<open>Postgres_Sql\<close>, the interpretation of the interfaces on
  it, and the properties of the public operations of \<open>PostgresLimiter\<close> that follow.
\<close>

section \<open>The server\<close>

definition sql_server :: "pg_tables sql_world pg_server" where
  "sql_server = sql_session
     \<lparr>sv_row_locks := (\<lambda>_. sql_statement (\<lambda>_ _ w. Ok (w, ()))),
      sv_capacity_locks := (\<lambda>input. sql_statement (\<lambda>_ _ w. Ok (w, BATCH_CAPACITY_LOCK_SQL input (sw_tx w)))),
      sv_preflight := (\<lambda>input. sql_statement (\<lambda>now r w. Ok (w, BATCH_PREFLIGHT_SQL input now r (sw_tx w)))),
      sv_upsert := (\<lambda>input t. sql_statement (\<lambda>_ r w.
        and_then (BATCH_UPSERT_SQL input t r (sw_tx w)) (\<lambda>(d, rows). Ok (w\<lparr>sw_tx := d\<rparr>, rows)))),
      sv_cleanup := (\<lambda>maximum. sql_statement (\<lambda>now _ w.
        and_then (CLEANUP_SQL (sw_locked w now \<circ> Row_Lock) now maximum (sw_tx w)) (\<lambda>(d, rows). Ok (w\<lparr>sw_tx := d\<rparr>, rows))))\<rparr>"

lemma sql_server_fields:
  "sv_now sql_server = sv_now sql_session" "sv_acquire sql_server = sv_acquire sql_session" "sv_begin sql_server = sv_begin sql_session"
  "sv_set_timeouts sql_server = sv_set_timeouts sql_session" "sv_commit sql_server = sv_commit sql_session"
  "sv_rollback sql_server = sv_rollback sql_session" "sv_release sql_server = sv_release sql_session"
  by (simp_all add: sql_server_def)

lemma sql_server_is_session: "pg_session sql_server sw_db sw_tx (server_in T locked)"
  using locked_session.pg_session_axioms [where 'd = pg_tables and T = T and locked = locked]
  unfolding pg_session_def sql_server_fields .

lemmas server_statements = sql_server_def sql_session_def server_in_def

interpretation sql: pg_maintained sql_server sw_db sw_tx "server_in T locked" T BATCH_CAPACITY_LOCK_SQL BATCH_PREFLIGHT_SQL BATCH_UPSERT_SQL
  "\<lambda>now. CLEANUP_SQL (locked now \<circ> Row_Lock) now" for T locked
  unfolding pg_maintained_def pg_database_def
proof (intro conjI sql_server_is_session, unfold_locales, goal_cases)
  case (1 ids w w' a)
  then show ?case using sql_statement_read [of "\<lambda>_ _ _. ()" w w' a T] by (auto simp: server_statements)
next
  case (2 input w w' a)
  then show ?case using sql_statement_read [of "\<lambda>_ _ _. ()" w w' a T] by (auto simp: server_statements)
next
  case (3 input w w' b)
  then show ?case using sql_statement_read [of "\<lambda>_ _. BATCH_CAPACITY_LOCK_SQL input" w w' b T] by (auto simp: server_statements)
next
  case (4 input w w' c)
  then show ?case using sql_statement_read [of "BATCH_PREFLIGHT_SQL input" w w' c T] by (auto simp: server_statements)
next
  case (5 input t w w' e)
  then show ?case using sql_statement_write [of "\<lambda>_ _ r. BATCH_UPSERT_SQL input t r" w w' e T] by (auto simp: server_statements)
next
  case (6 n w w' a)
  then show ?case using sql_statement_write [of "\<lambda>locked now _. CLEANUP_SQL (locked now \<circ> Row_Lock) now n" w w' a T]
    by (auto simp: server_statements)
qed

section \<open>Operations on the tables\<close>

text \<open>What one check is granted, as the client reports it \<open>el\<close> after the sampled time.\<close>

definition pg_granted :: "duration \<Rightarrow> timestamp \<Rightarrow> pg_tables \<Rightarrow> fixed_window_policy check \<Rightarrow> allowance" where
  "pg_granted el now d c =
     (let row = charged_row now c (window_at d (pg_key c)); limit = fwp_limit (chk_policy c) in
      Allowance limit (capacity_get limit - nat (wr_used row)) (Delay (saturating_sub (nat (wr_expires_at row - now) * 1000) el)))"

definition pg_admission_spec where
  "pg_admission_spec maximum checks now el d =
     (case pg_first_denial maximum now d checks of
        None \<Rightarrow> PA_Allowed (map (pg_granted el now d) checks)
      | Some (i, PD_StorageCapacity) \<Rightarrow> PA_Denied i (StorageCapacity None)
      | Some (i, PD_Quota q) \<Rightarrow>
          (case fwp_quota_mode (chk_policy (hd checks)) of
             Enforce \<Rightarrow> PA_Denied i (QuotaExceeded (QuotaDenial_new (pq_limit q) (saturating_sub (pq_retry_from_sample q) el)))
           | Shadow \<Rightarrow> PA_ShadowDenied i (QuotaDenial_new (pq_limit q) (saturating_sub (pq_retry_from_sample q) el))))"

text \<open>The effect of an operation that returns a decision: nothing, or every counter charged.\<close>

definition pg_effect where
  "pg_effect maximum checks now d d' \<longleftrightarrow> tables_ok d' \<and>
     (case pg_first_denial maximum now d checks of None \<Rightarrow> pg_charged now checks d d' | Some _ \<Rightarrow> d' = d)"

definition pg_outcome where
  "pg_outcome T maximum checks build d dec d' \<longleftrightarrow>
     (\<exists>now el. T now \<and> build (pg_admission_spec maximum checks now el d) = Ok dec \<and> pg_effect maximum checks now d d')"

lemma pending_allowance_finish:
  "PendingAllowance_finish el (pg_allowance now d c) = Some (pg_granted el now d c)"
  by (simp add: PendingAllowance_finish_def pg_allowance_def pg_granted_def Allowance_new_def expect_def Let_def)

lemma pending_admission_spec:
  assumes "pg_spec maximum checks now d p d'" "checks \<noteq> []"
  shows "pending_admission checks p el = Some (pg_admission_spec maximum checks now el d)"
proof -
  have hd: "get_opt checks 0 = Some (hd checks)" using assms(2) by (cases checks) (auto simp: get_opt_def)
  show ?thesis
  proof (cases "pg_first_denial maximum now d checks")
    case None
    have "those (map (PendingAllowance_finish el \<circ> pg_allowance now d) checks) = Some (map (pg_granted el now d) checks)"
      by (rule those_map_Some) (simp add: pending_allowance_finish)
    then show ?thesis using None assms(1) by (simp add: pg_spec_def pending_admission_def pg_admission_spec_def)
  next
    case (Some x)
    then show ?thesis using assms(1) hd
      by (cases x; cases "snd x") (auto simp: pg_spec_def pending_admission_def pg_admission_spec_def denied_admission_def
          PendingDenial_finish_def PendingQuotaDenial_finish_def split: quota_mode.split)
  qed
qed

definition pg_checks_ok :: "fixed_window_policy check list \<Rightarrow> bool" where
  "pg_checks_ok checks \<longleftrightarrow> checks \<noteq> [] \<and> length checks < 2 ^ 63 \<and> list_all pg_check_ok checks \<and>
     distinct (map (chk_counter_key FixedWindowPolicy) checks)"

lemma pg_key_distinct:
  assumes "distinct (map (chk_counter_key FixedWindowPolicy) checks)"
  shows "distinct (map pg_key checks)"
proof -
  have "inj (\<lambda>k. (fingerprint_bytes (ck_fingerprint k), subject_bytes (ck_subject k)))"
    by (rule injI) (auto intro!: counter_key.expand policy_fingerprint.expand subject_key.expand)
  moreover have "map pg_key checks = map (\<lambda>k. (fingerprint_bytes (ck_fingerprint k), subject_bytes (ck_subject k)))
      (map (chk_counter_key FixedWindowPolicy) checks)"
    by (simp add: pg_key_def chk_counter_key_def)
  ultimately show ?thesis using assms by (simp only: distinct_map inj_on_subset [OF _ subset_UNIV] simp_thms)
qed

lemma sql_run_checks:
  assumes d: "tables_ok (sw_db w)" and clock: "clock_in T w" and config: "postgres_config_ok config" and checks: "pg_checks_ok checks"
    and interval: "interval_exact to_interval"
    and build: "\<And>adm e. build adm = Inl e \<Longrightarrow> CheckError_consumption e = NotConsumed"
  shows "case run_checks sha256 to_interval sql_server config checks build w of
      (w', None) \<Rightarrow> False
    | (w', Some (Ok dec)) \<Rightarrow> pg_outcome T (pg_maximum_rows_per_shard config) checks build (sw_db w) dec (sw_db w')
    | (w', Some (Err e)) \<Rightarrow> honest (pg_outcome T (pg_maximum_rows_per_shard config) checks build (sw_db w)) (sw_db w) e (sw_db w')"
proof -
  let ?max = "pg_maximum_rows_per_shard config"
  have ok: "\<forall>c \<in> set checks. pg_check_ok c" "checks \<noteq> []" "length checks < 2 ^ 63" "distinct (map pg_key checks)"
    using checks pg_key_distinct by (auto simp: pg_checks_ok_def list_all_iff)
  obtain input where input: "BatchSqlInput_from_checks sha256 to_interval checks = Some input" "input_of checks input"
    using from_checks_ok [OF ok(1) interval ok(3)] by blast
  have max: "?max \<le> HARD_MAX_ROWS_PER_SHARD" using config by (simp add: postgres_config_ok_def)
  have decided: "sql.decides T input checks ?max build (sw_db w) dec d' \<Longrightarrow> pg_outcome T ?max checks build (sw_db w) dec d'" for dec d'
  proof -
    assume "sql.decides T input checks ?max build (sw_db w) dec d'"
    then obtain now r1 r2 p el adm where T: "T now" and r: "sql_result input checks ?max now r1 r2 (sw_db w) = Ok (p, el, d')"
      and adm: "pending_admission checks p el = Some adm" "build adm = Ok dec" unfolding batch_decided_def by blast
    from sql_result_sound [OF d input(2) ok(4,2,3,1) max r] have spec: "pg_spec ?max checks now (sw_db w) p d'" "tables_ok d'" by auto
    then have "pg_effect ?max checks now (sw_db w) d'" by (auto simp: pg_effect_def pg_spec_def split: option.splits)
    then show ?thesis using pending_admission_spec [OF spec(1) ok(2), of el] adm T unfolding pg_outcome_def by auto
  qed
  have "triple (\<lambda>w'. server_in T (sw_locked w) w' \<and> sw_db w' = sw_db w) (run_checks sha256 to_interval sql_server config checks build)
     (\<lambda>dec w'. pg_outcome T ?max checks build (sw_db w) dec (sw_db w'))
     (\<lambda>e w'. honest (pg_outcome T ?max checks build (sw_db w)) (sw_db w) e (sw_db w'))"
    by (rule triple_weaken [OF sql.run_checks_triple [OF ok(2) input(1) build]])
      (auto simp: honest_def intro: decided)
  from tripleD [OF this] clock show ?thesis by (simp add: server_in_def)
qed

section \<open>The public operations\<close>

definition admission_view :: "nat \<Rightarrow> pg_admission \<Rightarrow> batch_decision_view" where
  "admission_view n adm =
     (case adm of
        PA_Allowed allowances \<Rightarrow> BV_Allowed allowances
      | PA_Denied i denial \<Rightarrow> BV_Denied i n denial
      | PA_ShadowDenied i denial \<Rightarrow> BV_ShadowDenied i n denial)"

text \<open>What an error may have done: nothing, or, when it says so, the whole batch.\<close>

definition pg_possible_effect where
  "pg_possible_effect T maximum checks e d d' \<longleftrightarrow>
     d' = d \<or>
     CheckError_consumption e = PossiblyConsumed \<and> tables_ok d' \<and>
       (\<exists>now. T now \<and> pg_first_denial maximum now d checks = None \<and> pg_charged now checks d d')"

lemma batch_decision_of_view:
  "batch_decision_of n adm = Ok dec \<Longrightarrow> BatchDecision_view dec = admission_view n adm"
  by (auto simp: batch_decision_of_def map_err_def batch_decision_con_Ok admission_view_def BatchDecision_view_def
      split: if_splits sum.splits pg_admission.splits)

lemma single_decision_view:
  "single_decision adm = Ok dec \<Longrightarrow> Decision_view dec =
     (case adm of PA_Allowed as \<Rightarrow> DV_Allowed (hd as) | PA_Denied _ x \<Rightarrow> DV_Denied x | PA_ShadowDenied _ q \<Rightarrow> DV_ShadowDenied q)"
  by (auto simp: single_decision_def decision_con_defs decision_view_defs split: pg_admission.splits list.splits if_splits)

lemma honest_possible_effect:
  "honest (pg_outcome T maximum checks build d) d e d' \<Longrightarrow> pg_possible_effect T maximum checks e d d'"
  unfolding honest_def pg_outcome_def pg_effect_def pg_possible_effect_def by (fastforce split: option.splits)

lemma pg_outcome_ok: "tables_ok d \<Longrightarrow> pg_outcome T maximum checks build d dec d' \<Longrightarrow> tables_ok d'"
  by (auto simp: pg_outcome_def pg_effect_def)

lemma possible_effect_ok: "tables_ok d \<Longrightarrow> pg_possible_effect T maximum checks e d d' \<Longrightarrow> tables_ok d'"
  by (auto simp: pg_possible_effect_def)

lemma check_all_outcome:
  assumes "tables_ok (sw_db w)" "clock_in T w" "postgres_config_ok config" "interval_exact to_interval"
    and "list_all pg_check_ok checks" "length checks < 2 ^ 63"
  shows "case check_all_unobserved sha256 to_interval sql_server config checks w of
      (w', None) \<Rightarrow> False
    | (w', Some (Ok decision)) \<Rightarrow> batch_ok FixedWindowPolicy (pg_max_batch_size config) checks \<and>
        pg_outcome T (pg_maximum_rows_per_shard config) checks (batch_decision_of (length checks)) (sw_db w) decision (sw_db w')
    | (w', Some (Err (PgInvalidBatch e))) \<Rightarrow> \<not> batch_ok FixedWindowPolicy (pg_max_batch_size config) checks \<and> w' = w
    | (w', Some (Err (PgCheck e))) \<Rightarrow> batch_ok FixedWindowPolicy (pg_max_batch_size config) checks \<and>
        pg_possible_effect T (pg_maximum_rows_per_shard config) checks e (sw_db w) (sw_db w')"
proof (cases "validate_batch FixedWindowPolicy checks (pg_max_batch_size config)")
  case (Inl e)
  then have "\<not> batch_ok FixedWindowPolicy (pg_max_batch_size config) checks"
    using validate_batch_Ok [of FixedWindowPolicy checks "pg_max_batch_size config"] by auto
  then show ?thesis using Inl by (simp add: check_all_unobserved_def)
next
  case (Inr u)
  then have valid: "batch_ok FixedWindowPolicy (pg_max_batch_size config) checks"
    using validate_batch_Ok [of FixedWindowPolicy checks "pg_max_batch_size config"] by auto
  then have "pg_checks_ok checks" using assms(5,6) by (simp add: pg_checks_ok_def batch_ok_def)
  from sql_run_checks [OF assms(1-3) this assms(4), of "batch_decision_of (length checks)" sha256]
  show ?thesis using Inr valid build_error_not_consumed(2)
    by (fastforce simp: check_all_unobserved_def intro: honest_possible_effect split: prod.splits option.splits sum.splits)
qed

text \<open>Concrete instances: the tables right after the migrations, a check, and a server script that loses the
  acknowledgement of the ninth step.\<close>

definition migrated_tables :: pg_tables where
  "migrated_tables = \<lparr>tb_windows = [], tb_ledger = (\<lambda>s. if s < CAPACITY_SHARD_COUNT then Some 0 else None)\<rparr>"

lemma migrated_tables_ok: "tables_ok migrated_tables"
  by (simp add: tables_ok_def migrated_tables_def rows_in_shard_def)

definition pg_sample_check :: "nat \<Rightarrow> fixed_window_policy check" where
  "pg_sample_check cost =
     \<lparr>chk_policy = (sample_fwp id 8)\<lparr>fwp_fingerprint := PolicyFingerprint (replicate 32 1)\<rparr>,
      chk_subject = SubjectKey (replicate 32 2), chk_cost = cost\<rparr>"

lemma pg_sample_check_ok: "0 < n \<Longrightarrow> n \<le> 8 \<Longrightarrow> pg_check_ok (pg_sample_check n)"
  by (simp add: pg_check_ok_def pg_sample_check_def sample_fwp_def check_ok_def FixedWindowPolicy_def small_values_ok
      counter_key_ok_def chk_counter_key_def del: str_simps)

definition micros_of :: "duration \<Rightarrow> int option" where
  "micros_of d = (if d mod 1000 = 0 then Some (int d div 1000) else None)"

lemma micros_of_exact: "interval_exact micros_of"
  by (auto simp: interval_exact_def micros_of_def period_duration_def from_millis_def NANOS_PER_MILLI_def)

lemma default_config_ok: "postgres_config_ok PostgresConfig_new"
  by (simp add: postgres_config_ok_def PostgresConfig_new_def pg_config_constants rust_defs)

definition sample_world :: "pg_tables sql_world" where
  "sample_world = \<lparr>sw_db = migrated_tables, sw_tx = migrated_tables, sw_clock = 0, sw_time = 1000000, sw_xid = 0, sw_uuids = 0, sw_locked = (\<lambda>_ _. False),
     sw_script = replicate 8 (5, 10, 1, No_Fault) @ [(5, 10, 1, Reply_Lost None)]\<rparr>"

lemma sample_world_ok: "tables_ok (sw_db sample_world)"
  by (simp add: sample_world_def migrated_tables_ok)

lemma sample_world_clock: "clock_in ((\<le>) 1000000) sample_world"
  by (simp add: sample_world_def clock_in_def numeral_eq_Suc)



text \<open>
  A single check on Postgres answers as the tables imply at the sampled time: an allowance and one
  charged counter, or a denial and no change; an error leaves the tables unchanged unless it reports
  possible consumption.
\<close>

theorem postgres_check_correct:
  assumes "tables_ok (sw_db w)" "clock_in T w" "postgres_config_ok config" "interval_exact to_interval" "pg_check_ok check"
  shows "case pg_check observer ost sha256 to_interval sql_server config elapsed check w of
      (_, _, None) \<Rightarrow> False
    | (_, w', Some (Ok decision)) \<Rightarrow>
        \<exists>now el. T now \<and> Decision_view decision =
            (case pg_admission_spec (pg_maximum_rows_per_shard config) [check] now el (sw_db w) of
               PA_Allowed allowances \<Rightarrow> DV_Allowed (hd allowances)
             | PA_Denied _ denial \<Rightarrow> DV_Denied denial
             | PA_ShadowDenied _ denial \<Rightarrow> DV_ShadowDenied denial) \<and>
          pg_effect (pg_maximum_rows_per_shard config) [check] now (sw_db w) (sw_db w')
    | (_, w', Some (Err e)) \<Rightarrow> pg_possible_effect T (pg_maximum_rows_per_shard config) [check] e (sw_db w) (sw_db w')"
  using sql_run_checks [OF assms(1-3) _ assms(4), of "[check]" single_decision sha256] assms(5) build_error_not_consumed(1)
  by (fastforce simp: pg_checks_ok_def pg_check_def pg_outcome_def decision_con_defs decision_view_defs
      intro: honest_possible_effect dest: single_decision_view
      split: prod.splits option.splits sum.splits)

theorem postgres_check_correct_witness:
  "case pg_check None () id micros_of sql_server PostgresConfig_new 7 (pg_sample_check 3) sample_world of
      (_, _, None) \<Rightarrow> False
    | (_, w', Some (Ok decision)) \<Rightarrow>
        \<exists>now el. 1000000 \<le> now \<and> Decision_view decision =
            (case pg_admission_spec (pg_maximum_rows_per_shard PostgresConfig_new) [pg_sample_check 3] now el (sw_db sample_world) of
               PA_Allowed allowances \<Rightarrow> DV_Allowed (hd allowances)
             | PA_Denied _ denial \<Rightarrow> DV_Denied denial
             | PA_ShadowDenied _ denial \<Rightarrow> DV_ShadowDenied denial) \<and>
          pg_effect (pg_maximum_rows_per_shard PostgresConfig_new) [pg_sample_check 3] now (sw_db sample_world) (sw_db w')
    | (_, w', Some (Err e)) \<Rightarrow>
        pg_possible_effect ((\<le>) 1000000) (pg_maximum_rows_per_shard PostgresConfig_new) [pg_sample_check 3] e (sw_db sample_world) (sw_db w')"
  by (rule postgres_check_correct [OF sample_world_ok sample_world_clock default_config_ok micros_of_exact pg_sample_check_ok]) simp_all

text \<open>Rows gone by cleanup.\<close>

definition pg_cleaned :: "timestamp \<Rightarrow> pg_tables \<Rightarrow> pg_tables \<Rightarrow> bool" where
  "pg_cleaned now d d' \<longleftrightarrow> tables_ok d' \<and>
     (\<forall>k. window_at d' k = window_at d k \<or>
        window_at d' k = None \<and> (\<exists>row. window_at d k = Some row \<and> wr_expires_at row \<le> now))"

text \<open>A cleanup of up to \<open>n\<close> rows removed \<open>rows\<close> of those that were expired and not locked by other sessions.\<close>

definition pg_swept :: "(timestamp \<Rightarrow> sql_lock \<Rightarrow> bool) \<Rightarrow> nat \<Rightarrow> timestamp \<Rightarrow> pg_tables \<Rightarrow> pg_tables \<Rightarrow> nat \<Rightarrow> bool" where
  "pg_swept locked n now d d' rows \<longleftrightarrow> pg_cleaned now d d' \<and>
     rows = min n (length (removable (locked now \<circ> Row_Lock) now (tb_windows d))) \<and>
     length (tb_windows d') + rows = length (tb_windows d)"

lemma cleanup_sql_swept:
  assumes "tables_ok d" "CLEANUP_SQL (locked now \<circ> Row_Lock) now n d = Ok (d', rows)"
  shows "pg_swept locked n now d d' rows"
  using cleanup_spec [OF assms(1), of "locked now \<circ> Row_Lock" now n] assms(2) by (auto simp: pg_cleaned_def pg_swept_def)

lemma cleanup_outcome:
  assumes "tables_ok (sw_db w)" "clock_in T w"
  shows "case cleanup_expired_unobserved sql_server config n w of
      (w', None) \<Rightarrow> False
    | (w', Some (Ok rows)) \<Rightarrow> \<exists>now. T now \<and> pg_swept (sw_locked w) n now (sw_db w) (sw_db w') rows
    | (w', Some (Err e)) \<Rightarrow>
        sw_db w' = sw_db w \<or> may_have_removed_rows e \<and> (\<exists>now rows. T now \<and> pg_swept (sw_locked w) n now (sw_db w) (sw_db w') rows)"
proof -
  let ?d = "sw_db w" and ?L = "sw_locked w"
  have none: "pg_swept ?L 0 now ?d ?d 0" for now using assms(1) by (simp add: pg_cleaned_def pg_swept_def)
  have "triple (\<lambda>w'. server_in T ?L w' \<and> sw_db w' = ?d) (cleanup_expired_unobserved sql_server config n)
     (\<lambda>rows w'. \<exists>now. T now \<and> pg_swept ?L n now ?d (sw_db w') rows)
     (\<lambda>e w'. sw_db w' = ?d \<or> may_have_removed_rows e \<and> (\<exists>now rows. T now \<and> pg_swept ?L n now ?d (sw_db w') rows))"
  proof (rule triple_weaken [OF sql.cleanup_triple [of T ?L ?d config n]], goal_cases)
    case (2 rows w')
    then show ?case using cleanup_sql_swept [OF assms(1)] none clock_in_reading [OF assms(2)] by (auto split: if_splits)
  next
    case (3 e w')
    then show ?case unfolding cleanup_honest_def using cleanup_sql_swept [OF assms(1)] by blast
  qed
  from tripleD [OF this] assms(2) show ?thesis by (simp add: server_in_def)
qed


text \<open>Two expired rows on a server where another session holds the first.\<close>

definition expired_row :: "u8 \<Rightarrow> window_row" where
  "expired_row n = \<lparr>wr_policy_id = str ''p'', wr_scope_id = str ''s'', wr_fingerprint = replicate 32 1, wr_subject = replicate 32 n,
     wr_started_at = - 60, wr_expires_at = 0, wr_used = 1\<rparr>"

definition expired_world :: "pg_tables sql_world" where
  "expired_world = sample_world\<lparr>sw_db := \<lparr>tb_windows = [expired_row 2, expired_row 5],
     tb_ledger = (\<lambda>s. if s < CAPACITY_SHARD_COUNT then Some (int (rows_in_shard s [expired_row 2, expired_row 5])) else None)\<rparr>,
     sw_locked := (\<lambda>_ l. l = Row_Lock (wr_key (expired_row 2)))\<rparr>"

lemma expired_world_ok: "tables_ok (sw_db expired_world)"
proof -
  have "rows_in_shard s [expired_row 2, expired_row 5] \<le> 2" for s by (simp add: rows_in_shard_def)
  then have "rows_in_shard s [expired_row 2, expired_row 5] \<le> HARD_MAX_ROWS_PER_SHARD" for s
    by (rule order_trans) (simp add: HARD_MAX_ROWS_PER_SHARD_def)
  moreover have "row_constraints (expired_row n)" for n
    by (simp add: row_constraints_def expired_row_def as_bytes_def utf8_encode_def)
  moreover have "wr_key (expired_row 2) \<noteq> wr_key (expired_row 5)" by (simp add: wr_key_def expired_row_def)
  ultimately show ?thesis by (simp add: expired_world_def tables_ok_def)
qed


section \<open>Reachable tables\<close>

text \<open>Replicas with their own configurations run operations one after another, each against a server that may
  misbehave in its own way. Observers do not touch the tables and are left out.\<close>

inductive pg_reach :: "pg_tables sql_world \<Rightarrow> bool" where
  reach_migrated: "sw_db w = migrated_tables \<Longrightarrow> pg_reach w"
| reach_server: "pg_reach w \<Longrightarrow> sw_db w' = sw_db w \<Longrightarrow> pg_reach w'"
| reach_check: "pg_reach w \<Longrightarrow> postgres_config_ok config \<Longrightarrow> interval_exact to_interval \<Longrightarrow> pg_check_ok check \<Longrightarrow>
    run_checks sha256 to_interval sql_server config [check] single_decision w = (w', r) \<Longrightarrow> pg_reach w'"
| reach_batch: "pg_reach w \<Longrightarrow> postgres_config_ok config \<Longrightarrow> interval_exact to_interval \<Longrightarrow>
    list_all pg_check_ok checks \<Longrightarrow> length checks < 2 ^ 63 \<Longrightarrow>
    check_all_unobserved sha256 to_interval sql_server config checks w = (w', r) \<Longrightarrow> pg_reach w'"
| reach_cleanup: "pg_reach w \<Longrightarrow> cleanup_expired_unobserved sql_server config n w = (w', r) \<Longrightarrow> pg_reach w'"

lemma check_keeps_tables:
  assumes "tables_ok (sw_db w)" "postgres_config_ok config" "interval_exact to_interval" "pg_check_ok check"
    and "run_checks sha256 to_interval sql_server config [check] single_decision w = (w', r)"
  shows "tables_ok (sw_db w')"
  using sql_run_checks [OF assms(1) clock_in_True assms(2) _ assms(3), of "[check]" single_decision sha256] assms(1,4,5) build_error_not_consumed(1)
  by (auto simp: pg_checks_ok_def dest!: honest_possible_effect
      intro: pg_outcome_ok possible_effect_ok split: prod.splits option.splits sum.splits)

lemma check_all_keeps_tables:
  assumes "tables_ok (sw_db w)" "postgres_config_ok config" "interval_exact to_interval" "list_all pg_check_ok checks" "length checks < 2 ^ 63"
    and "check_all_unobserved sha256 to_interval sql_server config checks w = (w', r)"
  shows "tables_ok (sw_db w')"
  using check_all_outcome [OF assms(1) clock_in_True assms(2-5), of sha256] assms(1,6)
  by (auto intro: pg_outcome_ok possible_effect_ok split: prod.splits option.splits sum.splits batch_check_error.splits)

lemma cleanup_keeps_tables:
  assumes "tables_ok (sw_db w)" "cleanup_expired_unobserved sql_server config n w = (w', r)"
  shows "tables_ok (sw_db w')"
  using cleanup_outcome [OF assms(1) clock_in_True, of n config] assms
  by (auto simp: pg_swept_def pg_cleaned_def split: prod.splits option.splits sum.splits)

text \<open>
  C5: the capacity ledger is exact for ever. From the migrated tables on, after any sequence of
  checks, batches and cleanups by replicas with any configurations, with any lost statements and
  replies, storage keys are unique, every row meets its constraints, and each shard's ledger holds the
  exact number of its rows, at most the hard maximum.
\<close>

theorem postgres_ledger_exact:
  assumes "pg_reach w"
  shows "distinct (map wr_key (tb_windows (sw_db w))) \<and> list_all row_constraints (tb_windows (sw_db w)) \<and>
    (\<forall>s < CAPACITY_SHARD_COUNT. tb_ledger (sw_db w) s = Some (int (rows_in_shard s (tb_windows (sw_db w)))) \<and>
      rows_in_shard s (tb_windows (sw_db w)) \<le> HARD_MAX_ROWS_PER_SHARD)"
  using assms unfolding tables_ok_def [symmetric]
proof induction
  case (reach_migrated w)
  then show ?case by (simp add: migrated_tables_ok)
next
  case (reach_check w config to_interval check sha256 w' r)
  then show ?case using check_keeps_tables by blast
next
  case (reach_batch w config to_interval checks sha256 w' r)
  then show ?case using check_all_keeps_tables by blast
next
  case (reach_cleanup w config n w' r)
  then show ?case using cleanup_keeps_tables by blast
qed simp

theorem postgres_ledger_exact_witness:
  "let w = fst (run_checks id micros_of sql_server PostgresConfig_new [pg_sample_check 3] single_decision sample_world) in
   tb_ledger (sw_db w) 3 = Some (int (rows_in_shard 3 (tb_windows (sw_db w))))"
proof -
  let ?run = "run_checks id micros_of sql_server PostgresConfig_new [pg_sample_check 3] single_decision sample_world"
  have "pg_reach sample_world" by (rule reach_migrated) (simp add: sample_world_def)
  then have "pg_reach (fst ?run)"
    by (rule reach_check [OF _ default_config_ok micros_of_exact pg_sample_check_ok]) (simp_all add: prod_eq_iff)
  from postgres_ledger_exact [OF this] show ?thesis by (simp add: Let_def CAPACITY_SHARD_COUNT_def)
qed

section \<open>What a history admits\<close>

text \<open>What one operation reports as admitted for a counter, whose checks \<open>key\<close> identifies.\<close>

definition cost_at :: "('p check \<Rightarrow> storage_key) \<Rightarrow> storage_key \<Rightarrow> 'p check list \<Rightarrow> nat" where
  "cost_at key k checks = sum_list (map chk_cost (filter (\<lambda>c. key c = k) checks))"

lemma cost_at_find:
  "distinct (map key checks) \<Longrightarrow>
     cost_at key k checks = (case List.find (\<lambda>c. key c = k) checks of None \<Rightarrow> 0 | Some c \<Rightarrow> chk_cost c)"
proof (induction checks)
  case (Cons c checks)
  have "filter (\<lambda>c. key c = k) checks = []" if "key c = k" using Cons.prems that
    by (simp add: filter_empty_conv) (metis image_eqI)
  then show ?case using Cons by (cases "key c = k") (auto simp: cost_at_def)
qed (simp add: cost_at_def)

definition check_admits :: "('p check \<Rightarrow> storage_key) \<Rightarrow> storage_key \<Rightarrow> 'p check \<Rightarrow> (pg_check_error, decision) result option \<Rightarrow> nat" where
  "check_admits key k c r =
     (case r of
        Some (Ok decision) \<Rightarrow> (case Decision_view decision of DV_Allowed _ \<Rightarrow> cost_at key k [c] | _ \<Rightarrow> 0)
      | _ \<Rightarrow> 0)"

definition batch_admits ::
    "('p check \<Rightarrow> storage_key) \<Rightarrow> storage_key \<Rightarrow> 'p check list \<Rightarrow> (batch_check_error, batch_decision) result option \<Rightarrow> nat" where
  "batch_admits key k checks r =
     (case r of
        Some (Ok decision) \<Rightarrow> (case BatchDecision_view decision of BV_Allowed _ \<Rightarrow> cost_at key k checks | _ \<Rightarrow> 0)
      | _ \<Rightarrow> 0)"

end
