(* ===== verification/Postgres_Window_Limits.thy ===== *)
theory Postgres_Window_Limits
  imports Postgres_Server
begin

text \<open>
  The durable fixed-window limiter keeps its limit over every history of replicas. The database clock need
  not be monotonic: a step back only prolongs windows. Only what a cleanup has removed is forgotten, so
  after a cleanup the clock must not show a time before it.
\<close>

section \<open>What a counter can still admit\<close>

text \<open>\<open>windows W t1 t\<close> is the number of windows of length \<open>W\<close> that can start after one that starts at \<open>t\<close>, up to \<open>t1\<close>.\<close>

definition windows :: "int \<Rightarrow> timestamp \<Rightarrow> timestamp \<Rightarrow> nat" where
  "windows W t1 t = nat ((t1 - t) div W)"

lemma windows_mono: "0 < W \<Longrightarrow> t \<le> u \<Longrightarrow> windows W t1 u \<le> windows W t1 t"
  unfolding windows_def by (intro nat_mono zdiv_mono1) auto

lemma windows_step:
  assumes "0 < W" "t + W \<le> t1"
  shows "windows W t1 t = Suc (windows W t1 (t + W))"
proof -
  have "(t1 - t) div W = (t1 - (t + W)) div W + 1" using assms(1) div_add_self2 [of W "t1 - (t + W)"] by simp
  moreover have "0 \<le> (t1 - (t + W)) div W" using assms by (intro pos_imp_zdiv_nonneg_iff [THEN iffD2]) auto
  ultimately show ?thesis by (simp add: windows_def Suc_nat_eq_nat_zadd1)
qed

text \<open>Given the row of a counter, and that no reading before \<open>f\<close> is still to come.\<close>

definition window_potential :: "nat \<Rightarrow> int \<Rightarrow> timestamp \<Rightarrow> timestamp \<Rightarrow> window_row option \<Rightarrow> nat" where
  "window_potential L W t1 f st =
     (case st of
        None \<Rightarrow> L * Suc (windows W t1 f)
      | Some row \<Rightarrow>
          if wr_expires_at row \<le> f then L * Suc (windows W t1 f)
          else L - nat (wr_used row) + (if wr_expires_at row \<le> t1 then L * Suc (windows W t1 (wr_expires_at row)) else 0))"

lemma fresh_window:
  assumes "0 < W" "now \<le> t1" "c \<le> L" "f \<le> now" "wr_used row = int c" "wr_expires_at row = now + W"
  shows "c + window_potential L W t1 f (Some row) \<le> L * Suc (windows W t1 now)"
proof (cases "now + W \<le> t1")
  case True
  then show ?thesis using assms windows_step [OF assms(1) True] by (simp add: window_potential_def algebra_simps)
next
  case False
  then show ?thesis using assms by (simp add: window_potential_def)
qed

lemma potential_floor:
  assumes "0 < W" "f \<le> f'" "f' \<le> t1"
  shows "window_potential L W t1 f' st \<le> window_potential L W t1 f st"
proof -
  have "L * Suc (windows W t1 f') \<le> L * Suc (windows W t1 f)" using windows_mono [OF assms(1,2)] by simp
  moreover have "L * Suc (windows W t1 f') \<le> L * Suc (windows W t1 e)" if "e \<le> f'" for e using windows_mono [OF assms(1) that] by simp
  ultimately show ?thesis using assms(2,3)
    by (cases st) (auto simp: window_potential_def intro: trans_le_add2 simp del: mult_Suc_right)
qed

lemma potential_removed:
  assumes "0 < W" "f \<le> f'" "f' \<le> t1" "wr_expires_at row \<le> f'"
  shows "window_potential L W t1 f' None \<le> window_potential L W t1 f (Some row)"
  using potential_floor [OF assms(1-3), of L "Some row"] assms(4) by (simp add: window_potential_def)

lemma potential_charged:
  assumes c: "capacity_get (fwp_limit (chk_policy c)) = L" "window_micros c = W" "pg_check_ok c"
    and now: "f \<le> now" "now \<le> t1" and admits: "row_admits now c st" and row: "\<And>row. st = Some row \<Longrightarrow> row_constraints row"
  shows "chk_cost c + window_potential L W t1 f (Some (charged_row now c st)) \<le> window_potential L W t1 f st"
proof -
  have W: "0 < W" and cost: "chk_cost c \<le> L" using pg_check_bounds [OF c(3)] c(1,2) by simp_all
  show ?thesis
  proof (cases "\<exists>row. st = Some row \<and> now < wr_expires_at row")
    case True
    then obtain row where st: "st = Some row" "now < wr_expires_at row" by blast
    then have "wr_used row + int (chk_cost c) \<le> int L" "0 < wr_used row"
      using admits row c(1) by (auto simp: row_admits_def row_constraints_def)
    then have "nat (wr_used row) + chk_cost c \<le> L" "nat (wr_used row + int (chk_cost c)) = nat (wr_used row) + chk_cost c" by linarith+
    then show ?thesis using st now(1) by (simp add: window_potential_def charged_row_def Let_def)
  next
    case False
    let ?row = "charged_row now c st"
    have "wr_used ?row = int (chk_cost c)" "wr_expires_at ?row = now + W"
      using False c(2) by (auto simp: charged_row_def Let_def split: option.splits)
    from fresh_window [OF W now(2) cost now(1) this] have "chk_cost c + window_potential L W t1 f (Some ?row) \<le> L * Suc (windows W t1 now)" .
    also have "\<dots> \<le> window_potential L W t1 f st"
    proof -
      have "window_potential L W t1 now st \<le> window_potential L W t1 f st" by (rule potential_floor [OF W now])
      then show ?thesis using False by (cases st) (auto simp: window_potential_def)
    qed
    finally show ?thesis .
  qed
qed

section \<open>Histories\<close>

text \<open>Every check of the counter \<open>k\<close> carries the limit \<open>L\<close> and the window \<open>W\<close>: they are part of the fingerprint in \<open>k\<close>.\<close>

definition window_check_ok :: "storage_key \<Rightarrow> nat \<Rightarrow> int \<Rightarrow> fixed_window_policy check \<Rightarrow> bool" where
  "window_check_ok k L W c \<longleftrightarrow>
     pg_check_ok c \<and> (pg_key c = k \<longrightarrow> capacity_get (fwp_limit (chk_policy c)) = L \<and> window_micros c = W)"

definition between :: "timestamp \<Rightarrow> timestamp \<Rightarrow> timestamp \<Rightarrow> bool" where
  "between f t1 t \<longleftrightarrow> f \<le> t \<and> t \<le> t1"

text \<open>Replicas with their own configurations run operations one after another on the same tables, each against a
  server that may misbehave in its own way; the total counts the cost reported as admitted for \<open>k\<close>. The
  clock may move at will between the floor, first \<open>t0\<close>, and \<open>t1\<close>; a cleanup raises the floor to a time
  that it did not exceed.\<close>

inductive pg_history :: "storage_key \<Rightarrow> nat \<Rightarrow> int \<Rightarrow> timestamp \<Rightarrow> timestamp \<Rightarrow> pg_tables sql_world \<Rightarrow> nat \<Rightarrow> timestamp \<Rightarrow>
    pg_tables sql_world \<Rightarrow> bool" for k L W t1 t0 w0 where
  history_start: "pg_history k L W t1 t0 w0 0 t0 w0"
| history_server: "pg_history k L W t1 t0 w0 n f w \<Longrightarrow> sw_db w' = sw_db w \<Longrightarrow> pg_history k L W t1 t0 w0 n f w'"
| history_check: "pg_history k L W t1 t0 w0 n f w \<Longrightarrow> clock_in (between f t1) w \<Longrightarrow> postgres_config_ok config \<Longrightarrow>
    interval_exact to_interval \<Longrightarrow> window_check_ok k L W check \<Longrightarrow>
    run_checks sha256 to_interval sql_server config [check] single_decision w = (w', r) \<Longrightarrow>
    pg_history k L W t1 t0 w0 (n + check_admits pg_key k check r) f w'"
| history_batch: "pg_history k L W t1 t0 w0 n f w \<Longrightarrow> clock_in (between f t1) w \<Longrightarrow> postgres_config_ok config \<Longrightarrow>
    interval_exact to_interval \<Longrightarrow> list_all (window_check_ok k L W) checks \<Longrightarrow> length checks < 2 ^ 63 \<Longrightarrow>
    check_all_unobserved sha256 to_interval sql_server config checks w = (w', r) \<Longrightarrow>
    pg_history k L W t1 t0 w0 (n + batch_admits pg_key k checks r) f w'"
| history_cleanup: "pg_history k L W t1 t0 w0 n f w \<Longrightarrow> clock_in (between f f') w \<Longrightarrow> f' \<le> t1 \<Longrightarrow>
    cleanup_expired_unobserved sql_server config m w = (w', r) \<Longrightarrow> pg_history k L W t1 t0 w0 n f' w'"

abbreviation potential_of :: "storage_key \<Rightarrow> nat \<Rightarrow> int \<Rightarrow> timestamp \<Rightarrow> timestamp \<Rightarrow> pg_tables \<Rightarrow> nat" where
  "potential_of k L W t1 f d \<equiv> window_potential L W t1 f (window_at d k)"

lemma charged_pays:
  assumes d: "tables_ok d" and checks: "list_all (window_check_ok k L W) checks" and keys: "distinct (map pg_key checks)"
    and now: "between f t1 now" and none: "pg_first_denial maximum now d checks = None" and eff: "pg_charged now checks d d'"
  shows "cost_at pg_key k checks + potential_of k L W t1 f d' \<le> potential_of k L W t1 f d"
  using eff [unfolded pg_charged_def, THEN spec, of k]
proof (cases "List.find (\<lambda>c. pg_key c = k) checks")
  case None
  moreover assume "window_at d' k = (case List.find (\<lambda>c. pg_key c = k) checks of None \<Rightarrow> window_at d k
    | Some c \<Rightarrow> Some (charged_row now c (window_at d k)))"
  ultimately show ?thesis by (simp add: cost_at_find [OF keys])
next
  case (Some c)
  then obtain i where i: "i < length checks" "c = checks ! i" "pg_key c = k" by (auto simp: find_Some_iff)
  then have c: "window_check_ok k L W c" using checks by (auto simp: list_all_length)
  have "row_admits now c (window_at d k)" using none i no_denial_admits [of maximum now d checks i] by (simp add: pg_first_denial_iff)
  moreover have "row_constraints row" if "window_at d k = Some row" for row
    using d find_row_key [OF that] by (auto simp: tables_ok_def list_all_iff)
  ultimately have "chk_cost c + window_potential L W t1 f (Some (charged_row now c (window_at d k))) \<le> potential_of k L W t1 f d"
    using c i(3) now by (intro potential_charged) (auto simp: window_check_ok_def between_def)
  moreover assume "window_at d' k = (case List.find (\<lambda>c. pg_key c = k) checks of None \<Rightarrow> window_at d k
    | Some c \<Rightarrow> Some (charged_row now c (window_at d k)))"
  ultimately show ?thesis using Some by (simp add: cost_at_find [OF keys])
qed

lemma outcome_pays:
  assumes d: "tables_ok d" and checks: "list_all (window_check_ok k L W) checks" and keys: "distinct (map pg_key checks)"
    and out: "pg_outcome (between f t1) maximum checks build d dec d'"
    and allowed: "\<And>adm. build adm = Ok dec \<Longrightarrow> granted \<Longrightarrow> \<exists>as. adm = PA_Allowed as"
  shows "(if granted then cost_at pg_key k checks else 0) + potential_of k L W t1 f d' \<le> potential_of k L W t1 f d"
proof -
  from out obtain now el where now: "between f t1 now" "build (pg_admission_spec maximum checks now el d) = Ok dec"
    and eff: "pg_effect maximum checks now d d'" by (auto simp: pg_outcome_def)
  show ?thesis
  proof (cases "pg_first_denial maximum now d checks")
    case None
    with eff have "cost_at pg_key k checks + potential_of k L W t1 f d' \<le> potential_of k L W t1 f d"
      by (intro charged_pays [OF d checks keys now(1) None]) (simp add: pg_effect_def)
    then show ?thesis by simp
  next
    case (Some x)
    then have "\<not> granted" using allowed [OF now(2)]
      by (auto simp: pg_admission_spec_def split: prod.splits pending_denial.splits quota_mode.splits)
    then show ?thesis using eff Some by (auto simp: pg_effect_def)
  qed
qed

lemma possible_effect_pays:
  assumes "tables_ok d" "list_all (window_check_ok k L W) checks" "distinct (map pg_key checks)"
    and "pg_possible_effect (between f t1) maximum checks e d d'"
  shows "potential_of k L W t1 f d' \<le> potential_of k L W t1 f d"
  using assms(4) charged_pays [OF assms(1-3), of f t1] by (fastforce simp: pg_possible_effect_def)

text \<open>One operation of a history.\<close>

abbreviation window_paid where
  "window_paid k L W t1 f n d d' \<equiv> tables_ok d' \<and> n + potential_of k L W t1 f d' \<le> potential_of k L W t1 f d"

lemma check_pays:
  assumes d: "tables_ok (sw_db w)" "clock_in (between f t1) w" "postgres_config_ok config" "interval_exact to_interval"
    and c: "window_check_ok k L W check"
    and run: "run_checks sha256 to_interval sql_server config [check] single_decision w = (w', r)"
  shows "window_paid k L W t1 f (check_admits pg_key k check r) (sw_db w) (sw_db w')"
proof -
  let ?max = "pg_maximum_rows_per_shard config"
  have checks: "list_all (window_check_ok k L W) [check]" "distinct (map pg_key [check])" "pg_checks_ok [check]"
    using c by (simp_all add: window_check_ok_def pg_checks_ok_def)
  from sql_run_checks [OF d(1-3) checks(3) d(4), of single_decision sha256] run build_error_not_consumed(1)
  consider (decided) dec where "r = Some (Ok dec)" "pg_outcome (between f t1) ?max [check] single_decision (sw_db w) dec (sw_db w')"
    | (failed) e where "r = Some (Err e)" "pg_possible_effect (between f t1) ?max [check] e (sw_db w) (sw_db w')"
    using honest_possible_effect by (fastforce split: option.splits sum.splits)
  then show ?thesis
  proof cases
    case decided
    let ?granted = "\<exists>a. Decision_view dec = DV_Allowed a"
    have "(if ?granted then cost_at pg_key k [check] else 0) + potential_of k L W t1 f (sw_db w') \<le> potential_of k L W t1 f (sw_db w)"
      by (rule outcome_pays [OF d(1) checks(1,2) decided(2)]) (auto dest!: single_decision_view split: pg_admission.splits)
    moreover have "check_admits pg_key k check r = (if ?granted then cost_at pg_key k [check] else 0)"
      by (simp add: check_admits_def decided(1) split: decision_view.split)
    ultimately show ?thesis using pg_outcome_ok [OF d(1) decided(2)] by simp
  next
    case failed
    then show ?thesis using possible_effect_pays [OF d(1) checks(1,2) failed(2)] possible_effect_ok [OF d(1) failed(2)]
      by (simp add: check_admits_def)
  qed
qed

lemma batch_pays:
  assumes d: "tables_ok (sw_db w)" "clock_in (between f t1) w" "postgres_config_ok config" "interval_exact to_interval"
    and c: "list_all (window_check_ok k L W) checks" "length checks < 2 ^ 63"
    and run: "check_all_unobserved sha256 to_interval sql_server config checks w = (w', r)"
  shows "window_paid k L W t1 f (batch_admits pg_key k checks r) (sw_db w) (sw_db w')"
proof -
  let ?max = "pg_maximum_rows_per_shard config" and ?build = "batch_decision_of (length checks)"
  have checks: "list_all pg_check_ok checks" using c(1) by (auto simp: list_all_iff window_check_ok_def)
  have keys: "distinct (map pg_key checks)" if "batch_ok FixedWindowPolicy (pg_max_batch_size config) checks"
    using that pg_key_distinct by (auto simp: batch_ok_def)
  from check_all_outcome [OF d checks c(2), of sha256] run
  consider (decided) dec where "r = Some (Ok dec)" "pg_outcome (between f t1) ?max checks ?build (sw_db w) dec (sw_db w')"
    | (invalid) e where "r = Some (Err (PgInvalidBatch e))" "w' = w"
    | (failed) e where "r = Some (Err (PgCheck e))" "pg_possible_effect (between f t1) ?max checks e (sw_db w) (sw_db w')"
    by (auto split: option.splits sum.splits batch_check_error.splits)
  note cases = this
  have valid: "batch_ok FixedWindowPolicy (pg_max_batch_size config) checks" if "\<And>e. r \<noteq> Some (Err (PgInvalidBatch e))"
    using run that validate_batch_Ok [of FixedWindowPolicy checks "pg_max_batch_size config"]
    by (auto simp: check_all_unobserved_def split: sum.splits)
  from cases show ?thesis
  proof cases
    case decided
    let ?granted = "\<exists>a. BatchDecision_view dec = BV_Allowed a"
    have "(if ?granted then cost_at pg_key k checks else 0) + potential_of k L W t1 f (sw_db w') \<le> potential_of k L W t1 f (sw_db w)"
      by (rule outcome_pays [OF d(1) c(1) keys decided(2)], use valid decided(1) in simp)
        (auto simp: admission_view_def dest!: batch_decision_of_view split: pg_admission.splits)
    moreover have "batch_admits pg_key k checks r = (if ?granted then cost_at pg_key k checks else 0)"
      by (simp add: batch_admits_def decided(1) split: batch_decision_view.split)
    ultimately show ?thesis using pg_outcome_ok [OF d(1) decided(2)] by simp
  next
    case failed
    then show ?thesis using possible_effect_pays [OF d(1) c(1) keys failed(2)] possible_effect_ok [OF d(1) failed(2)] valid
      by (simp add: batch_admits_def)
  qed (use d(1) in \<open>simp add: batch_admits_def\<close>)
qed

lemma cleanup_pays:
  assumes d: "tables_ok (sw_db w)" and T: "clock_in (between f f') w" and f: "0 < W" "f' \<le> t1"
    and run: "cleanup_expired_unobserved sql_server config m w = (w', r)"
  shows "tables_ok (sw_db w') \<and> potential_of k L W t1 f' (sw_db w') \<le> potential_of k L W t1 f (sw_db w)"
proof -
  have le: "f \<le> f'" using clock_in_reading [OF T] by (auto simp: between_def)
  from cleanup_outcome [OF d T, of m config] run
  consider "sw_db w' = sw_db w" | now where "between f f' now" "pg_cleaned now (sw_db w) (sw_db w')"
    by (auto simp: pg_swept_def split: option.splits sum.splits)
  then show ?thesis
  proof cases
    case 1
    then show ?thesis using d potential_floor [OF f(1) le f(2)] by simp
  next
    case 2
    from 2(2) consider "window_at (sw_db w') k = window_at (sw_db w) k"
      | row where "window_at (sw_db w') k = None" "window_at (sw_db w) k = Some row" "wr_expires_at row \<le> now"
      unfolding pg_cleaned_def by blast
    then have "potential_of k L W t1 f' (sw_db w') \<le> potential_of k L W t1 f (sw_db w)"
    proof cases
      case 1
      then show ?thesis using potential_floor [OF f(1) le f(2)] by simp
    next
      case (2 row)
      then show ?thesis using potential_removed [OF f(1) le f(2), of row L] \<open>between f f' now\<close> by (simp add: between_def)
    qed
    then show ?thesis using 2(2) by (simp add: pg_cleaned_def)
  qed
qed

lemma history_pays:
  assumes "pg_history k L W t1 t0 w0 n f w" "tables_ok (sw_db w0)" "0 < W"
  shows "tables_ok (sw_db w) \<and> n + potential_of k L W t1 f (sw_db w) \<le> potential_of k L W t1 t0 (sw_db w0)"
  using assms
proof induction
  case (history_check n f w config to_interval check sha256 w' r)
  then show ?case using check_pays [OF _ history_check(2-6)] by fastforce
next
  case (history_batch n f w config to_interval checks sha256 w' r)
  then show ?case using batch_pays [OF _ history_batch(2-7)] by fastforce
next
  case (history_cleanup n f w f' config m w' r)
  then show ?case using cleanup_pays [OF _ history_cleanup(2) _ history_cleanup(3,4), where k = k and L = L] by fastforce
qed simp_all

lemma potential_of_bound:
  assumes "0 < W"
  shows "potential_of k L W t1 t0 d \<le> (case window_at d k of
        Some row \<Rightarrow> if t0 < wr_expires_at row then L - nat (wr_used row) else 0
      | None \<Rightarrow> 0) + L * (1 + nat ((t1 - t0) div W))"
proof -
  have "L * Suc (windows W t1 e) \<le> L * Suc (windows W t1 t0)" if "t0 < e" for e using windows_mono [OF assms, of t0 e t1] that by simp
  then show ?thesis
    by (auto simp: window_potential_def windows_def [symmetric] simp del: mult_Suc_right split: option.split)
qed

section \<open>Properties\<close>

text \<open>
  C6: the durable fixed-window limiter enforces its limit over every history. Whatever checks, batches and
  cleanups any replicas run, with any configurations and any lost statements and replies, and however
  the database clock moves between \<open>t0\<close> and \<open>t1\<close> (it must only not show a time before a past cleanup),
  the cost reported as admitted for one counter is at most its limit for each window length begun
  since \<open>t0\<close>, plus what was left in the window that was open at \<open>t0\<close>.
\<close>

theorem postgres_window_bound:
  assumes "pg_history k L W t1 t0 w0 n f w" "tables_ok (sw_db w0)" "0 < W"
  shows "n \<le> (case window_at (sw_db w0) k of
        Some row \<Rightarrow> if t0 < wr_expires_at row then L - nat (wr_used row) else 0
      | None \<Rightarrow> 0) + L * (1 + nat ((t1 - t0) div W))"
  using history_pays [OF assms] potential_of_bound [OF assms(3), of L t1 t0 k "sw_db w0"] by linarith

theorem postgres_window_bound_witness:
  "let (w', r) = run_checks id micros_of sql_server PostgresConfig_new [pg_sample_check 3] single_decision sample_world in
   check_admits pg_key (pg_key (pg_sample_check 3)) (pg_sample_check 3) r \<le> 8 * (1 + nat (1000 div window_micros (pg_sample_check 3)))"
proof -
  let ?c = "pg_sample_check 3" and ?k = "pg_key (pg_sample_check 3)" and ?W = "window_micros (pg_sample_check 3)"
  obtain w' r where run: "run_checks id micros_of sql_server PostgresConfig_new [?c] single_decision sample_world = (w', r)" by fastforce
  have ok: "pg_check_ok ?c" by (simp add: pg_sample_check_ok)
  have c: "window_check_ok ?k 8 ?W ?c" using ok by (simp add: window_check_ok_def) (simp add: pg_sample_check_def sample_fwp_def)
  have "clock_in (between 1000000 1001000) sample_world" by (simp add: sample_world_def clock_in_def between_def numeral_eq_Suc)
  from history_check [OF history_start this default_config_ok micros_of_exact c run]
  have "pg_history ?k 8 ?W 1001000 1000000 sample_world (0 + check_admits pg_key ?k ?c r) 1000000 w'" .
  from postgres_window_bound [OF this sample_world_ok pg_check_bounds(4) [OF ok]] run show ?thesis
    by (simp add: sample_world_def migrated_tables_def)
qed

end
