(* ===== verification/Postgres_Gcra.thy ===== *)
theory Postgres_Gcra
  imports Postgres_Maintenance Gcra
begin

text \<open>
  \<open>runlimit-postgres/src/gcra.rs\<close>: the durable GCRA limiter. Its client locks the ledger rows of the
  batch's shards, samples the database clock, clamps it to the latest time those shards have seen,
  evaluates every check with the core arithmetic and writes all counters or none. The statements of
  the server are parameters, and rows are untrusted.
\<close>

section \<open>Rows and the server\<close>

record gcra_shard_row =
  sr_capacity_shard :: "int decoded"
  sr_row_count :: "int decoded"
  sr_observed_at_ms :: "int decoded"

record gcra_counter_row =
  gr_input_index :: "int decoded"
  gr_tat_scaled :: "rstr option decoded"
  gr_expires_at_ms :: "int option decoded"

record 'w gcra_server =
  gv_session :: "'w pg_server"
  gv_lock_shards :: "nat list \<Rightarrow> 'w \<Rightarrow> 'w \<times> gcra_shard_row list answer"
  gv_sample_time :: "'w \<Rightarrow> 'w \<times> int decoded answer"
  gv_read_counters :: "u8 list list \<Rightarrow> u8 list list \<Rightarrow> 'w \<Rightarrow> 'w \<times> gcra_counter_row list answer"
  gv_upsert :: "u8 list list \<Rightarrow> u8 list list \<Rightarrow> rstr list \<Rightarrow> int list \<Rightarrow> 'w \<Rightarrow> 'w \<times> nat answer"
  gv_advance :: "nat list \<Rightarrow> int \<Rightarrow> 'w \<Rightarrow> 'w \<times> unit answer"
  gv_cleanup_locks :: "'w \<Rightarrow> 'w \<times> nat decoded list answer"
  gv_cleanup_advance :: "nat list \<Rightarrow> 'w \<Rightarrow> 'w \<times> unit answer"
  gv_cleanup_delete :: "nat list \<Rightarrow> nat \<Rightarrow> 'w \<Rightarrow> 'w \<times> nat answer"

section \<open>Evaluation\<close>

definition gcra_field :: "'a decoded \<Rightarrow> (pg_check_error, 'a) result" where
  "gcra_field column = map_err (storage_decode_invariant ''invalid GCRA database response'') column"

text \<open>The loop over the locked ledger rows: the counts by shard, and the clamped time.\<close>

fun gcra_ledger_loop :: "gcra_shard_row list \<Rightarrow> nat list \<Rightarrow> int list \<Rightarrow> int \<Rightarrow> (pg_check_error, int list \<times> int) result" where
  "gcra_ledger_loop (row # rows) (expected # shards) counts now =
     and_then (gcra_field (sr_capacity_shard row)) (\<lambda>shard.
     and_then (gcra_field (sr_row_count row)) (\<lambda>count.
     and_then (gcra_field (sr_observed_at_ms row)) (\<lambda>observed.
     if shard \<noteq> int expected \<or> \<not> (0 \<le> count \<and> count \<le> int HARD_MAX_ROWS_PER_SHARD) \<or> observed < 0
     then Err (storage_invariant ''invalid GCRA capacity ledger'')
     else gcra_ledger_loop rows shards (counts[nat shard := count]) (max now observed))))"
| "gcra_ledger_loop _ _ counts now = Ok (counts, now)"

definition gcra_decode_stored :: "rstr option \<Rightarrow> int option \<Rightarrow> (pg_check_error, (nat \<times> nat) option) result" where
  "gcra_decode_stored tat expires =
     (case (tat, expires) of
        (None, None) \<Rightarrow> Ok None
      | (Some tat, Some expires) \<Rightarrow>
          if expires \<ge> 0 then
            and_then (ok_or (storage_invariant ''invalid GCRA theoretical arrival time'') (parse_unsigned 128 tat)) (\<lambda>tat.
              Ok (Some (tat, nat expires)))
          else Err (storage_invariant ''inconsistent GCRA stored counter'')
      | _ \<Rightarrow> Err (storage_invariant ''inconsistent GCRA stored counter''))"

definition gcra_stored_agrees :: "gcra_policy check \<Rightarrow> (nat \<times> nat) option \<Rightarrow> bool" where
  "gcra_stored_agrees check stored =
     (case stored of
        None \<Rightarrow> True
      | Some (tat, expires) \<Rightarrow> div_ceil tat (capacity_get (gcp_quota (chk_policy check))) = expires)"

definition gcra_stored :: "gcra_policy check \<Rightarrow> gcra_counter_row \<Rightarrow> (pg_check_error, (nat \<times> nat) option) result" where
  "gcra_stored check row =
     and_then (gcra_field (gr_tat_scaled row)) (\<lambda>tat.
     and_then (gcra_field (gr_expires_at_ms row)) (\<lambda>expires.
     and_then (gcra_decode_stored tat expires) (\<lambda>stored.
     if gcra_stored_agrees check stored then Ok stored
     else Err (storage_invariant ''GCRA expiry disagrees with theoretical arrival time''))))"

datatype gcra_pending = GP_Allowed "pending_allowance list" | GP_Denied pg_admission

definition get_or_insert :: "'a option \<Rightarrow> 'a \<Rightarrow> 'a option" where
  "get_or_insert x y = (case x of None \<Rightarrow> Some y | Some z \<Rightarrow> Some z)"

definition active_stored_tat :: "nat \<Rightarrow> (nat \<times> nat) option \<Rightarrow> nat option" where
  "active_stored_tat now stored =
     (case stored of None \<Rightarrow> None | Some (tat, expires) \<Rightarrow> if expires > now then Some tat else None)"

definition gcra_evaluate_check ::
    "nat \<Rightarrow> nat \<Rightarrow> gcra_policy check \<Rightarrow> gcra_counter_row \<Rightarrow> (pg_check_error, (nat \<times> nat) option \<times> evaluation) result" where
  "gcra_evaluate_check now index check row =
     and_then (gcra_field (gr_input_index row)) (\<lambda>returned_index.
     if returned_index \<noteq> int index then Err (storage_invariant ''GCRA preflight changed input order'')
     else
     and_then (gcra_stored check row) (\<lambda>stored.
     and_then (map_err (\<lambda>_. storage_invariant ''GCRA arithmetic exceeded exact range'')
       (evaluate check now (active_stored_tat now stored))) (\<lambda>evaluated.
     Ok (stored, evaluated))))"

fun gcra_evaluate_loop ::
    "nat \<Rightarrow> nat \<Rightarrow> nat \<Rightarrow> gcra_policy check list \<Rightarrow> gcra_counter_row list \<Rightarrow> int list \<Rightarrow> pg_admission option \<Rightarrow>
     pending_allowance list \<Rightarrow> (pg_check_error, gcra_pending) result" where
  "gcra_evaluate_loop maximum now index (check # checks) (row # rows) counts denial pending =
     and_then (gcra_evaluate_check now index check row) (\<lambda>(stored, evaluated).
     case evaluated of
       Ev_Denied quota \<Rightarrow>
         gcra_evaluate_loop maximum now (Suc index) checks rows counts
           (get_or_insert denial
             (if gcp_quota_mode (chk_policy check) = Shadow then PA_ShadowDenied index quota
              else PA_Denied index (QuotaExceeded quota))) pending
     | Ev_Allowed allowance \<Rightarrow>
         if stored = None then
           let shard = capacity_shard (chk_counter_key GcraPolicy check) in
           gcra_evaluate_loop maximum now (Suc index) checks rows (counts[shard := counts ! shard + 1])
             (if counts ! shard \<ge> int maximum then get_or_insert denial (PA_Denied index (StorageCapacity None)) else denial)
             (pending @ [allowance])
         else gcra_evaluate_loop maximum now (Suc index) checks rows counts denial (pending @ [allowance]))"
| "gcra_evaluate_loop maximum now index _ _ counts denial pending =
     Ok (case denial of Some d \<Rightarrow> GP_Denied d | None \<Rightarrow> GP_Allowed pending)"

definition gcra_evaluate_rows where
  "gcra_evaluate_rows checks rows counts maximum now =
     (if length rows \<noteq> length checks then Err (storage_invariant ''GCRA preflight count disagrees with the batch'')
      else gcra_evaluate_loop maximum now 0 checks rows counts None [])"

section \<open>The transaction\<close>

definition gcra_shards :: "gcra_policy check list \<Rightarrow> nat list" where
  "gcra_shards checks = remdups_adj (sort (map (\<lambda>c. capacity_shard (chk_counter_key GcraPolicy c)) checks))"

definition gcra_fingerprints :: "gcra_policy check list \<Rightarrow> u8 list list" where
  "gcra_fingerprints checks = map (\<lambda>c. fingerprint_bytes (ck_fingerprint (chk_counter_key GcraPolicy c))) checks"

definition gcra_subjects :: "gcra_policy check list \<Rightarrow> u8 list list" where
  "gcra_subjects checks = map (\<lambda>c. subject_bytes (chk_subject c)) checks"

definition gcra_tats :: "pending_allowance list \<Rightarrow> rstr list" where
  "gcra_tats allowances = map (\<lambda>a. decimal (pa_tat_scaled a)) allowances"

definition gcra_expiries :: "pending_allowance list \<Rightarrow> (pg_check_error, int list) result" where
  "gcra_expiries allowances =
     collect_results (map (\<lambda>a. ok_or (storage_invariant ''GCRA expiry exceeds database range'')
       (database_integer (pa_expires_at_millis a))) allowances)"

text \<open>From the locked rows and the sampled time to the time of the batch.\<close>

definition gcra_clock :: "nat list \<Rightarrow> gcra_shard_row list \<Rightarrow> int decoded \<Rightarrow> (pg_check_error, int list \<times> int) result" where
  "gcra_clock shards locked sample =
     and_then (gcra_field sample) (\<lambda>now.
     and_then (gcra_ledger_loop locked shards (replicate CAPACITY_SHARD_COUNT 0) now) (\<lambda>(counts, now).
     if now < 0 then Err (storage_invariant ''negative GCRA database time'') else Ok (counts, now)))"

definition gcra_run_transaction ::
    "'w gcra_server \<Rightarrow> gcra_policy check list \<Rightarrow> postgres_config \<Rightarrow> instant \<Rightarrow>
     (pg_admission \<Rightarrow> (pg_check_error, 'd) result) \<Rightarrow> ('w, failure, 'd connection_outcome) step" where
  "gcra_run_transaction gv checks config deadline build =
     (let sv = gv_session gv; shards = gcra_shards checks;
          fingerprints = gcra_fingerprints checks; subjects = gcra_subjects checks
      in
      and_await (check_before_commit BeginningTransaction (sv_begin sv)) (\<lambda>_.
      and_await (tx_execute sv deadline AcquiringCapacityShardLocks (gv_lock_shards gv shards)) (\<lambda>locked.
      if length locked \<noteq> length shards
      then ready_result (Err (reusable_check_error (storage_invariant ''GCRA capacity ledger is missing a shard'')))
      else
      and_await (tx_execute sv deadline PreflightingCounters (gv_sample_time gv)) (\<lambda>sample.
      and_await (ready_result (map_err reusable_check_error (gcra_clock shards locked sample))) (\<lambda>(counts, now).
      and_await (tx_execute sv deadline PreflightingCounters (gv_read_counters gv fingerprints subjects)) (\<lambda>rows.
      and_await (ready_result (map_err reusable_check_error
        (gcra_evaluate_rows checks rows counts (pg_maximum_rows_per_shard config) (nat now)))) (\<lambda>pending.
      case pending of
        GP_Denied admission \<Rightarrow>
          and_await (ready_result (map_err Reusable (build admission))) (\<lambda>decision. finish_denied_transaction sv decision)
      | GP_Allowed allowances \<Rightarrow>
          and_await (ready_result (map_err reusable_check_error (gcra_expiries allowances))) (\<lambda>expiries.
          and_await (ready_result (map_err Reusable (build (PA_Allowed (map pa_allowance allowances))))) (\<lambda>decision.
          and_await (tx_execute sv deadline UpdatingCounters
            (gv_upsert gv fingerprints subjects (gcra_tats allowances) expiries)) (\<lambda>updated.
          if updated \<noteq> length checks
          then ready_result (Err (reusable_check_error (storage_invariant ''GCRA upsert count disagrees with the batch'')))
          else
          and_await (tx_execute sv deadline UpdatingCounters (gv_advance gv shards now)) (\<lambda>_.
          and_await (tx_commit sv deadline) (\<lambda>_.
          ready_result (Ok (Reusable decision))))))))))))))"

definition gcra_run where
  "gcra_run gv config checks build =
     run_guarded (gv_session gv) config (\<lambda>deadline. gcra_run_transaction gv checks config deadline build)"

definition pg_gcra_check where
  "pg_gcra_check observer ost gv config elapsed check w =
     (case gcra_run gv config [check] single_decision w of
        (w, None) \<Rightarrow> (ost, w, None)
      | (w, Some (Ok decision)) \<Rightarrow>
          (notify observer [Obs_Admission (from_check GcraPolicy check decision elapsed)] ost, w, Some (Ok decision))
      | (w, Some (Err error)) \<Rightarrow>
          (notify observer [Obs_Admission (failed_check GcraPolicy check (CheckError_consumption error) elapsed)] ost,
           w, Some (Err error)))"

definition gcra_check_all_result where
  "gcra_check_all_result gv config checks w =
     (case validate_batch GcraPolicy checks (pg_max_batch_size config) of
        Err e \<Rightarrow> (w, Some (Err (PgInvalidBatch e)))
      | Ok _ \<Rightarrow>
          (case gcra_run gv config checks (batch_decision_of (length checks)) w of
             (w, None) \<Rightarrow> (w, None)
           | (w, Some (Ok decision)) \<Rightarrow> (w, Some (Ok decision))
           | (w, Some (Err e)) \<Rightarrow> (w, Some (Err (PgCheck e)))))"

definition pg_gcra_check_all where
  "pg_gcra_check_all observer ost gv config elapsed checks w =
     (case gcra_check_all_result gv config checks w of
        (w, None) \<Rightarrow> (ost, w, None)
      | (w, Some (Ok decision)) \<Rightarrow>
          (notify observer [Obs_Admission (from_batch GcraPolicy checks decision elapsed)] ost, w, Some (Ok decision))
      | (w, Some (Err error)) \<Rightarrow>
          (notify observer [Obs_Admission (failed_batch GcraPolicy checks (BatchCheckError_consumption error) elapsed)] ost,
           w, Some (Err error)))"

section \<open>Cleanup\<close>

definition gcra_cleanup_transaction :: "'w gcra_server \<Rightarrow> nat \<Rightarrow> instant \<Rightarrow> ('w, cleanup_failure, nat) step" where
  "gcra_cleanup_transaction gv maximum deadline =
     (let sv = gv_session gv in
      and_await (maintenance_before_commit CleanupBeginningTransaction (sv_begin sv)) (\<lambda>_.
      and_await (set_maintenance_server_timeouts sv deadline CleanupConfiguringTimeouts) (\<lambda>_.
      and_await (maintenance_before_commit CleanupDeletingExpiredWindows (gv_cleanup_locks gv)) (\<lambda>rows.
      and_await (ready_result (map_err (\<lambda>error. Reusable (MaintenanceDatabase error)) (collect_results rows))) (\<lambda>shards.
      and_await (set_maintenance_server_timeouts sv deadline CleanupConfiguringTimeouts) (\<lambda>_.
      and_await (maintenance_before_commit CleanupDeletingExpiredWindows (gv_cleanup_advance gv shards)) (\<lambda>_.
      and_await (set_maintenance_server_timeouts sv deadline CleanupConfiguringTimeouts) (\<lambda>_.
      and_await (maintenance_before_commit CleanupDeletingExpiredWindows (gv_cleanup_delete gv shards maximum)) (\<lambda>deleted.
      and_await (commit_maintenance sv deadline) (\<lambda>_.
      ready_result (Ok deleted)))))))))))"

definition gcra_cleanup where
  "gcra_cleanup gv config maximum_rows =
     (if maximum_rows = 0 then ready_result (Ok 0)
      else maintenance_guarded (gv_session gv) config (gcra_cleanup_transaction gv maximum_rows))"

definition pg_gcra_cleanup_expired where
  "pg_gcra_cleanup_expired observer ost gv config elapsed maximum_rows w =
     (case gcra_cleanup gv config maximum_rows w of
        (w, None) \<Rightarrow> (ost, w, None)
      | (w, Some result) \<Rightarrow> (pg_observe_cleanup observer ost maximum_rows result elapsed, w, Some result))"

end
