(* ===== verification/Postgres_Gcra_Transaction.thy ===== *)
theory Postgres_Gcra_Transaction
  imports Postgres_Gcra
begin

text \<open>
  What the client of \<open>gcra.rs\<close> guarantees against any transactional server: the interface
  \<open>pg_gcra_database\<close> says what each of its statements reads and writes, and inside it every decision of
  \<open>run_transaction\<close> is durable and every error honest; likewise for cleanup.
\<close>

section \<open>What a batch amounts to\<close>

text \<open>The evaluation of a batch on the state \<open>d\<close> with the sampled time \<open>sample\<close>; a decision samples a time that \<open>time_ok\<close> allows.\<close>

definition gcra_pending_of where
  "gcra_pending_of lock read checks maximum sample d =
     (let shards = gcra_shards checks; locked = lock shards d in
      if length locked \<noteq> length shards then Err (storage_invariant ''GCRA capacity ledger is missing a shard'')
      else and_then (gcra_clock shards locked sample) (\<lambda>(counts, now).
        and_then (gcra_evaluate_rows checks (read (gcra_fingerprints checks) (gcra_subjects checks) d) counts maximum (nat now)) (\<lambda>pending.
        Ok (pending, now))))"

definition gcra_decided where
  "gcra_decided time_ok lock read ups adv checks maximum build d dec d' \<longleftrightarrow>
     (\<exists>sample pending now. (\<forall>t. sample = Ok t \<longrightarrow> time_ok t) \<and> gcra_pending_of lock read checks maximum sample d = Ok (pending, now) \<and>
        (case pending of
           GP_Denied admission \<Rightarrow> build admission = Ok dec \<and> d' = d
         | GP_Allowed allowances \<Rightarrow>
             \<exists>expiries d1. gcra_expiries allowances = Ok expiries \<and> build (PA_Allowed (map pa_allowance allowances)) = Ok dec \<and>
               ups (gcra_fingerprints checks) (gcra_subjects checks) (gcra_tats allowances) expiries d = Ok (d1, length checks) \<and>
               adv (gcra_shards checks) now d1 = Ok d'))"

lemma gcra_field_error [simp]: "gcra_field x = Inl e \<Longrightarrow> decode_error e"
  by (auto simp: gcra_field_def map_err_def storage_decode_invariant_def decode_error_def split: sum.splits)

lemma gcra_ledger_loop_error: "gcra_ledger_loop rows shards counts now = Inl e \<Longrightarrow> decode_error e"
  by (induction rows shards counts now rule: gcra_ledger_loop.induct) (auto simp: and_then_eq_Inl split: if_splits)

lemma gcra_clock_error: "gcra_clock shards locked sample = Inl e \<Longrightarrow> decode_error e"
  by (auto simp: gcra_clock_def and_then_eq_Inl gcra_ledger_loop_error split: if_splits prod.splits)

lemma gcra_decode_stored_error: "gcra_decode_stored tat expires = Inl e \<Longrightarrow> decode_error e"
  by (cases tat; cases expires) (auto simp: gcra_decode_stored_def and_then_eq_Inl split: if_splits)

lemma gcra_stored_error: "gcra_stored check row = Inl e \<Longrightarrow> decode_error e"
  by (auto simp: gcra_stored_def and_then_eq_Inl gcra_decode_stored_error split: if_splits)

lemma gcra_evaluate_check_error: "gcra_evaluate_check now i check row = Inl e \<Longrightarrow> decode_error e"
  by (auto simp: gcra_evaluate_check_def and_then_eq_Inl gcra_stored_error map_err_eq_Inl split: if_splits)

lemma gcra_evaluate_loop_error:
  "gcra_evaluate_loop maximum now i checks rows counts denial pending = Inl e \<Longrightarrow> decode_error e"
proof (induction checks arbitrary: i rows counts denial pending)
  case (Cons check checks)
  note IH = Cons.IH and prems = Cons.prems
  show ?case
  proof (cases rows)
    case (Cons row rest)
    show ?thesis
    proof (cases "gcra_evaluate_check now i check row")
      case (Inl x)
      then show ?thesis using prems Cons gcra_evaluate_check_error by auto
    next
      case (Inr x)
      then show ?thesis using IH prems Cons by (cases x; cases "snd x") (auto simp: Let_def split: if_splits)
    qed
  qed (use prems in simp)
qed simp

lemma gcra_evaluate_rows_error: "gcra_evaluate_rows checks rows counts maximum now = Inl e \<Longrightarrow> decode_error e"
  by (auto simp: gcra_evaluate_rows_def gcra_evaluate_loop_error split: if_splits)

lemma gcra_expiries_error: "gcra_expiries as = Inl e \<Longrightarrow> decode_error e"
  unfolding gcra_expiries_def by (induction as) (auto simp: and_then_eq_Inl)

section \<open>The interface of the statements\<close>

locale pg_gcra_database = pg_session "gv_session gv" db tx good
  for gv :: "'w gcra_server" and db :: "'w \<Rightarrow> 'd" and tx :: "'w \<Rightarrow> 'd" and good :: "'w \<Rightarrow> bool" +
  fixes time_ok :: "int \<Rightarrow> bool"
    and lock :: "nat list \<Rightarrow> 'd \<Rightarrow> gcra_shard_row list"
    and read :: "u8 list list \<Rightarrow> u8 list list \<Rightarrow> 'd \<Rightarrow> gcra_counter_row list"
    and ups :: "u8 list list \<Rightarrow> u8 list list \<Rightarrow> rstr list \<Rightarrow> int list \<Rightarrow> 'd \<Rightarrow> (sqlx_error, 'd \<times> nat) result"
    and adv :: "nat list \<Rightarrow> int \<Rightarrow> 'd \<Rightarrow> (sqlx_error, 'd) result"
  assumes lock_shards: "gv_lock_shards gv shards w = (w', a) \<Longrightarrow> good w \<Longrightarrow> db w' = db w \<and>
      (\<forall>rows. a = Answered rows \<longrightarrow> good w' \<and> tx w' = tx w \<and> rows = lock shards (tx w))"
    and sample_time: "gv_sample_time gv w = (w', b) \<Longrightarrow> good w \<Longrightarrow> db w' = db w \<and> 
      (\<forall>x. b = Answered x \<longrightarrow> good w' \<and> tx w' = tx w \<and> (\<forall>t. x = Ok t \<longrightarrow> time_ok t))"
    and read_counters: "gv_read_counters gv fps subs w = (w', c) \<Longrightarrow> good w \<Longrightarrow> db w' = db w \<and>
      (\<forall>rows. c = Answered rows \<longrightarrow> good w' \<and> tx w' = tx w \<and> rows = read fps subs (tx w))"
    and upsert: "gv_upsert gv fps subs tats exps w = (w', e) \<Longrightarrow> good w \<Longrightarrow> db w' = db w \<and>
      (\<forall>n. e = Answered n \<longrightarrow> good w' \<and> ups fps subs tats exps (tx w) = Ok (tx w', n))"
    and advance: "gv_advance gv shards t w = (w', u) \<Longrightarrow> good w \<Longrightarrow> db w' = db w \<and> (u = Answered () \<longrightarrow> good w' \<and> adv shards t (tx w) = Ok (tx w'))"
begin

abbreviation decides where "decides checks maximum build d \<equiv> gcra_decided time_ok lock read ups adv checks maximum build d"

lemma statement_triple:
  assumes "\<And>w w' a. within d d' w \<Longrightarrow> query w = (w', a) \<Longrightarrow> db w' = d \<and> (\<forall>x. a = Answered x \<longrightarrow> Q x w')"
  shows "triple (within d d') (tx_execute (gv_session gv) deadline phase query) Q (\<lambda>f w. honest R d (outcome_value f) (db w))"
  by (rule unharmed_honest, rule tx_execute_triple) (use assms in blast)

lemma decoded_triple:
  assumes "\<And>e. r = Inl e \<Longrightarrow> CheckError_consumption e = NotConsumed"
  shows "triple (within d d') (ready_result (map_err reusable_check_error r)) (\<lambda>x w. within d d' w \<and> r = Ok x)
     (\<lambda>f w. honest R d (outcome_value f) (db w))"
  by (rule triple_ready) (use assms in \<open>auto simp: map_err_def reusable_check_error_def not_consumed_honest split: sum.splits\<close>)

lemma reusable_eq: "reusable_check_error = Reusable"
  by (rule ext) (simp add: reusable_check_error_def)

text \<open>The writes of an allowed batch, from the upsert to the commit.\<close>

lemma gcra_write_triple:
  assumes R: "\<And>d1 d'. ups fps subs tats exps d = Ok (d1, n) \<Longrightarrow> adv shards now d1 = Ok d' \<Longrightarrow> R dec d'"
  shows "triple (within d d)
     (and_await (tx_execute (gv_session gv) deadline UpdatingCounters (gv_upsert gv fps subs tats exps)) (\<lambda>updated.
      if updated \<noteq> n
      then ready_result (Err (reusable_check_error (storage_invariant ''GCRA upsert count disagrees with the batch'')))
      else and_await (tx_execute (gv_session gv) deadline UpdatingCounters (gv_advance gv shards now)) (\<lambda>_.
        and_await (tx_commit (gv_session gv) deadline) (\<lambda>_. ready_result (Ok (Reusable dec))))))
     (\<lambda>c w. R (outcome_value c) (db w)) (\<lambda>f w. honest R d (outcome_value f) (db w))" (is "triple _ _ ?Q ?E")
proof (rule triple_and_await)
  show "triple (within d d) (tx_execute (gv_session gv) deadline UpdatingCounters (gv_upsert gv fps subs tats exps))
      (\<lambda>m w. \<exists>d1. within d d1 w \<and> ups fps subs tats exps d = Ok (d1, m)) ?E"
    by (rule statement_triple) (use upsert in fastforce)
  fix m
  show "triple (\<lambda>w. \<exists>d1. within d d1 w \<and> ups fps subs tats exps d = Ok (d1, m))
     (if m \<noteq> n
      then ready_result (Err (reusable_check_error (storage_invariant ''GCRA upsert count disagrees with the batch'')))
      else and_await (tx_execute (gv_session gv) deadline UpdatingCounters (gv_advance gv shards now)) (\<lambda>_.
        and_await (tx_commit (gv_session gv) deadline) (\<lambda>_. ready_result (Ok (Reusable dec))))) ?Q ?E"
  proof (intro triple_pre_ex triple_pre_conj)
    fix d1 assume u: "ups fps subs tats exps d = Ok (d1, m)"
    have adv: "triple (within d d1) (tx_execute (gv_session gv) deadline UpdatingCounters (gv_advance gv shards now))
        (\<lambda>_ w. \<exists>d'. within d d' w \<and> adv shards now d1 = Ok d') ?E"
      by (rule statement_triple) (use advance in fastforce)
    have "triple (within d d1) (and_await (tx_execute (gv_session gv) deadline UpdatingCounters (gv_advance gv shards now)) (\<lambda>_.
        and_await (tx_commit (gv_session gv) deadline) (\<lambda>_. ready_result (Ok (Reusable dec))))) ?Q ?E" if "m = n"
      using R u that by (intro triple_and_await [OF adv] triple_pre_ex triple_pre_conj commit_decision_triple) blast
    moreover have "triple (within d d1)
        (ready_result (Err (reusable_check_error (storage_invariant ''GCRA upsert count disagrees with the batch'')))) ?Q ?E"
      by (rule triple_ready) (auto simp: reusable_check_error_def not_consumed_honest decode_error_not_consumed)
    ultimately show "triple (within d d1) (if m \<noteq> n
      then ready_result (Err (reusable_check_error (storage_invariant ''GCRA upsert count disagrees with the batch'')))
      else and_await (tx_execute (gv_session gv) deadline UpdatingCounters (gv_advance gv shards now)) (\<lambda>_.
        and_await (tx_commit (gv_session gv) deadline) (\<lambda>_. ready_result (Ok (Reusable dec))))) ?Q ?E" by simp
  qed
qed

lemma gcra_finish_triple:
  assumes build: "\<And>adm e. build adm = Inl e \<Longrightarrow> CheckError_consumption e = NotConsumed"
    and sampled: "\<forall>t. sample = Ok t \<longrightarrow> time_ok t"
    and pending: "gcra_pending_of lock read checks maximum sample d = Ok (pending, now)"
  shows "triple (within d d)
     (case pending of
        GP_Denied admission \<Rightarrow>
          and_await (ready_result (map_err Reusable (build admission))) (\<lambda>decision. finish_denied_transaction (gv_session gv) decision)
      | GP_Allowed allowances \<Rightarrow>
          and_await (ready_result (map_err reusable_check_error (gcra_expiries allowances))) (\<lambda>expiries.
          and_await (ready_result (map_err Reusable (build (PA_Allowed (map pa_allowance allowances))))) (\<lambda>decision.
          and_await (tx_execute (gv_session gv) deadline UpdatingCounters
            (gv_upsert gv (gcra_fingerprints checks) (gcra_subjects checks) (gcra_tats allowances) expiries)) (\<lambda>updated.
          if updated \<noteq> length checks
          then ready_result (Err (reusable_check_error (storage_invariant ''GCRA upsert count disagrees with the batch'')))
          else
          and_await (tx_execute (gv_session gv) deadline UpdatingCounters (gv_advance gv (gcra_shards checks) now)) (\<lambda>_.
          and_await (tx_commit (gv_session gv) deadline) (\<lambda>_.
          ready_result (Ok (Reusable decision))))))))
     (\<lambda>c w. decides checks maximum build d (outcome_value c) (db w))
     (\<lambda>f w. honest (decides checks maximum build d) d (outcome_value f) (db w))"
proof (cases pending)
  case (GP_Denied admission)
  have "decides checks maximum build d dec d" if "build admission = Ok dec" for dec
    using sampled pending GP_Denied that unfolding gcra_decided_def
    by (intro exI [of _ sample] exI [of _ pending] exI [of _ now]) simp
  then show ?thesis unfolding GP_Denied gcra_pending.case reusable_eq [symmetric]
    by (intro triple_and_await [OF decoded_triple] triple_pre_conj deny_decision_triple) (auto intro: build)
next
  case (GP_Allowed allowances)
  have "decides checks maximum build d dec d'"
    if "gcra_expiries allowances = Ok expiries" "build (PA_Allowed (map pa_allowance allowances)) = Ok dec"
      "ups (gcra_fingerprints checks) (gcra_subjects checks) (gcra_tats allowances) expiries d = Ok (d1, length checks)"
      "adv (gcra_shards checks) now d1 = Ok d'" for expiries dec d1 d'
    using sampled pending GP_Allowed that unfolding gcra_decided_def
    by (intro exI [of _ sample] exI [of _ pending] exI [of _ now]) auto
  then show ?thesis unfolding GP_Allowed gcra_pending.case reusable_eq [symmetric]
    by (intro triple_and_await [OF decoded_triple] triple_pre_conj gcra_write_triple)
      (auto intro: build decode_error_not_consumed gcra_expiries_error)
qed

lemma gcra_transaction_triple:
  assumes build: "\<And>adm e. build adm = Inl e \<Longrightarrow> CheckError_consumption e = NotConsumed"
  shows "triple (idle d) (gcra_run_transaction gv checks config deadline build)
     (\<lambda>c w. decides checks (pg_maximum_rows_per_shard config) build d (outcome_value c) (db w))
     (\<lambda>f w. honest (decides checks (pg_maximum_rows_per_shard config) build d) d (outcome_value f) (db w))"
  (is "triple _ _ ?Q ?E")
proof -
  let ?shards = "gcra_shards checks" and ?fps = "gcra_fingerprints checks" and ?subs = "gcra_subjects checks"
  have lock: "triple (within d d) (tx_execute (gv_session gv) deadline AcquiringCapacityShardLocks (gv_lock_shards gv ?shards))
      (\<lambda>rows w. within d d w \<and> rows = lock ?shards d) ?E"
    by (rule statement_triple) (use lock_shards in fastforce)
  have sample: "triple (within d d) (tx_execute (gv_session gv) deadline PreflightingCounters (gv_sample_time gv))
      (\<lambda>x w. within d d w \<and> (\<forall>t. x = Ok t \<longrightarrow> time_ok t)) ?E"
    by (rule statement_triple) (use sample_time in fastforce)
  have read: "triple (within d d) (tx_execute (gv_session gv) deadline PreflightingCounters (gv_read_counters gv ?fps ?subs))
      (\<lambda>rows w. within d d w \<and> rows = read ?fps ?subs d) ?E"
    by (rule statement_triple) (use read_counters in fastforce)
  have missing: "triple P (ready_result (Err (reusable_check_error (storage_invariant ''GCRA capacity ledger is missing a shard'')))) Q ?E"
    if "\<And>w. P w \<Longrightarrow> db w = d" for P and Q :: "'c \<Rightarrow> 'w \<Rightarrow> bool"
    by (rule triple_ready) (auto simp: reusable_check_error_def not_consumed_honest decode_error_not_consumed dest: that)
  show ?thesis unfolding gcra_run_transaction_def Let_def
  proof (rule triple_and_await [OF unharmed_honest [OF begin_triple]], rule triple_and_await [OF lock], rule triple_pre_conj,
      goal_cases)
    case (1 _ locked)
    show ?case
    proof (cases "length locked = length ?shards")
      case True
      have clock: "triple (within d d) (ready_result (map_err reusable_check_error (gcra_clock ?shards locked sample)))
          (\<lambda>x w. within d d w \<and> gcra_clock ?shards locked sample = Ok x) ?E" for sample
        by (rule decoded_triple) (auto intro: decode_error_not_consumed gcra_clock_error)
      have evaluated: "triple (within d d) (ready_result (map_err reusable_check_error (gcra_evaluate_rows checks rows counts m n)))
          (\<lambda>x w. within d d w \<and> gcra_evaluate_rows checks rows counts m n = Ok x) ?E" for rows counts m n
        by (rule decoded_triple) (auto intro: decode_error_not_consumed gcra_evaluate_rows_error)
      have finish: "gcra_pending_of lock read checks (pg_maximum_rows_per_shard config) sample d = Ok (pending, now)"
        if "gcra_clock ?shards locked sample = Ok (counts, now)"
          "gcra_evaluate_rows checks (read ?fps ?subs d) counts (pg_maximum_rows_per_shard config) (nat now) = Ok pending"
        for sample counts now pending
        using 1 True that by (simp add: gcra_pending_of_def Let_def)
      show ?thesis unfolding True simp_thms if_False split_def
        apply (rule triple_and_await [OF sample], rule triple_pre_conj, rule triple_and_await [OF clock], rule triple_pre_conj,
            rule triple_and_await [OF read], rule triple_pre_conj, rule triple_and_await [OF evaluated], rule triple_pre_conj)
        apply (rule gcra_finish_triple [OF build])
          apply assumption
         apply assumption
        apply (rule finish)
        by (auto)
    next
      case False
      then show ?thesis using missing [of "within d d"] by simp
    qed
  qed
qed

lemma gcra_run_triple:
  assumes "\<And>adm e. build adm = Inl e \<Longrightarrow> CheckError_consumption e = NotConsumed"
  shows "triple (idle d) (gcra_run gv config checks build)
     (\<lambda>dec w. decides checks (pg_maximum_rows_per_shard config) build d dec (db w))
     (\<lambda>e w. honest (decides checks (pg_maximum_rows_per_shard config) build d) d e (db w))"
  unfolding gcra_run_def by (rule run_guarded_triple, rule gcra_transaction_triple) (fact assms)

end

section \<open>The interface of cleanup\<close>

text \<open>\<open>locks\<close> finds the shards with expired counters, at a sampled time and with the locks that others hold then;
  \<open>fwd\<close> advances their clocks to another sampled time; \<open>del\<close> deletes expired counters.\<close>

locale pg_gcra_maintained = pg_session "gv_session gv" db tx good
  for gv :: "'w gcra_server" and db :: "'w \<Rightarrow> 'd" and tx :: "'w \<Rightarrow> 'd" and good :: "'w \<Rightarrow> bool" +
  fixes lock_ok :: "'l \<Rightarrow> bool" and time_ok :: "int \<Rightarrow> bool"
    and locks :: "'l \<Rightarrow> 'd \<Rightarrow> nat list"
    and fwd :: "int \<Rightarrow> nat list \<Rightarrow> 'd \<Rightarrow> (sqlx_error, 'd) result"
    and del :: "nat list \<Rightarrow> nat \<Rightarrow> 'd \<Rightarrow> (sqlx_error, 'd \<times> nat) result"
  assumes cleanup_locks: "gv_cleanup_locks gv w = (w', a) \<Longrightarrow> good w \<Longrightarrow> db w' = db w \<and>
      (\<forall>rows. a = Answered rows \<longrightarrow> good w' \<and> tx w' = tx w \<and> (\<forall>shards. rows = map Ok shards \<longrightarrow> (\<exists>l. lock_ok l \<and> shards = locks l (tx w))))"
    and cleanup_advance: "gv_cleanup_advance gv shards w = (w', b) \<Longrightarrow> good w \<Longrightarrow> db w' = db w \<and>
      (b = Answered () \<longrightarrow> good w' \<and> (\<exists>t. time_ok t \<and> fwd t shards (tx w) = Ok (tx w')))"
    and cleanup_delete: "gv_cleanup_delete gv shards n w = (w', c) \<Longrightarrow> good w \<Longrightarrow> db w' = db w \<and>
      (\<forall>rows. c = Answered rows \<longrightarrow> good w' \<and> del shards n (tx w) = Ok (tx w', rows))"
begin

abbreviation removed :: "nat \<Rightarrow> 'd \<Rightarrow> nat \<Rightarrow> 'd \<Rightarrow> bool" where
  "removed n d rows d' \<equiv> \<exists>l u d1. lock_ok l \<and> time_ok u \<and> fwd u (locks l d) d = Ok d1 \<and> del (locks l d) n d1 = Ok (d', rows)"

lemma gcra_cleanup_transaction_triple:
  "triple (idle d) (gcra_cleanup_transaction gv n deadline)
     (\<lambda>rows w. removed n d rows (db w)) (\<lambda>f w. cleanup_honest (removed n d) d (outcome_value f) (db w))" (is "triple _ _ ?Q ?E")
proof -
  have locks: "triple (within d d) (maintenance_before_commit CleanupDeletingExpiredWindows (gv_cleanup_locks gv))
      (\<lambda>rows w. within d d w \<and> (\<forall>shards. rows = map Ok shards \<longrightarrow> (\<exists>l. lock_ok l \<and> shards = locks l d))) ?E"
    by (rule maintenance_before_commit_triple) (use cleanup_locks in fastforce)
  have decoded: "triple (within d d) (ready_result (map_err (\<lambda>error. Reusable (MaintenanceDatabase error)) (collect_results rows)))
      (\<lambda>shards w. within d d w \<and> rows = map Ok shards) ?E" for rows :: "nat decoded list"
    by (rule triple_ready) (auto simp: map_err_eq_Inl collect_results_Inr cleanup_honest_def)
  have advance: "triple (within d d) (maintenance_before_commit CleanupDeletingExpiredWindows (gv_cleanup_advance gv shards))
      (\<lambda>_ w. \<exists>d1 u. within d d1 w \<and> time_ok u \<and> fwd u shards d = Ok d1) ?E" for shards
    by (rule maintenance_before_commit_triple) (use cleanup_advance in fastforce)
  have delete: "triple (within d d1) (maintenance_before_commit CleanupDeletingExpiredWindows (gv_cleanup_delete gv shards n))
      (\<lambda>rows w. \<exists>d'. within d d' w \<and> del shards n d1 = Ok (d', rows)) ?E" for shards d1
    by (rule maintenance_before_commit_triple) (use cleanup_delete in fastforce)
  show ?thesis unfolding gcra_cleanup_transaction_def Let_def
    apply (rule triple_and_await [OF maintenance_begin_triple], rule triple_and_await [OF set_maintenance_timeouts_triple],
        rule triple_and_await [OF locks], rule triple_pre_conj, rule triple_and_await [OF decoded], rule triple_pre_conj,
        rule triple_and_await [OF set_maintenance_timeouts_triple], rule triple_and_await [OF advance])
    apply (intro triple_pre_ex triple_pre_conj)
    apply (rule triple_and_await [OF set_maintenance_timeouts_triple], rule triple_and_await [OF delete])
    apply (intro triple_pre_ex triple_pre_conj)
    by (rule commit_maintenance_triple) blast
qed

lemma gcra_cleanup_triple:
  "triple (idle d) (gcra_cleanup gv config n)
     (\<lambda>rows w. if n = 0 then rows = 0 \<and> db w = d else removed n d rows (db w)) (\<lambda>e w. cleanup_honest (removed n d) d e (db w))"
proof (cases "n = 0")
  case True
  then show ?thesis by (simp add: triple_def gcra_cleanup_def ready_result_def)
next
  case False
  then show ?thesis using maintenance_guarded_triple [OF gcra_cleanup_transaction_triple, of d config n]
    by (simp add: gcra_cleanup_def)
qed

end

end
