(* ===== verification/Postgres_Gcra_Sql.thy ===== *)
theory Postgres_Gcra_Sql
  imports Postgres_Gcra
begin

text \<open>
  The statements of \<open>runlimit-postgres/src/gcra.rs\<close> and the tables, constraints and triggers of
  \<open>gcra-migrations\<close>, as functions on the two tables. A counter's row is keyed by its primary key; as for
  the fixed windows, locking clauses have no effect in a serial execution.
\<close>

section \<open>Tables\<close>

text \<open>A counter is its \<open>tat_scaled\<close> and \<open>expires_at_ms\<close>, a shard its \<open>row_count\<close> and \<open>observed_at_ms\<close>.\<close>

type_synonym gcra_counters = "(storage_key \<times> nat \<times> int) list"
type_synonym gcra_shard_table = "nat \<Rightarrow> (int \<times> int) option"

record gcra_tables =
  gt_counters :: gcra_counters
  gt_shards :: gcra_shard_table

definition migrated_gcra_tables :: gcra_tables where
  "migrated_gcra_tables =
     \<lparr>gt_counters = [], gt_shards = (\<lambda>s. if s < CAPACITY_SHARD_COUNT then Some (0, 0) else None)\<rparr>"

definition gcra_row_constraints :: "storage_key \<Rightarrow> nat \<Rightarrow> int \<Rightarrow> bool" where
  "gcra_row_constraints k tat expires \<longleftrightarrow> length (fst k) = 32 \<and> length (snd k) = 32 \<and> expires \<ge> 0"

text \<open>The trigger on the counters, for one inserted and one deleted row.\<close>

definition gcra_capacity_insert :: "nat \<Rightarrow> gcra_shard_table \<Rightarrow> (sqlx_error, gcra_shard_table) result" where
  "gcra_capacity_insert s shards =
     (case shards s of
        None \<Rightarrow> Err foreign_key_violation
      | Some (row_count, observed) \<Rightarrow>
          if row_count + 1 > 65536 then Err check_violation else Ok (shards(s \<mapsto> (row_count + 1, observed))))"

definition gcra_capacity_delete :: "nat \<Rightarrow> gcra_shard_table \<Rightarrow> (sqlx_error, gcra_shard_table) result" where
  "gcra_capacity_delete s shards =
     (case shards s of
        None \<Rightarrow> Ok shards
      | Some (row_count, observed) \<Rightarrow>
          if row_count - 1 < 0 then Err check_violation else Ok (shards(s \<mapsto> (row_count - 1, observed))))"

fun for_each :: "('a \<Rightarrow> 's \<Rightarrow> ('e, 's) result) \<Rightarrow> 'a list \<Rightarrow> 's \<Rightarrow> ('e, 's) result" where
  "for_each f [] s = Ok s"
| "for_each f (x # xs) s = and_then (f x s) (for_each f xs)"

section \<open>Admission\<close>

definition LOCK_SHARDS :: "nat list \<Rightarrow> gcra_tables \<Rightarrow> gcra_shard_row list" where
  "LOCK_SHARDS shards d =
     List.map_filter (\<lambda>s. if s \<in> set shards
       then map_option (\<lambda>(row_count, observed).
         \<lparr>sr_capacity_shard = Ok (int s), sr_row_count = Ok row_count, sr_observed_at_ms = Ok observed\<rparr>) (gt_shards d s)
       else None) [0..<CAPACITY_SHARD_COUNT]"

definition READ_COUNTERS :: "u8 list list \<Rightarrow> u8 list list \<Rightarrow> gcra_tables \<Rightarrow> gcra_counter_row list" where
  "READ_COUNTERS fingerprints subjects d =
     map (\<lambda>(i, k). let stored = map_of (gt_counters d) k in
       \<lparr>gr_input_index = Ok (int i), gr_tat_scaled = Ok (map_option (\<lambda>(tat, _). decimal tat) stored),
        gr_expires_at_ms = Ok (map_option (\<lambda>(_, expires). expires) stored)\<rparr>)
     (enumerate 0 (zip fingerprints subjects))"

text \<open>\<open>tat::NUMERIC\<close>, for the strings of digits that the client sends, stored in a \<open>NUMERIC(39, 0)\<close>.\<close>

definition numeric_of :: "rstr \<Rightarrow> (sqlx_error, nat) result" where
  "numeric_of s =
     (if s = [] \<or> \<not> list_all is_digit s then Err (sql_error ''22P02'')
      else if digits_value s \<ge> 10 ^ 39 then Err numeric_overflow else Ok (digits_value s))"

text \<open>One row of the \<open>INSERT\<close>, with the keys this command has inserted and those it has written.\<close>

type_synonym gcra_upsert_state = "gcra_counters \<times> storage_key list \<times> storage_key list"

definition gcra_upsert_row ::
    "storage_key \<times> rstr \<times> int \<Rightarrow> gcra_upsert_state \<Rightarrow> (sqlx_error, gcra_upsert_state) result" where
  "gcra_upsert_row input st =
     (let (k, tat, expires) = input; (counters, inserted, written) = st in
      and_then (numeric_of tat) (\<lambda>tat.
      if \<not> gcra_row_constraints k tat expires then Err check_violation
      else case map_of counters k of
        None \<Rightarrow> Ok (counters @ [(k, tat, expires)], inserted @ [k], written @ [k])
      | Some _ \<Rightarrow>
          if k \<in> set written then Err cardinality_violation
          else Ok (AList.update k (tat, expires) counters, inserted, written @ [k])))"

definition UPSERT ::
    "u8 list list \<Rightarrow> u8 list list \<Rightarrow> rstr list \<Rightarrow> int list \<Rightarrow> gcra_tables \<Rightarrow> (sqlx_error, gcra_tables \<times> nat) result" where
  "UPSERT fingerprints subjects tats expiries d =
     and_then (for_each gcra_upsert_row (zip (zip fingerprints subjects) (zip tats expiries)) (gt_counters d, [], []))
       (\<lambda>(counters, inserted, written).
     and_then (for_each gcra_capacity_insert (map key_shard inserted) (gt_shards d)) (\<lambda>shards.
     Ok (\<lparr>gt_counters = counters, gt_shards = shards\<rparr>, length written)))"

definition ADVANCE_TIME :: "nat list \<Rightarrow> int \<Rightarrow> gcra_tables \<Rightarrow> (sqlx_error, gcra_tables) result" where
  "ADVANCE_TIME shards now d =
     (if now < 0 \<and> (\<exists>s \<in> set shards. gt_shards d s \<noteq> None) then Err check_violation
      else Ok (d\<lparr>gt_shards := (\<lambda>s. if s \<in> set shards then map_option (\<lambda>(n, _). (n, now)) (gt_shards d s) else gt_shards d s)\<rparr>))"

section \<open>Cleanup\<close>

definition observed_at :: "gcra_tables \<Rightarrow> nat \<Rightarrow> int" where
  "observed_at d s = (case gt_shards d s of None \<Rightarrow> 0 | Some (_, observed) \<Rightarrow> observed)"

definition expired_in :: "nat \<Rightarrow> int \<Rightarrow> gcra_tables \<Rightarrow> (storage_key \<times> nat \<times> int) list" where
  "expired_in s t d = filter (\<lambda>(k, _, expires). key_shard k = s \<and> expires \<le> t) (gt_counters d)"

text \<open>The shards with expired counters, less those that another session has locked.\<close>

definition CLEANUP_LOCKS :: "(nat \<Rightarrow> bool) \<Rightarrow> int \<Rightarrow> gcra_tables \<Rightarrow> nat list" where
  "CLEANUP_LOCKS locked now d =
     filter (\<lambda>s. gt_shards d s \<noteq> None \<and> expired_in s (max now (observed_at d s)) d \<noteq> [] \<and> \<not> locked s) [0..<CAPACITY_SHARD_COUNT]"

definition CLEANUP_ADVANCE_TIME :: "int \<Rightarrow> nat list \<Rightarrow> gcra_tables \<Rightarrow> (sqlx_error, gcra_tables) result" where
  "CLEANUP_ADVANCE_TIME now shards d =
     ADVANCE_TIME shards (max now (fold max (map (observed_at d) shards) 0)) d"

definition cleanup_candidates :: "nat list \<Rightarrow> nat \<Rightarrow> gcra_tables \<Rightarrow> (storage_key \<times> nat \<times> int) list" where
  "cleanup_candidates shards n d =
     (let by_expiry = (\<lambda>(_, _, expires). expires) in
      take n (sort_key by_expiry (concat (map (\<lambda>s. take n (sort_key by_expiry (expired_in s (observed_at d s) d)))
        (filter (\<lambda>s. s \<in> set shards \<and> gt_shards d s \<noteq> None) [0..<CAPACITY_SHARD_COUNT])))))"

definition CLEANUP_DELETE :: "nat list \<Rightarrow> nat \<Rightarrow> gcra_tables \<Rightarrow> (sqlx_error, gcra_tables \<times> nat) result" where
  "CLEANUP_DELETE shards n d =
     (let expired = map fst (cleanup_candidates shards n d);
          deleted = filter (\<lambda>(k, _). k \<in> set expired) (gt_counters d)
      in
      and_then (for_each gcra_capacity_delete (map (\<lambda>(k, _). key_shard k) deleted) (gt_shards d)) (\<lambda>shards.
      Ok (\<lparr>gt_counters = filter (\<lambda>(k, _). k \<notin> set expired) (gt_counters d), gt_shards = shards\<rparr>, length deleted)))"

end
