(* ===== verification/Postgres_Gcra_Correct.thy ===== *)
theory Postgres_Gcra_Correct
  imports Postgres_Gcra_Transaction Postgres_Gcra_Sql Memory_Gcra_Correct
begin

text \<open>
  What a batch of GCRA checks amounts to on the tables of \<open>Postgres_Gcra_Sql\<close>: the time of the batch,
  the first check in caller order without quota or storage slot, or every counter advanced by the exact
  GCRA transition; and that \<open>gcra_decided\<close> on the SQL means exactly that and keeps the table invariant.
\<close>

section \<open>Specification\<close>

definition gcra_key :: "gcra_policy check \<Rightarrow> storage_key" where
  "gcra_key c = (fingerprint_bytes (ck_fingerprint (gkey c)), subject_bytes (chk_subject c))"

abbreviation gcra_counter :: "gcra_tables \<Rightarrow> storage_key \<Rightarrow> (nat \<times> int) option" where
  "gcra_counter d k \<equiv> map_of (gt_counters d) k"

definition gcra_rows_in :: "nat \<Rightarrow> gcra_counters \<Rightarrow> nat" where
  "gcra_rows_in s counters = length (filter (\<lambda>(k, _). key_shard k = s) counters)"

text \<open>The counter in force at \<open>now\<close>, as an entry and its expiry.\<close>

definition gcra_in_force :: "nat \<Rightarrow> gcra_tables \<Rightarrow> storage_key \<Rightarrow> (gcra_entry \<times> nat) option" where
  "gcra_in_force now d k =
     (case gcra_counter d k of
        None \<Rightarrow> None
      | Some (tat, expires) \<Rightarrow> if now < nat expires then Some (\<lparr>ge_tat_scaled = tat\<rparr>, nat expires) else None)"

definition gcra_batch_time :: "gcra_policy check list \<Rightarrow> gcra_tables \<Rightarrow> int \<Rightarrow> int" where
  "gcra_batch_time checks d sample = fold max (map (observed_at d) (gcra_shards checks)) sample"

definition gcra_slots_before :: "gcra_tables \<Rightarrow> gcra_policy check list \<Rightarrow> nat \<Rightarrow> nat" where
  "gcra_slots_before d checks i =
     length (filter (\<lambda>c. gcra_counter d (gcra_key c) = None \<and> key_shard (gcra_key c) = key_shard (gcra_key (checks ! i)))
       (take i checks))"

definition gcra_denial_at :: "nat \<Rightarrow> nat \<Rightarrow> gcra_tables \<Rightarrow> gcra_policy check list \<Rightarrow> nat \<Rightarrow> pg_admission option" where
  "gcra_denial_at maximum now d checks i =
     (let c = checks ! i; st = gcra_in_force now d (gcra_key c) in
      if \<not> g_conforms c now st then
        Some (if gcp_quota_mode (chk_policy c) = Shadow then PA_ShadowDenied i (g_denial c now st)
              else PA_Denied i (QuotaExceeded (g_denial c now st)))
      else if gcra_counter d (gcra_key c) = None \<and>
        gcra_rows_in (key_shard (gcra_key c)) (gt_counters d) + gcra_slots_before d checks i \<ge> maximum
      then Some (PA_Denied i (StorageCapacity None)) else None)"

definition gcra_first_denial where
  "gcra_first_denial maximum now d checks =
     map_option (\<lambda>i. the (gcra_denial_at maximum now d checks i))
       (List.find (\<lambda>i. gcra_denial_at maximum now d checks i \<noteq> None) [0..<length checks])"

definition gcra_advanced :: "nat \<Rightarrow> gcra_tables \<Rightarrow> gcra_policy check \<Rightarrow> nat \<times> int" where
  "gcra_advanced now d c =
     (let (entry, expires) = g_next c now (gcra_in_force now d (gcra_key c)) in (ge_tat_scaled entry, int expires))"

text \<open>Every counter of the batch advanced, its shards' clocks moved to the time of the batch, nothing else touched.\<close>

definition gcra_charged :: "int \<Rightarrow> gcra_policy check list \<Rightarrow> gcra_tables \<Rightarrow> gcra_tables \<Rightarrow> bool" where
  "gcra_charged now checks d d' \<longleftrightarrow>
     (\<forall>k. gcra_counter d' k =
        (case List.find (\<lambda>c. gcra_key c = k) checks of
           None \<Rightarrow> gcra_counter d k
         | Some c \<Rightarrow> Some (gcra_advanced (nat now) d c))) \<and>
     (\<forall>s. observed_at d' s = (if s \<in> key_shard ` gcra_key ` set checks then now else observed_at d s))"

definition gcra_tables_ok :: "rate_table \<Rightarrow> gcra_tables \<Rightarrow> bool" where
  "gcra_tables_ok tab d \<longleftrightarrow>
     distinct (map fst (gt_counters d)) \<and>
     (\<forall>s < CAPACITY_SHARD_COUNT. gt_shards d s = Some (int (gcra_rows_in s (gt_counters d)), observed_at d s) \<and>
        gcra_rows_in s (gt_counters d) \<le> HARD_MAX_ROWS_PER_SHARD) \<and>
     (\<forall>s. 0 \<le> observed_at d s) \<and>
     (\<forall>(k, tat, expires) \<in> set (gt_counters d). gcra_row_constraints k tat expires \<and>
        gentry_ok (tab (PolicyFingerprint (fst k))) (nat (observed_at d (key_shard k))) tat (nat expires))"

section \<open>Locking and time\<close>

lemma gcra_key_shard: "capacity_shard (gkey c) = key_shard (gcra_key c)"
  by (simp add: capacity_shard_def key_shard_def gcra_key_def chk_counter_key_def)

lemma gcra_shards_facts:
  "set (gcra_shards checks) = key_shard ` gcra_key ` set checks" "sorted (gcra_shards checks)" "distinct (gcra_shards checks)"
  by (simp_all add: gcra_shards_def gcra_key_shard image_image sorted_remdups_adj distinct_remdups_adj_sorted)

lemma gcra_shards_less: "s \<in> set (gcra_shards checks) \<Longrightarrow> s < CAPACITY_SHARD_COUNT"
  using key_shard_less by (auto simp: gcra_shards_facts)

lemma sorted_filter_upt: "sorted xs \<Longrightarrow> distinct xs \<Longrightarrow> \<forall>x \<in> set xs. x < n \<Longrightarrow> filter (\<lambda>x. x \<in> set xs) [0..<n] = xs"
  by (intro sorted_distinct_set_unique) (auto simp: sorted_wrt_filter)

definition gcra_ledger_row :: "gcra_tables \<Rightarrow> nat \<Rightarrow> gcra_shard_row" where
  "gcra_ledger_row d s = \<lparr>sr_capacity_shard = Ok (int s), sr_row_count = Ok (int (gcra_rows_in s (gt_counters d))),
     sr_observed_at_ms = Ok (observed_at d s)\<rparr>"

lemma lock_shards_rows:
  assumes "gcra_tables_ok tab d"
  shows "LOCK_SHARDS (gcra_shards checks) d = map (gcra_ledger_row d) (gcra_shards checks)"
proof -
  let ?xs = "gcra_shards checks"
  have "LOCK_SHARDS ?xs d = List.map_filter (\<lambda>s. if s \<in> set ?xs then Some (gcra_ledger_row d s) else None) [0..<CAPACITY_SHARD_COUNT]"
    unfolding LOCK_SHARDS_def List.map_filter_def gcra_ledger_row_def
    using assms gcra_shards_less by (auto simp: gcra_tables_ok_def intro!: map_cong filter_cong)
  also have "\<dots> = map (gcra_ledger_row d) (filter (\<lambda>s. s \<in> set ?xs) [0..<CAPACITY_SHARD_COUNT])"
    by (induction CAPACITY_SHARD_COUNT) (auto simp: List.map_filter_def)
  also have "filter (\<lambda>s. s \<in> set ?xs) [0..<CAPACITY_SHARD_COUNT] = ?xs"
    using gcra_shards_facts(2,3) gcra_shards_less by (intro sorted_filter_upt) auto
  finally show ?thesis .
qed

lemma gcra_ledger_loop_spec:
  assumes "\<forall>s \<in> set shards. s < length counts \<and> gcra_rows_in s (gt_counters d) \<le> HARD_MAX_ROWS_PER_SHARD \<and> 0 \<le> observed_at d s"
    and "distinct shards"
  shows "\<exists>counts'. gcra_ledger_loop (map (gcra_ledger_row d) shards) shards counts now = Ok (counts', fold max (map (observed_at d) shards) now) \<and>
     length counts' = length counts \<and> (\<forall>s \<in> set shards. counts' ! s = int (gcra_rows_in s (gt_counters d))) \<and>
     (\<forall>s. s \<notin> set shards \<longrightarrow> counts' ! s = counts ! s)"
  using assms
proof (induction shards arbitrary: counts now)
  case (Cons s shards)
  let ?c = "counts[s := int (gcra_rows_in s (gt_counters d))]"
  have eq: "gcra_ledger_loop (map (gcra_ledger_row d) (s # shards)) (s # shards) counts now =
      gcra_ledger_loop (map (gcra_ledger_row d) shards) shards ?c (max now (observed_at d s))"
    using Cons.prems by (simp add: gcra_ledger_row_def gcra_field_def)
  from Cons.IH [of ?c "max now (observed_at d s)"] Cons.prems obtain counts' where
    "gcra_ledger_loop (map (gcra_ledger_row d) shards) shards ?c (max now (observed_at d s)) =
        Ok (counts', fold max (map (observed_at d) shards) (max now (observed_at d s)))"
    "length counts' = length ?c" "\<forall>x \<in> set shards. counts' ! x = int (gcra_rows_in x (gt_counters d))"
    "\<forall>x. x \<notin> set shards \<longrightarrow> counts' ! x = ?c ! x" by auto
  then show ?case using Cons.prems unfolding eq by (auto simp: max.commute)
qed simp

lemma fold_max_int_ge: "a \<le> fold max xs (a :: int)" "x \<in> set xs \<Longrightarrow> x \<le> fold max xs a"
proof (induction xs arbitrary: a)
  case (Cons y xs)
  { case 1 then show ?case using Cons.IH(1) [of "max y a"] by simp }
  { case 2 then show ?case using Cons.IH(1) [of "max y a"] Cons.IH(2) [of "max y a"] by auto }
qed simp_all

lemma gcra_clock_spec:
  assumes "gcra_tables_ok tab d"
    and "gcra_clock (gcra_shards checks) (LOCK_SHARDS (gcra_shards checks) d) sample = Ok (counts, now)"
  shows "\<exists>t. sample = Ok t \<and> now = gcra_batch_time checks d t \<and> 0 \<le> now \<and> length counts = CAPACITY_SHARD_COUNT \<and>
    (\<forall>c \<in> set checks. counts ! key_shard (gcra_key c) = int (gcra_rows_in (key_shard (gcra_key c)) (gt_counters d)) \<and>
       observed_at d (key_shard (gcra_key c)) \<le> now)"
proof -
  obtain t where t: "sample = Ok t" using assms(2) by (cases sample) (auto simp: gcra_clock_def gcra_field_def)
  have shards: "\<forall>s \<in> set (gcra_shards checks). s < length (replicate CAPACITY_SHARD_COUNT (0 :: int)) \<and>
      gcra_rows_in s (gt_counters d) \<le> HARD_MAX_ROWS_PER_SHARD \<and> 0 \<le> observed_at d s"
    using assms(1) gcra_shards_less by (auto simp: gcra_tables_ok_def)
  from gcra_ledger_loop_spec [OF shards gcra_shards_facts(3), of t] assms(2) t
  have "now = gcra_batch_time checks d t" "0 \<le> now" "length counts = CAPACITY_SHARD_COUNT"
    "\<forall>s \<in> set (gcra_shards checks). counts ! s = int (gcra_rows_in s (gt_counters d))"
    by (auto simp: gcra_clock_def gcra_field_def lock_shards_rows [OF assms(1)] gcra_batch_time_def split: if_splits)
  moreover have "\<forall>s \<in> set (gcra_shards checks). observed_at d s \<le> gcra_batch_time checks d t"
    unfolding gcra_batch_time_def by (auto intro!: fold_max_int_ge(2))
  ultimately show ?thesis using t by (auto simp: gcra_shards_facts)
qed

section \<open>Evaluation\<close>

text \<open>The rows of \<open>READ_COUNTERS\<close>, check by check.\<close>

definition gcra_row_of :: "gcra_tables \<Rightarrow> nat \<times> gcra_policy check \<Rightarrow> gcra_counter_row" where
  "gcra_row_of d = (\<lambda>(i, c). let stored = gcra_counter d (gcra_key c) in
     \<lparr>gr_input_index = Ok (int i), gr_tat_scaled = Ok (map_option (\<lambda>(tat, _). decimal tat) stored),
      gr_expires_at_ms = Ok (map_option (\<lambda>(_, expires). expires) stored)\<rparr>)"

lemma zip_keys: "zip (gcra_fingerprints checks) (gcra_subjects checks) = map gcra_key checks"
  by (induction checks) (simp_all add: gcra_fingerprints_def gcra_subjects_def gcra_key_def)

lemma map_enumerate_map: "map f (enumerate n (map g xs)) = map (\<lambda>(i, x). f (i, g x)) (enumerate n xs)"
  by (induction xs arbitrary: n) simp_all

lemma read_counters_rows:
  "READ_COUNTERS (gcra_fingerprints checks) (gcra_subjects checks) d = map (gcra_row_of d) (enumerate 0 checks)"
  by (simp add: READ_COUNTERS_def zip_keys map_enumerate_map gcra_row_of_def case_prod_unfold Let_def)

lemma parse_unsigned_decimal_Some: "parse_unsigned w (decimal n) = Some m \<Longrightarrow> m = n"
  using decimal_digits [of n] decimal_nonempty [of n]
  by (cases "decimal n") (auto simp: parse_unsigned_def list_all_iff is_digit_def try_from_def Let_def
      dest: arg_cong [of _ _ digits_value] split: if_splits)

lemma gcra_decode_counter:
  assumes "gcra_decode_stored (map_option (\<lambda>(tat, _). decimal tat) st) (map_option (\<lambda>(_, expires). expires) st) = Ok r"
  shows "r = map_option (\<lambda>(tat, expires). (tat, nat expires)) st"
  using assms
  by (cases st) (auto dest!: parse_unsigned_decimal_Some simp: gcra_decode_stored_def and_then_eq_Inr ok_or_def split: if_splits option.splits)

lemma gcra_evaluate_check_spec:
  assumes "gcheck_ok c" "gcra_evaluate_check now i c (gcra_row_of d (i, c)) = Ok (stored, evaluated)"
  shows "stored = None \<longleftrightarrow> gcra_counter d (gcra_key c) = None"
    "evaluated = gcra_spec c now (tat_of (gcra_in_force now d (gcra_key c)))"
proof -
  let ?st = "gcra_counter d (gcra_key c)"
  from assms(2) have st: "stored = map_option (\<lambda>(tat, expires). (tat, nat expires)) ?st"
    and ev: "evaluate c now (active_stored_tat now stored) = Ok evaluated"
    by (auto simp: gcra_evaluate_check_def gcra_row_of_def gcra_stored_def gcra_field_def and_then_eq_Inr map_err_eq_Inr Let_def
        dest: gcra_decode_counter split: if_splits)
  then show "stored = None \<longleftrightarrow> ?st = None" by simp
  have "active_stored_tat now stored = tat_of (gcra_in_force now d (gcra_key c))"
    by (cases ?st) (auto simp: st active_stored_tat_def gcra_in_force_def)
  then show "evaluated = gcra_spec c now (tat_of (gcra_in_force now d (gcra_key c)))"
    using evaluate_Ok_spec [OF assms(1) ev] by simp
qed

lemma new_conforms: "gcheck_ok c \<Longrightarrow> conforms c now None"
  using gcheck_bounds(8) [of c] by (simp add: conforms_def active_def)

lemma in_force_new: "gcra_counter d k = None \<Longrightarrow> gcra_in_force now d k = None"
  by (simp add: gcra_in_force_def)

definition gcra_pend :: "nat \<Rightarrow> gcra_tables \<Rightarrow> gcra_policy check \<Rightarrow> pending_allowance" where
  "gcra_pend now d c =
     (let st = gcra_in_force now d (gcra_key c) in
      \<lparr>pa_tat_scaled = ge_tat_scaled (fst (g_next c now st)), pa_expires_at_millis = snd (g_next c now st),
       pa_allowance = g_allowance c now st\<rparr>)"

text \<open>Shard counts after the new counters of a prefix \<open>done\<close> of the batch.\<close>

definition counts_after :: "gcra_tables \<Rightarrow> gcra_policy check list \<Rightarrow> gcra_policy check list \<Rightarrow> int list \<Rightarrow> bool" where
  "counts_after d done checks counts \<longleftrightarrow> length counts = CAPACITY_SHARD_COUNT \<and>
     (\<forall>c \<in> set checks. counts ! key_shard (gcra_key c) = int (gcra_rows_in (key_shard (gcra_key c)) (gt_counters d) +
        length (filter (\<lambda>x. gcra_counter d (gcra_key x) = None \<and> key_shard (gcra_key x) = key_shard (gcra_key c)) done)))"

lemma counts_after_step:
  assumes "counts_after d done (c # checks) counts"
  shows "counts_after d (done @ [c]) checks
    (if gcra_counter d (gcra_key c) = None
     then counts[key_shard (gcra_key c) := counts ! key_shard (gcra_key c) + 1] else counts)"
  using assms key_shard_less [of "gcra_key c"] by (auto simp: counts_after_def nth_list_update)

lemma gcra_loop_step:
  assumes "gcheck_ok c" "counts_after d done (c # checks) counts"
    and "gcra_evaluate_loop maximum now (length done) (c # checks) (gcra_row_of d (length done, c) # rows) counts denial pending = Ok r"
  shows "\<exists>pending' counts'. counts_after d (done @ [c]) checks counts' \<and>
    gcra_evaluate_loop maximum now (length (done @ [c])) checks rows counts'
      (case denial of Some x \<Rightarrow> Some x | None \<Rightarrow> gcra_denial_at maximum now d (done @ c # checks) (length done)) pending' = Ok r \<and>
    (gcra_denial_at maximum now d (done @ c # checks) (length done) = None \<longrightarrow> pending' = pending @ [gcra_pend now d c])"
proof -
  let ?st = "gcra_in_force now d (gcra_key c)" and ?k = "key_shard (gcra_key c)"
  let ?at = "gcra_denial_at maximum now d (done @ c # checks) (length done)"
  obtain stored evaluated where ev: "gcra_evaluate_check now (length done) c (gcra_row_of d (length done, c)) = Ok (stored, evaluated)"
    using assms(3) by (auto simp: and_then_eq_Inr)
  note spec = gcra_evaluate_check_spec [OF assms(1) ev]
  have count: "counts ! ?k = int (gcra_rows_in ?k (gt_counters d) + gcra_slots_before d (done @ c # checks) (length done))"
    using assms(2) by (simp add: counts_after_def gcra_slots_before_def)
  show ?thesis
  proof (cases "g_conforms c now ?st")
    case False
    then have "gcra_counter d (gcra_key c) \<noteq> None"
      using in_force_new [of d "gcra_key c" now] new_conforms [OF assms(1)] by (metis option.map_disc_iff)
    then have "counts_after d (done @ [c]) checks counts" using counts_after_step [OF assms(2)] by (simp only: if_False)
    then show ?thesis using False assms(3) ev spec(2)
      by (intro exI [of _ pending] exI [of _ counts]) (auto simp: gcra_spec_cases gcra_denial_at_def get_or_insert_def Let_def split: option.splits)
  next
    case True
    have "counts ! ?k \<ge> int maximum \<longleftrightarrow> gcra_rows_in ?k (gt_counters d) + gcra_slots_before d (done @ c # checks) (length done) \<ge> maximum"
      unfolding count by (rule of_nat_le_iff)
    then show ?thesis using True assms(3) ev spec counts_after_step [OF assms(2)]
      by (auto simp: gcra_spec_cases gcra_denial_at_def get_or_insert_def gcra_pend_def Let_def gcra_key_shard split: option.splits if_splits)
  qed
qed

lemma gcra_loop_spec:
  assumes "\<forall>c \<in> set checks. gcheck_ok c" "counts_after d done checks counts"
    and "gcra_evaluate_loop maximum now (length done) checks (map (gcra_row_of d) (enumerate (length done) checks)) counts denial pending = Ok r"
  shows "r = (case denial of Some x \<Rightarrow> GP_Denied x | None \<Rightarrow>
     (case List.find (\<lambda>i. gcra_denial_at maximum now d (done @ checks) i \<noteq> None) [length done..<length (done @ checks)] of
        Some i \<Rightarrow> GP_Denied (the (gcra_denial_at maximum now d (done @ checks) i))
      | None \<Rightarrow> GP_Allowed (pending @ map (gcra_pend now d) checks)))"
  using assms
proof (induction checks arbitrary: "done" counts denial pending)
  case (Cons c checks)
  let ?at = "gcra_denial_at maximum now d (done @ c # checks)"
  from Cons.prems gcra_loop_step [of c d "done" checks counts maximum now "map (gcra_row_of d) (enumerate (length (done @ [c])) checks)" denial pending r]
  obtain pending' counts' where step: "counts_after d (done @ [c]) checks counts'"
    "gcra_evaluate_loop maximum now (length (done @ [c])) checks (map (gcra_row_of d) (enumerate (length (done @ [c])) checks)) counts'
      (case denial of Some x \<Rightarrow> Some x | None \<Rightarrow> ?at (length done)) pending' = Ok r"
    "?at (length done) = None \<longrightarrow> pending' = pending @ [gcra_pend now d c]" by auto
  have range: "[length done..<length (done @ c # checks)] = length done # [length (done @ [c])..<length (done @ c # checks)]"
    by (simp add: upt_conv_Cons del: upt_Suc)
  from Cons.IH [OF _ step(1,2)] Cons.prems(1) step(3) show ?case
    unfolding range by (auto split: option.splits)
qed (simp split: option.splits)

lemma gcra_evaluate_rows_spec:
  assumes "\<forall>c \<in> set checks. gcheck_ok c" "counts_after d [] checks counts"
    and "gcra_evaluate_rows checks (READ_COUNTERS (gcra_fingerprints checks) (gcra_subjects checks) d) counts maximum now = Ok r"
  shows "r = (case gcra_first_denial maximum now d checks of
     Some x \<Rightarrow> GP_Denied x | None \<Rightarrow> GP_Allowed (map (gcra_pend now d) checks))"
  using gcra_loop_spec [of checks d "[]" counts maximum now None "[]" r] assms
  by (auto simp: gcra_evaluate_rows_def read_counters_rows gcra_first_denial_def split: option.splits)

text \<open>What the client computes between the locks and the writes.\<close>

lemma gcra_pending_spec:
  assumes ok: "gcra_tables_ok tab d" and checks: "\<forall>c \<in> set checks. gcheck_ok c"
    and pending: "gcra_pending_of LOCK_SHARDS READ_COUNTERS checks maximum sample d = Ok (p, now)"
  shows "(\<exists>t. sample = Ok t \<and> now = gcra_batch_time checks d t) \<and> 0 \<le> now \<and>
    (\<forall>c \<in> set checks. observed_at d (key_shard (gcra_key c)) \<le> now) \<and>
    p = (case gcra_first_denial maximum (nat now) d checks of
      Some x \<Rightarrow> GP_Denied x | None \<Rightarrow> GP_Allowed (map (gcra_pend (nat now) d) checks))"
proof -
  obtain counts where clock: "gcra_clock (gcra_shards checks) (LOCK_SHARDS (gcra_shards checks) d) sample = Ok (counts, now)"
    and ev: "gcra_evaluate_rows checks (READ_COUNTERS (gcra_fingerprints checks) (gcra_subjects checks) d) counts maximum (nat now) = Ok p"
    using pending by (auto simp: gcra_pending_of_def Let_def and_then_eq_Inr split: if_splits)
  note t = gcra_clock_spec [OF ok clock]
  then have "counts_after d [] checks counts" by (auto simp: counts_after_def)
  from gcra_evaluate_rows_spec [OF checks this ev] t show ?thesis by auto
qed

section \<open>The writes\<close>

text \<open>The keys, arrival times and expiries of an allowed batch.\<close>

definition in_shard :: "nat \<Rightarrow> storage_key list \<Rightarrow> nat" where
  "in_shard s keys = length (filter (\<lambda>k. key_shard k = s) keys)"

lemma in_shard_simps [simp]:
  "in_shard s [] = 0" "in_shard s (k # ks) = (if key_shard k = s then 1 else 0) + in_shard s ks"
  "in_shard s (xs @ ys) = in_shard s xs + in_shard s ys"
  by (simp_all add: in_shard_def)

lemma rows_in_keys: "gcra_rows_in s cs = in_shard s (map fst cs)"
  by (simp add: gcra_rows_in_def in_shard_def filter_map comp_def case_prod_unfold)

lemma update_keys_eq: "map_of cs k \<noteq> None \<Longrightarrow> map fst (AList.update k v cs) = map fst cs"
  by (induction cs) auto

definition upsert_ok :: "gcra_upsert_state \<Rightarrow> bool" where
  "upsert_ok st \<longleftrightarrow> (case st of (cs, inserted, _) \<Rightarrow>
     distinct (map fst cs) \<and> (\<forall>(k, tat, expires) \<in> set cs. gcra_row_constraints k tat expires))"

lemma gcra_upsert_row_spec:
  assumes "upsert_ok (cs, ins, wr)" "gcra_upsert_row (k, t, e) (cs, ins, wr) = Ok st"
  shows "\<exists>cs' new. st = (cs', ins @ new, wr @ [k]) \<and> upsert_ok st \<and> map_of cs' = (map_of cs)(k \<mapsto> (digits_value t, e)) \<and>
    (\<forall>s. gcra_rows_in s cs' = gcra_rows_in s cs + in_shard s new)"
proof (cases "map_of cs k")
  case None
  with assms have "gcra_row_constraints k (digits_value t) e" "st = (cs @ [(k, digits_value t, e)], ins @ [k], wr @ [k])"
    by (auto simp: gcra_upsert_row_def numeric_of_def and_then_eq_Inr split: if_splits)
  moreover have "map_of (cs @ [(k, v)]) = (map_of cs)(k \<mapsto> v)" for v
    using None by (auto simp: map_add_def split: option.splits)
  ultimately show ?thesis using assms(1) None
    by (auto simp: upsert_ok_def rows_in_keys map_of_eq_None_iff)
next
  case (Some v)
  with assms(2) have "gcra_row_constraints k (digits_value t) e" and st: "st = (AList.update k (digits_value t, e) cs, ins, wr @ [k])"
    by (auto simp: gcra_upsert_row_def numeric_of_def and_then_eq_Inr split: if_splits)
  moreover have "set (AList.update k (digits_value t, e) cs) \<subseteq> insert (k, digits_value t, e) (set cs)"
    by (induction cs) auto
  ultimately have "upsert_ok st" using assms(1) by (auto simp: upsert_ok_def distinct_update)
  then show ?thesis using st Some by (auto simp: update_conv' rows_in_keys update_keys_eq)
qed

lemma gcra_upsert_rows_spec:
  assumes "upsert_ok (cs, ins, wr)" "for_each gcra_upsert_row (zip ks (zip ts es)) (cs, ins, wr) = Ok st"
    and "length ts = length ks" "length es = length ks"
  shows "\<exists>cs' new wr'. st = (cs', ins @ new, wr') \<and> upsert_ok st \<and> map_of cs' = (map_of cs)(ks [\<mapsto>] zip (map digits_value ts) es) \<and>
    (\<forall>s. gcra_rows_in s cs' = gcra_rows_in s cs + in_shard s new)"
  using assms
proof (induction ks arbitrary: ts es cs ins wr)
  case (Cons k ks)
  then obtain t ts' e es' where te: "ts = t # ts'" "es = e # es'" by (cases ts; cases es) auto
  from Cons.prems(2) obtain st1 where s1: "gcra_upsert_row (k, t, e) (cs, ins, wr) = Ok st1"
    "for_each gcra_upsert_row (zip ks (zip ts' es')) st1 = Ok st" by (auto simp: te and_then_eq_Inr)
  from gcra_upsert_row_spec [OF Cons.prems(1) s1(1)] obtain cs1 new1 where a: "st1 = (cs1, ins @ new1, wr @ [k])" "upsert_ok st1"
    "map_of cs1 = (map_of cs)(k \<mapsto> (digits_value t, e))" "\<And>s. gcra_rows_in s cs1 = gcra_rows_in s cs + in_shard s new1" by blast
  have "upsert_ok (cs1, ins @ new1, wr @ [k])" "for_each gcra_upsert_row (zip ks (zip ts' es')) (cs1, ins @ new1, wr @ [k]) = Ok st"
    "length ts' = length ks" "length es' = length ks" using a(1,2) s1(2) Cons.prems(3,4) te by simp_all
  from Cons.IH [OF this] obtain cs' new2 wr' where
    "st = (cs', (ins @ new1) @ new2, wr')" "upsert_ok st" "map_of cs' = (map_of cs1)(ks [\<mapsto>] zip (map digits_value ts') es')"
    "\<And>s. gcra_rows_in s cs' = gcra_rows_in s cs1 + in_shard s new2" by blast
  then show ?case using a(3,4) te by (intro exI [of _ cs'] exI [of _ "new1 @ new2"] exI [of _ wr']) auto
next
  case Nil
  then show ?case by (intro exI [of _ cs] exI [of _ "[]"] exI [of _ wr]) auto
qed

lemma capacity_insert_spec:
  assumes "for_each gcra_capacity_insert (map key_shard new) shards = Ok shards'"
  shows "shards' s = map_option (\<lambda>(n, t). (n + int (in_shard s new), t)) (shards s) \<and>
    (\<forall>n t. shards s = Some (n, t) \<longrightarrow> n \<le> 65536 \<longrightarrow> n + int (in_shard s new) \<le> 65536)"
  using assms
proof (induction new arbitrary: shards)
  case (Cons k new)
  then obtain shards1 where s1: "gcra_capacity_insert (key_shard k) shards = Ok shards1"
    "for_each gcra_capacity_insert (map key_shard new) shards1 = Ok shards'" by (auto simp: and_then_eq_Inr)
  then obtain n t where "shards (key_shard k) = Some (n, t)" "n + 1 \<le> 65536" "shards1 = shards(key_shard k \<mapsto> (n + 1, t))"
    by (auto simp: gcra_capacity_insert_def split: option.splits if_splits)
  then show ?case using Cons.IH [OF s1(2)] by (auto simp: option.map_comp split: if_splits)
qed (simp add: option.map_ident split_def)

lemma map_upds_find:
  "distinct (map f xs) \<Longrightarrow> (m(map f xs [\<mapsto>] map g xs)) k = (case List.find (\<lambda>x. f x = k) xs of None \<Rightarrow> m k | Some x \<Rightarrow> Some (g x))"
proof (induction xs arbitrary: m)
  case (Cons x xs)
  then show ?case by (cases "f x = k") (auto simp: find_None_iff split: option.splits)
qed simp

section \<open>A batch on the tables\<close>

definition gcra_admission_spec :: "nat \<Rightarrow> gcra_policy check list \<Rightarrow> nat \<Rightarrow> gcra_tables \<Rightarrow> pg_admission" where
  "gcra_admission_spec maximum checks now d =
     (case gcra_first_denial maximum now d checks of
        Some admission \<Rightarrow> admission
      | None \<Rightarrow> PA_Allowed (map (\<lambda>c. g_allowance c now (gcra_in_force now d (gcra_key c))) checks))"

definition gcra_effect :: "rate_table \<Rightarrow> nat \<Rightarrow> gcra_policy check list \<Rightarrow> int \<Rightarrow> gcra_tables \<Rightarrow> gcra_tables \<Rightarrow> bool" where
  "gcra_effect tab maximum checks now d d' \<longleftrightarrow> 0 \<le> now \<and> gcra_tables_ok tab d' \<and>
     (case gcra_first_denial maximum (nat now) d checks of None \<Rightarrow> gcra_charged now checks d d' | Some _ \<Rightarrow> d' = d)"

lemma gcra_expiries_eq: "gcra_expiries as = Ok es \<Longrightarrow> es = map (\<lambda>a. int (pa_expires_at_millis a)) as"
  unfolding gcra_expiries_def
  by (induction as arbitrary: es) (auto simp: and_then_eq_Inr ok_or_def database_integer_def split: if_splits)

lemma first_denial_None_conforms:
  assumes "gcra_first_denial maximum now d checks = None" "c \<in> set checks"
  shows "g_conforms c now (gcra_in_force now d (gcra_key c))"
proof -
  obtain i where "i < length checks" "c = checks ! i" using assms(2) by (metis in_set_conv_nth)
  then show ?thesis using assms(1) by (auto simp: gcra_first_denial_def find_None_iff gcra_denial_at_def Let_def split: if_splits)
qed

lemma observed_at_map: "gt_shards d' s = map_option (\<lambda>(n, t). (f n, t)) (gt_shards d s) \<Longrightarrow> observed_at d' s = observed_at d s"
  by (auto simp: observed_at_def split: option.splits)

lemma counter_entry_ok:
  assumes "gcra_tables_ok tab d" "gcra_counter d k = Some (tat, e)"
  shows "gcra_row_constraints k tat e" "gentry_ok (tab (PolicyFingerprint (fst k))) (nat (observed_at d (key_shard k))) tat (nat e)"
  using assms map_of_SomeD [OF assms(2)] by (auto simp: gcra_tables_ok_def)

lemma in_force_tat_ok:
  assumes "gcra_tables_ok tab d" "gc_ok tab c" "observed_at d (key_shard (gcra_key c)) \<le> int now"
  shows "tat_ok c now (tat_of (gcra_in_force now d (gcra_key c)))"
proof (cases "gcra_in_force now d (gcra_key c)")
  case (Some x)
  then obtain tat e where st: "gcra_counter d (gcra_key c) = Some (tat, e)" "x = (\<lparr>ge_tat_scaled = tat\<rparr>, nat e)"
    by (auto simp: gcra_in_force_def split: option.splits if_splits)
  have "gentry_ok (tab (ck_fingerprint (gkey c))) now tat (nat e)"
    using gentry_ok_mono [OF counter_entry_ok(2) [OF assms(1) st(1)], of now] assms(3) by (simp add: gcra_key_def)
  then show ?thesis using Some st gc_ok_entry [OF assms(2)] by simp
qed (simp add: tat_ok_def)

lemma gcra_advanced_ok:
  assumes "gcra_tables_ok tab d" "gc_ok tab c" "observed_at d (key_shard (gcra_key c)) \<le> int now"
    and "g_conforms c now (gcra_in_force now d (gcra_key c))" "gcra_advanced now d c = (tat, e)"
  shows "gentry_ok (tab (PolicyFingerprint (fst (gcra_key c)))) now tat (nat e)"
  using g_next_ok(1) [OF assms(2) in_force_tat_ok [OF assms(1-3)] assms(4)] assms(5)
  by (auto simp: gcra_advanced_def gcra_key_def split: prod.splits)

lemma upsert_counters:
  assumes ok: "gcra_tables_ok tab d" and keys: "distinct (map gcra_key checks)"
    and exps: "gcra_expiries (map (gcra_pend now d) checks) = Ok exps"
    and ups: "UPSERT (gcra_fingerprints checks) (gcra_subjects checks) (gcra_tats (map (gcra_pend now d) checks)) exps d = Ok (d1, n)"
  shows "\<And>k. gcra_counter d1 k = (case List.find (\<lambda>c. gcra_key c = k) checks of None \<Rightarrow> gcra_counter d k | Some c \<Rightarrow> Some (gcra_advanced now d c))"
    and "upsert_ok (gt_counters d1, [], [])" "\<And>s. observed_at d1 s = observed_at d s"
    and "\<And>s. s < CAPACITY_SHARD_COUNT \<Longrightarrow> gt_shards d1 s = Some (int (gcra_rows_in s (gt_counters d1)), observed_at d s) \<and>
        gcra_rows_in s (gt_counters d1) \<le> HARD_MAX_ROWS_PER_SHARD"
proof -
  let ?as = "map (gcra_pend now d) checks"
  obtain cs ins wr shards where ex: "for_each gcra_upsert_row (zip (map gcra_key checks) (zip (gcra_tats ?as) exps)) (gt_counters d, [], []) = Ok (cs, ins, wr)"
    and trig: "for_each gcra_capacity_insert (map key_shard ins) (gt_shards d) = Ok shards"
    and d1: "d1 = \<lparr>gt_counters = cs, gt_shards = shards\<rparr>"
    using ups by (auto simp: UPSERT_def zip_keys and_then_eq_Inr split: prod.splits)
  have exps_eq: "exps = map (\<lambda>c. int (pa_expires_at_millis (gcra_pend now d c))) checks" using gcra_expiries_eq [OF exps] by simp
  have start: "upsert_ok (gt_counters d, [], [])" using ok by (auto simp: upsert_ok_def gcra_tables_ok_def)
  have vals: "zip (map digits_value (gcra_tats ?as)) exps = map (gcra_advanced now d) checks"
    by (simp add: exps_eq gcra_tats_def gcra_pend_def gcra_advanced_def zip_map_map zip_same_conv_map comp_def case_prod_unfold Let_def)
  from gcra_upsert_rows_spec [OF start ex] have up: "upsert_ok (cs, ins, wr)"
    "map_of cs = (map_of (gt_counters d))(map gcra_key checks [\<mapsto>] map (gcra_advanced now d) checks)"
    "\<And>s. gcra_rows_in s cs = gcra_rows_in s (gt_counters d) + in_shard s ins"
    unfolding vals by (auto simp: exps_eq gcra_tats_def)
  show "gcra_counter d1 k = (case List.find (\<lambda>c. gcra_key c = k) checks of None \<Rightarrow> gcra_counter d k | Some c \<Rightarrow> Some (gcra_advanced now d c))" for k
    by (simp add: d1 up(2) map_upds_find [OF keys])
  show "upsert_ok (gt_counters d1, [], [])" using up(1) by (simp add: upsert_ok_def d1)
  note shards = capacity_insert_spec [OF trig]
  show "observed_at d1 s = observed_at d s" for s by (rule observed_at_map) (use shards [of s] d1 in simp)
  show "gt_shards d1 s = Some (int (gcra_rows_in s (gt_counters d1)), observed_at d s) \<and>
      gcra_rows_in s (gt_counters d1) \<le> HARD_MAX_ROWS_PER_SHARD" if "s < CAPACITY_SHARD_COUNT" for s
    using shards [of s] that ok up(3) [of s] by (auto simp: d1 gcra_tables_ok_def HARD_MAX_ROWS_PER_SHARD_def)
qed

lemma gcra_writes_sound:
  assumes ok: "gcra_tables_ok tab d" and checks: "\<forall>c \<in> set checks. gc_ok tab c" and keys: "distinct (map gcra_key checks)"
    and now: "0 \<le> now" "\<forall>c \<in> set checks. observed_at d (key_shard (gcra_key c)) \<le> now"
    and none: "gcra_first_denial maximum (nat now) d checks = None"
    and exps: "gcra_expiries (map (gcra_pend (nat now) d) checks) = Ok exps"
    and ups: "UPSERT (gcra_fingerprints checks) (gcra_subjects checks) (gcra_tats (map (gcra_pend (nat now) d) checks)) exps d = Ok (d1, n)"
    and adv: "ADVANCE_TIME (gcra_shards checks) now d1 = Ok d'"
  shows "gcra_charged now checks d d'" "gcra_tables_ok tab d'"
proof -
  note up = upsert_counters [OF ok keys exps ups]
  have d': "d' = d1\<lparr>gt_shards := (\<lambda>s. if s \<in> set (gcra_shards checks) then map_option (\<lambda>(n, _). (n, now)) (gt_shards d1 s) else gt_shards d1 s)\<rparr>"
    using adv now(1) by (simp add: ADVANCE_TIME_def split: if_splits)
  have obs: "observed_at d' s = (if s \<in> key_shard ` gcra_key ` set checks then now else observed_at d s)" for s
    using up(3) [of s] up(4) [of s] gcra_shards_less [of s checks]
    by (auto simp: d' observed_at_def gcra_shards_facts(1) split: option.splits)
  show "gcra_charged now checks d d'" unfolding gcra_charged_def using up(1) obs by (simp add: d')
  have counter: "gcra_counter d' k = (case List.find (\<lambda>c. gcra_key c = k) checks of None \<Rightarrow> gcra_counter d k | Some c \<Rightarrow> Some (gcra_advanced (nat now) d c))" for k
    using up(1) by (simp add: d')
  have "gentry_ok (tab (PolicyFingerprint (fst k))) (nat (observed_at d' (key_shard k))) tat (nat e)"
    if "gcra_counter d' k = Some (tat, e)" for k tat e
  proof (cases "List.find (\<lambda>c. gcra_key c = k) checks")
    case None
    then have "gcra_counter d k = Some (tat, e)" using counter [of k] that by simp
    moreover have "observed_at d (key_shard k) \<le> observed_at d' (key_shard k)" using obs [of "key_shard k"] now(2) by auto
    ultimately show ?thesis using counter_entry_ok(2) [OF ok] gentry_ok_mono nat_mono by blast
  next
    case (Some c)
    then have c: "c \<in> set checks" "gcra_key c = k" by (auto simp: find_Some_iff)
    then have "gcra_advanced (nat now) d c = (tat, e)" "observed_at d' (key_shard k) = now"
      using Some counter [of k] that obs by auto
    then show ?thesis using gcra_advanced_ok [OF ok, of c "nat now"] first_denial_None_conforms [OF none c(1)] checks c now by auto
  qed
  moreover have "0 \<le> observed_at d' s" for s using obs [of s] now(1) ok by (auto simp: gcra_tables_ok_def)
  moreover have "gt_shards d' s = Some (int (gcra_rows_in s (gt_counters d')), observed_at d' s) \<and>
      gcra_rows_in s (gt_counters d') \<le> HARD_MAX_ROWS_PER_SHARD" if "s < CAPACITY_SHARD_COUNT" for s
    using up(4) [OF that] obs [of s] by (auto simp: d' gcra_shards_facts(1))
  moreover have "distinct (map fst (gt_counters d'))" "\<forall>(k, tat, e) \<in> set (gt_counters d'). gcra_row_constraints k tat e"
    using up(2) by (auto simp: upsert_ok_def d')
  ultimately show "gcra_tables_ok tab d'" unfolding gcra_tables_ok_def by (auto simp: map_of_eq_Some_iff)
qed

lemma gcra_decided_sound:
  assumes ok: "gcra_tables_ok tab d" and checks: "\<forall>c \<in> set checks. gc_ok tab c" and keys: "distinct (map gcra_key checks)"
    and dec: "gcra_decided time_ok LOCK_SHARDS READ_COUNTERS UPSERT ADVANCE_TIME checks maximum build d dec d'"
  shows "\<exists>t. time_ok t \<and> (let now = gcra_batch_time checks d t in
    build (gcra_admission_spec maximum checks (nat now) d) = Ok dec \<and> gcra_effect tab maximum checks now d d')"
proof -
  from dec obtain sample p now where sample: "\<forall>t. sample = Ok t \<longrightarrow> time_ok t" and p: "gcra_pending_of LOCK_SHARDS READ_COUNTERS checks maximum sample d = Ok (p, now)"
    and rest: "case p of
           GP_Denied admission \<Rightarrow> build admission = Ok dec \<and> d' = d
         | GP_Allowed allowances \<Rightarrow>
             \<exists>expiries d1. gcra_expiries allowances = Ok expiries \<and> build (PA_Allowed (map pa_allowance allowances)) = Ok dec \<and>
               UPSERT (gcra_fingerprints checks) (gcra_subjects checks) (gcra_tats allowances) expiries d = Ok (d1, length checks) \<and>
               ADVANCE_TIME (gcra_shards checks) now d1 = Ok d'" unfolding gcra_decided_def by blast
  have gok: "\<forall>c \<in> set checks. gcheck_ok c" using checks by (simp add: gc_ok_def)
  from gcra_pending_spec [OF ok gok p] obtain t where sampled: "sample = Ok t" and t: "now = gcra_batch_time checks d t" "0 \<le> now"
    "\<forall>c \<in> set checks. observed_at d (key_shard (gcra_key c)) \<le> now"
    "p = (case gcra_first_denial maximum (nat now) d checks of Some x \<Rightarrow> GP_Denied x | None \<Rightarrow> GP_Allowed (map (gcra_pend (nat now) d) checks))"
    by blast
  have "build (gcra_admission_spec maximum checks (nat now) d) = Ok dec \<and> gcra_effect tab maximum checks now d d'"
  proof (cases "gcra_first_denial maximum (nat now) d checks")
    case None
    have "pa_allowance \<circ> gcra_pend (nat now) d = (\<lambda>c. g_allowance c (nat now) (gcra_in_force (nat now) d (gcra_key c)))"
      by (auto simp: gcra_pend_def Let_def)
    then show ?thesis using rest t None gcra_writes_sound [OF ok checks keys t(2,3) None]
      by (auto simp: gcra_admission_spec_def gcra_effect_def)
  next
    case (Some x)
    then show ?thesis using rest t ok by (simp add: gcra_admission_spec_def gcra_effect_def)
  qed
  then show ?thesis using t(1) sample sampled by (auto simp: Let_def)
qed

end
