(* ===== verification/Postgres_Gcra_Server.thy ===== *)
theory Postgres_Gcra_Server
  imports Postgres_Gcra_Correct Postgres_Server
begin

text \<open>
  The server of \<open>Postgres_World\<close> with the statements of \<open>gcra.rs\<close>, the interpretation of the interfaces on
  it, what cleanup removes, and the properties of the public operations of \<open>PostgresGcraLimiter\<close>.
\<close>

section \<open>The server\<close>

definition gcra_sql_server :: "gcra_tables sql_world gcra_server" where
  "gcra_sql_server =
     \<lparr>gv_session = sql_session,
      gv_lock_shards = (\<lambda>shards. sql_statement (\<lambda>_ _ w. Ok (w, LOCK_SHARDS shards (sw_tx w)))),
      gv_sample_time = sql_statement (\<lambda>now _ w. and_then (SAMPLE_TIME now) (\<lambda>t. Ok (w, Ok t))),
      gv_read_counters = (\<lambda>fps subs. sql_statement (\<lambda>_ _ w. Ok (w, READ_COUNTERS fps subs (sw_tx w)))),
      gv_upsert = (\<lambda>fps subs tats exps. sql_statement (\<lambda>_ _ w.
        and_then (UPSERT fps subs tats exps (sw_tx w)) (\<lambda>(d, rows). Ok (w\<lparr>sw_tx := d\<rparr>, rows)))),
      gv_advance = (\<lambda>shards now. sql_statement (\<lambda>_ _ w.
        and_then (ADVANCE_TIME shards now (sw_tx w)) (\<lambda>d. Ok (w\<lparr>sw_tx := d\<rparr>, ())))),
      gv_cleanup_locks = sql_statement (\<lambda>now _ w.
        and_then (SAMPLE_TIME now) (\<lambda>t. Ok (w, map Ok (CLEANUP_LOCKS (sw_locked w now \<circ> Shard_Lock) t (sw_tx w))))),
      gv_cleanup_advance = (\<lambda>shards. sql_statement (\<lambda>now _ w.
        and_then (SAMPLE_TIME now) (\<lambda>t. and_then (CLEANUP_ADVANCE_TIME t shards (sw_tx w)) (\<lambda>d. Ok (w\<lparr>sw_tx := d\<rparr>, ()))))),
      gv_cleanup_delete = (\<lambda>shards n. sql_statement (\<lambda>_ _ w.
        and_then (CLEANUP_DELETE shards n (sw_tx w)) (\<lambda>(d, rows). Ok (w\<lparr>sw_tx := d\<rparr>, rows))))\<rparr>"

lemma gcra_session [simp]: "gv_session gcra_sql_server = sql_session"
  by (simp add: gcra_sql_server_def)

interpretation gsql: pg_gcra_database gcra_sql_server sw_db sw_tx "clock_in T" "sampled T" LOCK_SHARDS READ_COUNTERS UPSERT ADVANCE_TIME for T
  unfolding pg_gcra_database_def gcra_session
proof (intro conjI sql_session.pg_session_axioms, unfold_locales, goal_cases)
  case (1 shards w w' a)
  then show ?case using sql_statement_read [of "\<lambda>_ _. LOCK_SHARDS shards" w w' a T] by (simp add: gcra_sql_server_def)
next
  case (2 w w' b)
  then show ?case using sql_statement_law [of _ w w' b T "\<lambda>x d. d = sw_tx w \<and> (\<forall>t. x = Ok t \<longrightarrow> sampled T t)"]
    by (fastforce simp: gcra_sql_server_def and_then_eq_Inr sampled_def)
next
  case (3 fps subs w w' c)
  then show ?case using sql_statement_read [of "\<lambda>_ _. READ_COUNTERS fps subs" w w' c T] by (simp add: gcra_sql_server_def)
next
  case (4 fps subs tats exps w w' e)
  then show ?case using sql_statement_write [of "\<lambda>_ _ _. UPSERT fps subs tats exps" w w' e T] by (fastforce simp: gcra_sql_server_def)
next
  case (5 shards t w w' u)
  then show ?case using sql_statement_law [of _ w w' u T "\<lambda>_ d. ADVANCE_TIME shards t (sw_tx w) = Ok d"]
    by (fastforce simp: gcra_sql_server_def and_then_eq_Inr)
qed

text \<open>The shards that other sessions hold at a reading of the clock, and the time sampled there.\<close>

definition locks_at :: "(timestamp \<Rightarrow> bool) \<Rightarrow> (timestamp \<Rightarrow> sql_lock \<Rightarrow> bool) \<Rightarrow> (nat \<Rightarrow> bool) \<times> int \<Rightarrow> bool" where
  "locks_at T locked = (\<lambda>(held, t). \<exists>now. T now \<and> SAMPLE_TIME now = Ok t \<and> held = locked now \<circ> Shard_Lock)"

interpretation gsql_clean: pg_gcra_maintained gcra_sql_server sw_db sw_tx "server_in T locked" "locks_at T locked" "sampled T"
    "\<lambda>(held, t). CLEANUP_LOCKS held t" CLEANUP_ADVANCE_TIME CLEANUP_DELETE
  for T locked
  unfolding pg_gcra_maintained_def gcra_session
proof (intro conjI locked_session.pg_session_axioms, unfold_locales, goal_cases)
  case (1 w w' a)
  then show ?case using sql_statement_law [of _ w w' a T "\<lambda>rows d. d = sw_tx w \<and> (\<exists>now t. T now \<and> SAMPLE_TIME now = Ok t \<and>
      rows = map Ok (CLEANUP_LOCKS (sw_locked w now \<circ> Shard_Lock) t (sw_tx w)))"]
    by (fastforce simp: gcra_sql_server_def server_in_def locks_at_def and_then_eq_Inr inj_map_eq_map [OF inj_Inr])
next
  case (2 shards w w' b)
  then show ?case using sql_statement_law [of _ w w' b T "\<lambda>_ d. \<exists>t. sampled T t \<and> CLEANUP_ADVANCE_TIME t shards (sw_tx w) = Ok d"]
    by (fastforce simp: gcra_sql_server_def server_in_def sampled_def and_then_eq_Inr)
next
  case (3 shards n w w' c)
  then show ?case using sql_statement_write [of "\<lambda>_ _ _. CLEANUP_DELETE shards n" w w' c T]
    by (fastforce simp: gcra_sql_server_def server_in_def)
qed

section \<open>Cleanup\<close>

lemma capacity_delete_spec:
  assumes "for_each gcra_capacity_delete (map key_shard ks) shards = Ok shards'"
  shows "shards' s = map_option (\<lambda>(n, t). (n - int (in_shard s ks), t)) (shards s)"
  using assms
proof (induction ks arbitrary: shards)
  case (Cons k ks)
  then obtain shards1 where s1: "gcra_capacity_delete (key_shard k) shards = Ok shards1"
    "for_each gcra_capacity_delete (map key_shard ks) shards1 = Ok shards'" by (auto simp: and_then_eq_Inr)
  then have "shards1 = shards(key_shard k := map_option (\<lambda>(n, t). (n - 1, t)) (shards (key_shard k)))"
    by (auto simp: gcra_capacity_delete_def split: option.splits if_splits)
  then show ?case using Cons.IH [OF s1(2)] by (auto simp: option.map_comp comp_def case_prod_unfold algebra_simps)
qed (simp add: option.map_ident split_def)

lemma gcra_tables_ok_shrink:
  assumes ok: "gcra_tables_ok tab d" and sub: "set (gt_counters d') \<subseteq> set (gt_counters d)" and dist: "distinct (map fst (gt_counters d'))"
    and mono: "\<And>s. observed_at d s \<le> observed_at d' s" and rows: "\<And>s. gcra_rows_in s (gt_counters d') \<le> gcra_rows_in s (gt_counters d)"
    and ledger: "\<And>s. s < CAPACITY_SHARD_COUNT \<Longrightarrow> gt_shards d' s = Some (int (gcra_rows_in s (gt_counters d')), observed_at d' s)"
  shows "gcra_tables_ok tab d'"
  unfolding gcra_tables_ok_def
proof (intro conjI allI impI ballI)
  show "distinct (map fst (gt_counters d'))" by (rule dist)
  show "gt_shards d' s = Some (int (gcra_rows_in s (gt_counters d')), observed_at d' s)" if "s < CAPACITY_SHARD_COUNT" for s
    using ledger [OF that] .
  show "gcra_rows_in s (gt_counters d') \<le> HARD_MAX_ROWS_PER_SHARD" if "s < CAPACITY_SHARD_COUNT" for s
    using ok that le_trans [OF rows] by (simp add: gcra_tables_ok_def)
  show "0 \<le> observed_at d' s" for s using ok order_trans [OF _ mono] by (simp add: gcra_tables_ok_def)
  fix x assume "x \<in> set (gt_counters d')"
  moreover obtain k tat e where x: "x = (k, tat, e)" by (cases x)
  ultimately have c: "gcra_counter d k = Some (tat, e)" using sub ok by (auto simp: gcra_tables_ok_def)
  show "case x of (k, tat, e) \<Rightarrow> gcra_row_constraints k tat e \<and>
      gentry_ok (tab (PolicyFingerprint (fst k))) (nat (observed_at d' (key_shard k))) tat (nat e)"
    using counter_entry_ok [OF ok c] gentry_ok_mono [OF _ nat_mono [OF mono]] by (auto simp: x)
qed

lemma cleanup_advance_sound:
  assumes ok: "gcra_tables_ok tab d" and shards: "\<forall>s \<in> set shards. s < CAPACITY_SHARD_COUNT"
    and adv: "CLEANUP_ADVANCE_TIME t shards d = Ok d1"
  shows "gcra_tables_ok tab d1" "gt_counters d1 = gt_counters d" "\<And>s. observed_at d s \<le> observed_at d1 s"
proof -
  define T where "T = max t (fold max (map (observed_at d) shards) 0)"
  have T: "0 \<le> T" "\<And>s. s \<in> set shards \<Longrightarrow> observed_at d s \<le> T"
    using fold_max_int_ge(1) [of 0 "map (observed_at d) shards"] fold_max_int_ge(2) [of _ "map (observed_at d) shards" 0]
    unfolding T_def le_max_iff_disj by auto
  have d1: "d1 = d\<lparr>gt_shards := (\<lambda>s. if s \<in> set shards then map_option (\<lambda>(n, _). (n, T)) (gt_shards d s) else gt_shards d s)\<rparr>"
    using adv T(1) by (simp add: CLEANUP_ADVANCE_TIME_def ADVANCE_TIME_def T_def [symmetric] split: if_splits)
  show cs: "gt_counters d1 = gt_counters d" by (simp add: d1)
  have shards_some: "gt_shards d s \<noteq> None" if "s \<in> set shards" for s using ok shards that by (auto simp: gcra_tables_ok_def)
  have obs: "observed_at d1 s = (if s \<in> set shards then T else observed_at d s)" for s
    by (cases "s \<in> set shards") (use shards_some [of s] in \<open>auto simp: d1 observed_at_def split: option.splits\<close>)
  show mono: "observed_at d s \<le> observed_at d1 s" for s using obs T(2) by simp
  have "gt_shards d1 s = Some (int (gcra_rows_in s (gt_counters d1)), observed_at d1 s)" if "s < CAPACITY_SHARD_COUNT" for s
    using ok that obs [of s] by (auto simp: gcra_tables_ok_def cs d1)
  moreover have "distinct (map fst (gt_counters d1))" using ok by (simp add: gcra_tables_ok_def cs)
  ultimately show "gcra_tables_ok tab d1" by (intro gcra_tables_ok_shrink [OF ok]) (simp_all add: cs mono)
qed

lemma distinct_concat_map:
  "distinct ss \<Longrightarrow> (\<And>s. distinct (f s)) \<Longrightarrow> (\<And>s t x. x \<in> set (f s) \<Longrightarrow> x \<in> set (f t) \<Longrightarrow> s = t) \<Longrightarrow> distinct (concat (map f ss))"
  by (induction ss) auto

lemma cleanup_candidates_facts:
  assumes "distinct (gt_counters d)"
  shows "distinct (cleanup_candidates shards n d)" "length (cleanup_candidates shards n d) \<le> n"
    "set (cleanup_candidates shards n d) \<subseteq> {(k, tat, e) \<in> set (gt_counters d). e \<le> observed_at d (key_shard k) \<and> key_shard k \<in> set shards}"
proof -
  show "length (cleanup_candidates shards n d) \<le> n" by (simp add: cleanup_candidates_def Let_def)
  show "distinct (cleanup_candidates shards n d)" unfolding cleanup_candidates_def Let_def
    by (intro distinct_take, unfold distinct_sort, rule distinct_concat_map)
      (use assms in \<open>auto simp: expired_in_def distinct_take dest!: in_set_takeD\<close>)
  show "set (cleanup_candidates shards n d) \<subseteq> {(k, tat, e) \<in> set (gt_counters d). e \<le> observed_at d (key_shard k) \<and> key_shard k \<in> set shards}"
    unfolding cleanup_candidates_def Let_def by (auto simp: expired_in_def dest!: in_set_takeD)
qed

definition gcra_cleaned :: "rate_table \<Rightarrow> gcra_tables \<Rightarrow> gcra_tables \<Rightarrow> bool" where
  "gcra_cleaned tab d d' \<longleftrightarrow> gcra_tables_ok tab d' \<and>
     (\<forall>k. gcra_counter d' k = gcra_counter d k \<or>
        gcra_counter d' k = None \<and> (\<exists>tat e. gcra_counter d k = Some (tat, e) \<and> e \<le> observed_at d' (key_shard k))) \<and>
     (\<forall>s. observed_at d s \<le> observed_at d' s)"

lemma gcra_cleaned_counter: "gcra_cleaned tab d d' \<Longrightarrow> gcra_counter d' k = Some x \<Longrightarrow> gcra_counter d k = Some x"
  unfolding gcra_cleaned_def by (metis option.distinct(1))

lemma gcra_cleaned_advanced:
  assumes "gcra_cleaned tab d1 d'" "gt_counters d1 = gt_counters d" "\<And>s. observed_at d s \<le> observed_at d1 s"
  shows "gcra_cleaned tab d d'"
proof -
  have "observed_at d s \<le> observed_at d' s" for s using assms(1,3) order_trans unfolding gcra_cleaned_def by blast
  then show ?thesis using assms(1) unfolding gcra_cleaned_def assms(2) by simp
qed

lemma rows_in_filter: "gcra_rows_in s (filter (\<lambda>(k, _). \<not> P k) cs) + gcra_rows_in s (filter (\<lambda>(k, _). P k) cs) = gcra_rows_in s cs"
  by (induction cs) (auto simp: gcra_rows_in_def)

lemma cleanup_delete_sound:
  assumes ok: "gcra_tables_ok tab d" and del: "CLEANUP_DELETE shards n d = Ok (d', rows)"
  shows "gcra_cleaned tab d d'" "rows = length (cleanup_candidates shards n d)"
    "length (gt_counters d') + rows = length (gt_counters d)" "\<And>s. observed_at d' s = observed_at d s"
    "\<And>k. gcra_counter d' k = (if k \<in> fst ` set (cleanup_candidates shards n d) then None else gcra_counter d k)"
proof -
  let ?cs = "gt_counters d" and ?cand = "cleanup_candidates shards n d"
  let ?gone = "\<lambda>k. k \<in> fst ` set ?cand" and ?del = "filter (\<lambda>(k, _). k \<in> fst ` set (cleanup_candidates shards n d)) (gt_counters d)"
  have dist: "distinct (map fst ?cs)" using ok by (simp add: gcra_tables_ok_def)
  then have "distinct ?cs" by (simp add: distinct_map)
  note cand = cleanup_candidates_facts [OF this, of shards n]
  from del obtain shards' where trig: "for_each gcra_capacity_delete (map key_shard (map fst ?del)) (gt_shards d) = Ok shards'"
    and d': "d' = \<lparr>gt_counters = filter (\<lambda>(k, _). \<not> ?gone k) ?cs, gt_shards = shards'\<rparr>" and rows: "rows = length ?del"
    by (auto simp: CLEANUP_DELETE_def Let_def and_then_eq_Inr case_prod_unfold comp_def)
  have gone: "gcra_counter d k = Some (tat, e) \<and> e \<le> observed_at d (key_shard k)" if "(k, tat, e) \<in> set ?cand" for k tat e
    using cand(3) that dist by (auto simp: map_of_eq_Some_iff)
  have "set ?del = set ?cand"
  proof (intro set_eqI iffI; clarsimp)
    fix a b tat e tat' e' assume "((a, b), tat, e) \<in> set ?cs" and c: "((a, b), tat', e') \<in> set ?cand"
    then have "gcra_counter d (a, b) = Some (tat, e)" using dist by simp
    then show "((a, b), tat, e) \<in> set ?cand" using gone [OF c] c by simp
  next
    fix a b tat e assume "((a, b), tat, e) \<in> set ?cand"
    then show "((a, b), tat, e) \<in> set ?cs \<and> (a, b) \<in> fst ` set ?cand" using cand(3) by force
  qed
  then show "rows = length ?cand" using rows cand(1) \<open>distinct ?cs\<close> by (metis distinct_card distinct_filter)
  show "length (gt_counters d') + rows = length ?cs" 
    using sum_length_filter_compl [of "\<lambda>(k, _). ?gone k" ?cs] by (simp add: d' rows case_prod_unfold)
  have shards: "shards' s = map_option (\<lambda>(m, t). (m - int (gcra_rows_in s ?del), t)) (gt_shards d s)" for s
    using capacity_delete_spec [OF trig] by (simp add: rows_in_keys)
  show obs: "observed_at d' s = observed_at d s" for s by (rule observed_at_map) (use shards in \<open>simp add: d'\<close>)
  have left: "gcra_rows_in s (gt_counters d') + gcra_rows_in s ?del = gcra_rows_in s ?cs" for s
    using rows_in_filter [of s ?gone ?cs] by (simp add: d')
  have "gt_shards d' s = Some (int (gcra_rows_in s (gt_counters d')), observed_at d' s)" if "s < CAPACITY_SHARD_COUNT" for s
    using that ok left [of s] shards [of s] obs [of s] by (auto simp: gcra_tables_ok_def d')
  moreover have "gcra_rows_in s (gt_counters d') \<le> gcra_rows_in s ?cs" for s using left [of s] by simp
  moreover have "set (gt_counters d') \<subseteq> set ?cs" "distinct (map fst (gt_counters d'))" using dist by (auto simp: d' distinct_map_filter)
  ultimately have "gcra_tables_ok tab d'" by (intro gcra_tables_ok_shrink [OF ok]) (simp_all add: obs)
  moreover show kept: "gcra_counter d' k = (if ?gone k then None else gcra_counter d k)" for k
    using map_of_filter_keys [of "\<lambda>k. \<not> ?gone k" ?cs k] by (simp add: d')
  moreover have "\<exists>tat e. gcra_counter d k = Some (tat, e) \<and> e \<le> observed_at d (key_shard k)" if "?gone k" for k
    using that gone by (auto simp del: split_paired_Ex)
  ultimately show "gcra_cleaned tab d d'" using kept unfolding gcra_cleaned_def obs by (metis order_refl)
qed

text \<open>With slots to spare in its limit, a deletion leaves no expired counter in the locked shards.\<close>

lemma take_short: "length (take n xs) < n \<Longrightarrow> take n xs = xs"
  by simp

lemma length_in_concat: "xs \<in> set xss \<Longrightarrow> length xs \<le> length (concat xss)"
  by (induction xss) auto

lemma cleanup_candidates_all:
  assumes "length (cleanup_candidates shards n d) < n" "(k, tat, e) \<in> set (gt_counters d)"
    and "e \<le> observed_at d (key_shard k)" "key_shard k \<in> set shards" "gt_shards d (key_shard k) \<noteq> None"
  shows "(k, tat, e) \<in> set (cleanup_candidates shards n d)"
proof -
  let ?by = "\<lambda>(_, _, expires). expires" and ?s = "key_shard k"
  let ?f = "\<lambda>s. sort_key ?by (expired_in s (observed_at d s) d)"
  let ?ss = "filter (\<lambda>s. s \<in> set shards \<and> gt_shards d s \<noteq> None) [0..<CAPACITY_SHARD_COUNT]"
  let ?all = "concat (map (\<lambda>s. take n (?f s)) ?ss)"
  have cand: "cleanup_candidates shards n d = take n (sort_key ?by ?all)" by (simp add: cleanup_candidates_def Let_def)
  from assms(1) have all: "length ?all < n" unfolding cand by simp
  then have "cleanup_candidates shards n d = sort_key ?by ?all" unfolding cand by simp
  then have "set (cleanup_candidates shards n d) = set ?all" by (simp only: set_sort)
  moreover have "?s \<in> set ?ss" using assms(4,5) key_shard_less by simp
  moreover from this have "length (take n (?f ?s)) < n"
    using all length_in_concat [of "take n (?f ?s)" "map (\<lambda>s. take n (?f s)) ?ss"] by (auto intro: le_less_trans)
  then have eq: "take n (?f ?s) = ?f ?s" by (rule take_short)
  have "(k, tat, e) \<in> set (take n (?f ?s))" using assms(2,3) unfolding eq by (simp add: expired_in_def)
  ultimately show ?thesis by (simp only: set_concat set_map) (rule UN_I [OF imageI], simp_all)
qed

lemma cleanup_delete_complete:
  assumes ok: "gcra_tables_ok tab d" and del: "CLEANUP_DELETE shards n d = Ok (d', rows)" and rows: "rows < n"
    and counter: "gcra_counter d' k = Some (tat, e)" and shard: "key_shard k \<in> set shards"
  shows "observed_at d' (key_shard k) < e"
proof (rule ccontr)
  assume late: "\<not> observed_at d' (key_shard k) < e"
  note del' = cleanup_delete_sound [OF ok del]
  have kept: "k \<notin> fst ` set (cleanup_candidates shards n d)" and c: "gcra_counter d k = Some (tat, e)"
    using del'(5) [of k] counter by (auto simp only: split: if_splits)
  have "(k, tat, e) \<in> set (cleanup_candidates shards n d)"
    using late rows del'(2,4) map_of_SomeD [OF c] shard ok key_shard_less
    by (intro cleanup_candidates_all) (auto simp: gcra_tables_ok_def)
  with kept show False by force
qed

text \<open>A whole cleanup: the shards with expired counters are found, their clocks advanced, expired counters deleted.\<close>

lemma fold_max_member: "fold max xs (a :: int) \<in> insert a (set xs)"
  by (induction xs arbitrary: a) (simp, metis fold_simps(2) insert_iff list.set_intros max_def set_subset_Cons subsetD)

lemma advance_time_range:
  assumes ok: "gcra_tables_ok tab d" and adv: "CLEANUP_ADVANCE_TIME u shards d = Ok d1"
  shows "observed_at d1 s \<in> insert u (range (observed_at d))"
proof (cases "s \<in> set shards \<and> gt_shards d s \<noteq> None")
  case True
  let ?m = "fold max (map (observed_at d) shards) 0"
  have "observed_at d1 s = max u ?m" using adv True
    by (auto simp: CLEANUP_ADVANCE_TIME_def ADVANCE_TIME_def observed_at_def split: if_splits)
  moreover have "?m \<in> range (observed_at d)"
  proof (cases "?m = 0")
    case zero: True
    have "observed_at d s \<le> ?m" using True by (intro fold_max_int_ge(2)) simp
    moreover have "0 \<le> observed_at d s" using ok by (simp add: gcra_tables_ok_def)
    ultimately have "?m = observed_at d s" using zero by linarith
    then show ?thesis by (rule range_eqI)
  qed (use fold_max_member [of "map (observed_at d) shards" 0] in auto)
  ultimately show ?thesis by (auto simp: max_def)
next
  case False
  then have "gt_shards d1 s = gt_shards d s" using adv
    by (cases "gt_shards d s") (auto simp: CLEANUP_ADVANCE_TIME_def ADVANCE_TIME_def split: if_splits)
  then have "observed_at d1 s = observed_at d s" by (simp add: observed_at_def)
  then show ?thesis by simp
qed

lemma gcra_removed_sound:
  assumes ok: "gcra_tables_ok tab d" and rem: "gsql_clean.removed T locked n d rows d'"
  shows "gcra_cleaned tab d d'" "rows \<le> n" "length (gt_counters d') + rows = length (gt_counters d)"
    "\<exists>u. sampled T u \<and> (\<forall>s. observed_at d' s \<in> insert u (range (observed_at d)))"
    "\<exists>now. T now \<and> (rows < n \<longrightarrow> (\<forall>k tat e. gcra_counter d' k = Some (tat, e) \<longrightarrow> \<not> locked now (Shard_Lock (key_shard k)) \<longrightarrow>
       observed_at d' (key_shard k) < e))"
proof -
  from rem obtain now t u d1 where T: "T now" "sampled T u"
    and adv: "CLEANUP_ADVANCE_TIME u (CLEANUP_LOCKS (locked now \<circ> Shard_Lock) t d) d = Ok d1"
    and del: "CLEANUP_DELETE (CLEANUP_LOCKS (locked now \<circ> Shard_Lock) t d) n d1 = Ok (d', rows)" by (auto simp: locks_at_def)
  let ?locks = "CLEANUP_LOCKS (locked now \<circ> Shard_Lock) t d"
  have "\<forall>s \<in> set ?locks. s < CAPACITY_SHARD_COUNT" by (simp add: CLEANUP_LOCKS_def)
  note a = cleanup_advance_sound [OF ok this adv]
  note b = cleanup_delete_sound [OF a(1) del]
  show cleaned: "gcra_cleaned tab d d'" by (rule gcra_cleaned_advanced [OF b(1) a(2,3)])
  show "length (gt_counters d') + rows = length (gt_counters d)" using b(3) a(2) by simp
  have "distinct (gt_counters d1)" using a(1) by (simp add: gcra_tables_ok_def distinct_map)
  from cleanup_candidates_facts(2) [OF this] b(2) show "rows \<le> n" by simp
  show "\<exists>u. sampled T u \<and> (\<forall>s. observed_at d' s \<in> insert u (range (observed_at d)))"
    using T(2) advance_time_range [OF ok adv] b(4) by auto
  have "observed_at d' (key_shard k) < e"
    if short: "rows < n" and k: "gcra_counter d' k = Some (tat, e)" and free: "\<not> locked now (Shard_Lock (key_shard k))" for k tat e
  proof (cases "key_shard k \<in> set ?locks")
    case True
    from cleanup_delete_complete [OF a(1) del short k this] show ?thesis .
  next
    case False
    then have unlocked: "expired_in (key_shard k) (max t (observed_at d (key_shard k))) d = []"
      using ok key_shard_less free by (auto simp: CLEANUP_LOCKS_def gcra_tables_ok_def)
    from map_of_SomeD [OF gcra_cleaned_counter [OF cleaned k]] unlocked have "observed_at d (key_shard k) < e" by (force simp: expired_in_def filter_empty_conv)
    moreover have "observed_at d1 (key_shard k) = observed_at d (key_shard k)"
      using adv False by (auto simp: CLEANUP_ADVANCE_TIME_def ADVANCE_TIME_def observed_at_def split: if_splits)
    ultimately show ?thesis using b(4) by simp
  qed
  then show "\<exists>now. T now \<and> (rows < n \<longrightarrow> (\<forall>k tat e. gcra_counter d' k = Some (tat, e) \<longrightarrow> \<not> locked now (Shard_Lock (key_shard k)) \<longrightarrow>
       observed_at d' (key_shard k) < e))" using T(1) by blast
qed

end
