(* ===== verification/Postgres_Gcra_Limits.thy ===== *)
theory Postgres_Gcra_Limits
  imports Postgres_Gcra_Server Memory_Gcra_Limits
begin

text \<open>
  What the public operations of \<open>PostgresGcraLimiter\<close> guarantee on the tables, whatever the server's clock
  does and whichever statements and replies are lost: each batch is the exact GCRA transition at one
  time, or nothing; cleanup never changes what a counter still owes; and over any history of replicas
  each counter keeps its rate.
\<close>

section \<open>One operation\<close>

definition gcra_outcome where
  "gcra_outcome T tab maximum checks build d dec d' \<longleftrightarrow>
     (\<exists>t. sampled T t \<and> (let now = gcra_batch_time checks d t in
        build (gcra_admission_spec maximum checks (nat now) d) = Ok dec \<and> gcra_effect tab maximum checks now d d'))"

text \<open>What an error may have done: nothing, or, when it says so, the whole batch.\<close>

definition gcra_possible_effect where
  "gcra_possible_effect T tab maximum checks e d d' \<longleftrightarrow>
     d' = d \<or>
     CheckError_consumption e = PossiblyConsumed \<and>
       (\<exists>t. sampled T t \<and> (let now = gcra_batch_time checks d t in
          gcra_first_denial maximum (nat now) d checks = None \<and> gcra_effect tab maximum checks now d d'))"

lemma gcra_key_distinct:
  assumes "distinct (map gkey checks)"
  shows "distinct (map gcra_key checks)"
proof -
  have "inj (\<lambda>k. (fingerprint_bytes (ck_fingerprint k), subject_bytes (ck_subject k)))"
    by (rule injI) (auto intro!: counter_key.expand policy_fingerprint.expand subject_key.expand)
  moreover have "map gcra_key checks = map (\<lambda>k. (fingerprint_bytes (ck_fingerprint k), subject_bytes (ck_subject k))) (map gkey checks)"
    by (simp add: gcra_key_def chk_counter_key_def)
  ultimately show ?thesis using assms by (simp only: distinct_map inj_on_subset [OF _ subset_UNIV] simp_thms)
qed

lemma gcra_honest_possible:
  "honest (gcra_outcome T tab maximum checks build d) d e d' \<Longrightarrow> gcra_possible_effect T tab maximum checks e d d'"
  unfolding honest_def gcra_outcome_def gcra_effect_def gcra_possible_effect_def Let_def by (fastforce split: option.splits)

lemma gcra_run_sound:
  assumes clock: "clock_in T w" and ok: "gcra_tables_ok tab (sw_db w)" and checks: "\<forall>c \<in> set checks. gc_ok tab c" and keys: "distinct (map gkey checks)"
    and build: "\<And>adm e. build adm = Inl e \<Longrightarrow> CheckError_consumption e = NotConsumed"
  shows "case gcra_run gcra_sql_server config checks build w of
      (w', None) \<Rightarrow> False
    | (w', Some (Ok dec)) \<Rightarrow> gcra_outcome T tab (pg_maximum_rows_per_shard config) checks build (sw_db w) dec (sw_db w')
    | (w', Some (Err e)) \<Rightarrow> gcra_possible_effect T tab (pg_maximum_rows_per_shard config) checks e (sw_db w) (sw_db w')"
proof -
  let ?max = "pg_maximum_rows_per_shard config"
  have decided: "gsql.decides T checks ?max build (sw_db w) dec d' \<Longrightarrow> gcra_outcome T tab ?max checks build (sw_db w) dec d'" for dec d'
    using gcra_decided_sound [OF ok checks gcra_key_distinct [OF keys]] by (simp add: gcra_outcome_def)
  then have uncertain: "honest (gsql.decides T checks ?max build (sw_db w)) (sw_db w) e d' \<Longrightarrow>
      gcra_possible_effect T tab ?max checks e (sw_db w) d'" for e d'
    by (intro gcra_honest_possible [where build = build]) (auto simp: honest_def)
  have "triple (\<lambda>w'. clock_in T w' \<and> sw_db w' = sw_db w) (gcra_run gcra_sql_server config checks build)
     (\<lambda>dec w'. gcra_outcome T tab ?max checks build (sw_db w) dec (sw_db w'))
     (\<lambda>e w'. gcra_possible_effect T tab ?max checks e (sw_db w) (sw_db w'))"
    by (rule triple_weaken [OF gsql.gcra_run_triple [where T = T, OF build]]) (auto intro: decided uncertain)
  from tripleD [OF this] clock show ?thesis by simp
qed

lemma gcra_check_all_outcome:
  assumes "clock_in T w" "gcra_tables_ok tab (sw_db w)" "\<forall>c \<in> set checks. gc_ok tab c"
  shows "case gcra_check_all_result gcra_sql_server config checks w of
      (w', None) \<Rightarrow> False
    | (w', Some (Ok decision)) \<Rightarrow> batch_ok GcraPolicy (pg_max_batch_size config) checks \<and>
        gcra_outcome T tab (pg_maximum_rows_per_shard config) checks (batch_decision_of (length checks)) (sw_db w) decision (sw_db w')
    | (w', Some (Err (PgInvalidBatch e))) \<Rightarrow> \<not> batch_ok GcraPolicy (pg_max_batch_size config) checks \<and> w' = w
    | (w', Some (Err (PgCheck e))) \<Rightarrow> batch_ok GcraPolicy (pg_max_batch_size config) checks \<and>
        gcra_possible_effect T tab (pg_maximum_rows_per_shard config) checks e (sw_db w) (sw_db w')"
proof (cases "validate_batch GcraPolicy checks (pg_max_batch_size config)")
  case (Inl e)
  then have "\<not> batch_ok GcraPolicy (pg_max_batch_size config) checks"
    using validate_batch_Ok [of GcraPolicy checks "pg_max_batch_size config"] by auto
  then show ?thesis using Inl by (simp add: gcra_check_all_result_def)
next
  case (Inr u)
  then have b: "batch_ok GcraPolicy (pg_max_batch_size config) checks"
    using validate_batch_Ok [of GcraPolicy checks "pg_max_batch_size config"] by auto
  then have "distinct (map gkey checks)" by (simp add: batch_ok_def)
  from gcra_run_sound [OF assms this, of "batch_decision_of (length checks)" config]
  show ?thesis using Inr build_error_not_consumed(2) b
    by (fastforce simp: gcra_check_all_result_def split: prod.splits option.splits sum.splits)
qed

text \<open>What a cleanup of up to \<open>n\<close> counters did: the counters that are gone had expired, no shard's clock moved to a time
  that neither the server's clock nor another shard showed, and unless it used up its limit, what is left in the
  shards that no other session had locked has not expired.\<close>

definition gcra_swept where
  "gcra_swept T locked tab n d d' rows \<longleftrightarrow> gcra_cleaned tab d d' \<and> rows \<le> n \<and>
     length (gt_counters d') + rows = length (gt_counters d) \<and>
     (\<exists>u. sampled T u \<and> (\<forall>s. observed_at d' s \<in> insert u (range (observed_at d)))) \<and>
     (\<exists>now. T now \<and> (rows < n \<longrightarrow> (\<forall>k tat e. gcra_counter d' k = Some (tat, e) \<longrightarrow> \<not> locked now (Shard_Lock (key_shard k)) \<longrightarrow>
        observed_at d' (key_shard k) < e)))"

lemma gcra_cleanup_outcome:
  assumes "clock_in T w" "gcra_tables_ok tab (sw_db w)"
  shows "case gcra_cleanup gcra_sql_server config n w of
      (w', None) \<Rightarrow> False
    | (w', Some (Ok rows)) \<Rightarrow> if n = 0 then rows = 0 \<and> sw_db w' = sw_db w else gcra_swept T (sw_locked w) tab n (sw_db w) (sw_db w') rows
    | (w', Some (Err e)) \<Rightarrow>
        sw_db w' = sw_db w \<or> may_have_removed_rows e \<and> (\<exists>rows. gcra_swept T (sw_locked w) tab n (sw_db w) (sw_db w') rows)"
proof -
  let ?S = "gcra_swept T (sw_locked w) tab n (sw_db w)"
  have swept: "?S d' rows" if "gsql_clean.removed T (sw_locked w) n (sw_db w) rows d'" for rows d'
    unfolding gcra_swept_def by (intro conjI gcra_removed_sound [OF assms(2) that])
  have "triple (\<lambda>w'. server_in T (sw_locked w) w' \<and> sw_db w' = sw_db w) (gcra_cleanup gcra_sql_server config n)
     (\<lambda>rows w'. if n = 0 then rows = 0 \<and> sw_db w' = sw_db w else ?S (sw_db w') rows)
     (\<lambda>e w'. sw_db w' = sw_db w \<or> may_have_removed_rows e \<and> (\<exists>rows. ?S (sw_db w') rows))"
  proof (rule triple_weaken [OF gsql_clean.gcra_cleanup_triple [of T "sw_locked w" "sw_db w"]], goal_cases)
    case (2 rows w')
    then show ?case using swept by (simp split: if_splits)
  next
    case (3 e w')
    then show ?case unfolding cleanup_honest_def using swept by metis
  qed simp
  from tripleD [OF this] assms(1) show ?thesis by (simp add: server_in_def)
qed

text \<open>What cleanup removes is no longer in force at any time its shard can still see.\<close>

lemma cleaned_in_force:
  assumes "gcra_cleaned tab d d'" "observed_at d' (key_shard k) \<le> int now"
  shows "gcra_in_force now d' k = gcra_in_force now d k"
proof -
  from assms(1) consider "gcra_counter d' k = gcra_counter d k"
    | tat e where "gcra_counter d' k = None" "gcra_counter d k = Some (tat, e)" "e \<le> observed_at d' (key_shard k)"
    unfolding gcra_cleaned_def by blast
  then show ?thesis using assms(2) by cases (auto simp: gcra_in_force_def)
qed

lemma swept_in_force:
  "gcra_swept T locked tab n d d' rows \<Longrightarrow> observed_at d' (key_shard k) \<le> int now \<Longrightarrow> gcra_in_force now d' k = gcra_in_force now d k"
  using cleaned_in_force unfolding gcra_swept_def by blast

section \<open>Levels\<close>

text \<open>How far a counter has been drawn, in scaled time: its arrival time, or its shard's clock when that is later.\<close>

abbreviation key_rate :: "rate_table \<Rightarrow> storage_key \<Rightarrow> gcra_policy" where
  "key_rate tab k \<equiv> tab (PolicyFingerprint (fst k))"

definition gcra_level :: "rate_table \<Rightarrow> storage_key \<Rightarrow> gcra_tables \<Rightarrow> nat" where
  "gcra_level tab k d =
     max (nat (observed_at d (key_shard k)) * capacity_get (gcp_quota (key_rate tab k)))
       (case gcra_counter d k of None \<Rightarrow> 0 | Some (tat, _) \<Rightarrow> tat)"

lemma gcra_level_le:
  assumes "gcra_tables_ok tab d"
  shows "gcra_level tab k d \<le> nat (observed_at d (key_shard k)) * capacity_get (gcp_quota (key_rate tab k)) +
    capacity_get (gcp_burst_capacity (key_rate tab k)) * period_millis (gcp_period (key_rate tab k))"
  using counter_entry_ok(2) [OF assms, of k] by (auto simp: gcra_level_def gentry_ok_def split: option.splits)

text \<open>An expired counter owes nothing.\<close>

lemma expired_tat_le:
  assumes "gcra_tables_ok tab d" "gcra_counter d k = Some (tat, e)" "nat e \<le> now" "0 < capacity_get (gcp_quota (key_rate tab k))"
  shows "tat \<le> now * capacity_get (gcp_quota (key_rate tab k))"
proof -
  have "div_ceil tat (capacity_get (gcp_quota (key_rate tab k))) \<le> now"
    using counter_entry_ok(2) [OF assms(1,2)] assms(3) by (simp add: gentry_ok_def)
  then show ?thesis using assms(4) by (simp add: div_ceil_le_iff mult.commute)
qed

lemma batch_time_ge: "c \<in> set checks \<Longrightarrow> observed_at d (key_shard (gcra_key c)) \<le> gcra_batch_time checks d t"
  unfolding gcra_batch_time_def by (rule fold_max_int_ge(2)) (simp add: gcra_shards_facts)

lemma advanced_level:
  assumes ok: "gcra_tables_ok tab d" and c: "gc_ok tab c" and now: "0 \<le> now" "observed_at d (key_shard (gcra_key c)) \<le> now"
  shows "gcra_level tab (gcra_key c) d + chk_cost c * gp c \<le> fst (gcra_advanced (nat now) d c)"
proof -
  let ?k = "gcra_key c" and ?st = "gcra_in_force (nat now) d (gcra_key c)"
  have q: "capacity_get (gcp_quota (key_rate tab ?k)) = gq c" "0 < gq c"
    using c gcheck_bounds(1) [of c] by (auto simp: gc_ok_def gcra_key_def gq_def Let_def)
  have "nat (observed_at d (key_shard ?k)) * gq c \<le> active c (nat now) (tat_of ?st)"
    using active_bounds(1) [of "nat now" c "tat_of ?st"] mult_le_mono1 [OF nat_mono [OF now(2)], of "gq c"] by linarith
  moreover have "tat \<le> active c (nat now) (tat_of ?st)" if "gcra_counter d ?k = Some (tat, e)" for tat e
    using expired_tat_le [OF ok that, of "nat now"] that q by (auto simp: gcra_in_force_def active_def)
  ultimately show ?thesis
    by (auto simp: gcra_level_def gcra_advanced_def g_next_def q(1) split: option.splits)
qed

lemma effect_level:
  assumes ok: "gcra_tables_ok tab d" and checks: "\<forall>c \<in> set checks. gc_ok tab c" and keys: "distinct (map gkey checks)"
    and eff: "gcra_effect tab maximum checks (gcra_batch_time checks d t) d d'"
    and allowed: "gcra_first_denial maximum (nat (gcra_batch_time checks d t)) d checks = None"
  shows "gcra_level tab k d + cost_at gcra_key k checks * period_millis (gcp_period (key_rate tab k)) \<le> gcra_level tab k d'"
proof -
  let ?now = "gcra_batch_time checks d t"
  have now: "0 \<le> ?now" and charged: "gcra_charged ?now checks d d'" using eff allowed by (auto simp: gcra_effect_def)
  have mono: "observed_at d s \<le> observed_at d' s" for s using charged batch_time_ge by (auto simp: gcra_charged_def)
  have counter: "gcra_counter d' k = (case List.find (\<lambda>c. gcra_key c = k) checks of None \<Rightarrow> gcra_counter d k
      | Some c \<Rightarrow> Some (gcra_advanced (nat ?now) d c))" using charged unfolding gcra_charged_def by blast
  note cost = cost_at_find [OF gcra_key_distinct [OF keys], of k]
  show ?thesis
  proof (cases "List.find (\<lambda>c. gcra_key c = k) checks")
    case None
    then show ?thesis using cost counter mult_le_mono1 [OF nat_mono [OF mono [of "key_shard k"]]] by (auto simp: gcra_level_def max.coboundedI1)
  next
    case (Some c)
    then have c: "c \<in> set checks" "gcra_key c = k" by (auto simp: find_Some_iff)
    then have "gp c = period_millis (gcp_period (key_rate tab k))" using checks by (auto simp: gc_ok_def gcra_key_def gp_def Let_def)
    then have "gcra_level tab k d + chk_cost c * period_millis (gcp_period (key_rate tab k)) \<le> fst (gcra_advanced (nat ?now) d c)"
      using advanced_level [OF ok _ now batch_time_ge [OF c(1)]] checks c by metis
    also have "\<dots> \<le> gcra_level tab k d'" using counter Some by (auto simp: gcra_level_def split: prod.splits)
    finally show ?thesis using cost Some by simp
  qed
qed

lemma cleaned_level:
  assumes "gcra_tables_ok tab d" "gcra_cleaned tab d d'" "0 < capacity_get (gcp_quota (key_rate tab k))"
  shows "gcra_level tab k d \<le> gcra_level tab k d'"
proof -
  have mono: "nat (observed_at d (key_shard k)) \<le> nat (observed_at d' (key_shard k))" using assms(2) by (simp add: gcra_cleaned_def nat_mono)
  from assms(2) consider "gcra_counter d' k = gcra_counter d k"
    | tat e where "gcra_counter d' k = None" "gcra_counter d k = Some (tat, e)" "e \<le> observed_at d' (key_shard k)"
    unfolding gcra_cleaned_def by blast
  then show ?thesis
  proof cases
    case 1
    then show ?thesis using mult_le_mono1 [OF mono] by (auto simp: gcra_level_def max.coboundedI1)
  next
    case 2
    then show ?thesis using expired_tat_le [OF assms(1) 2(2) nat_mono [OF 2(3)] assms(3)] mult_le_mono1 [OF mono]
      by (simp add: gcra_level_def)
  qed
qed

section \<open>Histories\<close>

text \<open>Replicas with their own configurations run operations one after another on the same tables, each against a
  server that may misbehave in its own way; the total counts the cost reported as admitted for one counter.\<close>

inductive gcra_history :: "rate_table \<Rightarrow> storage_key \<Rightarrow> gcra_tables sql_world \<Rightarrow> nat \<Rightarrow> gcra_tables sql_world \<Rightarrow> bool"
  for tab k w0 where
  history_start: "gcra_history tab k w0 0 w0"
| history_server: "gcra_history tab k w0 n w \<Longrightarrow> sw_db w' = sw_db w \<Longrightarrow> gcra_history tab k w0 n w'"
| history_check: "gcra_history tab k w0 n w \<Longrightarrow> gc_ok tab check \<Longrightarrow>
    gcra_run gcra_sql_server config [check] single_decision w = (w', r) \<Longrightarrow>
    gcra_history tab k w0 (n + check_admits gcra_key k check r) w'"
| history_batch: "gcra_history tab k w0 n w \<Longrightarrow> \<forall>c \<in> set checks. gc_ok tab c \<Longrightarrow>
    gcra_check_all_result gcra_sql_server config checks w = (w', r) \<Longrightarrow>
    gcra_history tab k w0 (n + batch_admits gcra_key k checks r) w'"
| history_cleanup: "gcra_history tab k w0 n w \<Longrightarrow> gcra_cleanup gcra_sql_server config m w = (w', r) \<Longrightarrow>
    gcra_history tab k w0 n w'"

lemma first_denial_not_allowed: "gcra_first_denial maximum now d checks \<noteq> Some (PA_Allowed as)"
proof
  assume "gcra_first_denial maximum now d checks = Some (PA_Allowed as)"
  then obtain i where "gcra_denial_at maximum now d checks i = Some (PA_Allowed as)"
    by (auto simp: gcra_first_denial_def find_Some_iff)
  then show False by (auto simp: gcra_denial_at_def Let_def split: if_splits)
qed

lemma spec_allowed: "gcra_admission_spec maximum checks now d = PA_Allowed as \<Longrightarrow> gcra_first_denial maximum now d checks = None"
  using first_denial_not_allowed by (auto simp: gcra_admission_spec_def split: option.splits)

lemma outcome_ok: "gcra_outcome T tab maximum checks build d dec d' \<Longrightarrow> gcra_tables_ok tab d'"
  by (auto simp: gcra_outcome_def gcra_effect_def Let_def)

lemma gcra_possible_effect_ok: "gcra_tables_ok tab d \<Longrightarrow> gcra_possible_effect T tab maximum checks e d d' \<Longrightarrow> gcra_tables_ok tab d'"
  by (auto simp: gcra_possible_effect_def gcra_effect_def Let_def)

lemma outcome_level:
  assumes "gcra_tables_ok tab d" "\<forall>c \<in> set checks. gc_ok tab c" "distinct (map gkey checks)"
    and "gcra_outcome T tab maximum checks build d dec d'"
    and allowed: "\<And>adm. build adm = Ok dec \<Longrightarrow> granted \<Longrightarrow> \<exists>as. adm = PA_Allowed as"
  shows "gcra_level tab k d + (if granted then cost_at gcra_key k checks else 0) * period_millis (gcp_period (key_rate tab k)) \<le> gcra_level tab k d'"
proof -
  from assms(4) obtain t where t: "build (gcra_admission_spec maximum checks (nat (gcra_batch_time checks d t)) d) = Ok dec"
    and eff: "gcra_effect tab maximum checks (gcra_batch_time checks d t) d d'" by (auto simp: gcra_outcome_def Let_def)
  show ?thesis
  proof (cases "gcra_first_denial maximum (nat (gcra_batch_time checks d t)) d checks")
    case None
    from effect_level [OF assms(1-3) eff None, of k] show ?thesis by auto
  next
    case (Some x)
    with eff have "d' = d" by (simp add: gcra_effect_def)
    moreover have "\<not> granted" using allowed [OF t] spec_allowed Some by fastforce
    ultimately show ?thesis by simp
  qed
qed

lemma possible_effect_level:
  assumes "gcra_tables_ok tab d" "\<forall>c \<in> set checks. gc_ok tab c" "distinct (map gkey checks)"
    and "gcra_possible_effect T tab maximum checks e d d'"
  shows "gcra_level tab k d \<le> gcra_level tab k d'"
  using assms(4) effect_level [OF assms(1-3), of maximum _ d' k] by (fastforce simp: gcra_possible_effect_def Let_def)

text \<open>One check and one batch of a history.\<close>

abbreviation level_paid :: "rate_table \<Rightarrow> storage_key \<Rightarrow> nat \<Rightarrow> gcra_tables \<Rightarrow> gcra_tables \<Rightarrow> bool" where
  "level_paid tab k n d d' \<equiv> gcra_level tab k d + n * period_millis (gcp_period (key_rate tab k)) \<le> gcra_level tab k d'"

lemma gcra_check_step:
  assumes ok: "gcra_tables_ok tab (sw_db w)" and c: "gc_ok tab check"
    and run: "gcra_run gcra_sql_server config [check] single_decision w = (w', r)"
  shows "gcra_tables_ok tab (sw_db w') \<and> level_paid tab k (check_admits gcra_key k check r) (sw_db w) (sw_db w')"
proof -
  let ?max = "pg_maximum_rows_per_shard config"
  have checks: "\<forall>c \<in> set [check]. gc_ok tab c" "distinct (map gkey [check])" using c by simp_all
  from gcra_run_sound [OF clock_in_True ok this, of single_decision config] run build_error_not_consumed(1)
  consider (decided) dec where "r = Some (Ok dec)" "gcra_outcome (\<lambda>_. True) tab ?max [check] single_decision (sw_db w) dec (sw_db w')"
    | (failed) e where "r = Some (Err e)" "gcra_possible_effect (\<lambda>_. True) tab ?max [check] e (sw_db w) (sw_db w')"
    by (auto split: option.splits sum.splits)
  then show ?thesis
  proof cases
    case decided
    let ?granted = "\<exists>a. Decision_view dec = DV_Allowed a"
    have "level_paid tab k (if ?granted then cost_at gcra_key k [check] else 0) (sw_db w) (sw_db w')"
      by (rule outcome_level [OF ok checks decided(2)]) (auto dest!: single_decision_view split: pg_admission.splits)
    moreover have "check_admits gcra_key k check r = (if ?granted then cost_at gcra_key k [check] else 0)"
      by (simp add: check_admits_def decided(1) split: decision_view.split)
    ultimately show ?thesis using outcome_ok [OF decided(2)] by simp
  next
    case failed
    then show ?thesis using possible_effect_level [OF ok checks failed(2)] gcra_possible_effect_ok [OF ok failed(2)]
      by (simp add: check_admits_def)
  qed
qed

lemma gcra_batch_step:
  assumes ok: "gcra_tables_ok tab (sw_db w)" and c: "\<forall>c \<in> set checks. gc_ok tab c"
    and run: "gcra_check_all_result gcra_sql_server config checks w = (w', r)"
  shows "gcra_tables_ok tab (sw_db w') \<and> level_paid tab k (batch_admits gcra_key k checks r) (sw_db w) (sw_db w')"
proof -
  let ?max = "pg_maximum_rows_per_shard config" and ?build = "batch_decision_of (length checks)"
  from gcra_check_all_outcome [OF clock_in_True ok c, of config] run
  consider (decided) dec where "r = Some (Ok dec)" "gcra_outcome (\<lambda>_. True) tab ?max checks ?build (sw_db w) dec (sw_db w')" "distinct (map gkey checks)"
    | (invalid) e where "r = Some (Err (PgInvalidBatch e))" "w' = w"
    | (failed) e where "r = Some (Err (PgCheck e))" "gcra_possible_effect (\<lambda>_. True) tab ?max checks e (sw_db w) (sw_db w')" "distinct (map gkey checks)"
    by (auto simp: batch_ok_def split: option.splits sum.splits batch_check_error.splits)
  then show ?thesis
  proof cases
    case decided
    let ?granted = "\<exists>a. BatchDecision_view dec = BV_Allowed a"
    have "level_paid tab k (if ?granted then cost_at gcra_key k checks else 0) (sw_db w) (sw_db w')"
      by (rule outcome_level [OF ok c decided(3,2)]) (auto simp: admission_view_def dest!: batch_decision_of_view split: pg_admission.splits)
    moreover have "batch_admits gcra_key k checks r = (if ?granted then cost_at gcra_key k checks else 0)"
      by (simp add: batch_admits_def decided(1) split: batch_decision_view.split)
    ultimately show ?thesis using outcome_ok [OF decided(2)] by simp
  next
    case failed
    then show ?thesis using possible_effect_level [OF ok c failed(3,2)] gcra_possible_effect_ok [OF ok failed(2)]
      by (simp add: batch_admits_def)
  qed (use ok in \<open>simp add: batch_admits_def\<close>)
qed

lemma history_level:
  assumes "gcra_history tab k w0 n w" "gcra_tables_ok tab (sw_db w0)" "0 < capacity_get (gcp_quota (key_rate tab k))"
  shows "gcra_tables_ok tab (sw_db w) \<and> level_paid tab k n (sw_db w0) (sw_db w)"
  using assms
proof induction
  case (history_check n w check config w' r)
  then show ?case using gcra_check_step [of tab w check config w' r k] by (simp add: add_mult_distrib)
next
  case (history_batch n w checks config w' r)
  then show ?case using gcra_batch_step [of tab w checks config w' r k] by (simp add: add_mult_distrib)
next
  case (history_cleanup n w config m w' r)
  then have "sw_db w' = sw_db w \<or> gcra_cleaned tab (sw_db w) (sw_db w')"
    using gcra_cleanup_outcome [OF clock_in_True, of tab w m config] by (auto simp: gcra_swept_def split: option.splits sum.splits if_splits)
  then show ?case using history_cleanup cleaned_level [of tab "sw_db w" "sw_db w'" k] by (auto simp: gcra_cleaned_def)
qed simp_all

section \<open>Properties\<close>

text \<open>Concrete instances: the tables right after the migrations, a check, and a server whose clock steps back and
  that loses the acknowledgement of the last statement.\<close>

definition pg_sample_gcheck :: "nat \<Rightarrow> gcra_policy check" where
  "pg_sample_gcheck cost =
     \<lparr>chk_policy = sample_gcp\<lparr>gcp_fingerprint := PolicyFingerprint (replicate 32 1)\<rparr>,
      chk_subject = SubjectKey (replicate 32 7), chk_cost = cost\<rparr>"

lemma pg_sample_gcheck_ok: "0 < n \<Longrightarrow> n \<le> 5 \<Longrightarrow> gc_ok sample_tab (pg_sample_gcheck n)"
  using sample_gc_ok [of n]
  by (simp add: gc_ok_def gcheck_ok_def check_ok_def sample_gcheck_def pg_sample_gcheck_def gq_def gp_def gb_def
      GcraPolicy_def Let_def)

lemma migrated_gcra_ok: "gcra_tables_ok tab migrated_gcra_tables"
  by (simp add: gcra_tables_ok_def migrated_gcra_tables_def gcra_rows_in_def observed_at_def)

definition gcra_sample_world :: "gcra_tables sql_world" where
  "gcra_sample_world = \<lparr>sw_db = migrated_gcra_tables, sw_tx = migrated_gcra_tables, sw_clock = 0, sw_time = 1000000, sw_xid = 0, sw_uuids = 0, sw_locked = (\<lambda>_ _. False),
     sw_script = replicate 10 (5, 10, 1, No_Fault) @ [(5, -20, 1, Reply_Lost None)]\<rparr>"

lemma gcra_sample_world_clock: "clock_in ((\<le>) 999980) gcra_sample_world"
  by (simp add: gcra_sample_world_def clock_in_def numeral_eq_Suc)

lemma gcra_sample_world_ok: "gcra_tables_ok sample_tab (sw_db gcra_sample_world)"
  by (simp add: gcra_sample_world_def migrated_gcra_ok)



text \<open>
  A single GCRA check on Postgres answers as the exact transition says at one time, sampled from a reading that the
  server's clock showed or the latest its shard has seen: an allowance and one advanced counter, or a denial and no
  change; an error leaves the tables unchanged unless it reports possible consumption.
\<close>

theorem postgres_gcra_check_correct:
  assumes "clock_in T w" "gcra_tables_ok tab (sw_db w)" "gc_ok tab check"
  shows "case pg_gcra_check observer ost gcra_sql_server config elapsed check w of
      (_, _, None) \<Rightarrow> False
    | (_, w', Some (Ok decision)) \<Rightarrow>
        \<exists>t. sampled T t \<and> (let now = gcra_batch_time [check] (sw_db w) t in
          Decision_view decision =
            (case gcra_admission_spec (pg_maximum_rows_per_shard config) [check] (nat now) (sw_db w) of
               PA_Allowed allowances \<Rightarrow> DV_Allowed (hd allowances)
             | PA_Denied _ denial \<Rightarrow> DV_Denied denial
             | PA_ShadowDenied _ denial \<Rightarrow> DV_ShadowDenied denial) \<and>
          gcra_effect tab (pg_maximum_rows_per_shard config) [check] now (sw_db w) (sw_db w'))
    | (_, w', Some (Err e)) \<Rightarrow> gcra_possible_effect T tab (pg_maximum_rows_per_shard config) [check] e (sw_db w) (sw_db w')"
  using gcra_run_sound [OF assms(1,2), of "[check]" single_decision config] assms(3) build_error_not_consumed(1)
  by (fastforce simp: pg_gcra_check_def gcra_outcome_def Let_def dest: single_decision_view
      split: prod.splits option.splits sum.splits)

theorem postgres_gcra_check_correct_witness:
  "case pg_gcra_check None () gcra_sql_server PostgresConfig_new 7 (pg_sample_gcheck 3) gcra_sample_world of
      (_, _, None) \<Rightarrow> False
    | (_, w', Some (Ok decision)) \<Rightarrow>
        \<exists>t. sampled ((\<le>) 999980) t \<and> (let now = gcra_batch_time [pg_sample_gcheck 3] (sw_db gcra_sample_world) t in
          Decision_view decision =
            (case gcra_admission_spec (pg_maximum_rows_per_shard PostgresConfig_new) [pg_sample_gcheck 3] (nat now) (sw_db gcra_sample_world) of
               PA_Allowed allowances \<Rightarrow> DV_Allowed (hd allowances)
             | PA_Denied _ denial \<Rightarrow> DV_Denied denial
             | PA_ShadowDenied _ denial \<Rightarrow> DV_ShadowDenied denial) \<and>
          gcra_effect sample_tab (pg_maximum_rows_per_shard PostgresConfig_new) [pg_sample_gcheck 3] now (sw_db gcra_sample_world) (sw_db w'))
    | (_, w', Some (Err e)) \<Rightarrow>
        gcra_possible_effect ((\<le>) 999980) sample_tab (pg_maximum_rows_per_shard PostgresConfig_new) [pg_sample_gcheck 3] e
          (sw_db gcra_sample_world) (sw_db w')"
  by (rule postgres_gcra_check_correct [OF gcra_sample_world_clock gcra_sample_world_ok]) (simp add: pg_sample_gcheck_ok)



text \<open>
  C9: the durable GCRA limiter enforces its rate over every history: whatever checks, batches and
  cleanups any replicas run on shared tables, whichever statements and replies are lost and however the
  server's clock jumps, the cost reported as admitted for one counter times the period is at most the
  burst times the period plus the quota times the advance of the persistent clock of the counter's
  shard, that is, at most \<open>burst + quota * elapsed / period\<close> units.
\<close>

theorem postgres_gcra_rate_bound:
  assumes "gcra_history tab k w0 n w" "gcra_tables_ok tab (sw_db w0)" "0 < capacity_get (gcp_quota (key_rate tab k))"
  shows "n * period_millis (gcp_period (key_rate tab k)) \<le>
    capacity_get (gcp_burst_capacity (key_rate tab k)) * period_millis (gcp_period (key_rate tab k)) +
    nat (observed_at (sw_db w) (key_shard k) - observed_at (sw_db w0) (key_shard k)) * capacity_get (gcp_quota (key_rate tab k))"
proof -
  let ?q = "capacity_get (gcp_quota (key_rate tab k))" and ?bp = "capacity_get (gcp_burst_capacity (key_rate tab k)) * period_millis (gcp_period (key_rate tab k))"
    and ?o = "\<lambda>w. nat (observed_at (sw_db w) (key_shard k))"
  have h: "gcra_tables_ok tab (sw_db w)" "level_paid tab k n (sw_db w0) (sw_db w)" using history_level [OF assms] by auto
  have "?o w0 * ?q \<le> gcra_level tab k (sw_db w0)" by (simp add: gcra_level_def)
  then have "n * period_millis (gcp_period (key_rate tab k)) \<le> ?o w * ?q + ?bp - ?o w0 * ?q"
    using h(2) gcra_level_le [OF h(1), of k] by linarith
  also have "\<dots> \<le> ?bp + (?o w - ?o w0) * ?q" by (simp add: diff_mult_distrib)
  also have "?o w - ?o w0 = nat (observed_at (sw_db w) (key_shard k) - observed_at (sw_db w0) (key_shard k))"
    using assms(2) h(1) by (simp add: gcra_tables_ok_def nat_diff_distrib')
  finally show ?thesis .
qed

theorem postgres_gcra_rate_bound_witness:
  "let (w', r) = gcra_run gcra_sql_server PostgresConfig_new [pg_sample_gcheck 3] single_decision gcra_sample_world;
       k = gcra_key (pg_sample_gcheck 3) in
   check_admits gcra_key k (pg_sample_gcheck 3) r * period_millis (gcp_period sample_gcp) \<le>
     capacity_get (gcp_burst_capacity sample_gcp) * period_millis (gcp_period sample_gcp) +
     nat (observed_at (sw_db w') (key_shard k)) * capacity_get (gcp_quota sample_gcp)"
proof -
  let ?k = "gcra_key (pg_sample_gcheck 3)"
  obtain w' r where run: "gcra_run gcra_sql_server PostgresConfig_new [pg_sample_gcheck 3] single_decision gcra_sample_world = (w', r)" by fastforce
  have "gcra_history sample_tab ?k gcra_sample_world (0 + check_admits gcra_key ?k (pg_sample_gcheck 3) r) w'"
    by (rule history_check [OF history_start pg_sample_gcheck_ok run]) simp_all
  from postgres_gcra_rate_bound [OF this gcra_sample_world_ok] run show ?thesis
    by (simp add: sample_gcp_def gcra_sample_world_def migrated_gcra_tables_def observed_at_def key_shard_less [simplified])
qed

end
