(* ===== verification/Postgres_Limiters.thy ===== *)
theory Postgres_Limiters
  imports Limiter Postgres_Window_Limits Postgres_Gcra_Limits
begin

text \<open>
  The durable limiters as limiters: \<open>impl Limiter for PostgresLimiter\<close> and \<open>impl Limiter for PostgresGcraLimiter\<close>, and
  that they keep the contract of the trait. The circumstances of an operation are those of the server it
  runs against: the client's clock, the database clock and a script of delays, clock steps and faults.
\<close>

section \<open>Serving an operation\<close>

type_synonym server_run = "instant \<times> timestamp \<times> (duration \<times> int \<times> int \<times> fault) list"

definition serving :: "server_run \<Rightarrow> 'd sql_world \<Rightarrow> 'd sql_world" where
  "serving t w = (case t of (clock, time, script) \<Rightarrow> w\<lparr>sw_clock := clock, sw_time := time, sw_script := script\<rparr>)"

text \<open>\<open>T\<close> holds for every time that the database clock shows during the run.\<close>

definition shows_only :: "(timestamp \<Rightarrow> bool) \<Rightarrow> server_run \<Rightarrow> bool" where
  "shows_only T t \<longleftrightarrow> readings_in T (fst (snd t)) (snd (snd t))"

lemma serving_simps [simp]: "sw_db (serving t w) = sw_db w" "clock_in T (serving t w) \<longleftrightarrow> shows_only T t"
  by (cases t; simp add: serving_def shows_only_def clock_in_def)+

lemma shows_only_True [simp]: "shows_only (\<lambda>_. True) t"
  by (simp add: shows_only_def)

lemma error_not_consumed: "CheckError_consumption e \<noteq> Consumed" "BatchCheckError_consumption x \<noteq> Consumed"
proof -
  show e: "CheckError_consumption e \<noteq> Consumed" for e by (cases e) (simp_all add: CheckError_consumption_def)
  show "BatchCheckError_consumption x \<noteq> Consumed" using e by (cases x) (simp_all add: BatchCheckError_consumption_def)
qed

section \<open>The fixed-window limiter\<close>

definition postgres_limiter ::
    "(u8 list \<Rightarrow> u8 list) \<Rightarrow> (duration \<Rightarrow> int option) \<Rightarrow> postgres_config \<Rightarrow> server_run \<Rightarrow>
     (pg_tables sql_world, fixed_window_policy, pg_check_error, batch_check_error) limiter" where
  "postgres_limiter sha256 to_interval config t =
     \<lparr>lm_check = \<lambda>w check. snd (pg_check None () sha256 to_interval sql_server config 0 check (serving t w)),
      lm_check_all = \<lambda>w checks. snd (pg_check_all None () sha256 to_interval sql_server config 0 checks (serving t w))\<rparr>"

text \<open>The counters were charged at a time the database clock showed, when none of them exceeded its limit.\<close>

definition pg_usable :: "(duration \<Rightarrow> int option) \<Rightarrow> postgres_config \<Rightarrow> server_run \<Rightarrow> pg_tables sql_world \<Rightarrow> bool" where
  "pg_usable to_interval config t w \<longleftrightarrow> tables_ok (sw_db w) \<and> postgres_config_ok config \<and> interval_exact to_interval"

abbreviation pg_kept :: "server_run \<Rightarrow> 'd sql_world \<Rightarrow> 'd sql_world \<Rightarrow> bool" where
  "pg_kept t w w' \<equiv> sw_db w' = sw_db w"

definition pg_spent :: "postgres_config \<Rightarrow> server_run \<Rightarrow> fixed_window_policy check list \<Rightarrow> pg_tables sql_world \<Rightarrow> pg_tables sql_world \<Rightarrow> bool" where
  "pg_spent config t cs w w' \<longleftrightarrow> tables_ok (sw_db w') \<and> distinct (map pg_key cs) \<and>
     (\<forall>T. shows_only T t \<longrightarrow> (\<exists>now. T now \<and> pg_first_denial (pg_maximum_rows_per_shard config) now (sw_db w) cs = None \<and>
        pg_charged now cs (sw_db w) (sw_db w')))"

lemma first_denial_index: "pg_first_denial maximum now d cs = Some (i, x) \<Longrightarrow> i < length cs"
  by (auto simp: pg_first_denial_def find_Some_iff)

text \<open>What an outcome of the server says of the tables.\<close>

lemma outcome_effect:
  assumes "pg_outcome T maximum cs build d dec d'"
  obtains now adm where "T now" "build adm = Ok dec" "tables_ok d'"
    "case adm of
       PA_Allowed as \<Rightarrow> length as = length cs \<and> pg_first_denial maximum now d cs = None \<and> pg_charged now cs d d'
     | PA_Denied i _ \<Rightarrow> i < length cs \<and> d' = d
     | PA_ShadowDenied i _ \<Rightarrow> i < length cs \<and> d' = d \<and> fwp_quota_mode (chk_policy (hd cs)) = Shadow"
proof -
  from assms obtain now el where o: "T now" "build (pg_admission_spec maximum cs now el d) = Ok dec" "pg_effect maximum cs now d d'"
    by (auto simp: pg_outcome_def)
  have "case pg_admission_spec maximum cs now el d of
       PA_Allowed as \<Rightarrow> length as = length cs \<and> pg_first_denial maximum now d cs = None \<and> pg_charged now cs d d'
     | PA_Denied i _ \<Rightarrow> i < length cs \<and> d' = d
     | PA_ShadowDenied i _ \<Rightarrow> i < length cs \<and> d' = d \<and> fwp_quota_mode (chk_policy (hd cs)) = Shadow"
  proof (cases "pg_first_denial maximum now d cs")
    case None
    then show ?thesis using o(3) by (simp add: pg_admission_spec_def pg_effect_def)
  next
    case (Some x)
    obtain i y where x: "x = (i, y)" by (cases x)
    then show ?thesis using Some o(3) first_denial_index [of maximum now d cs i y]
      by (simp add: pg_admission_spec_def pg_effect_def split: pending_denial.split quota_mode.split)
  qed
  with that o(1,2) o(3) show thesis unfolding pg_effect_def by blast
qed

lemma spentI:
  assumes "\<And>T. shows_only T t \<Longrightarrow> \<exists>now. T now \<and> pg_first_denial (pg_maximum_rows_per_shard config) now (sw_db w) cs = None \<and>
      pg_charged now cs (sw_db w) (sw_db w')"
    and "tables_ok (sw_db w')" "distinct (map pg_key cs)"
  shows "pg_spent config t cs w w'"
  using assms by (simp add: pg_spent_def)

lemma possible_effect_tells:
  assumes "\<And>T. shows_only T t \<Longrightarrow> pg_possible_effect T (pg_maximum_rows_per_shard config) cs e (sw_db w) (sw_db w')"
    and "distinct (map pg_key cs)"
  shows "error_tells (pg_spent config t cs w w') (pg_kept t w w') (CheckError_consumption e)"
proof (cases "sw_db w' = sw_db w")
  case False
  then have "CheckError_consumption e = PossiblyConsumed" "tables_ok (sw_db w')" using assms(1) [of "\<lambda>_. True"] by (auto simp: pg_possible_effect_def)
  moreover have "pg_spent config t cs w w'"
    by (rule spentI [OF _ _ assms(2)]) (use False assms(1) calculation in \<open>auto simp: pg_possible_effect_def\<close>)
  ultimately show ?thesis by (simp add: error_tells_def)
qed (simp add: error_tells_def error_not_consumed)

lemma pg_check_cases:
  assumes "pg_usable to_interval config t w" "pg_check_ok c"
  obtains (decided) w' dec where "lm_check (postgres_limiter sha256 to_interval config t) w c = (w', Some (Ok dec))"
      "\<And>T. shows_only T t \<Longrightarrow> pg_outcome T (pg_maximum_rows_per_shard config) [c] single_decision (sw_db w) dec (sw_db w')"
  | (failed) w' e where "lm_check (postgres_limiter sha256 to_interval config t) w c = (w', Some (Err e))"
      "\<And>T. shows_only T t \<Longrightarrow> pg_possible_effect T (pg_maximum_rows_per_shard config) [c] e (sw_db w) (sw_db w')"
proof -
  let ?w = "serving t w"
  have pre: "tables_ok (sw_db ?w)" "postgres_config_ok config" "pg_checks_ok [c]" "interval_exact to_interval"
    using assms by (simp_all add: pg_usable_def pg_checks_ok_def)
  obtain w' r where run: "run_checks sha256 to_interval sql_server config [c] single_decision ?w = (w', r)" by fastforce
  have law: "case r of None \<Rightarrow> False
      | Some (Ok dec) \<Rightarrow> pg_outcome T (pg_maximum_rows_per_shard config) [c] single_decision (sw_db w) dec (sw_db w')
      | Some (Err e) \<Rightarrow> pg_possible_effect T (pg_maximum_rows_per_shard config) [c] e (sw_db w) (sw_db w')" if "shows_only T t" for T
    using sql_run_checks [OF pre(1) _ pre(2-4), of T single_decision sha256] run that build_error_not_consumed(1)
    by (auto intro: honest_possible_effect split: option.splits sum.splits)
  from law [of "\<lambda>_. True"] consider dec where "r = Some (Ok dec)" | e where "r = Some (Err e)"
    by (auto split: option.splits sum.splits)
  then show thesis
  proof cases
    case 1
    show thesis by (rule decided [of w' dec]) (use law 1 run in \<open>simp_all add: postgres_limiter_def pg_check_def\<close>)
  next
    case 2
    show thesis by (rule failed [of w' e]) (use law 2 run in \<open>simp_all add: postgres_limiter_def pg_check_def\<close>)
  qed
qed

lemma pg_batch_cases:
  assumes "pg_usable to_interval config t w" "list_all pg_check_ok cs" "length cs < 2 ^ 63"
  obtains (decided) w' dec where "lm_check_all (postgres_limiter sha256 to_interval config t) w cs = (w', Some (Ok dec))"
      "\<And>T. shows_only T t \<Longrightarrow> pg_outcome T (pg_maximum_rows_per_shard config) cs (batch_decision_of (length cs)) (sw_db w) dec (sw_db w')"
      "distinct (map pg_key cs)"
  | (invalid) w' e where "lm_check_all (postgres_limiter sha256 to_interval config t) w cs = (w', Some (Err (PgInvalidBatch e)))" "sw_db w' = sw_db w"
  | (failed) w' e where "lm_check_all (postgres_limiter sha256 to_interval config t) w cs = (w', Some (Err (PgCheck e)))"
      "\<And>T. shows_only T t \<Longrightarrow> pg_possible_effect T (pg_maximum_rows_per_shard config) cs e (sw_db w) (sw_db w')" "distinct (map pg_key cs)"
proof -
  let ?w = "serving t w" and ?max = "pg_maximum_rows_per_shard config" and ?build = "batch_decision_of (length cs)"
  have pre: "tables_ok (sw_db ?w)" "postgres_config_ok config" "interval_exact to_interval"
    using assms by (simp_all add: pg_usable_def)
  obtain w' r where run: "check_all_unobserved sha256 to_interval sql_server config cs ?w = (w', r)" by fastforce
  have law: "case r of None \<Rightarrow> False
      | Some (Ok dec) \<Rightarrow> pg_outcome T ?max cs ?build (sw_db w) dec (sw_db w')
      | Some (Err (PgInvalidBatch e)) \<Rightarrow> w' = ?w
      | Some (Err (PgCheck e)) \<Rightarrow> pg_possible_effect T ?max cs e (sw_db w) (sw_db w')" if "shows_only T t" for T
    using check_all_outcome [OF pre(1) _ pre(2,3) assms(2,3), of T sha256] run that
    by (auto split: option.splits sum.splits batch_check_error.splits)
  have keys: "distinct (map pg_key cs)" if "\<And>e. r \<noteq> Some (Err (PgInvalidBatch e))"
  proof -
    have "batch_ok FixedWindowPolicy (pg_max_batch_size config) cs"
      using that run validate_batch_Ok [of FixedWindowPolicy cs "pg_max_batch_size config"]
      by (auto simp: check_all_unobserved_def split: sum.splits)
    then show ?thesis using pg_key_distinct by (auto simp: batch_ok_def)
  qed
  from law [of "\<lambda>_. True"] consider dec where "r = Some (Ok dec)" | e where "r = Some (Err (PgInvalidBatch e))"
    | e where "r = Some (Err (PgCheck e))"
    by (auto split: option.splits sum.splits batch_check_error.splits)
  then show thesis
  proof cases
    case 1
    show thesis by (rule decided [of w' dec]) (use law keys 1 run in \<open>simp_all add: postgres_limiter_def pg_check_all_def\<close>)
  next
    case 2
    show thesis by (rule invalid [of w' e]) (use law [of "\<lambda>_. True"] 2 run in \<open>simp_all add: postgres_limiter_def pg_check_all_def\<close>)
  next
    case 3
    show thesis by (rule failed [of w' e]) (use law keys 3 run in \<open>simp_all add: postgres_limiter_def pg_check_all_def\<close>)
  qed
qed

lemma outcome_spent:
  assumes out: "\<And>T. shows_only T t \<Longrightarrow> pg_outcome T (pg_maximum_rows_per_shard config) cs build (sw_db w) dec (sw_db w')"
    and keys: "distinct (map pg_key cs)" and allowed: "\<And>adm. build adm = Ok dec \<Longrightarrow> \<exists>as. adm = PA_Allowed as"
  shows "pg_spent config t cs w w'"
proof (rule spentI [OF _ _ keys])
  show "tables_ok (sw_db w')" by (rule outcome_effect [OF out [OF shows_only_True]])
  fix T assume "shows_only T t"
  then show "\<exists>now. T now \<and> pg_first_denial (pg_maximum_rows_per_shard config) now (sw_db w) cs = None \<and> pg_charged now cs (sw_db w) (sw_db w')"
    by (rule outcome_effect [OF out]) (auto dest!: allowed)
qed

lemma check_outcome_tells:
  assumes out: "\<And>T. shows_only T t \<Longrightarrow> pg_outcome T (pg_maximum_rows_per_shard config) [c] single_decision (sw_db w) dec (sw_db w')"
  shows "decision_tells (pg_spent config t [c] w w') (pg_kept t w w') (fwp_quota_mode (chk_policy c) = Shadow) dec"
proof (rule outcome_effect [OF out [OF shows_only_True]])
  fix now adm
  assume adm: "single_decision adm = Ok dec" "case adm of
       PA_Allowed as \<Rightarrow> length as = length [c] \<and> pg_first_denial (pg_maximum_rows_per_shard config) now (sw_db w) [c] = None \<and>
         pg_charged now [c] (sw_db w) (sw_db w')
     | PA_Denied i _ \<Rightarrow> i < length [c] \<and> sw_db w' = sw_db w
     | PA_ShadowDenied i _ \<Rightarrow> i < length [c] \<and> sw_db w' = sw_db w \<and> fwp_quota_mode (chk_policy (hd [c])) = Shadow"
  note view = single_decision_view [OF adm(1)]
  show ?thesis
  proof (cases adm)
    case (PA_Allowed as)
    have "pg_spent config t [c] w w'"
    proof (rule outcome_spent [OF out])
      show "\<exists>as. adm' = PA_Allowed as" if "single_decision adm' = Ok dec" for adm'
        using single_decision_view [OF that] view PA_Allowed by (auto split: pg_admission.splits)
    qed simp_all
    then show ?thesis using view PA_Allowed by (simp add: decision_tells_def)
  qed (use adm view in \<open>simp_all add: decision_tells_def\<close>)
qed

lemma batch_outcome_tells:
  assumes out: "\<And>T. shows_only T t \<Longrightarrow> pg_outcome T (pg_maximum_rows_per_shard config) cs (batch_decision_of (length cs)) (sw_db w) dec (sw_db w')"
    and keys: "distinct (map pg_key cs)"
  shows "batch_tells (pg_spent config t cs w w') (pg_kept t w w') (length cs) dec"
proof (rule outcome_effect [OF out [OF shows_only_True]])
  fix now adm
  assume adm: "batch_decision_of (length cs) adm = Ok dec" "case adm of
       PA_Allowed as \<Rightarrow> length as = length cs \<and> pg_first_denial (pg_maximum_rows_per_shard config) now (sw_db w) cs = None \<and>
         pg_charged now cs (sw_db w) (sw_db w')
     | PA_Denied i _ \<Rightarrow> i < length cs \<and> sw_db w' = sw_db w
     | PA_ShadowDenied i _ \<Rightarrow> i < length cs \<and> sw_db w' = sw_db w \<and> fwp_quota_mode (chk_policy (hd cs)) = Shadow"
  note view = batch_decision_of_view [OF adm(1)]
  show ?thesis
  proof (cases adm)
    case (PA_Allowed as)
    have "pg_spent config t cs w w'"
    proof (rule outcome_spent [OF out keys])
      show "\<exists>as. adm' = PA_Allowed as" if "batch_decision_of (length cs) adm' = Ok dec" for adm'
        using batch_decision_of_view [OF that] view PA_Allowed by (auto simp: admission_view_def split: pg_admission.splits)
    qed simp_all
    then show ?thesis using view PA_Allowed adm(2) by (simp add: batch_tells_def admission_view_def)
  qed (use adm view in \<open>simp_all add: batch_tells_def admission_view_def\<close>)
qed

interpretation postgres: limiter_contract "postgres_limiter sha256 to_interval config" fwp_quota_mode "pg_usable to_interval config"
    pg_check_ok pg_kept "pg_spent config" CheckError_consumption BatchCheckError_consumption PgInvalidBatch
  for sha256 to_interval config
proof (unfold_locales, goal_cases)
  case (2 t w c)
  then show ?case by (cases rule: pg_check_cases [OF 2, of sha256]) auto
next
  case (3 t w c)
  then show ?case by (cases rule: pg_check_cases [OF 3(1,2), of sha256]) (auto intro!: check_outcome_tells)
next
  case (4 t w c)
  then show ?case by (cases rule: pg_check_cases [OF 4(1,2), of sha256]) (auto intro!: possible_effect_tells)
next
  case (5 t w cs)
  then show ?case by (cases rule: pg_batch_cases [OF 5, of sha256]) auto
next
  case (6 t w cs)
  then show ?case by (cases rule: pg_batch_cases [OF 6(1-3), of sha256]) (auto intro!: batch_outcome_tells)
next
  case (7 t w cs)
  then show ?case
    by (cases rule: pg_batch_cases [OF 7(1-3), of sha256])
      (auto intro!: possible_effect_tells simp: BatchCheckError_consumption_def, simp add: error_tells_def)
next
  case (8 t w)
  then show ?case by (simp add: postgres_limiter_def pg_check_all_def check_all_unobserved_def validate_batch_def)
qed simp

section \<open>The GCRA limiter\<close>

definition postgres_gcra_limiter ::
    "postgres_config \<Rightarrow> server_run \<Rightarrow> (gcra_tables sql_world, gcra_policy, pg_check_error, batch_check_error) limiter" where
  "postgres_gcra_limiter config t =
     \<lparr>lm_check = \<lambda>w check. snd (pg_gcra_check None () gcra_sql_server config 0 check (serving t w)),
      lm_check_all = \<lambda>w checks. snd (pg_gcra_check_all None () gcra_sql_server config 0 checks (serving t w))\<rparr>"

text \<open>The counters advanced at the time of the batch, when all of them conformed.\<close>

definition pg_gcra_spent :: "rate_table \<Rightarrow> postgres_config \<Rightarrow> server_run \<Rightarrow> gcra_policy check list \<Rightarrow>
    gcra_tables sql_world \<Rightarrow> gcra_tables sql_world \<Rightarrow> bool" where
  "pg_gcra_spent tab config t cs w w' \<longleftrightarrow>
     (\<exists>time. let now = gcra_batch_time cs (sw_db w) time in
        gcra_first_denial (pg_maximum_rows_per_shard config) (nat now) (sw_db w) cs = None \<and>
        gcra_effect tab (pg_maximum_rows_per_shard config) cs now (sw_db w) (sw_db w'))"

lemma gcra_possible_tells:
  "gcra_possible_effect (\<lambda>_. True) tab (pg_maximum_rows_per_shard config) cs e (sw_db w) (sw_db w') \<Longrightarrow>
   error_tells (pg_gcra_spent tab config t cs w w') (pg_kept t w w') (CheckError_consumption e)"
  by (auto simp: error_tells_def error_not_consumed gcra_possible_effect_def pg_gcra_spent_def)

lemma gcra_denial_cases:
  assumes "gcra_first_denial maximum now d cs = Some adm"
  obtains (denied) i x where "adm = PA_Denied i x" "i < length cs"
  | (shadow) i q where "adm = PA_ShadowDenied i q" "i < length cs" "gcp_quota_mode (chk_policy (cs ! i)) = Shadow"
proof -
  from assms obtain i where "gcra_denial_at maximum now d cs i = Some adm" "i < length cs"
    by (auto simp: gcra_first_denial_def find_Some_iff)
  then show thesis using denied shadow by (auto simp: gcra_denial_at_def Let_def split: if_splits)
qed

text \<open>What an outcome of the server says of the tables.\<close>

lemma gcra_outcome_effect:
  assumes "gcra_outcome (\<lambda>_. True) tab (pg_maximum_rows_per_shard config) cs build (sw_db w) dec (sw_db w')"
  obtains adm where "build adm = Ok dec"
    "case adm of
       PA_Allowed as \<Rightarrow> length as = length cs \<and> pg_gcra_spent tab config t cs w w'
     | PA_Denied i _ \<Rightarrow> i < length cs \<and> sw_db w' = sw_db w
     | PA_ShadowDenied i _ \<Rightarrow> i < length cs \<and> sw_db w' = sw_db w \<and> gcp_quota_mode (chk_policy (cs ! i)) = Shadow"
proof -
  from assms obtain time where o: "build (gcra_admission_spec (pg_maximum_rows_per_shard config) cs (nat (gcra_batch_time cs (sw_db w) time)) (sw_db w)) = Ok dec"
    "gcra_effect tab (pg_maximum_rows_per_shard config) cs (gcra_batch_time cs (sw_db w) time) (sw_db w) (sw_db w')"
    by (auto simp: gcra_outcome_def Let_def)
  show thesis
  proof (cases "gcra_first_denial (pg_maximum_rows_per_shard config) (nat (gcra_batch_time cs (sw_db w) time)) (sw_db w) cs")
    case None
    then show thesis by (intro that [OF o(1)]) (use o(2) in \<open>auto simp: gcra_admission_spec_def pg_gcra_spent_def Let_def\<close>)
  next
    case (Some adm)
    then have same: "sw_db w' = sw_db w" using o(2) by (simp add: gcra_effect_def)
    show thesis by (rule that [OF o(1)]) (use Some same in \<open>auto simp: gcra_admission_spec_def elim: gcra_denial_cases\<close>)
  qed
qed

lemma gcra_check_outcome_tells:
  assumes "gcra_outcome (\<lambda>_. True) tab (pg_maximum_rows_per_shard config) [c] single_decision (sw_db w) dec (sw_db w')"
  shows "decision_tells (pg_gcra_spent tab config t [c] w w') (pg_kept t w w') (gcp_quota_mode (chk_policy c) = Shadow) dec"
proof (rule gcra_outcome_effect [OF assms])
  fix adm
  assume "single_decision adm = Ok dec" and "case adm of
       PA_Allowed as \<Rightarrow> length as = length [c] \<and> pg_gcra_spent tab config t [c] w w'
     | PA_Denied i _ \<Rightarrow> i < length [c] \<and> sw_db w' = sw_db w
     | PA_ShadowDenied i _ \<Rightarrow> i < length [c] \<and> sw_db w' = sw_db w \<and> gcp_quota_mode (chk_policy ([c] ! i)) = Shadow"
  then show ?thesis by (cases adm) (auto simp: decision_tells_def dest: single_decision_view)
qed

lemma gcra_batch_outcome_tells:
  assumes "gcra_outcome (\<lambda>_. True) tab (pg_maximum_rows_per_shard config) cs (batch_decision_of (length cs)) (sw_db w) dec (sw_db w')"
  shows "batch_tells (pg_gcra_spent tab config t cs w w') (pg_kept t w w') (length cs) dec"
proof (rule gcra_outcome_effect [OF assms])
  fix adm
  assume "batch_decision_of (length cs) adm = Ok dec" and "case adm of
       PA_Allowed as \<Rightarrow> length as = length cs \<and> pg_gcra_spent tab config t cs w w'
     | PA_Denied i _ \<Rightarrow> i < length cs \<and> sw_db w' = sw_db w
     | PA_ShadowDenied i _ \<Rightarrow> i < length cs \<and> sw_db w' = sw_db w \<and> gcp_quota_mode (chk_policy (cs ! i)) = Shadow"
  then show ?thesis by (cases adm) (auto simp: batch_tells_def admission_view_def dest: batch_decision_of_view)
qed

lemma pg_gcra_check_law:
  assumes "gcra_tables_ok tab (sw_db w)" "gc_ok tab c" "lm_check (postgres_gcra_limiter config t) w c = (w', r)"
  shows "case r of None \<Rightarrow> False
    | Some (Ok dec) \<Rightarrow> gcra_outcome (\<lambda>_. True) tab (pg_maximum_rows_per_shard config) [c] single_decision (sw_db w) dec (sw_db w')
    | Some (Err e) \<Rightarrow> gcra_possible_effect (\<lambda>_. True) tab (pg_maximum_rows_per_shard config) [c] e (sw_db w) (sw_db w')"
  using gcra_run_sound [where T = "\<lambda>_. True" and tab = tab and w = "serving t w" and checks = "[c]" and build = single_decision and config = config] build_error_not_consumed(1) assms
  by (auto simp: postgres_gcra_limiter_def pg_gcra_check_def split: prod.splits option.splits sum.splits)

lemma pg_gcra_batch_law:
  assumes "gcra_tables_ok tab (sw_db w)" "list_all (gc_ok tab) cs" "lm_check_all (postgres_gcra_limiter config t) w cs = (w', r)"
  shows "case r of None \<Rightarrow> False
    | Some (Ok dec) \<Rightarrow> gcra_outcome (\<lambda>_. True) tab (pg_maximum_rows_per_shard config) cs (batch_decision_of (length cs)) (sw_db w) dec (sw_db w')
    | Some (Err (PgInvalidBatch e)) \<Rightarrow> sw_db w' = sw_db w
    | Some (Err (PgCheck e)) \<Rightarrow> gcra_possible_effect (\<lambda>_. True) tab (pg_maximum_rows_per_shard config) cs e (sw_db w) (sw_db w')"
  using gcra_check_all_outcome [where T = "\<lambda>_. True" and tab = tab and w = "serving t w" and checks = cs and config = config] assms
  by (auto simp: postgres_gcra_limiter_def pg_gcra_check_all_def list_all_iff
      split: prod.splits option.splits sum.splits batch_check_error.splits)

interpretation postgres_gcra: limiter_contract "postgres_gcra_limiter config" gcp_quota_mode "\<lambda>t w. gcra_tables_ok tab (sw_db w)"
    "gc_ok tab" pg_kept "pg_gcra_spent tab config" CheckError_consumption BatchCheckError_consumption PgInvalidBatch
  for tab config
proof (unfold_locales, goal_cases)
  case (2 t w c)
  then show ?case using pg_gcra_check_law [OF 2, of config t] by (cases "lm_check (postgres_gcra_limiter config t) w c") (auto split: option.splits)
next
  case (3 t w c)
  then show ?case using pg_gcra_check_law [OF 3] by (auto intro!: gcra_check_outcome_tells)
next
  case (4 t w c)
  then show ?case using pg_gcra_check_law [OF 4] by (auto intro!: gcra_possible_tells)
next
  case (5 t w cs)
  then show ?case using pg_gcra_batch_law [OF 5(1,2), of config t]
    by (cases "lm_check_all (postgres_gcra_limiter config t) w cs") (auto split: option.splits)
next
  case (6 t w cs)
  then show ?case using pg_gcra_batch_law [OF 6(1,2,4)] by (auto intro!: gcra_batch_outcome_tells)
next
  case (7 t w cs w' x)
  then show ?case using pg_gcra_batch_law [OF 7(1,2,4)]
    by (cases x) (auto intro!: gcra_possible_tells simp: BatchCheckError_consumption_def, simp add: error_tells_def)
next
  case (8 t w)
  then show ?case by (simp add: postgres_gcra_limiter_def pg_gcra_check_all_def gcra_check_all_result_def validate_batch_def)
qed simp

section \<open>Properties\<close>

text \<open>An observer that keeps what it is told.\<close>

definition recording :: "observation \<Rightarrow> observation list \<Rightarrow> observation list \<times> bool" where
  "recording observation log = (log @ [observation], False)"

abbreviation batch_charged where
  "batch_charged config checks d d' \<equiv>
     \<exists>now. pg_first_denial (pg_maximum_rows_per_shard config) now d checks = None \<and> pg_charged now checks d d'"

text \<open>
  C8: telemetry about quota is true of the database. Whatever the server does to a batch, the operation
  reports exactly one observation. If it says that quota was consumed then every counter of the batch
  is durably charged, and was within its limit; if it says that none was consumed then the tables are
  as they were; only if it says that quota was possibly consumed may either be the case, and nothing else.
\<close>

theorem postgres_telemetry_true:
  assumes "tables_ok (sw_db w)" "postgres_config_ok config" "interval_exact to_interval"
    and "list_all pg_check_ok checks" "length checks < 2 ^ 63"
  shows "\<exists>w' r ob. pg_check_all (Some recording) log sha256 to_interval sql_server config elapsed checks w =
      (log @ [Obs_Admission ob], w', Some r) \<and>
    (case ao_consumption ob of
       Consumed \<Rightarrow> batch_charged config checks (sw_db w) (sw_db w')
     | NotConsumed \<Rightarrow> sw_db w' = sw_db w
     | PossiblyConsumed \<Rightarrow> sw_db w' = sw_db w \<or> batch_charged config checks (sw_db w) (sw_db w'))"
proof -
  let ?t = "(sw_clock w, sw_time w, sw_script w)" and ?limiter = "postgres_limiter sha256 to_interval config"
  have same: "serving ?t w = w" by (simp add: serving_def)
  have u: "pg_usable to_interval config ?t w" using assms(1-3) by (simp add: pg_usable_def)
  obtain w' r where run: "check_all_unobserved sha256 to_interval sql_server config checks w = (w', Some r)"
    and lm: "lm_check_all (?limiter ?t) w checks = (w', Some r)"
    using postgres.check_all_answers [OF u assms(4,5), of sha256]
    by (auto simp: postgres_limiter_def pg_check_all_def same split: prod.splits option.splits sum.splits)
  let ?ob = "case r of Ok decision \<Rightarrow> from_batch FixedWindowPolicy checks decision elapsed
    | Err error \<Rightarrow> failed_batch FixedWindowPolicy checks (BatchCheckError_consumption error) elapsed"
  have "pg_check_all (Some recording) log sha256 to_interval sql_server config elapsed checks w = (log @ [Obs_Admission ?ob], w', Some r)"
    using run by (simp add: pg_check_all_def notify_def observe_safely_def recording_def split: sum.split)
  moreover have "ao_consumption ?ob = batch_report BatchCheckError_consumption r"
    by (simp add: batch_report_def from_batch_def failed_batch_def case_prod_beta split: sum.split)
  moreover have "pg_spent config ?t checks w w' \<Longrightarrow> batch_charged config checks (sw_db w) (sw_db w')"
    using shows_only_True unfolding pg_spent_def by blast
  ultimately show ?thesis using postgres.batch_report_true [OF u assms(4,5) lm]
    by (intro exI [of _ w'] exI [of _ r] exI [of _ ?ob]) (auto split: consumption_status.splits)
qed

theorem postgres_telemetry_true_witness:
  "\<exists>w' r ob. pg_check_all (Some recording) [] id micros_of sql_server PostgresConfig_new 7 [pg_sample_check 3] sample_world =
      ([Obs_Admission ob], w', Some r) \<and>
    (case ao_consumption ob of
       Consumed \<Rightarrow> batch_charged PostgresConfig_new [pg_sample_check 3] (sw_db sample_world) (sw_db w')
     | NotConsumed \<Rightarrow> sw_db w' = sw_db sample_world
     | PossiblyConsumed \<Rightarrow> sw_db w' = sw_db sample_world \<or>
         batch_charged PostgresConfig_new [pg_sample_check 3] (sw_db sample_world) (sw_db w'))"
  using postgres_telemetry_true [OF sample_world_ok default_config_ok micros_of_exact, of "[pg_sample_check 3]" "[]" id 7]
  by (simp add: pg_sample_check_ok)

end
