(* ===== verification/Axum_Postgres.thy ===== *)
theory Axum_Postgres
  imports Axum_Limiter Postgres_Limiters
begin

text \<open>
  The Axum layer in front of the durable fixed-window limiter: requests served through
  \<open>RateLimitService::call\<close> with \<open>PostgresLimiter::check\<close> as its limiter, each against a server that may
  misbehave in its own way.
\<close>

section \<open>The metered limiter\<close>

text \<open>The database clock shows only times between \<open>t0\<close> and \<open>t1\<close>, in any order.\<close>

abbreviation runs_between :: "timestamp \<Rightarrow> timestamp \<Rightarrow> (server_run \<times> 'b request) list \<Rightarrow> bool" where
  "runs_between t0 t1 \<equiv> arrivals_ok (\<lambda>f. shows_only (between f t1)) (\<lambda>f _. f) t0"

interpretation axum_postgres: metered_limiter "postgres_limiter sha256 to_interval config" fwp_quota_mode "pg_usable to_interval config"
    pg_check_ok pg_kept "pg_spent config" CheckError_consumption BatchCheckError_consumption PgInvalidBatch
    "\<lambda>f. shows_only (between f t1)" "\<lambda>f _. f" "\<lambda>f w. tables_ok (sw_db w) \<and> postgres_config_ok config \<and> interval_exact to_interval"
    "\<lambda>f w. potential_of k L W t1 f (sw_db w)" "window_check_ok k L W" "\<lambda>c. cost_at pg_key k [c]"
  for sha256 to_interval config k L W t1
proof (unfold_locales, goal_cases)
  case (1 f w t)
  then show ?case by (simp add: pg_usable_def)
next
  case (3 f w t c w')
  then obtain now where now: "between f t1 now" "pg_first_denial (pg_maximum_rows_per_shard config) now (sw_db w) [c] = None"
    "pg_charged now [c] (sw_db w) (sw_db w')" by (auto simp: pg_spent_def)
  from charged_pays [OF _ _ _ now] 3 show ?case by (simp add: pg_spent_def)
qed simp

section \<open>Properties\<close>

text \<open>
  C23: the layer enforces the limit of the durable limiter at the handler, for an enforcing policy (one in
  shadow mode only observes and permits every request). Whatever requests are served,
  whichever statements, replies and commits are lost on the way, and however the database clock moves
  between \<open>t0\<close> and \<open>t1\<close>, the handler runs for one subject at most as often as the window open at \<open>t0\<close>
  still allows plus one full limit for each window length begun since.
\<close>

theorem axum_postgres_end_to_end:
  assumes "tables_ok (sw_db w)" "postgres_config_ok config" "interval_exact to_interval" "runs_between t0 t1 rs"
    and "\<And>request s. extractor request policy = Ok s \<Longrightarrow> pg_check_ok (subject_check policy s)"
    and "fwp_quota_mode policy = Enforce"
    and "pg_check_ok (subject_check policy s)"
  shows "served FixedWindowPolicy (postgres_limiter sha256 to_interval config) policy extractor reject response s w rs \<le>
      (case window_at (sw_db w) (pg_key (subject_check policy s)) of
         Some row \<Rightarrow> if t0 < wr_expires_at row then capacity_get (fwp_limit policy) - nat (wr_used row) else 0
       | None \<Rightarrow> 0) +
      capacity_get (fwp_limit policy) * (1 + nat ((t1 - t0) div (int (period_millis (fwp_window policy)) * 1000)))"
proof -
  let ?c = "subject_check policy s" and ?W = "int (period_millis (fwp_window policy)) * 1000" and ?L = "capacity_get (fwp_limit policy)"
  let ?k = "pg_key ?c"
  have W: "0 < ?W" using pg_check_bounds(4) [OF assms(7)] by (simp add: window_micros_def)
  have "served FixedWindowPolicy (postgres_limiter sha256 to_interval config) policy extractor reject response s w rs * cost_at pg_key ?k [?c]
      \<le> potential_of ?k ?L ?W t1 t0 (sw_db w)"
  proof (rule axum_postgres.served_metered [OF _ assms(6) _ assms(4)])
    show "pg_check_ok (subject_check policy s') \<and> window_check_ok ?k ?L ?W (subject_check policy s')"
      if "extractor request policy = Ok s'" for request s'
      using assms(5) [OF that] by (simp add: window_check_ok_def window_micros_def)
  qed (use assms(1-3) in blast)
  then show ?thesis using potential_of_bound [OF W, of ?L t1 t0 ?k "sw_db w"]
    by (simp add: cost_at_def)
qed

text \<open>Three requests on migrated tables: one served, one whose commit is lost, one served after the server's clock stepped back.\<close>

theorem axum_postgres_end_to_end_witness:
  "served FixedWindowPolicy (postgres_limiter id micros_of PostgresConfig_new) (fwp_with_quota_mode Enforce (chk_policy (pg_sample_check 1)))
     (\<lambda>_ _. Ok (SubjectKey (replicate 32 2)) :: (unit, subject_key) result) (\<lambda>_. ()) () (SubjectKey (replicate 32 2)) sample_world
     (map (\<lambda>t. (t, \<lparr>rq_content = (), rq_admissions = None\<rparr>))
        [(0, 2000, []), (0, 3000, [(5, 10, 1, No_Fault), (5, 10, 1, Reply_Lost None)]), (0, 1000, [])]) \<le> 8"
proof -
  let ?p = "fwp_with_quota_mode Enforce (chk_policy (pg_sample_check 1))" and ?s = "SubjectKey (replicate 32 2)"
  let ?rs = "map (\<lambda>t. (t, \<lparr>rq_content = (), rq_admissions = None\<rparr>))
        [(0, 2000, []), (0, 3000, [(5, 10, 1, No_Fault), (5, 10, 1, Reply_Lost None)]), (0, 1000, [])]"
  have p: "fwp_quota_mode ?p = Enforce" "capacity_get (fwp_limit ?p) = 8" "period_millis (fwp_window ?p) = 60000"
    by (simp_all add: fwp_with_quota_mode_def pg_sample_check_def sample_fwp_def)
  have c: "pg_check_ok (subject_check ?p ?s)"
    by (simp add: pg_check_ok_def fwp_with_quota_mode_def pg_sample_check_def sample_fwp_def check_ok_def FixedWindowPolicy_def
        small_values_ok counter_key_ok_def chk_counter_key_def del: str_simps)
  have "runs_between 1000 4000 ?rs" by (simp add: shows_only_def between_def)
  from axum_postgres_end_to_end [where extractor = "\<lambda>_ _. Ok ?s :: (unit, subject_key) result" and policy = ?p and s = ?s
      and reject = "\<lambda>_. ()" and response = "()", OF sample_world_ok default_config_ok micros_of_exact this _ p(1) c, of id]
  show ?thesis using c p by (simp add: sample_world_def migrated_tables_def)
qed

end
