(* ===== verification/Postgres_Live.thy ===== *)
theory Postgres_Live
  imports Postgres_World
begin

text \<open>
  When the client of the Postgres backend succeeds: against the server of \<open>Postgres_World\<close>, with a script that has
  no faults, takes less time than the operation may, and keeps the database clock in its range, every
  shared step of an operation returns. The rules are triples whose failures are impossible.
\<close>

section \<open>Healthy worlds\<close>

definition script_delay :: "(duration \<times> int \<times> int \<times> fault) list \<Rightarrow> duration" where
  "script_delay script = sum_list (map fst script)"

definition script_drift :: "(duration \<times> int \<times> int \<times> fault) list \<Rightarrow> int" where
  "script_drift script = sum_list (map (\<lambda>(_, before, during, _). \<bar>before\<bar> + \<bar>during\<bar>) script)"

text \<open>\<open>margin\<close> is how far ahead of the clock the operation computes timestamps.\<close>

definition healthy :: "int \<Rightarrow> instant \<Rightarrow> 'd sql_world \<Rightarrow> bool" where
  "healthy margin deadline w \<longleftrightarrow>
     (\<forall>(_, _, _, fault) \<in> set (sw_script w). fault = No_Fault) \<and>
     sw_clock w + script_delay (sw_script w) < deadline \<and>
     TIMESTAMP_BEGIN \<le> sw_time w - script_drift (sw_script w) \<and>
     sw_time w + script_drift (sw_script w) + margin < TIMESTAMP_END"

definition in_range :: "int \<Rightarrow> timestamp \<Rightarrow> bool" where
  "in_range margin t \<longleftrightarrow> TIMESTAMP_BEGIN \<le> t \<and> t + margin < TIMESTAMP_END"

lemma sample_in_range: "in_range 0 t \<Longrightarrow> \<exists>s. SAMPLE_TIME t = Ok s \<and> sample_ok s"
  using sample_time_ok [of t] by (simp add: in_range_def SAMPLE_TIME_def)

lemma script_drift_nonneg: "0 \<le> script_drift script"
  unfolding script_drift_def by (rule sum_list_nonneg) auto

lemma sql_tick_healthy:
  assumes "healthy margin deadline w"
  obtains w1 during where "sql_tick w = (w1, during, No_Fault)" "healthy margin deadline w1" "healthy margin deadline (w1\<lparr>sw_time := sw_time w1 + during\<rparr>)"
    "sw_db w1 = sw_db w" "sw_tx w1 = sw_tx w" "sw_locked w1 = sw_locked w" "sw_clock w1 < deadline" "in_range margin (sw_time w1)" "in_range margin (sw_time w1 + during)"
proof (cases "sw_script w")
  case Nil
  show thesis
  proof (rule that [of w 0])
    show "healthy margin deadline (w\<lparr>sw_time := sw_time w + 0\<rparr>)" using assms by (simp add: healthy_def)
    show "in_range margin (sw_time w)" "in_range margin (sw_time w + 0)" "sw_clock w < deadline"
      using assms by (simp_all add: healthy_def in_range_def Nil script_drift_def script_delay_def)
  qed (use assms in \<open>simp_all add: sql_tick_def Nil\<close>)
next
  case (Cons step script)
  obtain delay before during fault where step: "step = (delay, before, during, fault)" by (cases step)
  note drift = script_drift_nonneg [of script]
  define w1 where "w1 = w\<lparr>sw_clock := sw_clock w + delay, sw_time := sw_time w + before, sw_script := script\<rparr>"
  have h: "fault = No_Fault" "\<forall>(_, _, _, fault) \<in> set script. fault = No_Fault" "sw_clock w + delay + script_delay script < deadline"
    "TIMESTAMP_BEGIN \<le> sw_time w - (\<bar>before\<bar> + \<bar>during\<bar> + script_drift script)"
    "sw_time w + (\<bar>before\<bar> + \<bar>during\<bar> + script_drift script) + margin < TIMESTAMP_END"
    using assms by (auto simp: healthy_def Cons step script_delay_def script_drift_def)
  show thesis
  proof (rule that [of w1 during])
    show "sql_tick w = (w1, during, No_Fault)" by (simp add: sql_tick_def Cons step w1_def h(1))
    show "healthy margin deadline w1" "healthy margin deadline (w1\<lparr>sw_time := sw_time w1 + during\<rparr>)"
      using h(2-) by (simp_all add: healthy_def w1_def abs_if split: if_splits)
    show "in_range margin (sw_time w1)" "in_range margin (sw_time w1 + during)"
      using h(4,5) drift by (simp_all add: in_range_def w1_def abs_if split: if_splits)
    show "sw_clock w1 < deadline" using h(3) by (simp add: w1_def)
  qed (simp_all add: w1_def)
qed

section \<open>Statements and steps\<close>

definition live :: "(timestamp \<Rightarrow> bool) \<Rightarrow> (timestamp \<Rightarrow> sql_lock \<Rightarrow> bool) \<Rightarrow> int \<Rightarrow> instant \<Rightarrow> 'd \<Rightarrow> 'd \<Rightarrow> 'd sql_world \<Rightarrow> bool" where
  "live T locked margin deadline d d' w \<longleftrightarrow> healthy margin deadline w \<and> sw_db w = d \<and> sw_tx w = d' \<and> server_in T locked w"

abbreviation lives where "lives P m Q \<equiv> triple P m Q (\<lambda>_ _. False)"

text \<open>What a statement does when it runs between \<open>t\<close> and \<open>fin\<close>: it leaves the clocks, the locks and the script alone.\<close>

definition runs where
  "runs T locked margin run d d' Q \<longleftrightarrow> (\<forall>w t fin. sw_db w = d \<longrightarrow> sw_tx w = d' \<longrightarrow> sw_locked w = locked \<longrightarrow>
     T t \<longrightarrow> in_range margin t \<longrightarrow> in_range margin fin \<longrightarrow>
     (\<exists>w' x. run t fin w = Ok (w', x) \<and> Q x (sw_db w') (sw_tx w') \<and>
        sw_clock w' = sw_clock w \<and> sw_script w' = sw_script w \<and> sw_locked w' = sw_locked w))"

lemma sql_statement_live:
  assumes "runs T locked margin run d d' Q" "live T locked margin deadline d d' w"
  obtains w' x where "sql_statement run w = (w', Answered x)" "healthy margin deadline w'" "server_in T locked w'" "Q x (sw_db w') (sw_tx w')"
proof -
  have h: "healthy margin deadline w" "sw_db w = d" "sw_tx w = d'" "clock_in T w" "sw_locked w = locked"
    using assms(2) by (simp_all add: live_def server_in_def)
  from sql_tick_healthy [OF h(1)] obtain w1 during where t: "sql_tick w = (w1, during, No_Fault)"
    "healthy margin deadline (w1\<lparr>sw_time := sw_time w1 + during\<rparr>)" "in_range margin (sw_time w1)" "in_range margin (sw_time w1 + during)" by metis
  note k = sql_tick_keeps [OF t(1) h(4)]
  with assms(1) h t obtain w2 x where r: "run (sw_time w1) (sw_time w1 + during) w1 = Ok (w2, x)" "Q x (sw_db w2) (sw_tx w2)"
    "sw_clock w2 = sw_clock w1" "sw_script w2 = sw_script w1" "sw_locked w2 = sw_locked w1" unfolding runs_def by metis
  show thesis
  proof (rule that [of "w2\<lparr>sw_time := sw_time w1 + during\<rparr>" x])
    show "sql_statement run w = (w2\<lparr>sw_time := sw_time w1 + during\<rparr>, Answered x)" by (simp add: sql_statement_def t(1) r(1) Let_def)
    show "healthy margin deadline (w2\<lparr>sw_time := sw_time w1 + during\<rparr>)" using t(2) r(3,4) by (simp add: healthy_def)
    show "server_in T locked (w2\<lparr>sw_time := sw_time w1 + during\<rparr>)" using k r(4,5) h(5) by (simp add: server_in_def clock_in_def)
  qed (use r(2) in simp_all)
qed

lemma check_before_commit_live:
  assumes "runs T locked margin run d d' Q"
  shows "lives (live T locked margin deadline d d') (check_before_commit phase (sql_statement run)) (\<lambda>x w. healthy margin deadline w \<and> server_in T locked w \<and> Q x (sw_db w) (sw_tx w))"
proof (rule tripleI)
  fix w assume "live T locked margin deadline d d' w"
  from sql_statement_live [OF assms this] obtain w' x where "sql_statement run w = (w', Answered x)" "healthy margin deadline w'" "server_in T locked w'" "Q x (sw_db w') (sw_tx w')" .
  then show "case check_before_commit phase (sql_statement run) w of (w', None) \<Rightarrow> False
      | (w', Some (Ok x)) \<Rightarrow> healthy margin deadline w' \<and> server_in T locked w' \<and> Q x (sw_db w') (sw_tx w') | (w', Some (Err f)) \<Rightarrow> False"
    by (simp add: check_before_commit_def)
qed

lemma set_timeouts_live: "lives (live T locked margin deadline d d') (set_check_server_timeouts sql_session deadline phase) (\<lambda>_. live T locked margin deadline d d')"
proof (rule tripleI)
  fix w assume w: "live T locked margin deadline d d' w"
  then have "healthy margin deadline w" by (simp add: live_def)
  from sql_tick_healthy [OF this] obtain w1 during where t: "sql_tick w = (w1, during, No_Fault)" "healthy margin deadline w1"
    "sw_db w1 = sw_db w" "sw_tx w1 = sw_tx w" "sw_clock w1 < deadline" "sw_locked w1 = sw_locked w" by metis
  then have w1: "live T locked margin deadline d d' w1" using w sql_tick_keeps [OF t(1)] by (auto simp: live_def server_in_def)
  have "runs T locked margin (\<lambda>_ _ w. Ok (w, ())) d d' (\<lambda>_ d1 d2. d1 = d \<and> d2 = d')" by (auto simp: runs_def)
  from tripleD [OF check_before_commit_live [OF this] w1, of phase]
  show "case set_check_server_timeouts sql_session deadline phase w of (w', None) \<Rightarrow> False
      | (w', Some (Ok a)) \<Rightarrow> live T locked margin deadline d d' w' | (w', Some (Err f)) \<Rightarrow> False"
    using t(1,5) by (auto simp: set_check_server_timeouts_def sql_session_def remaining_server_timeout_settings_def Let_def live_def
        split: prod.splits option.splits sum.splits)
qed

lemma tx_execute_live:
  assumes "runs T locked margin run d d' (\<lambda>x d1 d2. d1 = d \<and> R x d2)"
  shows "lives (live T locked margin deadline d d') (tx_execute sql_session deadline phase (sql_statement run)) (\<lambda>x w. \<exists>d2. live T locked margin deadline d d2 w \<and> R x d2)"
  unfolding tx_execute_def
proof (rule triple_and_await [OF set_timeouts_live])
  fix a :: unit
  show "lives (live T locked margin deadline d d') (check_before_commit phase (sql_statement run)) (\<lambda>x w. \<exists>d2. live T locked margin deadline d d2 w \<and> R x d2)"
    by (rule triple_weaken [OF check_before_commit_live [OF assms]]) (auto simp: live_def)
qed

lemma begin_live: "lives (\<lambda>w. healthy margin deadline w \<and> sw_db w = d \<and> server_in T locked w) (check_before_commit BeginningTransaction (sv_begin sql_session)) (\<lambda>_. live T locked margin deadline d d)"
proof (rule tripleI)
  fix w assume "healthy margin deadline w \<and> sw_db w = d \<and> server_in T locked w"
  then have w: "live T locked margin deadline d (sw_tx w) w" by (simp add: live_def)
  have "runs T locked margin (\<lambda>_ _ w. Ok (w\<lparr>sw_tx := sw_db w, sw_xid := sw_xid w + 1\<rparr>, ())) d (sw_tx w) (\<lambda>_ d1 d2. d1 = d \<and> d2 = d)" by (auto simp: runs_def)
  from tripleD [OF check_before_commit_live [OF this] w, of BeginningTransaction]
  show "case check_before_commit BeginningTransaction (sv_begin sql_session) w of (w', None) \<Rightarrow> False
      | (w', Some (Ok a)) \<Rightarrow> live T locked margin deadline d d w' | (w', Some (Err f)) \<Rightarrow> False"
    by (auto simp: sql_session_def live_def split: prod.splits option.splits sum.splits)
qed

lemma tx_commit_live: "lives (live T locked margin deadline d d') (tx_commit sql_session deadline) (\<lambda>_ w. healthy margin deadline w \<and> sw_db w = d')"
  unfolding tx_commit_def
proof (rule triple_and_await [OF set_timeouts_live])
  fix a :: unit
  show "lives (live T locked margin deadline d d') (commit_check sql_session deadline) (\<lambda>_ w. healthy margin deadline w \<and> sw_db w = d')"
  proof (rule tripleI)
    fix w assume w: "live T locked margin deadline d d' w"
    then have "healthy margin deadline w" by (simp add: live_def)
    from sql_tick_healthy [OF this] obtain w1 during where t: "sql_tick w = (w1, during, No_Fault)" "healthy margin deadline w1"
      "sw_db w1 = sw_db w" "sw_tx w1 = sw_tx w" "sw_clock w1 < deadline" "sw_locked w1 = sw_locked w" by metis
    then have w1: "live T locked margin deadline d d' w1" using w sql_tick_keeps [OF t(1)] by (auto simp: live_def server_in_def)
    have "runs T locked margin (\<lambda>_ _ w. Ok (w\<lparr>sw_db := sw_tx w\<rparr>, ())) d d' (\<lambda>_ d1 d2. d1 = d')" by (auto simp: runs_def)
    from sql_statement_live [OF this w1] obtain w2 x where "sql_statement (\<lambda>_ _ w. Ok (w\<lparr>sw_db := sw_tx w\<rparr>, ())) w1 = (w2, Answered x)"
      "healthy margin deadline w2" "server_in T locked w2" "sw_db w2 = d'" .
    then show "case commit_check sql_session deadline w of (w', None) \<Rightarrow> False
        | (w', Some (Ok a)) \<Rightarrow> healthy margin deadline w' \<and> sw_db w' = d' | (w', Some (Err f)) \<Rightarrow> False"
      using t(1,5) by (simp add: commit_check_def sql_session_def Let_def)
  qed
qed

lemma finish_denied_value: "lives P (finish_denied_transaction sql_session dec) (\<lambda>c _. outcome_value c = dec)"
  by (rule tripleI) (auto simp: finish_denied_transaction_def outcome_value_def split: prod.splits answer.splits)

lemma finish_denied_live: "lives P (finish_denied_transaction sql_session dec) (\<lambda>_ _. True)"
  by (rule triple_weaken [OF finish_denied_value]) simp_all

text \<open>A whole operation. The connection and the reading of the clock precede the deadline.\<close>

definition calm :: "int \<Rightarrow> postgres_config \<Rightarrow> 'd sql_world \<Rightarrow> bool" where
  "calm margin config w \<longleftrightarrow> healthy margin (sw_clock w + pg_operation_timeout config) w"

lemma run_guarded_yields:
  assumes calm: "calm margin config w" and T: "clock_in T w"
    and inner: "\<And>deadline. lives (\<lambda>w'. healthy margin deadline w' \<and> sw_db w' = sw_db w \<and> server_in T (sw_locked w) w') (inner deadline)
      (\<lambda>c w'. Q (outcome_value c) (sw_db w'))"
  shows "\<exists>w' a. run_guarded sql_session config inner w = (w', Some (Ok a)) \<and> Q a (sw_db w')"
proof -
  have w: "live T (sw_locked w) margin (sw_clock w + pg_operation_timeout config) (sw_db w) (sw_tx w) w"
    using calm T by (simp add: calm_def live_def server_in_def)
  have "runs T (sw_locked w) margin (\<lambda>_ _ w. Ok (w, ())) (sw_db w) (sw_tx w) (\<lambda>_ d1 d2. d1 = sw_db w)" by (auto simp: runs_def)
  from sql_statement_live [OF this w] obtain w1 x where a: "sql_statement (\<lambda>_ _ w. Ok (w, ())) w = (w1, Answered x)"
    "healthy margin (sw_clock w + pg_operation_timeout config) w1" "server_in T (sw_locked w) w1" "sw_db w1 = sw_db w" .
  from sql_tick_healthy [OF a(2)] obtain w2 during where t: "sql_tick w1 = (w2, during, No_Fault)"
    "healthy margin (sw_clock w + pg_operation_timeout config) w2" "sw_db w2 = sw_db w1" by metis
  have s: "server_in T (sw_locked w) w2" using a(3) sql_tick_keeps [OF t(1)] by (auto simp: server_in_def)
  have "sw_clock w \<le> sw_clock w2"
    using a(1) t(1) by (auto simp: sql_statement_def sql_tick_def Let_def split: list.splits prod.splits fault.splits)
  then have "healthy margin (sw_clock w2 + pg_operation_timeout config) w2 \<and> sw_db w2 = sw_db w \<and> server_in T (sw_locked w) w2"
    using t(2,3) a(4) s by (auto simp: healthy_def)
  from tripleD [OF inner this]
  obtain w3 c where "inner (sw_clock w2 + pg_operation_timeout config) w2 = (w3, Some (Ok c))" "Q (outcome_value c) (sw_db w3)"
    by (auto split: prod.splits option.splits sum.splits)
  moreover have "sv_now sql_session w1 = (w2, sw_clock w2)" using t(1) by (simp add: sql_session_def)
  moreover have "sw_db (sv_release sql_session b w) = sw_db w" for b and w :: "'a sql_world" by (simp add: sql_session_def)
  ultimately show ?thesis using a(1)
    by (cases c) (simp_all add: run_guarded_def and_await_def acquire_check_connection_def guard_finish_def ConnectionOutcome_map_def outcome_value_def)
qed

lemma run_guarded_live:
  assumes "calm margin config w"
    and "\<And>deadline. lives (\<lambda>w'. healthy margin deadline w' \<and> sw_db w' = sw_db w \<and> server_in (\<lambda>_. True) (sw_locked w) w') (inner deadline) (\<lambda>_ _. True)"
  shows "\<exists>w' a. run_guarded sql_session config inner w = (w', Some (Ok a))"
  using run_guarded_yields [OF assms(1), of "\<lambda>_. True" inner "\<lambda>_ _. True"] assms(2) by simp

end
