(* ===== verification/Postgres_Window_Live.thy ===== *)
theory Postgres_Window_Live
  imports Postgres_Server Postgres_Live
begin

text \<open>
  The fixed-window limiter on Postgres answers: with a healthy server every single check and every valid batch
  gets a decision. The margin of the clock is the longest window, since an admission writes the end of the
  window it opens.
\<close>

section \<open>The session of the server\<close>

lemma sql_server_session:
  "tx_execute sql_server = tx_execute sql_session" "sv_begin sql_server = sv_begin sql_session" "tx_commit sql_server = tx_commit sql_session"
  "finish_denied_transaction sql_server = finish_denied_transaction sql_session" "run_guarded sql_server = run_guarded sql_session"
proof -
  have timeouts: "set_check_server_timeouts sql_server = set_check_server_timeouts sql_session"
    and commit: "commit_check sql_server = commit_check sql_session"
    and acquire: "acquire_check_connection sql_server = acquire_check_connection sql_session"
    by (intro ext, simp only: set_check_server_timeouts_def commit_check_def acquire_check_connection_def sql_server_fields)+
  show "tx_execute sql_server = tx_execute sql_session" "tx_commit sql_server = tx_commit sql_session"
    "finish_denied_transaction sql_server = finish_denied_transaction sql_session" "run_guarded sql_server = run_guarded sql_session"
    by (intro ext, simp only: tx_execute_def tx_commit_def finish_denied_transaction_def run_guarded_def timeouts commit acquire sql_server_fields)+
qed (rule sql_server_fields)

lemma sql_server_statements:
  "sv_advisory_locks sql_server ids = sql_statement (\<lambda>_ _ w. Ok (w, ()))"
  "sv_row_locks sql_server input = sql_statement (\<lambda>_ _ w. Ok (w, ()))"
  "sv_capacity_locks sql_server input = sql_statement (\<lambda>_ _ w. Ok (w, BATCH_CAPACITY_LOCK_SQL input (sw_tx w)))"
  "sv_preflight sql_server input = sql_statement (\<lambda>now r w. Ok (w, BATCH_PREFLIGHT_SQL input now r (sw_tx w)))"
  "sv_upsert sql_server input t = sql_statement (\<lambda>_ r w.
     and_then (BATCH_UPSERT_SQL input t r (sw_tx w)) (\<lambda>(d, rows). Ok (w\<lparr>sw_tx := d\<rparr>, rows)))"
  by (simp_all add: sql_server_def sql_session_def)

section \<open>A batch\<close>

definition window_margin :: int where
  "window_margin = int MAX_WINDOW_MILLIS * 1000"

lemma window_in_range: "pg_check_ok c \<Longrightarrow> in_range window_margin t \<Longrightarrow> t + window_micros c < TIMESTAMP_END"
  by (auto simp: pg_check_ok_def period_ok_def window_margin_def window_micros_def in_range_def)

text \<open>The three statements, for a batch whose outcome is defined at every time in range.\<close>

lemma capacity_live:
  assumes "capacity_loop (bi_capacity_shards input) maximum (replicate CAPACITY_SHARD_COUNT 0) (BATCH_CAPACITY_LOCK_SQL input d) = Ok cd"
  shows "lives (live T locked margin deadline d d) (first_capacity_denial sql_server deadline input maximum) (\<lambda>x w. live T locked margin deadline d d w \<and> x = cd)"
proof -
  have locks: "lives (live T locked margin deadline d d) (tx_execute sql_session deadline AcquiringCapacityShardLocks (sv_capacity_locks sql_server input))
      (\<lambda>x w. \<exists>d2. live T locked margin deadline d d2 w \<and> d2 = d \<and> x = BATCH_CAPACITY_LOCK_SQL input d)"
    unfolding sql_server_statements by (rule tx_execute_live) (auto simp: runs_def)
  show ?thesis unfolding first_capacity_denial_def sql_server_session
    by (rule triple_and_await [OF locks], intro triple_pre_ex triple_pre_conj, clarify, rule triple_ready) (auto simp: assms)
qed

lemma preflight_live:
  assumes "\<And>now r e. in_range margin now \<Longrightarrow> decode_preflight checks (BATCH_PREFLIGHT_SQL input now r d) \<noteq> Err e"
  shows "lives (live T locked margin deadline d d) (preflight_batch sql_server deadline input checks)
    (\<lambda>p w. live T locked margin deadline d d w \<and> (\<exists>now r. in_range margin now \<and> decode_preflight checks (BATCH_PREFLIGHT_SQL input now r d) = Ok p))"
proof -
  have read: "lives (live T locked margin deadline d d) (tx_execute sql_session deadline PreflightingCounters (sv_preflight sql_server input))
      (\<lambda>x w. \<exists>d2. live T locked margin deadline d d2 w \<and> d2 = d \<and> (\<exists>now r. in_range margin now \<and> x = BATCH_PREFLIGHT_SQL input now r d))"
    unfolding sql_server_statements by (rule tx_execute_live) (auto simp: runs_def)
  show ?thesis unfolding preflight_batch_def sql_server_session
    by (rule triple_and_await [OF read], intro triple_pre_ex triple_pre_conj, clarify, rule triple_ready)
      (auto simp: map_err_eq_Inl map_err_eq_Inr assms)
qed

lemma upsert_live:
  assumes "\<And>r. \<exists>d' rows as rn. BATCH_UPSERT_SQL input now r d = Ok (d', rows) \<and> decode_upsert checks now rows = Ok (as, rn)"
  shows "lives (live T locked margin deadline d d) (upsert_batch sql_server deadline input checks now)
    (\<lambda>(as, rn) w. \<exists>d' r rows. live T locked margin deadline d d' w \<and> BATCH_UPSERT_SQL input now r d = Ok (d', rows) \<and> decode_upsert checks now rows = Ok (as, rn))"
proof -
  have "runs T locked margin (\<lambda>_ r (w :: pg_tables sql_world). and_then (BATCH_UPSERT_SQL input now r (sw_tx w)) (\<lambda>(d, rows). Ok (w\<lparr>sw_tx := d\<rparr>, rows))) d d
      (\<lambda>x d1 d2. d1 = d \<and> (\<exists>r. BATCH_UPSERT_SQL input now r d = Ok (d2, x) \<and> (\<exists>as rn. decode_upsert checks now x = Ok (as, rn))))"
    unfolding runs_def
  proof (intro allI impI)
    fix w :: "pg_tables sql_world" and t fin :: timestamp assume w: "sw_db w = d" "sw_tx w = d"
    from assms [of fin] obtain d' rows as rn where "BATCH_UPSERT_SQL input now fin d = Ok (d', rows)" "decode_upsert checks now rows = Ok (as, rn)" by blast
    then show "\<exists>w' x. and_then (BATCH_UPSERT_SQL input now fin (sw_tx w)) (\<lambda>(d, rows). Ok (w\<lparr>sw_tx := d\<rparr>, rows)) = Ok (w', x) \<and>
        (sw_db w' = d \<and> (\<exists>r. BATCH_UPSERT_SQL input now r d = Ok (sw_tx w', x) \<and> (\<exists>as rn. decode_upsert checks now x = Ok (as, rn)))) \<and>
        sw_clock w' = sw_clock w \<and> sw_script w' = sw_script w \<and> sw_locked w' = sw_locked w"
      using w by auto
  qed
  note statement = tx_execute_live [OF this]
  show ?thesis unfolding upsert_batch_def sql_server_session sql_server_statements
    by (rule triple_and_await [OF statement], intro triple_pre_ex triple_pre_conj, clarify, rule triple_ready) (auto simp: map_err_eq_Inl map_err_eq_Inr)
qed

lemma preflight_now: "decode_preflight checks (BATCH_PREFLIGHT_SQL input now r d) = Ok p \<Longrightarrow> bp_database_now p = now"
  by (auto simp: decode_preflight_def BATCH_PREFLIGHT_SQL_def and_then_eq_Inr try_get_def map_err_def Let_def)

lemma execute_batch_live:
  assumes total: "\<And>now r1 r2. in_range window_margin now \<Longrightarrow> \<exists>res. sql_result input checks maximum now r1 r2 d = Ok res"
  shows "lives (live T locked window_margin deadline d d) (execute_batch sql_server deadline input checks maximum)
    (\<lambda>(p, el) w. \<exists>d' now r1 r2. live T locked window_margin deadline d d' w \<and> sql_result input checks maximum now r1 r2 d = Ok (p, el, d'))"
proof -
  let ?live = "live T locked window_margin deadline d" and ?ok = "in_range window_margin"
  have "?ok TIMESTAMP_BEGIN" by (simp add: in_range_def window_margin_def MAX_WINDOW_MILLIS_value TIMESTAMP_BEGIN_def TIMESTAMP_END_def)
  from total [OF this] obtain cd where
    cd: "capacity_loop (bi_capacity_shards input) maximum (replicate CAPACITY_SHARD_COUNT 0) (BATCH_CAPACITY_LOCK_SQL input d) = Ok cd"
    by (auto simp: batch_result_def and_then_eq_Inr)
  have decoded: "decode_preflight checks (BATCH_PREFLIGHT_SQL input now r d) \<noteq> Err e" if "?ok now" for now r e
    using total [OF that, of r r] by (auto simp: batch_result_def and_then_eq_Inr)
  show ?thesis unfolding execute_batch_def
  proof (rule triple_and_await [OF capacity_live [OF cd]], intro triple_pre_conj, clarify,
      rule triple_and_await [OF preflight_live [OF decoded]], assumption, intro triple_pre_conj, clarify)
    fix p now r assume p: "?ok now" "decode_preflight checks (BATCH_PREFLIGHT_SQL input now r d) = Ok p"
    note now = preflight_now [OF p(2)]
    show "lives (?live d) (case first_denial_of cd (bp_denial p) of
         Some (i, x) \<Rightarrow> ready_result (Ok (PB_Denied i x, authoritative_elapsed (bp_database_now p) (bp_response_now p)))
       | None \<Rightarrow> and_await (upsert_batch sql_server deadline input checks (bp_database_now p)) (\<lambda>(as, rn).
           ready_result (Ok (PB_Allowed as, authoritative_elapsed (bp_database_now p) rn))))
      (\<lambda>(p, el) w. \<exists>d' now r1 r2. ?live d' w \<and> sql_result input checks maximum now r1 r2 d = Ok (p, el, d'))"
    proof (cases "first_denial_of cd (bp_denial p)")
      case None
      have "\<exists>d' rows as rn. BATCH_UPSERT_SQL input now r2 d = Ok (d', rows) \<and> decode_upsert checks now rows = Ok (as, rn)" for r2
        using total [OF p(1), of r r2] p(2) None cd now by (auto simp: batch_result_def and_then_eq_Inr map_err_def split: sum.splits)
      note upsert = upsert_live [OF this]
      have "sql_result input checks maximum now r r2 d = Ok (PB_Allowed as, authoritative_elapsed now rn, d')"
        if "BATCH_UPSERT_SQL input now r2 d = Ok (d', rows)" "decode_upsert checks now rows = Ok (as, rn)" for r2 d' rows as rn
        using p(2) cd None now that by (simp add: batch_result_def)
      then show ?thesis unfolding None option.case now
        by (intro triple_and_await [OF upsert]) (auto intro!: triple_pre_ex triple_ready, blast)
    next
      case (Some x)
      obtain i y where x: "x = (i, y)" by fastforce
      have "sql_result input checks maximum now r r d = Ok (PB_Denied i y, authoritative_elapsed (bp_database_now p) (bp_response_now p), d)"
        using p(2) cd Some x by (simp add: batch_result_def)
      then show ?thesis unfolding Some x option.case prod.case by (intro triple_ready) auto
    qed
  qed
qed

section \<open>A transaction\<close>

lemma pg_admission_cases:
  assumes "checks \<noteq> []"
  shows "case pg_admission_spec maximum checks now el d of
    PA_Allowed as \<Rightarrow> length as = length checks | PA_Denied i _ \<Rightarrow> i < length checks | PA_ShadowDenied i _ \<Rightarrow> i < length checks"
  by (auto simp: pg_admission_spec_def pg_first_denial_def find_Some_iff split: option.splits pending_denial.splits quota_mode.splits)

lemma pg_builders_total:
  "\<exists>dec. single_decision (pg_admission_spec maximum [c] now el d) = Ok dec"
  "checks \<noteq> [] \<Longrightarrow> \<exists>dec. batch_decision_of (length checks) (pg_admission_spec maximum checks now el d) = Ok dec"
proof -
  show "\<exists>dec. single_decision (pg_admission_spec maximum [c] now el d) = Ok dec"
    using pg_admission_cases [of "[c]" maximum now el d]
    by (auto simp: single_decision_def length_Suc_conv split: pg_admission.splits list.splits)
  assume "checks \<noteq> []"
  from pg_admission_cases [OF this, of maximum now el d] \<open>checks \<noteq> []\<close>
  show "\<exists>dec. batch_decision_of (length checks) (pg_admission_spec maximum checks now el d) = Ok dec"
    by (auto simp: batch_decision_of_def BatchDecision_allowed_def BatchDecision_denied_def BatchDecision_shadow_denied_def
        validate_batch_index_def split: pg_admission.splits)
qed

lemma finish_batch_live:
  assumes adm: "pending_admission checks p el = Some adm" and build: "build adm = Ok dec"
  shows "lives (live T locked margin deadline d d')
     (case p of
       PB_Denied index denial \<Rightarrow>
         (\<lambda>w. case denied_admission checks el index denial of
            None \<Rightarrow> (w, None)
          | Some admission \<Rightarrow>
              (case build admission of
                 Err error \<Rightarrow> (w, Some (Err (reusable_check_error error)))
               | Ok decision \<Rightarrow> finish_denied_transaction sql_server decision w))
     | PB_Allowed allowances \<Rightarrow>
         (\<lambda>w. case those (map (PendingAllowance_finish el) allowances) of
            None \<Rightarrow> (w, None)
          | Some allowances \<Rightarrow>
              (case build (PA_Allowed allowances) of
                 Err error \<Rightarrow> (w, Some (Err (reusable_check_error error)))
               | Ok decision \<Rightarrow>
                   and_await (tx_commit sql_server deadline) (\<lambda>_. ready_result (Ok (Reusable decision))) w)))
     (\<lambda>_ _. True)"
proof (cases p)
  case (PB_Denied i x)
  have "lives (live T locked margin deadline d d') (finish_denied_transaction sql_server dec) (\<lambda>_ _. True)"
    unfolding sql_server_session by (rule finish_denied_live)
  then show ?thesis using adm build PB_Denied by (simp add: triple_def pending_admission_def)
next
  case (PB_Allowed as)
  have "lives (live T locked margin deadline d d') (and_await (tx_commit sql_server deadline) (\<lambda>_. ready_result (Ok (Reusable dec)))) (\<lambda>_ _. True)"
    unfolding sql_server_session by (rule triple_and_await [OF tx_commit_live], rule triple_ready) auto
  then show ?thesis using adm build PB_Allowed by (auto simp: triple_def pending_admission_def)
qed

lemma window_transaction_live:
  assumes d: "tables_ok d" and input: "input_of checks input" and checks: "pg_checks_ok checks" and max: "maximum \<le> HARD_MAX_ROWS_PER_SHARD"
    and build: "\<And>now el. \<exists>dec. build (pg_admission_spec maximum checks now el d) = Ok dec"
  shows "lives (\<lambda>w. healthy window_margin deadline w \<and> sw_db w = d \<and> server_in T locked w)
    (run_check_transaction_inner sql_server input checks maximum deadline build) (\<lambda>_ _. True)"
proof -
  have ok: "\<forall>c \<in> set checks. pg_check_ok c" "checks \<noteq> []" "length checks < 2 ^ 63" "distinct (map pg_key checks)"
    using checks pg_key_distinct by (auto simp: pg_checks_ok_def list_all_iff)
  note sound = sql_result_sound [OF d input ok(4,2,3,1) max]
  have total: "\<exists>res. sql_result input checks maximum now r1 r2 d = Ok res" if "in_range window_margin now" for now r1 r2
    using sql_result_spec [OF d input ok(4,2,3,1) _ max, of now r1 r2] window_in_range [OF _ that] ok(1) by blast
  have lock: "lives (live T locked window_margin deadline d d) (tx_execute sql_session deadline phase (sql_statement (\<lambda>_ _ w. Ok (w, ()))))
      (\<lambda>_ w. \<exists>d2. live T locked window_margin deadline d d2 w \<and> d2 = d)" for phase
    by (rule tx_execute_live) (auto simp: runs_def)
  show ?thesis unfolding run_check_transaction_inner_def
    unfolding sql_server_session(1,2) sql_server_statements
  proof (rule triple_and_await [OF begin_live], rule triple_and_await [OF lock], intro triple_pre_ex triple_pre_conj, hypsubst,
      rule triple_and_await [OF lock], intro triple_pre_ex triple_pre_conj, hypsubst,
      rule triple_and_await [OF execute_batch_live [OF total]], assumption, unfold split_def, intro triple_pre_ex triple_pre_conj, goal_cases)
    case (1 _ _ _ _ _ x d' now r1 r2)
    from pending_admission_spec [OF conjunct1 [OF sound [OF 1]] ok(2)]
    have adm: "pending_admission checks (fst x) (snd x) = Some (pg_admission_spec maximum checks now (snd x) d)" .
    from build obtain dec where "build (pg_admission_spec maximum checks now (snd x) d) = Ok dec" by blast
    from finish_batch_live [where build = build, OF adm this] show ?case .
  qed
qed

lemma run_checks_live:
  assumes d: "tables_ok (sw_db w)" and config: "postgres_config_ok config" and checks: "pg_checks_ok checks" and interval: "interval_exact to_interval"
    and calm: "calm window_margin config w"
    and build: "\<And>now el. \<exists>dec. build (pg_admission_spec (pg_maximum_rows_per_shard config) checks now el (sw_db w)) = Ok dec"
  shows "\<exists>w' dec. run_checks sha256 to_interval sql_server config checks build w = (w', Some (Ok dec))"
proof -
  from checks from_checks_ok [OF _ interval, of checks sha256] obtain input where
    input: "BatchSqlInput_from_checks sha256 to_interval checks = Some input" "input_of checks input"
    by (auto simp: pg_checks_ok_def list_all_iff)
  have "pg_maximum_rows_per_shard config \<le> HARD_MAX_ROWS_PER_SHARD" using config by (simp add: postgres_config_ok_def)
  note inner = window_transaction_live [where build = build, OF d input(2) checks this]
  from run_guarded_live [where inner = "\<lambda>deadline. run_check_transaction_inner sql_server input checks (pg_maximum_rows_per_shard config) deadline build",
      OF calm inner] build show ?thesis
    by (simp add: run_checks_def input(1) sql_server_session)
qed

section \<open>Properties\<close>

text \<open>
  C17: the durable fixed-window limiter answers. If no statement fails, the replies arrive within the
  operation's time and the database clock is further from the end of its range than the longest window,
  every single check and every valid batch gets a decision and not an error or a panic: the parameters of
  the statements fit their columns, every row the statements return decodes, and the writes violate
  neither a row constraint nor the bound of a capacity shard.
\<close>

theorem postgres_check_answers:
  assumes "tables_ok (sw_db w)" "postgres_config_ok config" "interval_exact to_interval" "calm window_margin config w"
    and "pg_check_ok check" "list_all pg_check_ok checks" "length checks < 2 ^ 63" "batch_ok FixedWindowPolicy (pg_max_batch_size config) checks"
  shows "(\<exists>ost' w' decision. pg_check observer ost sha256 to_interval sql_server config elapsed check w = (ost', w', Some (Ok decision))) \<and>
    (\<exists>ost' w' decision. pg_check_all observer ost sha256 to_interval sql_server config elapsed checks w = (ost', w', Some (Ok decision)))"
proof
  note live = run_checks_live [OF assms(1,2) _ assms(3,4)]
  have "\<exists>w' dec. run_checks sha256 to_interval sql_server config [check] single_decision w = (w', Some (Ok dec))"
    by (rule live) (simp_all add: pg_checks_ok_def assms(5) pg_builders_total(1))
  then show "\<exists>ost' w' decision. pg_check observer ost sha256 to_interval sql_server config elapsed check w = (ost', w', Some (Ok decision))"
    by (auto simp: pg_check_def)
  have ok: "pg_checks_ok checks" using assms(6-8) by (auto simp: pg_checks_ok_def batch_ok_def)
  then have "\<exists>w' dec. run_checks sha256 to_interval sql_server config checks (batch_decision_of (length checks)) w = (w', Some (Ok dec))"
    by (intro live) (simp_all add: pg_checks_ok_def pg_builders_total(2))
  moreover have "validate_batch FixedWindowPolicy checks (pg_max_batch_size config) = Ok ()" using assms(8) by (simp add: validate_batch_Ok)
  ultimately show "\<exists>ost' w' decision. pg_check_all observer ost sha256 to_interval sql_server config elapsed checks w = (ost', w', Some (Ok decision))"
    by (auto simp: pg_check_all_def check_all_unobserved_def)
qed

theorem postgres_check_answers_witness:
  "(\<exists>ost' w' decision. pg_check None () id micros_of sql_server PostgresConfig_new 7 (pg_sample_check 3)
      (sample_world\<lparr>sw_script := [(5, 10, - 1, No_Fault)]\<rparr>) = (ost', w', Some (Ok decision))) \<and>
   (\<exists>ost' w' decision. pg_check_all None () id micros_of sql_server PostgresConfig_new 7 [pg_sample_check 3]
      (sample_world\<lparr>sw_script := [(5, 10, - 1, No_Fault)]\<rparr>) = (ost', w', Some (Ok decision)))"
proof (rule postgres_check_answers [OF _ default_config_ok micros_of_exact])
  let ?w = "sample_world\<lparr>sw_script := [(5, 10, - 1, No_Fault)]\<rparr>"
  show "tables_ok (sw_db ?w)" using sample_world_ok by simp
  show "calm window_margin PostgresConfig_new ?w"
    by (simp add: calm_def healthy_def script_delay_def script_drift_def sample_world_def PostgresConfig_new_def window_margin_def
        MAX_WINDOW_MILLIS_value pg_config_constants rust_defs TIMESTAMP_BEGIN_def TIMESTAMP_END_def)
  show "pg_check_ok (pg_sample_check 3)" "list_all pg_check_ok [pg_sample_check 3]" by (simp_all add: pg_sample_check_ok)
  show "batch_ok FixedWindowPolicy (pg_max_batch_size PostgresConfig_new) [pg_sample_check 3]"
    by (simp add: batch_ok_def PostgresConfig_new_def pg_config_constants)
qed simp

end
