(* ===== verification/Postgres_Gcra_Live.thy ===== *)
theory Postgres_Gcra_Live
  imports Postgres_Gcra_Limits Postgres_Live
begin

text \<open>
  The GCRA limiter on Postgres answers: with a healthy server every valid batch gets a decision. The stored
  rows decode, the arithmetic stays in its exact range, and the writes violate no constraint.
\<close>

section \<open>The computations of the client succeed\<close>

definition clocks_bounded :: "gcra_tables \<Rightarrow> bool" where
  "clocks_bounded d \<longleftrightarrow> (\<forall>s. observed_at d s \<le> LATEST_MS)"

lemma fold_max_int_le: "fold max xs (a :: int) \<le> b \<longleftrightarrow> a \<le> b \<and> (\<forall>x \<in> set xs. x \<le> b)"
  by (induction xs arbitrary: a) auto

lemma gcra_clock_total:
  assumes ok: "gcra_tables_ok tab d" "clocks_bounded d" and ne: "checks \<noteq> []" and t: "sample_ok t"
  obtains counts now where "gcra_clock (gcra_shards checks) (LOCK_SHARDS (gcra_shards checks) d) (Ok t) = Ok (counts, now)" "now \<le> LATEST_MS"
proof -
  let ?now = "fold max (map (observed_at d) (gcra_shards checks)) t"
  have "\<forall>s \<in> set (gcra_shards checks). s < length (replicate CAPACITY_SHARD_COUNT (0 :: int)) \<and>
      gcra_rows_in s (gt_counters d) \<le> HARD_MAX_ROWS_PER_SHARD \<and> 0 \<le> observed_at d s"
    using ok(1) gcra_shards_less by (auto simp: gcra_tables_ok_def)
  from gcra_ledger_loop_spec [OF this gcra_shards_facts(3), of t] obtain counts where
    loop: "gcra_ledger_loop (LOCK_SHARDS (gcra_shards checks) d) (gcra_shards checks) (replicate CAPACITY_SHARD_COUNT 0) t = Ok (counts, ?now)"
    by (auto simp: lock_shards_rows [OF ok(1)])
  obtain s where "s \<in> set (gcra_shards checks)" using ne by (fastforce simp: gcra_shards_facts(1) neq_Nil_conv)
  then have "observed_at d s \<le> ?now" by (intro fold_max_int_ge(2)) simp
  moreover have "0 \<le> observed_at d s" using ok(1) by (simp add: gcra_tables_ok_def)
  moreover have "?now \<le> LATEST_MS" using ok(2) t by (simp add: fold_max_int_le clocks_bounded_def sample_ok_def)
  ultimately show thesis using loop by (intro that [of counts ?now]) (simp_all add: gcra_clock_def gcra_field_def)
qed

lemma gcra_evaluate_check_total:
  assumes ok: "gcra_tables_ok tab d" and c: "gc_ok tab c" and now: "observed_at d (key_shard (gcra_key c)) \<le> int now" "now < 2 ^ 64"
  shows "\<exists>x. gcra_evaluate_check now i c (gcra_row_of d (i, c)) = Ok x"
proof -
  have g: "gcheck_ok c" using c by (simp add: gc_ok_def)
  let ?st = "gcra_counter d (gcra_key c)"
  define stored where "stored = map_option (\<lambda>(tat, expires). (tat, nat expires)) ?st"
  have decoded: "gcra_stored c (gcra_row_of d (i, c)) = Ok stored"
  proof (cases ?st)
    case (Some x)
    obtain tat e where x: "x = (tat, e)" by (cases x)
    note entry = counter_entry_ok [OF ok Some [unfolded x]]
    from gentry_ok_mono [OF entry(2), of now] now(1) have "gentry_ok (tab (ck_fingerprint (gkey c))) now tat (nat e)" by (simp add: gcra_key_def)
    then have t: "tat_ok c now (Some tat)" "nat e = div_ceil tat (gq c)" by (simp_all add: gc_ok_entry [OF c])
    have "tat < 2 ^ 128" using t(1) product_bounds(5) [OF g now(2) t(1)] by (simp add: tat_ok_def)
    then show ?thesis using Some entry(1) t(2)
      by (simp add: x stored_def gcra_stored_def gcra_row_of_def gcra_field_def gcra_decode_stored_def parse_unsigned_decimal ok_or_def
          gcra_stored_agrees_def gcra_row_constraints_def gq_def)
  qed (simp add: stored_def gcra_stored_def gcra_row_of_def gcra_field_def gcra_decode_stored_def gcra_stored_agrees_def)
  have "active_stored_tat now stored = tat_of (gcra_in_force now d (gcra_key c))"
    by (cases ?st) (auto simp: stored_def active_stored_tat_def gcra_in_force_def)
  then have "evaluate c now (active_stored_tat now stored) = Ok (gcra_spec c now (tat_of (gcra_in_force now d (gcra_key c))))"
    using evaluate_eq_spec [OF g now(2) in_force_tat_ok [OF ok c now(1)]] by simp
  then show ?thesis using decoded by (simp add: gcra_evaluate_check_def) (simp add: gcra_row_of_def gcra_field_def Let_def)
qed

lemma gcra_evaluate_loop_total:
  assumes "\<forall>c \<in> set checks. \<forall>i. \<exists>x. gcra_evaluate_check now i c (gcra_row_of d (i, c)) = Ok x"
  shows "\<exists>r. gcra_evaluate_loop maximum now i checks (map (gcra_row_of d) (enumerate i checks)) counts denial pending = Ok r"
  using assms
proof (induction checks arbitrary: i counts denial pending)
  case (Cons c checks)
  then obtain stored evaluated where "gcra_evaluate_check now i c (gcra_row_of d (i, c)) = Ok (stored, evaluated)" by fastforce
  then show ?case using Cons.IH [of "Suc i"] Cons.prems by (cases evaluated) (auto simp: Let_def)
qed simp

lemma gcra_expiries_total:
  assumes "\<forall>a \<in> set as. pa_expires_at_millis a < 2 ^ 63"
  shows "gcra_expiries as = Ok (map (\<lambda>a. int (pa_expires_at_millis a)) as)"
  using assms unfolding gcra_expiries_def by (induction as) (auto simp: ok_or_def database_integer_def)

section \<open>The writes succeed\<close>

lemma gcra_upsert_rows_total:
  assumes "distinct ks" "set ks \<inter> set wr = {}" "\<forall>(k, t, e) \<in> set (zip ks (zip ts es)). length (fst k) = 32 \<and> length (snd k) = 32 \<and> 0 \<le> e \<and> (\<exists>n < 10 ^ 39. t = decimal n)"
    and "length ts = length ks" "length es = length ks"
  shows "\<exists>cs'. for_each gcra_upsert_row (zip ks (zip ts es)) (cs, ins, wr) = Ok (cs', ins @ filter (\<lambda>k. map_of cs k = None) ks, wr @ ks)"
  using assms
proof (induction ks arbitrary: ts es cs ins wr)
  case (Cons k ks)
  then obtain t ts' e es' where te: "ts = t # ts'" "es = e # es'" by (cases ts; cases es) auto
  from Cons.prems(3) obtain n where n: "t = decimal n" "n < 10 ^ 39" and c: "gcra_row_constraints k n e" by (auto simp: te gcra_row_constraints_def)
  then have num: "numeric_of t = Ok n" using decimal_digits [of n] by (simp add: numeric_of_def list_all_iff)
  obtain cs1 where step: "gcra_upsert_row (k, t, e) (cs, ins, wr) = Ok (cs1, ins @ filter (\<lambda>k. map_of cs k = None) [k], wr @ [k])"
    "map_of cs1 = (map_of cs)(k \<mapsto> (n, e))"
  proof (cases "map_of cs k")
    case None
    then show thesis using num c that [of "cs @ [(k, n, e)]"]
      by (auto simp: gcra_upsert_row_def fun_eq_iff map_add_def split: option.splits)
  next
    case (Some v)
    then show thesis using num c Cons.prems(2) that [of "AList.update k (n, e) cs"] by (auto simp: gcra_upsert_row_def update_conv')
  qed
  have same: "filter (\<lambda>k. map_of cs1 k = None) ks = filter (\<lambda>k. map_of cs k = None) ks"
    using Cons.prems(1) step(2) by (intro filter_cong) auto
  have "\<exists>cs'. for_each gcra_upsert_row (zip ks (zip ts' es')) (cs1, ins @ filter (\<lambda>k. map_of cs k = None) [k], wr @ [k]) =
      Ok (cs', (ins @ filter (\<lambda>k. map_of cs k = None) [k]) @ filter (\<lambda>k. map_of cs1 k = None) ks, (wr @ [k]) @ ks)"
    by (rule Cons.IH) (use Cons.prems te in auto)
  then show ?case using step(1) by (auto simp: te same)
qed simp

lemma capacity_insert_total:
  assumes "\<And>k. k \<in> set ks \<Longrightarrow> \<exists>n t. shards (key_shard k) = Some (n, t) \<and> n + int (in_shard (key_shard k) ks) \<le> 65536"
  shows "\<exists>shards'. for_each gcra_capacity_insert (map key_shard ks) shards = Ok shards'"
  using assms
proof (induction ks arbitrary: shards)
  case (Cons k ks)
  from Cons.prems [of k] obtain n t where k: "shards (key_shard k) = Some (n, t)" "n + 1 + int (in_shard (key_shard k) ks) \<le> 65536" by auto
  then have step: "gcra_capacity_insert (key_shard k) shards = Ok (shards(key_shard k \<mapsto> (n + 1, t)))" by (simp add: gcra_capacity_insert_def)
  have "\<exists>m u. (shards(key_shard k \<mapsto> (n + 1, t))) (key_shard j) = Some (m, u) \<and> m + int (in_shard (key_shard j) ks) \<le> 65536" if "j \<in> set ks" for j
    using Cons.prems [of j] that k by (auto split: if_splits)
  from Cons.IH [OF this] show ?case using step by (simp add: fun_upd_def)
qed simp

lemma new_slots_fit:
  assumes none: "gcra_first_denial maximum now d checks = None" and c: "c \<in> set checks" "gcra_counter d (gcra_key c) = None"
  shows "gcra_rows_in (key_shard (gcra_key c)) (gt_counters d) +
    in_shard (key_shard (gcra_key c)) (filter (\<lambda>k. gcra_counter d k = None) (map gcra_key checks)) \<le> maximum"
proof -
  let ?s = "key_shard (gcra_key c)"
  let ?P = "\<lambda>x. gcra_counter d (gcra_key x) = None \<and> key_shard (gcra_key x) = ?s"
  from split_list_last_prop [of checks ?P] c obtain xs x zs where x: "checks = xs @ x # zs" "?P x" "\<forall>z \<in> set zs. \<not> ?P z" by blast
  have "in_shard ?s (filter (\<lambda>k. gcra_counter d k = None) (map gcra_key checks)) = length (filter ?P checks)"
    by (simp add: in_shard_def filter_map comp_def conj_commute)
  also have "\<dots> = Suc (length (filter ?P xs))" using x by (simp add: filter_empty_conv)
  finally have total: "in_shard ?s (filter (\<lambda>k. gcra_counter d k = None) (map gcra_key checks)) = Suc (length (filter ?P xs))" .
  have "\<forall>i < length checks. gcra_denial_at maximum now d checks i = None" using none by (auto simp: gcra_first_denial_def find_None_iff)
  then have "gcra_denial_at maximum now d checks (length xs) = None" using x(1) by simp
  then have "gcra_rows_in ?s (gt_counters d) + length (filter ?P xs) < maximum"
    using x by (auto simp: gcra_denial_at_def gcra_slots_before_def Let_def not_le split: if_splits)
  with total show ?thesis by simp
qed

lemma upsert_total:
  assumes ok: "gcra_tables_ok tab d" and checks: "\<forall>c \<in> set checks. gc_ok tab c" and keys: "distinct (map gcra_key checks)"
    and len: "\<forall>c \<in> set checks. length (fst (gcra_key c)) = 32 \<and> length (snd (gcra_key c)) = 32"
    and now: "\<forall>c \<in> set checks. observed_at d (key_shard (gcra_key c)) \<le> int now" "now < 2 ^ 62"
    and none: "gcra_first_denial maximum now d checks = None" and max: "maximum \<le> 65536"
  shows "\<exists>exps d1. gcra_expiries (map (gcra_pend now d) checks) = Ok exps \<and>
    UPSERT (gcra_fingerprints checks) (gcra_subjects checks) (gcra_tats (map (gcra_pend now d) checks)) exps d = Ok (d1, length checks)"
proof -
  let ?as = "map (gcra_pend now d) checks"
  have pend: "pa_expires_at_millis (gcra_pend now d c) < 2 ^ 63" "pa_tat_scaled (gcra_pend now d c) < 10 ^ 39" if "c \<in> set checks" for c
  proof -
    have c: "gc_ok tab c" "gcheck_ok c" using checks that by (auto simp: gc_ok_def)
    note tat = in_force_tat_ok [OF ok c(1)] and n = g_next_ok [OF c(1) in_force_tat_ok [OF ok c(1)] first_denial_None_conforms [OF none that]]
    have o: "observed_at d (key_shard (gcra_key c)) \<le> int now" using now(1) that by simp
    show "pa_expires_at_millis (gcra_pend now d c) < 2 ^ 63"
      using n(2) [OF o] now(2) by (simp add: gcra_pend_def Let_def MAX_WINDOW_MILLIS_value)
    have "active c now (tat_of (gcra_in_force now d (gcra_key c))) + chk_cost c * gp c < 2 ^ 128"
      by (rule product_bounds(4) [OF c(2) _ tat [OF o]]) (use now(2) in simp)
    then show "pa_tat_scaled (gcra_pend now d c) < 10 ^ 39" by (simp add: gcra_pend_def Let_def g_next_def)
  qed
  define exps where "exps = map (\<lambda>a. int (pa_expires_at_millis a)) ?as"
  have exps: "gcra_expiries ?as = Ok exps" unfolding exps_def by (rule gcra_expiries_total) (use pend(1) in auto)
  have rows: "\<forall>(k, t, e) \<in> set (zip (map gcra_key checks) (zip (gcra_tats ?as) exps)).
      length (fst k) = 32 \<and> length (snd k) = 32 \<and> 0 \<le> e \<and> (\<exists>n < 10 ^ 39. t = decimal n)"
    using len pend(2) by (auto simp: gcra_tats_def exps_def zip_map_map zip_same_conv_map)
  have "\<exists>cs'. for_each gcra_upsert_row (zip (map gcra_key checks) (zip (gcra_tats ?as) exps)) (gt_counters d, [], []) =
      Ok (cs', [] @ filter (\<lambda>k. gcra_counter d k = None) (map gcra_key checks), [] @ map gcra_key checks)"
    by (rule gcra_upsert_rows_total [OF keys _ rows]) (simp_all add: gcra_tats_def exps_def)
  then obtain cs' where up: "for_each gcra_upsert_row (zip (map gcra_key checks) (zip (gcra_tats ?as) exps)) (gt_counters d, [], []) =
      Ok (cs', filter (\<lambda>k. gcra_counter d k = None) (map gcra_key checks), map gcra_key checks)" by auto
  have "\<exists>shards'. for_each gcra_capacity_insert (map key_shard (filter (\<lambda>k. gcra_counter d k = None) (map gcra_key checks))) (gt_shards d) = Ok shards'"
  proof (rule capacity_insert_total)
    fix k assume "k \<in> set (filter (\<lambda>k. gcra_counter d k = None) (map gcra_key checks))"
    then obtain c where c: "c \<in> set checks" "k = gcra_key c" "gcra_counter d (gcra_key c) = None" by auto
    from new_slots_fit [OF none c(1,3)] max c(2) ok key_shard_less [of k]
    show "\<exists>n t. gt_shards d (key_shard k) = Some (n, t) \<and> n + int (in_shard (key_shard k) (filter (\<lambda>k. gcra_counter d k = None) (map gcra_key checks))) \<le> 65536"
      by (auto simp: gcra_tables_ok_def)
  qed
  with up exps show ?thesis by (auto simp: UPSERT_def zip_keys)
qed

section \<open>A batch\<close>

lemma gcra_evaluate_rows_total:
  assumes ok: "gcra_tables_ok tab d" and checks: "\<forall>c \<in> set checks. gc_ok tab c"
    and clock: "gcra_clock (gcra_shards checks) (LOCK_SHARDS (gcra_shards checks) d) sample = Ok (counts, now)" "now \<le> LATEST_MS"
  shows "gcra_evaluate_rows checks (READ_COUNTERS (gcra_fingerprints checks) (gcra_subjects checks) d) counts maximum (nat now) =
    Ok (case gcra_first_denial maximum (nat now) d checks of Some x \<Rightarrow> GP_Denied x | None \<Rightarrow> GP_Allowed (map (gcra_pend (nat now) d) checks))"
proof -
  from gcra_clock_spec [OF ok clock(1)] have c: "0 \<le> now" "counts_after d [] checks counts"
    "\<forall>c \<in> set checks. observed_at d (key_shard (gcra_key c)) \<le> int (nat now)" by (auto simp: counts_after_def)
  have "nat now < 2 ^ 64" using clock(2) c(1) by (simp add: clock_bounds nat_less_iff)
  then have "\<forall>x \<in> set checks. \<forall>i. \<exists>y. gcra_evaluate_check (nat now) i x (gcra_row_of d (i, x)) = Ok y"
    using gcra_evaluate_check_total [OF ok] checks c(3) by blast
  from gcra_evaluate_loop_total [OF this, of maximum 0 counts None "[]"]
  obtain r where "gcra_evaluate_rows checks (READ_COUNTERS (gcra_fingerprints checks) (gcra_subjects checks) d) counts maximum (nat now) = Ok r"
    by (auto simp: gcra_evaluate_rows_def read_counters_rows)
  moreover have "\<forall>c \<in> set checks. gcheck_ok c" using checks by (simp add: gc_ok_def)
  ultimately show ?thesis using gcra_evaluate_rows_spec [OF _ c(2)] by blast
qed

text \<open>An admission that fits the batch makes a decision.\<close>

lemma gcra_admission_cases:
  "case gcra_admission_spec maximum checks now d of
     PA_Allowed as \<Rightarrow> length as = length checks | PA_Denied i _ \<Rightarrow> i < length checks | PA_ShadowDenied i _ \<Rightarrow> i < length checks"
proof (cases "gcra_first_denial maximum now d checks")
  case None
  then show ?thesis by (simp add: gcra_admission_spec_def)
next
  case (Some x)
  then obtain i where "i < length checks" "gcra_denial_at maximum now d checks i = Some x"
    by (auto simp: gcra_first_denial_def find_Some_iff)
  then show ?thesis by (auto simp: gcra_admission_spec_def Some gcra_denial_at_def Let_def split: if_splits)
qed

lemma gcra_builders_total:
  "\<exists>dec. single_decision (gcra_admission_spec maximum [c] now d) = Ok dec"
  "checks \<noteq> [] \<Longrightarrow> \<exists>dec. batch_decision_of (length checks) (gcra_admission_spec maximum checks now d) = Ok dec"
proof -
  show "\<exists>dec. single_decision (gcra_admission_spec maximum [c] now d) = Ok dec"
    using gcra_admission_cases [where checks = "[c]" and maximum = maximum and now = now and d = d]
    by (auto simp: single_decision_def length_Suc_conv split: pg_admission.splits list.splits)
  assume "checks \<noteq> []"
  then show "\<exists>dec. batch_decision_of (length checks) (gcra_admission_spec maximum checks now d) = Ok dec"
    using gcra_admission_cases [where checks = checks and maximum = maximum and now = now and d = d]
    by (auto simp: batch_decision_of_def BatchDecision_allowed_def BatchDecision_denied_def BatchDecision_shadow_denied_def
        validate_batch_index_def split: pg_admission.splits)
qed

lemma gcra_server_statements:
  "gv_lock_shards gcra_sql_server s = sql_statement (\<lambda>_ _ w. Ok (w, LOCK_SHARDS s (sw_tx w)))"
  "gv_sample_time gcra_sql_server = sql_statement (\<lambda>now _ w. and_then (SAMPLE_TIME now) (\<lambda>t. Ok (w, Ok t)))"
  "gv_read_counters gcra_sql_server fps subs = sql_statement (\<lambda>_ _ w. Ok (w, READ_COUNTERS fps subs (sw_tx w)))"
  "gv_upsert gcra_sql_server fps subs tats exps = sql_statement (\<lambda>_ _ w.
     and_then (UPSERT fps subs tats exps (sw_tx w)) (\<lambda>(d, rows). Ok (w\<lparr>sw_tx := d\<rparr>, rows)))"
  "gv_advance gcra_sql_server s now = sql_statement (\<lambda>_ _ w. and_then (ADVANCE_TIME s now (sw_tx w)) (\<lambda>d. Ok (w\<lparr>sw_tx := d\<rparr>, ())))"
  by (simp_all add: gcra_sql_server_def)

lemma gcra_writes_live:
  assumes ok: "gcra_tables_ok tab d" and checks: "\<forall>c \<in> set checks. gc_ok tab c" and keys: "distinct (map gcra_key checks)"
    and len: "\<forall>c \<in> set checks. length (fst (gcra_key c)) = 32 \<and> length (snd (gcra_key c)) = 32"
    and now: "\<forall>c \<in> set checks. observed_at d (key_shard (gcra_key c)) \<le> now" "0 \<le> now" "now \<le> LATEST_MS"
    and none: "gcra_first_denial maximum (nat now) d checks = None" and max: "maximum \<le> 65536"
    and build: "\<exists>dec. build (PA_Allowed (map pa_allowance (map (gcra_pend (nat now) d) checks))) = Ok dec"
  shows "lives (live T locked 0 deadline d0 d)
    (and_await (ready_result (map_err reusable_check_error (gcra_expiries (map (gcra_pend (nat now) d) checks)))) (\<lambda>expiries.
     and_await (ready_result (map_err Reusable (build (PA_Allowed (map pa_allowance (map (gcra_pend (nat now) d) checks)))))) (\<lambda>decision.
     and_await (tx_execute sql_session deadline UpdatingCounters
       (gv_upsert gcra_sql_server (gcra_fingerprints checks) (gcra_subjects checks) (gcra_tats (map (gcra_pend (nat now) d) checks)) expiries)) (\<lambda>updated.
     if updated \<noteq> length checks
     then ready_result (Err (reusable_check_error (storage_invariant ''GCRA upsert count disagrees with the batch'')))
     else
     and_await (tx_execute sql_session deadline UpdatingCounters (gv_advance gcra_sql_server (gcra_shards checks) now)) (\<lambda>_.
     and_await (tx_commit sql_session deadline) (\<lambda>_.
     ready_result (Ok (Reusable decision))))))))
    (\<lambda>_ _. True)"
proof -
  let ?as = "map (gcra_pend (nat now) d) checks"
  have "nat now < 2 ^ 62" "\<forall>c \<in> set checks. observed_at d (key_shard (gcra_key c)) \<le> int (nat now)"
    using now by (simp_all add: clock_bounds nat_less_iff)
  from upsert_total [OF ok checks keys len this(2,1) none max] obtain exps d1 where exps: "gcra_expiries ?as = Ok exps"
    and up: "UPSERT (gcra_fingerprints checks) (gcra_subjects checks) (gcra_tats ?as) exps d = Ok (d1, length checks)" by blast
  obtain dec where dec: "build (PA_Allowed (map pa_allowance ?as)) = Ok dec" using build by blast
  have expiries: "lives (live T locked 0 deadline d0 d) (ready_result (map_err reusable_check_error (gcra_expiries ?as))) (\<lambda>x w. live T locked 0 deadline d0 d w \<and> x = exps)"
    by (rule triple_ready) (auto simp: exps)
  have decision: "lives (live T locked 0 deadline d0 d) (ready_result (map_err Reusable (build (PA_Allowed (map pa_allowance ?as))))) (\<lambda>_. live T locked 0 deadline d0 d)"
    by (rule triple_ready) (auto simp: dec simp del: map_map)
  have upsert: "lives (live T locked 0 deadline d0 d) (tx_execute sql_session deadline UpdatingCounters
      (gv_upsert gcra_sql_server (gcra_fingerprints checks) (gcra_subjects checks) (gcra_tats ?as) exps))
      (\<lambda>x w. \<exists>d2. live T locked 0 deadline d0 d2 w \<and> x = length checks)"
    unfolding gcra_server_statements by (rule tx_execute_live) (auto simp: runs_def up)
  have advance: "lives (live T locked 0 deadline d0 d2) (tx_execute sql_session deadline UpdatingCounters (gv_advance gcra_sql_server (gcra_shards checks) now))
      (\<lambda>_ w. \<exists>d3. live T locked 0 deadline d0 d3 w \<and> True)" for d2
    unfolding gcra_server_statements by (rule tx_execute_live) (use now(2) in \<open>auto simp: runs_def ADVANCE_TIME_def\<close>)
  show ?thesis
    apply (rule triple_and_await [OF expiries], intro triple_pre_conj, hypsubst)
    apply (rule triple_and_await [OF decision], rule triple_and_await [OF upsert], intro triple_pre_ex triple_pre_conj, simp)
    apply (rule triple_and_await [OF advance], intro triple_pre_ex triple_pre_conj)
    apply (rule triple_and_await [OF tx_commit_live], rule triple_ready)
    by auto
qed

lemma gcra_transaction_live:
  assumes ok: "gcra_tables_ok tab d" "clocks_bounded d" and checks: "\<forall>c \<in> set checks. gc_ok tab c" "checks \<noteq> []" and keys: "distinct (map gcra_key checks)"
    and len: "\<forall>c \<in> set checks. length (fst (gcra_key c)) = 32 \<and> length (snd (gcra_key c)) = 32"
    and max: "pg_maximum_rows_per_shard config \<le> 65536"
    and build: "\<And>now. \<exists>dec. build (gcra_admission_spec (pg_maximum_rows_per_shard config) checks now d) = Ok dec"
  shows "lives (\<lambda>w. healthy 0 deadline w \<and> sw_db w = d \<and> server_in T locked w) (gcra_run_transaction gcra_sql_server checks config deadline build) (\<lambda>_ _. True)"
proof -
  let ?max = "pg_maximum_rows_per_shard config" and ?fps = "gcra_fingerprints checks" and ?subs = "gcra_subjects checks"
  have lock: "lives (live T locked 0 deadline d d) (tx_execute sql_session deadline AcquiringCapacityShardLocks (gv_lock_shards gcra_sql_server (gcra_shards checks)))
      (\<lambda>x w. \<exists>d2. live T locked 0 deadline d d2 w \<and> d2 = d \<and> x = LOCK_SHARDS (gcra_shards checks) d)"
    unfolding gcra_server_statements by (rule tx_execute_live) (auto simp: runs_def)
  have sample: "lives (live T locked 0 deadline d d) (tx_execute sql_session deadline PreflightingCounters (gv_sample_time gcra_sql_server))
      (\<lambda>x w. \<exists>d2. live T locked 0 deadline d d2 w \<and> d2 = d \<and> (\<exists>t. x = Ok t \<and> sample_ok t))"
    unfolding gcra_server_statements by (rule tx_execute_live) (auto simp: runs_def dest!: sample_in_range)
  have clock: "lives (live T locked 0 deadline d d) (ready_result (map_err reusable_check_error
        (gcra_clock (gcra_shards checks) (LOCK_SHARDS (gcra_shards checks) d) (Ok t))))
      (\<lambda>x w. live T locked 0 deadline d d w \<and> gcra_clock (gcra_shards checks) (LOCK_SHARDS (gcra_shards checks) d) (Ok t) = Ok x \<and> snd x \<le> LATEST_MS)"
    if "sample_ok t" for t
    by (rule gcra_clock_total [OF ok checks(2) that], rule triple_ready) auto
  have read: "lives (live T locked 0 deadline d d) (tx_execute sql_session deadline PreflightingCounters (gv_read_counters gcra_sql_server ?fps ?subs))
      (\<lambda>x w. \<exists>d2. live T locked 0 deadline d d2 w \<and> d2 = d \<and> x = READ_COUNTERS ?fps ?subs d)"
    unfolding gcra_server_statements by (rule tx_execute_live) (auto simp: runs_def)
  have length: "length (LOCK_SHARDS (gcra_shards checks) d) = length (gcra_shards checks)" by (simp add: lock_shards_rows [OF ok(1)])
  have pending: "lives (live T locked 0 deadline d d) (and_await (ready_result (map_err reusable_check_error (gcra_evaluate_rows checks (READ_COUNTERS ?fps ?subs d) counts ?max (nat now)))) (\<lambda>pending.
      case pending of
        GP_Denied admission \<Rightarrow>
          and_await (ready_result (map_err Reusable (build admission))) (\<lambda>decision. finish_denied_transaction sql_session decision)
      | GP_Allowed allowances \<Rightarrow>
          and_await (ready_result (map_err reusable_check_error (gcra_expiries allowances))) (\<lambda>expiries.
          and_await (ready_result (map_err Reusable (build (PA_Allowed (map pa_allowance allowances))))) (\<lambda>decision.
          and_await (tx_execute sql_session deadline UpdatingCounters
            (gv_upsert gcra_sql_server ?fps ?subs (gcra_tats allowances) expiries)) (\<lambda>updated.
          if updated \<noteq> length checks
          then ready_result (Err (reusable_check_error (storage_invariant ''GCRA upsert count disagrees with the batch'')))
          else
          and_await (tx_execute sql_session deadline UpdatingCounters (gv_advance gcra_sql_server (gcra_shards checks) now)) (\<lambda>_.
          and_await (tx_commit sql_session deadline) (\<lambda>_.
          ready_result (Ok (Reusable decision))))))))) (\<lambda>_ _. True)"
    if c: "gcra_clock (gcra_shards checks) (LOCK_SHARDS (gcra_shards checks) d) (Ok t) = Ok (counts, now)" "now \<le> LATEST_MS" for t counts now
  proof -
    note ev = gcra_evaluate_rows_total [OF ok(1) checks(1) c, of ?max]
    from gcra_clock_spec [OF ok(1) c(1)] have n: "0 \<le> now" "\<forall>c \<in> set checks. observed_at d (key_shard (gcra_key c)) \<le> now" by auto
    show ?thesis
    proof (cases "gcra_first_denial ?max (nat now) d checks")
      case None
      have "\<exists>dec. build (PA_Allowed (map pa_allowance (map (gcra_pend (nat now) d) checks))) = Ok dec"
        using build [of "nat now"] None by (simp add: gcra_admission_spec_def comp_def gcra_pend_def Let_def)
      note writes = gcra_writes_live [where build = build, OF ok(1) checks(1) keys len n(2,1) c(2) None max this]
      show ?thesis unfolding ev None option.case
        by (rule triple_and_await [where R = "\<lambda>x w. live T locked 0 deadline d d w \<and> x = GP_Allowed (map (gcra_pend (nat now) d) checks)"],
            rule triple_ready, auto intro!: triple_pre_conj writes simp del: map_map)
    next
      case (Some x)
      obtain dec where dec: "build x = Ok dec" using build [of "nat now"] Some by (auto simp: gcra_admission_spec_def)
      have deny: "lives (live T locked 0 deadline d d) (and_await (ready_result (map_err Reusable (build x))) (\<lambda>decision. finish_denied_transaction sql_session decision)) (\<lambda>_ _. True)"
        by (rule triple_and_await [where R = "\<lambda>_. live T locked 0 deadline d d"], rule triple_ready) (auto simp: dec finish_denied_live)
      show ?thesis unfolding ev Some option.case
        by (rule triple_and_await [where R = "\<lambda>y w. live T locked 0 deadline d d w \<and> y = GP_Denied x"], rule triple_ready)
          (auto intro!: triple_pre_conj deny)
    qed
  qed
  show ?thesis unfolding gcra_run_transaction_def Let_def gcra_session
    apply (rule triple_and_await [OF begin_live], rule triple_and_await [OF lock], intro triple_pre_ex triple_pre_conj, clarify)
    apply (subst if_not_P, simp add: length)
    apply (rule triple_and_await [OF sample], intro triple_pre_ex triple_pre_conj, clarify)
    apply (rule triple_and_await [OF clock], assumption, intro triple_pre_conj, clarify)
    apply (rule triple_and_await [OF read], intro triple_pre_ex triple_pre_conj, clarify)
    by (rule pending) simp_all
qed

section \<open>Properties\<close>

text \<open>
  C18: the durable GCRA limiter answers. If no statement fails, the replies arrive within the operation's time
  and the database clock stays in its range, every single check and every valid batch gets a decision and
  not an error: the stored counters decode and agree with their expiry, the arithmetic never leaves its
  exact range, and the writes violate no constraint and no capacity bound of the tables.
\<close>

theorem postgres_gcra_answers:
  assumes "gcra_tables_ok tab (sw_db w)" "clocks_bounded (sw_db w)" "postgres_config_ok config" "calm 0 config w"
    and checks: "\<forall>c \<in> set (check # checks). gc_ok tab c \<and> length (fst (gcra_key c)) = 32 \<and> length (snd (gcra_key c)) = 32"
    and "batch_ok GcraPolicy (pg_max_batch_size config) checks"
  shows "(\<exists>ost' w' decision. pg_gcra_check observer ost gcra_sql_server config elapsed check w = (ost', w', Some (Ok decision))) \<and>
    (\<exists>ost' w' decision. pg_gcra_check_all observer ost gcra_sql_server config elapsed checks w = (ost', w', Some (Ok decision)))"
proof
  have max: "pg_maximum_rows_per_shard config \<le> 65536" using assms(3) by (simp add: postgres_config_ok_def HARD_MAX_ROWS_PER_SHARD_def)
  have b: "checks \<noteq> []" "distinct (map gcra_key checks)" using assms(6) gcra_key_distinct by (auto simp: batch_ok_def)
  have "\<exists>w' a. gcra_run gcra_sql_server config [check] single_decision w = (w', Some (Ok a))"
    unfolding gcra_run_def gcra_session
    by (rule run_guarded_live [OF assms(4)], rule gcra_transaction_live [OF assms(1,2)]) (use checks max gcra_builders_total(1) in auto)
  then show "\<exists>ost' w' decision. pg_gcra_check observer ost gcra_sql_server config elapsed check w = (ost', w', Some (Ok decision))"
    by (auto simp: pg_gcra_check_def)
  have "\<exists>w' a. gcra_run gcra_sql_server config checks (batch_decision_of (length checks)) w = (w', Some (Ok a))"
    unfolding gcra_run_def gcra_session
    by (rule run_guarded_live [OF assms(4)], rule gcra_transaction_live [OF assms(1,2)]) (use checks max b gcra_builders_total(2) in auto)
  moreover have "validate_batch GcraPolicy checks (pg_max_batch_size config) = Ok ()" using assms(6) by (simp add: validate_batch_Ok)
  ultimately show "\<exists>ost' w' decision. pg_gcra_check_all observer ost gcra_sql_server config elapsed checks w = (ost', w', Some (Ok decision))"
    by (auto simp: pg_gcra_check_all_def gcra_check_all_result_def)
qed

theorem postgres_gcra_answers_witness:
  "(\<exists>ost' w' decision. pg_gcra_check None () gcra_sql_server PostgresConfig_new 7 (pg_sample_gcheck 3)
      (gcra_sample_world\<lparr>sw_script := [(5, 10, - 1, No_Fault)]\<rparr>) = (ost', w', Some (Ok decision))) \<and>
   (\<exists>ost' w' decision. pg_gcra_check_all None () gcra_sql_server PostgresConfig_new 7 [pg_sample_gcheck 3]
      (gcra_sample_world\<lparr>sw_script := [(5, 10, - 1, No_Fault)]\<rparr>) = (ost', w', Some (Ok decision)))"
proof (rule postgres_gcra_answers [where tab = sample_tab])
  let ?w = "gcra_sample_world\<lparr>sw_script := [(5, 10, - 1, No_Fault)]\<rparr>"
  show "gcra_tables_ok sample_tab (sw_db ?w)" using gcra_sample_world_ok by simp
  show "clocks_bounded (sw_db ?w)" by (simp add: clocks_bounded_def gcra_sample_world_def migrated_gcra_tables_def observed_at_def clock_bounds)
  show "postgres_config_ok PostgresConfig_new" by (simp add: postgres_config_ok_def PostgresConfig_new_def pg_config_constants rust_defs)
  show "calm 0 PostgresConfig_new ?w"
    by (simp add: calm_def healthy_def script_delay_def script_drift_def gcra_sample_world_def PostgresConfig_new_def
        pg_config_constants rust_defs TIMESTAMP_BEGIN_def TIMESTAMP_END_def)
  show "\<forall>c \<in> set [pg_sample_gcheck 3, pg_sample_gcheck 3]. gc_ok sample_tab c \<and> length (fst (gcra_key c)) = 32 \<and> length (snd (gcra_key c)) = 32"
    by (simp add: pg_sample_gcheck_ok) (simp add: gcra_key_def pg_sample_gcheck_def sample_gcheck_def chk_counter_key_def sample_gcp_def GcraPolicy_def)
  show "batch_ok GcraPolicy (pg_max_batch_size PostgresConfig_new) [pg_sample_gcheck 3]"
    by (simp add: batch_ok_def PostgresConfig_new_def pg_config_constants)
qed

end
