(* ===== verification/Postgres_Attempts.thy ===== *)
theory Postgres_Attempts
  imports Postgres_Session Attempt_Policy
begin

text \<open>
  \<open>runlimit-postgres/src/attempts.rs\<close>: the durable attempt limiter. Its client locks the capacity shard,
  removes a few expired rows, reads the subject's row and the database clock, and reserves a lease under a
  fresh token, or denies. Completion presents the token. The statements of the server are parameters, and
  rows are untrusted.
\<close>

section \<open>Rows and the server\<close>

record attempt_response =
  tr_failures :: "int decoded"
  tr_last_failure_ms :: "int decoded"
  tr_retry_at_ms :: "int decoded"
  tr_lease_until_ms :: "int option decoded"

record completion_row =
  cw_failures :: "int decoded"
  cw_delay_ms :: "int decoded"

record claim_row =
  kr_lease_token :: "rstr decoded"
  kr_transaction_id :: "rstr decoded"

text \<open>The parameters of \<open>COMPLETE_SQL\<close>.\<close>

record completion_params =
  cq_fingerprint :: "u8 list"
  cq_subject :: "u8 list"
  cq_token :: rstr
  cq_success :: bool
  cq_initial_delay :: int
  cq_maximum_delay :: int
  cq_transaction_id :: "rstr option"

record 'w attempt_server =
  tv_session :: "'w pg_server"
  tv_lock_shard :: "nat \<Rightarrow> 'w \<Rightarrow> 'w \<times> unit answer"
  tv_cleanup :: "nat \<Rightarrow> 'w \<Rightarrow> 'w \<times> unit answer"
  tv_read :: "u8 list \<Rightarrow> u8 list \<Rightarrow> 'w \<Rightarrow> 'w \<times> attempt_response list answer"
  tv_sample_time :: "'w \<Rightarrow> 'w \<times> int decoded answer"
  tv_occupancy :: "nat \<Rightarrow> 'w \<Rightarrow> 'w \<times> int decoded answer"
  tv_free_slot :: "nat \<Rightarrow> nat \<Rightarrow> 'w \<Rightarrow> 'w \<times> int option decoded answer"
  tv_insert :: "u8 list \<Rightarrow> u8 list \<Rightarrow> int \<Rightarrow> int \<Rightarrow> int \<Rightarrow> int \<Rightarrow> 'w \<Rightarrow> 'w \<times> rstr decoded answer"
  tv_update :: "u8 list \<Rightarrow> u8 list \<Rightarrow> int \<Rightarrow> int \<Rightarrow> int \<Rightarrow> int \<Rightarrow> 'w \<Rightarrow> 'w \<times> rstr decoded answer"
  tv_complete :: "completion_params \<Rightarrow> 'w \<Rightarrow> 'w \<times> completion_row list answer"
  tv_claim :: "u8 list \<Rightarrow> u8 list \<Rightarrow> rstr \<Rightarrow> 'w \<Rightarrow> 'w \<times> claim_row option answer"

section \<open>Receipts\<close>

record pg_attempt_receipt =
  pr_policy :: attempt_policy
  pr_subject :: "u8 list"
  pr_token :: rstr

record pg_attempt_claim =
  pc_receipt :: pg_attempt_receipt
  pc_transaction_id :: rstr

datatype pg_attempt_claim_result = Claimed pg_attempt_claim | ClaimStale

section \<open>Arithmetic\<close>

definition i64_saturating_add :: "int \<Rightarrow> int \<Rightarrow> int" where
  "i64_saturating_add a b = max (- (2 ^ 63)) (min (2 ^ 63 - 1) (a + b))"

text \<open>Subtraction, which panics on overflow.\<close>

definition i64_sub :: "int \<Rightarrow> int \<Rightarrow> int option" where
  "i64_sub a b = (if - (2 ^ 63) \<le> a - b \<and> a - b < 2 ^ 63 then Some (a - b) else None)"

definition millis_i64 :: "duration \<Rightarrow> int option" where
  "millis_i64 value = database_integer (as_millis value)"

definition attempt_wait :: "int \<Rightarrow> delay" where
  "attempt_wait value = Delay (from_millis (nat \<bar>value\<bar>))"

definition u32_of :: "int \<Rightarrow> (pg_check_error, nat) result" where
  "u32_of n = (if 0 \<le> n \<and> n < 2 ^ 32 then Ok (nat n) else Err (storage_invariant ''invalid attempt failure count''))"

section \<open>Admission\<close>

definition PHASE :: check_phase where "PHASE = AcquiringCounterRowLocks"

definition attempt_decode :: "'a decoded \<Rightarrow> (pg_check_error, 'a) result" where
  "attempt_decode column = map_err (storage_decode_invariant ''decode attempt admission response'') column"

datatype attempt_verdict = AV_Deny attempt_denial | AV_Insert int | AV_Update nat int int

text \<open>The last two guards of \<open>admit_transaction\<close>: failures are forgotten after the quiet period, and a backoff denies.
  \<open>None\<close> is a panic.\<close>

definition attempt_backoff :: "attempt_policy \<Rightarrow> int \<Rightarrow> nat \<Rightarrow> int \<Rightarrow> int \<Rightarrow> attempt_verdict option" where
  "attempt_backoff policy now failures last_failure retry =
     do {
       quiet_ms \<leftarrow> database_integer (period_millis (ap_quiet_period policy));
       let quiet = (now \<ge> i64_saturating_add last_failure quiet_ms);
           failures = (if quiet then 0 else failures);
           retry = (if quiet then now else retry)
       in if now < retry then map_option (\<lambda>d. AV_Deny (Backoff (attempt_wait d))) (i64_sub retry now)
          else Some (AV_Update failures last_failure now)
     }"

text \<open>The guards before them: a running lease denies, and an expired one is a failure at its deadline.\<close>

definition attempt_judge :: "attempt_policy \<Rightarrow> int \<Rightarrow> nat \<Rightarrow> int \<Rightarrow> int \<Rightarrow> int option \<Rightarrow> attempt_verdict option" where
  "attempt_judge policy now failures last_failure retry lease =
     (case lease of
        None \<Rightarrow> attempt_backoff policy now failures last_failure retry
      | Some until \<Rightarrow>
          if now < until then map_option (\<lambda>d. AV_Deny (Busy (attempt_wait d))) (i64_sub until now)
          else do {
            let failures = saturating_add 32 failures 1;
            delay_ms \<leftarrow> millis_i64 (attempt_delay policy failures);
            attempt_backoff policy now failures until (i64_saturating_add until delay_ms)
          })"

definition attempt_fields :: "attempt_response \<Rightarrow> (pg_check_error, nat \<times> int \<times> int \<times> int option) result" where
  "attempt_fields row =
     and_then (attempt_decode (tr_failures row)) (\<lambda>n.
     and_then (u32_of n) (\<lambda>failures.
     and_then (attempt_decode (tr_last_failure_ms row)) (\<lambda>last_failure.
     and_then (attempt_decode (tr_retry_at_ms row)) (\<lambda>retry.
     and_then (attempt_decode (tr_lease_until_ms row)) (\<lambda>lease.
     Ok (failures, last_failure, retry, lease))))))"

definition attempt_evaluate ::
    "attempt_policy \<Rightarrow> attempt_response list \<Rightarrow> int decoded \<Rightarrow> (pg_check_error, attempt_verdict) result option" where
  "attempt_evaluate policy rows time =
     (case attempt_decode time of
        Err error \<Rightarrow> Some (Err error)
      | Ok now \<Rightarrow>
          (case rows of
             [] \<Rightarrow> Some (Ok (AV_Insert now))
           | row # _ \<Rightarrow>
               (case attempt_fields row of
                  Err error \<Rightarrow> Some (Err error)
                | Ok (failures, last_failure, retry, lease) \<Rightarrow>
                    map_option Ok (attempt_judge policy now failures last_failure retry lease))))"

text \<open>A pure computation that may panic, as a step.\<close>

definition ready_or_panic :: "('f, 'a) result option \<Rightarrow> ('w, 'f, 'a) step" where
  "ready_or_panic r w = (w, r)"

definition attempt_shard :: "u8 list \<Rightarrow> u8 list \<Rightarrow> nat" where
  "attempt_shard fp subject = unat (xor (fp ! 0) (subject ! 0))"

definition finish_capacity_denial ::
    "'w pg_server \<Rightarrow> instant \<Rightarrow> ('w, failure, pg_attempt_receipt attempt_admission connection_outcome) step" where
  "finish_capacity_denial sv deadline w =
     (let denial = AttemptDenied AttemptStorageCapacity in
      case tx_commit sv deadline w of
        (w, None) \<Rightarrow> (w, None)
      | (w, Some (Ok _)) \<Rightarrow> (w, Some (Ok (Reusable denial)))
      | (w, Some (Err outcome)) \<Rightarrow> (w, Some (Ok (ConnectionOutcome_map (\<lambda>_. denial) outcome))))"

text \<open>The token of a new row, or \<open>None\<close> when the shard is full; and the token of an existing row.\<close>

definition insert_lease ::
    "'w attempt_server \<Rightarrow> instant \<Rightarrow> attempt_policy \<Rightarrow> u8 list \<Rightarrow> u8 list \<Rightarrow> nat \<Rightarrow> int \<Rightarrow> ('w, failure, rstr decoded option) step" where
  "insert_lease tv deadline policy fp subject maximum now =
     (let sv = tv_session tv; shard = attempt_shard fp subject in
      and_await (tx_execute sv deadline PHASE (tv_occupancy tv shard)) (\<lambda>occupancy.
      and_await (ready_result (map_err reusable_check_error (attempt_decode occupancy))) (\<lambda>row_count.
      if row_count \<ge> int maximum then ready_result (Ok None)
      else
      and_await (tx_execute sv deadline PHASE (tv_free_slot tv shard maximum)) (\<lambda>slot.
      and_await (ready_result (map_err reusable_check_error (attempt_decode slot))) (\<lambda>slot.
      case slot of
        None \<Rightarrow> ready_result (Ok None)
      | Some slot \<Rightarrow>
          and_await (ready_or_panic (map_option Ok (database_integer (period_millis (ap_quiet_period policy))))) (\<lambda>quiet_ms.
          and_await (ready_or_panic (map_option Ok (database_integer (period_millis (ap_lease policy))))) (\<lambda>lease_ms.
          and_await (tx_execute sv deadline PHASE
            (tv_insert tv fp subject slot now quiet_ms (i64_saturating_add now lease_ms))) (\<lambda>token.
          ready_result (Ok (Some token))))))))))"

definition update_lease ::
    "'w attempt_server \<Rightarrow> instant \<Rightarrow> attempt_policy \<Rightarrow> u8 list \<Rightarrow> u8 list \<Rightarrow> nat \<Rightarrow> int \<Rightarrow> int \<Rightarrow>
     ('w, failure, rstr decoded option) step" where
  "update_lease tv deadline policy fp subject failures last_failure now =
     and_await (ready_or_panic (map_option Ok (database_integer (period_millis (ap_lease policy))))) (\<lambda>lease_ms.
     and_await (tx_execute (tv_session tv) deadline PHASE
       (tv_update tv fp subject (int failures) last_failure now (i64_saturating_add now lease_ms))) (\<lambda>token.
     ready_result (Ok (Some token))))"

definition finish_admission where
  "finish_admission tv deadline policy subject token =
     (case token of
        None \<Rightarrow> finish_capacity_denial (tv_session tv) deadline
      | Some token \<Rightarrow>
          and_await (ready_result (map_err reusable_check_error (attempt_decode token))) (\<lambda>token.
          and_await (tx_commit (tv_session tv) deadline) (\<lambda>_.
          ready_result (Ok (Reusable (AttemptAdmitted \<lparr>pr_policy = policy, pr_subject = subject, pr_token = token\<rparr>))))))"

definition admit_transaction ::
    "'w attempt_server \<Rightarrow> attempt_subject \<Rightarrow> nat \<Rightarrow> instant \<Rightarrow>
     ('w, failure, pg_attempt_receipt attempt_admission connection_outcome) step" where
  "admit_transaction tv attempt maximum deadline =
     (let sv = tv_session tv; policy = as_policy attempt;
          fp = fingerprint_bytes (ap_fingerprint policy);
          subject = subject_bytes (as_subject attempt);
          shard = attempt_shard fp subject
      in
      and_await (check_before_commit BeginningTransaction (sv_begin sv)) (\<lambda>_.
      and_await (tx_execute sv deadline PHASE (tv_lock_shard tv shard)) (\<lambda>_.
      and_await (tx_execute sv deadline PHASE (tv_cleanup tv shard)) (\<lambda>_.
      and_await (tx_execute sv deadline PHASE (tv_read tv fp subject)) (\<lambda>rows.
      and_await (tx_execute sv deadline PHASE (tv_sample_time tv)) (\<lambda>time.
      and_await (ready_or_panic (map_option (map_err reusable_check_error) (attempt_evaluate policy rows time))) (\<lambda>verdict.
      case verdict of
        AV_Deny denial \<Rightarrow> finish_denied_transaction sv (AttemptDenied denial)
      | AV_Insert now \<Rightarrow>
          and_await (insert_lease tv deadline policy fp subject maximum now) (\<lambda>token.
          finish_admission tv deadline policy subject token)
      | AV_Update failures last_failure now \<Rightarrow>
          and_await (update_lease tv deadline policy fp subject failures last_failure now) (\<lambda>token.
          finish_admission tv deadline policy subject token))))))))"

definition attempt_admit where
  "attempt_admit tv config attempt =
     run_guarded (tv_session tv) config (admit_transaction tv attempt (pg_maximum_rows_per_shard config))"

definition observe_attempt where
  "observe_attempt observer event ost =
     (case observer of None \<Rightarrow> ost | Some observer \<Rightarrow> observe_attempt_safely observer event ost)"

definition pg_attempt_admit where
  "pg_attempt_admit observer ost tv config attempt w =
     (case attempt_admit tv config attempt w of
        (w, None) \<Rightarrow> (ost, w, None)
      | (w, Some result) \<Rightarrow>
          (case result of
             Ok (AttemptAdmitted _) \<Rightarrow> observe_attempt observer ObsAdmitted ost
           | Ok (AttemptDenied denial) \<Rightarrow> observe_attempt observer (ObsDenied denial) ost
           | Err error \<Rightarrow> if CheckError_consumption error = PossiblyConsumed then observe_attempt observer ObsCommitUncertain ost else ost,
           w, Some result))"

section \<open>Completion\<close>

definition completion_query ::
    "pg_attempt_receipt \<Rightarrow> attempt_outcome \<Rightarrow> rstr option \<Rightarrow> completion_params option" where
  "completion_query receipt outcome transaction_id =
     do {
       initial \<leftarrow> database_integer (period_millis (ap_initial_delay (pr_policy receipt)));
       maximum \<leftarrow> database_integer (period_millis (ap_maximum_delay (pr_policy receipt)));
       Some \<lparr>cq_fingerprint = fingerprint_bytes (ap_fingerprint (pr_policy receipt)), cq_subject = pr_subject receipt,
         cq_token = pr_token receipt, cq_success = (outcome = Success), cq_initial_delay = initial, cq_maximum_delay = maximum,
         cq_transaction_id = transaction_id\<rparr>
     }"

definition completion_decode :: "'a decoded \<Rightarrow> (pg_check_error, 'a) result" where
  "completion_decode column = map_err (storage_decode_invariant ''decode attempt completion response'') column"

definition completion_result :: "completion_row list \<Rightarrow> attempt_outcome \<Rightarrow> (pg_check_error, attempt_completion_result) result" where
  "completion_result rows outcome =
     (case rows of
        [] \<Rightarrow> Ok Stale
      | row # _ \<Rightarrow>
          and_then (completion_decode (cw_failures row)) (\<lambda>n.
          and_then (u32_of n) (\<lambda>failures.
          and_then (completion_decode (cw_delay_ms row)) (\<lambda>retry.
          if retry < 0 then Err (storage_invariant ''invalid attempt delay'')
          else and_then (map_err (\<lambda>_. storage_invariant ''attempt completion metadata contradicts its outcome'')
            (AttemptCompletion_new outcome failures (attempt_wait retry))) (\<lambda>completion. Ok (Applied completion))))))"

definition complete_transaction ::
    "'w attempt_server \<Rightarrow> pg_attempt_receipt \<Rightarrow> attempt_outcome \<Rightarrow> instant \<Rightarrow>
     ('w, failure, attempt_completion_result connection_outcome) step" where
  "complete_transaction tv receipt outcome deadline =
     (let sv = tv_session tv in
      and_await (check_before_commit BeginningTransaction (sv_begin sv)) (\<lambda>_.
      and_await (ready_or_panic (map_option Ok (completion_query receipt outcome None))) (\<lambda>query.
      and_await (tx_execute sv deadline PHASE (tv_complete tv query)) (\<lambda>rows.
      and_await (ready_result (map_err Reusable (completion_result rows outcome))) (\<lambda>result.
      and_await (tx_commit sv deadline) (\<lambda>_.
      ready_result (Ok (Reusable result))))))))"

definition attempt_complete where
  "attempt_complete tv config receipt outcome =
     run_guarded (tv_session tv) config (complete_transaction tv receipt outcome)"

definition pg_attempt_complete where
  "pg_attempt_complete observer ost tv config receipt outcome w =
     (case attempt_complete tv config receipt outcome w of
        (w, None) \<Rightarrow> (ost, w, None)
      | (w, Some result) \<Rightarrow>
          (case result of
             Ok (Applied completion) \<Rightarrow> observe_attempt observer (ObsCompleted completion) ost
           | Ok Stale \<Rightarrow> observe_attempt observer ObsStale ost
           | Err error \<Rightarrow> if CheckError_consumption error = PossiblyConsumed then observe_attempt observer ObsCommitUncertain ost else ost,
           w, Some result))"

section \<open>Transactions of the application\<close>

text \<open>The statements of \<open>low_level\<close> run in a transaction that the caller owns. An error carries the driver's error, or
  the decoding error that wraps it.\<close>

datatype low_level_error = Driver sqlx_error | Decode pg_check_error | DriverTimeout

definition low_level_query :: "('w \<Rightarrow> 'w \<times> 'a answer) \<Rightarrow> ('w, low_level_error, 'a) step" where
  "low_level_query query w =
     (case query w of
        (w, Answered x) \<Rightarrow> (w, Some (Ok x))
      | (w, Failed e) \<Rightarrow> (w, Some (Err (Driver e)))
      | (w, TimedOut) \<Rightarrow> (w, Some (Err DriverTimeout)))"

definition claim_decode :: "'a decoded \<Rightarrow> (low_level_error, 'a) result" where
  "claim_decode column = map_err (\<lambda>e. Decode (storage_decode_invariant ''decode attempt claim response'' e)) column"

definition claim_in :: "'w attempt_server \<Rightarrow> pg_attempt_receipt \<Rightarrow> ('w, low_level_error, pg_attempt_claim_result) step" where
  "claim_in tv receipt =
     and_await (low_level_query (tv_claim tv (fingerprint_bytes (ap_fingerprint (pr_policy receipt))) (pr_subject receipt)
       (pr_token receipt))) (\<lambda>row.
     ready_result
       (case row of
          None \<Rightarrow> Ok ClaimStale
        | Some row \<Rightarrow>
            and_then (claim_decode (kr_lease_token row)) (\<lambda>token.
            and_then (claim_decode (kr_transaction_id row)) (\<lambda>transaction_id.
            Ok (Claimed \<lparr>pc_receipt = receipt\<lparr>pr_token := token\<rparr>, pc_transaction_id = transaction_id\<rparr>)))))"

definition complete_with where
  "complete_with tv receipt outcome transaction_id =
     and_await (ready_or_panic (map_option Ok (completion_query receipt outcome transaction_id))) (\<lambda>query.
     and_await (low_level_query (tv_complete tv query)) (\<lambda>rows.
     ready_result (map_err Decode (completion_result rows outcome))))"

definition finish_in where
  "finish_in tv claim outcome = complete_with tv (pc_receipt claim) outcome (Some (pc_transaction_id claim))"

definition complete_in where
  "complete_in tv receipt outcome = complete_with tv receipt outcome None"

end
