(* ===== verification/Postgres_Attempts_Sql.thy ===== *)
theory Postgres_Attempts_Sql
  imports Postgres_Attempts Postgres_Sql
begin

text \<open>
  The statements of \<open>runlimit-postgres/src/attempts.rs\<close>, \<open>attempt_cleanup.sql\<close> and \<open>attempt_complete.sql\<close>, and the
  table, constraints and index of \<open>attempts-migrations\<close>, as functions on the table. UUIDs and transaction
  identifiers are arguments.
\<close>

section \<open>The table\<close>

text \<open>A lease is its token and its deadline: a constraint makes both columns \<open>NULL\<close> together.\<close>

record attempt_row =
  aw_slot :: int
  aw_failures :: int
  aw_last_failure :: int
  aw_retry_at :: int
  aw_quiet :: int
  aw_lease :: "(rstr \<times> int) option"

type_synonym attempt_table = "(storage_key \<times> attempt_row) list"

text \<open>The indexed expression: when a row may be removed.\<close>

definition attempt_expiry :: "attempt_row \<Rightarrow> int" where
  "attempt_expiry row = (case aw_lease row of None \<Rightarrow> aw_last_failure row | Some (_, until) \<Rightarrow> until) + aw_quiet row"

text \<open>The constraints of a row; its index entry must fit a \<open>BIGINT\<close>.\<close>

definition attempt_constraints :: "storage_key \<Rightarrow> attempt_row \<Rightarrow> bool" where
  "attempt_constraints k row \<longleftrightarrow>
     length (fst k) = 32 \<and> length (snd k) = 32 \<and> 0 \<le> aw_slot row \<and> aw_slot row \<le> 65535 \<and>
     0 \<le> aw_failures row \<and> aw_failures row \<le> 4294967295 \<and> 1 \<le> aw_quiet row \<and> aw_quiet row \<le> 9007199254740"

definition checked_attempt :: "storage_key \<Rightarrow> attempt_row \<Rightarrow> (sqlx_error, attempt_row) result" where
  "checked_attempt k row =
     (if \<not> attempt_constraints k row then Err check_violation
      else and_then (bigint (attempt_expiry row)) (\<lambda>_. Ok row))"

definition unique_violation :: sqlx_error where "unique_violation = sql_error ''23505''"

abbreviation attempts_in :: "nat \<Rightarrow> attempt_table \<Rightarrow> attempt_table" where
  "attempts_in shard d \<equiv> filter (\<lambda>(k, _). key_shard k = shard) d"

section \<open>Admission\<close>

text \<open>\<open>attempt_cleanup.sql\<close>: at most 16 expired rows of the shard that no other session has locked, the oldest first.\<close>

definition attempt_expired :: "(storage_key \<Rightarrow> bool) \<Rightarrow> nat \<Rightarrow> int \<Rightarrow> attempt_table \<Rightarrow> storage_key list" where
  "attempt_expired locked shard now d =
     map fst (take 16 (sort_key (\<lambda>(_, row). attempt_expiry row)
       (filter (\<lambda>(k, row). attempt_expiry row \<le> now \<and> \<not> locked k) (attempts_in shard d))))"

definition ATTEMPT_CLEANUP_SQL :: "(storage_key \<Rightarrow> bool) \<Rightarrow> nat \<Rightarrow> int \<Rightarrow> attempt_table \<Rightarrow> attempt_table" where
  "ATTEMPT_CLEANUP_SQL locked shard now d = filter (\<lambda>(k, _). k \<notin> set (attempt_expired locked shard now d)) d"

definition attempt_read :: "u8 list \<Rightarrow> u8 list \<Rightarrow> attempt_table \<Rightarrow> attempt_response list" where
  "attempt_read fp subject d =
     (case map_of d (fp, subject) of
        None \<Rightarrow> []
      | Some row \<Rightarrow> [\<lparr>tr_failures = Ok (aw_failures row), tr_last_failure_ms = Ok (aw_last_failure row),
          tr_retry_at_ms = Ok (aw_retry_at row), tr_lease_until_ms = Ok (map_option snd (aw_lease row))\<rparr>])"

definition attempt_occupancy :: "nat \<Rightarrow> attempt_table \<Rightarrow> int" where
  "attempt_occupancy shard d = int (length (attempts_in shard d))"

definition attempt_free_slot :: "nat \<Rightarrow> nat \<Rightarrow> attempt_table \<Rightarrow> int option" where
  "attempt_free_slot shard maximum d =
     map_option int (List.find (\<lambda>slot. int slot \<notin> (\<lambda>(_, row). aw_slot row) ` set (attempts_in shard d)) [0..<maximum])"

definition attempt_insert ::
    "u8 list \<Rightarrow> u8 list \<Rightarrow> int \<Rightarrow> int \<Rightarrow> int \<Rightarrow> int \<Rightarrow> rstr \<Rightarrow> attempt_table \<Rightarrow> (sqlx_error, attempt_table) result" where
  "attempt_insert fp subject slot now quiet_ms lease_until uuid d =
     (let k = (fp, subject);
          row = \<lparr>aw_slot = slot, aw_failures = 0, aw_last_failure = now, aw_retry_at = now, aw_quiet = quiet_ms,
            aw_lease = Some (uuid, lease_until)\<rparr>
      in if map_of d k \<noteq> None \<or> slot \<in> (\<lambda>(_, row). aw_slot row) ` set (attempts_in (key_shard k) d) then Err unique_violation
         else and_then (checked_attempt k row) (\<lambda>row. Ok (d @ [(k, row)])))"

text \<open>\<open>RowNotFound\<close> when no row matches.\<close>

definition attempt_update ::
    "u8 list \<Rightarrow> u8 list \<Rightarrow> int \<Rightarrow> int \<Rightarrow> int \<Rightarrow> int \<Rightarrow> rstr \<Rightarrow> attempt_table \<Rightarrow> (sqlx_error, attempt_table) result" where
  "attempt_update fp subject failures last_failure now lease_until uuid d =
     (let k = (fp, subject) in
      case map_of d k of
        None \<Rightarrow> Err SqlxOther
      | Some row \<Rightarrow>
          and_then (checked_attempt k (row\<lparr>aw_failures := failures, aw_last_failure := last_failure, aw_retry_at := now,
            aw_lease := Some (uuid, lease_until)\<rparr>)) (\<lambda>row. Ok (AList.update k row d)))"

section \<open>Completion\<close>

text \<open>\<open>attempt_complete.sql\<close>: the token must match, and the lease be running or the claim be of this transaction.\<close>

definition completion_matches :: "completion_params \<Rightarrow> rstr \<Rightarrow> int \<Rightarrow> attempt_row \<Rightarrow> bool" where
  "completion_matches q xid now row =
     (case aw_lease row of
        None \<Rightarrow> False
      | Some (token, until) \<Rightarrow> token = cq_token q \<and>
          (case cq_transaction_id q of None \<Rightarrow> until > now | Some transaction_id \<Rightarrow> transaction_id = xid))"

definition completed_row :: "completion_params \<Rightarrow> int \<Rightarrow> attempt_row \<Rightarrow> (sqlx_error, attempt_row \<times> int) result" where
  "completed_row q now row =
     (let failures = (if cq_success q then 0 else min (aw_failures row + 1) 4294967295) in
      and_then (if cq_success q then Ok 0
        else bigint (min (cq_maximum_delay q) (cq_initial_delay q * 2 ^ nat (min (aw_failures row) 63)))) (\<lambda>delay_ms.
      and_then (bigint (now + delay_ms)) (\<lambda>retry.
      Ok (row\<lparr>aw_failures := failures, aw_last_failure := now, aw_retry_at := retry, aw_lease := None\<rparr>, delay_ms))))"

definition COMPLETE_SQL ::
    "completion_params \<Rightarrow> rstr \<Rightarrow> int \<Rightarrow> attempt_table \<Rightarrow> (sqlx_error, attempt_table \<times> completion_row list) result" where
  "COMPLETE_SQL q xid now d =
     (let k = (cq_fingerprint q, cq_subject q) in
      case map_of d k of
        None \<Rightarrow> Ok (d, [])
      | Some row \<Rightarrow>
          if \<not> completion_matches q xid now row then Ok (d, [])
          else and_then (completed_row q now row) (\<lambda>(row, delay_ms).
            and_then (checked_attempt k row) (\<lambda>row.
            Ok (AList.update k row d, [\<lparr>cw_failures = Ok (aw_failures row), cw_delay_ms = Ok delay_ms\<rparr>]))))"

text \<open>The statement of \<open>claim_in\<close>: it rotates the token of a running lease.\<close>

definition attempt_claim_sql ::
    "u8 list \<Rightarrow> u8 list \<Rightarrow> rstr \<Rightarrow> rstr \<Rightarrow> rstr \<Rightarrow> int \<Rightarrow> attempt_table \<Rightarrow> attempt_table \<times> claim_row option" where
  "attempt_claim_sql fp subject token uuid xid now d =
     (case map_of d (fp, subject) of
        None \<Rightarrow> (d, None)
      | Some row \<Rightarrow>
          (case aw_lease row of
             None \<Rightarrow> (d, None)
           | Some (lease_token, until) \<Rightarrow>
               if lease_token = token \<and> until > now
               then (AList.update (fp, subject) (row\<lparr>aw_lease := Some (uuid, until)\<rparr>) d,
                 Some \<lparr>kr_lease_token = Ok uuid, kr_transaction_id = Ok xid\<rparr>)
               else (d, None)))"

end
