(* ===== verification/Postgres_Attempts_Transaction.thy ===== *)
theory Postgres_Attempts_Transaction
  imports Postgres_Attempts Postgres_Transaction
begin

text \<open>
  What the client of \<open>attempts.rs\<close> guarantees against any transactional server: the interface
  \<open>pg_attempts\<close> says what each of its statements reads and writes, and inside it every admission and every
  completion is durable and every error honest.
\<close>

section \<open>What an operation amounts to\<close>

abbreviation attempt_fp :: "attempt_policy \<Rightarrow> u8 list" where "attempt_fp policy \<equiv> fingerprint_bytes (ap_fingerprint policy)"

definition lease_until :: "attempt_policy \<Rightarrow> int \<Rightarrow> int" where
  "lease_until policy now = i64_saturating_add now (int (period_millis (ap_lease policy)))"

text \<open>The lease written for a verdict on \<open>d\<close>: \<open>None\<close> when the shard is full.\<close>

definition leased where
  "leased occ free ins upd policy subject maximum verdict d token d' \<longleftrightarrow>
     (let fp = attempt_fp policy; shard = attempt_shard fp subject in
      case verdict of
        AV_Deny _ \<Rightarrow> False
      | AV_Insert now \<Rightarrow>
          if occ shard d \<ge> int maximum \<or> free shard maximum d = None then token = None \<and> d' = d
          else \<exists>slot u. free shard maximum d = Some slot \<and> token = Some u \<and>
            ins fp subject slot now (int (period_millis (ap_quiet_period policy))) (lease_until policy now) u d = Ok d'
      | AV_Update failures last_failure now \<Rightarrow>
          \<exists>u. token = Some u \<and> upd fp subject (int failures) last_failure now (lease_until policy now) u d = Ok d')"

definition attempt_admitted where
  "attempt_admitted time_ok clean read occ free ins upd attempt maximum d admission d' \<longleftrightarrow>
     (let policy = as_policy attempt; subject = subject_bytes (as_subject attempt); fp = attempt_fp policy in
      \<exists>held t now d1 verdict. time_ok t \<and> time_ok now \<and> d1 = clean held (attempt_shard fp subject) t d \<and>
        attempt_evaluate policy (read fp subject d1) (Ok now) = Some (Ok verdict) \<and>
        (case verdict of
           AV_Deny denial \<Rightarrow> admission = AttemptDenied denial \<and> d' = d
         | _ \<Rightarrow> (\<exists>token d2. leased occ free ins upd policy subject maximum verdict d1 token d2 \<and>
             (case token of
                None \<Rightarrow> admission = AttemptDenied AttemptStorageCapacity \<and> (d' = d \<or> d' = d2)
              | Some u \<Rightarrow> admission = AttemptAdmitted \<lparr>pr_policy = policy, pr_subject = subject, pr_token = u\<rparr> \<and> d' = d2))))"

lemma attempt_admitted_lease:
  assumes "time_ok t" "time_ok now"
    and "attempt_evaluate (as_policy a) (read (attempt_fp (as_policy a)) (subject_bytes (as_subject a))
      (clean held (attempt_shard (attempt_fp (as_policy a)) (subject_bytes (as_subject a))) t d)) (Ok now) = Some (Ok v)"
    and "leased occ free ins upd (as_policy a) (subject_bytes (as_subject a)) maximum v
      (clean held (attempt_shard (attempt_fp (as_policy a)) (subject_bytes (as_subject a))) t d) token d2"
    and "case token of
        None \<Rightarrow> adm = AttemptDenied AttemptStorageCapacity \<and> (d' = d \<or> d' = d2)
      | Some u \<Rightarrow> adm = AttemptAdmitted \<lparr>pr_policy = as_policy a, pr_subject = subject_bytes (as_subject a), pr_token = u\<rparr> \<and> d' = d2"
  shows "attempt_admitted time_ok clean read occ free ins upd a maximum d adm d'"
proof -
  have "(case v of AV_Deny denial \<Rightarrow> P denial | _ \<Rightarrow> Q) \<longleftrightarrow> Q" for P Q using assms(4) by (cases v) (auto simp: leased_def)
  then show ?thesis unfolding attempt_admitted_def Let_def using assms by blast
qed

definition attempt_completed where
  "attempt_completed time_ok cpl receipt outcome d result d' \<longleftrightarrow>
     (\<exists>q xid now rows. completion_query receipt outcome None = Some q \<and> time_ok now \<and> cpl q xid now d = Ok (d', rows) \<and>
        completion_result rows outcome = Ok result)"

section \<open>Errors and panics\<close>

lemma attempt_decode_error [simp]: "attempt_decode x = Inl e \<Longrightarrow> decode_error e"
  by (auto simp: attempt_decode_def map_err_def storage_decode_invariant_def decode_error_def split: sum.splits)

lemma completion_decode_error [simp]: "completion_decode x = Inl e \<Longrightarrow> decode_error e"
  by (auto simp: completion_decode_def map_err_def storage_decode_invariant_def decode_error_def split: sum.splits)

lemma u32_of_error [simp]: "u32_of n = Inl e \<Longrightarrow> decode_error e"
  by (auto simp: u32_of_def split: if_splits)

lemma attempt_fields_error: "attempt_fields row = Inl e \<Longrightarrow> decode_error e"
  by (auto simp: attempt_fields_def and_then_eq_Inl)

lemma attempt_evaluate_error: "attempt_evaluate policy rows time = Some (Inl e) \<Longrightarrow> decode_error e"
  by (auto simp: attempt_evaluate_def attempt_fields_error split: sum.splits list.splits)

lemma completion_result_error: "completion_result rows outcome = Inl e \<Longrightarrow> decode_error e"
  by (auto simp: completion_result_def and_then_eq_Inl map_err_eq_Inl split: list.splits if_splits)

lemma attempt_decode_Ok [simp]: "attempt_decode (Inr x) = Inr x"
  by (simp add: attempt_decode_def)

text \<open>A time that decodes is the one sampled.\<close>

lemma attempt_evaluate_time: "attempt_evaluate policy rows time = Some (Ok verdict) \<Longrightarrow> \<exists>now. time = Ok now"
  by (cases time) (auto simp: attempt_evaluate_def attempt_decode_def)

lemma triple_ready_or_panic:
  assumes "\<And>w. P w \<Longrightarrow> \<exists>x. r = Some x" "\<And>w a. P w \<Longrightarrow> r = Some (Ok a) \<Longrightarrow> Q a w" "\<And>w f. P w \<Longrightarrow> r = Some (Err f) \<Longrightarrow> E f w"
  shows "triple P (ready_or_panic r) Q E"
  using assms by (auto simp: triple_def ready_or_panic_def split: option.splits sum.splits)

lemma period_database_integer:
  assumes "period_ok p" shows "database_integer (period_millis p) = Some (int (period_millis p))"
  using assms by (auto simp: database_integer_def period_ok_def MAX_WINDOW_MILLIS_value)

lemma triple_period:
  assumes "period_ok p"
  shows "triple P (ready_or_panic (map_option Ok (database_integer (period_millis p)))) (\<lambda>x w. P w \<and> x = int (period_millis p)) E"
  by (rule triple_ready_or_panic) (use assms in \<open>auto simp: period_database_integer\<close>)

lemma completion_query_Some:
  assumes "ap_ok (pr_policy receipt)"
  shows "\<exists>q. completion_query receipt outcome xid = Some q"
  using assms by (simp add: completion_query_def ap_ok_def period_database_integer)

section \<open>The interface of the statements\<close>

locale pg_attempts = pg_session "tv_session tv" db tx good
  for tv :: "'w attempt_server" and db :: "'w \<Rightarrow> 'd" and tx :: "'w \<Rightarrow> 'd" and good :: "'w \<Rightarrow> bool" +
  fixes time_ok :: "int \<Rightarrow> bool"
    and clean :: "'l \<Rightarrow> nat \<Rightarrow> int \<Rightarrow> 'd \<Rightarrow> 'd"
    and read :: "u8 list \<Rightarrow> u8 list \<Rightarrow> 'd \<Rightarrow> attempt_response list"
    and occ :: "nat \<Rightarrow> 'd \<Rightarrow> int"
    and free :: "nat \<Rightarrow> nat \<Rightarrow> 'd \<Rightarrow> int option"
    and ins :: "u8 list \<Rightarrow> u8 list \<Rightarrow> int \<Rightarrow> int \<Rightarrow> int \<Rightarrow> int \<Rightarrow> rstr \<Rightarrow> 'd \<Rightarrow> (sqlx_error, 'd) result"
    and upd :: "u8 list \<Rightarrow> u8 list \<Rightarrow> int \<Rightarrow> int \<Rightarrow> int \<Rightarrow> int \<Rightarrow> rstr \<Rightarrow> 'd \<Rightarrow> (sqlx_error, 'd) result"
    and cpl :: "completion_params \<Rightarrow> rstr \<Rightarrow> int \<Rightarrow> 'd \<Rightarrow> (sqlx_error, 'd \<times> completion_row list) result"
  assumes lock_shard: "tv_lock_shard tv s w = (w', a) \<Longrightarrow> good w \<Longrightarrow> db w' = db w \<and> (a = Answered () \<longrightarrow> good w' \<and> tx w' = tx w)"
    and cleanup: "tv_cleanup tv s w = (w', b) \<Longrightarrow> good w \<Longrightarrow> db w' = db w \<and> (b = Answered () \<longrightarrow> good w' \<and> (\<exists>held t. time_ok t \<and> tx w' = clean held s t (tx w)))"
    and reads: "tv_read tv fp sub w = (w', c) \<Longrightarrow> good w \<Longrightarrow> db w' = db w \<and> (\<forall>rows. c = Answered rows \<longrightarrow> good w' \<and> tx w' = tx w \<and> rows = read fp sub (tx w))"
    and sample: "tv_sample_time tv w = (w', e) \<Longrightarrow> good w \<Longrightarrow> db w' = db w \<and> (\<forall>x. e = Answered x \<longrightarrow> good w' \<and> tx w' = tx w \<and> (\<forall>t. x = Ok t \<longrightarrow> time_ok t))"
    and occupancy: "tv_occupancy tv s w = (w', e) \<Longrightarrow> good w \<Longrightarrow> db w' = db w \<and> (\<forall>x. e = Answered x \<longrightarrow> good w' \<and> tx w' = tx w \<and> x = Ok (occ s (tx w)))"
    and free_slot: "tv_free_slot tv s m w = (w', f) \<Longrightarrow> good w \<Longrightarrow> db w' = db w \<and> (\<forall>x. f = Answered x \<longrightarrow> good w' \<and> tx w' = tx w \<and> x = Ok (free s m (tx w)))"
    and inserts: "tv_insert tv fp sub slot n quiet until w = (w', g) \<Longrightarrow> good w \<Longrightarrow> db w' = db w \<and>
      (\<forall>x. g = Answered x \<longrightarrow> good w' \<and> (\<exists>u. x = Ok u \<and> ins fp sub slot n quiet until u (tx w) = Ok (tx w')))"
    and updates: "tv_update tv fp sub failures lf n until w = (w', g) \<Longrightarrow> good w \<Longrightarrow> db w' = db w \<and>
      (\<forall>x. g = Answered x \<longrightarrow> good w' \<and> (\<exists>u. x = Ok u \<and> upd fp sub failures lf n until u (tx w) = Ok (tx w')))"
    and completes_law: "tv_complete tv q w = (w', h) \<Longrightarrow> good w \<Longrightarrow> db w' = db w \<and>
      (\<forall>rows. h = Answered rows \<longrightarrow> good w' \<and> (\<exists>xid t. time_ok t \<and> cpl q xid t (tx w) = Ok (tx w', rows)))"
begin

abbreviation admitted where "admitted attempt maximum \<equiv> attempt_admitted time_ok clean read occ free ins upd attempt maximum"
abbreviation completed where "completed receipt outcome \<equiv> attempt_completed time_ok cpl receipt outcome"
abbreviation lease_written where "lease_written \<equiv> leased occ free ins upd"

lemma capacity_denial_triple:
  "triple (within d d1) (finish_capacity_denial (tv_session tv) deadline)
     (\<lambda>c w. outcome_value c = AttemptDenied AttemptStorageCapacity \<and> (db w = d \<or> db w = d1)) E"
proof (rule tripleI)
  fix w assume "within d d1 w"
  from tripleD [OF tx_commit_triple this, of deadline]
  show "case finish_capacity_denial (tv_session tv) deadline w of (w', None) \<Rightarrow> False
      | (w', Some (Ok c)) \<Rightarrow> outcome_value c = AttemptDenied AttemptStorageCapacity \<and> (db w' = d \<or> db w' = d1)
      | (w', Some (Err f)) \<Rightarrow> E f w'"
    by (auto simp: finish_capacity_denial_def ConnectionOutcome_map_def outcome_value_def
        split: prod.splits option.splits sum.splits connection_outcome.splits)
qed

lemma statement_triple:
  assumes "\<And>w w' a. within d d' w \<Longrightarrow> query w = (w', a) \<Longrightarrow> db w' = d \<and> (\<forall>x. a = Answered x \<longrightarrow> Q x w')"
  shows "triple (within d d') (tx_execute (tv_session tv) deadline PHASE query) Q (\<lambda>f w. honest R d (outcome_value f) (db w))"
  by (rule unharmed_honest, rule tx_execute_triple) (use assms in blast)

lemma decoded_triple:
  assumes "\<And>e. r = Inl e \<Longrightarrow> decode_error e"
  shows "triple (within d d') (ready_result (map_err reusable_check_error r)) (\<lambda>x w. within d d' w \<and> r = Ok x)
     (\<lambda>f w. honest R d (outcome_value f) (db w))"
  by (rule triple_ready)
    (use assms in \<open>auto simp: map_err_def reusable_check_error_def not_consumed_honest decode_error_not_consumed split: sum.splits\<close>)

text \<open>The lease of a verdict, in the transaction.\<close>

definition has_lease where
  "has_lease d policy subject maximum verdict d1 token w \<longleftrightarrow>
     (\<exists>u d2. within d d2 w \<and> lease_written policy subject maximum verdict d1 u d2 \<and> token = map_option Ok u)"

lemma update_lease_triple:
  assumes "ap_ok policy"
  shows "triple (within d d1) (update_lease tv deadline policy (attempt_fp policy) subject failures last_failure n)
     (has_lease d policy subject maximum (AV_Update failures last_failure n) d1) (\<lambda>f w. honest R d (outcome_value f) (db w))" (is "triple _ _ ?Q ?E")
proof -
  have update: "triple (within d d1) (tx_execute (tv_session tv) deadline PHASE
      (tv_update tv (attempt_fp policy) subject (int failures) last_failure n (lease_until policy n)))
      (\<lambda>x w. \<exists>u d2. within d d2 w \<and> x = Ok u \<and> upd (attempt_fp policy) subject (int failures) last_failure n (lease_until policy n) u d1 = Ok d2) ?E"
    by (rule statement_triple) (use updates in fastforce)
  have "period_ok (ap_lease policy)" using assms by (simp add: ap_ok_def)
  note period = triple_period [OF this]
  show ?thesis unfolding update_lease_def
    by (rule triple_and_await [OF period], intro triple_pre_conj, hypsubst,
        fold lease_until_def, rule triple_and_await [OF update], rule triple_ready)
      (auto simp: has_lease_def leased_def)
qed

lemma insert_lease_triple:
  assumes "ap_ok policy"
  shows "triple (within d d1) (insert_lease tv deadline policy (attempt_fp policy) subject maximum n)
     (has_lease d policy subject maximum (AV_Insert n) d1) (\<lambda>f w. honest R d (outcome_value f) (db w))" (is "triple _ _ ?Q ?E")
proof -
  let ?s = "attempt_shard (attempt_fp policy) subject"
  have per: "period_ok (ap_lease policy)" "period_ok (ap_quiet_period policy)" using assms by (simp_all add: ap_ok_def)
  have occ: "triple (within d d1) (tx_execute (tv_session tv) deadline PHASE (tv_occupancy tv ?s)) (\<lambda>x w. within d d1 w \<and> x = Ok (occ ?s d1)) ?E"
    by (rule statement_triple) (use occupancy in fastforce)
  have free: "triple (within d d1) (tx_execute (tv_session tv) deadline PHASE (tv_free_slot tv ?s maximum))
      (\<lambda>x w. within d d1 w \<and> x = Ok (free ?s maximum d1)) ?E"
    by (rule statement_triple) (use free_slot in fastforce)
  have ins: "triple (within d d1) (tx_execute (tv_session tv) deadline PHASE
      (tv_insert tv (attempt_fp policy) subject slot n (int (period_millis (ap_quiet_period policy))) (lease_until policy n)))
      (\<lambda>x w. \<exists>u d2. within d d2 w \<and> x = Ok u \<and>
         ins (attempt_fp policy) subject slot n (int (period_millis (ap_quiet_period policy))) (lease_until policy n) u d1 = Ok d2) ?E" for slot
    by (rule statement_triple) (use inserts in fastforce)
  have full: "triple (within d d1) (ready_result (Ok None)) ?Q ?E" if "occ ?s d1 \<ge> int maximum \<or> free ?s maximum d1 = None"
    by (rule triple_ready) (use that in \<open>auto simp: has_lease_def leased_def\<close>)
  have slot: "triple (within d d1)
      (and_await (ready_or_panic (map_option Ok (database_integer (period_millis (ap_quiet_period policy))))) (\<lambda>quiet_ms.
       and_await (ready_or_panic (map_option Ok (database_integer (period_millis (ap_lease policy))))) (\<lambda>lease_ms.
       and_await (tx_execute (tv_session tv) deadline PHASE
         (tv_insert tv (attempt_fp policy) subject slot n quiet_ms (i64_saturating_add n lease_ms))) (\<lambda>token.
       ready_result (Ok (Some token)))))) ?Q ?E" if "occ ?s d1 < int maximum" "free ?s maximum d1 = Some slot" for slot
    by (rule triple_and_await [OF triple_period [OF per(2)]], intro triple_pre_conj, hypsubst,
        rule triple_and_await [OF triple_period [OF per(1)]], intro triple_pre_conj, hypsubst,
        fold lease_until_def, rule triple_and_await [OF ins], rule triple_ready)
      (use that in \<open>auto simp: has_lease_def leased_def\<close>)
  show ?thesis unfolding insert_lease_def Let_def
  proof (rule triple_and_await [OF occ], intro triple_pre_conj, hypsubst, rule triple_and_await [OF decoded_triple], simp, intro triple_pre_conj, goal_cases)
    case (1 _ row_count)
    then have row_count: "row_count = occ ?s d1" by simp
    show ?case
    proof (cases "row_count \<ge> int maximum")
      case True
      then show ?thesis using full row_count by simp
    next
      case False
      show ?thesis unfolding if_not_P [OF False]
      proof (rule triple_and_await [OF free], intro triple_pre_conj, hypsubst, rule triple_and_await [OF decoded_triple], simp, intro triple_pre_conj, goal_cases)
        case (1 _ found)
        then show ?case using full slot False row_count by (cases found) auto
      qed
    qed
  qed
qed

lemma finish_admission_triple:
  assumes full: "\<And>d2. lease_written policy subject maximum verdict d1 None d2 \<Longrightarrow>
      R (AttemptDenied AttemptStorageCapacity) d \<and> R (AttemptDenied AttemptStorageCapacity) d2"
    and lease: "\<And>u d2. lease_written policy subject maximum verdict d1 (Some u) d2 \<Longrightarrow>
      R (AttemptAdmitted \<lparr>pr_policy = policy, pr_subject = subject, pr_token = u\<rparr>) d2"
  shows "triple (has_lease d policy subject maximum verdict d1 token) (finish_admission tv deadline policy subject token)
     (\<lambda>c w. R (outcome_value c) (db w)) (\<lambda>f w. honest R d (outcome_value f) (db w))" (is "triple _ _ ?Q ?E")
proof (cases token)
  case None
  have "triple (within d d2) (finish_capacity_denial (tv_session tv) deadline) ?Q ?E"
    if "lease_written policy subject maximum verdict d1 None d2" for d2
    by (rule triple_weaken [OF capacity_denial_triple [where E = ?E]]) (use full [OF that] in auto)
  then show ?thesis unfolding has_lease_def None finish_admission_def
    by (intro triple_pre_ex triple_pre_conj) auto
next
  case (Some x)
  have "triple (within d d2) (and_await (ready_result (map_err reusable_check_error (attempt_decode (Ok u)))) (\<lambda>token.
      and_await (tx_commit (tv_session tv) deadline) (\<lambda>_.
      ready_result (Ok (Reusable (AttemptAdmitted \<lparr>pr_policy = policy, pr_subject = subject, pr_token = token\<rparr>)))))) ?Q ?E"
    if "lease_written policy subject maximum verdict d1 (Some u) d2" for u d2
    by (rule triple_and_await [OF decoded_triple], simp, intro triple_pre_conj, rule commit_decision_triple) (use lease [OF that] in auto)
  then show ?thesis unfolding has_lease_def Some finish_admission_def option.case
  proof (intro triple_pre_ex triple_pre_conj, goal_cases)
    case (1 u d2)
    then obtain v where "u = Some v" "x = Ok v" by (cases u) auto
    then show ?case using 1 by auto
  qed
qed

lemma verdict_triple:
  fixes attempt maximum d held t
  defines "p \<equiv> as_policy attempt" and "sub \<equiv> subject_bytes (as_subject attempt)"
  defines "d1 \<equiv> clean held (attempt_shard (attempt_fp p) sub) t d"
  assumes policy: "ap_ok p" and t: "time_ok t" and n: "\<forall>n. time = Ok n \<longrightarrow> time_ok n"
    and v: "attempt_evaluate p (read (attempt_fp p) sub d1) time = Some (Ok v)"
  shows "triple (within d d1)
     (case v of
        AV_Deny denial \<Rightarrow> finish_denied_transaction (tv_session tv) (AttemptDenied denial)
      | AV_Insert n \<Rightarrow> and_await (insert_lease tv deadline p (attempt_fp p) sub maximum n) (\<lambda>token. finish_admission tv deadline p sub token)
      | AV_Update failures last_failure n \<Rightarrow>
          and_await (update_lease tv deadline p (attempt_fp p) sub failures last_failure n) (\<lambda>token. finish_admission tv deadline p sub token)) 
     (\<lambda>c w. admitted attempt maximum d (outcome_value c) (db w))  (\<lambda>f w. honest (admitted attempt maximum d) d (outcome_value f) (db w))" (is "triple _ _ ?Q ?E")
proof -
  let ?R = "admitted attempt maximum d"
  obtain n where time: "time = Ok n" "time_ok n" using attempt_evaluate_time [OF v] n by auto
  have deny: "?R (AttemptDenied denial) d" if "v = AV_Deny denial" for denial
    using t time v that unfolding attempt_admitted_def Let_def p_def sub_def d1_def by fastforce
  note adm = attempt_admitted_lease [where clean = clean and read = read and time_ok = time_ok, OF t time(2) v [unfolded time(1) d1_def p_def sub_def], folded p_def sub_def, folded d1_def]
  have finish: "triple (has_lease d p sub maximum v d1 token) (finish_admission tv deadline p sub token) ?Q ?E" for token
  proof (rule finish_admission_triple)
    fix d2 assume l: "lease_written p sub maximum v d1 None d2"
    show "?R (AttemptDenied AttemptStorageCapacity) d \<and> ?R (AttemptDenied AttemptStorageCapacity) d2"
      by (intro conjI adm [OF l]) simp_all
  next
    fix u d2 assume l: "lease_written p sub maximum v d1 (Some u) d2"
    show "?R (AttemptAdmitted \<lparr>pr_policy = p, pr_subject = sub, pr_token = u\<rparr>) d2" by (rule adm [OF l]) simp
  qed
  show ?thesis
  proof (cases v)
    case (AV_Deny denial)
    then show ?thesis using deny_decision_triple [of ?R] deny by simp
  next
    case (AV_Insert n)
    from finish [unfolded this] show ?thesis unfolding AV_Insert attempt_verdict.case
      by (intro triple_and_await [OF insert_lease_triple [OF policy]])
  next
    case (AV_Update failures last_failure n)
    from finish [unfolded this] show ?thesis unfolding AV_Update attempt_verdict.case
      by (intro triple_and_await [OF update_lease_triple [OF policy]])
  qed
qed

lemma admit_transaction_triple:
  assumes policy: "ap_ok (as_policy attempt)"
    and total: "\<And>held t n. time_ok t \<Longrightarrow> time_ok n \<Longrightarrow> attempt_evaluate (as_policy attempt)
      (read (attempt_fp (as_policy attempt)) (subject_bytes (as_subject attempt))
        (clean held (attempt_shard (attempt_fp (as_policy attempt)) (subject_bytes (as_subject attempt))) t d)) (Ok n) \<noteq> None"
  shows "triple (idle d) (admit_transaction tv attempt maximum deadline)
     (\<lambda>c w. admitted attempt maximum d (outcome_value c) (db w))
     (\<lambda>f w. honest (admitted attempt maximum d) d (outcome_value f) (db w))" (is "triple _ _ ?Q ?E")
proof -
  let ?p = "as_policy attempt" and ?sub = "subject_bytes (as_subject attempt)"
  let ?fp = "attempt_fp ?p" and ?R = "admitted attempt maximum d"
  let ?s = "attempt_shard ?fp ?sub"
  have lock: "triple (within d d) (tx_execute (tv_session tv) deadline PHASE (tv_lock_shard tv ?s)) (\<lambda>_. within d d) ?E"
    by (rule statement_triple) (use lock_shard in fastforce)
  have clean: "triple (within d d) (tx_execute (tv_session tv) deadline PHASE (tv_cleanup tv ?s))
      (\<lambda>_ w. \<exists>held t. within d (clean held ?s t d) w \<and> time_ok t) ?E"
    by (rule statement_triple) (use cleanup in fastforce)
  have read: "triple (within d d1) (tx_execute (tv_session tv) deadline PHASE (tv_read tv ?fp ?sub))
      (\<lambda>rows w. within d d1 w \<and> rows = read ?fp ?sub d1) ?E" for d1
    by (rule statement_triple) (use reads in fastforce)
  have sample: "triple (within d d1) (tx_execute (tv_session tv) deadline PHASE (tv_sample_time tv))
      (\<lambda>x w. within d d1 w \<and> (\<forall>n. x = Ok n \<longrightarrow> time_ok n)) ?E" for d1
    by (rule statement_triple) (use sample in fastforce)
  have evaluated: "triple (within d d1) (ready_or_panic (map_option (map_err reusable_check_error) (attempt_evaluate ?p rows time)))
      (\<lambda>v w. within d d1 w \<and> attempt_evaluate ?p rows time = Some (Ok v)) ?E"
    if "attempt_evaluate ?p rows time \<noteq> None" for rows time d1
  proof -
    from that obtain z where z: "attempt_evaluate ?p rows time = Some z" by (auto simp only: not_None_eq)
    show ?thesis unfolding z option.map
      by (rule triple_ready_or_panic)
        (use attempt_evaluate_error [of ?p rows time] z in \<open>auto simp: map_err_eq_Inl reusable_check_error_def
          intro!: not_consumed_honest decode_error_not_consumed\<close>)
  qed
  have some: "attempt_evaluate ?p (read ?fp ?sub (clean held ?s t d)) time \<noteq> None" if "time_ok t" "\<forall>n. time = Ok n \<longrightarrow> time_ok n" for held t time
    using total [OF that(1)] that(2) by (cases time) (auto simp: attempt_evaluate_def attempt_decode_def)
  show ?thesis unfolding admit_transaction_def Let_def
    apply (rule triple_and_await [OF unharmed_honest [OF begin_triple]], rule triple_and_await [OF lock], rule triple_and_await [OF clean])
    apply (intro triple_pre_ex triple_pre_conj)
    apply (rule triple_and_await [OF read], intro triple_pre_conj, hypsubst, rule triple_and_await [OF sample], intro triple_pre_conj)
    apply (rule triple_and_await [OF evaluated [OF some]], assumption, assumption, intro triple_pre_conj)
    by (rule verdict_triple [OF policy])
qed

lemma attempt_admit_triple:
  assumes "ap_ok (as_policy attempt)"
    and "\<And>held t n. time_ok t \<Longrightarrow> time_ok n \<Longrightarrow> attempt_evaluate (as_policy attempt)
      (read (attempt_fp (as_policy attempt)) (subject_bytes (as_subject attempt))
        (clean held (attempt_shard (attempt_fp (as_policy attempt)) (subject_bytes (as_subject attempt))) t d)) (Ok n) \<noteq> None"
  shows "triple (idle d) (attempt_admit tv config attempt)
     (\<lambda>adm w. admitted attempt (pg_maximum_rows_per_shard config) d adm (db w))
     (\<lambda>e w. honest (admitted attempt (pg_maximum_rows_per_shard config) d) d e (db w))"
  unfolding attempt_admit_def by (rule run_guarded_triple, rule admit_transaction_triple) (use assms in auto)

lemma attempt_complete_triple:
  assumes "ap_ok (pr_policy receipt)"
  shows "triple (idle d) (attempt_complete tv config receipt outcome)
     (\<lambda>result w. completed receipt outcome d result (db w)) (\<lambda>e w. honest (completed receipt outcome d) d e (db w))"
  unfolding attempt_complete_def
proof (rule run_guarded_triple)
  fix deadline
  let ?E = "\<lambda>f w. honest (completed receipt outcome d) d (outcome_value f) (db w)"
  obtain q where q: "completion_query receipt outcome None = Some q" using completion_query_Some [OF assms] by blast
  have query: "triple (within d d) (ready_or_panic (map_option Ok (completion_query receipt outcome None))) (\<lambda>x w. within d d w \<and> x = q) ?E"
    by (rule triple_ready_or_panic) (auto simp: q)
  have run: "triple (within d d) (tx_execute (tv_session tv) deadline PHASE (tv_complete tv q))
      (\<lambda>rows w. \<exists>d' xid t. within d d' w \<and> time_ok t \<and> cpl q xid t d = Ok (d', rows)) ?E"
    by (rule statement_triple) (use completes_law in fastforce)
  have result: "triple (within d d') (ready_result (map_err Reusable (completion_result rows outcome)))
      (\<lambda>x w. within d d' w \<and> completion_result rows outcome = Ok x) ?E" for d' rows
    using decoded_triple [of "completion_result rows outcome" d d', OF completion_result_error] by (simp add: reusable_check_error_def [abs_def])
  show "triple (idle d) (complete_transaction tv receipt outcome deadline)
     (\<lambda>c w. completed receipt outcome d (outcome_value c) (db w)) ?E"
    unfolding complete_transaction_def Let_def
    apply (rule triple_and_await [OF unharmed_honest [OF begin_triple]], rule triple_and_await [OF query], intro triple_pre_conj, hypsubst)
    apply (rule triple_and_await [OF run], intro triple_pre_ex triple_pre_conj)
    apply (rule triple_and_await [OF result], intro triple_pre_conj)
    by (rule commit_decision_triple) (use q in \<open>auto simp: attempt_completed_def\<close>)
qed

end

end
