(* ===== verification/Postgres_Attempts_Correct.thy ===== *)
theory Postgres_Attempts_Correct
  imports Postgres_Attempts_Sql Postgres_Attempts_Transaction Attempt_Spec
begin

text \<open>
  The table of \<open>runlimit_attempts\<close> refines the attempt contract of \<open>Attempt_Spec\<close>: milliseconds of the database
  clock are instants, a row is the state of its subject, and the client's evaluation, the statements that
  write a lease and the completion statement are the transitions of the contract.
\<close>

section \<open>Milliseconds\<close>

text \<open>What a column can hold: a reading of the clock, or the deadline of a lease.\<close>

definition stored_ok :: "int \<Rightarrow> bool" where
  "stored_ok t \<longleftrightarrow> EARLIEST_MS \<le> t \<and> t \<le> LATEST_MS + int MAX_WINDOW_MILLIS"

lemma sample_stored: "sample_ok t \<Longrightarrow> stored_ok t"
  by (simp add: sample_ok_def stored_ok_def)

lemma sample_stored_add: "sample_ok t \<Longrightarrow> n \<le> MAX_WINDOW_MILLIS \<Longrightarrow> stored_ok (t + int n)"
  by (simp add: sample_ok_def stored_ok_def)

definition abs_ms :: "int \<Rightarrow> duration" where "abs_ms t = from_millis (nat (t - EARLIEST_MS))"

lemma abs_ms_le: "EARLIEST_MS \<le> b \<Longrightarrow> abs_ms a \<le> abs_ms b \<longleftrightarrow> a \<le> b"
  by (auto simp: abs_ms_def nat_le_iff)

lemma abs_ms_diff: "EARLIEST_MS \<le> a \<Longrightarrow> a \<le> b \<Longrightarrow> abs_ms b - abs_ms a = from_millis (nat (b - a))"
  by (simp add: abs_ms_def from_millis_def diff_mult_distrib [symmetric] nat_diff_distrib [symmetric])

lemma abs_ms_add:
  assumes "stored_ok t" "n \<le> MAX_WINDOW_MILLIS"
  shows "dur_saturating_add (abs_ms t) (from_millis n) = abs_ms (t + int n)"
proof -
  have sum: "nat (t + int n - EARLIEST_MS) = nat (t - EARLIEST_MS) + n" using assms(1) unfolding stored_ok_def by linarith
  have "nat (t + int n - EARLIEST_MS) \<le> 10 ^ 16" using assms
    by (simp add: nat_le_iff stored_ok_def clock_bounds MAX_WINDOW_MILLIS_value)
  then show ?thesis unfolding dur_saturating_add_def abs_ms_def sum
    by (simp add: from_millis_def add_mult_distrib duration_MAX_def NANOS_PER_SEC_def NANOS_PER_MILLI_def)
qed

lemma saturating_add_stored:
  assumes "stored_ok t" "n \<le> MAX_WINDOW_MILLIS"
  shows "i64_saturating_add t (int n) = t + int n"
  using assms by (simp add: i64_saturating_add_def stored_ok_def clock_bounds MAX_WINDOW_MILLIS_value)

lemma i64_sub_stored:
  assumes "sample_ok now" "stored_ok t" "now \<le> t + int n" "n \<le> MAX_WINDOW_MILLIS"
  shows "i64_sub (t + int n) now = Some (t + int n - now)"
  using assms by (simp add: i64_sub_def sample_ok_def stored_ok_def clock_bounds MAX_WINDOW_MILLIS_value)

lemma attempt_wait_abs:
  assumes "EARLIEST_MS \<le> now" "now \<le> t"
  shows "attempt_wait (t - now) = Delay (abs_ms t - abs_ms now)"
  using assms by (simp add: attempt_wait_def abs_ms_diff)

text \<open>The delay of a policy in milliseconds.\<close>

definition delay_ms :: "attempt_policy \<Rightarrow> nat \<Rightarrow> nat" where "delay_ms p n = as_millis (attempt_delay p n)"

lemma delay_ms_eq:
  assumes "ap_ok p"
  shows "delay_ms p n = (if n = 0 then 0 else min (period_millis (ap_initial_delay p) * 2 ^ (n - 1)) (period_millis (ap_maximum_delay p)))"
    "from_millis (delay_ms p n) = attempt_delay p n" "delay_ms p n \<le> MAX_WINDOW_MILLIS"
proof -
  have d: "attempt_delay p n =
      from_millis (if n = 0 then 0 else min (period_millis (ap_initial_delay p) * 2 ^ (n - 1)) (period_millis (ap_maximum_delay p)))"
    using assms by (simp add: attempt_delay_eq)
  have "period_millis (ap_maximum_delay p) \<le> MAX_WINDOW_MILLIS" using assms by (simp add: ap_ok_def period_ok_def)
  then have "(if n = 0 then 0 else min (period_millis (ap_initial_delay p) * 2 ^ (n - 1)) (period_millis (ap_maximum_delay p))) \<le> MAX_WINDOW_MILLIS"
    by (simp only: min_le_iff_disj split: if_split) simp
  then show "delay_ms p n = (if n = 0 then 0 else min (period_millis (ap_initial_delay p) * 2 ^ (n - 1)) (period_millis (ap_maximum_delay p)))"
    "from_millis (delay_ms p n) = attempt_delay p n" "delay_ms p n \<le> MAX_WINDOW_MILLIS"
    unfolding delay_ms_def d as_millis_from_millis by (simp_all only: simp_thms)
qed

lemma delay_ms_0 [simp]: "delay_ms p 0 = 0"
  by (simp add: delay_ms_def as_millis_def)

lemma millis_i64_delay: "ap_ok p \<Longrightarrow> millis_i64 (attempt_delay p n) = Some (int (delay_ms p n))"
  using delay_ms_eq(3) [of p n] by (simp add: millis_i64_def database_integer_def delay_ms_def MAX_WINDOW_MILLIS_value)

section \<open>Rows\<close>

definition abs_row :: "attempt_row \<Rightarrow> rstr attempt_view" where
  "abs_row row =
     (case aw_lease row of
        Some (token, until) \<Rightarrow> held_view (nat (aw_failures row)) token (abs_ms until)
      | None \<Rightarrow> if aw_failures row = 0 then fresh
                else \<lparr>av_failures = nat (aw_failures row), av_last = abs_ms (aw_last_failure row), av_lease = None\<rparr>)"

definition attempt_row_ok :: "attempt_policy \<Rightarrow> storage_key \<Rightarrow> attempt_row \<Rightarrow> bool" where
  "attempt_row_ok p k row \<longleftrightarrow>
     ap_ok p \<and> attempt_constraints k row \<and> aw_quiet row = int (period_millis (ap_quiet_period p)) \<and>
     stored_ok (aw_last_failure row) \<and>
     (case aw_lease row of
        Some (_, until) \<Rightarrow> stored_ok until
      | None \<Rightarrow> aw_retry_at row = aw_last_failure row + int (delay_ms p (nat (aw_failures row))))"

text \<open>The database clock reads less than at the last successful completion. The row then still denies.\<close>

definition clock_behind :: "int \<Rightarrow> attempt_row \<Rightarrow> bool" where
  "clock_behind now row \<longleftrightarrow> aw_lease row = None \<and> aw_failures row = 0 \<and> now < aw_last_failure row"

definition row_verdict :: "attempt_policy \<Rightarrow> int \<Rightarrow> attempt_row \<Rightarrow> attempt_verdict" where
  "row_verdict p now row =
     (let v = elapse p (abs_ms now) (abs_row row) in
      if clock_behind now row then AV_Deny (Backoff (Delay (abs_ms (aw_last_failure row) - abs_ms now)))
      else case denial_of p (abs_ms now) v of
        Some denial \<Rightarrow> AV_Deny denial
      | None \<Rightarrow> AV_Update (av_failures v) (case aw_lease row of Some (_, until) \<Rightarrow> until | None \<Rightarrow> aw_last_failure row) now)"

lemma backoff_spec:
  assumes p: "ap_ok p" and st: "stored_ok t" and now: "sample_ok now"
    and v: "v = elapse p (abs_ms now) (if n = 0 then fresh else \<lparr>av_failures = n, av_last = abs_ms t, av_lease = None\<rparr>)"
  shows "attempt_backoff p now n t (t + int (delay_ms p n)) =
    Some (if n = 0 \<and> now < t then AV_Deny (Backoff (Delay (abs_ms t - abs_ms now)))
      else case denial_of p (abs_ms now) v of Some denial \<Rightarrow> AV_Deny denial | None \<Rightarrow> AV_Update (av_failures v) t now)"
proof -
  let ?q = "period_millis (ap_quiet_period p)"
  have q: "?q \<le> MAX_WINDOW_MILLIS" "period_ok (ap_quiet_period p)" using p by (simp_all add: ap_ok_def period_ok_def)
  note d = delay_ms_eq [OF p, of n]
  have e: "EARLIEST_MS \<le> now" "EARLIEST_MS \<le> t" using now st by (simp_all add: sample_ok_def stored_ok_def)
  have quiet: "dur_saturating_add (abs_ms t) (period_duration (ap_quiet_period p)) \<le> abs_ms now \<longleftrightarrow> t + int ?q \<le> now"
    using abs_ms_add [OF st q(1)] abs_ms_le [OF e(1)] by (simp add: period_duration_def)
  have retry: "dur_saturating_add (abs_ms t) (attempt_delay p n) = abs_ms (t + int (delay_ms p n))"
    using abs_ms_add [OF st d(3)] d(2) by simp
  note step = attempt_backoff_def period_database_integer [OF q(2)] saturating_add_stored [OF st q(1)]
  consider (quiet) "t + int ?q \<le> now" | (zero) "\<not> t + int ?q \<le> now" "n = 0" | (failed) "\<not> t + int ?q \<le> now" "0 < n" by blast
  then show ?thesis
  proof cases
    case quiet
    then have "v = fresh" by (simp add: v elapse_def \<open>_ \<longleftrightarrow> t + int ?q \<le> now\<close>)
    with quiet show ?thesis by (simp add: step denial_of_def)
  next
    case zero
    then have "v = fresh" by (simp add: v)
    with zero show ?thesis using i64_sub_stored [OF now st, of 0] e by (simp add: Let_def step denial_of_def attempt_wait_abs)
  next
    case failed
    then have "v = \<lparr>av_failures = n, av_last = abs_ms t, av_lease = None\<rparr>" by (simp add: v elapse_def quiet)
    with failed show ?thesis
      using i64_sub_stored [OF now st _ d(3)] e abs_ms_le [OF e(1), of "t + int (delay_ms p n)"]
      by (auto simp: step denial_of_def admissible_def retry_at_def retry attempt_wait_abs)
  qed
qed

lemma judge_spec:
  assumes row: "attempt_row_ok p k row" and now: "sample_ok now"
  shows "attempt_judge p now (nat (aw_failures row)) (aw_last_failure row) (aw_retry_at row) (map_option snd (aw_lease row)) =
    Some (row_verdict p now row)"
proof (cases "aw_lease row")
  case None
  have "0 \<le> aw_failures row" using row by (simp add: attempt_row_ok_def attempt_constraints_def)
  then have "elapse p (abs_ms now) (abs_row row) = elapse p (abs_ms now) (if nat (aw_failures row) = 0 then fresh
      else \<lparr>av_failures = nat (aw_failures row), av_last = abs_ms (aw_last_failure row), av_lease = None\<rparr>)"
    by (simp add: abs_row_def None)
  from backoff_spec [OF _ _ now this] \<open>0 \<le> aw_failures row\<close> row None show ?thesis
    by (simp add: attempt_row_ok_def attempt_judge_def row_verdict_def clock_behind_def Let_def cong: option.case_cong)
next
  case (Some l)
  then obtain token until where l: "aw_lease row = Some (token, until)" by (cases l) auto
  have p: "ap_ok p" and u: "stored_ok until" using row l by (simp_all add: attempt_row_ok_def)
  let ?n = "nat (aw_failures row)"
  have e: "EARLIEST_MS \<le> now" using now by (simp add: sample_ok_def)
  show ?thesis
  proof (cases "now < until")
    case True
    then have "elapse p (abs_ms now) (abs_row row) = held_view ?n token (abs_ms until)"
      using abs_ms_le [OF e, of until] by (simp add: abs_row_def l elapse_held)
    then show ?thesis using True l i64_sub_stored [OF now u, of 0] e
      by (simp add: attempt_judge_def row_verdict_def clock_behind_def denial_of_def attempt_wait_abs)
  next
    case False
    have pos: "0 < saturating_add 32 ?n 1" by (simp add: saturating_add_def)
    have v: "elapse p (abs_ms now) (abs_row row) = elapse p (abs_ms now)
        (if saturating_add 32 ?n 1 = 0 then fresh else \<lparr>av_failures = saturating_add 32 ?n 1, av_last = abs_ms until, av_lease = None\<rparr>)"
      using False abs_ms_le [OF e, of until] pos by (simp add: abs_row_def l elapse_held failed_view_def)
    show ?thesis using False l backoff_spec [OF p u now v] pos
      by (simp add: attempt_judge_def row_verdict_def clock_behind_def millis_i64_delay [OF p] saturating_add_stored [OF u delay_ms_eq(3) [OF p]] Let_def
        cong: option.case_cong)
  qed
qed

section \<open>The table\<close>

definition attempts_ok :: "(u8 list \<Rightarrow> attempt_policy) \<Rightarrow> attempt_table \<Rightarrow> bool" where
  "attempts_ok tab d \<longleftrightarrow>
     distinct (map fst d) \<and> distinct (map (\<lambda>(k, row). (key_shard k, aw_slot row)) d) \<and>
     (\<forall>(k, row) \<in> set d. attempt_row_ok (tab (fst k)) k row)"

definition stored_view :: "attempt_table \<Rightarrow> storage_key \<Rightarrow> rstr attempt_view" where
  "stored_view d k = (case map_of d k of None \<Rightarrow> fresh | Some row \<Rightarrow> abs_row row)"

text \<open>The state of a subject when the database clock reads \<open>t\<close>.\<close>

definition table_view :: "(u8 list \<Rightarrow> attempt_policy) \<Rightarrow> attempt_table \<Rightarrow> duration \<Rightarrow> storage_key \<Rightarrow> rstr attempt_view" where
  "table_view tab d t k = elapse (tab (fst k)) t (stored_view d k)"

lemma attempts_ok_row: "attempts_ok tab d \<Longrightarrow> map_of d k = Some row \<Longrightarrow> attempt_row_ok (tab (fst k)) k row"
  by (auto simp: attempts_ok_def dest!: map_of_SomeD)

lemma attempts_ok_filter: "attempts_ok tab d \<Longrightarrow> attempts_ok tab (filter P d)"
  by (auto simp: attempts_ok_def distinct_map intro: inj_on_subset)

text \<open>Evaluation reads the subject's row, and never panics or fails on a valid table.\<close>

lemma evaluate_spec:
  assumes ok: "attempts_ok tab d" and now: "sample_ok now"
  shows "attempt_evaluate (tab fp) (attempt_read fp sub d) (Ok now) =
    Some (Ok (case map_of d (fp, sub) of None \<Rightarrow> AV_Insert now | Some row \<Rightarrow> row_verdict (tab fp) now row))"
proof (cases "map_of d (fp, sub)")
  case (Some row)
  from attempts_ok_row [OF ok this] have row: "attempt_row_ok (tab fp) (fp, sub) row" by simp
  then have "u32_of (aw_failures row) = Ok (nat (aw_failures row))"
    by (simp add: attempt_row_ok_def attempt_constraints_def u32_of_def)
  then show ?thesis using judge_spec [OF row now] by (simp add: attempt_evaluate_def attempt_read_def Some attempt_fields_def)
qed (simp add: attempt_evaluate_def attempt_read_def)

text \<open>Cleanup removes rows whose subject is forgotten anyway.\<close>

lemma expired_fresh:
  assumes row: "attempt_row_ok p k row" and old: "attempt_expiry row \<le> t" and t: "EARLIEST_MS \<le> t"
  shows "elapse p (abs_ms t) (abs_row row) = fresh"
proof -
  let ?q = "period_millis (ap_quiet_period p)"
  have q: "?q \<le> MAX_WINDOW_MILLIS" "aw_quiet row = int ?q" using row by (simp_all add: attempt_row_ok_def ap_ok_def period_ok_def)
  have quiet: "dur_saturating_add (abs_ms u) (period_duration (ap_quiet_period p)) \<le> abs_ms t" if "stored_ok u" "u + int ?q \<le> t" for u
    using abs_ms_add [OF that(1) q(1)] abs_ms_le [OF t] that(2) by (simp add: period_duration_def)
  show ?thesis
  proof (cases "aw_lease row")
    case None
    then show ?thesis using row old q(2) quiet [of "aw_last_failure row"] by (simp add: attempt_row_ok_def abs_row_def attempt_expiry_def elapse_def)
  next
    case (Some l)
    then obtain token until where l: "aw_lease row = Some (token, until)" by (cases l) auto
    then have u: "stored_ok until" "until + int ?q \<le> t" using row old q(2) by (simp_all add: attempt_row_ok_def attempt_expiry_def)
    moreover have "abs_ms until \<le> abs_ms t" using u(2) abs_ms_le [OF t] by simp
    ultimately show ?thesis using l quiet by (simp add: abs_row_def elapse_held elapse_failed)
  qed
qed

lemma attempt_cleanup_spec:
  assumes ok: "attempts_ok tab d" and t: "sample_ok t"
  shows "attempts_ok tab (ATTEMPT_CLEANUP_SQL locked shard t d)"
    "map_of (ATTEMPT_CLEANUP_SQL locked shard t d) k = map_of d k \<or>
       map_of (ATTEMPT_CLEANUP_SQL locked shard t d) k = None \<and> table_view tab d (abs_ms t) k = fresh"
    "abs_ms t \<le> u \<Longrightarrow> table_view tab (ATTEMPT_CLEANUP_SQL locked shard t d) u = table_view tab d u"
proof -
  let ?c = "ATTEMPT_CLEANUP_SQL locked shard t d"
  show "attempts_ok tab ?c" unfolding ATTEMPT_CLEANUP_SQL_def by (rule attempts_ok_filter [OF ok])
  have dist: "distinct (map fst d)" using ok by (simp add: attempts_ok_def)
  have del: "map_of ?c k = (if k \<in> set (attempt_expired locked shard t d) then None else map_of d k)" for k
    by (simp add: ATTEMPT_CLEANUP_SQL_def map_of_filter_keys)
  have old: "table_view tab d (abs_ms t) k = fresh" if "k \<in> set (attempt_expired locked shard t d)" for k
  proof -
    from that obtain row where "(k, row) \<in> set d" "attempt_expiry row \<le> t"
      by (auto simp: attempt_expired_def dest!: in_set_takeD)
    with dist have "map_of d k = Some row" "attempt_expiry row \<le> t" by auto
    then show ?thesis using expired_fresh [OF attempts_ok_row [OF ok]] t by (simp add: table_view_def stored_view_def sample_ok_def)
  qed
  then show "map_of ?c k = map_of d k \<or> map_of ?c k = None \<and> table_view tab d (abs_ms t) k = fresh" by (simp add: del)
  show "table_view tab ?c u = table_view tab d u" if "abs_ms t \<le> u"
  proof
    fix k
    show "table_view tab ?c u k = table_view tab d u k"
    proof (cases "k \<in> set (attempt_expired locked shard t d)")
      case True
      from old [OF this] elapse_elapse [OF that, of "tab (fst k)" "stored_view d k"] have "table_view tab d u k = fresh"
        by (simp add: table_view_def)
      with True show ?thesis by (simp add: table_view_def stored_view_def del)
    qed (simp add: table_view_def stored_view_def del)
  qed
qed

section \<open>Leases\<close>

lemma attempts_ok_append:
  assumes ok: "attempts_ok tab d" and row: "attempt_row_ok (tab (fst k)) k row" and new: "map_of d k = None"
    and slot: "aw_slot row \<notin> (\<lambda>(_, row). aw_slot row) ` set (attempts_in (key_shard k) d)"
  shows "attempts_ok tab (d @ [(k, row)])"
  using ok row new slot by (force simp: attempts_ok_def map_of_eq_None_iff)

lemma update_existing:
  assumes "map_of d k = Some row"
  shows "f k row' = f k row \<Longrightarrow> map (\<lambda>(k, r). f k r) (AList.update k row' d) = map (\<lambda>(k, r). f k r) d"
    "map fst (AList.update k row' d) = map fst d"
  using assms by (induction d) auto

lemma attempts_ok_update:
  assumes ok: "attempts_ok tab d" and old: "map_of d k = Some row"
    and row: "attempt_row_ok (tab (fst k)) k row'" "aw_slot row' = aw_slot row"
  shows "attempts_ok tab (AList.update k row' d)"
proof -
  have keys: "map fst (AList.update k row' d) = map fst d" by (rule update_existing(2) [OF old])
  have slots: "map (\<lambda>(k, r). (key_shard k, aw_slot r)) (AList.update k row' d) = map (\<lambda>(k, r). (key_shard k, aw_slot r)) d"
    by (rule update_existing(1) [OF old]) (simp add: row(2))
  have dist: "distinct (map fst (AList.update k row' d))" using ok by (simp add: keys attempts_ok_def)
  have "attempt_row_ok (tab (fst j)) j r" if "(j, r) \<in> set (AList.update k row' d)" for j r
  proof -
    have "map_of (AList.update k row' d) j = Some r" using that dist by simp
    then show ?thesis using row(1) attempts_ok_row [OF ok] by (auto simp: AList.update_conv' split: if_splits)
  qed
  then show ?thesis using ok dist by (auto simp: attempts_ok_def slots)
qed

text \<open>Below the bound there is a free slot: the allocation never denies more than the count does.\<close>

lemma free_slot_exists:
  assumes "attempt_occupancy shard d < int maximum"
  shows "attempt_free_slot shard maximum d \<noteq> None"
proof
  let ?slots = "(\<lambda>(_, row). aw_slot row) ` set (attempts_in shard d)"
  assume "attempt_free_slot shard maximum d = None"
  then have "int ` {0..<maximum} \<subseteq> ?slots" by (auto simp: attempt_free_slot_def find_None_iff)
  then have "card (int ` {0..<maximum}) \<le> card ?slots" by (intro card_mono) auto
  also have "\<dots> \<le> length (attempts_in shard d)" using card_image_le [of "set (attempts_in shard d)"] card_length le_trans by blast
  finally show False using assms by (simp add: card_image attempt_occupancy_def)
qed

lemma free_slot_unused:
  assumes "attempt_free_slot shard maximum d = Some slot"
  shows "slot \<notin> (\<lambda>(_, row). aw_slot row) ` set (attempts_in shard d)" "0 \<le> slot" "slot < int maximum"
  using assms by (auto simp: attempt_free_slot_def find_Some_iff)

abbreviation lease_view :: "attempt_policy \<Rightarrow> nat \<Rightarrow> rstr \<Rightarrow> int \<Rightarrow> rstr attempt_view" where
  "lease_view p n token now \<equiv> held_view n token (dur_saturating_add (abs_ms now) (period_duration (ap_lease p)))"

lemma lease_until_stored:
  assumes "ap_ok p" "sample_ok now"
  shows "lease_until p now = now + int (period_millis (ap_lease p))" "stored_ok (lease_until p now)"
    "abs_ms (lease_until p now) = dur_saturating_add (abs_ms now) (period_duration (ap_lease p))"
proof -
  have l: "period_millis (ap_lease p) \<le> MAX_WINDOW_MILLIS" using assms(1) by (simp add: ap_ok_def period_ok_def)
  note st = sample_stored [OF assms(2)]
  show e: "lease_until p now = now + int (period_millis (ap_lease p))" unfolding lease_until_def by (rule saturating_add_stored [OF st l])
  show "stored_ok (lease_until p now)" unfolding e by (rule sample_stored_add [OF assms(2) l])
  show "abs_ms (lease_until p now) = dur_saturating_add (abs_ms now) (period_duration (ap_lease p))"
    unfolding e period_duration_def by (rule abs_ms_add [OF st l, symmetric])
qed

lemma insert_spec:
  assumes ok: "attempts_ok tab d" and p: "ap_ok (tab fp)" and now: "sample_ok now"
    and ins: "attempt_insert fp sub slot now (int (period_millis (ap_quiet_period (tab fp)))) (lease_until (tab fp) now) token d = Ok d'"
  shows "attempts_ok tab d'" "stored_view d' = (stored_view d)((fp, sub) := lease_view (tab fp) 0 token now)"
proof -
  let ?k = "(fp, sub)"
  define row where "row = \<lparr>aw_slot = slot, aw_failures = 0, aw_last_failure = now, aw_retry_at = now,
    aw_quiet = int (period_millis (ap_quiet_period (tab fp))), aw_lease = Some (token, lease_until (tab fp) now)\<rparr>"
  from ins have new: "map_of d ?k = None" "slot \<notin> (\<lambda>(_, row). aw_slot row) ` set (attempts_in (key_shard ?k) d)"
    and row: "attempt_constraints ?k row" and d': "d' = d @ [(?k, row)]"
    by (auto simp: attempt_insert_def checked_attempt_def and_then_eq_Inr row_def Let_def split: if_splits)
  note l = lease_until_stored [OF p now]
  have "attempt_row_ok (tab (fst ?k)) ?k row" using row p l(2) sample_stored [OF now] by (simp add: attempt_row_ok_def row_def)
  then show "attempts_ok tab d'" unfolding d' by (rule attempts_ok_append [OF ok _ new(1)]) (use new(2) in \<open>simp add: row_def\<close>)
  show "stored_view d' = (stored_view d)(?k := lease_view (tab fp) 0 token now)"
    using new(1) l(3) by (auto simp: fun_eq_iff stored_view_def d' map_add_def abs_row_def row_def split: option.splits)
qed

lemma update_spec:
  assumes ok: "attempts_ok tab d" and p: "ap_ok (tab fp)" and now: "sample_ok now" and st: "stored_ok last_failure"
    and upd: "attempt_update fp sub (int n) last_failure now (lease_until (tab fp) now) token d = Ok d'"
  shows "attempts_ok tab d'" "stored_view d' = (stored_view d)((fp, sub) := lease_view (tab fp) n token now)"
proof -
  let ?k = "(fp, sub)"
  from upd obtain old where old: "map_of d ?k = Some old" by (auto simp: attempt_update_def Let_def split: option.splits)
  define row where "row = old\<lparr>aw_failures := int n, aw_last_failure := last_failure, aw_retry_at := now,
    aw_lease := Some (token, lease_until (tab fp) now)\<rparr>"
  from upd old have row: "attempt_constraints ?k row" and d': "d' = AList.update ?k row d"
    by (auto simp: attempt_update_def checked_attempt_def and_then_eq_Inr row_def Let_def split: if_splits)
  note l = lease_until_stored [OF p now]
  have "attempt_row_ok (tab (fst ?k)) ?k row" using attempts_ok_row [OF ok old] row p l(2) st by (simp add: attempt_row_ok_def row_def)
  then show "attempts_ok tab d'" unfolding d' by (rule attempts_ok_update [OF ok old]) (simp add: row_def)
  show "stored_view d' = (stored_view d)(?k := lease_view (tab fp) n token now)"
    using l(3) by (auto simp: fun_eq_iff stored_view_def d' AList.update_conv' abs_row_def row_def split: option.splits)
qed

section \<open>Completion\<close>

lemma complete_delay:
  assumes p: "ap_ok p" and n: "n \<le> 4294967295"
  shows "min (int (period_millis (ap_maximum_delay p))) (int (period_millis (ap_initial_delay p)) * 2 ^ nat (min (int n) 63)) =
    int (delay_ms p (saturating_add 32 n 1))"
proof -
  let ?i = "period_millis (ap_initial_delay p)" and ?m = "period_millis (ap_maximum_delay p)"
  have i: "1 \<le> ?i" and m: "?m < 2 ^ 63" using p by (auto simp: ap_ok_def period_ok_def MAX_WINDOW_MILLIS_value)
  have big: "min (?i * 2 ^ j) ?m = ?m" if "63 \<le> j" for j
  proof -
    have "?m \<le> 1 * 2 ^ 63" using m by simp
    also have "\<dots> \<le> ?i * 2 ^ j" using i that by (intro mult_le_mono power_increasing) auto
    finally show ?thesis by (simp only: min.absorb2)
  qed
  have pos: "saturating_add 32 n 1 \<noteq> 0" by (simp add: saturating_add_def)
  have "min (?i * 2 ^ (saturating_add 32 n 1 - 1)) ?m = min (?i * 2 ^ (min n 63)) ?m"
  proof (cases "n \<le> 63")
    case True
    then have "saturating_add 32 n 1 - 1 = n" "min n 63 = n" by (simp_all add: saturating_add_def)
    then show ?thesis by (simp only:)
  next
    case False
    then have "63 \<le> saturating_add 32 n 1 - 1" "min n 63 = 63" using n by (simp_all add: saturating_add_def)
    then show ?thesis by (simp only: big)
  qed
  then have "delay_ms p (saturating_add 32 n 1) = min ?m (?i * 2 ^ (min n 63))"
    using pos delay_ms_eq(1) [OF p] by (simp only: if_False min.commute)
  moreover have "nat (min (int n) 63) = min n 63" by linarith
  ultimately show ?thesis by (simp only: of_nat_mult of_nat_power of_nat_numeral of_nat_min)
qed

lemma completed_row_spec:
  assumes row: "attempt_row_ok p k row" and now: "sample_ok now"
    and q: "cq_success q = (outcome = Success)" "cq_initial_delay q = int (period_millis (ap_initial_delay p))"
      "cq_maximum_delay q = int (period_millis (ap_maximum_delay p))"
  obtains row' where "completed_row q now row = Ok (row', int (delay_ms p (nat (aw_failures row'))))"
    "checked_attempt k row' = Ok row'" "attempt_row_ok p k row'" "aw_slot row' = aw_slot row"
    "abs_row row' = completed_view outcome (abs_ms now) (abs_row row)" "aw_failures row' = int (av_failures (abs_row row'))"
proof -
  let ?n = "nat (aw_failures row)"
  define n where "n = (if outcome = Success then 0 else saturating_add 32 ?n 1)"
  define row' where "row' = row\<lparr>aw_failures := int n, aw_last_failure := now, aw_retry_at := now + int (delay_ms p n), aw_lease := None\<rparr>"
  have p: "ap_ok p" and f: "0 \<le> aw_failures row" "?n \<le> 4294967295"
    using row by (auto simp: attempt_row_ok_def attempt_constraints_def nat_le_iff)
  have n: "int n = (if outcome = Success then 0 else min (aw_failures row + 1) 4294967295)" "n \<le> 4294967295"
    using f by (auto simp: n_def saturating_add_def min_def)
  have delay: "(if cq_success q then Ok 0 else bigint (min (cq_maximum_delay q) (cq_initial_delay q * 2 ^ nat (min (aw_failures row) 63)))) =
      Ok (int (delay_ms p n))"
    using complete_delay [OF p f(2)] f(1) delay_ms_eq(3) [OF p, of n]
    by (cases "outcome = Success") (simp_all add: q n_def bigint_def MAX_WINDOW_MILLIS_value)
  have "sample_ok now \<Longrightarrow> bigint (now + int (delay_ms p n)) = Ok (now + int (delay_ms p n))"
    using delay_ms_eq(3) [OF p, of n] by (simp add: bigint_def sample_ok_def clock_bounds MAX_WINDOW_MILLIS_value)
  then have done_row: "completed_row q now row = Ok (row', int (delay_ms p (nat (aw_failures row'))))"
    unfolding completed_row_def Let_def delay unfolding q(1) n(1) [symmetric] using now by (simp add: row'_def)
  have ok: "attempt_row_ok p k row'" using row n(2) sample_stored [OF now]
    by (simp add: attempt_row_ok_def attempt_constraints_def row'_def)
  have "bigint (attempt_expiry row') = Ok (attempt_expiry row')" using ok now
    by (simp add: bigint_def attempt_expiry_def row'_def attempt_row_ok_def attempt_constraints_def sample_ok_def clock_bounds)
  then have checked: "checked_attempt k row' = Ok row'" using ok by (simp add: checked_attempt_def attempt_row_ok_def)
  have old: "av_failures (abs_row row) = ?n" by (simp add: abs_row_def split: option.split)
  have "outcome \<noteq> Success \<Longrightarrow> n \<noteq> 0" by (simp add: n_def saturating_add_def)
  then have "abs_row row' = completed_view outcome (abs_ms now) (abs_row row)"
    by (cases "outcome = Success") (auto simp: row'_def abs_row_def [of "row\<lparr>aw_failures := _, aw_last_failure := _, aw_retry_at := _, aw_lease := _\<rparr>"]
        completed_view_def failed_view_def old n_def)
  moreover have "aw_failures row' = int (av_failures (abs_row row'))" by (simp add: row'_def abs_row_def)
  ultimately show thesis using that [OF done_row checked ok] by (simp add: row'_def)
qed

text \<open>The completion statement and its decoding are total, and apply exactly to the lease that the parameters name.\<close>

definition completion_spec where
  "completion_spec tab receipt outcome now matches d d' result \<longleftrightarrow>
     (let p = pr_policy receipt; k = (attempt_fp p, pr_subject receipt); v = completed_view outcome (abs_ms now) (stored_view d k)
      in if matches
         then attempts_ok tab d' \<and> stored_view d' = (stored_view d)(k := v) \<and>
           result = Applied \<lparr>ac_outcome = outcome, ac_consecutive_failures = av_failures v, ac_retry_after = Delay (attempt_delay p (av_failures v))\<rparr>
         else d' = d \<and> result = Stale)"

lemma completion_result_applied:
  assumes p: "ap_ok p" and n: "n \<le> 4294967295" "(n = 0) = (outcome = Success)"
  shows "completion_result [\<lparr>cw_failures = Ok (int n), cw_delay_ms = Ok (int (delay_ms p n))\<rparr>] outcome =
    Ok (Applied \<lparr>ac_outcome = outcome, ac_consecutive_failures = n, ac_retry_after = Delay (attempt_delay p n)\<rparr>)"
proof -
  have "0 < attempt_delay p n" if "n \<noteq> 0" using attempt_delay_pos [OF p] that by simp
  then show ?thesis using n delay_ms_eq(2) [OF p, of n]
    by (cases outcome) (auto simp: completion_result_def completion_decode_def u32_of_def attempt_wait_def AttemptCompletion_new_def is_zero_def Let_def)
qed

lemma complete_sql_spec:
  assumes ok: "attempts_ok tab d" and p: "ap_ok p" "tab (attempt_fp p) = p" "pr_policy receipt = p" and now: "sample_ok now"
    and q: "completion_query receipt outcome tid = Some q"
  shows "\<exists>d' rows result. COMPLETE_SQL q xid now d = Ok (d', rows) \<and> completion_result rows outcome = Ok result \<and>
    completion_spec tab receipt outcome now
      (\<exists>row. map_of d (attempt_fp p, pr_subject receipt) = Some row \<and> completion_matches q xid now row) d d' result"
proof -
  let ?k = "(attempt_fp p, pr_subject receipt)"
  have periods: "period_ok (ap_initial_delay p)" "period_ok (ap_maximum_delay p)" using p(1) by (simp_all add: ap_ok_def)
  have q': "(cq_fingerprint q, cq_subject q) = ?k" "cq_success q = (outcome = Success)"
    "cq_initial_delay q = int (period_millis (ap_initial_delay p))" "cq_maximum_delay q = int (period_millis (ap_maximum_delay p))"
    using q by (auto simp: completion_query_def p(3) period_database_integer [OF periods(1)] period_database_integer [OF periods(2)])
  show ?thesis
  proof (cases "\<exists>row. map_of d ?k = Some row \<and> completion_matches q xid now row")
    case True
    then obtain row where row: "map_of d ?k = Some row" "completion_matches q xid now row" by blast
    have "attempt_row_ok p ?k row" using attempts_ok_row [OF ok row(1)] p(2) by simp
    from completed_row_spec [OF this now q'(2-4)] obtain row' where r:
      "completed_row q now row = Ok (row', int (delay_ms p (nat (aw_failures row'))))" "checked_attempt ?k row' = Ok row'"
      "attempt_row_ok p ?k row'" "aw_slot row' = aw_slot row" "abs_row row' = completed_view outcome (abs_ms now) (abs_row row)"
      "aw_failures row' = int (av_failures (abs_row row'))" by blast
    let ?d = "AList.update ?k row' d" and ?n = "av_failures (abs_row row')"
    have n: "?n \<le> 4294967295" "(?n = 0) = (outcome = Success)"
      using r(3,6) r(5) by (auto simp: attempt_row_ok_def attempt_constraints_def completed_view_def)
    have "COMPLETE_SQL q xid now d = Ok (?d, [\<lparr>cw_failures = Ok (int ?n), cw_delay_ms = Ok (int (delay_ms p ?n))\<rparr>])"
      unfolding COMPLETE_SQL_def Let_def q'(1) using row r(1,2,6) by simp
    moreover note completion_result_applied [OF p(1) n]
    moreover have "attempts_ok tab ?d" using attempts_ok_update [OF ok row(1)] r(3,4) p(2) by simp
    moreover have "stored_view ?d = (stored_view d)(?k := completed_view outcome (abs_ms now) (stored_view d ?k))"
      using r(5) row(1) by (auto simp: fun_eq_iff stored_view_def AList.update_conv')
    ultimately show ?thesis using True row(1) r(5) by (auto simp: completion_spec_def p(3) stored_view_def)
  next
    case False
    then have "COMPLETE_SQL q xid now d = Ok (d, [])" unfolding COMPLETE_SQL_def Let_def q'(1) by (auto split: option.splits)
    then show ?thesis using False by (simp add: completion_spec_def completion_result_def)
  qed
qed

end
