(* ===== verification/Postgres_Attempts_Server.thy ===== *)
theory Postgres_Attempts_Server
  imports Postgres_Attempts_Correct Postgres_World
begin

text \<open>
  The server of \<open>Postgres_World\<close> with the statements of \<open>attempts.rs\<close>, the interpretation of \<open>pg_attempts\<close> on
  it, and what an admission and a completion amount to on the contract of \<open>Attempt_Spec\<close>. The UUIDs of the
  server are a parameter.
\<close>

section \<open>The server\<close>

definition attempt_sql_server :: "(nat \<Rightarrow> rstr) \<Rightarrow> attempt_table sql_world attempt_server" where
  "attempt_sql_server uuid =
     \<lparr>tv_session = sql_session,
      tv_lock_shard = (\<lambda>_. sql_statement (\<lambda>_ _ w. Ok (w, ()))),
      tv_cleanup = (\<lambda>shard. sql_statement (\<lambda>now _ w.
        and_then (SAMPLE_TIME now) (\<lambda>t. Ok (w\<lparr>sw_tx := ATTEMPT_CLEANUP_SQL (sw_locked w now \<circ> Row_Lock) shard t (sw_tx w)\<rparr>, ())))),
      tv_read = (\<lambda>fp subject. sql_statement (\<lambda>_ _ w. Ok (w, attempt_read fp subject (sw_tx w)))),
      tv_sample_time = sql_statement (\<lambda>now _ w. and_then (SAMPLE_TIME now) (\<lambda>t. Ok (w, Ok t))),
      tv_occupancy = (\<lambda>shard. sql_statement (\<lambda>_ _ w. Ok (w, Ok (attempt_occupancy shard (sw_tx w))))),
      tv_free_slot = (\<lambda>shard maximum. sql_statement (\<lambda>_ _ w. Ok (w, Ok (attempt_free_slot shard maximum (sw_tx w))))),
      tv_insert = (\<lambda>fp subject slot now quiet_ms lease_until. sql_statement (\<lambda>_ _ w.
        and_then (attempt_insert fp subject slot now quiet_ms lease_until (uuid (sw_uuids w)) (sw_tx w)) (\<lambda>d.
        Ok (w\<lparr>sw_tx := d, sw_uuids := sw_uuids w + 1\<rparr>, Ok (uuid (sw_uuids w)))))),
      tv_update = (\<lambda>fp subject failures last_failure now lease_until. sql_statement (\<lambda>_ _ w.
        and_then (attempt_update fp subject failures last_failure now lease_until (uuid (sw_uuids w)) (sw_tx w)) (\<lambda>d.
        Ok (w\<lparr>sw_tx := d, sw_uuids := sw_uuids w + 1\<rparr>, Ok (uuid (sw_uuids w)))))),
      tv_complete = (\<lambda>q. sql_statement (\<lambda>now _ w.
        and_then (SAMPLE_TIME now) (\<lambda>t. and_then (COMPLETE_SQL q (decimal (sw_xid w)) t (sw_tx w)) (\<lambda>(d, rows).
        Ok (w\<lparr>sw_tx := d\<rparr>, rows))))),
      tv_claim = (\<lambda>fp subject token. sql_statement (\<lambda>now _ w.
        and_then (SAMPLE_TIME now) (\<lambda>t.
        let (d, row) = attempt_claim_sql fp subject token (uuid (sw_uuids w)) (decimal (sw_xid w)) t (sw_tx w)
        in Ok (w\<lparr>sw_tx := d, sw_uuids := sw_uuids w + (if row = None then 0 else 1)\<rparr>, row))))\<rparr>"

lemma attempt_session [simp]: "tv_session (attempt_sql_server uuid) = sql_session"
  by (simp add: attempt_sql_server_def)

interpretation asql: pg_attempts "attempt_sql_server uuid" sw_db sw_tx "clock_in T" "sampled T" ATTEMPT_CLEANUP_SQL attempt_read
    attempt_occupancy attempt_free_slot attempt_insert attempt_update COMPLETE_SQL
  for uuid :: "nat \<Rightarrow> rstr" and T
  unfolding pg_attempts_def attempt_session
proof (intro conjI sql_session.pg_session_axioms, unfold_locales, goal_cases)
  case (2 s w w' b)
  then show ?case using sql_statement_law [of _ w w' b T "\<lambda>_ d. \<exists>held t. sampled T t \<and> d = ATTEMPT_CLEANUP_SQL held s t (sw_tx w)"]
    by (fastforce simp: attempt_sql_server_def and_then_eq_Inr sampled_def)
next
  case (4 w w' e)
  then show ?case using sql_statement_law [of _ w w' e T "\<lambda>x d. d = sw_tx w \<and> (\<forall>t. x = Ok t \<longrightarrow> sampled T t)"]
    by (fastforce simp: attempt_sql_server_def and_then_eq_Inr sampled_def)
next
  case (9 q w w' h)
  then show ?case using sql_statement_law [of _ w w' h T "\<lambda>rows d. \<exists>xid t. sampled T t \<and> COMPLETE_SQL q xid t (sw_tx w) = Ok (d, rows)"]
    by (fastforce simp: attempt_sql_server_def and_then_eq_Inr sampled_def)
next
  case (7 fp sub slot n quiet until w w' g)
  then show ?case using sql_statement_law [of _ w w' g T
      "\<lambda>x d. \<exists>u. x = Ok u \<and> attempt_insert fp sub slot n quiet until u (sw_tx w) = Ok d"]
    by (fastforce simp: attempt_sql_server_def and_then_eq_Inr)
next
  case (8 fp sub failures lf n until w w' g)
  then show ?case using sql_statement_law [of _ w w' g T
      "\<lambda>x d. \<exists>u. x = Ok u \<and> attempt_update fp sub failures lf n until u (sw_tx w) = Ok d"]
    by (fastforce simp: attempt_sql_server_def and_then_eq_Inr)
qed (auto simp: attempt_sql_server_def dest: sql_statement_read [where f = "\<lambda>_ _ d. g d" for g])

section \<open>Admission\<close>

text \<open>What cleanup may do to the table: remove subjects that are forgotten when the clock reads \<open>t\<close>.\<close>

definition forgotten :: "(u8 list \<Rightarrow> attempt_policy) \<Rightarrow> int \<Rightarrow> attempt_table \<Rightarrow> attempt_table \<Rightarrow> bool" where
  "forgotten tab t d d' \<longleftrightarrow> attempts_ok tab d' \<and> (\<forall>u \<ge> abs_ms t. table_view tab d' u = table_view tab d u) \<and>
     (\<forall>k. map_of d' k = map_of d k \<or> map_of d' k = None \<and> table_view tab d (abs_ms t) k = fresh)"

lemma cleanup_forgotten: "attempts_ok tab d \<Longrightarrow> sample_ok t \<Longrightarrow> forgotten tab t d (ATTEMPT_CLEANUP_SQL locked shard t d)"
  using attempt_cleanup_spec unfolding forgotten_def by blast

definition attempt_key :: "attempt_subject \<Rightarrow> storage_key" where
  "attempt_key attempt = (attempt_fp (as_policy attempt), subject_bytes (as_subject attempt))"

text \<open>An admission at the sampled time \<open>now\<close>, on the table \<open>d1\<close> that the cleanup at \<open>t\<close> left.\<close>

definition admission_at ::
    "(u8 list \<Rightarrow> attempt_policy) \<Rightarrow> nat \<Rightarrow> attempt_subject \<Rightarrow> int \<Rightarrow> attempt_table \<Rightarrow> attempt_table \<Rightarrow>
     pg_attempt_receipt attempt_admission \<Rightarrow> attempt_table \<Rightarrow> bool" where
  "admission_at tab maximum attempt now d d1 admission d' \<longleftrightarrow>
     (let p = as_policy attempt; k = attempt_key attempt in
      case admission of
        AttemptAdmitted receipt \<Rightarrow>
          (let event = Ev_Admit k (pr_token receipt) in
           pr_policy receipt = p \<and> pr_subject receipt = snd k \<and> attempts_ok tab d' \<and>
           event_enabled (tab \<circ> fst) (abs_ms now) event (table_view tab d1 (abs_ms now)) \<and>
           (\<forall>u. table_view tab d' u = event_effect (tab \<circ> fst) (abs_ms now) event (table_view tab d1) u))
      | AttemptDenied AttemptStorageCapacity \<Rightarrow>
          map_of d1 k = None \<and> int maximum \<le> attempt_occupancy (key_shard k) d1 \<and> (d' = d \<or> d' = d1)
      | AttemptDenied denial \<Rightarrow>
          d' = d \<and>
          (denial_of p (abs_ms now) (table_view tab d1 (abs_ms now) k) = Some denial \<or>
           (\<exists>row. map_of d1 k = Some row \<and> clock_behind now row \<and> denial = Backoff (Delay (abs_ms (aw_last_failure row) - abs_ms now)))))"

definition admission_outcome where
  "admission_outcome T tab maximum attempt d admission d' \<longleftrightarrow>
     (\<exists>t now d1. sampled T t \<and> sampled T now \<and> forgotten tab t d d1 \<and> admission_at tab maximum attempt now d d1 admission d')"

lemma attempt_shard_key: "attempt_shard fp sub = key_shard (fp, sub)"
  by (simp add: attempt_shard_def key_shard_def)

lemma lease_effect:
  assumes "stored_view d' = (stored_view d)(k := lease_view (tab (fst k)) (av_failures (table_view tab d (abs_ms now) k)) token now)"
  shows "table_view tab d' u = event_effect (tab \<circ> fst) (abs_ms now) (Ev_Admit k token) (table_view tab d) u"
  using assms by (auto simp: fun_eq_iff table_view_def)

lemma deny_verdict_sound:
  assumes v: "row_verdict p now row = AV_Deny denial" and row: "map_of d (attempt_key attempt) = Some row"
    and p: "p = as_policy attempt" "tab (fst (attempt_key attempt)) = p"
  shows "denial \<noteq> AttemptStorageCapacity" "denial_of p (abs_ms now) (table_view tab d (abs_ms now) (attempt_key attempt)) = Some denial \<or>
      clock_behind now row \<and> denial = Backoff (Delay (abs_ms (aw_last_failure row) - abs_ms now))"
proof -
  have "table_view tab d (abs_ms now) (attempt_key attempt) = elapse p (abs_ms now) (abs_row row)"
    using row p(2) by (simp add: table_view_def stored_view_def)
  then show "denial_of p (abs_ms now) (table_view tab d (abs_ms now) (attempt_key attempt)) = Some denial \<or>
      clock_behind now row \<and> denial = Backoff (Delay (abs_ms (aw_last_failure row) - abs_ms now))"
    using v by (auto simp: row_verdict_def Let_def split: if_splits option.splits)
  then show "denial \<noteq> AttemptStorageCapacity" by (auto simp: denial_of_def split: option.splits if_splits)
qed

lemma insert_sound:
  assumes ok: "attempts_ok tab d1" and p: "ap_ok (as_policy attempt)" "tab (fst (attempt_key attempt)) = as_policy attempt"
    and now: "sample_ok now" and new: "map_of d1 (attempt_key attempt) = None"
    and l: "asql.lease_written (as_policy attempt) (snd (attempt_key attempt)) maximum (AV_Insert now) d1 token d2"
  shows "case token of
      None \<Rightarrow> int maximum \<le> attempt_occupancy (key_shard (attempt_key attempt)) d1 \<and> d2 = d1
    | Some u \<Rightarrow> admission_at tab maximum attempt now d d1 (AttemptAdmitted \<lparr>pr_policy = as_policy attempt, pr_subject = snd (attempt_key attempt), pr_token = u\<rparr>) d2"
proof (cases token)
  case None
  then show ?thesis using l free_slot_exists [of "key_shard (attempt_key attempt)" d1 maximum]
    by (cases "attempt_occupancy (key_shard (attempt_key attempt)) d1 < int maximum") (auto simp: leased_def Let_def attempt_shard_key attempt_key_def split: if_splits)
next
  case (Some u)
  from l Some obtain slot where ins: "attempt_insert (fst (attempt_key attempt)) (snd (attempt_key attempt)) slot now
      (int (period_millis (ap_quiet_period (tab (fst (attempt_key attempt)))))) (lease_until (tab (fst (attempt_key attempt))) now) u d1 = Ok d2"
    unfolding p(2) by (auto simp: leased_def Let_def attempt_key_def split: if_splits)
  note i = insert_spec [OF ok p(1) [folded p(2)] now ins]
  have v: "table_view tab d1 (abs_ms now) (attempt_key attempt) = fresh" using new by (simp add: table_view_def stored_view_def)
  then show ?thesis using i(1) lease_effect [of d2 d1 "attempt_key attempt" tab now u] i(2)
    by (simp add: Some admission_at_def Let_def p(2))
qed

lemma update_sound:
  assumes ok: "attempts_ok tab d1" and p: "ap_ok (as_policy attempt)" "tab (fst (attempt_key attempt)) = as_policy attempt"
    and now: "sample_ok now" and row: "map_of d1 (attempt_key attempt) = Some row"
    and v: "row_verdict (as_policy attempt) now row = AV_Update n lf now'"
    and l: "asql.lease_written (as_policy attempt) (snd (attempt_key attempt)) maximum (AV_Update n lf now') d1 token d2"
  obtains u where "token = Some u" "admission_at tab maximum attempt now d d1
    (AttemptAdmitted \<lparr>pr_policy = as_policy attempt, pr_subject = snd (attempt_key attempt), pr_token = u\<rparr>) d2"
proof -
  let ?p = "as_policy attempt" and ?k = "attempt_key attempt"
  have tv: "table_view tab d1 (abs_ms now) ?k = elapse ?p (abs_ms now) (abs_row row)" using row p(2) by (simp add: table_view_def stored_view_def)
  from v have vs: "denial_of ?p (abs_ms now) (table_view tab d1 (abs_ms now) ?k) = None" "now' = now"
      "n = av_failures (table_view tab d1 (abs_ms now) ?k)" "lf = (case aw_lease row of Some (_, until) \<Rightarrow> until | None \<Rightarrow> aw_last_failure row)"
    unfolding tv by (auto simp: row_verdict_def Let_def split: if_splits option.splits)
  have st: "stored_ok lf" using attempts_ok_row [OF ok row] vs(4) by (auto simp: attempt_row_ok_def split: option.splits)
  from l obtain u where u: "token = Some u" and upd: "attempt_update (fst ?k) (snd ?k) (int n) lf now (lease_until (tab (fst ?k)) now) u d1 = Ok d2"
    unfolding p(2) vs(2) by (auto simp: leased_def Let_def attempt_key_def)
  note i = update_spec [OF ok p(1) [folded p(2)] now st upd]
  have "admission_at tab maximum attempt now d d1 (AttemptAdmitted \<lparr>pr_policy = ?p, pr_subject = snd ?k, pr_token = u\<rparr>) d2"
    using i(1) lease_effect [of d2 d1 ?k tab now u] i(2) vs(1,3) by (simp add: admission_at_def Let_def p(2) denial_of_None)
  with u show thesis by (rule that)
qed

lemma admitted_sound:
  assumes ok: "attempts_ok tab d" and p: "ap_ok (as_policy attempt)" "tab (fst (attempt_key attempt)) = as_policy attempt"
    and adm: "asql.admitted T attempt maximum d admission d'"
  shows "admission_outcome T tab maximum attempt d admission d'"
proof -
  let ?p = "as_policy attempt" and ?k = "attempt_key attempt"
  have k: "?k = (attempt_fp ?p, subject_bytes (as_subject attempt))" by (simp add: attempt_key_def)
  from adm obtain held t now d1 verdict where T: "sampled T t" "sampled T now" and d1: "d1 = ATTEMPT_CLEANUP_SQL held (key_shard ?k) t d"
    and ev: "attempt_evaluate ?p (attempt_read (fst ?k) (snd ?k) d1) (Ok now) = Some (Ok verdict)"
    and res: "case verdict of
        AV_Deny denial \<Rightarrow> admission = AttemptDenied denial \<and> d' = d
      | _ \<Rightarrow> (\<exists>token d2. asql.lease_written ?p (snd ?k) maximum verdict d1 token d2 \<and>
           (case token of
              None \<Rightarrow> admission = AttemptDenied AttemptStorageCapacity \<and> (d' = d \<or> d' = d2)
            | Some u \<Rightarrow> admission = AttemptAdmitted \<lparr>pr_policy = ?p, pr_subject = snd ?k, pr_token = u\<rparr> \<and> d' = d2))"
    unfolding attempt_admitted_def Let_def attempt_shard_key k [symmetric] by (auto simp only: k fst_conv snd_conv)
  note t = sampled_ok [OF T(1)] sampled_ok [OF T(2)]
  have f: "forgotten tab t d d1" unfolding d1 by (rule cleanup_forgotten [OF ok t(1)])
  then have ok1: "attempts_ok tab d1" by (simp add: forgotten_def)
  have verdict: "verdict = (case map_of d1 ?k of None \<Rightarrow> AV_Insert now | Some row \<Rightarrow> row_verdict ?p now row)"
    using ev evaluate_spec [OF ok1 t(2), of "fst ?k" "snd ?k", unfolded p(2)] by simp
  have "admission_at tab maximum attempt now d d1 admission d'"
  proof (cases "map_of d1 ?k")
    case None
    with res verdict obtain token d2 where l: "asql.lease_written ?p (snd ?k) maximum (AV_Insert now) d1 token d2"
      and r: "case token of None \<Rightarrow> admission = AttemptDenied AttemptStorageCapacity \<and> (d' = d \<or> d' = d2)
        | Some u \<Rightarrow> admission = AttemptAdmitted \<lparr>pr_policy = ?p, pr_subject = snd ?k, pr_token = u\<rparr> \<and> d' = d2" by auto
    show ?thesis using insert_sound [OF ok1 p t(2) None l, of d] r None
      by (cases token) (auto simp: admission_at_def [where admission = "AttemptDenied _"] Let_def)
  next
    case (Some row)
    show ?thesis
    proof (cases "row_verdict ?p now row")
      case (AV_Deny denial)
      with res verdict Some have a: "admission = AttemptDenied denial" "d' = d" by simp_all
      show ?thesis using deny_verdict_sound [where tab = tab, OF AV_Deny Some refl p(2)] Some
        by (cases denial) (auto simp: a admission_at_def Let_def)
    next
      case (AV_Insert n)
      then show ?thesis by (auto simp: row_verdict_def Let_def split: if_splits option.splits)
    next
      case (AV_Update n lf now')
      with res verdict Some obtain token d2 where l: "asql.lease_written ?p (snd ?k) maximum (AV_Update n lf now') d1 token d2"
        and r: "case token of None \<Rightarrow> admission = AttemptDenied AttemptStorageCapacity \<and> (d' = d \<or> d' = d2)
          | Some u \<Rightarrow> admission = AttemptAdmitted \<lparr>pr_policy = ?p, pr_subject = snd ?k, pr_token = u\<rparr> \<and> d' = d2" by auto
      from update_sound [OF ok1 p t(2) Some AV_Update l, of d] obtain u where "token = Some u"
        "admission_at tab maximum attempt now d d1 (AttemptAdmitted \<lparr>pr_policy = ?p, pr_subject = snd ?k, pr_token = u\<rparr>) d2" .
      with r show ?thesis by (simp only: option.case)
    qed
  qed
  with T f show ?thesis unfolding admission_outcome_def by blast
qed

end
