(* ===== verification/Postgres_Attempts_Limits.thy ===== *)
theory Postgres_Attempts_Limits
  imports Postgres_Attempts_Server
begin

text \<open>
  What the public operations of \<open>PostgresAttemptLimiter\<close> and the statements of \<open>low_level\<close> guarantee on the
  table, whatever the server's clock does and whichever statements and replies are lost: an admission
  and a completion are transitions of the attempt contract at one time, or nothing, and a claim is good
  only in the transaction that made it.
\<close>

section \<open>Completion\<close>

definition receipt_key :: "pg_attempt_receipt \<Rightarrow> storage_key" where
  "receipt_key receipt = (attempt_fp (pr_policy receipt), pr_subject receipt)"

definition completion_of :: "pg_attempt_receipt \<Rightarrow> attempt_outcome \<Rightarrow> nat \<Rightarrow> attempt_completion_result" where
  "completion_of receipt outcome n =
     Applied \<lparr>ac_outcome = outcome, ac_consecutive_failures = n, ac_retry_after = Delay (attempt_delay (pr_policy receipt) n)\<rparr>"

definition completion_outcome ::
    "(u8 list \<Rightarrow> attempt_policy) \<Rightarrow> pg_attempt_receipt \<Rightarrow> attempt_outcome \<Rightarrow> int \<Rightarrow> attempt_table \<Rightarrow> attempt_completion_result \<Rightarrow>
     attempt_table \<Rightarrow> bool" where
  "completion_outcome tab receipt outcome now d result d' \<longleftrightarrow>
     (let k = receipt_key receipt; event = Ev_Complete k (pr_token receipt) outcome; v = table_view tab d (abs_ms now) k
      in if event_enabled (tab \<circ> fst) (abs_ms now) event (table_view tab d (abs_ms now))
         then attempts_ok tab d' \<and> result = completion_of receipt outcome (av_failures (completed_view outcome (abs_ms now) v)) \<and>
           (\<forall>u. table_view tab d' u = event_effect (tab \<circ> fst) (abs_ms now) event (table_view tab d) u)
         else d' = d \<and> result = Stale)"

lemma lease_live:
  assumes "attempts_ok tab d" "sample_ok now"
  shows "(\<exists>until. av_lease (table_view tab d (abs_ms now) k) = Some (token, until)) \<longleftrightarrow>
    (\<exists>row until. map_of d k = Some row \<and> aw_lease row = Some (token, until) \<and> now < until)"
    "av_lease (table_view tab d (abs_ms now) k) = Some l \<Longrightarrow> table_view tab d (abs_ms now) k = stored_view d k"
proof -
  have e: "abs_ms now < abs_ms until \<longleftrightarrow> now < until" for until
    using abs_ms_le [of now until] assms(2) by (auto simp: sample_ok_def not_le [symmetric])
  show "(\<exists>until. av_lease (table_view tab d (abs_ms now) k) = Some (token, until)) \<longleftrightarrow>
    (\<exists>row until. map_of d k = Some row \<and> aw_lease row = Some (token, until) \<and> now < until)"
    by (auto simp: table_view_def elapse_lease stored_view_def abs_row_def e split: option.splits)
  show "table_view tab d (abs_ms now) k = stored_view d k" if "av_lease (table_view tab d (abs_ms now) k) = Some l"
    using that by (cases l) (auto simp: table_view_def elapse_lease intro: elapse_lease_kept)
qed

lemma complete_effect:
  assumes "stored_view d' = (stored_view d)(k := completed_view outcome (abs_ms now) (table_view tab d (abs_ms now) k))"
  shows "table_view tab d' u = event_effect (tab \<circ> fst) (abs_ms now) (Ev_Complete k token outcome) (table_view tab d) u"
  using assms by (auto simp: fun_eq_iff table_view_def)

lemma completion_outcome_spec:
  assumes ok: "attempts_ok tab d" "sample_ok now" and q: "completion_query receipt outcome None = Some q"
    and spec: "completion_spec tab receipt outcome now
      (\<exists>row. map_of d (receipt_key receipt) = Some row \<and> completion_matches q xid now row) d d' result"
  shows "completion_outcome tab receipt outcome now d result d'"
proof -
  let ?k = "receipt_key receipt" and ?e = "Ev_Complete (receipt_key receipt) (pr_token receipt) outcome"
  have "cq_token q = pr_token receipt" "cq_transaction_id q = None" using q by (auto simp: completion_query_def bind_eq_Some_conv)
  then have "(\<exists>row. map_of d ?k = Some row \<and> completion_matches q xid now row) \<longleftrightarrow>
      event_enabled (tab \<circ> fst) (abs_ms now) ?e (table_view tab d (abs_ms now))"
    using lease_live(1) [OF ok, of ?k "pr_token receipt"] by (fastforce simp: completion_matches_def split: option.splits)
  note spec = spec [unfolded this completion_spec_def Let_def receipt_key_def [symmetric] completion_of_def [symmetric]]
  show ?thesis
  proof (cases "event_enabled (tab \<circ> fst) (abs_ms now) ?e (table_view tab d (abs_ms now))")
    case True
    then have v: "table_view tab d (abs_ms now) ?k = stored_view d ?k" using lease_live(2) [OF ok, of ?k] by auto
    then show ?thesis using True spec complete_effect [of d' d ?k outcome now tab] by (simp add: completion_outcome_def Let_def)
  next
    case False
    then show ?thesis using spec by (simp add: completion_outcome_def)
  qed
qed

lemma completed_sound:
  assumes ok: "attempts_ok tab d" and p: "ap_ok (pr_policy receipt)" "tab (fst (receipt_key receipt)) = pr_policy receipt"
    and c: "asql.completed T receipt outcome d result d'"
  shows "\<exists>now. sampled T now \<and> completion_outcome tab receipt outcome now d result d'"
proof -
  from c obtain q xid now rows where q: "completion_query receipt outcome None = Some q" and T: "sampled T now"
    and r: "COMPLETE_SQL q xid now d = Ok (d', rows)" "completion_result rows outcome = Ok result"
    unfolding attempt_completed_def by blast
  note now = sampled_ok [OF T]
  have "tab (attempt_fp (pr_policy receipt)) = pr_policy receipt" using p(2) by (simp add: receipt_key_def)
  from complete_sql_spec [OF ok p(1) this refl now q, of xid] r
  show ?thesis using completion_outcome_spec [OF ok now q] T unfolding receipt_key_def by fastforce
qed

section \<open>Claims\<close>

text \<open>An answer of a statement is the result of its run, in a world with the same data and identifiers.\<close>

lemma low_level_answer:
  assumes "low_level_query (sql_statement run) w = (w', Some (Ok x))"
  obtains w1 now r w2 where "run now r w1 = Ok (w2, x)" "sw_tx w1 = sw_tx w" "sw_xid w1 = sw_xid w" "sw_uuids w1 = sw_uuids w"
    "sw_tx w' = sw_tx w2" "sw_xid w' = sw_xid w2" "sw_uuids w' = sw_uuids w2"
proof -
  obtain w1 during f where t: "sql_tick w = (w1, during, f)" by (cases "sql_tick w") auto
  then have keep: "sw_tx w1 = sw_tx w" "sw_xid w1 = sw_xid w" "sw_uuids w1 = sw_uuids w"
    by (auto simp: sql_tick_def split: list.splits prod.splits)
  have "sql_statement run w = (w', Answered x)"
    using assms by (auto simp: low_level_query_def split: prod.splits answer.splits)
  then show thesis using that [of "sw_time w1" "sw_time w1 + during" w1] keep
    by (auto simp: sql_statement_def t Let_def split: fault.splits sum.splits)
qed

definition tokens_issued :: "(nat \<Rightarrow> rstr) \<Rightarrow> nat \<Rightarrow> attempt_table \<Rightarrow> bool" where
  "tokens_issued uuid n d \<longleftrightarrow> (\<forall>(k, row) \<in> set d. case aw_lease row of None \<Rightarrow> True | Some (token, _) \<Rightarrow> token \<in> uuid ` {..<n})"

lemma claim_in_spec:
  assumes claim: "claim_in (attempt_sql_server uuid) receipt w = (w', Some (Ok (Claimed claim)))"
  obtains now row until where "sample_ok now" "map_of (sw_tx w) (receipt_key receipt) = Some row"
    "aw_lease row = Some (pr_token receipt, until)" "now < until"
    "sw_tx w' = AList.update (receipt_key receipt) (row\<lparr>aw_lease := Some (uuid (sw_uuids w), until)\<rparr>) (sw_tx w)"
    "sw_xid w' = sw_xid w" "sw_uuids w' = sw_uuids w + 1" "pc_receipt claim = receipt\<lparr>pr_token := uuid (sw_uuids w)\<rparr>"
    "pc_transaction_id claim = decimal (sw_xid w)"
proof -
  from claim obtain row where q: "low_level_query (tv_claim (attempt_sql_server uuid) (fst (receipt_key receipt)) (snd (receipt_key receipt))
      (pr_token receipt)) w = (w', Some (Ok (Some row)))"
    and c: "and_then (claim_decode (kr_lease_token row)) (\<lambda>token. and_then (claim_decode (kr_transaction_id row)) (\<lambda>transaction_id.
        Ok (Claimed \<lparr>pc_receipt = receipt\<lparr>pr_token := token\<rparr>, pc_transaction_id = transaction_id\<rparr>))) = Ok (Claimed claim)"
    by (auto simp: claim_in_def and_await_def ready_result_def receipt_key_def split: prod.splits option.splits sum.splits)
  from q show thesis unfolding attempt_sql_server_def attempt_server.simps
  proof (rule low_level_answer)
    fix w1 now r w2
    assume run: "and_then (SAMPLE_TIME now) (\<lambda>t. let (d, row) = attempt_claim_sql (fst (receipt_key receipt)) (snd (receipt_key receipt)) (pr_token receipt)
        (uuid (sw_uuids w1)) (decimal (sw_xid w1)) t (sw_tx w1)
        in Ok (w1\<lparr>sw_tx := d, sw_uuids := sw_uuids w1 + (if row = None then 0 else 1)\<rparr>, row)) = Ok (w2, Some row)"
      and w: "sw_tx w1 = sw_tx w" "sw_xid w1 = sw_xid w" "sw_uuids w1 = sw_uuids w" "sw_tx w' = sw_tx w2" "sw_xid w' = sw_xid w2" "sw_uuids w' = sw_uuids w2"
    from run obtain t where t: "SAMPLE_TIME now = Ok t" by (auto simp: and_then_eq_Inr)
    show thesis using run w c that [OF sample_time_ok [OF t]]
      by (auto simp: t attempt_claim_sql_def claim_decode_def Let_def split: option.splits if_splits)
  qed
qed

lemma finish_in_spec:
  assumes ok: "attempts_ok tab (sw_tx w)" and p: "ap_ok (pr_policy (pc_receipt claim))"
      "tab (fst (receipt_key (pc_receipt claim))) = pr_policy (pc_receipt claim)"
    and fin: "finish_in (attempt_sql_server uuid) claim outcome w = (w', Some (Ok result))"
  shows "\<exists>now. sample_ok now \<and> completion_spec tab (pc_receipt claim) outcome now
    (\<exists>row until. map_of (sw_tx w) (receipt_key (pc_receipt claim)) = Some row \<and>
       aw_lease row = Some (pr_token (pc_receipt claim), until) \<and> pc_transaction_id claim = decimal (sw_xid w)) (sw_tx w) (sw_tx w') result"
proof -
  let ?r = "pc_receipt claim"
  from fin obtain q rows where q: "completion_query ?r outcome (Some (pc_transaction_id claim)) = Some q"
    and run: "low_level_query (tv_complete (attempt_sql_server uuid) q) w = (w', Some (Ok rows))" and res: "completion_result rows outcome = Ok result"
    by (auto simp: finish_in_def complete_with_def and_await_def ready_result_def ready_or_panic_def map_err_def
        split: prod.splits option.splits sum.splits)
  have fields: "cq_token q = pr_token ?r" "cq_transaction_id q = Some (pc_transaction_id claim)"
    using q by (auto simp: completion_query_def bind_eq_Some_conv)
  have tab: "tab (attempt_fp (pr_policy ?r)) = pr_policy ?r" using p(2) by (simp add: receipt_key_def)
  from run show ?thesis unfolding attempt_sql_server_def attempt_server.simps
  proof (rule low_level_answer)
    fix w1 now z w2
    assume st: "and_then (SAMPLE_TIME now) (\<lambda>t. and_then (COMPLETE_SQL q (decimal (sw_xid w1)) t (sw_tx w1)) (\<lambda>(d, rows).
        Ok (w1\<lparr>sw_tx := d\<rparr>, rows))) = Ok (w2, rows)"
      and w: "sw_tx w1 = sw_tx w" "sw_xid w1 = sw_xid w" "sw_tx w' = sw_tx w2"
    from st w obtain t where t: "SAMPLE_TIME now = Ok t" and c: "COMPLETE_SQL q (decimal (sw_xid w)) t (sw_tx w) = Ok (sw_tx w', rows)"
      by (auto simp: and_then_eq_Inr)
    note t = sample_time_ok [OF t]
    have "(\<exists>row. map_of (sw_tx w) (receipt_key ?r) = Some row \<and> completion_matches q (decimal (sw_xid w)) t row) \<longleftrightarrow>
        (\<exists>row until. map_of (sw_tx w) (receipt_key ?r) = Some row \<and> aw_lease row = Some (pr_token ?r, until) \<and>
          pc_transaction_id claim = decimal (sw_xid w))"
      by (fastforce simp: completion_matches_def fields split: option.splits)
    note this [symmetric]
    moreover from complete_sql_spec [OF ok p(1) tab refl t q, of "decimal (sw_xid w)"] c res
    have "completion_spec tab ?r outcome t (\<exists>row. map_of (sw_tx w) (receipt_key ?r) = Some row \<and>
        completion_matches q (decimal (sw_xid w)) t row) (sw_tx w) (sw_tx w') result" by (auto simp: receipt_key_def)
    ultimately show ?thesis using t by (auto simp only:)
  qed
qed

section \<open>One operation\<close>

lemma admit_outcome:
  assumes "clock_in T w" "attempts_ok tab (sw_db w)" "ap_ok (as_policy attempt)" "tab (fst (attempt_key attempt)) = as_policy attempt"
  shows "case attempt_admit (attempt_sql_server uuid) config attempt w of
      (_, None) \<Rightarrow> False
    | (w', Some (Ok admission)) \<Rightarrow>
        admission_outcome T tab (pg_maximum_rows_per_shard config) attempt (sw_db w) admission (sw_db w')
    | (w', Some (Err e)) \<Rightarrow> sw_db w' = sw_db w \<or>
        CheckError_consumption e = PossiblyConsumed \<and>
        (\<exists>admission. admission_outcome T tab (pg_maximum_rows_per_shard config) attempt (sw_db w) admission (sw_db w'))"
proof -
  let ?max = "pg_maximum_rows_per_shard config" and ?d = "sw_db w" and ?k = "attempt_key attempt"
  have total: "attempt_evaluate (as_policy attempt) (attempt_read (attempt_fp (as_policy attempt)) (subject_bytes (as_subject attempt))
      (ATTEMPT_CLEANUP_SQL held s t ?d)) (Ok n) \<noteq> None" if "sampled T t" "sampled T n" for held s t n
    using evaluate_spec [OF attempt_cleanup_spec(1) [OF assms(2) sampled_ok [OF that(1)]] sampled_ok [OF that(2)], of "fst ?k" "snd ?k", unfolded assms(4)]
    by (simp add: attempt_key_def)
  have "triple (\<lambda>w'. clock_in T w' \<and> sw_db w' = ?d) (attempt_admit (attempt_sql_server uuid) config attempt)
     (\<lambda>adm w'. admission_outcome T tab ?max attempt ?d adm (sw_db w'))
     (\<lambda>e w'. honest (admission_outcome T tab ?max attempt ?d) ?d e (sw_db w'))"
    by (rule triple_weaken [OF asql.attempt_admit_triple [OF assms(3) total]])
      (auto simp: honest_def dest!: admitted_sound [OF assms(2-4)])
  from tripleD [OF this, of w] assms(1) show ?thesis
    by (auto simp: honest_def split: prod.splits option.splits sum.splits)
qed

lemma complete_outcome:
  assumes "clock_in T w" "attempts_ok tab (sw_db w)" "ap_ok (pr_policy receipt)" "tab (fst (receipt_key receipt)) = pr_policy receipt"
  shows "case attempt_complete (attempt_sql_server uuid) config receipt outcome w of
      (_, None) \<Rightarrow> False
    | (w', Some (Ok result)) \<Rightarrow>
        \<exists>now. sampled T now \<and> completion_outcome tab receipt outcome now (sw_db w) result (sw_db w')
    | (w', Some (Err e)) \<Rightarrow> sw_db w' = sw_db w \<or>
        CheckError_consumption e = PossiblyConsumed \<and>
        (\<exists>result now. sampled T now \<and> completion_outcome tab receipt outcome now (sw_db w) result (sw_db w'))"
proof -
  let ?R = "\<lambda>result d'. \<exists>now. sampled T now \<and> completion_outcome tab receipt outcome now (sw_db w) result d'"
  have "triple (\<lambda>w'. clock_in T w' \<and> sw_db w' = sw_db w) (attempt_complete (attempt_sql_server uuid) config receipt outcome)
     (\<lambda>result w'. ?R result (sw_db w')) (\<lambda>e w'. honest ?R (sw_db w) e (sw_db w'))"
    by (rule triple_weaken [OF asql.attempt_complete_triple [OF assms(3)]])
      (auto simp: honest_def dest!: completed_sound [OF assms(2-4)])
  from tripleD [OF this, of w] assms(1) show ?thesis
    by (auto simp: honest_def split: prod.splits option.splits sum.splits)
qed

section \<open>A concrete table\<close>

text \<open>A subject with two failures and a lease until 30 seconds after the Unix epoch, read at 10 seconds, at a server that
  loses the eighth reply.\<close>

definition pg_sample_ap :: attempt_policy where "pg_sample_ap = sample_ap (\<lambda>_. replicate 32 1)"

definition pg_sample_attempt :: attempt_subject where
  "pg_sample_attempt = \<lparr>as_policy = pg_sample_ap, as_subject = SubjectKey (replicate 32 2)\<rparr>"

definition pg_sample_receipt :: pg_attempt_receipt where
  "pg_sample_receipt = \<lparr>pr_policy = pg_sample_ap, pr_subject = replicate 32 2, pr_token = decimal 0\<rparr>"

definition sample_attempt_row :: attempt_row where
  "sample_attempt_row = \<lparr>aw_slot = 0, aw_failures = 2, aw_last_failure = 0, aw_retry_at = 0, aw_quiet = 60000, aw_lease = Some (decimal 0, 30000)\<rparr>"

definition sample_attempt_table :: attempt_table where
  "sample_attempt_table = [((replicate 32 1, replicate 32 2), sample_attempt_row)]"

definition attempt_sample_world :: "attempt_table sql_world" where
  "attempt_sample_world = \<lparr>sw_db = sample_attempt_table, sw_tx = sample_attempt_table, sw_clock = 0, sw_time = 10000000 - UNIX_EPOCH_MICROS,
     sw_xid = 7, sw_uuids = 1, sw_locked = (\<lambda>_ _. False), sw_script = replicate 7 (5, 10, 1, No_Fault) @ [(5, -20, 1, Reply_Lost None)]\<rparr>"

text \<open>The claim made in it, at second 10, and the world one minute later, in the same transaction.\<close>

definition claimed_world :: "attempt_table sql_world" where
  "claimed_world = attempt_sample_world\<lparr>sw_tx := [((replicate 32 1, replicate 32 2), sample_attempt_row\<lparr>aw_lease := Some (decimal 1, 30000)\<rparr>)],
     sw_clock := 5, sw_time := 10000011 - UNIX_EPOCH_MICROS, sw_uuids := 2, sw_script := tl (sw_script attempt_sample_world)\<rparr>"

definition sample_claim :: pg_attempt_claim where
  "sample_claim = \<lparr>pc_receipt = pg_sample_receipt\<lparr>pr_token := decimal 1\<rparr>, pc_transaction_id = decimal 7\<rparr>"

definition later_world :: "attempt_table sql_world" where
  "later_world = claimed_world\<lparr>sw_time := 70000000 - UNIX_EPOCH_MICROS, sw_script := []\<rparr>"

lemma pg_sample_policy: "ap_ok pg_sample_ap" "attempt_fp pg_sample_ap = replicate 32 1"
    "period_millis (ap_initial_delay pg_sample_ap) = 1000" "period_millis (ap_maximum_delay pg_sample_ap) = 8000"
    "period_millis (ap_quiet_period pg_sample_ap) = 60000"
  using sample_ap_ok [of "\<lambda>_. replicate 32 1"] by (simp_all add: pg_sample_ap_def sample_ap_def)

lemma pg_sample_keys:
  "attempt_key pg_sample_attempt = (replicate 32 1, replicate 32 2)" "receipt_key pg_sample_receipt = (replicate 32 1, replicate 32 2)"
  by (simp_all add: attempt_key_def receipt_key_def pg_sample_attempt_def pg_sample_receipt_def pg_sample_policy)

lemma sample_attempts_ok:
  "attempts_ok (\<lambda>_. pg_sample_ap) [((replicate 32 1, replicate 32 2), sample_attempt_row\<lparr>aw_lease := Some (token, 30000)\<rparr>)]"
  by (simp add: attempts_ok_def attempt_row_ok_def attempt_constraints_def sample_attempt_row_def pg_sample_policy
      stored_ok_def clock_bounds MAX_WINDOW_MILLIS_value)

lemma attempt_world_clock: "clock_in ((\<le>) (9999990 - UNIX_EPOCH_MICROS)) attempt_sample_world"
  by (simp add: attempt_sample_world_def clock_in_def numeral_eq_Suc)

lemma attempt_world_ok:
  "attempts_ok (\<lambda>_. pg_sample_ap) (sw_db attempt_sample_world)" "attempts_ok (\<lambda>_. pg_sample_ap) (sw_tx attempt_sample_world)"
  "attempts_ok (\<lambda>_. pg_sample_ap) (sw_tx later_world)" "tokens_issued decimal (sw_uuids attempt_sample_world) (sw_tx attempt_sample_world)"
  using sample_attempts_ok [of "decimal 0"] sample_attempts_ok [of "decimal 1"]
  by (simp_all add: attempt_sample_world_def later_world_def claimed_world_def sample_attempt_table_def sample_attempt_row_def tokens_issued_def)

lemma sample_claim_in: "claim_in (attempt_sql_server decimal) pg_sample_receipt attempt_sample_world = (claimed_world, Some (Ok (Claimed sample_claim)))"
  by (simp add: claim_in_def and_await_def low_level_query_def attempt_sql_server_def sql_statement_def sql_tick_def attempt_sample_world_def
      SAMPLE_TIME_def TIMESTAMP_BEGIN_def TIMESTAMP_END_def UNIX_EPOCH_MICROS_def attempt_claim_sql_def sample_attempt_table_def
      pg_sample_receipt_def pg_sample_policy sample_attempt_row_def ready_result_def claim_decode_def claimed_world_def sample_claim_def
      numeral_eq_Suc)

text \<open>Finished in its transaction and, with the same table, in the next one.\<close>

lemmas run_completion_defs = finish_in_def complete_with_def and_await_def ready_or_panic_def low_level_query_def attempt_sql_server_def
  sql_statement_def sql_tick_def SAMPLE_TIME_def TIMESTAMP_BEGIN_def TIMESTAMP_END_def UNIX_EPOCH_MICROS_def later_world_def claimed_world_def
  attempt_sample_world_def sample_claim_def pg_sample_receipt_def sample_attempt_row_def completion_query_def database_integer_def
  COMPLETE_SQL_def completion_matches_def completed_row_def checked_attempt_def attempt_constraints_def bigint_def attempt_expiry_def
  ready_result_def completion_result_def completion_decode_def u32_of_def AttemptCompletion_new_def attempt_wait_def is_zero_def

lemma sample_finish_in:
  "\<exists>w3. finish_in (attempt_sql_server decimal) sample_claim Failure later_world = (w3, Some (Ok (completion_of pg_sample_receipt Failure 3)))"
proof -
  have "attempt_delay pg_sample_ap 3 = from_millis 4000" using pg_sample_policy by (simp add: attempt_delay_eq)
  then show ?thesis
    by (simp add: run_completion_defs completion_of_def pg_sample_policy)
qed

lemma sample_finish_stale:
  "\<exists>w3. finish_in (attempt_sql_server decimal) sample_claim Failure (later_world\<lparr>sw_xid := 8\<rparr>) = (w3, Some (Ok Stale))"
  by (simp add: run_completion_defs pg_sample_policy)

section \<open>Properties\<close>

text \<open>
  C12: an admission on Postgres is a transition of the attempt contract. Whatever the server's clock does
  and whichever statement or reply is lost, the operation never panics; the cleanup removes only
  subjects that are forgotten at a time the server's clock showed; an admitted attempt was admissible at
  such a time, and exactly its lease is durable, under the token of the receipt; a busy or backoff denial changes
  nothing and gives the exact time to wait (or, when the clock reads less than at the last success, the
  time until then); a denial for capacity happens only when the shard holds as many rows as the limit
  and the subject none; and an error leaves the table unchanged unless it reports possible consumption.
\<close>

theorem postgres_attempt_admit_correct:
  assumes "clock_in T w" "attempts_ok tab (sw_db w)" "ap_ok (as_policy attempt)" "tab (fst (attempt_key attempt)) = as_policy attempt"
  shows "case pg_attempt_admit observer ost (attempt_sql_server uuid) config attempt w of
      (_, _, None) \<Rightarrow> False
    | (_, w', Some (Ok admission)) \<Rightarrow>
        admission_outcome T tab (pg_maximum_rows_per_shard config) attempt (sw_db w) admission (sw_db w')
    | (_, w', Some (Err e)) \<Rightarrow> sw_db w' = sw_db w \<or>
        CheckError_consumption e = PossiblyConsumed \<and>
        (\<exists>admission. admission_outcome T tab (pg_maximum_rows_per_shard config) attempt (sw_db w) admission (sw_db w'))"
  using admit_outcome [OF assms, where uuid = uuid and config = config]
  by (auto simp: pg_attempt_admit_def split: prod.splits option.splits sum.splits)

theorem postgres_attempt_admit_correct_witness:
  "case pg_attempt_admit None () (attempt_sql_server decimal) PostgresConfig_new pg_sample_attempt attempt_sample_world of
      (_, _, None) \<Rightarrow> False
    | (_, w', Some (Ok admission)) \<Rightarrow>
        admission_outcome ((\<le>) (9999990 - UNIX_EPOCH_MICROS)) (\<lambda>_. pg_sample_ap) (pg_maximum_rows_per_shard PostgresConfig_new) pg_sample_attempt sample_attempt_table admission (sw_db w')
    | (_, w', Some (Err e)) \<Rightarrow> sw_db w' = sample_attempt_table \<or>
        CheckError_consumption e = PossiblyConsumed \<and>
        (\<exists>admission. admission_outcome ((\<le>) (9999990 - UNIX_EPOCH_MICROS)) (\<lambda>_. pg_sample_ap) (pg_maximum_rows_per_shard PostgresConfig_new) pg_sample_attempt
           sample_attempt_table admission (sw_db w'))"
proof -
  have p: "ap_ok (as_policy pg_sample_attempt)" "pg_sample_ap = as_policy pg_sample_attempt"
    using pg_sample_policy(1) by (simp_all add: pg_sample_attempt_def)
  have "sw_db attempt_sample_world = sample_attempt_table" by (simp add: attempt_sample_world_def)
  then show ?thesis
    using postgres_attempt_admit_correct [where observer = None and ost = "()" and uuid = decimal and config = PostgresConfig_new,
        OF attempt_world_clock attempt_world_ok(1) p] by (simp only:)
qed

text \<open>
  C13: a completion on Postgres is a transition of the attempt contract at one time that the server's clock
  showed. It applies exactly if
  the receipt's lease is in flight at that time, and then the reported failure count and delay are those
  of the policy and the new state is durable; a stale receipt changes nothing; the operation never
  panics; and an error leaves the table unchanged unless it reports possible consumption.
\<close>

theorem postgres_attempt_complete_correct:
  assumes "clock_in T w" "attempts_ok tab (sw_db w)" "ap_ok (pr_policy receipt)" "tab (fst (receipt_key receipt)) = pr_policy receipt"
  shows "case pg_attempt_complete observer ost (attempt_sql_server uuid) config receipt outcome w of
      (_, _, None) \<Rightarrow> False
    | (_, w', Some (Ok result)) \<Rightarrow>
        \<exists>now. sampled T now \<and> completion_outcome tab receipt outcome now (sw_db w) result (sw_db w')
    | (_, w', Some (Err e)) \<Rightarrow> sw_db w' = sw_db w \<or>
        CheckError_consumption e = PossiblyConsumed \<and>
        (\<exists>result now. sampled T now \<and> completion_outcome tab receipt outcome now (sw_db w) result (sw_db w'))"
  using complete_outcome [OF assms, where uuid = uuid and config = config and outcome = outcome]
  by (auto simp: pg_attempt_complete_def split: prod.splits option.splits sum.splits)

theorem postgres_attempt_complete_correct_witness:
  "case pg_attempt_complete None () (attempt_sql_server decimal) PostgresConfig_new pg_sample_receipt Failure attempt_sample_world of
      (_, _, None) \<Rightarrow> False
    | (_, w', Some (Ok result)) \<Rightarrow>
        \<exists>now. sampled ((\<le>) (9999990 - UNIX_EPOCH_MICROS)) now \<and> completion_outcome (\<lambda>_. pg_sample_ap) pg_sample_receipt Failure now sample_attempt_table result (sw_db w')
    | (_, w', Some (Err e)) \<Rightarrow> sw_db w' = sample_attempt_table \<or>
        CheckError_consumption e = PossiblyConsumed \<and>
        (\<exists>result now. sampled ((\<le>) (9999990 - UNIX_EPOCH_MICROS)) now \<and> completion_outcome (\<lambda>_. pg_sample_ap) pg_sample_receipt Failure now sample_attempt_table result (sw_db w'))"
proof -
  have p: "ap_ok (pr_policy pg_sample_receipt)" "pg_sample_ap = pr_policy pg_sample_receipt"
    using pg_sample_policy(1) by (simp_all add: pg_sample_receipt_def)
  have "sw_db attempt_sample_world = sample_attempt_table" by (simp add: attempt_sample_world_def)
  then show ?thesis
    using postgres_attempt_complete_correct [where observer = None and ost = "()" and uuid = decimal and config = PostgresConfig_new
      and outcome = Failure, OF attempt_world_clock attempt_world_ok(1) p] by (simp only:)
qed

text \<open>
  C15: a claim is fenced to the transaction that made it. Claiming succeeds only for a lease in flight. In the
  same transaction, while the subject's row is as the claim left it, finishing applies the outcome,
  however long ago the lease expired. In any other transaction, or after the savepoint that contains
  the claim was rolled back, so that the row is as before the claim, finishing is stale and changes
  nothing, because the claim rotated the token. It is assumed that generated UUIDs are distinct.
\<close>

theorem postgres_attempt_claim_fenced:
  assumes "inj uuid" "tokens_issued uuid (sw_uuids w) (sw_tx w)" "attempts_ok tab (sw_tx w)" "attempts_ok tab (sw_tx w2)"
    "ap_ok (pr_policy receipt)" "tab (fst (receipt_key receipt)) = pr_policy receipt"
    and claim: "claim_in (attempt_sql_server uuid) receipt w = (w1, Some (Ok (Claimed claim)))"
    and fin: "finish_in (attempt_sql_server uuid) claim outcome w2 = (w3, Some (Ok result))"
  shows "(\<exists>now until. sample_ok now \<and> av_lease (table_view tab (sw_tx w) (abs_ms now) (receipt_key receipt)) = Some (pr_token receipt, until)) \<and>
    (sw_xid w2 = sw_xid w1 \<and> map_of (sw_tx w2) (receipt_key receipt) = map_of (sw_tx w1) (receipt_key receipt) \<longrightarrow>
      (\<exists>now. let v = completed_view outcome (abs_ms now) (stored_view (sw_tx w2) (receipt_key receipt)) in
         sample_ok now \<and> attempts_ok tab (sw_tx w3) \<and> stored_view (sw_tx w3) = (stored_view (sw_tx w2))(receipt_key receipt := v) \<and>
         result = completion_of receipt outcome (av_failures v))) \<and>
    (sw_xid w2 \<noteq> sw_xid w1 \<or> map_of (sw_tx w2) (receipt_key receipt) = map_of (sw_tx w) (receipt_key receipt) \<longrightarrow>
      result = Stale \<and> sw_tx w3 = sw_tx w2)" (is "?live \<and> (?same \<longrightarrow> ?applied) \<and> (?other \<longrightarrow> ?stale)")
proof -
  let ?k = "receipt_key receipt"
  from claim_in_spec [OF claim] obtain now row until where c: "sample_ok now" "map_of (sw_tx w) ?k = Some row"
    "aw_lease row = Some (pr_token receipt, until)" "now < until"
    "sw_tx w1 = AList.update ?k (row\<lparr>aw_lease := Some (uuid (sw_uuids w), until)\<rparr>) (sw_tx w)" "sw_xid w1 = sw_xid w"
    "pc_receipt claim = receipt\<lparr>pr_token := uuid (sw_uuids w)\<rparr>" "pc_transaction_id claim = decimal (sw_xid w)" by metis
  have live: ?live using lease_live(1) [OF assms(3) c(1), of ?k "pr_token receipt"] c by blast
  have key: "receipt_key (pc_receipt claim) = ?k" "pr_policy (pc_receipt claim) = pr_policy receipt" by (simp_all add: c(7) receipt_key_def)
  from finish_in_spec [OF assms(4) _ _ fin] assms(5,6) obtain t where t: "sample_ok t" and spec:
    "completion_spec tab (pc_receipt claim) outcome t (\<exists>row until. map_of (sw_tx w2) ?k = Some row \<and>
       aw_lease row = Some (uuid (sw_uuids w), until) \<and> sw_xid w = sw_xid w2) (sw_tx w2) (sw_tx w3) result"
    unfolding key by (auto simp: c(7,8))
  note spec = spec [unfolded completion_spec_def Let_def key(2) receipt_key_def [symmetric]]
  have "?applied" if ?same
    using spec that t by (auto simp: c(5,6,7) AList.update_conv' completion_of_def receipt_key_def Let_def)
  moreover have "pr_token receipt \<noteq> uuid (sw_uuids w)"
    using assms(1,2) map_of_SomeD [OF c(2)] c(3) by (force simp: tokens_issued_def inj_eq)
  then have "?stale" if ?other
    using spec that by (auto simp: c split: if_splits)
  ultimately show ?thesis using live by blast
qed

theorem postgres_attempt_claim_fenced_witness:
  "(\<exists>w3. finish_in (attempt_sql_server decimal) sample_claim Failure later_world = (w3, Some (Ok (completion_of pg_sample_receipt Failure 3))) \<and>
      attempts_ok (\<lambda>_. pg_sample_ap) (sw_tx w3)) \<and>
   (\<exists>w3. finish_in (attempt_sql_server decimal) sample_claim Failure (later_world\<lparr>sw_xid := 8\<rparr>) = (w3, Some (Ok Stale)) \<and>
      sw_tx w3 = sw_tx later_world)"
proof -
  have p: "ap_ok (pr_policy pg_sample_receipt)" "pg_sample_ap = pr_policy pg_sample_receipt"
    using pg_sample_policy(1) by (simp_all add: pg_sample_receipt_def)
  have "inj decimal" by (rule injI) simp
  note fenced = postgres_attempt_claim_fenced [OF this attempt_world_ok(4,2) _ p sample_claim_in]
  obtain w3 w4 where f: "finish_in (attempt_sql_server decimal) sample_claim Failure later_world = (w3, Some (Ok (completion_of pg_sample_receipt Failure 3)))"
    "finish_in (attempt_sql_server decimal) sample_claim Failure (later_world\<lparr>sw_xid := 8\<rparr>) = (w4, Some (Ok Stale))"
    using sample_finish_in sample_finish_stale by blast
  have "sw_xid later_world = sw_xid claimed_world" "sw_tx later_world = sw_tx claimed_world" "sw_xid claimed_world = 7"
    by (simp_all add: later_world_def claimed_world_def attempt_sample_world_def)
  with fenced [OF attempt_world_ok(3) f(1)] fenced [OF _ f(2)] attempt_world_ok(3) f show ?thesis by (auto simp: Let_def)
qed

end
