(* ===== verification/Postgres_Attempts_Live.thy ===== *)
theory Postgres_Attempts_Live
  imports Postgres_Attempts_Limits Postgres_Live
begin

text \<open>
  The attempt limiter on Postgres answers: with a healthy server every admission and every completion
  returns a result, because its statements never violate a constraint of a valid table.
\<close>

section \<open>Statements that succeed\<close>

lemma expiry_bigint:
  assumes "stored_ok u" "1 \<le> q" "q \<le> 9007199254740"
  shows "bigint (u + q) = Ok (u + q)"
  using assms by (simp add: bigint_def stored_ok_def clock_bounds MAX_WINDOW_MILLIS_value)

lemma quiet_bounds: "ap_ok p \<Longrightarrow> 1 \<le> int (period_millis (ap_quiet_period p)) \<and> int (period_millis (ap_quiet_period p)) \<le> 9007199254740"
  by (auto simp: ap_ok_def period_ok_def MAX_WINDOW_MILLIS_value)

lemma insert_total:
  assumes p: "ap_ok p" and now: "sample_ok now" and new: "map_of d (fp, sub) = None" and len: "length fp = 32" "length sub = 32"
    and slot: "attempt_free_slot (key_shard (fp, sub)) maximum d = Some slot" "maximum \<le> 65536"
  shows "\<exists>d'. attempt_insert fp sub slot now (int (period_millis (ap_quiet_period p))) (lease_until p now) u d = Ok d'"
  using free_slot_unused [OF slot(1)] slot(2) new len quiet_bounds [OF p] expiry_bigint [OF lease_until_stored(2) [OF p now]]
  by (simp add: attempt_insert_def Let_def checked_attempt_def attempt_constraints_def attempt_expiry_def)

lemma update_total:
  assumes ok: "attempts_ok tab d" and p: "ap_ok (tab fp)" and now: "sample_ok now" and row: "map_of d (fp, sub) = Some row" and n: "n \<le> 4294967295"
  shows "\<exists>d'. attempt_update fp sub (int n) lf now (lease_until (tab fp) now) u d = Ok d'"
  using attempts_ok_row [OF ok row] n quiet_bounds [OF p] expiry_bigint [OF lease_until_stored(2) [OF p now]] row
  by (simp add: attempt_update_def Let_def checked_attempt_def attempt_constraints_def attempt_expiry_def attempt_row_ok_def)

lemma failures_bounded:
  assumes "attempt_row_ok p k row"
  shows "av_failures (elapse p t (abs_row row)) \<le> 4294967295"
  using assms by (auto simp: attempt_row_ok_def attempt_constraints_def elapse_def abs_row_def held_view_def failed_view_def
      saturating_add_def Let_def split: option.splits)

lemma attempt_server_statements:
  "tv_lock_shard (attempt_sql_server uuid) s = sql_statement (\<lambda>_ _ w. Ok (w, ()))"
  "tv_cleanup (attempt_sql_server uuid) s = sql_statement (\<lambda>now _ w.
     and_then (SAMPLE_TIME now) (\<lambda>t. Ok (w\<lparr>sw_tx := ATTEMPT_CLEANUP_SQL (sw_locked w now \<circ> Row_Lock) s t (sw_tx w)\<rparr>, ())))"
  "tv_read (attempt_sql_server uuid) fp sub = sql_statement (\<lambda>_ _ w. Ok (w, attempt_read fp sub (sw_tx w)))"
  "tv_sample_time (attempt_sql_server uuid) = sql_statement (\<lambda>now _ w. and_then (SAMPLE_TIME now) (\<lambda>t. Ok (w, Ok t)))"
  "tv_occupancy (attempt_sql_server uuid) s = sql_statement (\<lambda>_ _ w. Ok (w, Ok (attempt_occupancy s (sw_tx w))))"
  "tv_free_slot (attempt_sql_server uuid) s maximum = sql_statement (\<lambda>_ _ w. Ok (w, Ok (attempt_free_slot s maximum (sw_tx w))))"
  "tv_insert (attempt_sql_server uuid) fp sub slot n quiet until = sql_statement (\<lambda>_ _ w.
     and_then (attempt_insert fp sub slot n quiet until (uuid (sw_uuids w)) (sw_tx w)) (\<lambda>d.
     Ok (w\<lparr>sw_tx := d, sw_uuids := sw_uuids w + 1\<rparr>, Ok (uuid (sw_uuids w)))))"
  "tv_update (attempt_sql_server uuid) fp sub failures lf n until = sql_statement (\<lambda>_ _ w.
     and_then (attempt_update fp sub failures lf n until (uuid (sw_uuids w)) (sw_tx w)) (\<lambda>d.
     Ok (w\<lparr>sw_tx := d, sw_uuids := sw_uuids w + 1\<rparr>, Ok (uuid (sw_uuids w)))))"
  "tv_complete (attempt_sql_server uuid) q = sql_statement (\<lambda>now _ w.
     and_then (SAMPLE_TIME now) (\<lambda>t. and_then (COMPLETE_SQL q (decimal (sw_xid w)) t (sw_tx w)) (\<lambda>(d, rows).
     Ok (w\<lparr>sw_tx := d\<rparr>, rows))))"
  by (simp_all add: attempt_sql_server_def)

text \<open>A statement that stores a fresh token.\<close>

lemma runs_token:
  assumes "\<And>u. \<exists>d'. f u d = Ok d'"
  shows "runs T locked margin (\<lambda>_ _ w. and_then (f (uuid (sw_uuids w)) (sw_tx w)) (\<lambda>d.
      Ok (w\<lparr>sw_tx := d, sw_uuids := sw_uuids w + 1\<rparr>, Ok (uuid (sw_uuids w))))) d0 d (\<lambda>x d1 d2. d1 = d0 \<and> (\<exists>u. x = Ok u))"
  unfolding runs_def
proof (intro allI impI, goal_cases)
  case (1 w t fin)
  obtain d' where "f (uuid (sw_uuids w)) d = Ok d'" using assms by blast
  with 1 show ?case by simp
qed

section \<open>Admission\<close>

text \<open>A denial for capacity leaves what the transaction did to the table durable.\<close>

lemma finish_admission_live:
  "lives (live T locked 0 deadline d d') (finish_admission (attempt_sql_server uuid) deadline p sub (map_option Ok token))
     (\<lambda>c w. outcome_value c = AttemptDenied AttemptStorageCapacity \<longrightarrow> token = None \<and> sw_db w = d')"
proof (cases token)
  case None
  have "lives (live T locked 0 deadline d d') (finish_capacity_denial sql_session deadline) (\<lambda>_ w. sw_db w = d')"
    by (rule tripleI) (use tripleD [OF tx_commit_live [where T = T and locked = locked and margin = 0 and d = d and d' = d' and deadline = deadline]] in
      \<open>fastforce simp: finish_capacity_denial_def Let_def split: prod.splits option.splits sum.splits\<close>)
  then show ?thesis unfolding finish_admission_def None option.map option.case attempt_session by (rule triple_weaken) simp_all
next
  case (Some u)
  have decode: "lives (live T locked 0 deadline d d') (ready_result (map_err reusable_check_error (attempt_decode (Ok u)))) (\<lambda>_. live T locked 0 deadline d d')"
    by (rule triple_ready) auto
  show ?thesis unfolding finish_admission_def Some option.map option.case attempt_session
    by (rule triple_and_await [OF decode], rule triple_and_await [OF tx_commit_live], rule triple_ready) (auto simp: outcome_value_def)
qed

lemma insert_lease_live:
  assumes p: "ap_ok p" and now: "sample_ok n" and new: "map_of d (attempt_fp p, sub) = None"
    and len: "length (attempt_fp p) = 32" "length sub = 32" and max: "maximum \<le> 65536"
  shows "lives (live T locked 0 deadline d0 d) (insert_lease (attempt_sql_server uuid) deadline p (attempt_fp p) sub maximum n)
    (\<lambda>token w. \<exists>u d'. live T locked 0 deadline d0 d' w \<and> token = map_option Ok u \<and>
       (u = None \<longrightarrow> d' = d \<and> int maximum \<le> attempt_occupancy (attempt_shard (attempt_fp p) sub) d))" (is "lives _ _ ?Q")
proof -
  let ?s = "attempt_shard (attempt_fp p) sub"
  have periods: "period_ok (ap_quiet_period p)" "period_ok (ap_lease p)" using p by (simp_all add: ap_ok_def)
  have occ: "lives (live T locked 0 deadline d0 d) (tx_execute sql_session deadline PHASE (tv_occupancy (attempt_sql_server uuid) ?s))
      (\<lambda>x w. \<exists>d2. live T locked 0 deadline d0 d2 w \<and> d2 = d \<and> x = Ok (attempt_occupancy ?s d))"
    unfolding attempt_server_statements by (rule tx_execute_live) (auto simp: runs_def)
  have free: "lives (live T locked 0 deadline d0 d) (tx_execute sql_session deadline PHASE (tv_free_slot (attempt_sql_server uuid) ?s maximum))
      (\<lambda>x w. \<exists>d2. live T locked 0 deadline d0 d2 w \<and> d2 = d \<and> x = Ok (attempt_free_slot ?s maximum d))"
    unfolding attempt_server_statements by (rule tx_execute_live) (auto simp: runs_def)
  have insert: "lives (live T locked 0 deadline d0 d) (tx_execute sql_session deadline PHASE (tv_insert (attempt_sql_server uuid) (attempt_fp p) sub slot n
        (int (period_millis (ap_quiet_period p))) (lease_until p n))) (\<lambda>x w. \<exists>d2. live T locked 0 deadline d0 d2 w \<and> (\<exists>u. x = Ok u))"
    if "attempt_free_slot ?s maximum d = Some slot" for slot
    unfolding attempt_server_statements
    by (rule tx_execute_live [OF runs_token], rule insert_total [OF p now new len that [unfolded attempt_shard_key] max])
  have decoded: "lives (live T locked 0 deadline d0 d) (ready_result (map_err reusable_check_error (attempt_decode (Ok x)))) (\<lambda>y w. live T locked 0 deadline d0 d w \<and> y = x)" for x :: 'x
    by (rule triple_ready) auto
  have full: "lives (live T locked 0 deadline d0 d) (ready_result (Ok None)) ?Q" if "int maximum \<le> attempt_occupancy ?s d"
    by (rule triple_ready) (use that in \<open>auto intro!: exI [of _ None]\<close>)
  show ?thesis unfolding insert_lease_def Let_def attempt_session
    apply (rule triple_and_await [OF occ], intro triple_pre_ex triple_pre_conj, clarify)
    apply (rule triple_and_await [OF decoded], intro triple_pre_conj, hypsubst)
    apply (split if_split, intro conjI impI, erule full)
    apply (rule triple_and_await [OF free], intro triple_pre_ex triple_pre_conj, clarify)
    apply (rule triple_and_await [OF decoded], intro triple_pre_conj, hypsubst)
    subgoal
    proof (cases "attempt_free_slot ?s maximum d")
      case None
      then have "int maximum \<le> attempt_occupancy ?s d"
        using free_slot_exists [of ?s d maximum] by (cases "attempt_occupancy ?s d < int maximum") auto
      then show ?thesis using full None by simp
    next
      case (Some slot)
      show ?thesis unfolding Some option.case
        apply (rule triple_and_await [OF triple_period [OF periods(1)]], intro triple_pre_conj, hypsubst)
        apply (rule triple_and_await [OF triple_period [OF periods(2)]], intro triple_pre_conj, hypsubst)
        apply (fold lease_until_def, rule triple_and_await [OF insert [OF Some]], intro triple_pre_ex triple_pre_conj, clarify)
        by (rule triple_ready) (auto intro!: exI [of _ "Some _"])
    qed
    done
qed

lemma update_lease_live:
  assumes ok: "attempts_ok tab d" and p: "ap_ok p" "tab (attempt_fp p) = p" and now: "sample_ok n"
    and row: "map_of d (attempt_fp p, sub) = Some row" and m: "m \<le> 4294967295"
  shows "lives (live T locked 0 deadline d0 d) (update_lease (attempt_sql_server uuid) deadline p (attempt_fp p) sub m lf n)
    (\<lambda>token w. \<exists>u d'. live T locked 0 deadline d0 d' w \<and> token = map_option Ok (Some u))"
proof -
  have period: "period_ok (ap_lease p)" using p by (simp add: ap_ok_def)
  have total: "\<exists>d'. attempt_update (attempt_fp p) sub (int m) lf n (lease_until p n) u d = Ok d'" for u
    using update_total [OF ok _ now row m, unfolded p(2)] p(1) by blast
  have update: "lives (live T locked 0 deadline d0 d) (tx_execute sql_session deadline PHASE (tv_update (attempt_sql_server uuid) (attempt_fp p) sub
        (int m) lf n (lease_until p n))) (\<lambda>x w. \<exists>d2. live T locked 0 deadline d0 d2 w \<and> (\<exists>u. x = Ok u))"
    unfolding attempt_server_statements by (rule tx_execute_live [OF runs_token], rule total)
  show ?thesis unfolding update_lease_def attempt_session
    apply (rule triple_and_await [OF triple_period [OF period]], intro triple_pre_conj, hypsubst)
    apply (fold lease_until_def, rule triple_and_await [OF update], intro triple_pre_ex triple_pre_conj, clarify)
    by (rule triple_ready) auto
qed

lemma admit_verdict_live:
  assumes ok: "attempts_ok tab d" and p: "ap_ok p" "tab (attempt_fp p) = p" and now: "sample_ok n"
    and len: "length (attempt_fp p) = 32" "length sub = 32" and max: "maximum \<le> 65536"
    and v: "verdict = (case map_of d (attempt_fp p, sub) of None \<Rightarrow> AV_Insert n | Some row \<Rightarrow> row_verdict p n row)"
  shows "lives (live T locked 0 deadline d0 d) (case verdict of
      AV_Deny denial \<Rightarrow> finish_denied_transaction sql_session (AttemptDenied denial)
    | AV_Insert now \<Rightarrow> and_await (insert_lease (attempt_sql_server uuid) deadline p (attempt_fp p) sub maximum now)
        (finish_admission (attempt_sql_server uuid) deadline p sub)
    | AV_Update failures last_failure now \<Rightarrow>
        and_await (update_lease (attempt_sql_server uuid) deadline p (attempt_fp p) sub failures last_failure now)
        (finish_admission (attempt_sql_server uuid) deadline p sub))
    (\<lambda>c w. outcome_value c = AttemptDenied AttemptStorageCapacity \<longrightarrow>
       sw_db w = d \<and> int maximum \<le> attempt_occupancy (attempt_shard (attempt_fp p) sub) d)" (is "lives _ _ ?Q")
proof (cases "map_of d (attempt_fp p, sub)")
  case None
  show ?thesis unfolding v None option.case attempt_verdict.case
    apply (rule triple_and_await [OF insert_lease_live [OF p(1) now None len max]], intro triple_pre_ex triple_pre_conj, elim conjE, hypsubst)
    by (rule triple_weaken [OF finish_admission_live]) auto
next
  case (Some row)
  show ?thesis
  proof (cases verdict)
    case (AV_Deny denial)
    have "denial \<noteq> AttemptStorageCapacity"
      using v Some AV_Deny by (auto simp: row_verdict_def Let_def denial_of_def split: if_splits option.splits)
    then show ?thesis unfolding AV_Deny attempt_verdict.case by (intro triple_weaken [OF finish_denied_value]) auto
  next
    case (AV_Insert m)
    then show ?thesis using v Some by (auto simp: row_verdict_def Let_def split: if_splits option.splits)
  next
    case (AV_Update m lf n')
    then have m: "m \<le> 4294967295" "n' = n"
      using v Some failures_bounded [OF attempts_ok_row [OF ok Some], of "abs_ms n"] p(2)
      by (auto simp: row_verdict_def Let_def split: if_splits option.splits)
    show ?thesis unfolding AV_Update attempt_verdict.case m(2)
      apply (rule triple_and_await [OF update_lease_live [OF ok p now Some m(1)]], intro triple_pre_ex triple_pre_conj, hypsubst)
      by (rule triple_weaken [OF finish_admission_live]) auto
  qed
qed

text \<open>What a denial for capacity leaves: the table after the cleanup, still full.\<close>

definition capacity_denied :: "(timestamp \<Rightarrow> bool) \<Rightarrow> (timestamp \<Rightarrow> sql_lock \<Rightarrow> bool) \<Rightarrow> nat \<Rightarrow> nat \<Rightarrow> attempt_table \<Rightarrow> attempt_table \<Rightarrow> bool" where
  "capacity_denied T locked maximum shard d d' \<longleftrightarrow>
     (\<exists>now t. T now \<and> SAMPLE_TIME now = Ok t \<and> d' = ATTEMPT_CLEANUP_SQL (locked now \<circ> Row_Lock) shard t d) \<and>
     int maximum \<le> attempt_occupancy shard d'"

lemma admit_transaction_live:
  assumes ok: "attempts_ok tab d" and p: "ap_ok (as_policy attempt)" "tab (attempt_fp (as_policy attempt)) = as_policy attempt"
    and len: "length (attempt_fp (as_policy attempt)) = 32" "length (subject_bytes (as_subject attempt)) = 32" and max: "maximum \<le> 65536"
  shows "lives (\<lambda>w. healthy 0 deadline w \<and> sw_db w = d \<and> server_in T locked w) (admit_transaction (attempt_sql_server uuid) attempt maximum deadline)
    (\<lambda>c w. outcome_value c = AttemptDenied AttemptStorageCapacity \<longrightarrow>
       capacity_denied T locked maximum (key_shard (attempt_key attempt)) d (sw_db w))" (is "lives _ _ ?Q")
proof -
  let ?p = "as_policy attempt" and ?sub = "subject_bytes (as_subject attempt)"
  let ?fp = "attempt_fp ?p" and ?tv = "attempt_sql_server uuid"
  let ?s = "attempt_shard ?fp ?sub"
  let ?clean = "\<lambda>now t. ATTEMPT_CLEANUP_SQL (locked now \<circ> Row_Lock) ?s t d"
  have cleaned: "attempts_ok tab (?clean now t)" if "sample_ok t" for now t using attempt_cleanup_spec(1) [OF ok that] .
  have lock: "lives (live T locked 0 deadline d d) (tx_execute sql_session deadline PHASE (tv_lock_shard ?tv ?s)) (\<lambda>_ w. \<exists>d2. live T locked 0 deadline d d2 w \<and> d2 = d)"
    unfolding attempt_server_statements by (rule tx_execute_live) (auto simp: runs_def)
  have clean: "lives (live T locked 0 deadline d d) (tx_execute sql_session deadline PHASE (tv_cleanup ?tv ?s))
      (\<lambda>_ w. \<exists>d2. live T locked 0 deadline d d2 w \<and> (\<exists>now t. T now \<and> SAMPLE_TIME now = Ok t \<and> sample_ok t \<and> d2 = ?clean now t))"
    unfolding attempt_server_statements by (rule tx_execute_live) (fastforce simp: runs_def dest!: sample_in_range)
  have read: "lives (live T locked 0 deadline d d1) (tx_execute sql_session deadline PHASE (tv_read ?tv ?fp ?sub))
      (\<lambda>x w. \<exists>d2. live T locked 0 deadline d d2 w \<and> d2 = d1 \<and> x = attempt_read ?fp ?sub d1)" for d1
    unfolding attempt_server_statements by (rule tx_execute_live) (auto simp: runs_def)
  have sample: "lives (live T locked 0 deadline d d1) (tx_execute sql_session deadline PHASE (tv_sample_time ?tv))
      (\<lambda>x w. \<exists>d2. live T locked 0 deadline d d2 w \<and> d2 = d1 \<and> (\<exists>n. x = Ok n \<and> sample_ok n))" for d1
    unfolding attempt_server_statements by (rule tx_execute_live) (auto simp: runs_def dest!: sample_in_range)
  have evaluated: "lives (live T locked 0 deadline d d1) (ready_or_panic (map_option (map_err reusable_check_error)
        (attempt_evaluate ?p (attempt_read ?fp ?sub d1) (Ok n))))
      (\<lambda>v w. live T locked 0 deadline d d1 w \<and> v = (case map_of d1 (?fp, ?sub) of None \<Rightarrow> AV_Insert n | Some row \<Rightarrow> row_verdict ?p n row))"
    if "attempts_ok tab d1" "sample_ok n" for d1 n
    by (rule triple_ready_or_panic) (use evaluate_spec [OF that, of ?fp ?sub, unfolded p(2)] in auto)
  show ?thesis unfolding admit_transaction_def Let_def attempt_session
    apply (rule triple_and_await [OF begin_live], rule triple_and_await [OF lock], intro triple_pre_ex triple_pre_conj, hypsubst)
    apply (rule triple_and_await [OF clean], intro triple_pre_ex triple_pre_conj)
    apply (rule triple_and_await [OF read], intro triple_pre_ex triple_pre_conj, clarify)
    apply (rule triple_and_await [OF sample], intro triple_pre_ex triple_pre_conj, clarify)
    apply (rule triple_and_await [OF evaluated [OF cleaned]], assumption, assumption, intro triple_pre_conj)
    by (rule triple_weaken [OF admit_verdict_live [where p = ?p and tab = tab, OF cleaned p _ len max]])
      (auto simp: capacity_denied_def attempt_key_def attempt_shard_key)
qed

section \<open>Completion\<close>

lemma complete_transaction_live:
  assumes ok: "attempts_ok tab d" and p: "ap_ok (pr_policy receipt)" "tab (attempt_fp (pr_policy receipt)) = pr_policy receipt"
  shows "lives (\<lambda>w. healthy 0 deadline w \<and> sw_db w = d \<and> server_in T locked w) (complete_transaction (attempt_sql_server uuid) receipt outcome deadline) (\<lambda>_ _. True)"
proof -
  obtain q where q: "completion_query receipt outcome None = Some q" using completion_query_Some [OF p(1)] by blast
  have query: "lives (live T locked 0 deadline d d) (ready_or_panic (map_option Ok (completion_query receipt outcome None))) (\<lambda>x w. live T locked 0 deadline d d w \<and> x = q)"
    by (rule triple_ready_or_panic) (auto simp: q)
  have "runs T locked 0 (\<lambda>now _ w. and_then (SAMPLE_TIME now) (\<lambda>t. and_then (COMPLETE_SQL q (decimal (sw_xid w)) t (sw_tx w)) (\<lambda>(d, rows).
      Ok (w\<lparr>sw_tx := d\<rparr>, rows)))) d d (\<lambda>rows d1 d2. d1 = d \<and> (\<exists>result. completion_result rows outcome = Ok result))"
    unfolding runs_def
  proof (intro allI impI, goal_cases)
    case (1 w t fin)
    obtain n where n: "SAMPLE_TIME t = Ok n" "sample_ok n" using sample_in_range 1 by blast
    from complete_sql_spec [OF ok p refl n(2) q, of "decimal (sw_xid w)"] 1 n(1) show ?case by auto
  qed
  then have run: "lives (live T locked 0 deadline d d) (tx_execute sql_session deadline PHASE (tv_complete (attempt_sql_server uuid) q))
      (\<lambda>rows w. \<exists>d2. live T locked 0 deadline d d2 w \<and> (\<exists>result. completion_result rows outcome = Ok result))"
    unfolding attempt_server_statements by (rule tx_execute_live)
  have decoded: "lives (live T locked 0 deadline d d2) (ready_result (map_err Reusable (completion_result rows outcome))) (\<lambda>_. live T locked 0 deadline d d2)"
    if "\<exists>result. completion_result rows outcome = Ok result" for d2 rows
    by (rule triple_ready) (use that in auto)
  show ?thesis unfolding complete_transaction_def Let_def attempt_session
    apply (rule triple_and_await [OF begin_live], rule triple_and_await [OF query], intro triple_pre_conj, hypsubst)
    apply (rule triple_and_await [OF run], intro triple_pre_ex triple_pre_conj)
    apply (rule triple_and_await [OF decoded], assumption, rule triple_and_await [OF tx_commit_live])
    by (rule triple_ready) auto
qed

section \<open>Properties\<close>

text \<open>
  C19: the durable attempt limiter answers. If no statement fails, the replies arrive within the operation's
  time and the database clock stays in its range, every admission of a subject and every completion of
  a receipt returns a result and not an error: no statement violates a constraint of a valid table, no
  row fails to decode, and no arithmetic overflows.
\<close>

theorem postgres_attempt_answers:
  assumes "attempts_ok tab (sw_db w)" "postgres_config_ok config" "calm 0 config w"
    and "ap_ok (as_policy attempt)" "tab (fst (attempt_key attempt)) = as_policy attempt"
      "length (fst (attempt_key attempt)) = 32" "length (snd (attempt_key attempt)) = 32"
    and "ap_ok (pr_policy receipt)" "tab (fst (receipt_key receipt)) = pr_policy receipt"
  shows "(\<exists>ost' w' admission. pg_attempt_admit observer ost (attempt_sql_server uuid) config attempt w = (ost', w', Some (Ok admission))) \<and>
    (\<exists>ost' w' result. pg_attempt_complete observer ost (attempt_sql_server uuid) config receipt outcome w = (ost', w', Some (Ok result)))"
proof
  have max: "pg_maximum_rows_per_shard config \<le> 65536" using assms(2) by (simp add: postgres_config_ok_def HARD_MAX_ROWS_PER_SHARD_def)
  have "\<exists>w' a. attempt_admit (attempt_sql_server uuid) config attempt w = (w', Some (Ok a))"
    unfolding attempt_admit_def attempt_session
    by (rule run_guarded_live [OF assms(3)], rule triple_weaken [OF admit_transaction_live [where T = "\<lambda>_. True" and locked = "sw_locked w", OF assms(1,4)]])
      (use assms max in \<open>simp_all add: attempt_key_def\<close>)
  then show "\<exists>ost' w' admission. pg_attempt_admit observer ost (attempt_sql_server uuid) config attempt w = (ost', w', Some (Ok admission))"
    by (auto simp: pg_attempt_admit_def)
  have "\<exists>w' a. attempt_complete (attempt_sql_server uuid) config receipt outcome w = (w', Some (Ok a))"
    unfolding attempt_complete_def attempt_session
    by (rule run_guarded_live [OF assms(3)], rule complete_transaction_live [OF assms(1,8)]) (use assms(9) in \<open>simp add: receipt_key_def\<close>)
  then show "\<exists>ost' w' result. pg_attempt_complete observer ost (attempt_sql_server uuid) config receipt outcome w = (ost', w', Some (Ok result))"
    by (auto simp: pg_attempt_complete_def)
qed

theorem postgres_attempt_answers_witness:
  "(\<exists>ost' w' admission. pg_attempt_admit None () (attempt_sql_server decimal) PostgresConfig_new pg_sample_attempt
      (attempt_sample_world\<lparr>sw_script := [(5, 10, - 1, No_Fault)]\<rparr>) = (ost', w', Some (Ok admission))) \<and>
   (\<exists>ost' w' result. pg_attempt_complete None () (attempt_sql_server decimal) PostgresConfig_new pg_sample_receipt Failure
      (attempt_sample_world\<lparr>sw_script := [(5, 10, - 1, No_Fault)]\<rparr>) = (ost', w', Some (Ok result)))"
proof (rule postgres_attempt_answers [where tab = "\<lambda>_. pg_sample_ap"])
  let ?w = "attempt_sample_world\<lparr>sw_script := [(5, 10, - 1, No_Fault)]\<rparr>"
  show "attempts_ok (\<lambda>_. pg_sample_ap) (sw_db ?w)" using attempt_world_ok(1) by simp
  show "postgres_config_ok PostgresConfig_new" by (simp add: postgres_config_ok_def PostgresConfig_new_def pg_config_constants rust_defs)
  show "calm 0 PostgresConfig_new ?w"
    by (simp add: calm_def healthy_def script_delay_def script_drift_def attempt_sample_world_def PostgresConfig_new_def
        pg_config_constants rust_defs TIMESTAMP_BEGIN_def TIMESTAMP_END_def UNIX_EPOCH_MICROS_def)
qed (simp_all add: pg_sample_keys, simp_all add: pg_sample_attempt_def pg_sample_receipt_def pg_sample_policy(1))

end
