(* ===== verification/Postgres_Attempts_Converge.thy ===== *)
theory Postgres_Attempts_Converge
  imports Postgres_Attempts_Live
begin

text \<open>
  Why the attempt limiter commits the cleanup when it denies for capacity (\<open>finish_capacity_denial\<close> in
  \<open>attempts.rs\<close>): admissions of a full shard that are denied one after the other remove its expired rows,
  so that a shard that a lowered bound left above it comes below it.
\<close>

section \<open>What one cleanup removes\<close>

definition expired_attempts :: "nat \<Rightarrow> int \<Rightarrow> attempt_table \<Rightarrow> attempt_table" where
  "expired_attempts shard t d = filter (\<lambda>(k, row). attempt_expiry row \<le> t) (attempts_in shard d)"

definition unexpired_attempts :: "nat \<Rightarrow> int \<Rightarrow> attempt_table \<Rightarrow> attempt_table" where
  "unexpired_attempts shard t d = filter (\<lambda>(k, row). \<not> attempt_expiry row \<le> t) (attempts_in shard d)"

lemma occupancy_split: "attempt_occupancy shard d = int (length (unexpired_attempts shard t d)) + int (length (expired_attempts shard t d))"
  using sum_length_filter_compl [of "\<lambda>(k, row). attempt_expiry row \<le> t" "attempts_in shard d"]
  by (simp add: attempt_occupancy_def unexpired_attempts_def expired_attempts_def case_prod_unfold)

lemma sorted_take_filter:
  fixes f :: "'a \<Rightarrow> int"
  shows "sorted (map f xs) \<Longrightarrow> filter (\<lambda>x. f x \<le> t) (take n xs) = take n (filter (\<lambda>x. f x \<le> t) xs)"
proof (induction xs arbitrary: n)
  case (Cons x xs)
  show ?case
  proof (cases "f x \<le> t")
    case True
    then show ?thesis using Cons by (cases n) simp_all
  next
    case False
    then have "\<forall>y \<in> set xs. \<not> f y \<le> t" using Cons.prems by auto
    then have "filter (\<lambda>x. f x \<le> t) xs = []" "filter (\<lambda>x. f x \<le> t) (take (n - 1) xs) = []"
      by (auto simp: filter_empty_conv dest!: in_set_takeD)
    then show ?thesis using False by (cases n) simp_all
  qed
qed simp

text \<open>Of the rows expired at \<open>t0\<close>, a cleanup at \<open>t0\<close> or later takes sixteen, since it takes the oldest first.\<close>

lemma cleanup_takes_oldest:
  assumes "t0 \<le> t" "\<And>k. key_shard k = shard \<Longrightarrow> \<not> locked k"
  shows "filter (\<lambda>(k, row). attempt_expiry row \<le> t0) (take 16 (sort_key (\<lambda>(_, row). attempt_expiry row) (expired_attempts shard t d))) =
    take 16 (sort_key (\<lambda>(_, row). attempt_expiry row) (expired_attempts shard t0 d))"
    "attempt_expired locked shard t d = map fst (take 16 (sort_key (\<lambda>(_, row). attempt_expiry row) (expired_attempts shard t d)))"
proof -
  let ?e = "\<lambda>(_ :: storage_key, row). attempt_expiry row" and ?E = "expired_attempts shard t d"
  have "filter (\<lambda>x. ?e x \<le> t0) ?E = expired_attempts shard t0 d"
    using assms(1) unfolding expired_attempts_def filter_filter by (intro filter_cong) auto
  then have "filter (\<lambda>x. ?e x \<le> t0) (sort_key ?e ?E) = sort_key ?e (expired_attempts shard t0 d)" by (simp add: filter_sort)
  then show "filter (\<lambda>(k, row). attempt_expiry row \<le> t0) (take 16 (sort_key ?e ?E)) = take 16 (sort_key ?e (expired_attempts shard t0 d))"
    using sorted_take_filter [of ?e "sort_key ?e ?E" t0 16] by (simp add: case_prod_unfold)
  have "filter (\<lambda>(k, row). attempt_expiry row \<le> t \<and> \<not> locked k) (attempts_in shard d) = ?E"
    using assms(2) unfolding expired_attempts_def filter_filter by (intro filter_cong) auto
  then show "attempt_expired locked shard t d = map fst (take 16 (sort_key ?e ?E))" by (simp add: attempt_expired_def)
qed

lemma cleanup_step:
  assumes dist: "distinct (map fst d)" and "t0 \<le> t" "\<And>k. key_shard k = shard \<Longrightarrow> \<not> locked k"
  shows "length (expired_attempts shard t0 (ATTEMPT_CLEANUP_SQL locked shard t d)) = length (expired_attempts shard t0 d) - 16"
proof -
  let ?e = "\<lambda>(_ :: storage_key, row). attempt_expiry row" and ?E = "expired_attempts shard t0 d"
  define S where "S = take 16 (sort_key ?e (expired_attempts shard t d))"
  define ks where "ks = map fst (take 16 (sort_key ?e ?E))"
  note take = cleanup_takes_oldest [where d = d and shard = shard and locked = locked, OF assms(2,3)]
  have dE: "distinct (map fst ?E)" using dist by (simp add: expired_attempts_def distinct_map_filter)
  have "distinct (map fst (sort_key ?e ?E))" using dE by (simp add: distinct_map)
  then have dk: "distinct ks" by (simp add: ks_def take_map [symmetric] distinct_take)
  have sub: "set ks \<subseteq> fst ` set ?E" unfolding ks_def by (auto dest!: in_set_takeD)
  have S: "set S \<subseteq> set d" by (auto simp: S_def expired_attempts_def dest!: in_set_takeD)
  have ks: "ks = map fst (filter (\<lambda>(k, row). attempt_expiry row \<le> t0) S)" by (simp add: ks_def S_def take(1))
  have same: "k \<in> fst ` set S \<longleftrightarrow> k \<in> set ks" if "(k, row) \<in> set ?E" for k row
  proof -
    from that have kr: "(k, row) \<in> set d" "attempt_expiry row \<le> t0" by (auto simp: expired_attempts_def)
    then have "row' = row" if "(k, row') \<in> set S" for row' using eq_key_imp_eq_value [OF dist, of k row row'] S that by auto
    then show ?thesis using kr(2) unfolding ks by force
  qed
  have "expired_attempts shard t0 (ATTEMPT_CLEANUP_SQL locked shard t d) = filter (\<lambda>(k, _). k \<notin> fst ` set S) ?E"
    using take(2) unfolding expired_attempts_def ATTEMPT_CLEANUP_SQL_def S_def filter_filter by (intro filter_cong) auto
  also have "\<dots> = filter (\<lambda>(k, _). k \<notin> set ks) ?E" using same by (intro filter_cong) auto
  finally show ?thesis using length_filter_keys [OF dE dk sub] by (simp add: ks_def)
qed

lemma cleanup_removes:
  assumes "distinct (map fst d)"
  shows "set (ATTEMPT_CLEANUP_SQL locked shard t d) \<subseteq> set d"
    "(k, row) \<in> set d \<Longrightarrow> (k, row) \<notin> set (ATTEMPT_CLEANUP_SQL locked shard t d) \<Longrightarrow> key_shard k = shard \<and> attempt_expiry row \<le> t"
    "length (unexpired_attempts shard t0 (ATTEMPT_CLEANUP_SQL locked shard t d)) \<le> length (unexpired_attempts shard t0 d)"
proof -
  show "set (ATTEMPT_CLEANUP_SQL locked shard t d) \<subseteq> set d" by (auto simp: ATTEMPT_CLEANUP_SQL_def)
  show "key_shard k = shard \<and> attempt_expiry row \<le> t" if "(k, row) \<in> set d" "(k, row) \<notin> set (ATTEMPT_CLEANUP_SQL locked shard t d)"
  proof -
    from that obtain row' where "(k, row') \<in> set d" "key_shard k = shard" "attempt_expiry row' \<le> t"
      by (auto simp: ATTEMPT_CLEANUP_SQL_def attempt_expired_def dest!: in_set_takeD)
    with eq_key_imp_eq_value [OF assms that(1)] show ?thesis by blast
  qed
  have "unexpired_attempts shard t0 (ATTEMPT_CLEANUP_SQL locked shard t d) =
      filter (\<lambda>(k, _). k \<notin> set (attempt_expired locked shard t d)) (unexpired_attempts shard t0 d)"
    unfolding unexpired_attempts_def ATTEMPT_CLEANUP_SQL_def filter_filter by (rule filter_cong) auto
  then show "length (unexpired_attempts shard t0 (ATTEMPT_CLEANUP_SQL locked shard t d)) \<le> length (unexpired_attempts shard t0 d)" by simp
qed

section \<open>Denials in a row\<close>

text \<open>
  \<open>n\<close> admissions of subjects of one shard, each at a healthy server whose clock shows times of \<open>T\<close> and where no
  other session has locked a row of the shard, each denied for capacity.
\<close>

inductive capacity_denials where
  none: "capacity_denials T tab observer uuid config shard 0 d d"
| more: "capacity_denials T tab observer uuid config shard n d (sw_db w) \<Longrightarrow>
    calm 0 config w \<Longrightarrow> clock_in T w \<Longrightarrow> (\<And>now k. T now \<Longrightarrow> key_shard k = shard \<Longrightarrow> \<not> sw_locked w now (Row_Lock k)) \<Longrightarrow>
    ap_ok (as_policy attempt) \<Longrightarrow> tab (fst (attempt_key attempt)) = as_policy attempt \<Longrightarrow>
    length (fst (attempt_key attempt)) = 32 \<Longrightarrow> length (snd (attempt_key attempt)) = 32 \<Longrightarrow> key_shard (attempt_key attempt) = shard \<Longrightarrow>
    pg_attempt_admit observer ost (attempt_sql_server uuid) config attempt w = (ost', w', Some (Ok (AttemptDenied AttemptStorageCapacity))) \<Longrightarrow>
    capacity_denials T tab observer uuid config shard (Suc n) d (sw_db w')"

lemma denial_commits:
  assumes ok: "attempts_ok tab (sw_db w)" "postgres_config_ok config" and w: "calm 0 config w" "clock_in T w"
    and p: "ap_ok (as_policy attempt)" "tab (fst (attempt_key attempt)) = as_policy attempt"
      "length (fst (attempt_key attempt)) = 32" "length (snd (attempt_key attempt)) = 32"
    and denied: "pg_attempt_admit observer ost (attempt_sql_server uuid) config attempt w =
      (ost', w', Some (Ok (AttemptDenied AttemptStorageCapacity)))"
  shows "capacity_denied T (sw_locked w) (pg_maximum_rows_per_shard config) (key_shard (attempt_key attempt)) (sw_db w) (sw_db w')"
proof -
  let ?Q = "\<lambda>a d'. a = AttemptDenied AttemptStorageCapacity \<longrightarrow>
    capacity_denied T (sw_locked w) (pg_maximum_rows_per_shard config) (key_shard (attempt_key attempt)) (sw_db w) d'"
  have max: "pg_maximum_rows_per_shard config \<le> 65536" using ok(2) by (simp add: postgres_config_ok_def HARD_MAX_ROWS_PER_SHARD_def)
  have "\<exists>w' a. attempt_admit (attempt_sql_server uuid) config attempt w = (w', Some (Ok a)) \<and> ?Q a (sw_db w')"
    unfolding attempt_admit_def attempt_session
    by (rule run_guarded_yields [where Q = ?Q, OF w], rule admit_transaction_live [OF ok(1) p(1)])
      (use p max in \<open>simp_all add: attempt_key_def\<close>)
  then show ?thesis using denied by (auto simp: pg_attempt_admit_def)
qed

lemma capacity_denials_step:
  assumes "capacity_denied T locked maximum shard d d'" "attempts_ok tab d" "\<And>t. sampled T t \<Longrightarrow> t0 \<le> t"
    and "\<And>now k. T now \<Longrightarrow> key_shard k = shard \<Longrightarrow> \<not> locked now (Row_Lock k)"
  shows "attempts_ok tab d'" "length (expired_attempts shard t0 d') = length (expired_attempts shard t0 d) - 16"
    "length (unexpired_attempts shard t0 d') \<le> length (unexpired_attempts shard t0 d)" "set d' \<subseteq> set d"
    "(k, row) \<in> set d \<Longrightarrow> (k, row) \<notin> set d' \<Longrightarrow> key_shard k = shard \<and> (\<exists>t. sampled T t \<and> attempt_expiry row \<le> t)"
    "int maximum \<le> attempt_occupancy shard d'"
proof -
  from assms(1) obtain now t where now: "T now" and t: "sampled T t" "d' = ATTEMPT_CLEANUP_SQL (locked now \<circ> Row_Lock) shard t d"
    and "int maximum \<le> attempt_occupancy shard d'" unfolding capacity_denied_def sampled_def by blast
  then show "int maximum \<le> attempt_occupancy shard d'" by simp
  have dist: "distinct (map fst d)" using assms(2) by (simp add: attempts_ok_def)
  show "attempts_ok tab d'" unfolding t(2) by (rule attempt_cleanup_spec(1) [OF assms(2) sampled_ok [OF t(1)]])
  show "length (expired_attempts shard t0 d') = length (expired_attempts shard t0 d) - 16"
    unfolding t(2) by (rule cleanup_step [OF dist assms(3) [OF t(1)]]) (use assms(4) [OF now] in auto)
  show "length (unexpired_attempts shard t0 d') \<le> length (unexpired_attempts shard t0 d)" "set d' \<subseteq> set d"
    unfolding t(2) by (rule cleanup_removes [OF dist])+
  show "key_shard k = shard \<and> (\<exists>t. sampled T t \<and> attempt_expiry row \<le> t)" if "(k, row) \<in> set d" "(k, row) \<notin> set d'"
    using cleanup_removes(2) [OF dist that [unfolded t(2)]] t(1) by blast
qed

lemma capacity_denials_effect:
  assumes "capacity_denials T tab observer uuid config shard n d d'" "attempts_ok tab d" "postgres_config_ok config" "\<And>t. sampled T t \<Longrightarrow> t0 \<le> t"
  shows "attempts_ok tab d' \<and> length (expired_attempts shard t0 d') = length (expired_attempts shard t0 d) - 16 * n \<and>
    length (unexpired_attempts shard t0 d') \<le> length (unexpired_attempts shard t0 d) \<and> set d' \<subseteq> set d \<and>
    (\<forall>k row. (k, row) \<in> set d \<longrightarrow> (k, row) \<notin> set d' \<longrightarrow> key_shard k = shard \<and> (\<exists>t. sampled T t \<and> attempt_expiry row \<le> t)) \<and>
    (n = 0 \<or> int (pg_maximum_rows_per_shard config) \<le> attempt_occupancy shard d')"
  using assms
proof (induction rule: capacity_denials.induct)
  case (more T tab observer uuid config shard n d w attempt ost ost' w')
  note IH = more.IH [OF more.prems]
  then have ok: "attempts_ok tab (sw_db w)" by blast
  have "capacity_denied T (sw_locked w) (pg_maximum_rows_per_shard config) shard (sw_db w) (sw_db w')"
    using denial_commits [OF ok more.prems(2) more.hyps(2,3,5-8,10)] more.hyps(9) by simp
  note step = capacity_denials_step [OF this ok more.prems(3) more.hyps(4)]
  show ?case
  proof (intro conjI allI impI disjI2)
    show "length (expired_attempts shard t0 (sw_db w')) = length (expired_attempts shard t0 d) - 16 * Suc n" using step(2) IH by simp
    show "length (unexpired_attempts shard t0 (sw_db w')) \<le> length (unexpired_attempts shard t0 d)" using step(3) IH by linarith
    fix k row assume "(k, row) \<in> set d" "(k, row) \<notin> set (sw_db w')"
    then show "key_shard k = shard" "\<exists>t. sampled T t \<and> attempt_expiry row \<le> t"
      using step(5) [of k row] IH by (cases "(k, row) \<in> set (sw_db w)"; blast)+
  qed (use step(1,4,6) IH in blast)+
qed simp

section \<open>A full shard\<close>

text \<open>Two rows of one shard, one of them expired, where the bound is one row.\<close>

definition full_table :: attempt_table where
  "full_table = [((replicate 32 1, replicate 32 2), sample_attempt_row),
     ((replicate 32 1, 2 # replicate 31 3), sample_attempt_row\<lparr>aw_slot := 1, aw_lease := Some (decimal 5, - 60000)\<rparr>)]"

definition full_world :: "attempt_table sql_world" where
  "full_world = attempt_sample_world\<lparr>sw_db := full_table, sw_script := []\<rparr>"

definition full_config :: postgres_config where
  "full_config = PostgresConfig_new\<lparr>pg_maximum_rows_per_shard := 1\<rparr>"

definition denied_attempt :: attempt_subject where
  "denied_attempt = \<lparr>as_policy = pg_sample_ap, as_subject = SubjectKey (2 # replicate 31 4)\<rparr>"

abbreviation full_times :: "timestamp \<Rightarrow> bool" where
  "full_times \<equiv> (=) (10000000 - UNIX_EPOCH_MICROS)"

lemma full_world_ok: "attempts_ok (\<lambda>_. pg_sample_ap) full_table" "postgres_config_ok full_config" "calm 0 full_config full_world"
    "clock_in full_times full_world" "sampled full_times t \<Longrightarrow> t = 10000"
proof -
  have "2 # replicate 31 (3 :: u8) \<noteq> replicate 32 2" by (simp add: numeral_eq_Suc)
  then show "attempts_ok (\<lambda>_. pg_sample_ap) full_table"
    by (simp add: full_table_def attempts_ok_def attempt_row_ok_def attempt_constraints_def sample_attempt_row_def pg_sample_policy
        stored_ok_def clock_bounds MAX_WINDOW_MILLIS_value)
  show "postgres_config_ok full_config"
    by (simp add: full_config_def postgres_config_ok_def PostgresConfig_new_def pg_config_constants rust_defs)
  show "calm 0 full_config full_world"
    by (simp add: full_config_def full_world_def calm_def healthy_def script_delay_def script_drift_def attempt_sample_world_def
        PostgresConfig_new_def pg_config_constants rust_defs TIMESTAMP_BEGIN_def TIMESTAMP_END_def UNIX_EPOCH_MICROS_def)
  show "clock_in full_times full_world" by (simp add: full_world_def attempt_sample_world_def clock_in_def)
  show "sampled full_times t \<Longrightarrow> t = 10000" by (auto simp: sampled_def SAMPLE_TIME_def UNIX_EPOCH_MICROS_def split: if_splits)
qed

lemma denied_key: "attempt_key denied_attempt = (replicate 32 1, 2 # replicate 31 4)" "key_shard (attempt_key denied_attempt) = 3"
  by (simp_all add: attempt_key_def denied_attempt_def pg_sample_policy key_shard_def)

lemma full_cleanup: "ATTEMPT_CLEANUP_SQL (\<lambda>_. False) 3 10000 full_table = [((replicate 32 1, replicate 32 2), sample_attempt_row)]"
proof -
  have "replicate 32 (2 :: u8) \<noteq> 2 # replicate 31 3" by (simp add: numeral_eq_Suc)
  then show ?thesis
    by (simp add: ATTEMPT_CLEANUP_SQL_def attempt_expired_def full_table_def sample_attempt_row_def attempt_expiry_def key_shard_def)
qed

lemma full_shard_denied:
  "\<exists>w'. pg_attempt_admit None () (attempt_sql_server decimal) full_config denied_attempt full_world =
     ((), w', Some (Ok (AttemptDenied AttemptStorageCapacity)))"
proof -
  have free: "(\<lambda>_. False) \<circ> Row_Lock = (\<lambda>_. False)" by (simp add: fun_eq_iff)
  have other: "replicate 32 (2 :: u8) \<noteq> 2 # replicate 31 4" by (simp add: numeral_eq_Suc)
  then have keys: "attempt_read (replicate 32 1) (2 # replicate 31 4) [((replicate 32 1, replicate 32 2), sample_attempt_row)] = []"
    "attempt_occupancy 3 [((replicate 32 1, replicate 32 2), sample_attempt_row)] = 1"
    "attempt_shard (replicate 32 1) (2 # replicate 31 4) = 3"
    by (simp_all add: attempt_read_def attempt_occupancy_def attempt_shard_def key_shard_def)
  show ?thesis
    by (simp add: pg_attempt_admit_def attempt_admit_def run_guarded_def and_await_def acquire_check_connection_def guard_finish_def
        admit_transaction_def Let_def check_before_commit_def tx_execute_def set_check_server_timeouts_def remaining_server_timeout_settings_def
        sql_session_def sql_statement_def sql_tick_def attempt_sql_server_def full_world_def attempt_sample_world_def denied_attempt_def
        full_cleanup free keys SAMPLE_TIME_def UNIX_EPOCH_MICROS_def pg_sample_policy full_config_def PostgresConfig_new_def
        insert_lease_def ready_result_def ready_or_panic_def attempt_decode_def attempt_evaluate_def finish_admission_def
        finish_capacity_denial_def tx_commit_def commit_check_def pg_config_constants rust_defs TIMESTAMP_BEGIN_def TIMESTAMP_END_def
        ConnectionOutcome_map_def observe_attempt_def outcome_value_def)
qed

section \<open>Properties\<close>

text \<open>
  C16: repeated admissions reclaim a full shard. Take any number of admissions of subjects of one shard, each
  denied for capacity by the public operation, where no statement fails, the replies arrive in time, no
  other session holds a lock on a row of the shard, and the clock never shows less than \<open>t0\<close>. The
  denials are durable cleanups: each removes sixteen of the shard's rows that had expired by \<open>t0\<close>, or
  all if there are fewer, and nothing is removed but rows of the shard that had expired at a time the
  clock showed. So if the rows not expired at \<open>t0\<close> are fewer than the bound, however far the shard is
  above it, the denials in a row are fewer than a sixteenth of the rows that had expired.
\<close>

theorem postgres_attempt_cleanup_converges:
  assumes "capacity_denials T tab observer uuid config shard n d d'" "attempts_ok tab d" "postgres_config_ok config"
    and "\<And>t. sampled T t \<Longrightarrow> t0 \<le> t"
  shows "length (expired_attempts shard t0 d') = length (expired_attempts shard t0 d) - 16 * n \<and>
    set d' \<subseteq> set d \<and>
    (\<forall>k row. (k, row) \<in> set d \<longrightarrow> (k, row) \<notin> set d' \<longrightarrow> key_shard k = shard \<and> (\<exists>t. sampled T t \<and> attempt_expiry row \<le> t)) \<and>
    (length (unexpired_attempts shard t0 d) < pg_maximum_rows_per_shard config \<longrightarrow> n = 0 \<or> 16 * n < length (expired_attempts shard t0 d))"
  using capacity_denials_effect [OF assms(1-3), of t0] assms(4) occupancy_split [of shard d' t0] by auto

text \<open>The admission of a third subject is denied and removes the expired row.\<close>

theorem postgres_attempt_cleanup_converges_witness:
  "\<exists>w'. pg_attempt_admit None () (attempt_sql_server decimal) full_config denied_attempt full_world =
       ((), w', Some (Ok (AttemptDenied AttemptStorageCapacity))) \<and>
     length (expired_attempts 3 10000 (sw_db full_world)) = 1 \<and> expired_attempts 3 10000 (sw_db w') = []"
proof -
  from full_shard_denied obtain w' where denied: "pg_attempt_admit None () (attempt_sql_server decimal) full_config denied_attempt full_world =
       ((), w', Some (Ok (AttemptDenied AttemptStorageCapacity)))" by blast
  have db: "sw_db full_world = full_table" "sw_locked full_world = (\<lambda>_ _. False)" by (simp_all add: full_world_def attempt_sample_world_def)
  have "capacity_denials full_times (\<lambda>_. pg_sample_ap) (None :: (attempt_observation \<Rightarrow> unit \<Rightarrow> unit \<times> bool) option) decimal full_config 3 (Suc 0) full_table (sw_db w')"
    by (rule capacity_denials.more [OF _ full_world_ok(3,4) _ _ _ _ _ denied_key(2) denied])
      (use pg_sample_policy(1) in \<open>simp_all add: db capacity_denials.none denied_key(1), simp_all add: denied_attempt_def\<close>)
  from postgres_attempt_cleanup_converges [OF this full_world_ok(1,2), of 10000] full_world_ok(5)
  have "length (expired_attempts 3 10000 (sw_db w')) = length (expired_attempts 3 10000 full_table) - 16" by simp
  moreover have "length (expired_attempts 3 10000 full_table) = 1"
    by (simp add: expired_attempts_def full_table_def sample_attempt_row_def attempt_expiry_def key_shard_def)
  ultimately show ?thesis using denied by (auto simp: db)
qed

end
