(* ===== verification/Postgres_Attempts_Histories.thy ===== *)
theory Postgres_Attempts_Histories
  imports Postgres_Attempts_Limits
begin

text \<open>
  Over any history of replicas a subject of the durable attempt limiter that is held or backing off stays so:
  at most one attempt is in flight, and nothing is admitted before the backoff ends. The database clock need
  not be monotonic; only its readings count.
\<close>

section \<open>A subject that is not admissible\<close>

definition attempt_blocked :: "(timestamp \<Rightarrow> bool) \<Rightarrow> (u8 list \<Rightarrow> attempt_policy) \<Rightarrow> storage_key \<Rightarrow> attempt_table \<Rightarrow> bool" where
  "attempt_blocked T tab k d \<longleftrightarrow>
     (\<forall>t. sampled T t \<longrightarrow> \<not> admissible (tab (fst k)) (abs_ms t) (table_view tab d (abs_ms t) k))"

definition same_view :: "(u8 list \<Rightarrow> attempt_policy) \<Rightarrow> storage_key \<Rightarrow> attempt_table \<Rightarrow> attempt_table \<Rightarrow> bool" where
  "same_view tab k d d' \<longleftrightarrow> (\<forall>u. table_view tab d' u k = table_view tab d u k)"

text \<open>A receipt for something else than the lease that holds \<open>k\<close>.\<close>

definition other_receipt :: "(u8 list \<Rightarrow> attempt_policy) \<Rightarrow> storage_key \<Rightarrow> attempt_table \<Rightarrow> pg_attempt_receipt \<Rightarrow> bool" where
  "other_receipt tab k d receipt \<longleftrightarrow>
     (receipt_key receipt = k \<longrightarrow> (\<forall>u until. av_lease (table_view tab d u k) \<noteq> Some (pr_token receipt, until)))"

lemma same_view_keeps:
  "same_view tab k d d' \<Longrightarrow> attempt_blocked T tab k d' \<longleftrightarrow> attempt_blocked T tab k d"
  "same_view tab k d d' \<Longrightarrow> other_receipt tab k d' receipt \<longleftrightarrow> other_receipt tab k d receipt"
  by (simp_all add: same_view_def attempt_blocked_def other_receipt_def)

lemma forgotten_same_view:
  assumes "forgotten tab t d d1" "sampled T t" "attempt_blocked T tab k d"
  shows "same_view tab k d d1"
proof -
  have "table_view tab d (abs_ms t) k \<noteq> fresh" using assms(2,3) by (auto simp: attempt_blocked_def)
  then have "map_of d1 k = map_of d k" using assms(1) unfolding forgotten_def by blast
  then show ?thesis by (simp add: same_view_def table_view_def stored_view_def)
qed

lemma admission_keeps_view:
  assumes out: "admission_outcome T tab maximum attempt d admission d'" and ok: "attempts_ok tab d" and b: "attempt_blocked T tab k d"
  shows "attempts_ok tab d' \<and> same_view tab k d d' \<and> (attempt_key attempt = k \<longrightarrow> (\<exists>denial. admission = AttemptDenied denial))"
proof -
  from out obtain t now d1 where t: "sampled T t" "sampled T now" and f: "forgotten tab t d d1" and adm: "admission_at tab maximum attempt now d d1 admission d'"
    by (auto simp: admission_outcome_def)
  have d1: "attempts_ok tab d1" "same_view tab k d d1" using f forgotten_same_view [OF f t(1) b] by (simp_all add: forgotten_def)
  show ?thesis
  proof (cases admission)
    case (AttemptAdmitted receipt)
    with adm have a: "attempts_ok tab d'" "admissible (tab (fst (attempt_key attempt))) (abs_ms now) (table_view tab d1 (abs_ms now) (attempt_key attempt))"
      "\<And>u. table_view tab d' u = event_effect (tab \<circ> fst) (abs_ms now) (Ev_Admit (attempt_key attempt) (pr_token receipt)) (table_view tab d1) u"
      by (simp_all add: admission_at_def Let_def)
    have "attempt_key attempt \<noteq> k" using a(2) d1(2) b t(2) by (auto simp: attempt_blocked_def same_view_def)
    then show ?thesis using a d1(2) by (simp add: same_view_def)
  next
    case (AttemptDenied denial)
    with adm have "d' = d \<or> d' = d1" by (cases denial) (auto simp: admission_at_def Let_def)
    then show ?thesis using AttemptDenied d1 ok by (auto simp: same_view_def)
  qed
qed

lemma completion_keeps_view:
  assumes out: "completion_outcome tab receipt outcome now d result d'" and ok: "attempts_ok tab d" and other: "other_receipt tab k d receipt"
  shows "attempts_ok tab d' \<and> same_view tab k d d'"
proof (cases "event_enabled (tab \<circ> fst) (abs_ms now) (Ev_Complete (receipt_key receipt) (pr_token receipt) outcome) (table_view tab d (abs_ms now))")
  case True
  then have "receipt_key receipt \<noteq> k" using other by (auto simp: other_receipt_def)
  then show ?thesis using out True by (simp add: completion_outcome_def Let_def same_view_def)
next
  case False
  then show ?thesis using out ok by (simp add: completion_outcome_def Let_def same_view_def)
qed

section \<open>Histories\<close>

definition reports_admission :: "storage_key \<Rightarrow> attempt_subject \<Rightarrow> (pg_check_error, pg_attempt_receipt attempt_admission) result option \<Rightarrow> bool" where
  "reports_admission k attempt r \<longleftrightarrow> attempt_key attempt = k \<and> (\<exists>receipt. r = Some (Ok (AttemptAdmitted receipt)))"

text \<open>Replicas run admissions and completions one after another, each against a server that may misbehave in its own
  way but whose clock readings satisfy \<open>T\<close>; nobody completes the lease that holds \<open>k\<close>. The number counts
  the admissions reported for \<open>k\<close>.\<close>

inductive attempt_history :: "(timestamp \<Rightarrow> bool) \<Rightarrow> (u8 list \<Rightarrow> attempt_policy) \<Rightarrow> storage_key \<Rightarrow> attempt_table sql_world \<Rightarrow> nat \<Rightarrow>
    attempt_table sql_world \<Rightarrow> bool" for T tab k w0 where
  attempt_start: "attempt_history T tab k w0 0 w0"
| attempt_server: "attempt_history T tab k w0 n w \<Longrightarrow> sw_db w' = sw_db w \<Longrightarrow> attempt_history T tab k w0 n w'"
| attempt_admits: "attempt_history T tab k w0 n w \<Longrightarrow> clock_in T w \<Longrightarrow> ap_ok (as_policy attempt) \<Longrightarrow>
    tab (fst (attempt_key attempt)) = as_policy attempt \<Longrightarrow>
    attempt_admit (attempt_sql_server uuid) config attempt w = (w', r) \<Longrightarrow>
    attempt_history T tab k w0 (n + (if reports_admission k attempt r then 1 else 0)) w'"
| attempt_completes: "attempt_history T tab k w0 n w \<Longrightarrow> clock_in T w \<Longrightarrow> ap_ok (pr_policy receipt) \<Longrightarrow>
    tab (fst (receipt_key receipt)) = pr_policy receipt \<Longrightarrow> other_receipt tab k (sw_db w0) receipt \<Longrightarrow>
    attempt_complete (attempt_sql_server uuid) config receipt outcome w = (w', s) \<Longrightarrow>
    attempt_history T tab k w0 n w'"

lemma admit_step:
  assumes w: "clock_in T w" "attempts_ok tab (sw_db w)" "ap_ok (as_policy attempt)" "tab (fst (attempt_key attempt)) = as_policy attempt"
    and b: "attempt_blocked T tab k (sw_db w)" and run: "attempt_admit (attempt_sql_server uuid) config attempt w = (w', r)"
  shows "attempts_ok tab (sw_db w') \<and> same_view tab k (sw_db w) (sw_db w') \<and> \<not> reports_admission k attempt r"
proof -
  from admit_outcome [OF w, where uuid = uuid and config = config] run
  consider (decided) admission where "r = Some (Ok admission)" "admission_outcome T tab (pg_maximum_rows_per_shard config) attempt (sw_db w) admission (sw_db w')"
    | (same) e where "r = Some (Err e)" "sw_db w' = sw_db w"
    | (lost) e admission where "r = Some (Err e)" "admission_outcome T tab (pg_maximum_rows_per_shard config) attempt (sw_db w) admission (sw_db w')"
    by (auto split: option.splits sum.splits)
  then show ?thesis
    by cases (use w(2) admission_keeps_view [OF _ w(2) b] in \<open>auto simp: reports_admission_def same_view_def\<close>)
qed

lemma complete_step:
  assumes w: "clock_in T w" "attempts_ok tab (sw_db w)" "ap_ok (pr_policy receipt)" "tab (fst (receipt_key receipt)) = pr_policy receipt"
    and other: "other_receipt tab k (sw_db w) receipt" and run: "attempt_complete (attempt_sql_server uuid) config receipt outcome w = (w', r)"
  shows "attempts_ok tab (sw_db w') \<and> same_view tab k (sw_db w) (sw_db w')"
proof -
  from complete_outcome [OF w, where uuid = uuid and config = config and outcome = outcome] run
  consider "sw_db w' = sw_db w" | now result where "completion_outcome tab receipt outcome now (sw_db w) result (sw_db w')"
    by (auto split: option.splits sum.splits)
  then show ?thesis by cases (use w(2) completion_keeps_view [OF _ w(2) other] in \<open>auto simp: same_view_def\<close>)
qed

lemma same_view_trans: "same_view tab k d d' \<Longrightarrow> same_view tab k d' d'' \<Longrightarrow> same_view tab k d d''"
  by (simp add: same_view_def)

lemma history_blocked:
  assumes "attempt_history T tab k w0 n w" "attempts_ok tab (sw_db w0)" "attempt_blocked T tab k (sw_db w0)"
  shows "attempts_ok tab (sw_db w) \<and> same_view tab k (sw_db w0) (sw_db w) \<and> n = 0"
  using assms
proof induction
  case (attempt_admits n w attempt uuid config w' r)
  then have ih: "attempts_ok tab (sw_db w)" "same_view tab k (sw_db w0) (sw_db w)" "n = 0" by blast+
  with attempt_admits.prems(2) have "attempt_blocked T tab k (sw_db w)" by (simp add: same_view_keeps)
  from admit_step [OF attempt_admits(2) ih(1) attempt_admits(3,4) this attempt_admits(5)] show ?case
    using ih same_view_trans by auto
next
  case (attempt_completes n w receipt uuid config outcome w' s)
  then have ih: "attempts_ok tab (sw_db w)" "same_view tab k (sw_db w0) (sw_db w)" "n = 0" by blast+
  with attempt_completes(5) have "other_receipt tab k (sw_db w) receipt" by (simp add: same_view_keeps)
  from complete_step [OF attempt_completes(2) ih(1) attempt_completes(3,4) this attempt_completes(6)] show ?case
    using ih same_view_trans by auto
qed (simp_all add: same_view_def)

section \<open>Properties\<close>

text \<open>
  C14: at most one attempt of a subject is in flight on Postgres, and no attempt precedes the end of its
  backoff. Let the clock readings of a history satisfy \<open>T\<close>, and let each of them be before the lease of
  the subject expires, or, without a lease, before the delay of its failures has passed. Then, whatever
  admissions and completions of this and other subjects any replicas run, with any lost statements and
  replies, if nobody completes that lease then no attempt of the subject is admitted and its state stays
  as it was; no order of the readings is assumed.
\<close>

theorem postgres_attempt_single_flight:
  assumes history: "attempt_history T tab k w0 n w" and ok: "attempts_ok tab (sw_db w0)" and "ap_ok (tab (fst k))"
    and held: "\<forall>t. sampled T t \<longrightarrow> (case av_lease (stored_view (sw_db w0) k) of
        Some (token, until) \<Rightarrow> abs_ms t < until
      | None \<Rightarrow> 0 < av_failures (stored_view (sw_db w0) k) \<and> abs_ms t < retry_at (tab (fst k)) (stored_view (sw_db w0) k))"
  shows "n = 0 \<and> (\<forall>u. table_view tab (sw_db w) u k = table_view tab (sw_db w0) u k)"
proof -
  let ?v = "stored_view (sw_db w0) k" and ?p = "tab (fst k)"
  have "\<not> admissible ?p (abs_ms t) (table_view tab (sw_db w0) (abs_ms t) k)" if t: "sampled T t" for t
  proof (cases "av_lease ?v")
    case (Some l)
    obtain token until where "l = (token, until)" by (cases l)
    with Some held t have "av_lease (table_view tab (sw_db w0) (abs_ms t) k) = Some (token, until)"
      by (auto simp: table_view_def elapse_lease)
    then show ?thesis by (simp add: admissible_def)
  next
    case None
    with held t have f: "0 < av_failures ?v" "abs_ms t < retry_at ?p ?v" by auto
    have "retry_at ?p ?v \<le> dur_saturating_add (av_last ?v) (period_duration (ap_quiet_period ?p))"
      unfolding retry_at_def by (rule quiet_after_delay [OF assms(3)])
    then have "elapse ?p (abs_ms t) ?v = ?v" using None f by (simp add: elapse_def)
    then show ?thesis using f by (simp add: table_view_def admissible_def)
  qed
  then have "attempt_blocked T tab k (sw_db w0)" by (simp add: attempt_blocked_def)
  from history_blocked [OF history ok this] show ?thesis by (simp add: same_view_def)
qed

theorem postgres_attempt_single_flight_witness:
  "let (w', r) = attempt_admit (attempt_sql_server decimal) PostgresConfig_new pg_sample_attempt attempt_sample_world in
   \<not> reports_admission (attempt_key pg_sample_attempt) pg_sample_attempt r"
proof -
  let ?T = "\<lambda>t. t \<le> 20000000 - UNIX_EPOCH_MICROS" and ?k = "attempt_key pg_sample_attempt" and ?tab = "\<lambda>_. pg_sample_ap"
  obtain w' r where run: "attempt_admit (attempt_sql_server decimal) PostgresConfig_new pg_sample_attempt attempt_sample_world = (w', r)" by fastforce
  have p: "as_policy pg_sample_attempt = pg_sample_ap" by (simp add: pg_sample_attempt_def)
  have "clock_in ?T attempt_sample_world" by (simp add: attempt_sample_world_def clock_in_def numeral_eq_Suc)
  from attempt_admits [where tab = ?tab and k = ?k, OF attempt_start this _ _ run]
  have h: "attempt_history ?T ?tab ?k attempt_sample_world (0 + (if reports_admission ?k pg_sample_attempt r then 1 else 0)) w'"
    by (simp add: p pg_sample_policy)
  have row: "stored_view (sw_db attempt_sample_world) ?k = held_view 2 (decimal 0) (abs_ms 30000)"
    by (simp add: stored_view_def pg_sample_keys attempt_sample_world_def sample_attempt_table_def abs_row_def sample_attempt_row_def)
  have "abs_ms t < abs_ms 30000" if "sampled ?T t" for t
    using that by (auto simp: sampled_def SAMPLE_TIME_def abs_ms_def clock_bounds from_millis_def NANOS_PER_MILLI_def split: if_splits)
  with postgres_attempt_single_flight [OF h attempt_world_ok(1)] run show ?thesis
    by (simp add: row pg_sample_policy split: if_splits)
qed

end
