(* ===== verification/Postgres_Migrate.thy ===== *)
theory Postgres_Migrate
  imports Postgres_Admission
begin

text \<open>
  Running the migrations (\<open>runlimit-postgres/src/lib.rs\<close>, \<open>gcra.rs\<close>, \<open>attempts.rs\<close>) and the guard that decides whether a
  connection goes back to the pool. SQLx's pool and migrator are parameters; a future that is dropped
  while it runs, or that panics, gives no result. An error of the pool is the \<open>MigrateError\<close> that \<open>?\<close> makes of it.
\<close>

section \<open>The guard of a connection\<close>

text \<open>\<open>ConnectionCancellationGuard\<close> without the connection it owns.\<close>

record connection_guard =
  cg_armed :: bool

definition guard_new :: connection_guard where "guard_new = \<lparr>cg_armed = True\<rparr>"

definition guard_reuse :: "connection_guard \<Rightarrow> connection_guard" where
  "guard_reuse self = self\<lparr>cg_armed := False\<rparr>"

text \<open>\<open>Drop\<close>: an armed guard closes the connection, another returns it to the pool.\<close>

definition guard_drop :: "(bool \<Rightarrow> 'w \<Rightarrow> 'w) \<Rightarrow> connection_guard \<Rightarrow> 'w \<Rightarrow> 'w" where
  "guard_drop release self w = release (cg_armed self) w"

section \<open>Migrating\<close>

record ('w, 'e) migration_pool =
  mp_acquire :: "'w \<Rightarrow> 'w \<times> ('e, unit) result option"
  mp_run :: "bool \<Rightarrow> 'w \<Rightarrow> 'w \<times> ('e, unit) result option"
  mp_release :: "bool \<Rightarrow> 'w \<Rightarrow> 'w"

text \<open>\<open>PostgresLimiter::migrate\<close> and \<open>PostgresGcraLimiter::migrate\<close>; the argument of \<open>mp_run\<close> is \<open>ignore_missing\<close>.\<close>

definition migrate :: "('w, 'e) migration_pool \<Rightarrow> 'w \<Rightarrow> 'w \<times> ('e, unit) result option" where
  "migrate pool w =
     (case mp_acquire pool w of
        (w, None) \<Rightarrow> (w, None)
      | (w, Some (Err error)) \<Rightarrow> (w, Some (Err error))
      | (w, Some (Ok _)) \<Rightarrow>
          (let guard = guard_new in
           case mp_run pool True w of
             (w, None) \<Rightarrow> (guard_drop (mp_release pool) guard w, None)
           | (w, Some result) \<Rightarrow>
               (let guard = (case result of Ok _ \<Rightarrow> guard_reuse guard | Err _ \<Rightarrow> guard) in
                (guard_drop (mp_release pool) guard w, Some result))))"

text \<open>\<open>PostgresAttemptLimiter::migrate\<close> closes its connection in every case.\<close>

definition attempts_migrate :: "('w, 'e) migration_pool \<Rightarrow> 'w \<Rightarrow> 'w \<times> ('e, unit) result option" where
  "attempts_migrate pool w =
     (case mp_acquire pool w of
        (w, None) \<Rightarrow> (w, None)
      | (w, Some (Err error)) \<Rightarrow> (w, Some (Err error))
      | (w, Some (Ok _)) \<Rightarrow> (let (w, result) = mp_run pool True w in (mp_release pool True w, result)))"

section \<open>No session leaks its migration lock\<close>

text \<open>
  If closing a connection ends its session's locks, and a migration that succeeds has released its own,
  then no connection in the pool holds a migration lock after migrating, however the migration ends.
\<close>

lemma migrate_keeps_clean:
  assumes "\<And>w. clean (mp_release pool True w)" "\<And>w. unlocked w \<Longrightarrow> clean (mp_release pool False w)"
    and "\<And>ignore w w'. mp_run pool ignore w = (w', Some (Ok ())) \<Longrightarrow> unlocked w'"
    and "\<And>w w' r. clean w \<Longrightarrow> mp_acquire pool w = (w', r) \<Longrightarrow> r \<noteq> Some (Ok ()) \<Longrightarrow> clean w'"
    and "clean w"
  shows "clean (fst (migrate pool w))" "clean (fst (attempts_migrate pool w))"
proof -
  obtain w1 r where a: "mp_acquire pool w = (w1, r)" by fastforce
  obtain w2 q where run: "mp_run pool True w1 = (w2, q)" by fastforce
  show "clean (fst (migrate pool w))"
    using a run assms(1,2) assms(3) [of True w1 w2] assms(4) [OF assms(5) a]
    by (cases r; cases q) (auto simp: migrate_def guard_drop_def guard_new_def guard_reuse_def Let_def split: sum.splits)
  show "clean (fst (attempts_migrate pool w))"
    using a run assms(1) assms(4) [OF assms(5) a] by (cases r) (auto simp: attempts_migrate_def split: sum.splits)
qed

end
