(* ===== verification/Spec2Isabelle.thy ===== *)
theory Spec2Isabelle
  imports Memory_Attempt_Limits Http_Draft11 Axum_Memory Axum_Postgres Postgres_Window_Live Postgres_Gcra_Live
    Postgres_Attempts_Converge Postgres_Attempts_Histories Postgres_Migrate
begin

text \<open>
  \<^bold>\<open>Runlimit: admission control for requests and attempts.\<close>

  Runlimit decides whether a request may proceed under named quotas. An application builds a policy
  (fixed window, GCRA, or exponential backoff for attempts), derives an opaque subject key with a keyed
  hash, binds the two into a check and gives it to a store; the store answers with a decision that the
  application, the Axum layer or the HTTP fields turn into a response. The crates are modelled
  bottom-up; every theory names the file it translates.

  \<^bold>\<open>The parts and their theories.\<close>
  \<^item> \<open>Rust_Prelude\<close>: the fragment of Rust's standard library the crates use (checked and saturating
    integers, \<open>Duration\<close>, \<open>Result\<close>, strings and UTF-8, association-list maps) and shared lemmas.
  \<^item> \<open>Identifier\<close>, \<open>Policy\<close>, \<open>Key\<close>, \<open>Check_Batch\<close>, \<open>Decision\<close>, \<open>Observation\<close>: the core crate
    (\<open>runlimit-core/src/identifier.rs\<close>, \<open>policy.rs\<close>, \<open>key.rs\<close> and \<open>counter.rs\<close>, \<open>check.rs\<close> and \<open>batch.rs\<close>,
    \<open>decision.rs\<close>, \<open>observation.rs\<close>): validated values, their Serde forms, the byte strings that are
    fingerprinted and authenticated, batch validation and the classification of outcomes.
  \<^item> \<open>Gcra\<close>: \<open>runlimit-core/src/gcra.rs\<close>, the scaled-integer GCRA transition in 128-bit arithmetic.
  \<^item> \<open>Memory_Config\<close>, \<open>Shards\<close>, \<open>Shard_Routing\<close>: \<open>runlimit-memory/src/config.rs\<close> and \<open>shards.rs\<close>: bounded
    shards of expiring entries, their expiration index, routing of keys and batches, mutexes with
    poisoning and recovery.
  \<^item> \<open>Memory_Store\<close>, \<open>Memory_Gcra\<close>: \<open>runlimit-memory/src/store.rs\<close> and \<open>gcra.rs\<close>, the two in-memory
    stores; \<open>Fixed_Window\<close>, \<open>Memory_Store_Correct\<close>, \<open>Memory_Gcra_Correct\<close>, \<open>Memory_Gcra_Batch\<close> relate them
    to what a check and a batch mean on counters, \<open>Batch_Room\<close> says which check of a batch finds its shard
    full, and \<open>Memory_Limits\<close>, \<open>Memory_Gcra_Limits\<close> state their
    guarantees.
  \<^item> \<open>Attempt_Policy\<close>, \<open>Memory_Attempts\<close>: \<open>runlimit-core/src/attempts.rs\<close> and
    \<open>runlimit-memory/src/attempts.rs\<close>; \<open>Attempt_Spec\<close> is the abstract contract of an attempt backend,
    \<open>Memory_Attempts_Correct\<close> the refinement and \<open>Memory_Attempt_Limits\<close> its consequences.
  \<^item> \<open>Limiter\<close>: \<open>runlimit-core/src/limiter.rs\<close>, the trait of the rate limiters and its contract; \<open>Memory_Limiters\<close> and
    \<open>Postgres_Limiters\<close> hold its four implementations and show that they keep it.
  \<^item> \<open>Http_Draft11\<close>: \<open>runlimit-http/src/draft_11.rs\<close>; \<open>Axum_Layer\<close>: \<open>runlimit-axum/src/lib.rs\<close>;
    \<open>Axum_Limiter\<close> puts the layer in front of any limiter, \<open>Axum_Memory\<close> and \<open>Axum_Postgres\<close> in front of the
    stores; \<open>System_Clock\<close>: \<open>runlimit-memory/src/clock.rs\<close>.
  \<^item> \<open>Postgres_Base\<close> (\<open>runlimit-postgres/src/config.rs\<close>, \<open>errors.rs\<close>, part of \<open>protocol.rs\<close>), \<open>Postgres_Admission\<close>
    (\<open>admission.rs\<close> and \<open>lib.rs\<close>) and \<open>Postgres_Maintenance\<close> (\<open>maintenance.rs\<close> and its SQL): the client of the
    durable fixed-window limiter against a server that is a record of functions on an abstract world.
    \<open>Postgres_Session\<close> is a small calculus of total correctness for its steps, \<open>Postgres_Transaction\<close> what
    the client guarantees against any transactional server; \<open>Postgres_Sql\<close> holds the statements, tables,
    constraints and triggers, \<open>Postgres_Sql_Correct\<close> what they compute, \<open>Postgres_World\<close> and
    \<open>Postgres_Server\<close> a server that runs them under a script of delays, clock steps and faults, beside other sessions
    whose row locks the statements with \<open>SKIP LOCKED\<close> pass over (\<open>sw_locked\<close>), and
    \<open>Postgres_Window_Limits\<close> the limit over all histories of replicas.
  \<^item> \<open>Postgres_Gcra\<close>, \<open>Postgres_Gcra_Transaction\<close>, \<open>Postgres_Gcra_Sql\<close>, \<open>Postgres_Gcra_Correct\<close>,
    \<open>Postgres_Gcra_Server\<close> and \<open>Postgres_Gcra_Limits\<close>: the same for \<open>runlimit-postgres/src/gcra.rs\<close> and its migration.
  \<^item> \<open>Postgres_Attempts\<close>, \<open>Postgres_Attempts_Transaction\<close>, \<open>Postgres_Attempts_Sql\<close>, \<open>Postgres_Attempts_Correct\<close>,
    \<open>Postgres_Attempts_Server\<close> and \<open>Postgres_Attempts_Limits\<close>: the same for \<open>runlimit-postgres/src/attempts.rs\<close>, its two SQL
    files and its migration, refined to the contract of \<open>Attempt_Spec\<close>; leases are named by the tokens the
    database generates, and the statements of \<open>low_level\<close> run in a transaction of the application.
    \<open>Postgres_Attempts_Histories\<close> follows one subject through histories of admissions and completions,
    \<open>Postgres_Attempts_Converge\<close> a full shard through admissions that are denied for capacity.
  \<^item> \<open>Postgres_Migrate\<close>: the migration runners and the guard of their connections.
  \<^item> \<open>Postgres_Live\<close>, \<open>Postgres_Window_Live\<close>, \<open>Postgres_Gcra_Live\<close>, \<open>Postgres_Attempts_Live\<close>: when the durable limiters
    answer, and what a denial for capacity leaves. A world is healthy if its script has no fault, takes less time than the operation may and keeps
    the database clock in its range.

  \<^bold>\<open>State and operations.\<close> A store is a record of its configuration and shards. Every public operation is a
  function from the state and its inputs to the new state and a result; \<open>None\<close> is a panic, and a panic
  under a lock poisons the shards that were locked. Operations run under their locks, so a concurrent
  execution is a sequence of them. The clock reading of an operation is an argument (\<open>None\<close> when the
  application's clock panics), so every theorem holds for every clock; histories constrain it where a
  bound needs a monotonic clock. Observers are state transformers that may panic. A step of the Postgres
  client maps a world to a world and a result; a transaction works on a copy of the tables that a commit
  makes durable, and every statement may fail, time out, or run without its reply arriving.

  \<^bold>\<open>What is proved.\<close>
  \<^item> \<open>expiring_map\<close> (in \<open>Shards\<close>) is the interface of an expiring map, interpreted on shards; the live
    counters of a store are read through it, so that cleanup is invisible to every later statement.
  \<^item> Single checks follow the exact specification of their algorithm on exactly one counter, batches
    are all-or-nothing at one instant and stop at the first check whose quota or shard has no room, denials and errors change no live counter, and nothing panics on
    well-formed states; well-formedness and the storage bound hold in every reachable store.
  \<^item> \<open>metered_store\<close> (in \<open>Store_History\<close>) bounds what any history of operations can admit by a
    potential; its interpretations give the window bound and the GCRA rate bound.
  \<^item> \<open>limiter_contract\<close> (in \<open>Limiter\<close>) is what the trait \<open>Limiter\<close> promises: an answer, no consumption by a
    denied check or batch, one allowance per check of an allowed batch, and errors that know what they
    may have consumed. Inside it, what an operation reports to its observer is true. It is
    interpreted on the four backends; \<open>metered_limiter\<close> (in \<open>Axum_Limiter\<close>) extends it with a potential and
    bounds how often a handler behind the Axum layer can run.
  \<^item> \<open>attempt_backend\<close> (in \<open>Attempt_Spec\<close>) gives the rate bound, single flight and exactly-once
    completion of attempts, through the refinement of the memory limiter.
  \<^item> \<open>pg_session\<close> is the interface of a transactional server; \<open>pg_database\<close>, \<open>pg_maintained\<close>, \<open>pg_gcra_database\<close>,
    \<open>pg_gcra_maintained\<close> and \<open>pg_attempts\<close> extend it with the statements of each protocol. Inside them every decision is
    durable and every error honest about what it may have done; the interpretations on the SQL servers
    give the correctness of the public operations at a time that the server's clock really showed
    (\<open>clock_in\<close>), the exact ledger in every reachable state, and the window bound and the rate bound of the
    durable limiters over all histories of replicas. Durable admissions and completions of attempts
    are transitions of the attempt contract, a subject has one attempt in flight and none during its
    backoff, claims are fenced to their transaction, and admissions denied for capacity
    reclaim their shard. A cleanup reports what it removed, removes all it may reach if that is less than
    asked for, and passes over what other sessions have locked. On a healthy server every operation of the
    three durable limiters returns a decision.
  \<^item> The core arithmetic never overflows where the constructors promise so, delays are exact, encodings
    are injective and Serde forms validate and round-trip.

  \<^bold>\<open>Bounds and assumptions.\<close> Clock readings are \<open>Duration\<close>s, hence below \<open>CLOCK_BOUND\<close> milliseconds; GCRA is
  exact below \<open>2\<^sup>6\<^sup>4\<close> milliseconds and reports overflow beyond, changing nothing. SHA-256 and HMAC are
  parameters; where two configurations must not share a counter, a table \<open>tab\<close> from fingerprints to
  configurations (or an equality of limits) says that fingerprints in use do not collide. UUIDs of the
  database are a parameter, assumed distinct where a claim relies on it. Loops are
  structural recursions or have a termination proof; no fuel is used.

  \<^bold>\<open>Not modelled.\<close> Redacting \<open>Debug\<close> output; polling, wakers and cancellation of futures;
  \<open>std::collections\<close> beyond its map and ordering laws (the shard locks of one operation are taken
  together). Of the Postgres backend: the migrator of SQLx, and interleavings of
  transactions (the model runs one transaction after another; the locks that other sessions hold meanwhile
  are any function of the time, and only \<open>SKIP LOCKED\<close> sees them, since waiting for a lock is a delay or a
  timeout of the script); sessions run in UTC.
\<close>

end
